(* ===== verification/Prelude.thy ===== *)
theory Prelude
  imports Main "HOL-Library.Word" "HOL-Library.Char_ord"
begin

unbundle bit_operations_syntax

text \<open>
  What every component shares: the C types at their LP64 width, the faults a C program can
  run into, the sequencing of statements that may fault, and decimal printing and parsing.

  A handler of the module is a function from the kernel state to \<open>fault + ('a \<times> state)\<close>:
  \<open>Inl f\<close> says that the machine code has no behaviour this model can follow (a NULL or dangling
  pointer is dereferenced, memory outside the object is touched, a spinlock is taken twice), and
  \<open>Inr\<close> carries the returned value and the next state.
\<close>

section \<open>C types\<close>

type_synonym u64 = "64 word"   \<comment> \<open>unsigned long, long, void *\<close>
type_synonym u32 = "32 word"   \<comment> \<open>int, unsigned int, pid_t\<close>
type_synonym pid_t = "32 word"
type_synonym addr = nat        \<comment> \<open>the identity of one allocation\<close>

datatype fault =
    NullDeref
  | UseAfterFree
  | OutOfBounds
  | ListCorrupt   \<comment> \<open>a bit operation lands on the link words of a live list node\<close>
  | Deadlock      \<comment> \<open>a spinlock is taken while it is held\<close>
  | NotLocked     \<comment> \<open>a spinlock is released while it is free\<close>
  | Uninit        \<comment> \<open>memory is read that was never written, or whose object was freed\<close>
  | DivByZero
  | Misaligned    \<comment> \<open>an operand is not aligned as the instruction, or this model, needs\<close>
  | IntOverflow
  | NoReturn      \<comment> \<open>the call does not come back\<close>
  | Exited        \<comment> \<open>the program has called \<^verbatim>\<open>exit\<close>\<close>
  | Aborted       \<comment> \<open>the program has called \<^verbatim>\<open>abort\<close>\<close>
  | BadWidth      \<comment> \<open>a calendar queue is about to be resized to a negative bucket width\<close>

section \<open>Sequencing\<close>

fun kbind :: "'e + 'a \<Rightarrow> ('a \<Rightarrow> 'e + 'b) \<Rightarrow> 'e + 'b" where
  "kbind (Inl e) g = Inl e"
| "kbind (Inr a) g = g a"

lemma kbind_Inr_iff: "kbind m g = Inr b \<longleftrightarrow> (\<exists>a. m = Inr a \<and> g a = Inr b)"
  by (cases m) auto

lemma kbind_Inl_iff: "kbind m g = Inl e \<longleftrightarrow> m = Inl e \<or> (\<exists>a. m = Inr a \<and> g a = Inl e)"
  by (cases m) auto

lemma kbind_cong [fundef_cong]:
  "m = m' \<Longrightarrow> (\<And>a. m' = Inr a \<Longrightarrow> g a = g' a) \<Longrightarrow> kbind m g = kbind m' g'"
  by (cases m') auto

definition nonnull :: "addr option \<Rightarrow> fault + addr" where
  "nonnull p = (case p of None \<Rightarrow> Inl NullDeref | Some a \<Rightarrow> Inr a)"

lemma nonnull_simps [simp]: "nonnull None = Inl NullDeref" "nonnull (Some a) = Inr a"
  by (simp_all add: nonnull_def)

definition deref :: "(addr \<Rightarrow> 'a option) \<Rightarrow> addr \<Rightarrow> fault + 'a" where
  "deref h a = (case h a of None \<Rightarrow> Inl UseAfterFree | Some x \<Rightarrow> Inr x)"

lemma deref_Some [simp]: "h a = Some x \<Longrightarrow> deref h a = Inr x"
  by (simp add: deref_def)

lemma deref_None [simp]: "h a = None \<Longrightarrow> deref h a = Inl UseAfterFree"
  by (simp add: deref_def)

lemma deref_Inr_iff: "deref h a = Inr x \<longleftrightarrow> h a = Some x"
  by (simp add: deref_def split: option.splits)

section \<open>Generic facts\<close>

lemma inj_on_insert_upd:
  "inj_on f A \<Longrightarrow> a \<notin> A \<Longrightarrow> (\<And>x. x \<in> A \<Longrightarrow> f x \<noteq> v) \<Longrightarrow> inj_on (f(a := v)) (insert a A)"
  unfolding inj_on_def by (metis fun_upd_apply insert_iff)

section \<open>Decimal numbers\<close>

definition digit_char :: "nat \<Rightarrow> char" where
  "digit_char d = char_of (48 + d)"

fun dec :: "nat \<Rightarrow> string" where
  "dec n = (if n < 10 then [digit_char n] else dec (n div 10) @ [digit_char (n mod 10)])"

declare dec.simps [simp del]

definition digit_val :: "char \<Rightarrow> nat option" where
  "digit_val c = (let n = (of_char c :: nat) in if 48 \<le> n \<and> n \<le> 57 then Some (n - 48) else None)"

fun parse_digits :: "nat \<Rightarrow> string \<Rightarrow> nat option" where
  "parse_digits acc [] = Some acc"
| "parse_digits acc (c # cs) =
     (case digit_val c of None \<Rightarrow> None | Some d \<Rightarrow> parse_digits (10 * acc + d) cs)"

definition parse_dec :: "string \<Rightarrow> nat option" where
  "parse_dec s = (if s = [] then None else parse_digits 0 s)"

lemma digit_val_char [simp]: "d < 10 \<Longrightarrow> digit_val (digit_char d) = Some d"
  by (simp add: digit_val_def digit_char_def of_char_of)

lemma parse_digits_append:
  "parse_digits a (xs @ ys) = (case parse_digits a xs of None \<Rightarrow> None | Some b \<Rightarrow> parse_digits b ys)"
  by (induction xs arbitrary: a) (auto split: option.splits)

lemma dec_not_Nil [simp]: "dec n \<noteq> []"
  by (subst dec.simps) simp

lemma parse_digits_dec: "parse_digits 0 (dec n) = Some n"
proof (induction n rule: dec.induct)
  case (1 n)
  show ?case
  proof (cases "n < 10")
    case True
    then show ?thesis by (subst dec.simps) simp
  next
    case False
    then show ?thesis
      using "1.IH" by (subst dec.simps) (simp add: parse_digits_append)
  qed
qed

lemma parse_dec_dec [simp]: "parse_dec (dec n) = Some n"
  by (simp add: parse_dec_def parse_digits_dec)

lemma length_dec_le: "0 < k \<Longrightarrow> n < 10 ^ k \<Longrightarrow> length (dec n) \<le> k"
proof (induction n arbitrary: k rule: dec.induct)
  case (1 n)
  show ?case
  proof (cases "n < 10")
    case True
    with 1 show ?thesis by (subst dec.simps) simp
  next
    case False
    have "k \<noteq> 1" using False "1.prems" by auto
    with "1.prems" obtain j where j: "k = Suc j" "0 < j"
      by (cases k) auto
    with "1.prems" have "n div 10 < 10 ^ j"
      by (simp add: less_mult_imp_div_less mult.commute)
    with False j "1.IH" [of j] show ?thesis
      by (subst dec.simps) simp
  qed
qed

end
