(* ===== verification/Double.thy ===== *)
theory Double
  imports Prelude Complex_Main
begin

text \<open>
  The C type \<^verbatim>\<open>double\<close> of x86-64: IEEE 754 binary64 with rounding to nearest, ties to
  even. A finite value other than -0 is the rational number it stands for; \<open>rnd\<close> rounds an exact
  result to a value of the format, with gradual underflow and overflow to the infinities. The
  conversions to an integer type truncate; where C leaves the result undefined (a NaN, a value out
  of range) they give what the processor's \<^verbatim>\<open>cvttsd2si\<close> gives, the least integer of the
  type.
\<close>

section \<open>Values and rounding\<close>

datatype double = NaN | PInf | NInf | NZero | Fin rat

definition is_nan :: "double \<Rightarrow> bool" where
  "is_nan x \<longleftrightarrow> (case x of NaN \<Rightarrow> True | _ \<Rightarrow> False)"

definition rat_val :: "double \<Rightarrow> rat" where
  "rat_val x = (case x of Fin r \<Rightarrow> r | _ \<Rightarrow> 0)"

definition sign_bit :: "double \<Rightarrow> bool" where
  "sign_bit x \<longleftrightarrow> (case x of NInf \<Rightarrow> True | NZero \<Rightarrow> True | Fin r \<Rightarrow> r < 0 | _ \<Rightarrow> False)"

definition is_inf :: "double \<Rightarrow> bool" where
  "is_inf x \<longleftrightarrow> (case x of PInf \<Rightarrow> True | NInf \<Rightarrow> True | _ \<Rightarrow> False)"

definition zero_d :: "bool \<Rightarrow> double" where
  "zero_d s = (if s then NZero else Fin 0)"

definition inf_d :: "bool \<Rightarrow> double" where
  "inf_d s = (if s then NInf else PInf)"

text \<open>The exponent of a positive rational, the largest \<open>e\<close> with \<open>2 ^ e \<le> x\<close>.\<close>

fun ilog2 :: "int \<Rightarrow> int" where
  "ilog2 n = (if n \<le> 1 then 0 else 1 + ilog2 (n div 2))"

declare ilog2.simps [simp del]

definition exponent :: "rat \<Rightarrow> int" where
  "exponent x = (if 1 \<le> x then ilog2 \<lfloor>x\<rfloor> else - 1 - ilog2 (\<lceil>1 / x\<rceil> - 1))"

definition pow2 :: "int \<Rightarrow> rat" where
  "pow2 e = (if 0 \<le> e then 2 ^ nat e else 1 / 2 ^ nat (- e))"

definition half_even :: "rat \<Rightarrow> int" where
  "half_even x =
     (let n = \<lfloor>x\<rfloor>; d = x - of_int n in
      if d < 1 / 2 then n else if 1 / 2 < d then n + 1 else if even n then n else n + 1)"

definition rnd_pos :: "rat \<Rightarrow> rat" where
  "rnd_pos x = (let u = pow2 (max (exponent x) (- 1022) - 52) in of_int (half_even (x / u)) * u)"

text \<open>\<open>s\<close> is the sign of the exact result, which only a zero needs.\<close>

definition rnd :: "bool \<Rightarrow> rat \<Rightarrow> double" where
  "rnd s x =
     (if x = 0 then zero_d s
      else let r = rnd_pos \<bar>x\<bar> in
        if r = 0 then zero_d (x < 0)
        else if 2 ^ 1024 \<le> r then inf_d (x < 0)
        else Fin (if x < 0 then - r else r))"

section \<open>Comparison\<close>

definition d_lt :: "double \<Rightarrow> double \<Rightarrow> bool" where
  "d_lt x y \<longleftrightarrow>
     (case x of NaN \<Rightarrow> False | PInf \<Rightarrow> False | NInf \<Rightarrow> y \<noteq> NaN \<and> y \<noteq> NInf
      | _ \<Rightarrow> (case y of NaN \<Rightarrow> False | PInf \<Rightarrow> True | NInf \<Rightarrow> False | _ \<Rightarrow> rat_val x < rat_val y))"

definition d_le :: "double \<Rightarrow> double \<Rightarrow> bool" where
  "d_le x y \<longleftrightarrow> \<not> is_nan x \<and> \<not> is_nan y \<and> \<not> d_lt y x"

section \<open>Arithmetic\<close>

definition d_neg :: "double \<Rightarrow> double" where
  "d_neg x = (case x of NaN \<Rightarrow> NaN | PInf \<Rightarrow> NInf | NInf \<Rightarrow> PInf | NZero \<Rightarrow> Fin 0
     | Fin r \<Rightarrow> if r = 0 then NZero else Fin (- r))"

definition d_add :: "double \<Rightarrow> double \<Rightarrow> double" where
  "d_add x y =
     (if is_nan x \<or> is_nan y then NaN
      else if is_inf x then (if is_inf y \<and> y \<noteq> x then NaN else x)
      else if is_inf y then y
      else if x = NZero \<and> y = NZero then NZero
      else rnd False (rat_val x + rat_val y))"

definition d_sub :: "double \<Rightarrow> double \<Rightarrow> double" where
  "d_sub x y = d_add x (d_neg y)"

definition d_mul :: "double \<Rightarrow> double \<Rightarrow> double" where
  "d_mul x y =
     (let s = (sign_bit x \<noteq> sign_bit y) in
      if is_nan x \<or> is_nan y then NaN
      else if is_inf x then (if \<not> is_inf y \<and> rat_val y = 0 then NaN else inf_d s)
      else if is_inf y then (if rat_val x = 0 then NaN else inf_d s)
      else rnd s (rat_val x * rat_val y))"

definition d_div :: "double \<Rightarrow> double \<Rightarrow> double" where
  "d_div x y =
     (let s = (sign_bit x \<noteq> sign_bit y) in
      if is_nan x \<or> is_nan y then NaN
      else if is_inf x then (if is_inf y then NaN else inf_d s)
      else if is_inf y then zero_d s
      else if rat_val y = 0 then (if rat_val x = 0 then NaN else inf_d s)
      else rnd s (rat_val x / rat_val y))"

section \<open>Conversions\<close>

definition d_of_int :: "int \<Rightarrow> double" where
  "d_of_int i = rnd False (of_int i)"

definition d_to_int :: "nat \<Rightarrow> double \<Rightarrow> int" where
  "d_to_int w x =
     (case x of
        Fin r \<Rightarrow> (let t = (if r < 0 then - \<lfloor>- r\<rfloor> else \<lfloor>r\<rfloor>) in
          if - (2 ^ (w - 1)) \<le> t \<and> t < 2 ^ (w - 1) then t else - (2 ^ (w - 1)))
      | NZero \<Rightarrow> 0
      | _ \<Rightarrow> - (2 ^ (w - 1)))"

definition LLONG_MAX :: int where
  "LLONG_MAX = 2 ^ 63 - 1"

section \<open>What the algorithms rely on\<close>

lemma is_nan_simps [simp]: "is_nan NaN" "\<not> is_nan PInf" "\<not> is_nan NInf" "\<not> is_nan NZero" "\<not> is_nan (Fin r)"
  by (simp_all add: is_nan_def)

lemma is_inf_simps [simp]: "\<not> is_inf NaN" "is_inf PInf" "is_inf NInf" "\<not> is_inf NZero" "\<not> is_inf (Fin r)"
  by (simp_all add: is_inf_def)

lemma rat_val_simps [simp]: "rat_val (Fin r) = r" "rat_val NZero = 0"
  by (simp_all add: rat_val_def)

lemma sign_bit_simps [simp]: "sign_bit NInf" "sign_bit NZero" "\<not> sign_bit NaN" "\<not> sign_bit PInf" "sign_bit (Fin r) \<longleftrightarrow> r < 0"
  by (simp_all add: sign_bit_def)

lemma d_lt_simps [simp]:
  "\<not> d_lt NaN y" "\<not> d_lt x NaN" "\<not> d_lt PInf y" "\<not> d_lt x NInf"
  "d_lt (Fin a) (Fin b) \<longleftrightarrow> a < b" "d_lt (Fin a) NZero \<longleftrightarrow> a < 0" "d_lt NZero (Fin b) \<longleftrightarrow> 0 < b"
  "\<not> d_lt NZero NZero" "d_lt (Fin a) PInf" "d_lt NInf (Fin a)" "d_lt NZero PInf" "d_lt NInf NZero"
  "d_lt NInf PInf"
  by (simp_all add: d_lt_def split: double.split)

lemma d_le_simps [simp]: "d_le (Fin a) (Fin b) \<longleftrightarrow> a \<le> b"
  by (auto simp: d_le_def)

text \<open>Away from NaN the comparison is a total preorder; -0 and +0 are its only distinct equals.\<close>

lemma d_le_refl: "\<not> is_nan x \<Longrightarrow> d_le x x"
  by (cases x) (simp_all add: d_le_def)

lemma d_le_trans: "d_le x y \<Longrightarrow> d_le y z \<Longrightarrow> d_le x z"
  by (cases x; cases y; cases z) (simp_all add: d_le_def)

lemma d_not_lt: "\<not> is_nan x \<Longrightarrow> \<not> is_nan y \<Longrightarrow> \<not> d_lt x y \<longleftrightarrow> d_le y x"
  by (simp add: d_le_def)

lemma d_lt_le: "d_lt x y \<Longrightarrow> d_le x y"
  by (cases x; cases y) (simp_all add: d_le_def)

lemma d_le_not_nan: "d_le x y \<Longrightarrow> \<not> is_nan x \<and> \<not> is_nan y"
  by (simp add: d_le_def)

lemma d_le_lt_trans: "d_le x y \<Longrightarrow> d_lt y z \<Longrightarrow> d_lt x z"
  by (cases x; cases y; cases z) (simp_all add: d_le_def)

text \<open>Rounding keeps the sign.\<close>

lemma half_even_nonneg: "0 \<le> x \<Longrightarrow> 0 \<le> half_even x"
  by (simp add: half_even_def Let_def)

lemma pow2_pos: "0 < pow2 e"
  by (simp add: pow2_def)

lemma rnd_pos_nonneg: "0 \<le> x \<Longrightarrow> 0 \<le> rnd_pos x"
  using pow2_pos [of "max (exponent x) (- 1022) - 52"]
  by (simp add: rnd_pos_def Let_def half_even_nonneg)

definition nonneg :: "double \<Rightarrow> bool" where
  "nonneg x \<longleftrightarrow> d_le (Fin 0) x"

lemma nonneg_simps [simp]:
  "\<not> nonneg NaN" "nonneg PInf" "\<not> nonneg NInf" "nonneg NZero" "nonneg (Fin r) \<longleftrightarrow> 0 \<le> r"
  by (auto simp: nonneg_def d_le_def)

lemma rnd_nonneg: "0 \<le> x \<Longrightarrow> nonneg (rnd s x)"
  using rnd_pos_nonneg [of x] by (auto simp: rnd_def Let_def zero_d_def inf_d_def)

text \<open>A quotient of non-negative numbers truncates to a non-negative integer, or to the least one.\<close>

lemma nonneg_to_int:
  "nonneg x \<Longrightarrow> 0 \<le> d_to_int w x \<or> d_to_int w x = - (2 ^ (w - 1))"
  by (cases x) (simp_all add: d_to_int_def Let_def)

lemma quotient_to_int:
  assumes "nonneg x" "\<not> d_lt y (Fin 0)"
  shows "0 \<le> d_to_int w (d_div x y) \<or> d_to_int w (d_div x y) = - (2 ^ (w - 1))"
proof (cases "nonneg (d_div x y)")
  case True
  then show ?thesis by (rule nonneg_to_int)
next
  case False
  with assms have "d_div x y = NaN \<or> d_div x y = NInf"
    using rnd_nonneg [of "rat_val x / rat_val y" "sign_bit x \<noteq> sign_bit y"]
    by (cases x; cases y) (auto simp: d_div_def Let_def inf_d_def zero_d_def split: if_splits)
  then show ?thesis by (auto simp: d_to_int_def)
qed

section \<open>Exact results\<close>

text \<open>Integers below \<open>2 ^ 53\<close>, and fractions of them by a power of two, are values of the format.\<close>

lemma ilog2_nonneg: "0 \<le> ilog2 n"
  by (induction n rule: ilog2.induct) (subst ilog2.simps, auto)

lemma ilog2_less: "n < 2 ^ k \<Longrightarrow> 0 < k \<Longrightarrow> ilog2 n < int k"
proof (induction n arbitrary: k rule: ilog2.induct)
  case (1 n)
  show ?case
  proof (cases "n \<le> 1")
    case True
    with 1 show ?thesis by (subst ilog2.simps) simp
  next
    case False
    with "1.prems" obtain j where j: "k = Suc j" "0 < j" by (cases k; cases "k - 1") auto
    with "1.prems" have "n div 2 < 2 ^ j" by simp
    with "1.IH" [OF False this] j False show ?thesis by (subst ilog2.simps) simp
  qed
qed

lemma exponent_less: "x < 2 ^ k \<Longrightarrow> 0 < k \<Longrightarrow> exponent x < int k"
proof -
  assume x: "x < 2 ^ k" and k: "0 < k"
  then have "\<lfloor>x\<rfloor> < 2 ^ k" by (simp add: floor_less_iff)
  with k show ?thesis
    using ilog2_less [of "\<lfloor>x\<rfloor>" k] ilog2_nonneg [of "\<lceil>1 / x\<rceil> - 1"] by (auto simp: exponent_def)
qed

lemma half_even_of_int [simp]: "half_even (of_int n) = n"
  by (simp add: half_even_def)

lemma half_even_le: "x \<le> of_int n \<Longrightarrow> half_even x \<le> n"
proof -
  assume x: "x \<le> of_int n"
  then have f: "\<lfloor>x\<rfloor> \<le> n" by linarith
  show ?thesis
  proof (cases "\<lfloor>x\<rfloor> = n")
    case True
    with x have "x = of_int n" by linarith
    then show ?thesis by simp
  next
    case False
    with f show ?thesis by (simp add: half_even_def Let_def)
  qed
qed

text \<open>The unit in the last place of a number below \<open>2 ^ (53 - j)\<close> divides \<open>1 / 2 ^ j\<close>.\<close>

lemma ulp:
  assumes "x < 2 ^ (53 - j)" "j < 53"
  obtains t where "pow2 (max (exponent x) (- 1022) - 52) = 1 / 2 ^ (j + t)"
proof
  let ?E = "max (exponent x) (- 1022) - 52"
  have "exponent x < int (53 - j)" using assms by (intro exponent_less) auto
  with assms(2) have "?E \<le> - int j" by auto
  moreover from this have "pow2 ?E = 1 / 2 ^ nat (- ?E)" by (auto simp: pow2_def)
  ultimately show "pow2 ?E = 1 / 2 ^ (j + (nat (- ?E) - j))" by simp
qed

lemma rnd_pos_exact:
  assumes "x < 2 ^ (53 - j)" "j < 53" "x * 2 ^ j = of_int m"
  shows "rnd_pos x = x"
proof -
  obtain t where u: "pow2 (max (exponent x) (- 1022) - 52) = 1 / 2 ^ (j + t)"
    by (rule ulp [OF assms(1,2)])
  have "x * 2 ^ (j + t) = of_int (m * 2 ^ t)" using assms(3) by (simp add: power_add mult.assoc [symmetric])
  moreover from this have "half_even (x * 2 ^ (j + t)) = m * 2 ^ t" by (simp only: half_even_of_int)
  ultimately show ?thesis by (simp add: rnd_pos_def Let_def u field_simps)
qed

lemma rnd_exact:
  assumes "\<bar>x\<bar> < 2 ^ (53 - j)" "j < 53" "x * 2 ^ j \<in> \<int>" "x \<noteq> 0"
  shows "rnd s x = Fin x"
proof -
  from assms(3) obtain m where m: "\<bar>x\<bar> * 2 ^ j = of_int m"
    by (metis Ints_abs Ints_cases abs_mult abs_numeral power_abs)
  have "rnd_pos \<bar>x\<bar> = \<bar>x\<bar>" by (rule rnd_pos_exact [OF assms(1,2) m])
  moreover have "\<bar>x\<bar> < 2 ^ 1024"
    using assms(1) by (rule less_le_trans) (rule power_increasing; simp)
  ultimately show ?thesis using assms(4) by (auto simp: rnd_def Let_def)
qed

lemma rnd_dyadic: "x * 256 \<in> \<int> \<Longrightarrow> \<bar>x\<bar> < 2 ^ 45 \<Longrightarrow> x \<noteq> 0 \<Longrightarrow> rnd s x = Fin x"
  using rnd_exact [of x 8 s] by simp

lemma rnd_zero [simp]: "rnd s 0 = zero_d s"
  by (simp add: rnd_def)

lemma d_of_int_exact: "\<bar>i\<bar> < 2 ^ 53 \<Longrightarrow> d_of_int i = Fin (of_int i)"
proof (cases "i = 0")
  case False
  assume "\<bar>i\<bar> < 2 ^ 53"
  then have "\<bar>of_int i :: rat\<bar> < of_int (2 ^ 53)" by (simp only: of_int_abs [symmetric] of_int_less_iff)
  with False show ?thesis using rnd_exact [of "of_int i" 0 False] by (simp add: d_of_int_def)
qed (simp add: d_of_int_def zero_d_def)

lemma rnd_pos_le:
  assumes "x \<le> of_int m" "m < 2 ^ 53" "0 \<le> x"
  shows "rnd_pos x \<le> of_int m"
proof -
  have "x < 2 ^ 53" using assms(1,2) by (metis le_less_trans of_int_less_iff of_int_numeral of_int_power)
  then obtain t where u: "pow2 (max (exponent x) (- 1022) - 52) = 1 / 2 ^ (0 + t)"
    using ulp [of x 0] by auto
  have "half_even (x * 2 ^ t) \<le> m * 2 ^ t"
    by (rule half_even_le) (use assms(1) in simp)
  then have "(of_int (half_even (x * 2 ^ t)) :: rat) \<le> of_int (m * 2 ^ t)" by (simp only: of_int_le_iff)
  then show ?thesis by (simp add: rnd_pos_def Let_def u field_simps)
qed

lemma d_to_int_rnd:
  assumes "0 \<le> x" "x \<le> of_int m" "m < 2 ^ 31"
  shows "0 \<le> d_to_int 32 (rnd s x) \<and> d_to_int 32 (rnd s x) \<le> m"
proof -
  have r: "0 \<le> rnd_pos x" "rnd_pos x \<le> of_int m"
    using rnd_pos_nonneg [of x] rnd_pos_le [of x m] assms by auto
  have m: "(of_int m :: rat) < 2 ^ 31"
    using assms(3) by (metis of_int_less_iff of_int_numeral of_int_power)
  have n: "0 \<le> m" using assms(1,2) by (metis of_int_0_le_iff order_trans)
  have "rnd s x = zero_d s \<or> rnd s x = zero_d False \<or> rnd s x = Fin (rnd_pos x)"
    using r m assms(1) by (auto simp: rnd_def Let_def)
  moreover have "0 \<le> \<lfloor>rnd_pos x\<rfloor>" "\<lfloor>rnd_pos x\<rfloor> \<le> m" "rnd_pos x < 2 ^ 31" using r m by linarith+
  ultimately show ?thesis using n assms(3) r(1) by (auto simp: d_to_int_def zero_d_def Let_def)
qed

section \<open>Evaluation\<close>

lemmas d_eval = d_add_def d_sub_def d_neg_def d_mul_def d_div_def d_of_int_exact d_to_int_def
  rnd_dyadic zero_d_def inf_d_def

end
