(* ===== verification/Rounding.thy ===== *)
theory Rounding
  imports Double
begin

text \<open>
  Bounds on rounded results, which the simulation needs of its random numbers, gains and powers:
  rounding does not cross a multiple of \<open>2 ^ -53\<close> below 1 or an integer, and takes away at most
  half of a normal number.
\<close>

section \<open>Rounding below 1\<close>

lemma exponent_neg: "x < 1 \<Longrightarrow> exponent x \<le> - 1"
  using ilog2_nonneg [of "\<lceil>1 / x\<rceil> - 1"] by (simp add: exponent_def)

lemma half_even_ge: "of_int n \<le> x \<Longrightarrow> n \<le> half_even x"
  by (auto simp: half_even_def Let_def le_floor_iff) (metis le_floor_iff add_increasing2 zero_le_one)

text \<open>Rounding does not cross a multiple of \<open>2 ^ -53\<close>.\<close>

lemma rnd_pos_between:
  assumes "0 \<le> x" "x < 1"
  shows "x \<le> of_int m / 2 ^ 53 \<Longrightarrow> rnd_pos x \<le> of_int m / 2 ^ 53"
    and "of_int m / 2 ^ 53 \<le> x \<Longrightarrow> of_int m / 2 ^ 53 \<le> rnd_pos x"
proof -
  let ?E = "max (exponent x) (- 1022) - 52"
  have e: "?E \<le> - 53" using exponent_neg [OF assms(2)] by simp
  then obtain t where t: "nat (- ?E) = 53 + t" using le_Suc_ex [of 53 "nat (- ?E)"] by (metis nat_le_iff minus_le_iff nat_mono nat_numeral neg_le_iff_le minus_minus)
  with e have u: "pow2 ?E = 1 / 2 ^ (53 + t)" by (auto simp: pow2_def)
  { assume "x \<le> of_int m / 2 ^ 53"
    then have "half_even (x * 2 ^ (53 + t)) \<le> m * 2 ^ t"
      by (intro half_even_le) (simp add: power_add field_simps)
    then have "(of_int (half_even (x * 2 ^ (53 + t))) :: rat) \<le> of_int (m * 2 ^ t)" by (simp only: of_int_le_iff)
    then show "rnd_pos x \<le> of_int m / 2 ^ 53" by (simp add: rnd_pos_def Let_def u power_add field_simps) }
  { assume "of_int m / 2 ^ 53 \<le> x"
    then have "m * 2 ^ t \<le> half_even (x * 2 ^ (53 + t))"
      by (intro half_even_ge) (simp add: power_add field_simps)
    then have "(of_int (m * 2 ^ t) :: rat) \<le> of_int (half_even (x * 2 ^ (53 + t)))" by (simp only: of_int_le_iff)
    then show "of_int m / 2 ^ 53 \<le> rnd_pos x" by (simp add: rnd_pos_def Let_def u power_add field_simps) }
qed

lemma ilog2_eq: "2 ^ k \<le> n \<Longrightarrow> n < 2 ^ Suc k \<Longrightarrow> ilog2 n = int k"
proof (induction k arbitrary: n)
  case 0
  then show ?case by (subst ilog2.simps) simp
next
  case (Suc k)
  then have "2 ^ k \<le> n div 2" "n div 2 < 2 ^ Suc k" by auto
  moreover have "(2::int) * 2 ^ k > 1" using zero_less_power [of "2::int" k] by linarith
  ultimately show ?case using Suc.IH [of "n div 2"] Suc.prems(1) by (subst ilog2.simps) auto
qed

lemma rnd_between:
  assumes "of_int m / 2 ^ 53 \<le> x" "x \<le> of_int n / 2 ^ 53" "0 < m" "n < 2 ^ 53"
  obtains r where "rnd s x = Fin r" "of_int m / 2 ^ 53 \<le> r" "r \<le> of_int n / 2 ^ 53"
proof -
  have n: "(of_int n :: rat) < 2 ^ 53" using assms(4) by (metis of_int_less_iff of_int_numeral of_int_power)
  have x: "0 < x" "x < 1"
    using assms(1-3) n by (auto simp: field_simps intro: less_le_trans le_less_trans)
  have r: "of_int m / 2 ^ 53 \<le> rnd_pos x" "rnd_pos x \<le> of_int n / 2 ^ 53"
    using rnd_pos_between x assms(1,2) by auto
  moreover have "0 < rnd_pos x" "rnd_pos x < 1"
    using r assms(3) n by (auto simp: field_simps intro: less_le_trans le_less_trans)
  moreover have "(1::rat) < 2 ^ 1024" by simp
  ultimately show ?thesis using that [of "rnd_pos x"] x less_trans [of "rnd_pos x" 1 "2 ^ 1024"]
    by (simp add: rnd_def Let_def)
qed

section \<open>Bounded results\<close>

lemma rnd_fin:
  assumes "0 \<le> x" "x \<le> of_int m" "m < 2 ^ 53"
  obtains r where "rnd False x = Fin r" "0 \<le> r" "r \<le> of_int m" "x \<noteq> 0 \<Longrightarrow> r = rnd_pos x"
proof (cases "x = 0")
  case True
  then show ?thesis using that [of 0] assms by (simp add: zero_d_def)
next
  case False
  have r: "0 \<le> rnd_pos x" "rnd_pos x \<le> of_int m"
    using rnd_pos_nonneg [OF assms(1)] rnd_pos_le [OF assms(2,3,1)] by auto
  have "(of_int m :: rat) < 2 ^ 53" using assms(3) by (metis of_int_less_iff of_int_numeral of_int_power)
  also have "(2 ^ 53 :: rat) < 2 ^ 1024" by simp
  finally have "rnd False x = Fin (rnd_pos x)" using False assms(1) r by (auto simp: rnd_def Let_def zero_d_def)
  then show ?thesis using that r by blast
qed

lemma d_mul_fin:
  assumes "0 \<le> a" "0 \<le> b" "a * b \<le> of_int m" "m < 2 ^ 53"
  obtains r where "d_mul (Fin a) (Fin b) = Fin r" "0 \<le> r" "r \<le> of_int m" "a * b \<noteq> 0 \<Longrightarrow> r = rnd_pos (a * b)"
proof -
  have "d_mul (Fin a) (Fin b) = rnd False (a * b)" using assms(1,2) by (simp add: d_mul_def)
  then show ?thesis using rnd_fin [of "a * b" m] assms that by (metis mult_nonneg_nonneg)
qed

section \<open>Normal numbers\<close>

lemma ilog2_bounds:
  assumes "1 \<le> n"
  shows "2 ^ nat (ilog2 n) \<le> n" "n < 2 * 2 ^ nat (ilog2 n)"
proof -
  have "2 ^ nat (ilog2 n) \<le> n \<and> n < 2 * 2 ^ nat (ilog2 n)"
    using assms
  proof (induction n rule: ilog2.induct)
    case (1 n)
    show ?case
    proof (cases "n \<le> 1")
      case True
      with 1 show ?thesis by (subst (1 2) ilog2.simps) simp
    next
      case False
      then have h: "2 ^ nat (ilog2 (n div 2)) \<le> n div 2 \<and> n div 2 < 2 * 2 ^ nat (ilog2 (n div 2))"
        using "1.IH" by simp
      have "nat (ilog2 n) = Suc (nat (ilog2 (n div 2)))"
        using False ilog2_nonneg [of "n div 2"] by (subst ilog2.simps) simp
      then show ?thesis using h by (simp only: power_Suc) linarith
    qed
  qed
  then show "2 ^ nat (ilog2 n) \<le> n" "n < 2 * 2 ^ nat (ilog2 n)" by simp_all
qed

lemma exponent_bounds:
  assumes "0 < x"
  shows "pow2 (exponent x) \<le> x" "x < 2 * pow2 (exponent x)"
proof -
  have "pow2 (exponent x) \<le> x \<and> x < 2 * pow2 (exponent x)"
  proof (cases "1 \<le> x")
    case True
    let ?n = "\<lfloor>x\<rfloor>"
    have n: "1 \<le> ?n" using True by simp
    have e: "pow2 (exponent x) = of_int (2 ^ nat (ilog2 ?n))" using True ilog2_nonneg [of ?n] by (simp add: exponent_def pow2_def)
    have "(of_int (2 ^ nat (ilog2 ?n)) :: rat) \<le> of_int ?n" "(of_int (?n + 1) :: rat) \<le> of_int (2 * 2 ^ nat (ilog2 ?n))"
      using ilog2_bounds [OF n] unfolding of_int_le_iff by linarith+
    then have "(of_int (2 ^ nat (ilog2 ?n)) :: rat) \<le> x" "x < of_int (2 * 2 ^ nat (ilog2 ?n))"
      using floor_correct [of x] by linarith+
    then show ?thesis unfolding e by simp
  next
    case False
    let ?n = "\<lceil>1 / x\<rceil> - 1"
    have x: "1 < 1 / x" using False assms by (simp add: field_simps)
    then have n: "1 \<le> ?n" by linarith
    have e: "pow2 (exponent x) = 1 / of_int (2 * 2 ^ nat (ilog2 ?n))"
      using False ilog2_nonneg [of ?n] by (simp add: exponent_def pow2_def nat_add_distrib)
    have "(of_int (2 ^ nat (ilog2 ?n)) :: rat) \<le> of_int ?n" "(of_int (?n + 1) :: rat) \<le> of_int (2 * 2 ^ nat (ilog2 ?n))"
      using ilog2_bounds [OF n] unfolding of_int_le_iff by linarith+
    moreover have "of_int ?n < 1 / x" "1 / x \<le> of_int (?n + 1)" by linarith+
    ultimately have "of_int (2 ^ nat (ilog2 ?n)) < 1 / x" "1 / x \<le> of_int (2 * 2 ^ nat (ilog2 ?n))" by linarith+
    then have "(2 ^ nat (ilog2 ?n) :: rat) < 1 / x" "1 / x \<le> 2 * 2 ^ nat (ilog2 ?n)"
      by (simp_all only: of_int_power of_int_mult of_int_numeral)
    then show ?thesis unfolding e using assms by (simp add: field_simps)
  qed
  then show "pow2 (exponent x) \<le> x" "x < 2 * pow2 (exponent x)" by simp_all
qed

lemma pow2_mono: "d \<le> e \<Longrightarrow> pow2 d \<le> pow2 e"
  by (auto simp: pow2_def field_simps simp flip: power_add intro: power_increasing one_le_power order_trans)

lemma pow2_add: "pow2 (d + int n) = pow2 d * 2 ^ n"
  by (auto simp: pow2_def field_simps nat_add_distrib simp flip: power_add) 

lemma rnd_pos_half:
  assumes "1 / 2 ^ 1000 \<le> x"
  shows "x / 2 \<le> rnd_pos x"
proof -
  let ?e = "exponent x" and ?u = "pow2 (max (exponent x) (- 1022) - 52)"
  have x: "0 < x" using assms by (rule less_le_trans [rotated]) simp
  have "- 1001 < ?e"
  proof (rule ccontr)
    assume "\<not> - 1001 < ?e"
    then have "pow2 ?e \<le> pow2 (- 1001)" by (intro pow2_mono) simp
    also have "\<dots> = 1 / 2 ^ 1001" by (simp only: pow2_def) simp
    finally have "2 * pow2 ?e \<le> 1 / 2 ^ 1000" by simp
    with exponent_bounds(2) [OF x] assms show False by linarith
  qed
  then have u: "?u = pow2 (?e - 52)" by simp
  have e: "pow2 ?e = ?u * 2 ^ 52" using pow2_add [of "?e - 52" 52] u by simp
  then have "of_int (2 ^ 52) \<le> x / ?u" using exponent_bounds(1) [OF x] pow2_pos by (simp add: pos_le_divide_eq)
  then have "2 ^ 52 \<le> half_even (x / ?u)" by (rule half_even_ge)
  then have "(of_int (2 ^ 52) :: rat) \<le> of_int (half_even (x / ?u))" by (simp only: of_int_le_iff)
  then have "2 ^ 52 * ?u \<le> rnd_pos x" using pow2_pos by (simp add: rnd_pos_def Let_def)
  with e exponent_bounds(2) [OF x] show ?thesis by simp
qed

end
