(* ===== verification/Numerical.thy ===== *)
theory Numerical
  imports Rounding
begin

text \<open>
  \<^verbatim>\<open>multi_thread/src/numerical.c\<close>: the random numbers of the simulation. The seed is one 64-bit
  word per thread whose halves are two multiply-with-carry generators. libc and libm are parameters:
  the results of \<^verbatim>\<open>random\<close> in the order of the calls, \<^verbatim>\<open>log\<close> and \<^verbatim>\<open>pow\<close>,
  and which allocations succeed.
\<close>

section \<open>The generators\<close>

record libs =
  libc_random :: "nat \<Rightarrow> u64"
  libm_log :: "double \<Rightarrow> double"
  libm_pow :: "double \<Rightarrow> double \<Rightarrow> double"
  malloc_ok :: "nat \<Rightarrow> bool"   \<comment> \<open>whether the allocation with this number succeeds\<close>

record rng =
  master_seed :: u64
  drawn :: nat          \<comment> \<open>calls to \<^verbatim>\<open>random\<close> so far\<close>

definition mwc :: "u32 \<Rightarrow> u32 \<Rightarrow> u32" where
  "mwc k x = k * (x AND 0xFFFF) + drop_bit 16 x"

text \<open>The factor \<^verbatim>\<open>2.328306435454494e-10\<close>.\<close>

definition scale :: double where
  "scale = rnd False (2328306435454494 / 10 ^ 25)"

definition seed_rng :: "libs \<Rightarrow> rng \<Rightarrow> rng" where
  "seed_rng env r =
     (if master_seed r = 0 then \<lparr>master_seed = libc_random env (drawn r), drawn = drawn r + 1\<rparr> else r)"

definition Random :: "libs \<Rightarrow> rng \<Rightarrow> double \<times> rng" where
  "Random env r =
     (let r = seed_rng env r;
          seed1 = mwc 36969 (ucast (master_seed r));
          seed2 = mwc 18000 (ucast (drop_bit 32 (master_seed r)));
          x = push_bit 16 seed1 + drop_bit 16 seed1 + seed2 in
      (d_mul (d_add (d_of_int (uint x)) (Fin 1)) scale,
       r\<lparr>master_seed := push_bit 32 (ucast seed2) OR ucast seed1\<rparr>))"

definition Expent :: "libs \<Rightarrow> double \<Rightarrow> rng \<Rightarrow> fault + double \<times> rng" where
  "Expent env mean r =
     (if d_lt mean (Fin 0) then Inl Exited
      else let (x, r) = Random env r in
        Inr (d_mul (d_neg mean) (libm_log env (d_sub (Fin 1) x)), r))"

section \<open>The scaling factor\<close>

lemma scale_value: "scale = Fin (2147483647 / 2 ^ 63)"
proof -
  let ?x = "2328306435454494 / 10 ^ 25 :: rat"
  have "\<lceil>1 / ?x\<rceil> = 4294967299" by (rule ceiling_unique) simp_all
  then have "exponent ?x = - 33" using ilog2_eq [of 32 4294967298] by (simp add: exponent_def)
  moreover have "\<lfloor>?x * 2 ^ 85\<rfloor> = 9007199250546687" by (rule floor_unique) simp_all
  ultimately show ?thesis by (simp add: scale_def rnd_def rnd_pos_def Let_def pow2_def half_even_def)
qed

section \<open>The range of the generators\<close>

definition unit_lo :: rat where "unit_lo = 1 / 2 ^ 33"
definition unit_hi :: rat where "unit_hi = (2 ^ 31 - 1) / 2 ^ 31"

lemma scaled:
  assumes "0 \<le> k" "k < 2 ^ 32"
  obtains r where "d_mul (d_add (d_of_int k) (Fin 1)) scale = Fin r" "unit_lo \<le> r" "r \<le> unit_hi"
proof -
  have "\<bar>of_int (k + 1)\<bar> < (2 ^ 53 :: rat)" "\<bar>k\<bar> < 2 ^ 53" "of_int (k + 1) \<noteq> (0 :: rat)" using assms by auto
  then have a: "d_add (d_of_int k) (Fin 1) = Fin (of_int (k + 1))"
    using rnd_exact [of "of_int (k + 1)" 0 False] by (simp add: d_of_int_exact d_add_def)
  let ?y = "of_int (k + 1) * (2147483647 / 2 ^ 63) :: rat"
  have k': "1 \<le> (of_int (k + 1) :: rat)" "(of_int (k + 1) :: rat) \<le> 2 ^ 32" using assms by auto
  have "of_int (2 ^ 20) / 2 ^ 53 \<le> ?y" "?y \<le> of_int (2147483647 * 2 ^ 22) / 2 ^ 53"
    using k' by (simp_all add: field_simps)
  then obtain r where r: "rnd False ?y = Fin r" "of_int (2 ^ 20) / 2 ^ 53 \<le> r" "r \<le> of_int (2147483647 * 2 ^ 22) / 2 ^ 53"
    by (rule rnd_between) auto
  have "d_mul (d_add (d_of_int k) (Fin 1)) scale = Fin r"
    using k'(1) r(1) unfolding a scale_value by (simp add: d_mul_def)
  moreover have "unit_lo \<le> r" "r \<le> unit_hi" using r(2,3) by (simp_all add: unit_lo_def unit_hi_def)
  ultimately show ?thesis by (rule that)
qed

lemma Random_range:
  obtains r where "fst (Random env g) = Fin r" "unit_lo \<le> r" "r \<le> unit_hi"
proof -
  obtain x :: u32 where x: "fst (Random env g) = d_mul (d_add (d_of_int (uint x)) (Fin 1)) scale"
    by (simp add: Random_def Let_def)
  have "0 \<le> uint x" "uint x < 2 ^ 32" using uint_lt2p [of x] by simp_all
  from scaled [OF this] that show ?thesis unfolding x by blast
qed

lemma one_minus:
  assumes "unit_lo \<le> r" "r \<le> unit_hi"
  obtains t where "d_sub (Fin 1) (Fin r) = Fin t" "unit_lo \<le> t" "t \<le> 1 - unit_lo"
proof -
  have "of_int (2 ^ 20) / 2 ^ 53 \<le> 1 - r" "1 - r \<le> of_int (2 ^ 53 - 2 ^ 20) / 2 ^ 53"
    using assms by (simp_all add: unit_lo_def unit_hi_def field_simps)
  then obtain t where t: "rnd False (1 - r) = Fin t" "of_int (2 ^ 20) / 2 ^ 53 \<le> t" "t \<le> of_int (2 ^ 53 - 2 ^ 20) / 2 ^ 53"
    by (rule rnd_between) auto
  have "0 < r" using assms(1) by (simp add: unit_lo_def)
  then have "d_sub (Fin 1) (Fin r) = Fin t" using t(1) by (simp add: d_sub_def d_add_def d_neg_def)
  moreover have "unit_lo \<le> t" "t \<le> 1 - unit_lo" using t(2,3) by (simp_all add: unit_lo_def)
  ultimately show ?thesis by (rule that)
qed

text \<open>What is used of \<^verbatim>\<open>log\<close>: between \<open>2 ^ -33\<close> and \<open>1 - 2 ^ -33\<close>, where the code calls it, it is
  finite and between \<open>log (2 ^ -33) > -23\<close> and \<open>log (1 - 2 ^ -33) < - 2 ^ -34\<close>.\<close>

definition log_ok :: "libs \<Rightarrow> bool" where
  "log_ok env \<longleftrightarrow>
     (\<forall>x. unit_lo \<le> x \<longrightarrow> x \<le> 1 - unit_lo \<longrightarrow> (\<exists>y. libm_log env (Fin x) = Fin y \<and> - 23 \<le> y \<and> y \<le> - (1 / 2 ^ 34)))"

lemma Expent_range:
  assumes "log_ok env" "0 \<le> m" "m \<le> of_int k" "k \<le> 2 ^ 40"
  obtains e g' where "Expent env (Fin m) g = Inr (Fin e, g')" "0 \<le> e" "e \<le> 23 * of_int k" "1 \<le> m \<Longrightarrow> 1 / 2 ^ 35 \<le> e"
proof -
  obtain r where r: "fst (Random env g) = Fin r" "unit_lo \<le> r" "r \<le> unit_hi" by (rule Random_range)
  obtain t where t: "d_sub (Fin 1) (Fin r) = Fin t" "unit_lo \<le> t" "t \<le> 1 - unit_lo" by (rule one_minus [OF r(2,3)])
  obtain y where y: "libm_log env (Fin t) = Fin y" "- 23 \<le> y" "y \<le> - (1 / 2 ^ 34)"
    using assms(1) t(2,3) by (auto simp: log_ok_def)
  have y0: "y < 0" using y(3) by (rule le_less_trans) simp
  let ?e = "rnd_pos (m * - y)"
  have "m * - y \<le> of_int k * 23" using assms(2,3) y(2) by (intro mult_mono) (use y0 in auto)
  then have e: "0 \<le> m * - y" "m * - y \<le> of_int (23 * k)" using assms(2) y0 by (simp_all add: mult_nonneg_nonpos)
  have k: "23 * k < 2 ^ 53" using assms(4) by simp
  have e': "0 \<le> ?e" "?e \<le> of_int (23 * k)"
    using rnd_pos_nonneg [OF e(1)] rnd_pos_le [OF e(2) k e(1)] by auto
  have "(of_int (23 * k) :: rat) < of_int (2 ^ 53)" using k by (simp only: of_int_less_iff)
  then have "(of_int (23 * k) :: rat) < 2 ^ 1024" by (rule less_trans) simp
  with e' have big: "\<not> 2 ^ 1024 \<le> ?e" by simp
  have "\<exists>e. d_mul (d_neg (Fin m)) (Fin y) = Fin e \<and> 0 \<le> e \<and> e \<le> of_int (23 * k) \<and> (1 \<le> m \<longrightarrow> 1 / 2 ^ 35 \<le> e)"
  proof (cases "m = 0")
    case True
    then show ?thesis using y0 assms(3) by (auto simp: d_mul_def d_neg_def zero_d_def)
  next
    case False
    then have "d_mul (d_neg (Fin m)) (Fin y) = rnd False (m * - y)" "0 < m * - y"
      using assms(2) y0 by (auto simp: d_mul_def d_neg_def mult_pos_neg)
    moreover have "1 / 2 ^ 35 \<le> ?e" if "1 \<le> m"
    proof -
      have "1 * (1 / 2 ^ 34) \<le> m * - y" using that y(3) by (intro mult_mono) auto
      then have h: "1 / 2 ^ 34 \<le> m * - y" by simp
      moreover have "(1 / 2 ^ 1000 :: rat) \<le> 1 / 2 ^ 34" by simp
      ultimately have "m * - y / 2 \<le> ?e" by (intro rnd_pos_half) (rule order_trans)
      with h show ?thesis by simp
    qed
    ultimately show ?thesis using e' big by (auto simp: rnd_def Let_def zero_d_def)
  qed
  moreover have "\<not> d_lt (Fin m) (Fin 0)" using assms(2) by simp
  ultimately show ?thesis using that r(1) t(1) y(1) by (cases "Random env g") (auto simp: Expent_def)
qed

section \<open>The state of the generators\<close>

text \<open>A step of a generator does not wrap around, so only 0 is mapped to 0.\<close>

lemma mwc_nat:
  assumes "unat k < 65536"
  shows "unat (mwc k x) = unat k * (unat x mod 65536) + unat x div 65536"
proof -
  have a: "unat (x AND 0xFFFF) = unat x mod 65536"
  proof -
    have "x AND 0xFFFF = take_bit 16 x" by (simp add: take_bit_eq_mask mask_eq_exp_minus_1)
    then show ?thesis by (simp add: take_bit_eq_mod unat_mod_distrib)
  qed
  have d: "unat (drop_bit 16 x) = unat x div 65536" by (simp add: drop_bit_eq_div unat_div_distrib)
  have x: "unat x < 2 ^ 32" using unsigned_less [of x] by simp
  have "unat k * (unat x mod 65536) \<le> 65535 * 65535" using assms by (intro mult_mono) auto
  moreover have "unat x div 65536 < 65536" using x by auto
  ultimately have "unat k * (unat x mod 65536) + unat x div 65536 < 2 ^ 32" by simp
  then show ?thesis by (simp add: mwc_def unat_word_ariths a d)
qed

lemma mwc_0 [simp]: "mwc k 0 = 0"
  by (simp add: mwc_def)

lemma mwc_zero:
  assumes "0 < unat k" "unat k < 65536"
  shows "mwc k x = 0 \<longleftrightarrow> x = 0"
proof -
  have "mwc k x = 0 \<longleftrightarrow> unat x mod 65536 = 0 \<and> unat x div 65536 = 0"
    using mwc_nat [OF assms(2), of x] assms(1) by (simp add: unat_eq_0 [symmetric])
  also have "\<dots> \<longleftrightarrow> unat x = 0" by (metis div_mult_mod_eq add_0 mult_0 div_0 mod_0)
  finally show ?thesis by (simp add: unat_eq_0)
qed

lemma halves:
  "ucast (push_bit 32 (ucast h) OR ucast l :: u64) = (l :: u32)"
  "drop_bit 32 (push_bit 32 (ucast h) OR ucast l :: u64) = ucast (h :: u32)"
  by (auto simp: bit_eq_iff bit_simps dest: bit_imp_le_length)

lemma Random_seed:
  "master_seed (snd (Random env g)) =
     push_bit 32 (ucast (mwc 18000 (ucast (drop_bit 32 (master_seed (seed_rng env g)))))) OR
     ucast (mwc 36969 (ucast (master_seed (seed_rng env g))))"
  "drawn (snd (Random env g)) = drawn (seed_rng env g)"
  by (simp_all add: Random_def Let_def)

lemma upper_half:
  "drop_bit 32 (master_seed (snd (Random env g))) = ucast (mwc 18000 (ucast (drop_bit 32 (master_seed (seed_rng env g)))))"
  by (simp only: Random_seed halves)

lemma seed_zero_iff: "master_seed (snd (Random env g)) = 0 \<longleftrightarrow> master_seed (seed_rng env g) = 0"
proof -
  let ?s = "master_seed (seed_rng env g)"
  have c: "(ucast (ucast h :: u64) :: u32) = h" for h :: u32
    by (rule bit_word_eqI) (simp add: bit_simps)
  have z: "x = 0 \<longleftrightarrow> (ucast x :: u32) = 0 \<and> (ucast (drop_bit 32 x) :: u32) = 0" for x :: u64
  proof
    assume h: "(ucast x :: u32) = 0 \<and> (ucast (drop_bit 32 x) :: u32) = 0"
    show "x = 0"
    proof (rule bit_word_eqI)
      fix n assume n: "n < LENGTH(64)"
      have "bit (ucast x :: u32) n = (n < 32 \<and> bit x n)" "bit (ucast (drop_bit 32 x) :: u32) (n - 32) = (n - 32 < 32 \<and> bit x (32 + (n - 32)))"
        by (simp_all add: bit_simps)
      with h n show "bit x n = bit 0 n" by (cases "n < 32") auto
    qed
  qed simp
  let ?l = "mwc 36969 (ucast ?s)" and ?h = "mwc 18000 (ucast (drop_bit 32 ?s))"
  have "master_seed (snd (Random env g)) = 0 \<longleftrightarrow> ?l = 0 \<and> ?h = 0"
    unfolding Random_seed(1) by (subst z) (simp only: halves c)
  then show ?thesis using z [of ?s] by (simp add: mwc_zero)
qed

section \<open>What the simulation can rely on\<close>

text \<open>C39. \<open>Random\<close> is strictly between 0 and 1, whatever the seed: no rounding reaches an end of the
  interval.\<close>

theorem Random_open_interval: "\<exists>r. fst (Random env g) = Fin r \<and> 0 < r \<and> r < 1"
proof -
  obtain r where "fst (Random env g) = Fin r" "unit_lo \<le> r" "r \<le> unit_hi" by (rule Random_range)
  then show ?thesis by (auto simp: unit_lo_def unit_hi_def)
qed

text \<open>\<open>Expent\<close> with a mean from 0 on returns a finite number between 0 and 23 times the mean,
  and ends the program on a negative mean.\<close>

theorem Expent_returns:
  assumes "log_ok env" "m < 2 ^ 40"
  shows "if m < 0 then Expent env (Fin m) g = Inl Exited
    else \<exists>e g'. Expent env (Fin m) g = Inr (Fin e, g') \<and> 0 \<le> e \<and> e \<le> 23 * of_int \<lceil>m\<rceil>"
proof (cases "m < 0")
  case False
  have "\<lceil>m\<rceil> \<le> 2 ^ 40" using assms(2) by (simp add: ceiling_le_iff)
  then obtain e g' where "Expent env (Fin m) g = Inr (Fin e, g')" "0 \<le> e" "e \<le> 23 * of_int \<lceil>m\<rceil>"
    by (rule Expent_range [OF assms(1), of m "\<lceil>m\<rceil>" g, rotated 2]) (use False in auto)
  then show ?thesis using False by auto
qed (simp add: Expent_def)

definition sample_libs :: libs where
  "sample_libs = \<lparr>libc_random = (\<lambda>_. 5), libm_log = (\<lambda>_. Fin (- 1)), libm_pow = (\<lambda>_ _. Fin 1),
     malloc_ok = (\<lambda>_. True)\<rparr>"

lemma sample_libs_ok: "log_ok sample_libs"
  by (simp add: log_ok_def sample_libs_def)

theorem Expent_returns_witness: "\<exists>e g. Expent sample_libs (Fin 60) \<lparr>master_seed = 0, drawn = 0\<rparr> = Inr (Fin e, g) \<and> e \<le> 1380"
  using Expent_returns [OF sample_libs_ok, of 60 "\<lparr>master_seed = 0, drawn = 0\<rparr>"] by auto

text \<open>\<^verbatim>\<open>random\<close> returns 31 bits, so the upper half of the seed is 0 when it is set, and its
  generator never leaves 0: every number drawn after that comes from the lower generator alone. The
  seed is set once, since the lower generator does not return to 0.\<close>

theorem second_generator_dead:
  assumes "\<forall>i. 0 < unat (libc_random env i) \<and> unat (libc_random env i) < 2 ^ 31" "master_seed g = 0"
    and "g' = ((\<lambda>g. snd (Random env g)) ^^ Suc n) g"
  shows "drop_bit 32 (master_seed g') = 0 \<and> master_seed g' \<noteq> 0 \<and> drawn g' = drawn g + 1"
  using assms(3)
proof (induction n arbitrary: g')
  case 0
  let ?x = "libc_random env (drawn g)"
  have s: "seed_rng env g = \<lparr>master_seed = ?x, drawn = drawn g + 1\<rparr>" using assms(2) by (simp add: seed_rng_def)
  have x: "?x \<noteq> 0" "drop_bit 32 ?x = 0"
    using assms(1) [rule_format, of "drawn g"]
    by (auto simp: unat_eq_zero [symmetric] drop_bit_eq_div unat_div_distrib simp del: unat_eq_zero)
  then show ?case using 0 Random_seed(2) [of env g] seed_zero_iff [of env g] upper_half [of env g] s by (simp add: mwc_zero)
next
  case (Suc n)
  let ?h = "((\<lambda>g. snd (Random env g)) ^^ Suc n) g"
  have h: "drop_bit 32 (master_seed ?h) = 0" "master_seed ?h \<noteq> 0" "drawn ?h = drawn g + 1"
    using Suc.IH [OF refl] by auto
  have "g' = snd (Random env ?h)" "seed_rng env ?h = ?h" using Suc.prems h(2) by (simp_all add: seed_rng_def)
  then show ?case using h Random_seed(2) [of env ?h] seed_zero_iff [of env ?h] upper_half [of env ?h] by (simp add: mwc_zero)
qed

theorem second_generator_dead_witness:
  "drop_bit 32 (master_seed (snd (Random sample_libs (snd (Random sample_libs \<lparr>master_seed = 0, drawn = 0\<rparr>))))) = 0"
  using second_generator_dead [of sample_libs "\<lparr>master_seed = 0, drawn = 0\<rparr>" _ 1]
  by (simp add: sample_libs_def)

end
