(* ===== verification/Channel.thy ===== *)
theory Channel
  imports Numerical "HOL-Library.Signed_Division"
begin

text \<open>
  \<^verbatim>\<open>multi_thread/src/channel.c\<close>: the radio channels of a GSM cell. A cell keeps a bitmap of
  the channels in use and a doubly linked list with a node per call, the newest first; the links are
  called from the other end, \<^verbatim>\<open>prev\<close> leads to the older call. Everything a fiber allocates is
  in a \<open>cell_heap\<close>: cells, nodes, the power data of a node, messages. The loops over the list take a
  bound on their steps; \<^verbatim>\<open>Channel_Inv\<close> shows that \<open>walk_fuel\<close> is enough.
\<close>

section \<open>State\<close>

record sir_data_per_cell =
  fading :: "double option"     \<comment> \<open>\<open>None\<close> until written: the object comes from \<^verbatim>\<open>malloc\<close>\<close>
  power_d :: "double option"

record channel =
  channel_id :: u32
  sir_data :: addr
  next_ch :: "addr option"
  prev_ch :: "addr option"

record lp_state_type =
  channel_counter :: u32
  arriving_calls :: u32
  complete_calls :: u32
  blocked_on_setup :: u32
  blocked_on_handoff :: u32
  leaving_handoffs :: u32
  arriving_handoffs :: u32
  cont_no_sir_aim :: u32
  executed_events :: u32
  lvt :: double
  ta :: double
  ref_ta :: double
  ta_duration :: double
  ta_change :: double
  channels_per_cell :: u32
  channel_state :: "u32 option list"
  channels :: "addr option"
  dummy :: u32
  dummy_flag :: bool

record msg_t =
  sender :: u32
  receiver :: u32
  msg_type :: u32
  timestamp :: "double option"
  msg_channel :: "u32 option"

record cell_heap =
  lps :: "addr \<Rightarrow> lp_state_type option"
  chans :: "addr \<Rightarrow> channel option"
  sirs :: "addr \<Rightarrow> sir_data_per_cell option"
  msgs :: "addr \<Rightarrow> msg_t option"
  next_addr :: addr
  rng_state :: rng

definition malloc :: "libs \<Rightarrow> cell_heap \<Rightarrow> addr option \<times> cell_heap" where
  "malloc env h =
     (if malloc_ok env (next_addr h) then Some (next_addr h) else None, h\<lparr>next_addr := next_addr h + 1\<rparr>)"

definition modify_lp :: "addr \<Rightarrow> (lp_state_type \<Rightarrow> lp_state_type) \<Rightarrow> cell_heap \<Rightarrow> fault + cell_heap" where
  "modify_lp p f h = kbind (deref (lps h) p) (\<lambda>x. Inr (h\<lparr>lps := (lps h)(p := Some (f x))\<rparr>))"

definition modify_chan :: "addr \<Rightarrow> (channel \<Rightarrow> channel) \<Rightarrow> cell_heap \<Rightarrow> fault + cell_heap" where
  "modify_chan p f h = kbind (deref (chans h) p) (\<lambda>x. Inr (h\<lparr>chans := (chans h)(p := Some (f x))\<rparr>))"

definition modify_sir :: "addr \<Rightarrow> (sir_data_per_cell \<Rightarrow> sir_data_per_cell) \<Rightarrow> cell_heap \<Rightarrow> fault + cell_heap" where
  "modify_sir p f h = kbind (deref (sirs h) p) (\<lambda>x. Inr (h\<lparr>sirs := (sirs h)(p := Some (f x))\<rparr>))"

definition written :: "'a option \<Rightarrow> fault + 'a" where
  "written x = (case x of None \<Rightarrow> Inl Uninit | Some v \<Rightarrow> Inr v)"

definition draw :: "(rng \<Rightarrow> fault + 'a \<times> rng) \<Rightarrow> cell_heap \<Rightarrow> fault + 'a \<times> cell_heap" where
  "draw f h = kbind (f (rng_state h)) (\<lambda>(x, g). Inr (x, h\<lparr>rng_state := g\<rparr>))"

section \<open>Constants of \<^verbatim>\<open>model.h\<close>\<close>

definition COMPLETE_CALLS :: u32 where "COMPLETE_CALLS = 15000"
definition TA :: double where "TA = rnd False (16 / 100)"
definition TA_DURATION :: double where "TA_DURATION = Fin 60"
definition CHANNELS_PER_CELL :: u32 where "CHANNELS_PER_CELL = 1000"
definition TA_CHANGE :: double where "TA_CHANGE = Fin 150"
definition CROSS_PATH_GAIN :: double where "CROSS_PATH_GAIN = rnd False (5 / 10 ^ 14)"
definition PATH_GAIN :: double where "PATH_GAIN = rnd False (1 / 10 ^ 10)"
definition MIN_POWER :: double where "MIN_POWER = Fin 3"
definition MAX_POWER :: double where "MAX_POWER = Fin 3000"
definition SIR_AIM :: double where "SIR_AIM = Fin 10"
definition BITS :: nat where "BITS = 32"

definition walk_fuel :: nat where "walk_fuel = 1000"

section \<open>The bitmap\<close>

text \<open>\<^verbatim>\<open>MSK << K\<close> shifts a signed 1; for bit 31 that is what GCC makes of it, the sign bit.\<close>

definition channel_bit :: "u32 \<Rightarrow> u32" where
  "channel_bit i = push_bit (unat i mod BITS) 1"

definition channel_word :: "lp_state_type \<Rightarrow> u32 \<Rightarrow> fault + u32" where
  "channel_word lp i =
     (if unat i div BITS < length (channel_state lp) then written (channel_state lp ! (unat i div BITS))
      else Inl OutOfBounds)"

definition CHECK_CHANNEL :: "lp_state_type \<Rightarrow> u32 \<Rightarrow> fault + bool" where
  "CHECK_CHANNEL lp i = kbind (channel_word lp i) (\<lambda>w. Inr (w AND channel_bit i \<noteq> 0))"

definition SET_CHANNEL :: "lp_state_type \<Rightarrow> u32 \<Rightarrow> fault + lp_state_type" where
  "SET_CHANNEL lp i = kbind (channel_word lp i) (\<lambda>w.
     Inr (lp\<lparr>channel_state := (channel_state lp)[unat i div BITS := Some (w OR channel_bit i)]\<rparr>))"

definition RESET_CHANNEL :: "lp_state_type \<Rightarrow> u32 \<Rightarrow> fault + lp_state_type" where
  "RESET_CHANNEL lp i = kbind (channel_word lp i) (\<lambda>w.
     Inr (lp\<lparr>channel_state := (channel_state lp)[unat i div BITS := Some (w AND NOT (channel_bit i))]\<rparr>))"

section \<open>Time of day\<close>

definition HOUR :: int where "HOUR = 3600"
definition DAY :: int where "DAY = 24 * HOUR"
definition WEEK :: int where "WEEK = 7 * DAY"

definition recompute_ta :: "double \<Rightarrow> double \<Rightarrow> double" where
  "recompute_ta r time_now =
     (let now = d_to_int 32 time_now smod WEEK in
      if 5 * DAY < now then d_mul r (Fin 5)
      else let now = now smod DAY in
      if d_lt (d_of_int now) (d_mul (Fin (17 / 2)) (d_of_int HOUR)) then d_mul r (Fin 4)
      else if now < 13 * HOUR then d_mul r (rnd False (8 / 10))
      else if now < 15 * HOUR then d_mul r (Fin (5 / 2))
      else if now < 19 * HOUR then d_mul r (Fin 2)
      else if now < 21 * HOUR then d_mul r (rnd False (22 / 10))
      else d_mul r (Fin (9 / 2)))"

section \<open>Fading and gains\<close>

fun fading_loop :: "nat \<Rightarrow> libs \<Rightarrow> addr option \<Rightarrow> cell_heap \<Rightarrow> fault + cell_heap" where
  "fading_loop n env None h = Inr h"
| "fading_loop 0 env (Some c) h = Inl NoReturn"
| "fading_loop (Suc n) env (Some c) h =
     kbind (deref (chans h) c) (\<lambda>ch.
     kbind (draw (Expent env (Fin 1)) h) (\<lambda>(x, h).
     kbind (modify_sir (sir_data ch) (\<lambda>sd. sd\<lparr>fading := Some x\<rparr>) h) (\<lambda>h.
     fading_loop n env (prev_ch ch) h)))"

definition fading_recheck :: "libs \<Rightarrow> addr \<Rightarrow> cell_heap \<Rightarrow> fault + cell_heap" where
  "fading_recheck env p h = kbind (deref (lps h) p) (\<lambda>lp. fading_loop walk_fuel env (channels lp) h)"

definition gain :: "libs \<Rightarrow> double \<Rightarrow> rng \<Rightarrow> fault + double \<times> rng" where
  "gain env base g =
     (let (x, g) = Random env g;
          variation = d_mul (Fin 10) x;
          variation = libm_pow env (Fin 10) (d_div variation (Fin 10)) in
      Inr (d_mul base variation, g))"

definition generate_cross_path_gain :: "libs \<Rightarrow> rng \<Rightarrow> fault + double \<times> rng" where
  "generate_cross_path_gain env = gain env CROSS_PATH_GAIN"

definition generate_path_gain :: "libs \<Rightarrow> rng \<Rightarrow> fault + double \<times> rng" where
  "generate_path_gain env = gain env PATH_GAIN"

section \<open>\<^verbatim>\<open>deallocation\<close>\<close>

fun find_node :: "nat \<Rightarrow> u32 \<Rightarrow> addr option \<Rightarrow> cell_heap \<Rightarrow> fault + addr option" where
  "find_node n i None h = Inr None"
| "find_node 0 i (Some c) h = Inl NoReturn"
| "find_node (Suc n) i (Some c) h =
     kbind (deref (chans h) c) (\<lambda>ch. if channel_id ch = i then Inr (Some c) else find_node n i (prev_ch ch) h)"

text \<open>The node \<open>c\<close> is taken out of the list of the cell \<open>p\<close>.\<close>

definition unlink :: "addr \<Rightarrow> addr \<Rightarrow> cell_heap \<Rightarrow> fault + cell_heap" where
  "unlink p c h =
     kbind (deref (lps h) p) (\<lambda>lp.
     kbind (deref (chans h) c) (\<lambda>ch.
     if channels lp = Some c then
       kbind (modify_lp p (\<lambda>lp. lp\<lparr>channels := prev_ch ch\<rparr>) h) (\<lambda>h.
       case prev_ch ch of None \<Rightarrow> Inr h | Some b \<Rightarrow> modify_chan b (\<lambda>x. x\<lparr>next_ch := None\<rparr>) h)
     else
       kbind (case next_ch ch of None \<Rightarrow> Inr h | Some a \<Rightarrow> modify_chan a (\<lambda>x. x\<lparr>prev_ch := prev_ch ch\<rparr>) h) (\<lambda>h.
       case prev_ch ch of None \<Rightarrow> Inr h | Some b \<Rightarrow> modify_chan b (\<lambda>x. x\<lparr>next_ch := next_ch ch\<rparr>) h)))"

definition free_node :: "addr \<Rightarrow> cell_heap \<Rightarrow> fault + cell_heap" where
  "free_node c h =
     kbind (deref (chans h) c) (\<lambda>ch.
     kbind (deref (sirs h) (sir_data ch)) (\<lambda>_.
     Inr (h\<lparr>sirs := (sirs h)(sir_data ch := None), chans := (chans h)(c := None)\<rparr>)))"

definition deallocation :: "libs \<Rightarrow> addr \<Rightarrow> u32 \<Rightarrow> cell_heap \<Rightarrow> fault + cell_heap" where
  "deallocation env p i h =
     kbind (deref (lps h) p) (\<lambda>lp.
     kbind (find_node walk_fuel i (channels lp) h) (\<lambda>c.
     case c of
       None \<Rightarrow> Inl Aborted
     | Some c \<Rightarrow>
         kbind (unlink p c h) (\<lambda>h.
         kbind (deref (lps h) p) (\<lambda>lp.
         kbind (RESET_CHANNEL lp i) (\<lambda>lp.
         kbind (modify_lp p (\<lambda>_. lp) h) (\<lambda>h.
         kbind (free_node c h) (fading_recheck env p)))))))"

section \<open>\<^verbatim>\<open>allocation\<close>\<close>

fun find_free :: "lp_state_type \<Rightarrow> u32 list \<Rightarrow> fault + u32 option" where
  "find_free lp [] = Inr None"
| "find_free lp (i # is) = kbind (CHECK_CHANNEL lp i) (\<lambda>b. if b then find_free lp is else Inr (Some i))"

text \<open>A node with its power data is put at the head of the list. A failing \<^verbatim>\<open>malloc\<close> ends the
  program.\<close>

definition push_node :: "libs \<Rightarrow> addr \<Rightarrow> u32 \<Rightarrow> cell_heap \<Rightarrow> fault + addr \<times> cell_heap" where
  "push_node env p i h =
     (let (c, h) = malloc env h in case c of None \<Rightarrow> Inl Exited | Some c \<Rightarrow>
      kbind (deref (lps h) p) (\<lambda>lp.
      let (sd, h) = malloc env h in case sd of None \<Rightarrow> Inl Exited | Some sd \<Rightarrow>
      let h = h\<lparr>chans := (chans h)(c := Some \<lparr>channel_id = i, sir_data = sd, next_ch = None, prev_ch = channels lp\<rparr>),
                sirs := (sirs h)(sd := Some \<lparr>fading = None, power_d = None\<rparr>)\<rparr> in
      kbind (case channels lp of None \<Rightarrow> Inr h | Some a \<Rightarrow> modify_chan a (\<lambda>x. x\<lparr>next_ch := Some c\<rparr>) h) (\<lambda>h.
      kbind (modify_lp p (\<lambda>lp. lp\<lparr>channels := Some c\<rparr>) h) (\<lambda>h.
      Inr (c, h)))))"

fun interference :: "nat \<Rightarrow> libs \<Rightarrow> addr option \<Rightarrow> double \<Rightarrow> cell_heap \<Rightarrow> fault + double \<times> cell_heap" where
  "interference n env None summ h = Inr (summ, h)"
| "interference 0 env (Some c) summ h = Inl NoReturn"
| "interference (Suc n) env (Some c) summ h =
     kbind (deref (chans h) c) (\<lambda>ch.
     kbind (draw (Expent env (Fin 1)) h) (\<lambda>(x, h).
     kbind (modify_sir (sir_data ch) (\<lambda>sd. sd\<lparr>fading := Some x\<rparr>) h) (\<lambda>h.
     kbind (draw (generate_cross_path_gain env) h) (\<lambda>(g, h).
     kbind (deref (sirs h) (sir_data ch)) (\<lambda>sd.
     kbind (written (power_d sd)) (\<lambda>pw.
     kbind (written (fading sd)) (\<lambda>fd.
     interference n env (prev_ch ch) (d_add summ (d_mul (d_mul g pw) fd)) h)))))))"

definition clamp_power :: "double \<Rightarrow> double" where
  "clamp_power x =
     (let x = (if d_lt x MIN_POWER then MIN_POWER else x) in if d_lt MAX_POWER x then MAX_POWER else x)"

definition set_power :: "libs \<Rightarrow> addr \<Rightarrow> double \<Rightarrow> cell_heap \<Rightarrow> fault + cell_heap" where
  "set_power env sd summ h =
     (if d_le summ (Fin 0) \<and> d_le (Fin 0) summ then modify_sir sd (\<lambda>x. x\<lparr>power_d := Some MIN_POWER\<rparr>) h
      else
        kbind (draw (Expent env (Fin 1)) h) (\<lambda>(fd, h).
        kbind (modify_sir sd (\<lambda>x. x\<lparr>fading := Some fd\<rparr>) h) (\<lambda>h.
        kbind (draw (generate_path_gain env) h) (\<lambda>(g, h).
        modify_sir sd (\<lambda>x. x\<lparr>power_d := Some (clamp_power (d_div (d_mul SIR_AIM summ) (d_mul g fd)))\<rparr>) h))))"

definition allocation :: "libs \<Rightarrow> addr \<Rightarrow> cell_heap \<Rightarrow> fault + u32 \<times> cell_heap" where
  "allocation env p h =
     kbind (deref (lps h) p) (\<lambda>lp.
     kbind (find_free lp (map of_nat [0..<nat (sint (channels_per_cell lp))])) (\<lambda>index.
     case index of
       None \<Rightarrow> Inl Aborted
     | Some i \<Rightarrow>
         kbind (SET_CHANNEL lp i) (\<lambda>lp.
         kbind (modify_lp p (\<lambda>_. lp) h) (\<lambda>h.
         kbind (push_node env p i h) (\<lambda>(c, h).
         kbind (deref (chans h) c) (\<lambda>ch.
         kbind (interference walk_fuel env (prev_ch ch) (Fin 0) h) (\<lambda>(summ, h).
         kbind (set_power env (sir_data ch) summ h) (\<lambda>h.
         kbind (fading_recheck env p h) (\<lambda>h.
         Inr (i, h))))))))))"

end
