(* ===== verification/Model.thy ===== *)
theory Model
  imports Channel
begin

text \<open>
  \<^verbatim>\<open>multi_thread/src/model.c\<close>, the handler of the events of a GSM cell, and the loop of
  \<^verbatim>\<open>main.c\<close> that takes them from the queue. The queue is an argument: its operations \<open>put\<close>
  and \<open>get\<close> are those of \<^verbatim>\<open>Calqueue\<close> in \<open>calqueue_step\<close>, and \<^verbatim>\<open>Model_Inv\<close> states what the
  loop needs of them. The two slots of fiber-local storage the loop allocates hold the queue and the
  state of the cell; here they are the fields of \<open>cell_fiber\<close>.
\<close>

type_synonym 'q putter = "double \<Rightarrow> u64 \<Rightarrow> 'q \<Rightarrow> fault + 'q"
type_synonym 'q getter = "'q \<Rightarrow> fault + u64 \<times> 'q"

section \<open>Events\<close>

definition INIT :: u32 where "INIT = 0"
definition START_CALL :: u32 where "START_CALL = 20"
definition END_CALL :: u32 where "END_CALL = 21"

definition pack_event :: "libs \<Rightarrow> u32 \<Rightarrow> u32 \<Rightarrow> double \<Rightarrow> u32 \<Rightarrow> cell_heap \<Rightarrow> fault + addr \<times> cell_heap" where
  "pack_event env cell type stamp ch h =
     (let (new_evt, h) = malloc env h in
      kbind (nonnull new_evt) (\<lambda>a.
      Inr (a, h\<lparr>msgs := (msgs h)(a := Some \<lparr>sender = cell, receiver = cell, msg_type = type,
                   timestamp = Some stamp, msg_channel = Some ch\<rparr>)\<rparr>)))"

definition schedule_event ::
  "'q putter \<Rightarrow> libs \<Rightarrow> u32 \<Rightarrow> u32 \<Rightarrow> double \<Rightarrow> u32 \<Rightarrow> cell_heap \<Rightarrow> 'q \<Rightarrow> fault + cell_heap \<times> 'q" where
  "schedule_event put env cell type stamp ch h q =
     kbind (pack_event env cell type stamp ch h) (\<lambda>(a, h).
     kbind (put stamp (of_nat a) q) (\<lambda>q. Inr (h, q)))"

section \<open>\<^verbatim>\<open>ProcessEvent\<close>\<close>

text \<open>A new cell. The bitmap has 64 words, of which the first 32 are cleared.\<close>

definition new_cell :: lp_state_type where
  "new_cell = \<lparr>channel_counter = CHANNELS_PER_CELL, arriving_calls = 0, complete_calls = 0, blocked_on_setup = 0,
     blocked_on_handoff = 0, leaving_handoffs = 0, arriving_handoffs = 0, cont_no_sir_aim = 0, executed_events = 0,
     lvt = Fin 0, ta = TA, ref_ta = TA, ta_duration = TA_DURATION, ta_change = TA_CHANGE,
     channels_per_cell = CHANNELS_PER_CELL,
     channel_state = replicate (unat CHANNELS_PER_CELL div 32 + 1) (Some 0) @ replicate (unat CHANNELS_PER_CELL div BITS + 1) None,
     channels = None, dummy = 0, dummy_flag = False\<rparr>"

definition process_init :: "'q putter \<Rightarrow> libs \<Rightarrow> u32 \<Rightarrow> cell_heap \<Rightarrow> 'q \<Rightarrow> fault + u64 \<times> cell_heap \<times> 'q" where
  "process_init put env me h q =
     (let (state, h) = malloc env h in
      case state of None \<Rightarrow> Inl Exited | Some p \<Rightarrow>
      let (bits, h) = malloc env h in
      kbind (nonnull bits) (\<lambda>_.
      let h = h\<lparr>lps := (lps h)(p := Some new_cell)\<rparr> in
      let (x, g) = Random env (rng_state h) in
      let stamp = d_mul (Fin 20) x in
      kbind (schedule_event put env me START_CALL stamp (- 1) (h\<lparr>rng_state := g\<rparr>) q) (\<lambda>(h, q).
      Inr (of_nat p, h, q))))"

definition start_call ::
  "'q putter \<Rightarrow> libs \<Rightarrow> u32 \<Rightarrow> double \<Rightarrow> addr \<Rightarrow> cell_heap \<Rightarrow> 'q \<Rightarrow> fault + cell_heap \<times> 'q" where
  "start_call put env me now p h q =
     kbind (modify_lp p (\<lambda>lp. lp\<lparr>channel_counter := channel_counter lp - 1\<rparr>) h) (\<lambda>h.
     kbind (deref (lps h) p) (\<lambda>lp.
     kbind (draw (Expent env (ta_duration lp)) h) (\<lambda>(x, h).
     let stamp = d_add now x in
     kbind (allocation env p h) (\<lambda>(ch, h).
     schedule_event put env me END_CALL stamp ch h q))))"

definition process_start ::
  "'q putter \<Rightarrow> libs \<Rightarrow> u32 \<Rightarrow> double \<Rightarrow> addr \<Rightarrow> cell_heap \<Rightarrow> 'q \<Rightarrow> fault + u64 \<times> cell_heap \<times> 'q" where
  "process_start put env me now p h q =
     kbind (modify_lp p (\<lambda>lp. lp\<lparr>arriving_calls := arriving_calls lp + 1\<rparr>) h) (\<lambda>h.
     kbind (deref (lps h) p) (\<lambda>lp.
     kbind (if channel_counter lp = 0
            then kbind (modify_lp p (\<lambda>lp. lp\<lparr>blocked_on_setup := blocked_on_setup lp + 1\<rparr>) h) (\<lambda>h. Inr (h, q))
            else start_call put env me now p h q) (\<lambda>(h, q).
     kbind (modify_lp p (\<lambda>lp. lp\<lparr>ta := recompute_ta (ref_ta lp) now\<rparr>) h) (\<lambda>h.
     kbind (deref (lps h) p) (\<lambda>lp.
     kbind (draw (Expent env (ta lp)) h) (\<lambda>(x, h).
     let stamp = d_add now x in
     kbind (schedule_event put env me START_CALL stamp (- 1) h q) (\<lambda>(h, q).
     Inr (0, h, q))))))))"

definition process_end :: "libs \<Rightarrow> u32 \<Rightarrow> addr \<Rightarrow> cell_heap \<Rightarrow> 'q \<Rightarrow> fault + u64 \<times> cell_heap \<times> 'q" where
  "process_end env ch p h q =
     kbind (modify_lp p (\<lambda>lp. lp\<lparr>channel_counter := channel_counter lp + 1, complete_calls := complete_calls lp + 1\<rparr>) h) (\<lambda>h.
     kbind (deallocation env p ch h) (\<lambda>h.
     kbind (deref (lps h) p) (\<lambda>lp.
     Inr (if complete_calls lp = COMPLETE_CALLS then 1 else 0, h, q))))"

text \<open>\<open>m\<close> is the message, \<open>state\<close> the cell, NULL before the first event.\<close>

definition ProcessEvent ::
  "'q putter \<Rightarrow> libs \<Rightarrow> addr \<Rightarrow> addr option \<Rightarrow> cell_heap \<Rightarrow> 'q \<Rightarrow> fault + u64 \<times> cell_heap \<times> 'q" where
  "ProcessEvent put env m state h q =
     kbind (deref (msgs h) m) (\<lambda>msg.
     kbind (case state of
              None \<Rightarrow> Inr h
            | Some p \<Rightarrow> kbind (written (timestamp msg)) (\<lambda>now.
                modify_lp p (\<lambda>lp. lp\<lparr>lvt := now, executed_events := executed_events lp + 1\<rparr>) h)) (\<lambda>h.
     if msg_type msg = INIT then process_init put env (receiver msg) h q
     else if msg_type msg = START_CALL then
       kbind (nonnull state) (\<lambda>p. kbind (written (timestamp msg)) (\<lambda>now. process_start put env (receiver msg) now p h q))
     else if msg_type msg = END_CALL then
       kbind (nonnull state) (\<lambda>p. kbind (written (msg_channel msg)) (\<lambda>ch. process_end env ch p h q))
     else Inl Aborted))"

section \<open>The loop of a fiber\<close>

record 'q cell_fiber =
  heap :: cell_heap
  queue :: 'q
  state_ptr :: "addr option"

text \<open>Before the loop: the queue is initialised and holds the INIT event, whose time stamp and channel
  are never written.\<close>

definition loop_start ::
  "('q \<Rightarrow> fault + 'q) \<Rightarrow> 'q putter \<Rightarrow> libs \<Rightarrow> u32 \<Rightarrow> cell_heap \<Rightarrow> 'q \<Rightarrow> fault + 'q cell_fiber" where
  "loop_start init put env self h q =
     kbind (init q) (\<lambda>q.
     let (event, h) = malloc env h in
     kbind (nonnull event) (\<lambda>a.
     let h = h\<lparr>msgs := (msgs h)(a := Some \<lparr>sender = self, receiver = self, msg_type = INIT, timestamp = None, msg_channel = None\<rparr>)\<rparr> in
     kbind (put (Fin 0) (of_nat a) q) (\<lambda>q.
     Inr \<lparr>heap = h, queue = q, state_ptr = None\<rparr>)))"

text \<open>One round; the boolean says that the loop ends.\<close>

definition loop_step :: "'q putter \<Rightarrow> 'q getter \<Rightarrow> libs \<Rightarrow> u32 \<Rightarrow> 'q cell_fiber \<Rightarrow> fault + bool \<times> 'q cell_fiber" where
  "loop_step put get env self s =
     kbind (get (queue s)) (\<lambda>(event, q).
     if event = 0 then Inl Exited
     else let m = unat event in
     kbind (deref (msgs (heap s)) m) (\<lambda>msg.
     if receiver msg \<noteq> self then Inl Exited
     else
       kbind (ProcessEvent put env m (state_ptr s) (heap s) q) (\<lambda>(ret, h, q).
       kbind (deref (msgs h) m) (\<lambda>msg.
       let (p, ret) = (if msg_type msg = INIT then (if ret = 0 then None else Some (unat ret), 0) else (state_ptr s, ret)) in
       Inr (ret \<noteq> 0, \<lparr>heap = h\<lparr>msgs := (msgs h)(m := None)\<rparr>, queue = q, state_ptr = p\<rparr>)))))"

text \<open>The first \<open>n\<close> rounds, or fewer if the loop ends.\<close>

fun loop_run :: "nat \<Rightarrow> 'q putter \<Rightarrow> 'q getter \<Rightarrow> libs \<Rightarrow> u32 \<Rightarrow> 'q cell_fiber \<Rightarrow> fault + bool \<times> 'q cell_fiber" where
  "loop_run 0 put get env self s = Inr (False, s)"
| "loop_run (Suc n) put get env self s =
     kbind (loop_step put get env self s) (\<lambda>(stop, s). if stop then Inr (True, s) else loop_run n put get env self s)"

end
