(* ===== verification/Channel_Inv.thy ===== *)
theory Channel_Inv
  imports Channel
begin

text \<open>
  The invariant of a cell's channels, and what the loops over the list do under it. \<open>dlist h p as\<close>
  says that the list at \<open>p\<close> consists of the nodes \<open>as\<close> with both links right; \<open>cell_inv p as h\<close> that
  moreover the nodes have different channels, exactly those whose bits are set, and power data of
  their own. The loops change power data only (\<open>data_frame\<close>).
\<close>

section \<open>Doubly linked lists\<close>

text \<open>A segment from the pointer \<open>p\<close>, whose first node points back to \<open>nx\<close>; behind its last node come
  \<open>nx'\<close> and \<open>p'\<close> in these roles.\<close>

fun dseg :: "(addr \<Rightarrow> channel option) \<Rightarrow> addr option \<Rightarrow> addr option \<Rightarrow> addr list \<Rightarrow> addr option \<Rightarrow> addr option \<Rightarrow> bool" where
  "dseg h nx p [] nx' p' \<longleftrightarrow> nx = nx' \<and> p = p'"
| "dseg h nx p (a # as) nx' p' \<longleftrightarrow>
     p = Some a \<and> (\<exists>c. h a = Some c \<and> next_ch c = nx \<and> dseg h (Some a) (prev_ch c) as nx' p')"

definition dlist :: "(addr \<Rightarrow> channel option) \<Rightarrow> addr option \<Rightarrow> addr list \<Rightarrow> bool" where
  "dlist h p as \<longleftrightarrow> (\<exists>l. dseg h None p as l None)"

lemma dseg_append: "dseg h nx p (as @ bs) nx' p' \<longleftrightarrow> (\<exists>n q. dseg h nx p as n q \<and> dseg h n q bs nx' p')"
  by (induction as arbitrary: nx p) auto

lemma dseg_upd [simp]: "a \<notin> set as \<Longrightarrow> dseg (h(a := v)) nx p as nx' p' = dseg h nx p as nx' p'"
  by (induction as arbitrary: nx p) auto

lemma dseg_end: "dseg h nx p (as @ [a]) nx' p' \<longleftrightarrow>
    (\<exists>n. dseg h nx p as n (Some a) \<and> nx' = Some a \<and> (\<exists>c. h a = Some c \<and> next_ch c = n \<and> prev_ch c = p'))"
  by (auto simp: dseg_append)

lemma dseg_dom: "dseg h nx p as nx' p' \<Longrightarrow> a \<in> set as \<Longrightarrow> h a \<noteq> None"
  by (induction as arbitrary: nx p) auto

lemma dseg_None: "dseg h nx p as nx' None \<Longrightarrow> p = None \<longleftrightarrow> as = []"
  by (cases as) auto

lemma dlist_simps [simp]:
  "dlist h None as \<longleftrightarrow> as = []"
  "dlist h p [] \<longleftrightarrow> p = None"
  by (cases as) (auto simp: dlist_def)

text \<open>A new node in front, the node in front taken out, a node further back taken out.\<close>

lemma dlist_push:
  assumes "dlist h p as" "c \<notin> set as" "distinct as" "h' c = Some ch" "next_ch ch = None" "prev_ch ch = p"
    and "case p of None \<Rightarrow> True | Some a \<Rightarrow> h' a = map_option (\<lambda>x. x\<lparr>next_ch := Some c\<rparr>) (h a)"
    and "\<And>a. a \<noteq> c \<Longrightarrow> Some a \<noteq> p \<Longrightarrow> h' a = h a"
  shows "dlist h' (Some c) (c # as)"
proof (cases as)
  case Nil
  then show ?thesis using assms(1,4-6) by (auto simp: dlist_def)
next
  case (Cons a bs)
  then obtain l x where x: "p = Some a" "h a = Some x" "next_ch x = None" "dseg h (Some a) (prev_ch x) bs l None"
    using assms(1) by (auto simp: dlist_def)
  have "dseg h' (Some a) (prev_ch x) bs l None \<longleftrightarrow> dseg h (Some a) (prev_ch x) bs l None"
  proof -
    have "\<forall>b\<in>set bs. h' b = h b" using assms(2,3,8) x(1) Cons by (metis distinct.simps(2) list.set_intros(2) option.inject)
    then have "dseg h' n q bs l m = dseg h n q bs l m" for n q m
      by (induction bs arbitrary: n q) auto
    then show ?thesis by simp
  qed
  with x Cons assms(4-7) show ?thesis by (auto simp: dlist_def)
qed

lemma dlist_pop:
  assumes "dlist h (Some c) (c # as)" "distinct (c # as)" "h c = Some ch"
    and "case prev_ch ch of None \<Rightarrow> h' = h | Some b \<Rightarrow> \<exists>x. h b = Some x \<and> h' = h(b := Some (x\<lparr>next_ch := None\<rparr>))"
  shows "dlist h' (prev_ch ch) as"
proof (cases as)
  case Nil
  then show ?thesis using assms(1,3) by (auto simp: dlist_def)
next
  case (Cons b bs)
  then show ?thesis using assms by (auto simp: dlist_def)
qed

lemma dlist_split:
  assumes "dlist h p (as @ c # bs)" "as \<noteq> []"
  obtains ch a x l where "h c = Some ch" "next_ch ch = Some a" "a = last as" "h a = Some x" "prev_ch x = Some c"
    "dseg h None p (butlast as) (next_ch x) (Some a)" "dseg h (Some c) (prev_ch ch) bs l None"
proof -
  obtain as' a where as: "as = as' @ [a]" using assms(2) by (cases as rule: rev_cases) auto
  with assms(1) that [of _ a] show ?thesis by (fastforce simp: dlist_def dseg_append)
qed

lemma dlist_cut:
  assumes d: "dlist h p (as @ c # bs)" "as \<noteq> []" "distinct (as @ c # bs)" "h c = Some ch"
    and a: "next_ch ch = Some a" "h a = Some x" "h1 = h(a := Some (x\<lparr>prev_ch := prev_ch ch\<rparr>))"
    and b: "case prev_ch ch of None \<Rightarrow> h' = h1 | Some b \<Rightarrow> \<exists>y. h1 b = Some y \<and> h' = h1(b := Some (y\<lparr>next_ch := next_ch ch\<rparr>))"
  shows "dlist h' p (as @ bs)"
proof -
  obtain l where s: "a = last as" "prev_ch x = Some c"
    "dseg h None p (butlast as) (next_ch x) (Some a)" "dseg h (Some c) (prev_ch ch) bs l None"
    using dlist_split [OF d(1,2)] d(4) a(1,2) by (metis option.inject)
  obtain as' where as: "as = as' @ [a]" using d(2) s(1) by (metis append_butlast_last_id)
  have bs: "a \<notin> set bs" "a \<notin> set as'" "set as' \<inter> set bs = {}" "distinct bs" using d(3) as by auto
  have h1: "dseg h1 None p as (Some a) (prev_ch ch)"
    using s(3) as bs(2) a(3) by (auto simp: dseg_end)
  show ?thesis
  proof (cases bs)
    case Nil
    then show ?thesis using s(4) h1 b by (auto simp: dlist_def)
  next
    case (Cons b' cs)
    then obtain y where y: "prev_ch ch = Some b'" "h b' = Some y" "dseg h (Some b') (prev_ch y) cs l None" using s(4) by auto
    have ne: "b' \<noteq> a" "b' \<notin> set as'" "b' \<notin> set cs" "a \<notin> set cs" using bs Cons by auto
    then have h': "h' = h1(b' := Some (y\<lparr>next_ch := Some a\<rparr>))" using b y(1,2) a(1,3) by auto
    have "dseg h' None p as (Some a) (Some b')" using h1 y(1) ne(1,2) as unfolding h' by simp
    moreover have "dseg h' (Some a) (Some b') bs l None"
      using y(3) ne Cons a(3) unfolding h' by simp
    ultimately show ?thesis by (auto simp: dlist_def dseg_append)
  qed
qed

section \<open>Power data\<close>

definition id_of :: "cell_heap \<Rightarrow> addr \<Rightarrow> u32" where
  "id_of h a = (case chans h a of None \<Rightarrow> 0 | Some c \<Rightarrow> channel_id c)"

definition sd_of :: "cell_heap \<Rightarrow> addr \<Rightarrow> addr" where
  "sd_of h a = (case chans h a of None \<Rightarrow> 0 | Some c \<Rightarrow> sir_data c)"

definition fading_ok :: "sir_data_per_cell \<Rightarrow> bool" where
  "fading_ok sd \<longleftrightarrow> (\<exists>x. fading sd = Some (Fin x) \<and> 0 \<le> x \<and> x \<le> 23)"

definition power_ok :: "sir_data_per_cell \<Rightarrow> bool" where
  "power_ok sd \<longleftrightarrow> (\<exists>x. power_d sd = Some (Fin x) \<and> 3 \<le> x \<and> x \<le> 3000)"

text \<open>Only the power data at \<open>S\<close> and the random numbers change, and powers stay.\<close>

definition data_frame :: "addr set \<Rightarrow> cell_heap \<Rightarrow> cell_heap \<Rightarrow> bool" where
  "data_frame S h h' \<longleftrightarrow> lps h' = lps h \<and> chans h' = chans h \<and> msgs h' = msgs h \<and> next_addr h' = next_addr h \<and>
     (\<forall>x. x \<notin> S \<longrightarrow> sirs h' x = sirs h x) \<and>
     (\<forall>x sd. sirs h x = Some sd \<longrightarrow> (\<exists>sd'. sirs h' x = Some sd' \<and> power_d sd' = power_d sd \<and> (fading_ok sd \<longrightarrow> fading_ok sd')))"

lemma data_frame_refl: "data_frame S h h"
  by (auto simp: data_frame_def)

lemma data_frame_trans:
  assumes f: "data_frame S h h'" and g: "data_frame T h' h''" and U: "S \<subseteq> U" "T \<subseteq> U"
  shows "data_frame U h h''"
proof -
  have "\<exists>sd2. sirs h'' x = Some sd2 \<and> power_d sd2 = power_d sd \<and> (fading_ok sd \<longrightarrow> fading_ok sd2)"
    if sd: "sirs h x = Some sd" for x sd
  proof -
    obtain sd1 where s1: "sirs h' x = Some sd1" "power_d sd1 = power_d sd" "fading_ok sd \<longrightarrow> fading_ok sd1"
      using f sd unfolding data_frame_def by blast
    obtain sd2 where "sirs h'' x = Some sd2" "power_d sd2 = power_d sd1" "fading_ok sd1 \<longrightarrow> fading_ok sd2"
      using g s1(1) unfolding data_frame_def by blast
    with s1 show ?thesis by auto
  qed
  moreover have "sirs h'' x = sirs h x" if "x \<notin> U" for x
    using f g U that unfolding data_frame_def by (metis subsetD)
  ultimately show ?thesis using f g unfolding data_frame_def by simp
qed

section \<open>The library\<close>

text \<open>What is used of \<^verbatim>\<open>pow\<close>: \<open>10 ^ x\<close> for \<open>x\<close> in the unit interval is finite and between 1 and 10.\<close>

definition pow_ok :: "libs \<Rightarrow> bool" where
  "pow_ok env \<longleftrightarrow> (\<forall>x. 0 \<le> x \<longrightarrow> x \<le> 1 \<longrightarrow> (\<exists>y. libm_pow env (Fin 10) (Fin x) = Fin y \<and> 1 \<le> y \<and> y \<le> 10))"

definition libs_ok :: "libs \<Rightarrow> bool" where
  "libs_ok env \<longleftrightarrow> log_ok env \<and> pow_ok env \<and> (\<forall>n. malloc_ok env n)"

lemma sample_libs_all_ok: "libs_ok sample_libs"
  by (simp add: libs_ok_def sample_libs_ok pow_ok_def) (simp add: sample_libs_def)

lemma draw_Expent:
  assumes "libs_ok env"
  obtains x g where "draw (Expent env (Fin 1)) h = Inr (Fin x, h\<lparr>rng_state := g\<rparr>)" "1 / 2 ^ 35 \<le> x" "x \<le> 23"
proof -
  obtain x g where "Expent env (Fin 1) (rng_state h) = Inr (Fin x, g)" "0 \<le> x" "x \<le> 23 * of_int 1" "1 / 2 ^ 35 \<le> x"
    using Expent_range [of env 1 1 "rng_state h"] assms by (auto simp: libs_ok_def)
  then show ?thesis using that by (simp add: draw_def)
qed

lemma gain_range:
  assumes "libs_ok env" "0 < b" "b \<le> 1"
  obtains y g where "draw (gain env (Fin b)) h = Inr (Fin y, h\<lparr>rng_state := g\<rparr>)" "0 \<le> y" "y \<le> 10"
    "1 / 2 ^ 1000 \<le> b \<Longrightarrow> b / 2 \<le> y"
proof -
  obtain x g where x: "Random env (rng_state h) = (Fin x, g)" "unit_lo \<le> x" "x \<le> unit_hi"
    by (metis Random_range prod.collapse)
  have x01: "0 \<le> x" "x \<le> 1" using x(2,3) by (simp_all add: unit_lo_def unit_hi_def)
  obtain v where v: "d_mul (Fin 10) (Fin x) = Fin v" "0 \<le> v" "v \<le> of_int 10"
    by (rule d_mul_fin [of 10 x 10]) (use x01 in auto)
  obtain w where w: "rnd False (v / 10) = Fin w" "0 \<le> w" "w \<le> of_int 1"
    by (rule rnd_fin [of "v / 10" 1]) (use v in auto)
  have dw: "d_div (Fin v) (Fin 10) = Fin w" using w(1) v(2) by (simp add: d_div_def)
  obtain y where y: "libm_pow env (Fin 10) (Fin w) = Fin y" "1 \<le> y" "y \<le> 10"
    using assms(1) w(2,3) by (auto simp: libs_ok_def pow_ok_def)
  have by10: "b * y \<le> 1 * 10" using assms(2,3) y by (intro mult_mono) auto
  obtain z where z: "d_mul (Fin b) (Fin y) = Fin z" "0 \<le> z" "z \<le> of_int 10" "b * y \<noteq> 0 \<Longrightarrow> z = rnd_pos (b * y)"
    by (rule d_mul_fin [of b y 10]) (use assms(2) y by10 in auto)
  have "b / 2 \<le> z" if b: "1 / 2 ^ 1000 \<le> b"
  proof -
    have l: "b \<le> b * y" using assms(2) y(2) by (simp add: mult_le_cancel_left1)
    then have "b * y / 2 \<le> rnd_pos (b * y)" using b by (intro rnd_pos_half) (rule order_trans)
    with l have "b / 2 \<le> rnd_pos (b * y)" by linarith
    moreover have "b * y \<noteq> 0" using assms(2) y(2) by simp
    ultimately show ?thesis using z(4) by simp
  qed
  with that [of z g] x(1) v(1) dw y(1) z show ?thesis by (simp add: draw_def gain_def)
qed

lemma gain_bases:
  obtains b where "CROSS_PATH_GAIN = Fin b" "0 < b" "b \<le> 1"
  and "\<exists>b. PATH_GAIN = Fin b \<and> 1 / 2 ^ 40 \<le> b \<and> b \<le> 1"
proof -
  have b: "\<exists>b. rnd False x = Fin b \<and> x / 2 \<le> b \<and> b \<le> 1" if x: "1 / 2 ^ 1000 \<le> x" "x \<le> 1" for x
  proof -
    have x0: "0 < x" using x(1) by (rule less_le_trans [rotated]) simp
    obtain b where "rnd False x = Fin b" "b \<le> of_int 1" "x \<noteq> 0 \<Longrightarrow> b = rnd_pos x"
      by (rule rnd_fin [of x 1]) (use x x0 in auto)
    then show ?thesis using rnd_pos_half [OF x(1)] x0 by auto
  qed
  obtain b where "CROSS_PATH_GAIN = Fin b" "5 / 10 ^ 14 / 2 \<le> b" "b \<le> 1"
    using b [of "5 / 10 ^ 14"] by (auto simp: CROSS_PATH_GAIN_def)
  moreover from this(2) have "0 < b" by (rule less_le_trans [rotated]) simp
  moreover obtain b' where "PATH_GAIN = Fin b'" "1 / 10 ^ 10 / 2 \<le> b'" "b' \<le> 1"
    using b [of "1 / 10 ^ 10"] by (auto simp: PATH_GAIN_def)
  moreover from this(2) have "1 / 2 ^ 40 \<le> b'" by (rule order_trans [rotated]) simp
  ultimately show ?thesis using that by blast
qed

section \<open>The loops\<close>

lemma sd_of_frame: "data_frame S h h' \<Longrightarrow> sd_of h' = sd_of h"
  by (simp add: data_frame_def sd_of_def fun_eq_iff)

lemma id_of_frame: "data_frame S h h' \<Longrightarrow> id_of h' = id_of h"
  by (simp add: data_frame_def id_of_def fun_eq_iff)

lemma fading_step:
  assumes "libs_ok env" "sirs h sd = Some x"
  obtains f h1 h2 where "draw (Expent env (Fin 1)) h = Inr (Fin f, h1)"
    "modify_sir sd (\<lambda>sd. sd\<lparr>fading := Some (Fin f)\<rparr>) h1 = Inr h2" "data_frame {sd} h h2"
    "sirs h2 sd = Some (x\<lparr>fading := Some (Fin f)\<rparr>)" "1 / 2 ^ 35 \<le> f" "f \<le> 23"
proof -
  obtain f g where f: "draw (Expent env (Fin 1)) h = Inr (Fin f, h\<lparr>rng_state := g\<rparr>)" "1 / 2 ^ 35 \<le> f" "f \<le> 23"
    by (rule draw_Expent [OF assms(1)])
  let ?h1 = "h\<lparr>rng_state := g\<rparr>"
  let ?h2 = "?h1\<lparr>sirs := (sirs h)(sd := Some (x\<lparr>fading := Some (Fin f)\<rparr>))\<rparr>"
  have "0 \<le> f" using f(2) by (rule order_trans [rotated]) simp
  then have "data_frame {sd} h ?h2" using assms(2) f(3) by (auto simp: data_frame_def fading_ok_def)
  then show ?thesis using that [of f ?h1 ?h2] f assms(2) by (simp add: modify_sir_def)
qed

lemma fading_loop_ok:
  assumes "libs_ok env"
  shows "dseg (chans h) nx q as l None \<Longrightarrow> length as \<le> n \<Longrightarrow> \<forall>a\<in>set as. sirs h (sd_of h a) \<noteq> None \<Longrightarrow>
    \<exists>h'. fading_loop n env q h = Inr h' \<and> data_frame (sd_of h ` set as) h h' \<and>
      (\<forall>a\<in>set as. \<exists>sd. sirs h' (sd_of h a) = Some sd \<and> fading_ok sd)"
proof (induction as arbitrary: n nx q h)
  case Nil
  then show ?case by (simp add: data_frame_refl)
next
  case (Cons a as)
  obtain c m where c: "q = Some a" "chans h a = Some c" "dseg (chans h) (Some a) (prev_ch c) as l None" "n = Suc m"
    using Cons.prems(1,2) by (cases n) auto
  have sd: "sd_of h a = sir_data c" using c(2) by (simp add: sd_of_def)
  then obtain x where x: "sirs h (sir_data c) = Some x" using Cons.prems(3) by auto
  obtain f h1 h2 where s: "draw (Expent env (Fin 1)) h = Inr (Fin f, h1)"
    "modify_sir (sir_data c) (\<lambda>sd. sd\<lparr>fading := Some (Fin f)\<rparr>) h1 = Inr h2" "data_frame {sir_data c} h h2"
    "sirs h2 (sir_data c) = Some (x\<lparr>fading := Some (Fin f)\<rparr>)" "1 / 2 ^ 35 \<le> f" "f \<le> 23"
    by (rule fading_step [OF assms x])
  have f: "0 \<le> f" using s(5) by (rule order_trans [rotated]) simp
  have h2: "chans h2 = chans h" "sd_of h2 = sd_of h" using s(3) sd_of_frame by (auto simp: data_frame_def)
  have "\<forall>a\<in>set as. sirs h2 (sd_of h2 a) \<noteq> None"
  proof
    fix b assume "b \<in> set as"
    then obtain y where "sirs h (sd_of h b) = Some y" using Cons.prems(3) by auto
    then show "sirs h2 (sd_of h2 b) \<noteq> None" using s(3) unfolding h2(2) data_frame_def by blast
  qed
  then obtain h' where h': "fading_loop m env (prev_ch c) h2 = Inr h'" "data_frame (sd_of h2 ` set as) h2 h'"
    "\<forall>a\<in>set as. \<exists>sd. sirs h' (sd_of h2 a) = Some sd \<and> fading_ok sd"
    using Cons.IH [of h2 "Some a" "prev_ch c" m] c Cons.prems(2) h2 by auto
  have "data_frame (sd_of h ` set (a # as)) h h'"
    by (rule data_frame_trans [OF s(3) h'(2)]) (auto simp: h2 sd)
  moreover have "\<exists>sd. sirs h' (sd_of h a) = Some sd \<and> fading_ok sd"
    using h'(2) s(4,6) f unfolding data_frame_def sd by (metis fading_ok_def sir_data_per_cell.select_convs(1) sir_data_per_cell.surjective sir_data_per_cell.update_convs(1))
  ultimately show ?case using c(1,2,4) s(1,2) h'(1,3) h2(2) by auto
qed

lemma interference_ok:
  assumes "libs_ok env"
  shows "dseg (chans h) nx q as l None \<Longrightarrow> length as \<le> n \<Longrightarrow>
    \<forall>a\<in>set as. \<exists>sd. sirs h (sd_of h a) = Some sd \<and> power_ok sd \<Longrightarrow> nonneg summ \<Longrightarrow>
    \<exists>summ' h'. interference n env q summ h = Inr (summ', h') \<and> nonneg summ' \<and> data_frame (sd_of h ` set as) h h'"
proof (induction as arbitrary: n nx q h summ)
  case Nil
  then show ?case by (simp add: data_frame_refl)
next
  case (Cons a as)
  obtain c m where c: "q = Some a" "chans h a = Some c" "dseg (chans h) (Some a) (prev_ch c) as l None" "n = Suc m"
    using Cons.prems(1,2) by (cases n) auto
  have sd: "sd_of h a = sir_data c" using c(2) by (simp add: sd_of_def)
  then obtain x pw where x: "sirs h (sir_data c) = Some x" "power_d x = Some (Fin pw)" "3 \<le> pw" "pw \<le> 3000"
    using Cons.prems(3) by (auto simp: power_ok_def)
  obtain f h1 h2 where s: "draw (Expent env (Fin 1)) h = Inr (Fin f, h1)"
    "modify_sir (sir_data c) (\<lambda>sd. sd\<lparr>fading := Some (Fin f)\<rparr>) h1 = Inr h2" "data_frame {sir_data c} h h2"
    "sirs h2 (sir_data c) = Some (x\<lparr>fading := Some (Fin f)\<rparr>)" "1 / 2 ^ 35 \<le> f" "f \<le> 23"
    by (rule fading_step [OF assms x(1)])
  have f: "0 \<le> f" using s(5) by (rule order_trans [rotated]) simp
  obtain b where b: "CROSS_PATH_GAIN = Fin b" "0 < b" "b \<le> 1" by (rule gain_bases)
  obtain g r where g0: "draw (gain env (Fin b)) h2 = Inr (Fin g, h2\<lparr>rng_state := r\<rparr>)" "0 \<le> g" "g \<le> 10"
    by (rule gain_range [OF assms b(2,3), of h2])
  then have g: "draw (generate_cross_path_gain env) h2 = Inr (Fin g, h2\<lparr>rng_state := r\<rparr>)" "0 \<le> g" "g \<le> 10"
    using b(1) by (simp_all add: generate_cross_path_gain_def)
  let ?h3 = "h2\<lparr>rng_state := r\<rparr>"
  have gp: "g * pw \<le> 10 * 3000" using g(2,3) x(3,4) by (intro mult_mono) auto
  obtain u where u: "d_mul (Fin g) (Fin pw) = Fin u" "0 \<le> u" "u \<le> of_int 30000"
    by (rule d_mul_fin [of g pw 30000]) (use g(2) x(3) gp in auto)
  have uf: "u * f \<le> 30000 * 23" using u(2,3) s(6) f by (intro mult_mono) auto
  obtain v where v: "d_mul (Fin u) (Fin f) = Fin v" "0 \<le> v"
    by (rule d_mul_fin [of u f 690000]) (use u(2) f uf in auto)
  have nn: "nonneg (d_add summ (Fin v))"
    using Cons.prems(4) v(2) by (cases summ) (auto simp: d_add_def intro: rnd_nonneg)
  have fr: "data_frame {sir_data c} h ?h3" using s(3) by (simp add: data_frame_def)
  have h3: "chans ?h3 = chans h" "sd_of ?h3 = sd_of h" using fr sd_of_frame [OF fr] by (simp_all add: data_frame_def)
  have "\<forall>a\<in>set as. \<exists>sd. sirs ?h3 (sd_of ?h3 a) = Some sd \<and> power_ok sd"
  proof
    fix b assume "b \<in> set as"
    then obtain y where "sirs h (sd_of h b) = Some y" "power_ok y" using Cons.prems(3) by auto
    then show "\<exists>sd. sirs ?h3 (sd_of ?h3 b) = Some sd \<and> power_ok sd"
      using fr unfolding h3(2) data_frame_def power_ok_def by metis
  qed
  then obtain summ' h' where h': "interference m env (prev_ch c) (d_add summ (Fin v)) ?h3 = Inr (summ', h')"
    "nonneg summ'" "data_frame (sd_of ?h3 ` set as) ?h3 h'"
    using Cons.IH [of ?h3 "Some a" "prev_ch c" m "d_add summ (Fin v)"] c Cons.prems(2) h3 nn by auto
  have "data_frame (sd_of h ` set (a # as)) h h'"
    by (rule data_frame_trans [OF fr h'(3)]) (unfold h3(2), auto simp: sd)
  moreover have "interference n env q summ h = Inr (summ', h')"
    using c(1,2,4) s(1,2,4) g(1) x(2) u(1) v(1) h'(1) by (simp add: written_def)
  ultimately show ?case using h'(2) by blast
qed

end
