(* ===== verification/Channel_Ops.thy ===== *)
theory Channel_Ops
  imports Channel_Inv
begin

text \<open>
  Allocating and releasing a channel. \<open>cell_inv p as h\<close> is the invariant of the cell at \<open>p\<close> whose
  calls are the nodes \<open>as\<close>: the links, the bitmap, and the power data of every node, the powers within
  the limits of the model. \<open>allocation\<close> finds the least free channel and adds a node for it,
  \<open>deallocation\<close> takes the node of a channel out of the list and frees it.
\<close>

section \<open>The bitmap\<close>

definition bit_at :: "lp_state_type \<Rightarrow> nat \<Rightarrow> bool" where
  "bit_at lp i = (case channel_state lp ! (i div BITS) of None \<Rightarrow> False | Some w \<Rightarrow> bit w (i mod BITS))"

definition bitmap_ok :: "lp_state_type \<Rightarrow> bool" where
  "bitmap_ok lp \<longleftrightarrow> length (channel_state lp) = 64 \<and> (\<forall>k<32. channel_state lp ! k \<noteq> None)"

lemma bitmap_word:
  assumes "bitmap_ok lp" "unat i < 1024"
  obtains w where "channel_word lp i = Inr w" "channel_state lp ! (unat i div BITS) = Some w"
    "unat i div BITS < length (channel_state lp)"
proof -
  have "unat i div BITS < 32" using assms(2) by (simp add: BITS_def)
  then show ?thesis using assms(1) that by (auto simp: bitmap_ok_def channel_word_def written_def)
qed

lemma CHECK_CHANNEL_bit:
  assumes "bitmap_ok lp" "unat i < 1024"
  shows "CHECK_CHANNEL lp i = Inr (bit_at lp (unat i))"
proof -
  obtain w where "channel_word lp i = Inr w" "channel_state lp ! (unat i div BITS) = Some w" by (rule bitmap_word [OF assms])
  then show ?thesis by (simp add: CHECK_CHANNEL_def bit_at_def channel_bit_def and_exp_eq_0_iff_not_bit)
qed

lemma SET_CHANNEL_bit:
  assumes "bitmap_ok lp" "unat i < 1024"
  obtains cs where "SET_CHANNEL lp i = Inr (lp\<lparr>channel_state := cs\<rparr>)" "bitmap_ok (lp\<lparr>channel_state := cs\<rparr>)"
    "\<And>j. bit_at (lp\<lparr>channel_state := cs\<rparr>) j = (j = unat i \<or> bit_at lp j)"
proof -
  obtain w where w: "channel_word lp i = Inr w" "channel_state lp ! (unat i div BITS) = Some w"
    "unat i div BITS < length (channel_state lp)" by (rule bitmap_word [OF assms])
  let ?lp = "lp\<lparr>channel_state := (channel_state lp)[unat i div BITS := Some (w OR channel_bit i)]\<rparr>"
  have "bit_at ?lp j = (j = unat i \<or> bit_at lp j)" for j
  proof (cases "j div BITS = unat i div BITS")
    case True
    then have "j = unat i \<longleftrightarrow> j mod BITS = unat i mod BITS" by (metis div_mult_mod_eq)
    moreover have "j mod BITS < 32" by (simp add: BITS_def)
    ultimately show ?thesis using w True by (auto simp: bit_at_def channel_bit_def bit_simps)
  next
    case False
    then show ?thesis by (auto simp: bit_at_def)
  qed
  moreover have "bitmap_ok ?lp" using assms(1) w(3) by (simp add: bitmap_ok_def nth_list_update)
  ultimately show ?thesis using that w(1) by (simp add: SET_CHANNEL_def)
qed

lemma RESET_CHANNEL_bit:
  assumes "bitmap_ok lp" "unat i < 1024"
  obtains cs where "RESET_CHANNEL lp i = Inr (lp\<lparr>channel_state := cs\<rparr>)" "bitmap_ok (lp\<lparr>channel_state := cs\<rparr>)"
    "\<And>j. bit_at (lp\<lparr>channel_state := cs\<rparr>) j = (j \<noteq> unat i \<and> bit_at lp j)"
proof -
  obtain w where w: "channel_word lp i = Inr w" "channel_state lp ! (unat i div BITS) = Some w"
    "unat i div BITS < length (channel_state lp)" by (rule bitmap_word [OF assms])
  let ?lp = "lp\<lparr>channel_state := (channel_state lp)[unat i div BITS := Some (w AND NOT (channel_bit i))]\<rparr>"
  have "bit_at ?lp j = (j \<noteq> unat i \<and> bit_at lp j)" for j
  proof (cases "j div BITS = unat i div BITS")
    case True
    then have "j = unat i \<longleftrightarrow> j mod BITS = unat i mod BITS" by (metis div_mult_mod_eq)
    moreover have "j mod BITS < 32" by (simp add: BITS_def)
    ultimately show ?thesis using w True by (auto simp: bit_at_def channel_bit_def bit_simps)
  next
    case False
    then show ?thesis by (auto simp: bit_at_def)
  qed
  moreover have "bitmap_ok ?lp" using assms(1) w(3) by (simp add: bitmap_ok_def nth_list_update)
  ultimately show ?thesis using that w(1) by (simp add: RESET_CHANNEL_def)
qed

lemma bitmap_ok_channels [simp]: "bitmap_ok (lp\<lparr>channels := x\<rparr>) = bitmap_ok lp" "bit_at (lp\<lparr>channels := x\<rparr>) = bit_at lp"
  by (simp_all add: bitmap_ok_def bit_at_def fun_eq_iff)

lemma unat_of_nat_32: "j < 2 ^ 32 \<Longrightarrow> unat (of_nat j :: u32) = j"
  by (simp add: unsigned_of_nat take_bit_nat_eq_self)

lemma find_free_find:
  assumes "bitmap_ok lp"
  shows "\<forall>j\<in>set js. j < 1024 \<Longrightarrow> find_free lp (map of_nat js) = Inr (map_option of_nat (find (\<lambda>j. \<not> bit_at lp j) js))"
proof (induction js)
  case (Cons j js)
  then have "unat (of_nat j :: u32) = j" by (intro unat_of_nat_32) auto
  with Cons show ?case by (simp add: CHECK_CHANNEL_bit [OF assms])
qed simp

section \<open>The invariant\<close>

definition cell_links :: "addr \<Rightarrow> addr list \<Rightarrow> cell_heap \<Rightarrow> bool" where
  "cell_links p as h \<longleftrightarrow>
     (\<exists>lp. lps h p = Some lp \<and> dlist (chans h) (channels lp) as \<and> bitmap_ok lp \<and>
        channels_per_cell lp = CHANNELS_PER_CELL \<and>
        (\<forall>i<1000. bit_at lp i \<longleftrightarrow> i \<in> (\<lambda>a. unat (id_of h a)) ` set as)) \<and>
     distinct as \<and> inj_on (id_of h) (set as) \<and> inj_on (sd_of h) (set as) \<and>
     (\<forall>a\<in>set as. unat (id_of h a) < 1000 \<and> sirs h (sd_of h a) \<noteq> None) \<and>
     (\<forall>a\<ge>next_addr h. lps h a = None \<and> chans h a = None \<and> sirs h a = None \<and> msgs h a = None)"

definition data_ok :: "(sir_data_per_cell \<Rightarrow> bool) \<Rightarrow> addr list \<Rightarrow> cell_heap \<Rightarrow> bool" where
  "data_ok P as h \<longleftrightarrow> (\<forall>a\<in>set as. \<exists>sd. sirs h (sd_of h a) = Some sd \<and> P sd)"

definition cell_inv :: "addr \<Rightarrow> addr list \<Rightarrow> cell_heap \<Rightarrow> bool" where
  "cell_inv p as h \<longleftrightarrow> cell_links p as h \<and> data_ok power_ok as h \<and> data_ok fading_ok as h"

lemma cell_length:
  assumes "cell_links p as h"
  shows "length as \<le> 1000"
proof -
  have "inj_on (\<lambda>a. unat (id_of h a)) (set as)" using assms by (auto simp: cell_links_def inj_on_def dest: unsigned_word_eqI)
  moreover have "(\<lambda>a. unat (id_of h a)) ` set as \<subseteq> {..<1000}" using assms by (auto simp: cell_links_def)
  ultimately have "card (set as) \<le> card {..<1000 :: nat}" by (intro card_inj_on_le) auto
  then show ?thesis using assms by (simp add: cell_links_def distinct_card)
qed

lemma cell_dlist:
  assumes "cell_links p as h" "lps h p = Some lp"
  obtains l where "dseg (chans h) None (channels lp) as l None"
  using assms by (auto simp: cell_links_def dlist_def)

lemma cell_nodes: "cell_links p as h \<Longrightarrow> a \<in> set as \<Longrightarrow> chans h a \<noteq> None"
  by (auto simp: cell_links_def dlist_def dest: dseg_dom)

lemma cell_links_frame:
  assumes l: "cell_links p as h" and f: "data_frame (sd_of h ` set as) h h'"
  shows "cell_links p as h'"
proof -
  have "sirs h' x = None" if "sirs h x = None" for x
    using f l that unfolding data_frame_def cell_links_def by (metis image_iff)
  moreover have "sirs h' x \<noteq> None" if "sirs h x \<noteq> None" for x
    using f that unfolding data_frame_def by blast
  ultimately have s: "sirs h' x = None \<longleftrightarrow> sirs h x = None" for x by blast
  have e: "lps h' = lps h" "chans h' = chans h" "next_addr h' = next_addr h" "msgs h' = msgs h"
    using f by (simp_all add: data_frame_def)
  show ?thesis using l unfolding cell_links_def e s id_of_frame [OF f] sd_of_frame [OF f] .
qed

lemma data_ok_frame:
  "data_frame S h h' \<Longrightarrow> data_ok power_ok as h \<Longrightarrow> data_ok power_ok as h'"
  "data_frame S h h' \<Longrightarrow> data_ok fading_ok as h \<Longrightarrow> data_ok fading_ok as h'"
  unfolding data_ok_def by (metis (no_types, lifting) data_frame_def sd_of_frame power_ok_def)+

lemma fading_recheck_ok:
  assumes "libs_ok env" "cell_links p as h"
  obtains h' where "fading_recheck env p h = Inr h'" "cell_links p as h'" "data_frame (sd_of h ` set as) h h'"
    "data_ok fading_ok as h'"
proof -
  obtain lp where lp: "lps h p = Some lp" using assms(2) by (auto simp: cell_links_def)
  then obtain l where l: "dseg (chans h) None (channels lp) as l None" using cell_dlist [OF assms(2)] by blast
  have "length as \<le> walk_fuel" "\<forall>a\<in>set as. sirs h (sd_of h a) \<noteq> None"
    using cell_length [OF assms(2)] assms(2) by (auto simp: walk_fuel_def cell_links_def)
  from fading_loop_ok [OF assms(1) l this] obtain h' where h': "fading_loop walk_fuel env (channels lp) h = Inr h'"
    "data_frame (sd_of h ` set as) h h'" "\<forall>a\<in>set as. \<exists>sd. sirs h' (sd_of h a) = Some sd \<and> fading_ok sd" by blast
  have "data_ok fading_ok as h'" using h'(3) by (simp add: data_ok_def sd_of_frame [OF h'(2)])
  then show ?thesis using that h'(1,2) lp cell_links_frame [OF assms(2) h'(2)] by (simp add: fading_recheck_def)
qed

section \<open>A new node\<close>

text \<open>What becomes of the cell at \<open>p\<close>: only its bitmap, its list head and its counter of free channels
  may change.\<close>

lemma push_node_ok:
  assumes env: "libs_ok env" and l: "cell_links p as h0" and lp: "lps h0 p = Some lp" and j: "j < 1000" "\<not> bit_at lp j"
    and cs: "bitmap_ok (lp\<lparr>channel_state := cs\<rparr>)" "\<And>k. bit_at (lp\<lparr>channel_state := cs\<rparr>) k = (k = j \<or> bit_at lp k)"
    and h: "h = h0\<lparr>lps := (lps h0)(p := Some (lp\<lparr>channel_state := cs\<rparr>))\<rparr>"
  obtains h' where "push_node env p (of_nat j) h = Inr (next_addr h0, h')" "cell_links p (next_addr h0 # as) h'"
    "chans h' (next_addr h0) = Some \<lparr>channel_id = of_nat j, sir_data = Suc (next_addr h0), next_ch = None, prev_ch = channels lp\<rparr>"
    "\<forall>a\<in>set as. id_of h' a = id_of h0 a \<and> sd_of h' a = sd_of h0 a"
    "sirs h' = (sirs h0)(Suc (next_addr h0) := Some \<lparr>fading = None, power_d = None\<rparr>)"
    "lps h' = (lps h0)(p := Some (lp\<lparr>channel_state := cs, channels := Some (next_addr h0)\<rparr>))"
    "msgs h' = msgs h0" "next_addr h' = next_addr h0 + 2"
proof -
  let ?c = "next_addr h0" and ?sd = "Suc (next_addr h0)"
  let ?new = "\<lparr>channel_id = of_nat j, sir_data = ?sd, next_ch = None, prev_ch = channels lp\<rparr> :: channel"
  let ?C = "(chans h0)(?c := Some ?new)"
  have inv: "dlist (chans h0) (channels lp) as" "distinct as" "inj_on (id_of h0) (set as)" "inj_on (sd_of h0) (set as)"
    "channels_per_cell lp = CHANNELS_PER_CELL" "\<forall>i<1000. bit_at lp i \<longleftrightarrow> i \<in> (\<lambda>a. unat (id_of h0 a)) ` set as"
    "\<forall>a\<in>set as. unat (id_of h0 a) < 1000 \<and> sirs h0 (sd_of h0 a) \<noteq> None"
    "\<forall>a\<ge>?c. lps h0 a = None \<and> chans h0 a = None \<and> sirs h0 a = None \<and> msgs h0 a = None"
    using l lp by (auto simp: cell_links_def)
  have nd: "chans h0 a \<noteq> None" if "a \<in> set as" for a using cell_nodes [OF l that] .
  have new: "?c \<notin> set as" "chans h0 ?c = None" using nd [of ?c] inv(8) by auto
  define C where "C = (case channels lp of None \<Rightarrow> ?C
     | Some a \<Rightarrow> ?C(a := map_option (\<lambda>x. x\<lparr>next_ch := Some ?c\<rparr>) (chans h0 a)))"
  define h' where "h' = h0\<lparr>lps := (lps h0)(p := Some (lp\<lparr>channel_state := cs, channels := Some ?c\<rparr>)), chans := C,
     sirs := (sirs h0)(?sd := Some \<lparr>fading = None, power_d = None\<rparr>), next_addr := ?c + 2\<rparr>"
  have hd: "case channels lp of None \<Rightarrow> as = [] | Some a \<Rightarrow> a \<in> set as \<and> a \<noteq> ?c \<and> (\<exists>x. chans h0 a = Some x)"
    using inv(1) nd new(1) by (cases as) (auto simp: dlist_def split: option.splits)
  then have run: "push_node env p (of_nat j) h = Inr (?c, h')"
    using env by (auto simp: push_node_def malloc_def libs_ok_def h h'_def C_def Let_def modify_chan_def modify_lp_def
        split: option.splits)
  have Cc: "C ?c = Some ?new" using hd by (auto simp: C_def split: option.splits)
  have C: "id_of h' a = id_of h0 a \<and> sd_of h' a = sd_of h0 a" if "a \<in> set as" for a
    using that hd nd [OF that] new(1)
    by (auto simp: id_of_def sd_of_def h'_def C_def split: option.splits)
  have "dlist C (Some ?c) (?c # as)"
    by (rule dlist_push [where h' = C, OF inv(1) new(1) inv(2) Cc]) (use hd in \<open>auto simp: C_def split: option.splits\<close>)
  moreover have idc: "id_of h' ?c = of_nat j" "sd_of h' ?c = ?sd" using Cc by (simp_all add: id_of_def sd_of_def h'_def)
  moreover have j': "unat (of_nat j :: u32) = j" using j(1) by (intro unat_of_nat_32) simp
  moreover have "j \<notin> (\<lambda>a. unat (id_of h0 a)) ` set as" using inv(6) j by auto
  moreover have "?sd \<notin> sd_of h0 ` set as"
  proof
    assume "?sd \<in> sd_of h0 ` set as"
    then have "sirs h0 ?sd \<noteq> None" using inv(7) by auto
    then show False using inv(8) by simp
  qed
  moreover have "p < ?c" using inv(8) lp by (metis leI option.distinct(1))
  moreover have "C a = None" if "Suc (Suc ?c) \<le> a" for a
  proof -
    have "chans h0 a = None" using that inv(8) by simp
    then show ?thesis using hd that by (auto simp: C_def split: option.splits)
  qed
  moreover have "inj_on (id_of h') (set as)" "inj_on (sd_of h') (set as)"
    "(\<lambda>a. unat (id_of h' a)) ` set as = (\<lambda>a. unat (id_of h0 a)) ` set as" "sd_of h' ` set as = sd_of h0 ` set as"
    using C inv(3,4) by (auto simp: inj_on_def)
  ultimately have "cell_links p (?c # as) h'"
    using inv cs new(1) C j(1) 
    by (auto simp: cell_links_def h'_def [THEN arg_cong, of lps] h'_def [THEN arg_cong, of chans] h'_def [THEN arg_cong, of sirs]
        h'_def [THEN arg_cong, of next_addr] h'_def [THEN arg_cong, of msgs] image_iff)
  moreover have "\<forall>a\<in>set as. id_of h' a = id_of h0 a \<and> sd_of h' a = sd_of h0 a" using C by blast
  ultimately show ?thesis using that [OF run] Cc by (simp add: h'_def)
qed

section \<open>\<open>allocation\<close>\<close>

lemma clamp_power_ok: "nonneg x \<Longrightarrow> \<exists>r. clamp_power x = Fin r \<and> 3 \<le> r \<and> r \<le> 3000"
  by (cases x) (auto simp: clamp_power_def MIN_POWER_def MAX_POWER_def Let_def)

lemma nonneg_div:
  assumes "nonneg x" "0 < r"
  shows "nonneg (d_div x (Fin r))"
  using assms by (cases x) (auto simp: d_div_def inf_d_def zero_d_def intro: rnd_nonneg)

lemma set_power_ok:
  assumes env: "libs_ok env" and s: "nonneg summ" and x: "sirs h sd = Some x"
  obtains y g where "set_power env sd summ h = Inr (h\<lparr>rng_state := g, sirs := (sirs h)(sd := Some y)\<rparr>)" "power_ok y"
proof (cases "d_le summ (Fin 0) \<and> d_le (Fin 0) summ")
  case True
  then show ?thesis using that [of "x\<lparr>power_d := Some MIN_POWER\<rparr>" "rng_state h"] x
    by (simp add: set_power_def modify_sir_def power_ok_def MIN_POWER_def)
next
  case False
  obtain f g where f: "draw (Expent env (Fin 1)) h = Inr (Fin f, h\<lparr>rng_state := g\<rparr>)" "1 / 2 ^ 35 \<le> f" "f \<le> 23"
    by (rule draw_Expent [OF env])
  have f0: "0 \<le> f" using f(2) by (rule order_trans [rotated]) simp
  let ?x = "x\<lparr>fading := Some (Fin f)\<rparr>"
  let ?h = "h\<lparr>rng_state := g, sirs := (sirs h)(sd := Some ?x)\<rparr>"
  obtain b where b: "PATH_GAIN = Fin b" "1 / 2 ^ 40 \<le> b" "b \<le> 1" using gain_bases by metis
  have b0: "0 < b" "1 / 2 ^ 1000 \<le> b"
    by (rule less_le_trans [OF _ b(2)], simp) (rule order_trans [OF _ b(2)], simp)
  obtain w r where w: "draw (gain env (Fin b)) ?h = Inr (Fin w, ?h\<lparr>rng_state := r\<rparr>)" "0 \<le> w" "w \<le> 10" "b / 2 \<le> w"
    using gain_range [OF env b0(1) b(3), of ?h] b0(2) by blast
  have wf: "w * f \<le> 10 * 23" using w(2,3) f(3) f0 by (intro mult_mono) auto
  obtain d where d: "d_mul (Fin w) (Fin f) = Fin d" "w * f \<noteq> 0 \<Longrightarrow> d = rnd_pos (w * f)"
    by (rule d_mul_fin [of w f 230]) (use w(2) f0 wf in auto)
  have "1 / 2 ^ 41 * (1 / 2 ^ 35) \<le> w * f" using b(2) w(4) f(2) by (intro mult_mono) auto
  then have l: "1 / 2 ^ 1000 \<le> w * f" by (rule order_trans [rotated]) simp
  have wf0: "0 < w * f" using l by (rule less_le_trans [rotated]) simp
  then have "d = rnd_pos (w * f)" by (intro d(2)) (rule less_imp_neq [symmetric])
  with wf0 rnd_pos_half [OF l] have "0 < d" by linarith
  moreover have "nonneg (d_mul SIR_AIM summ)"
    using s by (cases summ) (auto simp: d_mul_def SIR_AIM_def inf_d_def zero_d_def intro: rnd_nonneg)
  ultimately obtain q where q: "clamp_power (d_div (d_mul SIR_AIM summ) (Fin d)) = Fin q" "3 \<le> q" "q \<le> 3000"
    using clamp_power_ok [OF nonneg_div] by blast
  have "set_power env sd summ h = Inr (h\<lparr>rng_state := r, sirs := (sirs h)(sd := Some (?x\<lparr>power_d := Some (Fin q)\<rparr>))\<rparr>)"
    unfolding set_power_def if_not_P [OF False] using f(1) x w(1) d(1) q(1) b(1)
    by (simp add: modify_sir_def generate_path_gain_def)
  then show ?thesis using that q(2,3) by (simp add: power_ok_def)
qed

lemma first_free:
  assumes "cell_links p as h" "lps h p = Some lp" "length as < 1000"
  obtains j where "find_free lp (map of_nat [0..<nat (sint (channels_per_cell lp))]) = Inr (Some (of_nat j))"
    "j < 1000" "\<not> bit_at lp j" "\<forall>k<j. bit_at lp k"
proof -
  have c: "nat (sint (channels_per_cell lp)) = 1000" "bitmap_ok lp"
    using assms(1,2) by (auto simp: cell_links_def CHANNELS_PER_CELL_def)
  have "\<exists>j<1000. \<not> bit_at lp j"
  proof (rule ccontr)
    assume "\<not> (\<exists>j<1000. \<not> bit_at lp j)"
    then have "{..<1000} \<subseteq> (\<lambda>a. unat (id_of h a)) ` set as" using assms(1,2) by (auto simp: cell_links_def)
    then have "card {..<1000 :: nat} \<le> card (set as)" by (rule surj_card_le [rotated]) simp
    then show False using assms(1,3) by (simp add: cell_links_def distinct_card)
  qed
  then obtain j where "find (\<lambda>j. \<not> bit_at lp j) [0..<1000] = Some j"
    by (cases "find (\<lambda>j. \<not> bit_at lp j) [0..<1000]") (auto simp: find_None_iff)
  moreover from this have "j < 1000" "\<not> bit_at lp j" "\<forall>k<j. bit_at lp k" by (auto simp: find_Some_iff)
  ultimately show ?thesis using that find_free_find [OF c(2), of "[0..<1000]"] by (simp add: c(1))
qed

lemma allocation_run:
  assumes env: "libs_ok env" and inv: "cell_inv p as h" and n: "length as < 1000" and lp: "lps h p = Some lp"
  obtains j cs h' where "allocation env p h = Inr (of_nat j, h')" "j < 1000" "\<not> bit_at lp j" "\<forall>k<j. bit_at lp k"
    "cell_inv p (next_addr h # as) h'" "id_of h' (next_addr h) = of_nat j"
    "\<forall>a\<in>set as. id_of h' a = id_of h a"
    "lps h' = (lps h)(p := Some (lp\<lparr>channel_state := cs, channels := Some (next_addr h)\<rparr>))" "msgs h' = msgs h"
    "next_addr h' = next_addr h + 2"
proof -
  let ?c = "next_addr h" and ?sd = "Suc (next_addr h)"
  have l: "cell_links p as h" "data_ok power_ok as h" "bitmap_ok lp" using inv lp by (auto simp: cell_inv_def cell_links_def)
  obtain j where j: "find_free lp (map of_nat [0..<nat (sint (channels_per_cell lp))]) = Inr (Some (of_nat j))"
    "j < 1000" "\<not> bit_at lp j" "\<forall>k<j. bit_at lp k" by (rule first_free [OF l(1) lp n])
  have uj: "unat (of_nat j :: u32) = j" using j(2) by (intro unat_of_nat_32) simp
  obtain cs where cs: "SET_CHANNEL lp (of_nat j) = Inr (lp\<lparr>channel_state := cs\<rparr>)" "bitmap_ok (lp\<lparr>channel_state := cs\<rparr>)"
    "\<And>k. bit_at (lp\<lparr>channel_state := cs\<rparr>) k = (k = j \<or> bit_at lp k)"
    using SET_CHANNEL_bit [OF l(3), of "of_nat j"] j(2) unfolding uj by auto
  let ?h1 = "h\<lparr>lps := (lps h)(p := Some (lp\<lparr>channel_state := cs\<rparr>))\<rparr>"
  obtain h2 where h2: "push_node env p (of_nat j) ?h1 = Inr (?c, h2)" "cell_links p (?c # as) h2"
    "chans h2 ?c = Some \<lparr>channel_id = of_nat j, sir_data = ?sd, next_ch = None, prev_ch = channels lp\<rparr>"
    "\<forall>a\<in>set as. id_of h2 a = id_of h a \<and> sd_of h2 a = sd_of h a"
    "sirs h2 = (sirs h)(?sd := Some \<lparr>fading = None, power_d = None\<rparr>)"
    "lps h2 = (lps h)(p := Some (lp\<lparr>channel_state := cs, channels := Some ?c\<rparr>))" "msgs h2 = msgs h" "next_addr h2 = next_addr h + 2"
    by (rule push_node_ok [OF env l(1) lp j(2,3) cs(2,3) refl])
  obtain m where m: "dseg (chans h2) (Some ?c) (channels lp) as m None"
    using h2(2,3,6) by (auto simp: cell_links_def dlist_def)
  have s2: "sd_of h2 ?c = ?sd" "id_of h2 ?c = of_nat j" using h2(3) by (simp_all add: sd_of_def id_of_def)
  have ns: "sd_of h2 a \<noteq> ?sd" if "a \<in> set as" for a
    using h2(2) that s2(1) by (auto simp: cell_links_def inj_on_def)
  have pw: "\<forall>a\<in>set as. \<exists>sd. sirs h2 (sd_of h2 a) = Some sd \<and> power_ok sd"
    using l(2) h2(4,5) ns by (fastforce simp: data_ok_def)
  have "length as \<le> walk_fuel" using n by (simp add: walk_fuel_def)
  from interference_ok [OF env m this pw, of "Fin 0"] obtain summ h3 where
    h3: "interference walk_fuel env (channels lp) (Fin 0) h2 = Inr (summ, h3)" "nonneg summ"
      "data_frame (sd_of h2 ` set as) h2 h3" by auto
  have "data_frame (sd_of h2 ` set (?c # as)) h2 h3" by (rule data_frame_trans [OF h3(3) data_frame_refl [of "{}"]]) auto
  then have l3: "cell_links p (?c # as) h3" by (rule cell_links_frame [OF h2(2)])
  have e3: "lps h3 = lps h2" "chans h3 = chans h2" "msgs h3 = msgs h2" "next_addr h3 = next_addr h2" using h3(3) by (simp_all add: data_frame_def)
  obtain x where x: "sirs h3 ?sd = Some x" using l3 s2(1) by (auto simp: cell_links_def sd_of_frame [OF h3(3)])
  obtain y g where h4: "set_power env ?sd summ h3 = Inr (h3\<lparr>rng_state := g, sirs := (sirs h3)(?sd := Some y)\<rparr>)" "power_ok y"
    by (rule set_power_ok [OF env h3(2) x])
  let ?h4 = "h3\<lparr>rng_state := g, sirs := (sirs h3)(?sd := Some y)\<rparr>"
  have i4: "id_of ?h4 = id_of h2" "sd_of ?h4 = sd_of h2" using e3 by (simp_all add: id_of_def sd_of_def fun_eq_iff)
  have i3: "id_of h3 = id_of h2" "sd_of h3 = sd_of h2" using e3 by (simp_all add: id_of_def sd_of_def fun_eq_iff)
  have "\<forall>a\<ge>next_addr h3. sirs ?h4 a = None"
    using l3 x by (auto simp: cell_links_def)
  then have l4: "cell_links p (?c # as) ?h4" using l3 by (auto simp: cell_links_def i3 i4)
  have "data_ok power_ok as h3" using pw data_ok_frame(1) [OF h3(3), of as] by (auto simp: data_ok_def)
  then have p4: "data_ok power_ok (?c # as) ?h4"
    using h4(2) ns by (auto simp: data_ok_def i3 i4 s2(1))
  obtain h5 where h5: "fading_recheck env p ?h4 = Inr h5" "cell_links p (?c # as) h5"
    "data_frame (sd_of ?h4 ` set (?c # as)) ?h4 h5" "data_ok fading_ok (?c # as) h5"
    by (rule fading_recheck_ok [OF env l4])
  have "cell_inv p (?c # as) h5" using h5 data_ok_frame(1) [OF h5(3) p4] by (simp add: cell_inv_def)
  moreover have "allocation env p h = Inr (of_nat j, h5)"
    using lp j(1) cs(1) h2(1,3) h3(1) h4(1) h5(1) by (simp add: allocation_def modify_lp_def)
  moreover have "lps h5 = lps h2" "msgs h5 = msgs h2" "id_of h5 = id_of h2" "next_addr h5 = next_addr h2"
    using h5(3) e3 id_of_frame [OF h5(3)] i4 by (simp_all add: data_frame_def)
  ultimately show ?thesis using that j(2-4) h2(4,6-8) s2(2) by auto
qed

section \<open>\<open>deallocation\<close>\<close>

lemma find_node_ok:
  "dseg (chans h) nx q as l None \<Longrightarrow> length as \<le> n \<Longrightarrow> find_node n i q h = Inr (find (\<lambda>a. id_of h a = i) as)"
proof (induction as arbitrary: n nx q)
  case (Cons a as)
  then obtain m where "n = Suc m" by (cases n) auto
  with Cons show ?case by (auto simp: id_of_def)
qed simp

definition same_data :: "(addr \<Rightarrow> channel option) \<Rightarrow> (addr \<Rightarrow> channel option) \<Rightarrow> bool" where
  "same_data C D \<longleftrightarrow> (\<forall>b. map_option channel_id (D b) = map_option channel_id (C b) \<and>
     map_option sir_data (D b) = map_option sir_data (C b))"

lemma same_data_upd:
  "same_data C D \<Longrightarrow> D b = Some x \<Longrightarrow> channel_id y = channel_id x \<Longrightarrow> sir_data y = sir_data x \<Longrightarrow> same_data C (D(b := Some y))"
  unfolding same_data_def by (metis (no_types, lifting) fun_upd_apply option.simps(9))

lemma same_data_refl [simp]: "same_data C C"
  by (simp add: same_data_def)

lemma unlink_head:
  assumes "dlist (chans h) (channels lp) (a # as)" "distinct (a # as)" "lps h p = Some lp"
  obtains q C where "unlink p a h = Inr (h\<lparr>lps := (lps h)(p := Some (lp\<lparr>channels := q\<rparr>)), chans := C\<rparr>)"
    "dlist C q as" "same_data (chans h) C"
proof -
  obtain ch l where ch: "channels lp = Some a" "chans h a = Some ch" "dseg (chans h) (Some a) (prev_ch ch) as l None"
    using assms(1) by (auto simp: dlist_def)
  show ?thesis
  proof (cases as)
    case Nil
    then show ?thesis using that [of "chans h" None] ch assms(3) by (simp add: unlink_def modify_lp_def)
  next
    case (Cons b bs)
    then obtain x where x: "prev_ch ch = Some b" "chans h b = Some x" using ch(3) by auto
    let ?C = "(chans h)(b := Some (x\<lparr>next_ch := None\<rparr>))"
    have "dlist ?C (prev_ch ch) as"
      by (rule dlist_pop [where h = "chans h", OF _ assms(2) ch(2)]) (use assms(1) ch(1) x in auto)
    moreover have "same_data (chans h) ?C" by (rule same_data_upd [where D = "chans h", OF same_data_refl x(2)]) simp_all
    ultimately show ?thesis using that [of ?C "prev_ch ch"] ch(1,2) x assms(3)
      by (simp add: unlink_def modify_lp_def modify_chan_def)
  qed
qed

lemma unlink_inner:
  assumes d: "dlist (chans h) (channels lp) (xs @ a # ys)" "distinct (xs @ a # ys)" "xs \<noteq> []" and lp: "lps h p = Some lp"
  obtains C where "unlink p a h = Inr (h\<lparr>chans := C\<rparr>)" "dlist C (channels lp) (xs @ ys)" "same_data (chans h) C"
proof -
  obtain ch b x l where s: "chans h a = Some ch" "next_ch ch = Some b" "b = last xs" "chans h b = Some x" "prev_ch x = Some a"
    "dseg (chans h) (Some a) (prev_ch ch) ys l None" by (rule dlist_split [OF d(1,3)])
  have hd: "channels lp \<noteq> Some a" using d by (cases xs) (auto simp: dlist_def)
  let ?C1 = "(chans h)(b := Some (x\<lparr>prev_ch := prev_ch ch\<rparr>))"
  have sd: "same_data (chans h) ?C1" by (rule same_data_upd [where D = "chans h", OF same_data_refl s(4)]) simp_all
  have cut: "dlist C (channels lp) (xs @ ys)"
    if "case prev_ch ch of None \<Rightarrow> C = ?C1 | Some e \<Rightarrow> \<exists>y. ?C1 e = Some y \<and> C = ?C1(e := Some (y\<lparr>next_ch := next_ch ch\<rparr>))" for C
    by (rule dlist_cut [OF d(1,3,2) s(1,2,4) refl that])
  show ?thesis
  proof (cases "prev_ch ch")
    case None
    then show ?thesis using that [of ?C1] cut [of ?C1] sd s(1,2,4) lp hd by (simp add: unlink_def modify_chan_def)
  next
    case (Some e)
    have "b \<in> set xs" "e \<in> set ys" using d(3) s(3,6) Some by (auto, cases ys, auto)
    then have "e \<noteq> b" using d(2) by auto
    obtain y where y: "chans h e = Some y" using s(6) Some by (cases ys) auto
    let ?C = "?C1(e := Some (y\<lparr>next_ch := next_ch ch\<rparr>))"
    have "same_data (chans h) ?C" by (rule same_data_upd [where D = ?C1, OF sd]) (use y \<open>e \<noteq> b\<close> in auto)
    moreover have "dlist ?C (channels lp) (xs @ ys)" by (rule cut) (use Some y \<open>e \<noteq> b\<close> in auto)
    ultimately show ?thesis using that [of ?C] Some y s(1,2,4) lp hd \<open>e \<noteq> b\<close> by (simp add: unlink_def modify_chan_def)
  qed
qed

lemma unlink_ok:
  assumes l: "cell_links p (xs @ a # ys) h" and lp: "lps h p = Some lp"
  obtains q C where "unlink p a h = Inr (h\<lparr>lps := (lps h)(p := Some (lp\<lparr>channels := q\<rparr>)), chans := C\<rparr>)"
    "dlist C q (xs @ ys)" "same_data (chans h) C"
proof -
  have d: "dlist (chans h) (channels lp) (xs @ a # ys)" "distinct (xs @ a # ys)" using l lp by (auto simp: cell_links_def)
  show ?thesis
  proof (cases "xs = []")
    case True
    then show ?thesis using unlink_head [of h lp a ys p] d lp that by auto
  next
    case False
    obtain C where C: "unlink p a h = Inr (h\<lparr>chans := C\<rparr>)" "dlist C (channels lp) (xs @ ys)" "same_data (chans h) C"
      by (rule unlink_inner [OF d False lp])
    have "(lps h)(p := Some (lp\<lparr>channels := channels lp\<rparr>)) = lps h" using lp by (simp add: fun_upd_idem)
    then have "h\<lparr>lps := (lps h)(p := Some (lp\<lparr>channels := channels lp\<rparr>)), chans := C\<rparr> = h\<lparr>chans := C\<rparr>" by simp
    with C that show ?thesis by metis
  qed
qed

lemma deallocation_run:
  assumes env: "libs_ok env" and inv: "cell_inv p as h" and a: "a \<in> set as" and lp: "lps h p = Some lp"
  obtains cs q h' where "deallocation env p (id_of h a) h = Inr h'" "cell_inv p (remove1 a as) h'"
    "\<forall>b\<in>set as. b \<noteq> a \<longrightarrow> id_of h' b = id_of h b" "chans h' a = None" "sirs h' (sd_of h a) = None"
    "lps h' = (lps h)(p := Some (lp\<lparr>channel_state := cs, channels := q\<rparr>))" "msgs h' = msgs h"
    "next_addr h' = next_addr h"
proof -
  have l: "cell_links p as h" "bitmap_ok lp" "distinct as" "inj_on (id_of h) (set as)" "inj_on (sd_of h) (set as)"
    "\<forall>i<1000. bit_at lp i \<longleftrightarrow> i \<in> (\<lambda>a. unat (id_of h a)) ` set as" "channels_per_cell lp = CHANNELS_PER_CELL"
    "\<forall>a\<in>set as. unat (id_of h a) < 1000 \<and> sirs h (sd_of h a) \<noteq> None"
    "\<forall>a\<ge>next_addr h. lps h a = None \<and> chans h a = None \<and> sirs h a = None \<and> msgs h a = None"
    using inv lp by (auto simp: cell_inv_def cell_links_def)
  obtain m where "dseg (chans h) None (channels lp) as m None" using cell_dlist [OF l(1) lp] by blast
  then have find: "find_node walk_fuel (id_of h a) (channels lp) h = Inr (find (\<lambda>b. id_of h b = id_of h a) as)"
    using cell_length [OF l(1)] by (intro find_node_ok) (auto simp: walk_fuel_def)
  have "find (\<lambda>b. id_of h b = id_of h a) as = Some a"
  proof -
    obtain b where b: "find (\<lambda>b. id_of h b = id_of h a) as = Some b" using a by (cases "find (\<lambda>b. id_of h b = id_of h a) as") (auto simp: find_None_iff)
    then have "b \<in> set as" "id_of h b = id_of h a" by (auto simp: find_Some_iff)
    then show ?thesis using b l(4) a by (auto simp: inj_on_def)
  qed
  note find = find [unfolded this]
  obtain xs ys where as: "as = xs @ a # ys" "a \<notin> set xs" "a \<notin> set ys" "remove1 a as = xs @ ys"
    using split_list [OF a] l(3) by (fastforce simp: remove1_append)
  obtain q C where C: "unlink p a h = Inr (h\<lparr>lps := (lps h)(p := Some (lp\<lparr>channels := q\<rparr>)), chans := C\<rparr>)"
    "dlist C q (xs @ ys)" "same_data (chans h) C"
    by (rule unlink_ok [OF l(1) [unfolded as(1)] lp])
  let ?lp = "lp\<lparr>channels := q\<rparr>" and ?i = "id_of h a" and ?sd = "sd_of h a"
  have i: "unat ?i < 1000" "unat ?i < 1024" using l(8) a by auto
  obtain cs where cs: "RESET_CHANNEL ?lp ?i = Inr (?lp\<lparr>channel_state := cs\<rparr>)" "bitmap_ok (?lp\<lparr>channel_state := cs\<rparr>)"
    "\<And>j. bit_at (?lp\<lparr>channel_state := cs\<rparr>) j = (j \<noteq> unat ?i \<and> bit_at ?lp j)"
    using RESET_CHANNEL_bit [of ?lp ?i] l(2) i(2) by auto
  obtain c where c: "chans h a = Some c" "channel_id c = ?i" "sir_data c = ?sd"
    using cell_nodes [OF l(1) a] by (auto simp: id_of_def sd_of_def)
  obtain c' where c': "C a = Some c'" "sir_data c' = ?sd"
    using C(3) c unfolding same_data_def by (metis map_option_eq_Some)
  obtain sd where sd: "sirs h ?sd = Some sd" using l(8) a by blast
  define h3 where "h3 = h\<lparr>lps := (lps h)(p := Some (lp\<lparr>channel_state := cs, channels := q\<rparr>)), sirs := (sirs h)(?sd := None), chans := C(a := None)\<rparr>"
  have lpe: "?lp\<lparr>channel_state := cs\<rparr> = lp\<lparr>channel_state := cs, channels := q\<rparr>" by (cases lp) simp
  have ids: "id_of h3 b = id_of h b" "sd_of h3 b = sd_of h b" if "b \<noteq> a" for b
    using that C(3) by (auto simp: id_of_def sd_of_def h3_def same_data_def split: option.splits)
      (metis map_option_eq_Some option.distinct(1) option.inject option.simps(9))+
  have sub: "set (xs @ ys) = set as - {a}" using as l(3) by auto
  have nsd: "sd_of h b \<noteq> ?sd" "unat (id_of h b) \<noteq> unat ?i" if "b \<in> set (xs @ ys)" for b
  proof -
    have "b \<in> set as" "b \<noteq> a" using that sub by blast+
    then show "sd_of h b \<noteq> ?sd" "unat (id_of h b) \<noteq> unat ?i"
      using l(4,5) a by (auto simp: inj_on_def dest: unsigned_word_eqI)
  qed
  have eq: "id_of h3 b = id_of h b" "sd_of h3 b = sd_of h b" if "b \<in> set (xs @ ys)" for b
    using ids that sub by auto
  have links: "cell_links p (xs @ ys) h3"
  proof -
    have "dlist (C(a := None)) q (xs @ ys)" using C(2) as(2,3) by (auto simp: dlist_def)
    moreover have "bit_at (lp\<lparr>channel_state := cs, channels := q\<rparr>) k \<longleftrightarrow> k \<in> (\<lambda>b. unat (id_of h3 b)) ` set (xs @ ys)" if "k < 1000" for k
    proof -
      have "(\<lambda>b. unat (id_of h3 b)) ` set (xs @ ys) = (\<lambda>b. unat (id_of h b)) ` set as - {unat ?i}"
      proof -
        have n: "inj_on (\<lambda>b. unat (id_of h b)) (set as)"
          using l(4) by (auto simp: inj_on_def dest: unsigned_word_eqI)
        have "(\<lambda>b. unat (id_of h3 b)) ` (set as - {a}) = (\<lambda>b. unat (id_of h b)) ` (set as - {a})"
          using ids(1) by (intro image_cong) auto
        also have "\<dots> = (\<lambda>b. unat (id_of h b)) ` set as - {unat ?i}"
          using inj_on_image_set_diff [OF n, of "set as" "{a}"] a by simp
        finally show ?thesis unfolding sub .
      qed
      moreover have "bit_at lp k \<longleftrightarrow> k \<in> (\<lambda>b. unat (id_of h b)) ` set as" using l(6) that by blast
      moreover have "bit_at (lp\<lparr>channel_state := cs, channels := q\<rparr>) k \<longleftrightarrow> k \<noteq> unat ?i \<and> bit_at lp k"
        using cs(3) [of k] unfolding lpe by simp
      ultimately show ?thesis by blast
    qed
    moreover have "bitmap_ok (lp\<lparr>channel_state := cs, channels := q\<rparr>)" using cs(2) unfolding lpe .
    moreover have "inj_on (id_of h3) (set (xs @ ys))" "inj_on (sd_of h3) (set (xs @ ys))"
      unfolding sub using l(4,5) ids by (auto simp: inj_on_def)
    moreover have "\<forall>b\<in>set (xs @ ys). unat (id_of h3 b) < 1000 \<and> sirs h3 (sd_of h3 b) \<noteq> None"
    proof
      fix b assume b: "b \<in> set (xs @ ys)"
      then have "b \<in> set as" using sub by blast
      then show "unat (id_of h3 b) < 1000 \<and> sirs h3 (sd_of h3 b) \<noteq> None"
        using l(8) eq [OF b] nsd(1) [OF b] by (auto simp: h3_def)
    qed
    moreover have "\<forall>b\<ge>next_addr h3. lps h3 b = None \<and> chans h3 b = None \<and> sirs h3 b = None \<and> msgs h3 b = None"
    proof (intro allI impI)
      fix b assume b: "next_addr h3 \<le> b"
      then have n: "lps h b = None" "chans h b = None" "sirs h b = None" "msgs h b = None" using l(9) by (auto simp: h3_def)
      moreover have "b \<noteq> p" using n(1) lp by auto
      moreover have "C b = None" using C(3) n(2) by (auto simp: same_data_def) (metis map_option_is_None option.map_disc_iff)
      ultimately show "lps h3 b = None \<and> chans h3 b = None \<and> sirs h3 b = None \<and> msgs h3 b = None" by (auto simp: h3_def)
    qed
    moreover have "distinct (xs @ ys)" using l(3) as(1) by auto
    ultimately show ?thesis using l(7) by (simp add: cell_links_def h3_def)
  qed
  have pw: "data_ok power_ok (xs @ ys) h3"
    unfolding data_ok_def
  proof
    fix b assume b: "b \<in> set (xs @ ys)"
    then have "b \<in> set as" using sub by blast
    then obtain x where "sirs h (sd_of h b) = Some x" "power_ok x" using inv by (auto simp: cell_inv_def data_ok_def)
    then show "\<exists>x. sirs h3 (sd_of h3 b) = Some x \<and> power_ok x" using eq(2) [OF b] nsd(1) [OF b] by (auto simp: h3_def)
  qed
  obtain h4 where h4: "fading_recheck env p h3 = Inr h4" "cell_links p (xs @ ys) h4"
    "data_frame (sd_of h3 ` set (xs @ ys)) h3 h4" "data_ok fading_ok (xs @ ys) h4"
    by (rule fading_recheck_ok [OF env links])
  have run: "deallocation env p ?i h = Inr h4"
    using lp find C(1) cs(1) c' sd h4(1) unfolding lpe
    by (simp add: deallocation_def modify_lp_def free_node_def h3_def)
  have "?sd \<notin> sd_of h3 ` set (xs @ ys)"
  proof
    assume "?sd \<in> sd_of h3 ` set (xs @ ys)"
    then obtain b where "b \<in> set (xs @ ys)" "?sd = sd_of h3 b" by blast
    then show False using eq(2) [of b] nsd(1) [of b] by metis
  qed
  then have "sirs h4 ?sd = None" using h4(3) by (auto simp: data_frame_def h3_def)
  moreover have "cell_inv p (remove1 a as) h4"
    using h4(2,4) data_ok_frame(1) [OF h4(3) pw] by (simp add: cell_inv_def as(4))
  moreover have "lps h4 = lps h3" "chans h4 = chans h3" "msgs h4 = msgs h3" "id_of h4 = id_of h3" "next_addr h4 = next_addr h3"
    using h4(3) id_of_frame [OF h4(3)] by (simp_all add: data_frame_def)
  ultimately show ?thesis using that [OF run] ids(1) by (auto simp: h3_def)
qed

lemma deallocation_absent:
  assumes "cell_links p as h" "i \<notin> id_of h ` set as"
  shows "deallocation env p i h = Inl Aborted"
proof -
  obtain lp where lp: "lps h p = Some lp" using assms(1) by (auto simp: cell_links_def)
  then obtain m where "dseg (chans h) None (channels lp) as m None" using cell_dlist [OF assms(1)] by blast
  then have "find_node walk_fuel i (channels lp) h = Inr (find (\<lambda>b. id_of h b = i) as)"
    using cell_length [OF assms(1)] by (intro find_node_ok) (auto simp: walk_fuel_def)
  moreover have "find (\<lambda>b. id_of h b = i) as = None" using assms(2) by (auto simp: find_None_iff)
  ultimately show ?thesis using lp by (simp add: deallocation_def)
qed

end
