(* ===== verification/Model_Inv.thy ===== *)
theory Model_Inv
  imports Model Channel_Ops "HOL-Library.Multiset"
begin

text \<open>
  The invariant of a simulated cell: the channels in use are exactly those of the END_CALL events
  pending in the queue, the counter of free channels is right, one START_CALL is pending, and every
  pending event points to a message of its own. \<open>event_queue\<close> is what the loop asks of its queue.
  The queue of the program fails it in one way, when a resize computes a negative bucket width; so
  the locale has each operation twice, as it is and with a check that stops there, and the lemmas say
  that a checked run either stops at such a resize or is the run of the program and keeps the
  invariant (\<open>follows\<close>).
\<close>

section \<open>Checked runs\<close>

definition follows :: "fault \<Rightarrow> fault + 'a \<Rightarrow> fault + 'a \<Rightarrow> ('a \<Rightarrow> bool) \<Rightarrow> bool" where
  "follows bad r' r P \<longleftrightarrow> r' = Inl bad \<or> (\<exists>v. r' = Inr v \<and> r = Inr v \<and> P v)"

lemma follows_Inr [simp]: "follows bad (Inr v) (Inr w) P \<longleftrightarrow> v = w \<and> P v"
  by (auto simp: follows_def)

lemma follows_bind:
  "follows bad m' m P \<Longrightarrow> (\<And>v. P v \<Longrightarrow> follows bad (g' v) (g v) Q) \<Longrightarrow> follows bad (kbind m' g') (kbind m g) Q"
  unfolding follows_def by (metis kbind.simps)

lemma follows_step: "m = Inr v \<Longrightarrow> follows bad (g' v) (g v) Q \<Longrightarrow> follows bad (kbind m g') (kbind m g) Q"
  by simp

lemma follows_mono: "follows bad r' r P \<Longrightarrow> (\<And>v. P v \<Longrightarrow> Q v) \<Longrightarrow> follows bad r' r Q"
  by (auto simp: follows_def)

section \<open>What the events say\<close>

definition timed :: "msg_t \<Rightarrow> bool" where
  "timed x \<longleftrightarrow> (\<exists>t. timestamp x = Some t \<and> nonneg t)"

definition start_ok :: "u32 \<Rightarrow> cell_heap \<Rightarrow> addr \<Rightarrow> bool" where
  "start_ok self h m \<longleftrightarrow> (\<exists>x. msgs h m = Some x \<and> receiver x = self \<and> msg_type x = START_CALL \<and> timed x)"

definition end_ok :: "u32 \<Rightarrow> cell_heap \<Rightarrow> addr \<Rightarrow> addr \<Rightarrow> bool" where
  "end_ok self h m a \<longleftrightarrow> (\<exists>x. msgs h m = Some x \<and> receiver x = self \<and> msg_type x = END_CALL \<and> timed x \<and>
     msg_channel x = Some (id_of h a))"

definition init_ok :: "u32 \<Rightarrow> cell_heap \<Rightarrow> addr \<Rightarrow> bool" where
  "init_ok self h m \<longleftrightarrow> (\<exists>x. msgs h m = Some x \<and> receiver x = self \<and> msg_type x = INIT) \<and>
     (\<forall>a\<ge>next_addr h. lps h a = None \<and> chans h a = None \<and> sirs h a = None \<and> msgs h a = None)"

definition counters :: "u32 \<Rightarrow> addr \<Rightarrow> addr list \<Rightarrow> cell_heap \<Rightarrow> bool" where
  "counters d p as h \<longleftrightarrow> (\<exists>lp. lps h p = Some lp \<and> unat (channel_counter lp) + length as = 1000 \<and>
     ref_ta lp = TA \<and> ta_duration lp = TA_DURATION \<and>
     arriving_calls lp = complete_calls lp + blocked_on_setup lp + of_nat (length as) + d)"

text \<open>The \<open>es\<close> are the pending END_CALL messages in the order of the calls \<open>as\<close> they end.\<close>

definition cell_events :: "u32 \<Rightarrow> addr \<Rightarrow> addr list \<Rightarrow> addr \<Rightarrow> addr list \<Rightarrow> cell_heap \<Rightarrow> bool" where
  "cell_events self p as s0 es h \<longleftrightarrow> cell_inv p as h \<and> counters 0 p as h \<and> start_ok self h s0 \<and>
     list_all2 (end_ok self h) es as \<and> distinct (s0 # es) \<and> msgs h 0 = None \<and> p \<noteq> 0"

definition held_as :: "u64 multiset \<Rightarrow> addr list \<Rightarrow> bool" where
  "held_as M ms \<longleftrightarrow> M = image_mset of_nat (mset ms)"

definition sim_inv :: "('q \<Rightarrow> bool) \<Rightarrow> ('q \<Rightarrow> u64 multiset) \<Rightarrow> u32 \<Rightarrow> 'q cell_fiber \<Rightarrow> bool" where
  "sim_inv ok held self s \<longleftrightarrow> ok (queue s) \<and>
     (case state_ptr s of
        None \<Rightarrow> \<exists>m. held_as (held (queue s)) [m] \<and> init_ok self (heap s) m \<and> msgs (heap s) 0 = None
      | Some p \<Rightarrow> \<exists>as s0 es. held_as (held (queue s)) (s0 # es) \<and> cell_events self p as s0 es (heap s))"

text \<open>The loop has been left.\<close>

definition stopped :: "'q cell_fiber \<Rightarrow> bool" where
  "stopped s \<longleftrightarrow> (\<exists>p lp. state_ptr s = Some p \<and> lps (heap s) p = Some lp \<and> complete_calls lp = COMPLETE_CALLS)"

lemma of_nat_addr: "m < 2 ^ 64 \<Longrightarrow> unat (of_nat m :: u64) = m"
  by (simp add: unsigned_of_nat take_bit_nat_eq_self)

lemma of_nat_addr_0: "m < 2 ^ 64 \<Longrightarrow> m \<noteq> 0 \<Longrightarrow> (of_nat m :: u64) \<noteq> 0"
  using of_nat_addr [of m] by (metis unsigned_0)

lemma type_codes [simp]: "START_CALL \<noteq> INIT" "END_CALL \<noteq> INIT" "END_CALL \<noteq> START_CALL"
  by (simp_all add: START_CALL_def END_CALL_def INIT_def)

section \<open>Changes that keep the channels\<close>

lemma cell_inv_cong:
  assumes i: "cell_inv p as h" and h: "chans h' = chans h" "sirs h' = sirs h" "next_addr h \<le> next_addr h'"
    "\<forall>a\<ge>next_addr h'. msgs h' a = None"
    and lp: "lps h p = Some lp" "lps h' = (lps h)(p := Some lp')" "channel_state lp' = channel_state lp"
      "channels lp' = channels lp" "channels_per_cell lp' = channels_per_cell lp"
  shows "cell_inv p as h'"
proof -
  have ids: "id_of h' = id_of h" "sd_of h' = sd_of h" using h by (simp_all add: id_of_def sd_of_def fun_eq_iff)
  have b: "bitmap_ok lp' = bitmap_ok lp" "bit_at lp' = bit_at lp" using lp(3) by (simp_all add: bitmap_ok_def bit_at_def fun_eq_iff)
  have "p < next_addr h" using i lp(1) by (metis cell_inv_def cell_links_def leI option.distinct(1))
  then have "cell_links p as h'"
    using i h lp b unfolding cell_inv_def cell_links_def ids by auto
  moreover have "data_ok P as h' = data_ok P as h" for P by (simp add: data_ok_def ids h)
  ultimately show ?thesis using i by (simp add: cell_inv_def)
qed

lemma cell_inv_lp: "cell_inv p as h \<Longrightarrow> \<exists>lp. lps h p = Some lp"
  by (auto simp: cell_inv_def cell_links_def)

lemma cell_addr: "cell_inv p as h \<Longrightarrow> p < next_addr h"
  using cell_inv_lp [of p as h] unfolding cell_inv_def cell_links_def by (metis leI option.distinct(1))

lemma fresh_msgs: "cell_inv p as h \<Longrightarrow> \<forall>a\<ge>next_addr h. msgs h a = None"
  by (simp add: cell_inv_def cell_links_def)

lemma events_frame:
  assumes "list_all2 (end_ok self h) es as" "\<forall>m\<in>set es. msgs h' m = msgs h m" "\<forall>a\<in>set as. id_of h' a = id_of h a"
  shows "list_all2 (end_ok self h') es as"
  using assms by (auto simp: list_all2_conv_all_nth end_ok_def)

lemma start_frame: "start_ok self h m \<Longrightarrow> msgs h' m = msgs h m \<Longrightarrow> start_ok self h' m"
  by (simp add: start_ok_def)

lemma event_old:
  assumes "cell_events self p as s0 es h" "m \<in> set (s0 # es)"
  shows "m < next_addr h" "m \<noteq> 0"
proof -
  have "msgs h m \<noteq> None"
    using assms by (auto simp: cell_events_def start_ok_def end_ok_def list_all2_conv_all_nth in_set_conv_nth)
  moreover have "\<forall>a\<ge>next_addr h. msgs h a = None" using assms(1) fresh_msgs [of p as h] by (simp add: cell_events_def)
  ultimately show "m < next_addr h" by (metis leI)
  show "m \<noteq> 0" using \<open>msgs h m \<noteq> None\<close> assms(1) by (metis cell_events_def)
qed

lemma nonneg_add: "nonneg x \<Longrightarrow> nonneg y \<Longrightarrow> nonneg (d_add x y)"
  by (cases x; cases y) (auto simp: d_add_def intro: rnd_nonneg)

lemma TA_bounds: obtains t where "TA = Fin t" "0 \<le> t" "t \<le> 1"
  using rnd_fin [of "16 / 100" 1] by (auto simp: TA_def)

lemma recompute_TA:
  obtains r where "recompute_ta TA now = Fin r" "0 \<le> r" "r \<le> 5"
proof -
  obtain t where t: "TA = Fin t" "0 \<le> t" "t \<le> 1" by (rule TA_bounds)
  have m: "\<exists>r. d_mul (Fin t) (Fin f) = Fin r \<and> 0 \<le> r \<and> r \<le> 5" if "0 \<le> f" "f \<le> 5" for f
  proof -
    have "t * f \<le> 1 * 5" using t(2,3) that by (intro mult_mono) auto
    then show ?thesis using d_mul_fin [of t f 5] t(2) that(1) by auto
  qed
  have c: "\<exists>r. d_mul (Fin t) (rnd False f) = Fin r \<and> 0 \<le> r \<and> r \<le> 5" if f: "0 \<le> f" "f \<le> 5" for f
  proof -
    obtain g where "rnd False f = Fin g" "0 \<le> g" "g \<le> of_int 5" by (rule rnd_fin [of f 5]) (use f in auto)
    then show ?thesis using m [of g] by simp
  qed
  have "\<exists>r. recompute_ta TA now = Fin r \<and> 0 \<le> r \<and> r \<le> 5"
    unfolding recompute_ta_def t(1) Let_def by (auto intro!: m c simp del: times_divide_eq_left)
  then show ?thesis using that by blast
qed

text \<open>A new cell has no calls and every channel free.\<close>

lemma new_cell_inv:
  fixes g :: rng
  assumes fr: "\<forall>a\<ge>next_addr h. lps h a = None \<and> chans h a = None \<and> sirs h a = None \<and> msgs h a = None"
  defines h': "h' \<equiv> h\<lparr>next_addr := next_addr h + 2, lps := (lps h)(next_addr h := Some new_cell), rng_state := g\<rparr>"
  shows "cell_inv (next_addr h) [] h' \<and> counters 0 (next_addr h) [] h'"
proof -
  have nb: "bitmap_ok new_cell" "\<forall>k<1000. \<not> bit_at new_cell k"
  proof -
    have s: "channel_state new_cell = replicate 32 (Some 0) @ replicate 32 None"
      by (simp add: new_cell_def CHANNELS_PER_CELL_def BITS_def)
    show "bitmap_ok new_cell" by (simp add: bitmap_ok_def s nth_append)
    show "\<forall>k<1000. \<not> bit_at new_cell k"
    proof (intro allI impI)
      fix k :: nat assume "k < 1000"
      then have "k div BITS < 32" by (simp add: BITS_def)
      then show "\<not> bit_at new_cell k" by (simp add: bit_at_def s nth_append)
    qed
  qed
  have "cell_inv (next_addr h) [] h'"
    using fr nb by (auto simp: h' cell_inv_def cell_links_def data_ok_def new_cell_def [THEN arg_cong, of channels]
        new_cell_def [THEN arg_cong, of channels_per_cell])
  moreover have "counters 0 (next_addr h) [] h'"
    by (simp add: h' counters_def new_cell_def CHANNELS_PER_CELL_def)
  ultimately show ?thesis by simp
qed

section \<open>The queue the loop needs\<close>

locale event_queue =
  fixes put put' :: "double \<Rightarrow> u64 \<Rightarrow> 'q \<Rightarrow> fault + 'q"
    and get get' :: "'q \<Rightarrow> fault + u64 \<times> 'q"
    and bad :: fault
    and ok :: "'q \<Rightarrow> bool"
    and held :: "'q \<Rightarrow> u64 multiset"
  assumes put_law: "ok q \<Longrightarrow> nonneg p \<Longrightarrow> size (held q) < 2000 \<Longrightarrow>
      follows bad (put' p x q) (put p x q) (\<lambda>q'. ok q' \<and> held q' = add_mset x (held q))"
    and get_law: "ok q \<Longrightarrow> held q \<noteq> {#} \<Longrightarrow>
      follows bad (get' q) (get q) (\<lambda>(x, q'). ok q' \<and> held q = add_mset x (held q'))"
begin

text \<open>A new message of type \<open>ty\<close> is fresh, waits in the queue, and leaves the rest of the heap alone.\<close>

definition scheduled :: "u32 \<Rightarrow> u32 \<Rightarrow> double \<Rightarrow> u32 \<Rightarrow> cell_heap \<Rightarrow> 'q \<Rightarrow> cell_heap \<times> 'q \<Rightarrow> bool" where
  "scheduled me ty stamp ch h q = (\<lambda>(h', q').
     h' = h\<lparr>next_addr := Suc (next_addr h),
       msgs := (msgs h)(next_addr h := Some \<lparr>sender = me, receiver = me, msg_type = ty, timestamp = Some stamp, msg_channel = Some ch\<rparr>)\<rparr> \<and>
     ok q' \<and> held q' = add_mset (of_nat (next_addr h)) (held q))"

lemma schedule_follows:
  assumes "libs_ok env" "ok q" "nonneg stamp" "size (held q) < 2000"
  shows "follows bad (schedule_event put' env me ty stamp ch h q) (schedule_event put env me ty stamp ch h q)
    (scheduled me ty stamp ch h q)"
proof -
  let ?x = "\<lparr>sender = me, receiver = me, msg_type = ty, timestamp = Some stamp, msg_channel = Some ch\<rparr>"
  have "pack_event env me ty stamp ch h =
      Inr (next_addr h, h\<lparr>next_addr := Suc (next_addr h), msgs := (msgs h)(next_addr h := Some ?x)\<rparr>)"
    using assms(1) by (simp add: pack_event_def malloc_def libs_ok_def)
  then show ?thesis unfolding schedule_event_def
    by (simp) (rule follows_bind [OF put_law [OF assms(2-4)]], simp add: scheduled_def)
qed

text \<open>Putting the message of a new call, or of the next arrival.\<close>

lemma cell_inv_scheduled:
  assumes "cell_inv p as h" "scheduled me ty stamp ch h q (h', q')"
  shows "cell_inv p as h'" "lps h' = lps h" "id_of h' = id_of h" "next_addr h' = Suc (next_addr h)"
    "\<forall>m. m \<noteq> next_addr h \<longrightarrow> msgs h' m = msgs h m"
proof -
  obtain lp where "lps h p = Some lp" using cell_inv_lp [OF assms(1)] by blast
  then show "cell_inv p as h'"
    by (intro cell_inv_cong [OF assms(1), of h' lp lp])
      (use assms fresh_msgs [OF assms(1)] in \<open>auto simp: scheduled_def fun_upd_idem\<close>)
qed (use assms(2) in \<open>simp_all add: scheduled_def id_of_def fun_eq_iff\<close>)

text \<open>The cell between two events of its own: \<open>d\<close> is how many arrivals are not yet accounted for.\<close>

definition mid :: "u32 \<Rightarrow> u32 \<Rightarrow> addr \<Rightarrow> addr list \<Rightarrow> addr list \<Rightarrow> cell_heap \<Rightarrow> 'q \<Rightarrow> bool" where
  "mid d self p as es h q \<longleftrightarrow> cell_inv p as h \<and> counters d p as h \<and> list_all2 (end_ok self h) es as \<and> distinct es \<and>
     msgs h 0 = None \<and> ok q \<and> held_as (held q) es"

definition grows :: "nat \<Rightarrow> cell_heap \<Rightarrow> addr list \<Rightarrow> cell_heap \<Rightarrow> addr list \<Rightarrow> bool" where
  "grows n h ms h' ms' \<longleftrightarrow> next_addr h \<le> next_addr h' \<and> next_addr h' \<le> next_addr h + n \<and>
     (\<forall>m<next_addr h. msgs h' m = msgs h m) \<and> (\<forall>m\<in>set ms'. m \<in> set ms \<or> next_addr h \<le> m)"

lemma grows_trans:
  assumes a: "grows n h ms h' ms'" and b: "grows k h' ms' h'' ms''"
  shows "grows (n + k) h ms h'' ms''"
proof -
  have n: "next_addr h \<le> next_addr h'" "next_addr h' \<le> next_addr h''" "next_addr h'' \<le> next_addr h + (n + k)"
    using a b by (auto simp: grows_def)
  have "msgs h'' m = msgs h m" if "m < next_addr h" for m
    using a b that n(1) less_le_trans [OF that n(1)] by (simp add: grows_def)
  moreover have "m \<in> set ms \<or> next_addr h \<le> m" if "m \<in> set ms''" for m
    using a b that n(1) order_trans [of "next_addr h" "next_addr h'" m] by (auto simp: grows_def)
  ultimately show ?thesis using n by (simp add: grows_def)
qed

lemma mid_size: "mid d self p as es h q \<Longrightarrow> size (held q) \<le> 1000 \<and> length es = length as"
  using cell_length by (auto simp: mid_def held_as_def cell_inv_def dest: list_all2_lengthD)

lemma mid_old:
  assumes "mid d self p as es h q" "m \<in> set es"
  shows "m < next_addr h" "m \<noteq> 0"
proof -
  have "msgs h m \<noteq> None"
    using assms by (auto simp: mid_def end_ok_def list_all2_conv_all_nth in_set_conv_nth)
  moreover have "\<forall>a\<ge>next_addr h. msgs h a = None" using assms(1) fresh_msgs [of p as h] by (simp add: mid_def)
  ultimately show "m < next_addr h" by (metis leI)
  show "m \<noteq> 0" using \<open>msgs h m \<noteq> None\<close> assms(1) by (metis mid_def)
qed

text \<open>Changes of the counters and of the random numbers.\<close>

lemma mid_lp:
  assumes m: "mid d self p as es h q" and lp: "lps h p = Some lp" "channel_state lp' = channel_state lp"
      "channels lp' = channels lp" "channels_per_cell lp' = channels_per_cell lp"
    and c: "counters d' p as (h\<lparr>lps := (lps h)(p := Some lp'), rng_state := g\<rparr>)"
  shows "mid d' self p as es (h\<lparr>lps := (lps h)(p := Some lp'), rng_state := g\<rparr>) q"
proof -
  let ?h = "h\<lparr>lps := (lps h)(p := Some lp'), rng_state := g\<rparr>"
  have i: "cell_inv p as h" "list_all2 (end_ok self h) es as" using m by (simp_all add: mid_def)
  have "cell_inv p as ?h"
    by (rule cell_inv_cong [OF i(1) _ _ _ _ lp(1) _ lp(2-4)]) (use fresh_msgs [OF i(1)] in simp_all)
  moreover have "list_all2 (end_ok self ?h) es as"
    by (rule events_frame [OF i(2)]) (simp_all add: id_of_def)
  ultimately show ?thesis using m c by (simp add: mid_def)
qed

lemma draw_mean:
  assumes "libs_ok env" "0 \<le> m" "m \<le> 100"
  obtains x g where "draw (Expent env (Fin m)) h = Inr (Fin x, h\<lparr>rng_state := g\<rparr>)" "0 \<le> x"
proof -
  obtain x g where "Expent env (Fin m) (rng_state h) = Inr (Fin x, g)" "0 \<le> x"
    by (rule Expent_range [of env m 100 "rng_state h"]) (use assms in \<open>auto simp: libs_ok_def\<close>)
  then show ?thesis using that by (simp add: draw_def)
qed

lemma start_call_follows:
  assumes env: "libs_ok env" and m: "mid 1 self p as es h q" and lp: "lps h p = Some lp" "channel_counter lp \<noteq> 0"
    and now: "nonneg now"
  shows "follows bad (start_call put' env self now p h q) (start_call put env self now p h q)
    (\<lambda>(h', q'). \<exists>as' es'. mid 0 self p as' es' h' q' \<and> grows 3 h es h' es')"
proof -
  let ?lp = "lp\<lparr>channel_counter := channel_counter lp - 1\<rparr>"
  let ?h1 = "h\<lparr>lps := (lps h)(p := Some ?lp)\<rparr>"
  have c: "unat (channel_counter lp) + length as = 1000" "ref_ta lp = TA" "ta_duration lp = Fin 60"
    "arriving_calls lp = complete_calls lp + blocked_on_setup lp + of_nat (length as) + 1"
    using m lp by (auto simp: mid_def counters_def TA_DURATION_def)
  have u: "unat (channel_counter lp - 1) = unat (channel_counter lp) - 1" "0 < unat (channel_counter lp)"
    using lp(2) by (simp_all add: unat_minus_one unat_gt_0)
  obtain x g where x: "draw (Expent env (Fin 60)) ?h1 = Inr (Fin x, ?h1\<lparr>rng_state := g\<rparr>)" "0 \<le> x"
    by (rule draw_mean [OF env, of 60 ?h1]) auto
  let ?h2 = "h\<lparr>lps := (lps h)(p := Some ?lp), rng_state := g\<rparr>"
  have i: "cell_inv p as h" "list_all2 (end_ok self h) es as" using m by (simp_all add: mid_def)
  have ci: "cell_inv p as ?h2"
    by (rule cell_inv_cong [OF i(1) _ _ _ _ lp(1), of ?h2 ?lp]) (use fresh_msgs [OF i(1)] in simp_all)
  have lp2: "lps ?h2 p = Some ?lp" by simp
  have len: "length as < 1000" using c(1) u(2) by simp
  obtain j cs h3 where a: "allocation env p ?h2 = Inr (of_nat j, h3)" "cell_inv p (next_addr ?h2 # as) h3"
    "id_of h3 (next_addr ?h2) = of_nat j" "\<forall>a\<in>set as. id_of h3 a = id_of ?h2 a"
    "lps h3 = (lps ?h2)(p := Some (?lp\<lparr>channel_state := cs, channels := Some (next_addr ?h2)\<rparr>))" "msgs h3 = msgs ?h2"
    "next_addr h3 = next_addr ?h2 + 2"
    by (rule allocation_run [OF env ci len lp2])
  let ?c = "next_addr h" and ?m = "next_addr h + 2"
  have stamp: "nonneg (d_add now (Fin x))" using now x(2) by (intro nonneg_add) simp_all
  have sz: "size (held q) < 2000" using mid_size [OF m] by simp
  have fin: "\<exists>as' es'. mid 0 self p as' es' h4 q' \<and> grows 3 h es h4 es'"
    if s: "scheduled self END_CALL (d_add now (Fin x)) (of_nat j) h3 q (h4, q')" for h4 q'
  proof (intro exI conjI)
    note f = cell_inv_scheduled [OF a(2) s]
    have m4: "msgs h4 = (msgs h)(?m := Some \<lparr>sender = self, receiver = self, msg_type = END_CALL,
        timestamp = Some (d_add now (Fin x)), msg_channel = Some (of_nat j)\<rparr>)" "ok q'" "held q' = add_mset (of_nat ?m) (held q)"
      using s a(6,7) by (simp_all add: scheduled_def)
    have old: "\<forall>e\<in>set es. e < ?c" using mid_old [OF m] by blast
    have "list_all2 (end_ok self h4) es as"
    proof (rule events_frame [OF i(2)])
      show "\<forall>a\<in>set as. id_of h4 a = id_of h a" using a(4) f(3) by (simp add: id_of_def)
      show "\<forall>m\<in>set es. msgs h4 m = msgs h m" using m4(1) old by auto
    qed
    moreover have "end_ok self h4 ?m ?c"
      using m4(1) stamp a(3) f(3) by (auto simp: end_ok_def timed_def)
    moreover have "counters 0 p (?c # as) h4"
      using c u a(5) f(2) by (auto simp: counters_def TA_DURATION_def add.commute add.left_commute)
    moreover have "distinct (?m # es)" using old m by (auto simp: mid_def)
    ultimately show "mid 0 self p (?c # as) (?m # es) h4 q'"
      using f(1) m m4 by (simp add: mid_def held_as_def)
    show "grows 3 h es h4 (?m # es)" using m4(1) f(4) a(7) old by (auto simp: grows_def)
  qed
  show ?thesis
    unfolding start_call_def
    using lp c(3) x(1) a(1) 
    by (auto simp: modify_lp_def intro!: follows_mono [OF schedule_follows [OF env _ stamp sz]] fin)
      (use m in \<open>simp add: mid_def\<close>)
qed

lemma process_start_follows:
  assumes env: "libs_ok env" and m: "mid 0 self p as es h q" and p: "p \<noteq> 0" and now: "nonneg now"
  shows "follows bad (process_start put' env self now p h q) (process_start put env self now p h q)
    (\<lambda>(r, h', q'). r = 0 \<and> ok q' \<and> (\<exists>as' s0 es'. cell_events self p as' s0 es' h' \<and> held_as (held q') (s0 # es') \<and>
       grows 4 h es h' (s0 # es')))"
proof -
  obtain lp where lp: "lps h p = Some lp" using m by (auto simp: mid_def counters_def)
  let ?lp1 = "lp\<lparr>arriving_calls := arriving_calls lp + 1\<rparr>"
  let ?h1 = "h\<lparr>lps := (lps h)(p := Some ?lp1)\<rparr>"
  have c: "unat (channel_counter lp) + length as = 1000" "ref_ta lp = TA" "ta_duration lp = TA_DURATION"
    "arriving_calls lp = complete_calls lp + blocked_on_setup lp + of_nat (length as)"
    using m lp by (auto simp: mid_def counters_def)
  have m1: "mid 1 self p as es ?h1 q"
  proof -
    have "mid 1 self p as es (h\<lparr>lps := (lps h)(p := Some ?lp1), rng_state := rng_state h\<rparr>) q"
      by (rule mid_lp [OF m lp]) (use c in \<open>simp_all add: counters_def\<close>)
    then show ?thesis by simp
  qed
  let ?lp2 = "?lp1\<lparr>blocked_on_setup := blocked_on_setup lp + 1\<rparr>"
  have m2: "mid 0 self p as es (h\<lparr>lps := (lps h)(p := Some ?lp2)\<rparr>) q"
  proof -
    have "mid 0 self p as es (h\<lparr>lps := (lps h)(p := Some ?lp2), rng_state := rng_state h\<rparr>) q"
      by (rule mid_lp [OF m lp]) (use c in \<open>simp_all add: counters_def\<close>)
    then show ?thesis by simp
  qed
  let ?body = "\<lambda>put. if channel_counter ?lp1 = 0
            then kbind (modify_lp p (\<lambda>lp. lp\<lparr>blocked_on_setup := blocked_on_setup lp + 1\<rparr>) ?h1) (\<lambda>h. Inr (h, q))
            else start_call put env self now p ?h1 q"
  have g1: "grows 0 h es ?h1 es" by (simp add: grows_def)
  have call: "follows bad (?body put') (?body put) (\<lambda>(h', q'). \<exists>as' es'. mid 0 self p as' es' h' q' \<and> grows 3 h es h' es')"
  proof (cases "channel_counter lp = 0")
    case True
    moreover have "grows 3 h es (h\<lparr>lps := (lps h)(p := Some ?lp2)\<rparr>) es" by (simp add: grows_def)
    ultimately show ?thesis using m2 by (auto simp: modify_lp_def)
  next
    case False
    have lp1: "lps ?h1 p = Some ?lp1" "channel_counter ?lp1 \<noteq> 0" using False by simp_all
    have "follows bad (start_call put' env self now p ?h1 q) (start_call put env self now p ?h1 q)
      (\<lambda>(h', q'). \<exists>as' es'. mid 0 self p as' es' h' q' \<and> grows 3 h es h' es')"
      by (rule follows_mono [OF start_call_follows [OF env m1 lp1 now]]) (use grows_trans [OF g1] in fastforce)
    with False show ?thesis by simp
  qed
  have next_call: "follows bad
      (kbind (modify_lp p (\<lambda>lp. lp\<lparr>ta := recompute_ta (ref_ta lp) now\<rparr>) h2) (\<lambda>h. kbind (deref (lps h) p) (\<lambda>lp.
         kbind (draw (Expent env (ta lp)) h) (\<lambda>(x, h). let stamp = d_add now x in
         kbind (schedule_event put' env self START_CALL stamp (- 1) h q2) (\<lambda>(h, q). Inr (0, h, q))))))
      (kbind (modify_lp p (\<lambda>lp. lp\<lparr>ta := recompute_ta (ref_ta lp) now\<rparr>) h2) (\<lambda>h. kbind (deref (lps h) p) (\<lambda>lp.
         kbind (draw (Expent env (ta lp)) h) (\<lambda>(x, h). let stamp = d_add now x in
         kbind (schedule_event put env self START_CALL stamp (- 1) h q2) (\<lambda>(h, q). Inr (0, h, q))))))
      (\<lambda>(r, h', q'). r = 0 \<and> ok q' \<and> (\<exists>as' s0 es'. cell_events self p as' s0 es' h' \<and> held_as (held q') (s0 # es') \<and>
         grows 4 h es h' (s0 # es')))"
    if mm: "mid 0 self p as2 es2 h2 q2" "grows 3 h es h2 es2" for as2 es2 h2 q2
  proof -
    obtain lp2 where lp2: "lps h2 p = Some lp2" "ref_ta lp2 = TA" using mm(1) by (auto simp: mid_def counters_def)
    obtain r where r: "recompute_ta TA now = Fin r" "0 \<le> r" "r \<le> 5" by (rule recompute_TA)
    let ?lp3 = "lp2\<lparr>ta := Fin r\<rparr>"
    let ?h3 = "h2\<lparr>lps := (lps h2)(p := Some ?lp3)\<rparr>"
    obtain x g where x: "draw (Expent env (Fin r)) ?h3 = Inr (Fin x, ?h3\<lparr>rng_state := g\<rparr>)" "0 \<le> x"
      by (rule draw_mean [OF env, of r ?h3]) (use r in auto)
    let ?h4 = "h2\<lparr>lps := (lps h2)(p := Some ?lp3), rng_state := g\<rparr>"
    have m4: "mid 0 self p as2 es2 ?h4 q2"
      by (rule mid_lp [OF mm(1) lp2(1)]) (use mm(1) lp2 in \<open>auto simp: mid_def counters_def\<close>)
    have stamp: "nonneg (d_add now (Fin x))" using now x(2) by (intro nonneg_add) simp_all
    have sz: "size (held q2) < 2000" and okq: "ok q2" using mid_size [OF m4] m4 by (simp_all add: mid_def)
    have fin: "ok q' \<and> (\<exists>as' s0 es'. cell_events self p as' s0 es' h' \<and> held_as (held q') (s0 # es') \<and> grows 4 h es h' (s0 # es'))"
      if s: "scheduled self START_CALL (d_add now (Fin x)) (- 1) ?h4 q2 (h', q')" for h' q'
    proof -
      have i: "cell_inv p as2 ?h4" "list_all2 (end_ok self ?h4) es2 as2" using m4 by (simp_all add: mid_def)
      note f = cell_inv_scheduled [OF i(1) s]
      let ?m = "next_addr h2"
      have h': "msgs h' = (msgs h2)(?m := Some \<lparr>sender = self, receiver = self, msg_type = START_CALL,
          timestamp = Some (d_add now (Fin x)), msg_channel = Some (- 1)\<rparr>)" "ok q'" "held q' = add_mset (of_nat ?m) (held q2)"
        using s by (simp_all add: scheduled_def)
      have old: "\<forall>e\<in>set es2. e < ?m" "0 < ?m"
        using mid_old(1) [OF mm(1)] cell_addr [of p as2 h2] mm(1) by (auto simp: mid_def)
      have "list_all2 (end_ok self h') es2 as2"
        by (rule events_frame [OF i(2)]) (use h'(1) old f(3) in \<open>auto simp: id_of_def\<close>)
      moreover have "counters 0 p as2 h'" using m4 f(2) by (simp add: mid_def counters_def)
      moreover have "start_ok self h' ?m" using h'(1) stamp by (simp add: start_ok_def timed_def)
      ultimately have "cell_events self p as2 ?m es2 h'"
        using f(1) m4 old p h'(1) by (auto simp: cell_events_def mid_def)
      moreover have "held_as (held q') (?m # es2)" using m4 h'(3) by (simp add: mid_def held_as_def)
      moreover have "grows 1 h2 es2 h' (?m # es2)" using h'(1) f(4) by (auto simp: grows_def)
      ultimately show ?thesis using grows_trans [OF mm(2)] h'(2) by fastforce
    qed
    show ?thesis using lp2 r(1) x(1)
      by (simp add: modify_lp_def Let_def)
        (rule follows_bind [OF schedule_follows [OF env okq stamp sz]], use fin in auto)
  qed
  show ?thesis
    unfolding process_start_def
    by (rule follows_step, simp add: modify_lp_def lp, rule follows_step, simp)
      (rule follows_bind [OF call], use next_call in auto)
qed

text \<open>The end of a call: \<open>m\<close> is the message of the call at \<open>a\<close>.\<close>

lemma process_end_run:
  assumes env: "libs_ok env" and ev: "cell_events self p as s0 (es1 @ m # es2) h"
  obtains x ch r as' h' where "msgs h m = Some x" "receiver x = self" "msg_type x = END_CALL" "timed x" "msg_channel x = Some ch"
    "process_end env ch p h q = Inr (r, h', q)" "cell_events self p as' s0 (es1 @ es2) h'"
    "next_addr h' = next_addr h" "msgs h' = msgs h"
    "r \<noteq> 0 \<longrightarrow> (\<exists>lp. lps h' p = Some lp \<and> complete_calls lp = COMPLETE_CALLS)"
proof -
  obtain as1 a as2 where as: "as = as1 @ a # as2" "list_all2 (end_ok self h) es1 as1" "end_ok self h m a"
    "list_all2 (end_ok self h) es2 as2"
    using ev unfolding cell_events_def by (auto simp: list_all2_append1 list_all2_Cons1)
  obtain x where x: "msgs h m = Some x" "receiver x = self" "msg_type x = END_CALL" "timed x" "msg_channel x = Some (id_of h a)"
    using as(3) by (auto simp: end_ok_def)
  obtain lp where lp: "lps h p = Some lp" and c: "unat (channel_counter lp) + length as = 1000" "ref_ta lp = TA"
    "ta_duration lp = TA_DURATION" "arriving_calls lp = complete_calls lp + blocked_on_setup lp + of_nat (length as)"
    using ev by (auto simp: cell_events_def counters_def)
  have inv: "cell_inv p as h" using ev by (simp add: cell_events_def)
  let ?lp1 = "lp\<lparr>channel_counter := channel_counter lp + 1, complete_calls := complete_calls lp + 1\<rparr>"
  let ?h1 = "h\<lparr>lps := (lps h)(p := Some ?lp1)\<rparr>"
  have i1: "cell_inv p as ?h1"
    by (rule cell_inv_cong [OF inv _ _ _ _ lp, of ?h1 ?lp1]) (use fresh_msgs [OF inv] in simp_all)
  have id1: "id_of ?h1 = id_of h" by (simp add: id_of_def fun_eq_iff)
  have lp1: "lps ?h1 p = Some ?lp1" by simp
  have am: "a \<in> set as" using as(1) by simp
  obtain cs l h2 where d: "deallocation env p (id_of ?h1 a) ?h1 = Inr h2" "cell_inv p (remove1 a as) h2"
    "\<forall>b\<in>set as. b \<noteq> a \<longrightarrow> id_of h2 b = id_of ?h1 b"
    "lps h2 = (lps ?h1)(p := Some (?lp1\<lparr>channel_state := cs, channels := l\<rparr>))" "msgs h2 = msgs ?h1" "next_addr h2 = next_addr ?h1"
    by (rule deallocation_run [OF env i1 am lp1])
  have dis: "distinct as" using inv by (simp add: cell_inv_def cell_links_def)
  have rm: "remove1 a as = as1 @ as2" using dis as(1) by (auto simp: remove1_append)
  have l2: "list_all2 (end_ok self h2) (es1 @ es2) (as1 @ as2)"
  proof (rule events_frame [of self h])
    show "list_all2 (end_ok self h) (es1 @ es2) (as1 @ as2)" using as(2,4) by (rule list_all2_appendI)
  qed (use d(3,5) id1 dis as(1) in auto)
  have "unat (channel_counter lp) < 1000" using c(1) as(1) by simp
  then have "unat (channel_counter lp + 1) = Suc (unat (channel_counter lp))" by (simp add: unat_word_ariths)
  then have "counters 0 p (as1 @ as2) h2" using c as(1) d(4) by (simp add: counters_def)
  then have e: "cell_events self p (as1 @ as2) s0 (es1 @ es2) h2"
    using ev d(2,5) l2 rm by (auto simp: cell_events_def start_ok_def)
  let ?r = "(if complete_calls lp + 1 = COMPLETE_CALLS then 1 else 0) :: u64"
  have run: "process_end env (id_of h a) p h q = Inr (?r, h2, q)"
    using lp d(1,4) by (simp add: process_end_def modify_lp_def id1)
  show ?thesis by (rule that [OF x run e]) (use d in \<open>auto split: if_splits\<close>)
qed

text \<open>The first event.\<close>

lemma process_init_follows:
  assumes env: "libs_ok env" and i: "init_ok self h m" and z: "msgs h 0 = None" and q: "ok q" "held q = {#}"
    and n: "next_addr h < 2 ^ 64"
  shows "follows bad (process_init put' env self h q) (process_init put env self h q)
    (\<lambda>(r, h', q'). ok q' \<and> (\<exists>p s0. r = of_nat p \<and> p < 2 ^ 64 \<and> cell_events self p [] s0 [] h' \<and> held_as (held q') [s0] \<and>
       grows 3 h [] h' [s0]))"
proof -
  let ?p = "next_addr h"
  let ?h1 = "h\<lparr>next_addr := ?p + 2, lps := (lps h)(?p := Some new_cell)\<rparr>"
  obtain x g where x: "Random env (rng_state h) = (Fin x, g)" "unit_lo \<le> x" "x \<le> unit_hi"
    by (metis Random_range prod.collapse)
  have x01: "0 \<le> x" "x \<le> 1" using x(2,3) by (simp_all add: unit_lo_def unit_hi_def)
  obtain t where t: "d_mul (Fin 20) (Fin x) = Fin t" "0 \<le> t" by (rule d_mul_fin [of 20 x 20]) (use x01 in auto)
  let ?h2 = "?h1\<lparr>rng_state := g\<rparr>"
  have fr: "\<forall>a\<ge>?p. lps h a = None \<and> chans h a = None \<and> sirs h a = None \<and> msgs h a = None" using i by (simp add: init_ok_def)
  have p0: "0 < ?p"
  proof (rule ccontr)
    assume "\<not> 0 < ?p"
    then have "msgs h m = None" using fr by simp
    then show False using i by (simp add: init_ok_def)
  qed
  have ci: "cell_inv ?p [] ?h2" and c: "counters 0 ?p [] ?h2" using new_cell_inv [OF fr, of g] by simp_all
  have fin: "ok q' \<and> (\<exists>p s0. of_nat ?p = (of_nat p :: u64) \<and> p < 2 ^ 64 \<and> cell_events self p [] s0 [] h' \<and> held_as (held q') [s0] \<and> grows 3 h [] h' [s0])"
    if s: "scheduled self START_CALL (Fin t) (- 1) ?h2 q (h', q')" for h' q'
  proof -
    note f = cell_inv_scheduled [OF ci s]
    have h': "msgs h' = (msgs h)(?p + 2 := Some \<lparr>sender = self, receiver = self, msg_type = START_CALL,
        timestamp = Some (Fin t), msg_channel = Some (- 1)\<rparr>)" "ok q'" "held q' = {#of_nat (?p + 2)#}"
      using s q(2) by (simp_all add: scheduled_def)
    have "start_ok self h' (?p + 2)" using h'(1) t(2) by (simp add: start_ok_def timed_def)
    moreover have "counters 0 ?p [] h'" using c f(2) by (simp add: counters_def)
    ultimately have "cell_events self ?p [] (?p + 2) [] h'" using f(1) h'(1) z p0 by (simp add: cell_events_def)
    moreover have "grows 3 h [] h' [?p + 2]" using h'(1) f(4) by (simp add: grows_def)
    moreover have "held_as (held q') [?p + 2]" using h'(3) by (simp add: held_as_def)
    ultimately show ?thesis using h'(2) n by blast
  qed
  have sz: "size (held q) < 2000" using q(2) by simp
  have st: "nonneg (Fin t)" using t(2) by simp
  have e: "malloc env h = (Some ?p, h\<lparr>next_addr := Suc ?p\<rparr>)"
    "malloc env (h\<lparr>next_addr := Suc ?p\<rparr>) = (Some (Suc ?p), h\<lparr>next_addr := ?p + 2\<rparr>)"
    using env by (simp_all add: malloc_def libs_ok_def)
  show ?thesis
    unfolding process_init_def e Let_def
    using x(1) t(1) by (simp add: e)
      (rule follows_bind [OF schedule_follows [OF env q(1) st sz]], use fin in auto)
qed

text \<open>A round of the loop.\<close>

lemma held_take:
  assumes "held_as (add_mset x M) ms"
  obtains ms1 m ms2 where "ms = ms1 @ m # ms2" "x = of_nat m" "held_as M (ms1 @ ms2)"
proof -
  have e: "add_mset x M = image_mset of_nat (mset ms)" using assms by (simp add: held_as_def)
  then have "x \<in># image_mset of_nat (mset ms)" by (metis union_single_eq_member add_mset_add_single)
  then obtain m where m: "m \<in> set ms" "x = of_nat m" by auto
  then obtain ms1 ms2 where s: "ms = ms1 @ m # ms2" by (metis split_list)
  then have "M = image_mset of_nat (mset (ms1 @ ms2))" using e m(2) by simp
  then show ?thesis using that s m(2) by (simp add: held_as_def)
qed

lemma cell_events_free:
  assumes "cell_events self p as s0 es h" "m \<notin> set (s0 # es)"
  shows "cell_events self p as s0 es (h\<lparr>msgs := (msgs h)(m := None)\<rparr>)"
proof -
  let ?h = "h\<lparr>msgs := (msgs h)(m := None)\<rparr>"
  have i: "cell_inv p as h" "list_all2 (end_ok self h) es as" using assms(1) by (simp_all add: cell_events_def)
  obtain lp where lp: "lps h p = Some lp" using cell_inv_lp [OF i(1)] by blast
  have "cell_inv p as ?h"
    by (rule cell_inv_cong [OF i(1) _ _ _ _ lp, of ?h lp]) (use lp fresh_msgs [OF i(1)] in \<open>simp_all add: fun_upd_idem\<close>)
  moreover have "list_all2 (end_ok self ?h) es as"
    by (rule events_frame [OF i(2)]) (use assms(2) in \<open>auto simp: id_of_def\<close>)
  ultimately show ?thesis using assms by (auto simp: cell_events_def start_ok_def counters_def)
qed

lemma cell_events_lvt:
  assumes "cell_events self p as s0 es h" "lps h p = Some lp"
  shows "cell_events self p as s0 es (h\<lparr>lps := (lps h)(p := Some (lp\<lparr>lvt := t, executed_events := n\<rparr>))\<rparr>)"
proof -
  let ?lp = "lp\<lparr>lvt := t, executed_events := n\<rparr>"
  let ?h = "h\<lparr>lps := (lps h)(p := Some ?lp)\<rparr>"
  have i: "cell_inv p as h" "list_all2 (end_ok self h) es as" using assms(1) by (simp_all add: cell_events_def)
  have "cell_inv p as ?h"
    by (rule cell_inv_cong [OF i(1) _ _ _ _ assms(2), of ?h ?lp]) (use fresh_msgs [OF i(1)] in simp_all)
  moreover have "list_all2 (end_ok self ?h) es as"
    by (rule events_frame [OF i(2)]) (simp_all add: id_of_def)
  ultimately show ?thesis using assms by (auto simp: cell_events_def start_ok_def counters_def)
qed

definition round_ok :: "u32 \<Rightarrow> 'q cell_fiber \<Rightarrow> bool \<times> 'q cell_fiber \<Rightarrow> bool" where
  "round_ok self s = (\<lambda>(stop, s'). sim_inv ok held self s' \<and> next_addr (heap s') \<le> next_addr (heap s) + 4 \<and> (stop \<longrightarrow> stopped s'))"

lemma round_init:
  assumes env: "libs_ok env" and inv: "sim_inv ok held self s" "state_ptr s = None" and n: "next_addr (heap s) + 4 \<le> 2 ^ 64"
  shows "follows bad (loop_step put' get' env self s) (loop_step put get env self s) (round_ok self s)"
proof -
  let ?h = "heap s"
  obtain m where m: "held_as (held (queue s)) [m]" "init_ok self ?h m" "msgs ?h 0 = None" and okq: "ok (queue s)"
    using inv by (auto simp: sim_inv_def)
  obtain x where x: "msgs ?h m = Some x" "receiver x = self" "msg_type x = INIT" using m(2) by (auto simp: init_ok_def)
  have lt: "m < next_addr ?h" using m(2) x(1) by (metis init_ok_def leI option.distinct(1))
  have m0: "m < 2 ^ 64" "m \<noteq> 0" using lt n m(3) x(1) by (auto intro: gr0I)
  have m64: "unat (of_nat m :: u64) = m" "(of_nat m :: u64) \<noteq> 0"
    using of_nat_addr [OF m0(1)] of_nat_addr_0 [OF m0] .
  have ne: "held (queue s) \<noteq> {#}" using m(1) by (simp add: held_as_def)
  have step: "follows bad
      (kbind (ProcessEvent put' env m None ?h q1) (\<lambda>(ret, h, q). kbind (deref (msgs h) m) (\<lambda>msg.
         let (p, ret) = (if msg_type msg = INIT then (if ret = 0 then None else Some (unat ret), 0) else (None, ret)) in
         Inr (ret \<noteq> 0, \<lparr>heap = h\<lparr>msgs := (msgs h)(m := None)\<rparr>, queue = q, state_ptr = p\<rparr>))))
      (kbind (ProcessEvent put env m None ?h q1) (\<lambda>(ret, h, q). kbind (deref (msgs h) m) (\<lambda>msg.
         let (p, ret) = (if msg_type msg = INIT then (if ret = 0 then None else Some (unat ret), 0) else (None, ret)) in
         Inr (ret \<noteq> 0, \<lparr>heap = h\<lparr>msgs := (msgs h)(m := None)\<rparr>, queue = q, state_ptr = p\<rparr>)))) (round_ok self s)"
    if q1: "ok q1" "held q1 = {#}" for q1
  proof (rule follows_bind)
    show "follows bad (ProcessEvent put' env m None ?h q1) (ProcessEvent put env m None ?h q1)
      (\<lambda>(r, h', q'). ok q' \<and> (\<exists>p s0. r = of_nat p \<and> p < 2 ^ 64 \<and> cell_events self p [] s0 [] h' \<and> held_as (held q') [s0] \<and>
         grows 3 ?h [] h' [s0]))"
      using process_init_follows [OF env m(2,3) q1] n x by (simp add: ProcessEvent_def)
  next
    fix v :: "u64 \<times> cell_heap \<times> 'q"
    assume v: "case v of (r, h', q') \<Rightarrow> ok q' \<and> (\<exists>p s0. r = of_nat p \<and> p < 2 ^ 64 \<and> cell_events self p [] s0 [] h' \<and>
        held_as (held q') [s0] \<and> grows 3 ?h [] h' [s0])"
    obtain r h' q' where ve: "v = (r, h', q')" by (metis prod_cases3)
    then obtain p s0 where p: "ok q'" "r = of_nat p" "p < 2 ^ 64" "cell_events self p [] s0 [] h'" "held_as (held q') [s0]"
      "grows 3 ?h [] h' [s0]" using v by auto
    have p0: "p \<noteq> 0" using p(4) by (simp add: cell_events_def)
    have mx: "msgs h' m = Some x" "m \<noteq> s0" "next_addr h' \<le> next_addr ?h + 3" using p(6) lt x(1) by (auto simp: grows_def)
    have "cell_events self p [] s0 [] (h'\<lparr>msgs := (msgs h')(m := None)\<rparr>)"
      by (rule cell_events_free [OF p(4)]) (use mx(2) in simp)
    then show "follows bad
      (case v of (ret, h, q) \<Rightarrow> kbind (deref (msgs h) m) (\<lambda>msg.
         let (p, ret) = (if msg_type msg = INIT then (if ret = 0 then None else Some (unat ret), 0) else (None, ret)) in
         Inr (ret \<noteq> 0, \<lparr>heap = h\<lparr>msgs := (msgs h)(m := None)\<rparr>, queue = q, state_ptr = p\<rparr>)))
      (case v of (ret, h, q) \<Rightarrow> kbind (deref (msgs h) m) (\<lambda>msg.
         let (p, ret) = (if msg_type msg = INIT then (if ret = 0 then None else Some (unat ret), 0) else (None, ret)) in
         Inr (ret \<noteq> 0, \<lparr>heap = h\<lparr>msgs := (msgs h)(m := None)\<rparr>, queue = q, state_ptr = p\<rparr>))) (round_ok self s)"
      using mx x(3) p(1,2,3,5) of_nat_addr [OF p(3)] of_nat_addr_0 [OF p(3) p0]
      by (auto simp: ve round_ok_def sim_inv_def)
  qed
  show ?thesis
    unfolding loop_step_def inv(2)
  proof (rule follows_bind [OF get_law [OF okq ne]], clarsimp, goal_cases)
    case (1 y q1)
    then have "held_as (add_mset y (held q1)) [m]" using m(1) by simp
    then obtain ms1 m' ms2 where "[m] = ms1 @ m' # ms2" "y = of_nat m'" "held_as (held q1) (ms1 @ ms2)" by (rule held_take)
    then have "y = of_nat m" "held q1 = {#}" by (auto simp: held_as_def Cons_eq_append_conv)
    with step [of q1] 1 x m64 show ?case by (simp add: inv(2))
  qed
qed

lemma round_start:
  assumes env: "libs_ok env" and n: "next_addr h + 4 \<le> 2 ^ 64"
    and ev: "cell_events self p as s0 es h" and q1: "ok q1" "held_as (held q1) es"
  shows "follows bad (ProcessEvent put' env s0 (Some p) h q1) (ProcessEvent put env s0 (Some p) h q1)
    (\<lambda>(r, h', q'). r = 0 \<and> ok q' \<and> msgs h' s0 = msgs h s0 \<and> next_addr h' \<le> next_addr h + 4 \<and>
      (\<exists>as' s1 es'. cell_events self p as' s1 es' h' \<and> held_as (held q') (s1 # es') \<and> s0 \<notin> set (s1 # es')))"
proof -
  obtain x t where x: "msgs h s0 = Some x" "receiver x = self" "msg_type x = START_CALL" "timestamp x = Some t" "nonneg t"
    using ev by (auto simp: cell_events_def start_ok_def timed_def)
  obtain lp where lp: "lps h p = Some lp" using ev by (auto simp: cell_events_def counters_def)
  let ?h1 = "h\<lparr>lps := (lps h)(p := Some (lp\<lparr>lvt := t, executed_events := executed_events lp + 1\<rparr>))\<rparr>"
  have ev1: "cell_events self p as s0 es ?h1" by (rule cell_events_lvt [OF ev lp])
  then have m: "mid 0 self p as es ?h1 q1" and p: "p \<noteq> 0" using q1 by (simp_all add: cell_events_def mid_def)
  have old: "s0 < next_addr h" "s0 \<notin> set es" using event_old(1) [OF ev] ev by (auto simp: cell_events_def)
  have "follows bad (process_start put' env self t p ?h1 q1) (process_start put env self t p ?h1 q1)
    (\<lambda>(r, h', q'). r = 0 \<and> ok q' \<and> msgs h' s0 = msgs h s0 \<and> next_addr h' \<le> next_addr h + 4 \<and>
      (\<exists>as' s1 es'. cell_events self p as' s1 es' h' \<and> held_as (held q') (s1 # es') \<and> s0 \<notin> set (s1 # es')))"
    by (rule follows_mono [OF process_start_follows [OF env m p x(5)]])
      (use old in \<open>fastforce simp: grows_def\<close>)
  then show ?thesis using x lp by (simp add: ProcessEvent_def written_def modify_lp_def)
qed

lemma round_end:
  assumes env: "libs_ok env" and ev: "cell_events self p as s0 (es1 @ m # es2) h"
  obtains r as' h' x where "\<forall>pt. ProcessEvent pt env m (Some p) h q1 = Inr (r, h', q1)"
    "cell_events self p as' s0 (es1 @ es2) h'" "next_addr h' = next_addr h" "msgs h' = msgs h"
    "msgs h m = Some x" "receiver x = self" "msg_type x = END_CALL"
    "r \<noteq> 0 \<longrightarrow> (\<exists>lp. lps h' p = Some lp \<and> complete_calls lp = COMPLETE_CALLS)"
proof -
  have "end_ok self h m (as ! length es1)"
    using ev by (auto simp: cell_events_def list_all2_append1 list_all2_Cons1 nth_append dest: list_all2_lengthD)
  then obtain x t where x: "msgs h m = Some x" "receiver x = self" "msg_type x = END_CALL" "timestamp x = Some t"
    by (auto simp: end_ok_def timed_def)
  obtain lp where lp: "lps h p = Some lp" using ev by (auto simp: cell_events_def counters_def)
  let ?h1 = "h\<lparr>lps := (lps h)(p := Some (lp\<lparr>lvt := t, executed_events := executed_events lp + 1\<rparr>))\<rparr>"
  have ev1: "cell_events self p as s0 (es1 @ m # es2) ?h1" by (rule cell_events_lvt [OF ev lp])
  obtain y ch r as' h' where e: "msgs ?h1 m = Some y" "msg_channel y = Some ch" "process_end env ch p ?h1 q1 = Inr (r, h', q1)"
    "cell_events self p as' s0 (es1 @ es2) h'" "next_addr h' = next_addr ?h1" "msgs h' = msgs ?h1"
    "r \<noteq> 0 \<longrightarrow> (\<exists>lp. lps h' p = Some lp \<and> complete_calls lp = COMPLETE_CALLS)"
    by (rule process_end_run [OF env ev1, of q1])
  have "\<forall>pt. ProcessEvent pt env m (Some p) h q1 = Inr (r, h', q1)"
    using x lp e by (simp add: ProcessEvent_def written_def modify_lp_def)
  then show ?thesis by (rule that) (use e x in auto)
qed

lemma round_running:
  assumes env: "libs_ok env" and inv: "sim_inv ok held self s" "state_ptr s = Some p" and n: "next_addr (heap s) + 4 \<le> 2 ^ 64"
  shows "follows bad (loop_step put' get' env self s) (loop_step put get env self s) (round_ok self s)"
proof -
  let ?h = "heap s"
  obtain as s0 es where m: "held_as (held (queue s)) (s0 # es)" "cell_events self p as s0 es ?h" and okq: "ok (queue s)"
    using inv by (auto simp: sim_inv_def)
  have ne: "held (queue s) \<noteq> {#}" using m(1) by (simp add: held_as_def)
  have addr: "unat (of_nat k :: u64) = k" "(of_nat k :: u64) \<noteq> 0" if "k \<in> set (s0 # es)" for k
    using event_old [OF m(2) that] n of_nat_addr [of k] of_nat_addr_0 [of k] by auto
  show ?thesis
    unfolding loop_step_def inv(2)
  proof (rule follows_bind [OF get_law [OF okq ne]], clarsimp, goal_cases)
    case (1 y q1)
    then have "held_as (add_mset y (held q1)) (s0 # es)" using m(1) by simp
    then obtain ms1 k ms2 where k: "s0 # es = ms1 @ k # ms2" "y = of_nat k" "held_as (held q1) (ms1 @ ms2)" by (rule held_take)
    have ks: "k \<in> set (s0 # es)" unfolding k(1) by simp
    note a = addr [OF ks]
    show ?case
    proof (cases ms1)
      case Nil
      then have k0: "k = s0" "held_as (held q1) es" using k by simp_all
      obtain x where x: "msgs ?h s0 = Some x" "receiver x = self" "msg_type x = START_CALL"
        using m(2) by (auto simp: cell_events_def start_ok_def)
      have "follows bad
        (kbind (ProcessEvent put' env s0 (Some p) ?h q1) (\<lambda>(ret, h, q). kbind (deref (msgs h) s0) (\<lambda>msg.
           let (p, ret) = (if msg_type msg = INIT then (if ret = 0 then None else Some (unat ret), 0) else (Some p, ret)) in
           Inr (ret \<noteq> 0, \<lparr>heap = h\<lparr>msgs := (msgs h)(s0 := None)\<rparr>, queue = q, state_ptr = p\<rparr>))))
        (kbind (ProcessEvent put env s0 (Some p) ?h q1) (\<lambda>(ret, h, q). kbind (deref (msgs h) s0) (\<lambda>msg.
           let (p, ret) = (if msg_type msg = INIT then (if ret = 0 then None else Some (unat ret), 0) else (Some p, ret)) in
           Inr (ret \<noteq> 0, \<lparr>heap = h\<lparr>msgs := (msgs h)(s0 := None)\<rparr>, queue = q, state_ptr = p\<rparr>)))) (round_ok self s)"
      proof (rule follows_bind [OF round_start [OF env n m(2) 1(1) k0(2)]], clarsimp, goal_cases)
        case (1 h' q' as' s1 es')
        have "cell_events self p as' s1 es' (h'\<lparr>msgs := (msgs h')(s0 := None)\<rparr>)"
          by (rule cell_events_free [OF 1(4)]) (use 1 in simp)
        then show ?case using 1 x by (auto simp: round_ok_def sim_inv_def)
      qed
      then show ?thesis using k(2) k0(1) a x by simp
    next
      case (Cons z es1)
      then have es: "z = s0" "es = es1 @ k # ms2" "held_as (held q1) (s0 # es1 @ ms2)" using k by simp_all
      obtain r as' h' x where e: "\<forall>pt. ProcessEvent pt env k (Some p) ?h q1 = Inr (r, h', q1)"
        "cell_events self p as' s0 (es1 @ ms2) h'" "next_addr h' = next_addr ?h" "msgs h' = msgs ?h"
        "msgs ?h k = Some x" "receiver x = self" "msg_type x = END_CALL"
        "r \<noteq> 0 \<longrightarrow> (\<exists>lp. lps h' p = Some lp \<and> complete_calls lp = COMPLETE_CALLS)"
        by (rule round_end [OF env m(2) [unfolded es(2)], of q1])
      have "k \<notin> set (s0 # es1 @ ms2)" using m(2) es(2) by (auto simp: cell_events_def)
      then have "cell_events self p as' s0 (es1 @ ms2) (h'\<lparr>msgs := (msgs h')(k := None)\<rparr>)"
        by (intro cell_events_free [OF e(2)]) simp
      then show ?thesis using k(2) a e 1(1) es(3)
        by (auto simp: round_ok_def sim_inv_def stopped_def)
    qed
  qed
qed

lemma loop_step_follows:
  assumes "libs_ok env" "sim_inv ok held self s" "next_addr (heap s) + 4 \<le> 2 ^ 64"
  shows "follows bad (loop_step put' get' env self s) (loop_step put get env self s) (round_ok self s)"
  using round_init [OF assms(1,2) _ assms(3)] round_running [OF assms(1,2) _ assms(3)] by (cases "state_ptr s") auto

lemma loop_run_follows:
  assumes "libs_ok env"
  shows "sim_inv ok held self s \<Longrightarrow> next_addr (heap s) + 4 * n \<le> 2 ^ 64 \<Longrightarrow>
    follows bad (loop_run n put' get' env self s) (loop_run n put get env self s)
      (\<lambda>(stop, s'). sim_inv ok held self s' \<and> (stop \<longrightarrow> stopped s') \<and> next_addr (heap s') \<le> next_addr (heap s) + 4 * n)"
proof (induction n arbitrary: s)
  case (Suc n)
  have b: "next_addr (heap s) + 4 \<le> 2 ^ 64" using Suc.prems(2) by simp
  show ?case
    unfolding loop_run.simps
  proof (rule follows_bind [OF loop_step_follows [OF assms Suc.prems(1) b]], clarsimp simp: round_ok_def, goal_cases)
    case (1 stop s')
    then show ?case using Suc.IH [of s'] Suc.prems(2) by (auto simp: follows_def)
  qed
qed simp

end

end
