(* ===== verification/Calqueue.thy ===== *)
theory Calqueue
  imports Double "HOL-Library.Signed_Division"
begin

text \<open>
  The calendar queue of \<^verbatim>\<open>multi_thread/src/calqueue.c\<close>, the pending-event set of the
  simulator. A bucket is a chain of nodes; \<open>calq\<close> maps a position of the array
  \<^verbatim>\<open>calq[CALQSPACE]\<close> to the chain that starts there, and to \<open>None\<close> where the array holds no
  usable pointer: the structure comes from \<^verbatim>\<open>malloc\<close>, and after a resize the old half keeps
  pointers to freed nodes. The pointer \<^verbatim>\<open>calendar\<close> into that array is its offset.

  \<^verbatim>\<open>calqueue_put\<close>, \<^verbatim>\<open>calqueue_deq\<close>, \<^verbatim>\<open>new_width\<close> and
  \<^verbatim>\<open>resize\<close> are mutually recursive. The first three take the resize routine they call as an
  argument, and \<open>resize n\<close> is the routine with room for \<open>n\<close> nested calls; how much room is enough is
  proved in \<^verbatim>\<open>Calqueue_Resize\<close>.
\<close>

section \<open>State\<close>

definition CALQSPACE :: int where "CALQSPACE = 65536"
definition MAXNBUCKETS :: int where "MAXNBUCKETS = 32768"
definition INT_MAX :: int where "INT_MAX = 2 ^ 31 - 1"

record calqueue_node =
  priority :: double
  payload :: u64

record calqueue =
  calq :: "int \<Rightarrow> calqueue_node list option"
  calendar :: int
  firstsub :: int
  nbuckets :: int
  qsize :: int
  lastbucket :: int
  resize_enabled :: bool
  top_threshold :: double
  bot_threshold :: double
  lastprio :: double
  buckettop :: double
  cwidth :: double

section \<open>Access to the bucket array\<close>

definition c_mod :: "int \<Rightarrow> int \<Rightarrow> fault + int" where
  "c_mod a b = (if b = 0 then Inl DivByZero else Inr (a smod b))"

definition get_chain :: "int \<Rightarrow> calqueue \<Rightarrow> fault + calqueue_node list" where
  "get_chain k q =
     (if 0 \<le> k \<and> k < CALQSPACE then (case calq q k of None \<Rightarrow> Inl Uninit | Some ns \<Rightarrow> Inr ns)
      else Inl OutOfBounds)"

definition set_chain :: "int \<Rightarrow> calqueue_node list option \<Rightarrow> calqueue \<Rightarrow> fault + calqueue" where
  "set_chain k c q =
     (if 0 \<le> k \<and> k < CALQSPACE then Inr (q\<lparr>calq := (calq q)(k := c)\<rparr>) else Inl OutOfBounds)"

fun kfold :: "('x \<Rightarrow> 's \<Rightarrow> fault + 's) \<Rightarrow> 'x list \<Rightarrow> 's \<Rightarrow> fault + 's" where
  "kfold f [] s = Inr s"
| "kfold f (x # xs) s = kbind (f x s) (kfold f xs)"

section \<open>\<^verbatim>\<open>localinit\<close>\<close>

definition localinit :: "int \<Rightarrow> int \<Rightarrow> double \<Rightarrow> double \<Rightarrow> calqueue \<Rightarrow> fault + calqueue" where
  "localinit qbase nbucks bwidth startprio q =
     kbind (kfold (\<lambda>i q. set_chain (calendar q + i) (Some []) q) [0..nbucks - 1]
             (q\<lparr>firstsub := qbase, calendar := qbase, cwidth := bwidth, nbuckets := nbucks, qsize := 0\<rparr>))
       (\<lambda>q. let n = d_to_int 64 (d_div startprio (cwidth q)) in
     kbind (c_mod n (nbuckets q)) (\<lambda>b.
     Inr (q\<lparr>lastprio := startprio, lastbucket := b,
       buckettop := d_add (d_mul (d_of_int (n + 1)) (cwidth q)) (d_mul (Fin (1 / 2)) (cwidth q)),
       bot_threshold := d_of_int (d_to_int 32 (d_div (d_of_int (nbuckets q)) (Fin 2)) - 2),
       top_threshold := d_of_int (2 * nbuckets q)\<rparr>)))"

section \<open>\<^verbatim>\<open>calqueue_put\<close>\<close>

text \<open>The search for the place after the node \<open>t\<close> that starts the chain, the \<^verbatim>\<open>while\<close> loop.\<close>

fun place :: "calqueue_node \<Rightarrow> calqueue_node list \<Rightarrow> calqueue_node list" where
  "place nd [] = [nd]"
| "place nd (t # ts) = (if d_le (priority t) (priority nd) then t # place nd ts else nd # t # ts)"

fun chain_insert :: "calqueue_node \<Rightarrow> calqueue_node list \<Rightarrow> calqueue_node list" where
  "chain_insert nd [] = [nd]"
| "chain_insert nd (t # ts) =
     (if d_lt (priority nd) (priority t) then nd # t # ts else t # place nd ts)"

text \<open>The \<^verbatim>\<open>malloc\<close> of the node is taken to succeed: its result is not checked in the code, and NULL would be
  dereferenced in the next line.\<close>

definition bucket_of :: "double \<Rightarrow> calqueue \<Rightarrow> fault + int" where
  "bucket_of p q = c_mod (d_to_int 32 (d_div p (cwidth q))) (nbuckets q)"

definition put_node :: "calqueue_node \<Rightarrow> calqueue \<Rightarrow> fault + calqueue" where
  "put_node nd q =
     kbind (bucket_of (priority nd) q) (\<lambda>i.
     kbind (get_chain (calendar q + i) q) (\<lambda>ns.
     kbind (set_chain (calendar q + i) (Some (chain_insert nd ns)) q) (\<lambda>q.
     if qsize q = INT_MAX then Inl IntOverflow else Inr (q\<lparr>qsize := qsize q + 1\<rparr>))))"

type_synonym resizer = "int \<Rightarrow> calqueue \<Rightarrow> fault + calqueue"

definition put_with :: "resizer \<Rightarrow> double \<Rightarrow> u64 \<Rightarrow> calqueue \<Rightarrow> fault + calqueue" where
  "put_with rs p x q =
     kbind (put_node \<lparr>priority = p, payload = x\<rparr> q) (\<lambda>q.
     if d_lt (top_threshold q) (d_of_int (qsize q)) \<and> nbuckets q < MAXNBUCKETS
     then rs (2 * nbuckets q) q else Inr q)"

section \<open>\<^verbatim>\<open>calqueue_deq\<close>\<close>

text \<open>The walk over the buckets from \<open>i\<close>: the bucket with an event of the current year, or None for
  the direct search. The walk is over when it is back at \<open>lastbucket\<close>; \<open>n\<close> bounds its steps.\<close>

fun scan :: "nat \<Rightarrow> int \<Rightarrow> calqueue \<Rightarrow> fault + int option \<times> calqueue" where
  "scan 0 i q = Inl NoReturn"
| "scan (Suc n) i q =
     kbind (get_chain (calendar q + i) q) (\<lambda>ns.
     if ns \<noteq> [] \<and> d_lt (priority (hd ns)) (buckettop q) then Inr (Some i, q)
     else
       let i' = (if i + 1 = nbuckets q then 0 else i + 1);
           q' = q\<lparr>buckettop := d_add (buckettop q) (cwidth q)\<rparr> in
       if i' = lastbucket q' then Inr (None, q') else scan n i' q')"

text \<open>One step of the direct search; the state is \<open>(temp2, lowest)\<close>.\<close>

definition search_step :: "calqueue \<Rightarrow> int \<Rightarrow> int \<times> double \<Rightarrow> fault + int \<times> double" where
  "search_step q i st =
     kbind (get_chain (calendar q + i) q) (\<lambda>ns.
     Inr (if ns \<noteq> [] \<and> (fst st = - 1 \<or> d_lt (priority (hd ns)) (snd st))
          then (i, priority (hd ns)) else st))"

definition direct_search :: "calqueue \<Rightarrow> fault + int" where
  "direct_search q =
     kbind (kfold (search_step q) [0..nbuckets q - 1] (- 1, d_of_int LLONG_MAX)) (\<lambda>st. Inr (fst st))"

definition take_first :: "int \<Rightarrow> calqueue \<Rightarrow> fault + calqueue_node \<times> calqueue" where
  "take_first i q =
     kbind (get_chain (calendar q + i) q) (\<lambda>ns.
     case ns of [] \<Rightarrow> Inl NullDeref | e # es \<Rightarrow>
       kbind (set_chain (calendar q + i) (Some es)
               (q\<lparr>lastbucket := i, lastprio := priority e, qsize := qsize q - 1\<rparr>)) (\<lambda>q. Inr (e, q)))"

definition deq_node :: "calqueue \<Rightarrow> fault + calqueue_node \<times> calqueue" where
  "deq_node q =
     kbind (scan (nat (nbuckets q)) (lastbucket q) q) (\<lambda>(found, q).
     case found of
       Some i \<Rightarrow> take_first i q
     | None \<Rightarrow> kbind (direct_search q) (\<lambda>i. take_first i q))"

definition deq_with :: "resizer \<Rightarrow> calqueue \<Rightarrow> fault + calqueue_node option \<times> calqueue" where
  "deq_with rs q =
     (if qsize q = 0 then Inr (None, q)
      else kbind (deq_node q) (\<lambda>(e, q).
        if d_lt (d_of_int (qsize q)) (bot_threshold q)
        then kbind (rs (d_to_int 32 (d_div (d_of_int (nbuckets q)) (Fin 2))) q) (\<lambda>q. Inr (Some e, q))
        else Inr (Some e, q)))"

section \<open>\<^verbatim>\<open>new_width\<close>\<close>

definition nsamples :: "calqueue \<Rightarrow> int" where
  "nsamples q =
     (let n = (if qsize q \<le> 5 then qsize q
               else 5 + d_to_int 32 (d_div (d_of_int (qsize q)) (Fin 10))) in
      if 25 < n then 25 else n)"

text \<open>The sampling loop: \<open>temp\<close> holds the nodes taken so far, in order, and \<open>average\<close> the sum of the
  distances between neighbours.\<close>

definition sample_step ::
  "resizer \<Rightarrow> (calqueue_node list \<times> double) \<times> calqueue \<Rightarrow> fault + (calqueue_node list \<times> double) \<times> calqueue" where
  "sample_step rs st = (case st of ((temp, average), q) \<Rightarrow>
     kbind (deq_with rs q) (\<lambda>(e, q). case e of None \<Rightarrow> Inl NullDeref | Some nd \<Rightarrow>
       Inr ((temp @ [nd],
             if temp = [] then average
             else d_add average (d_sub (priority nd) (priority (last temp)))), q)))"

text \<open>The loop that puts the sample back, from the node after \<open>prev\<close> on; the state is
  \<open>(newaverage, j)\<close>.\<close>

fun reinsert ::
  "resizer \<Rightarrow> double \<Rightarrow> calqueue_node \<Rightarrow> calqueue_node list \<Rightarrow> double \<times> int \<Rightarrow> calqueue \<Rightarrow> fault + (double \<times> int) \<times> calqueue" where
  "reinsert rs average prev [] st q = Inr (st, q)"
| "reinsert rs average prev (nd # nds) st q =
     (let gap = d_sub (priority nd) (priority prev);
          st = (if d_lt gap (d_mul average (Fin 2)) then (d_add (fst st) gap, snd st + 1) else st) in
      kbind (put_with rs (priority nd) (payload nd) q) (\<lambda>q. reinsert rs average nd nds st q))"

definition new_width :: "resizer \<Rightarrow> calqueue \<Rightarrow> fault + double \<times> calqueue" where
  "new_width rs q =
     (if qsize q < 2 then Inr (Fin 1, q)
      else
        let n = nsamples q in
        kbind (kfold (\<lambda>_. sample_step rs) [0..n - 1] (([], Fin 0), q\<lparr>resize_enabled := False\<rparr>))
          (\<lambda>((temp, total), q1).
        let average = d_div total (d_of_int (n - 1)) in
        case temp of [] \<Rightarrow> Inl NullDeref | nd # nds \<Rightarrow>
        kbind (put_with rs (priority nd) (payload nd) q1) (\<lambda>q1.
        kbind (reinsert rs average nd nds (Fin 0, 0) q1) (\<lambda>((newaverage, j), q1).
        Inr (d_mul (d_div newaverage (d_of_int j)) (Fin 3),
             q1\<lparr>lastbucket := lastbucket q, lastprio := lastprio q, buckettop := buckettop q,
                resize_enabled := True\<rparr>)))))"

section \<open>\<^verbatim>\<open>resize\<close>\<close>

text \<open>One bucket of the old calendar is emptied into the new one; its slot keeps a pointer to a freed
  node. The chain is read once: the puts go to other slots unless the bucket number is negative, that is
  unless the new width is.\<close>

definition copy_chain :: "resizer \<Rightarrow> int \<Rightarrow> calqueue \<Rightarrow> fault + calqueue" where
  "copy_chain rs k q =
     kbind (get_chain k q) (\<lambda>ns.
     kbind (kfold (\<lambda>nd. put_with rs (priority nd) (payload nd)) ns q) (\<lambda>q.
     if ns = [] then Inr q else set_chain k None q))"

definition resize_with :: "resizer \<Rightarrow> resizer" where
  "resize_with rs newsize q =
     kbind (new_width rs q) (\<lambda>(bwidth, q).
     kbind (localinit (if firstsub q = 0 then CALQSPACE - newsize else 0) newsize bwidth (lastprio q) q)
       (\<lambda>q1. kfold (\<lambda>i. copy_chain rs (calendar q + i)) (rev [0..nbuckets q - 1]) q1))"

fun resize :: "nat \<Rightarrow> resizer" where
  "resize 0 newsize q = (if \<not> resize_enabled q then Inr q else Inl NoReturn)"
| "resize (Suc n) newsize q = (if \<not> resize_enabled q then Inr q else resize_with (resize n) newsize q)"

section \<open>The interface\<close>

definition resize_depth :: nat where
  "resize_depth = 1"

definition calqueue_init :: "calqueue \<Rightarrow> fault + calqueue" where
  "calqueue_init q =
     kbind (localinit 0 2 (Fin 1) (Fin 0) q) (\<lambda>q. Inr (q\<lparr>resize_enabled := True\<rparr>))"

definition calqueue_put :: "double \<Rightarrow> u64 \<Rightarrow> calqueue \<Rightarrow> fault + calqueue" where
  "calqueue_put p x q = put_with (resize resize_depth) p x q"

definition calqueue_deq :: "calqueue \<Rightarrow> fault + calqueue_node option \<times> calqueue" where
  "calqueue_deq q = deq_with (resize resize_depth) q"

definition calqueue_get :: "calqueue \<Rightarrow> fault + u64 \<times> calqueue" where
  "calqueue_get q = kbind (calqueue_deq q) (\<lambda>(node, q).
     case node of None \<Rightarrow> Inr (0, q) | Some nd \<Rightarrow> Inr (payload nd, q))"

definition calqueue_empty :: "calqueue \<Rightarrow> bool" where
  "calqueue_empty q \<longleftrightarrow> qsize q = 0"

end
