(* ===== verification/Calqueue_Inv.thy ===== *)
theory Calqueue_Inv
  imports Calqueue "HOL-Library.Multiset"
begin

text \<open>
  The invariant of a calendar queue, the events it holds, and what the steps below the resizing do
  to them: an event is put into the bucket of its priority at its place in the order, the dequeueing
  step takes out one that is least in its bucket, and least of all when it comes from the direct
  search.
\<close>

section \<open>Events and invariant\<close>

definition chain :: "calqueue \<Rightarrow> int \<Rightarrow> calqueue_node list" where
  "chain q i = (case calq q (calendar q + i) of None \<Rightarrow> [] | Some ns \<Rightarrow> ns)"

definition contents :: "calqueue \<Rightarrow> calqueue_node multiset" where
  "contents q = (\<Sum>i\<in>{0..<nbuckets q}. mset (chain q i))"

definition sorted_chain :: "calqueue_node list \<Rightarrow> bool" where
  "sorted_chain ns = sorted_wrt (\<lambda>a b. d_le (priority a) (priority b)) ns"

definition chain_ok :: "calqueue \<Rightarrow> int \<Rightarrow> bool" where
  "chain_ok q i \<longleftrightarrow> calq q (calendar q + i) \<noteq> None \<and> sorted_chain (chain q i) \<and>
     (\<forall>nd\<in>set (chain q i). nonneg (priority nd) \<and> bucket_of (priority nd) q = Inr i)"

text \<open>The number of buckets is a power of two, and the calendar lies at the low or at the high end of
  the array.\<close>

definition layout_ok :: "calqueue \<Rightarrow> bool" where
  "layout_ok q \<longleftrightarrow> (\<exists>k\<in>{1..15}. nbuckets q = 2 ^ k) \<and> calendar q = firstsub q \<and>
     (firstsub q = 0 \<or> firstsub q = CALQSPACE - nbuckets q) \<and>
     top_threshold q = d_of_int (2 * nbuckets q) \<and> bot_threshold q = d_of_int (nbuckets q div 2 - 2) \<and>
     \<not> d_lt (cwidth q) (Fin 0)"

definition cq_inv :: "calqueue \<Rightarrow> bool" where
  "cq_inv q \<longleftrightarrow> layout_ok q \<and> (\<forall>i\<in>{0..<nbuckets q}. chain_ok q i) \<and>
     qsize q = int (size (contents q)) \<and> 0 \<le> lastbucket q \<and> lastbucket q < nbuckets q \<and>
     nonneg (lastprio q) \<and> qsize q \<le> INT_MAX"

text \<open>What putting and taking single events leaves alone.\<close>

definition same_calendar :: "calqueue \<Rightarrow> calqueue \<Rightarrow> bool" where
  "same_calendar q q' \<longleftrightarrow> calendar q' = calendar q \<and> firstsub q' = firstsub q \<and> nbuckets q' = nbuckets q \<and>
     cwidth q' = cwidth q \<and> top_threshold q' = top_threshold q \<and> bot_threshold q' = bot_threshold q \<and>
     resize_enabled q' = resize_enabled q \<and>
     (\<forall>k. k < calendar q \<or> calendar q + nbuckets q \<le> k \<longrightarrow> calq q' k = calq q k)"

lemma same_calendar_refl [simp]: "same_calendar q q"
  by (simp add: same_calendar_def)

lemma same_calendar_trans: "same_calendar q q' \<Longrightarrow> same_calendar q' q'' \<Longrightarrow> same_calendar q q''"
  by (auto simp: same_calendar_def)

section \<open>Bucket numbers\<close>

lemma c_mod_range:
  assumes "0 \<le> a \<or> a = - (2 ^ m)" "b = 2 ^ k" "k \<le> m"
  shows "\<exists>i. c_mod a b = Inr i \<and> 0 \<le> i \<and> i < b"
proof (cases "0 \<le> a")
  case True
  then show ?thesis using assms(2) by (simp add: c_mod_def smod_int_alt_def sgn_if)
next
  case False
  then have "a = - (2 ^ m)" using assms(1) by simp
  moreover have "(2 :: int) ^ m mod 2 ^ k = 0"
    using assms(3) by (simp add: le_imp_power_dvd)
  ultimately show ?thesis using assms(2) by (simp add: c_mod_def smod_int_alt_def)
qed

lemma bucket_of_range:
  assumes "layout_ok q" "nonneg p"
  shows "\<exists>i. bucket_of p q = Inr i \<and> 0 \<le> i \<and> i < nbuckets q"
proof -
  from assms(1) obtain k where k: "nbuckets q = 2 ^ k" "k \<le> 31" by (auto simp: layout_ok_def)
  have "0 \<le> d_to_int 32 (d_div p (cwidth q)) \<or> d_to_int 32 (d_div p (cwidth q)) = - (2 ^ 31)"
    using quotient_to_int [of p "cwidth q" 32] assms by (simp add: layout_ok_def)
  from c_mod_range [OF this k] show ?thesis by (simp add: bucket_of_def)
qed

lemma nbuckets_pos: "layout_ok q \<Longrightarrow> 2 \<le> nbuckets q \<and> nbuckets q \<le> MAXNBUCKETS"
proof -
  assume "layout_ok q"
  then obtain k where k: "nbuckets q = 2 ^ k" "1 \<le> k" "k \<le> 15" by (auto simp: layout_ok_def)
  have "(2::int) ^ 1 \<le> 2 ^ k" "(2::int) ^ k \<le> 2 ^ 15" using k by (simp_all only: power_increasing_iff)
  with k(1) show ?thesis by (simp add: MAXNBUCKETS_def)
qed

lemma calendar_range:
  assumes "layout_ok q" "0 \<le> i" "i < nbuckets q"
  shows "0 \<le> calendar q + i \<and> calendar q + i < CALQSPACE"
  using assms nbuckets_pos [OF assms(1)] by (auto simp: layout_ok_def CALQSPACE_def MAXNBUCKETS_def)

lemma get_chain_ok:
  assumes "cq_inv q" "0 \<le> i" "i < nbuckets q"
  shows "get_chain (calendar q + i) q = Inr (chain q i)"
  using assms calendar_range [of q i]
  by (auto simp: cq_inv_def chain_ok_def get_chain_def chain_def split: option.splits)

section \<open>Replacing one chain\<close>

definition upd :: "int \<Rightarrow> calqueue_node list \<Rightarrow> calqueue \<Rightarrow> calqueue" where
  "upd i ns q = q\<lparr>calq := (calq q)(calendar q + i := Some ns)\<rparr>"

lemma chain_upd [simp]: "chain (upd i ns q) j = (if j = i then ns else chain q j)"
  by (simp add: upd_def chain_def)

lemma contents_upd:
  assumes "0 \<le> i" "i < nbuckets q"
  shows "contents (upd i ns q) + mset (chain q i) = contents q + mset ns"
proof -
  let ?A = "{0..<nbuckets q}"
  have i: "i \<in> ?A" using assms by simp
  have "(\<Sum>j\<in>?A - {i}. mset (if j = i then ns else chain q j)) = (\<Sum>j\<in>?A - {i}. mset (chain q j))"
    by (rule sum.cong) auto
  moreover have "nbuckets (upd i ns q) = nbuckets q" by (simp add: upd_def)
  ultimately show ?thesis
    using sum.remove [OF finite_atLeastLessThan_int i, of "\<lambda>j. mset (chain q j)"]
      sum.remove [OF finite_atLeastLessThan_int i, of "\<lambda>j. mset (if j = i then ns else chain q j)"]
    by (simp add: contents_def)
qed

lemma contents_cong:
  "nbuckets q' = nbuckets q \<Longrightarrow> calendar q' = calendar q \<Longrightarrow> calq q' = calq q \<Longrightarrow> contents q' = contents q"
  by (simp add: contents_def chain_def)

lemma cq_inv_cong:
  assumes "calq q' = calq q" "calendar q' = calendar q" "firstsub q' = firstsub q" "nbuckets q' = nbuckets q"
    "cwidth q' = cwidth q" "top_threshold q' = top_threshold q" "bot_threshold q' = bot_threshold q"
    "qsize q' = qsize q"
    and "cq_inv q" "0 \<le> lastbucket q'" "lastbucket q' < nbuckets q" "nonneg (lastprio q')"
  shows "cq_inv q'"
proof -
  have "chain q' = chain q" using assms(1,2) by (simp add: chain_def fun_eq_iff)
  moreover have "bucket_of p q' = bucket_of p q" for p using assms(4,5) by (simp add: bucket_of_def)
  ultimately have "chain_ok q' = chain_ok q" using assms(1,2) by (simp add: chain_ok_def fun_eq_iff)
  moreover have "layout_ok q' = layout_ok q" using assms(2-7) by (simp only: layout_ok_def)
  moreover have "contents q' = contents q" by (rule contents_cong [OF assms(4,2,1)])
  ultimately show ?thesis using assms by (simp add: cq_inv_def)
qed

lemma chain_ok_upd:
  assumes "\<forall>j\<in>{0..<nbuckets q}. chain_ok q j" "0 \<le> i" "i < nbuckets q" "sorted_chain ns"
    "\<And>nd. nd \<in> set ns \<Longrightarrow> nonneg (priority nd) \<and> bucket_of (priority nd) q = Inr i"
  shows "\<forall>j\<in>{0..<nbuckets q}. chain_ok (upd i ns q) j"
proof
  fix j assume "j \<in> {0..<nbuckets q}"
  with assms show "chain_ok (upd i ns q) j"
    by (auto simp: chain_ok_def bucket_of_def) (auto simp: upd_def)
qed

section \<open>\<^verbatim>\<open>calqueue_put\<close> without resizing\<close>

lemma set_place: "mset (place nd ns) = add_mset nd (mset ns)"
  by (induction ns) auto

lemma mset_chain_insert: "mset (chain_insert nd ns) = add_mset nd (mset ns)"
  by (cases ns) (auto simp: set_place)

lemma set_chain_insert: "set (chain_insert nd ns) = insert nd (set ns)"
  using mset_chain_insert [of nd ns] by (metis set_mset_add_mset_insert set_mset_mset)

lemma d_le_total: "\<not> is_nan x \<Longrightarrow> \<not> is_nan y \<Longrightarrow> \<not> d_le x y \<Longrightarrow> d_le y x"
  by (auto simp: d_le_def intro: d_lt_le) (use d_lt_le d_le_def in blast)

lemma sorted_place:
  assumes "sorted_chain ns" "\<forall>t\<in>set ns. \<not> is_nan (priority t)" "\<not> is_nan (priority nd)"
  shows "sorted_chain (place nd ns)"
  using assms
proof (induction ns)
  case (Cons t ts)
  have s: "set (place nd ts) = insert nd (set ts)"
    using set_place [of nd ts] by (metis set_mset_add_mset_insert set_mset_mset)
  have t: "\<forall>x\<in>set ts. d_le (priority t) (priority x)" "sorted_chain ts"
    using Cons.prems(1) by (simp_all add: sorted_chain_def)
  show ?case
  proof (cases "d_le (priority t) (priority nd)")
    case True
    with Cons t show ?thesis by (simp add: sorted_chain_def s)
  next
    case False
    then have "d_le (priority nd) (priority t)" using Cons.prems by (simp add: d_le_total)
    with False t show ?thesis using d_le_trans by (auto simp: sorted_chain_def)
  qed
qed (simp add: sorted_chain_def)

lemma sorted_chain_insert:
  assumes "sorted_chain ns" "\<forall>t\<in>set ns. \<not> is_nan (priority t)" "\<not> is_nan (priority nd)"
  shows "sorted_chain (chain_insert nd ns)"
proof (cases ns)
  case (Cons t ts)
  have s: "set (place nd ts) = insert nd (set ts)"
    using set_place [of nd ts] by (metis set_mset_add_mset_insert set_mset_mset)
  have p: "sorted_chain (place nd ts)"
    using assms Cons by (intro sorted_place) (auto simp: sorted_chain_def)
  from assms Cons p show ?thesis
    by (auto simp: sorted_chain_def s d_not_lt intro: d_lt_le d_le_trans)
qed (simp add: sorted_chain_def)

lemma put_node_ok:
  assumes "cq_inv q" "nonneg (priority nd)" "qsize q < INT_MAX"
  shows "\<exists>q'. put_node nd q = Inr q' \<and> cq_inv q' \<and> contents q' = add_mset nd (contents q) \<and>
    same_calendar q q' \<and> lastprio q' = lastprio q"
proof -
  from assms(1) have l: "layout_ok q" and c: "\<forall>j\<in>{0..<nbuckets q}. chain_ok q j"
    by (auto simp: cq_inv_def)
  obtain i where i: "bucket_of (priority nd) q = Inr i" "0 \<le> i" "i < nbuckets q"
    using bucket_of_range [OF l assms(2)] by auto
  let ?ns = "chain_insert nd (chain q i)"
  let ?q = "(upd i ?ns q)\<lparr>qsize := qsize q + 1\<rparr>"
  have run: "put_node nd q = Inr ?q"
    using i calendar_range [OF l i(2,3)] assms(3)
    by (simp add: put_node_def get_chain_ok [OF assms(1)] set_chain_def upd_def)
  have ci: "chain_ok q i" using c i by simp
  have "chain_ok (upd i ?ns q) j" if "j \<in> {0..<nbuckets q}" for j
  proof (rule chain_ok_upd [OF c i(2,3), THEN bspec, OF _ _ that])
    show "sorted_chain ?ns"
      using ci assms(2) by (intro sorted_chain_insert) (auto simp: chain_ok_def nonneg_def d_le_def)
    show "\<And>x. x \<in> set ?ns \<Longrightarrow> nonneg (priority x) \<and> bucket_of (priority x) q = Inr i"
      using ci i assms(2) by (auto simp: set_chain_insert chain_ok_def)
  qed
  then have "\<forall>j\<in>{0..<nbuckets ?q}. chain_ok ?q j"
    by (auto simp: chain_ok_def upd_def chain_def bucket_of_def)
  moreover have cont: "contents ?q = add_mset nd (contents q)"
    using contents_upd [OF i(2,3), of ?ns]
    by (simp add: mset_chain_insert contents_cong [of ?q "upd i ?ns q"])
  moreover have "layout_ok ?q" using l by (simp add: layout_ok_def upd_def)
  ultimately have "cq_inv ?q" using assms by (simp add: cq_inv_def) (simp add: upd_def)
  moreover have "same_calendar q ?q"
    using i by (auto simp: same_calendar_def upd_def)
  ultimately show ?thesis using run cont by (simp add: upd_def)
qed

section \<open>Taking the first event of a bucket\<close>

lemma take_first_ok:
  assumes "cq_inv q" "0 \<le> i" "i < nbuckets q" "chain q i \<noteq> []"
  shows "\<exists>q'. take_first i q = Inr (hd (chain q i), q') \<and> cq_inv q' \<and>
    contents q = add_mset (hd (chain q i)) (contents q') \<and> same_calendar q q' \<and>
    qsize q' = qsize q - 1 \<and> lastbucket q' = i \<and> lastprio q' = priority (hd (chain q i))"
proof -
  from assms(1) have l: "layout_ok q" and c: "\<forall>j\<in>{0..<nbuckets q}. chain_ok q j"
    by (auto simp: cq_inv_def)
  from assms(4) obtain e es where e: "chain q i = e # es" by (cases "chain q i") auto
  let ?q = "(upd i es q)\<lparr>lastbucket := i, lastprio := priority e, qsize := qsize q - 1\<rparr>"
  have run: "take_first i q = Inr (e, ?q)"
    using calendar_range [OF l assms(2,3)]
    by (simp add: take_first_def get_chain_ok [OF assms(1-3)] e set_chain_def upd_def)
  have ci: "chain_ok q i" using c assms by simp
  have "chain_ok (upd i es q) j" if "j \<in> {0..<nbuckets q}" for j
    using ci by (intro chain_ok_upd [OF c assms(2,3), THEN bspec, OF _ _ that])
      (auto simp: chain_ok_def e sorted_chain_def)
  then have "\<forall>j\<in>{0..<nbuckets ?q}. chain_ok ?q j"
    by (auto simp: chain_ok_def upd_def chain_def bucket_of_def)
  moreover have cont: "contents q = add_mset e (contents ?q)"
    using contents_upd [OF assms(2,3), of es]
    by (simp add: e contents_cong [of ?q "upd i es q"])
  moreover have "layout_ok ?q" using l by (simp add: layout_ok_def upd_def)
  moreover have "nonneg (priority e)" using ci e by (simp add: chain_ok_def)
  ultimately have "cq_inv ?q" using assms by (simp add: cq_inv_def) (simp add: upd_def)
  moreover have "same_calendar q ?q"
    using assms by (auto simp: same_calendar_def upd_def)
  ultimately show ?thesis using run cont by (simp add: e upd_def)
qed

section \<open>The walk over the buckets\<close>

lemma cq_inv_buckettop [simp]: "cq_inv (q\<lparr>buckettop := t\<rparr>) = cq_inv q"
  by (simp add: cq_inv_def layout_ok_def chain_ok_def contents_def chain_def bucket_of_def)

lemma chain_buckettop [simp]: "chain (q\<lparr>buckettop := t\<rparr>) = chain q"
  by (simp add: chain_def fun_eq_iff)

lemma contents_buckettop [simp]: "contents (q\<lparr>buckettop := t\<rparr>) = contents q"
  by (simp add: contents_def)

text \<open>The buckets from \<open>i\<close> to the last one before \<open>lastbucket\<close>, going round.\<close>

definition to_go :: "int \<Rightarrow> calqueue \<Rightarrow> nat" where
  "to_go i q = nat (if i < lastbucket q then lastbucket q - i else lastbucket q - i + nbuckets q)"

lemma scan_ok:
  assumes "cq_inv q" "0 \<le> i" "i < nbuckets q" "to_go i q \<le> n"
  shows "\<exists>found t. scan n i q = Inr (found, q\<lparr>buckettop := t\<rparr>) \<and>
    (case found of None \<Rightarrow> True
     | Some j \<Rightarrow> 0 \<le> j \<and> j < nbuckets q \<and> chain q j \<noteq> [] \<and> d_lt (priority (hd (chain q j))) t)"
  using assms
proof (induction n arbitrary: i q)
  case 0
  then show ?case by (auto simp: to_go_def cq_inv_def split: if_splits)
next
  case (Suc n)
  let ?i = "if i + 1 = nbuckets q then 0 else i + 1"
  let ?t = "d_add (buckettop q) (cwidth q)"
  note g = get_chain_ok [OF Suc.prems(1-3)]
  show ?case
  proof (cases "chain q i \<noteq> [] \<and> d_lt (priority (hd (chain q i))) (buckettop q)")
    case True
    then show ?thesis using Suc.prems g
      by (intro exI [of _ "Some i"] exI [of _ "buckettop q"]) simp
  next
    case False
    show ?thesis
    proof (cases "?i = lastbucket q")
      case True
      then show ?thesis using g False
        by (intro exI [of _ None] exI [of _ ?t]) (auto simp: Let_def)
    next
      case ne: False
      have r: "0 \<le> ?i" "?i < nbuckets q"
        using Suc.prems(2,3) by auto
      have "to_go ?i (q\<lparr>buckettop := ?t\<rparr>) \<le> n"
        using Suc.prems ne by (auto simp: to_go_def cq_inv_def split: if_splits)
      with Suc.IH [of "q\<lparr>buckettop := ?t\<rparr>" ?i] r Suc.prems(1)
      obtain found t where "scan n ?i (q\<lparr>buckettop := ?t\<rparr>) = Inr (found, q\<lparr>buckettop := t\<rparr>)"
        "case found of None \<Rightarrow> True
         | Some j \<Rightarrow> 0 \<le> j \<and> j < nbuckets q \<and> chain q j \<noteq> [] \<and> d_lt (priority (hd (chain q j))) t"
        by (auto simp del: scan.simps cong: option.case_cong)
      then show ?thesis using g False ne
        by (intro exI [of _ found] exI [of _ t]) (auto simp: Let_def)
    qed
  qed
qed

section \<open>The direct search\<close>

lemma kfold_upto:
  assumes "\<And>i s. a \<le> i \<Longrightarrow> i \<le> b \<Longrightarrow> I i s \<Longrightarrow> \<exists>s'. f i s = Inr s' \<and> I (i + 1) s'"
    and "a \<le> b + 1" "I a s"
  shows "\<exists>s'. kfold f [a..b] s = Inr s' \<and> I (b + 1) s'"
  using assms
proof (induction "nat (b + 1 - a)" arbitrary: a s)
  case 0
  then show ?case by simp
next
  case (Suc n)
  then have "a \<le> b" by simp
  moreover obtain s' where "f a s = Inr s'" "I (a + 1) s'" using Suc.prems \<open>a \<le> b\<close> by blast
  moreover have "\<exists>s''. kfold f [a + 1..b] s' = Inr s'' \<and> I (b + 1) s''"
    using Suc calculation by (intro Suc.hyps(1)) auto
  ultimately show ?case by (simp add: upto.simps [of a b])
qed

text \<open>What the search knows after the buckets below \<open>k\<close>.\<close>

definition searched :: "calqueue \<Rightarrow> int \<Rightarrow> int \<times> double \<Rightarrow> bool" where
  "searched q k st \<longleftrightarrow>
     (if fst st = - 1 then \<forall>j\<in>{0..<k}. chain q j = []
      else 0 \<le> fst st \<and> fst st < k \<and> chain q (fst st) \<noteq> [] \<and> snd st = priority (hd (chain q (fst st))) \<and>
        (\<forall>j\<in>{0..<k}. chain q j \<noteq> [] \<longrightarrow> d_le (snd st) (priority (hd (chain q j)))))"

lemma chain_hd:
  assumes "cq_inv q" "0 \<le> i" "i < nbuckets q" "chain q i \<noteq> []"
  shows "nonneg (priority (hd (chain q i)))"
    and "nd \<in> set (chain q i) \<Longrightarrow> d_le (priority (hd (chain q i))) (priority nd)"
proof -
  have "chain_ok q i" using assms by (simp add: cq_inv_def)
  with assms(4) show "nonneg (priority (hd (chain q i)))"
    "nd \<in> set (chain q i) \<Longrightarrow> d_le (priority (hd (chain q i))) (priority nd)"
    by (cases "chain q i"; auto simp: chain_ok_def sorted_chain_def nonneg_def dest: d_le_not_nan intro: d_le_refl)+
qed

lemma search_step_ok:
  assumes "cq_inv q" "0 \<le> i" "i < nbuckets q" "searched q i st"
  shows "\<exists>st'. search_step q i st = Inr st' \<and> searched q (i + 1) st'"
proof -
  have s: "{0..<i + 1} = insert i {0..<i}" using assms(2) by auto
  have h: "\<not> is_nan (priority (hd (chain q j)))" if "0 \<le> j" "j < nbuckets q" "chain q j \<noteq> []" for j
    using chain_hd(1) [OF assms(1) that] by (auto simp: nonneg_def dest: d_le_not_nan)
  show ?thesis
    using assms(2-4) h [OF assms(2,3)] h [of "fst st"]
    by (auto simp: search_step_def get_chain_ok [OF assms(1-3)] searched_def s d_not_lt d_le_refl
        split: if_splits intro: d_lt_le d_le_trans)
qed

lemma direct_search_ok:
  assumes "cq_inv q" "contents q \<noteq> {#}"
  shows "\<exists>i. direct_search q = Inr i \<and> 0 \<le> i \<and> i < nbuckets q \<and> chain q i \<noteq> [] \<and>
    (\<forall>j\<in>{0..<nbuckets q}. chain q j \<noteq> [] \<longrightarrow> d_le (priority (hd (chain q i))) (priority (hd (chain q j))))"
proof -
  have n: "0 \<le> nbuckets q" using assms(1) nbuckets_pos by (auto simp: cq_inv_def)
  have "\<exists>st. kfold (search_step q) [0..nbuckets q - 1] (- 1, d_of_int LLONG_MAX) = Inr st \<and>
      searched q (nbuckets q - 1 + 1) st"
    using assms(1) n by (intro kfold_upto search_step_ok) (auto simp: searched_def)
  then obtain st where st: "kfold (search_step q) [0..nbuckets q - 1] (- 1, d_of_int LLONG_MAX) = Inr st"
    "searched q (nbuckets q) st" by auto
  have "fst st \<noteq> - 1"
  proof
    assume "fst st = - 1"
    with st(2) have "contents q = {#}" by (simp add: searched_def contents_def)
    with assms(2) show False by simp
  qed
  with st show ?thesis by (auto simp: direct_search_def searched_def)
qed

section \<open>The dequeueing step\<close>

lemma in_contents: "nd \<in># contents q \<longleftrightarrow> (\<exists>j\<in>{0..<nbuckets q}. nd \<in> set (chain q j))"
  by (simp add: contents_def set_mset_sum)

text \<open>The event taken comes before every other of its bucket, and is the first of all or lies in the
  current year.\<close>

definition taken_in_order :: "calqueue \<Rightarrow> calqueue_node \<Rightarrow> calqueue \<Rightarrow> bool" where
  "taken_in_order q e q' \<longleftrightarrow>
     (\<forall>nd. nd \<in># contents q \<longrightarrow> bucket_of (priority nd) q = bucket_of (priority e) q \<longrightarrow> d_le (priority e) (priority nd)) \<and>
     ((\<forall>nd. nd \<in># contents q \<longrightarrow> d_le (priority e) (priority nd)) \<or> d_lt (priority e) (buckettop q'))"

lemma own_bucket_least:
  assumes "cq_inv q" "0 \<le> i" "i < nbuckets q" "chain q i \<noteq> []" "nd \<in># contents q"
    "bucket_of (priority nd) q = bucket_of (priority (hd (chain q i))) q"
  shows "d_le (priority (hd (chain q i))) (priority nd)"
proof -
  from assms(5) obtain j where j: "0 \<le> j" "j < nbuckets q" "nd \<in> set (chain q j)" by (auto simp: in_contents)
  have "bucket_of (priority nd) q = Inr j" "bucket_of (priority (hd (chain q i))) q = Inr i"
    using assms(1-4) j by (auto simp: cq_inv_def chain_ok_def)
  with assms(6) have "j = i" by simp
  with j(3) show ?thesis using chain_hd(2) [OF assms(1-4)] by simp
qed

lemma take_first_buckettop: "take_first i q = Inr (e, q') \<Longrightarrow> buckettop q' = buckettop q"
proof -
  assume h: "take_first i q = Inr (e, q')"
  then obtain ns where ns: "get_chain (calendar q + i) q = Inr ns"
    by (auto simp: take_first_def kbind_Inr_iff)
  with h show ?thesis
    by (cases ns) (auto simp: take_first_def set_chain_def split: if_split_asm)
qed

lemma deq_node_ok:
  assumes "cq_inv q" "0 < qsize q"
  shows "\<exists>e q'. deq_node q = Inr (e, q') \<and> cq_inv q' \<and> contents q = add_mset e (contents q') \<and>
    same_calendar q q' \<and> taken_in_order q e q' \<and> lastprio q' = priority e"
proof -
  have r: "0 \<le> lastbucket q" "lastbucket q < nbuckets q" "contents q \<noteq> {#}"
    using assms by (auto simp: cq_inv_def)
  have "to_go (lastbucket q) q \<le> nat (nbuckets q)" by (simp add: to_go_def)
  from scan_ok [OF assms(1) r(1,2) this] obtain found t where
    sc: "scan (nat (nbuckets q)) (lastbucket q) q = Inr (found, q\<lparr>buckettop := t\<rparr>)"
    and f: "case found of None \<Rightarrow> True
      | Some j \<Rightarrow> 0 \<le> j \<and> j < nbuckets q \<and> chain q j \<noteq> [] \<and> d_lt (priority (hd (chain q j))) t"
    by auto
  let ?q = "q\<lparr>buckettop := t\<rparr>"
  have k: "cq_inv ?q" using assms(1) by simp
  have same: "same_calendar q q'" if "same_calendar ?q q'" for q'
    using that by (simp add: same_calendar_def)
  have b: "bucket_of p ?q = bucket_of p q" for p by (simp add: bucket_of_def)
  have top: "take_first i ?q = Inr (e, q') \<Longrightarrow> buckettop q' = t" for i e q'
    using take_first_buckettop by fastforce
  show ?thesis
  proof (cases found)
    case (Some i)
    with f have i: "0 \<le> i" "i < nbuckets ?q" "chain ?q i \<noteq> []" "d_lt (priority (hd (chain q i))) t" by auto
    from take_first_ok [OF k i(1-3)] obtain q' where q': "take_first i ?q = Inr (hd (chain q i), q')" "cq_inv q'"
      "contents q = add_mset (hd (chain q i)) (contents q')" "same_calendar ?q q'" "lastprio q' = priority (hd (chain q i))"
      by auto
    have "taken_in_order q (hd (chain q i)) q'"
      using own_bucket_least [OF assms(1) i(1)] i top [OF q'(1)] by (simp add: taken_in_order_def)
    with q' same [OF q'(4)] show ?thesis by (simp add: deq_node_def sc Some)
  next
    case None
    have "contents ?q \<noteq> {#}" using r(3) by simp
    from direct_search_ok [OF k this] obtain i where i: "direct_search ?q = Inr i" "0 \<le> i" "i < nbuckets ?q"
      "chain ?q i \<noteq> []" and least: "\<And>j. 0 \<le> j \<Longrightarrow> j < nbuckets q \<Longrightarrow> chain q j \<noteq> [] \<Longrightarrow>
        d_le (priority (hd (chain q i))) (priority (hd (chain q j)))" by auto
    from take_first_ok [OF k i(2-4)] obtain q' where q': "take_first i ?q = Inr (hd (chain q i), q')" "cq_inv q'"
      "contents q = add_mset (hd (chain q i)) (contents q')" "same_calendar ?q q'" "lastprio q' = priority (hd (chain q i))"
      by auto
    have "d_le (priority (hd (chain q i))) (priority nd)" if "nd \<in># contents q" for nd
    proof -
      from that obtain j where j: "0 \<le> j" "j < nbuckets q" "nd \<in> set (chain q j)" by (auto simp: in_contents)
      then have ne: "chain q j \<noteq> []" by auto
      show ?thesis by (rule d_le_trans [OF least [OF j(1,2) ne] chain_hd(2) [OF assms(1) j(1,2) ne j(3)]])
    qed
    then have "taken_in_order q (hd (chain q i)) q'"
      using own_bucket_least [OF assms(1) i(2)] i by (simp add: taken_in_order_def)
    with q' same [OF q'(4)] i(1) show ?thesis by (simp add: deq_node_def sc None)
  qed
qed

end
