(* ===== verification/Calqueue_Resize.thy ===== *)
theory Calqueue_Resize
  imports Calqueue_Inv
begin

text \<open>
  The resizing of a calendar queue. \<open>new_width\<close> and the copy into the new calendar call
  \<open>calqueue_deq\<close> and \<open>calqueue_put\<close>, which call \<open>resize\<close> again; \<open>resize_call\<close> is what they need of
  that inner call, that it does nothing while \<open>resize_enabled\<close> is off. Under it the sampling puts
  back every event it took out, and the copy moves every event to the new calendar, provided that
  the width computed from the sample is not negative; \<open>sorted_sample_width\<close> shows that a sample that
  comes out in order never makes it negative.
\<close>

section \<open>Numbers\<close>

lemma not_negative:
  "\<not> d_lt x (Fin 0) \<longleftrightarrow> x = NaN \<or> nonneg x"
  by (cases x) (auto simp: nonneg_def d_le_def)

lemma d_add_not_negative:
  "\<not> d_lt x (Fin 0) \<Longrightarrow> \<not> d_lt y (Fin 0) \<Longrightarrow> \<not> d_lt (d_add x y) (Fin 0)"
  using rnd_nonneg [of "rat_val x + rat_val y" False] unfolding not_negative
  by (cases x; cases y) (auto simp: d_add_def)

lemma d_mul_not_negative:
  "\<not> d_lt x (Fin 0) \<Longrightarrow> \<not> d_lt (d_mul x (Fin 3)) (Fin 0)"
  using rnd_nonneg [of "rat_val x * 3" "sign_bit x"] unfolding not_negative
  by (cases x) (auto simp: d_mul_def Let_def inf_d_def)

lemma d_of_int_nonneg: "0 \<le> i \<Longrightarrow> nonneg (d_of_int i)"
  by (simp add: d_of_int_def rnd_nonneg)

lemma d_div_not_negative:
  assumes "\<not> d_lt x (Fin 0)" "0 \<le> i" "i < 2 ^ 53"
  shows "\<not> d_lt (d_div x (d_of_int i)) (Fin 0)"
proof -
  have "d_of_int i = Fin (of_int i)" using assms by (intro d_of_int_exact) simp
  then show ?thesis
    using assms(1,2) rnd_nonneg [of "rat_val x / of_int i" "sign_bit x"] unfolding not_negative
    by (cases x) (auto simp: d_div_def Let_def inf_d_def zero_d_def)
qed

lemma d_sub_not_negative: "d_le x y \<Longrightarrow> \<not> d_lt (d_sub y x) (Fin 0)"
  using rnd_nonneg [of "rat_val y - rat_val x" False] unfolding not_negative
  by (cases x; cases y) (auto simp: d_sub_def d_neg_def d_add_def d_le_def)

lemma d_lt_of_int:
  assumes "\<bar>a\<bar> < 2 ^ 53" "\<bar>b\<bar> < 2 ^ 53"
  shows "d_lt (d_of_int a) (d_of_int b) \<longleftrightarrow> a < b"
  by (simp add: d_of_int_exact [OF assms(1)] d_of_int_exact [OF assms(2)])

section \<open>The calls inside a resize\<close>

locale resize_call =
  fixes rs :: resizer
  assumes off: "\<not> resize_enabled q \<Longrightarrow> rs n q = Inr q"
begin

lemma put_off:
  assumes "\<not> resize_enabled q" "cq_inv q" "nonneg p" "qsize q < INT_MAX"
  shows "\<exists>q'. put_with rs p x q = Inr q' \<and> cq_inv q' \<and> same_calendar q q' \<and>
    contents q' = add_mset \<lparr>priority = p, payload = x\<rparr> (contents q)"
proof -
  let ?nd = "\<lparr>priority = p, payload = x\<rparr>"
  from put_node_ok [OF assms(2), of ?nd] assms(3,4) obtain q' where q': "put_node ?nd q = Inr q'"
    "cq_inv q'" "contents q' = add_mset ?nd (contents q)" "same_calendar q q'" by auto
  from q'(4) assms(1) have "\<not> resize_enabled q'" by (simp add: same_calendar_def)
  with q' show ?thesis by (simp add: put_with_def off)
qed

lemma deq_off:
  assumes "\<not> resize_enabled q" "cq_inv q" "0 < qsize q"
  shows "\<exists>e q'. deq_with rs q = Inr (Some e, q') \<and> cq_inv q' \<and> same_calendar q q' \<and>
    contents q = add_mset e (contents q')"
proof -
  from deq_node_ok [OF assms(2,3)] obtain e q' where q': "deq_node q = Inr (e, q')" "cq_inv q'"
    "contents q = add_mset e (contents q')" "same_calendar q q'" by auto
  from q'(4) assms(1) have "\<not> resize_enabled q'" by (simp add: same_calendar_def)
  with q' assms(3) show ?thesis by (simp add: deq_with_def off)
qed

end

interpretation resize: resize_call "resize n" for n
  by unfold_locales (cases n; simp)

section \<open>Sampling\<close>

lemma nsamples_range:
  assumes "2 \<le> qsize q" "qsize q \<le> INT_MAX"
  shows "2 \<le> nsamples q \<and> nsamples q \<le> qsize q"
proof (cases "qsize q \<le> 5")
  case True
  with assms show ?thesis by (simp add: nsamples_def)
next
  case False
  let ?x = "of_int (qsize q) / 10 :: rat"
  have q: "d_div (d_of_int (qsize q)) (Fin 10) = rnd False ?x"
    using assms by (simp add: d_of_int_exact INT_MAX_def d_div_def)
  have "qsize q \<le> (qsize q - 5) * 10" using False by simp
  then have "?x \<le> of_int (qsize q - 5)" by (simp flip: of_int_le_iff [where 'a = rat])
  then have "0 \<le> d_to_int 32 (rnd False ?x) \<and> d_to_int 32 (rnd False ?x) \<le> qsize q - 5"
    using assms by (intro d_to_int_rnd) (auto simp: INT_MAX_def)
  with False q show ?thesis by (simp add: nsamples_def Let_def)
qed

lemma contents_nonneg: "cq_inv q \<Longrightarrow> nd \<in># contents q \<Longrightarrow> nonneg (priority nd)"
  by (auto simp: in_contents cq_inv_def chain_ok_def)

text \<open>What the sampling loop has reached after \<open>n\<close> nodes, from the queue \<open>q0\<close>.\<close>

definition sampled :: "calqueue \<Rightarrow> int \<Rightarrow> (calqueue_node list \<times> double) \<times> calqueue \<Rightarrow> bool" where
  "sampled q0 n st \<longleftrightarrow> int (length (fst (fst st))) = n \<and> cq_inv (snd st) \<and> same_calendar q0 (snd st) \<and>
     contents q0 = mset (fst (fst st)) + contents (snd st)"

context resize_call
begin

lemma sample_step_ok:
  assumes "\<not> resize_enabled q0" "cq_inv q0" "i < qsize q0" "sampled q0 i st"
  shows "\<exists>st'. sample_step rs st = Inr st' \<and> sampled q0 (i + 1) st'"
proof -
  obtain temp total q where st: "st = ((temp, total), q)" by (metis prod.exhaust)
  from assms(4) st have s: "int (length temp) = i" "cq_inv q" "same_calendar q0 q"
    "contents q0 = mset temp + contents q" by (auto simp: sampled_def)
  then have "qsize q0 = i + qsize q" using assms(2) by (auto simp: cq_inv_def)
  with assms(3) have "0 < qsize q" by simp
  moreover have "\<not> resize_enabled q" using s(3) assms(1) by (simp add: same_calendar_def)
  ultimately obtain e q' where "deq_with rs q = Inr (Some e, q')" "cq_inv q'" "same_calendar q q'"
    "contents q = add_mset e (contents q')" using deq_off s(2) by blast
  with s show ?thesis by (auto simp: sample_step_def st sampled_def intro: same_calendar_trans)
qed

lemma sample_ok:
  assumes "\<not> resize_enabled q0" "cq_inv q0" "n \<le> qsize q0" "0 \<le> n"
  shows "\<exists>st. kfold (\<lambda>_. sample_step rs) [0..n - 1] (([], Fin 0), q0) = Inr st \<and> sampled q0 n st"
proof -
  have "\<exists>st. kfold (\<lambda>_. sample_step rs) [0..n - 1] (([], Fin 0), q0) = Inr st \<and> sampled q0 (n - 1 + 1) st"
    using assms by (intro kfold_upto sample_step_ok) (auto simp: sampled_def)
  then show ?thesis by simp
qed

lemma reinsert_ok:
  assumes "\<not> resize_enabled q" "cq_inv q" "\<forall>nd\<in>set nds. nonneg (priority nd)"
    "qsize q + int (length nds) \<le> INT_MAX"
  shows "\<exists>st' q'. reinsert rs average prev nds st q = Inr (st', q') \<and> cq_inv q' \<and> same_calendar q q' \<and>
    contents q' = mset nds + contents q \<and>
    (\<not> d_lt (fst st) (Fin 0) \<and> 0 \<le> snd st \<and> sorted_chain (prev # nds) \<longrightarrow>
       \<not> d_lt (fst st') (Fin 0) \<and> 0 \<le> snd st' \<and> snd st' \<le> snd st + int (length nds))"
  using assms
proof (induction nds arbitrary: prev st q)
  case Nil
  then show ?case by simp
next
  case (Cons nd nds)
  let ?gap = "d_sub (priority nd) (priority prev)"
  let ?st = "if d_lt ?gap (d_mul average (Fin 2)) then (d_add (fst st) ?gap, snd st + 1) else st"
  from put_off [OF Cons.prems(1,2), of "priority nd" "payload nd"] Cons.prems(3,4) obtain q1 where
    q1: "put_with rs (priority nd) (payload nd) q = Inr q1" "cq_inv q1" "same_calendar q q1"
      "contents q1 = add_mset nd (contents q)" by auto
  have "qsize q1 = qsize q + 1" using q1(2,4) Cons.prems(2) by (simp add: cq_inv_def)
  moreover have "\<not> resize_enabled q1" using q1(3) Cons.prems(1) by (simp add: same_calendar_def)
  ultimately obtain st' q' where r: "reinsert rs average nd nds ?st q1 = Inr (st', q')" "cq_inv q'"
    "same_calendar q1 q'" "contents q' = mset nds + contents q1"
    "\<not> d_lt (fst ?st) (Fin 0) \<and> 0 \<le> snd ?st \<and> sorted_chain (nd # nds) \<longrightarrow>
       \<not> d_lt (fst st') (Fin 0) \<and> 0 \<le> snd st' \<and> snd st' \<le> snd ?st + int (length nds)"
    using Cons.IH [of q1 nd ?st] q1(2) Cons.prems(3,4) by auto
  have "\<not> d_lt (fst ?st) (Fin 0) \<and> 0 \<le> snd ?st \<and> snd ?st \<le> snd st + 1 \<and> sorted_chain (nd # nds)"
    if "\<not> d_lt (fst st) (Fin 0)" "0 \<le> snd st" "sorted_chain (prev # nd # nds)"
    using that d_add_not_negative [of "fst st" ?gap] d_sub_not_negative [of "priority prev" "priority nd"]
    by (auto simp: sorted_chain_def)
  with r q1 show ?case by (auto simp: Let_def intro: same_calendar_trans)
qed

text \<open>\<open>new_width\<close> gives every event back, and a width that is not negative when the sample was in
  order.\<close>

lemma new_width_ok:
  assumes "cq_inv q" "resize_enabled q"
  shows "\<exists>w q'. new_width rs q = Inr (w, q') \<and> cq_inv q' \<and> same_calendar q q' \<and> contents q' = contents q \<and>
    lastprio q' = lastprio q \<and>
    (\<forall>temp total q1. kfold (\<lambda>_. sample_step rs) [0..nsamples q - 1] (([], Fin 0), q\<lparr>resize_enabled := False\<rparr>) =
        Inr ((temp, total), q1) \<longrightarrow> sorted_chain temp \<longrightarrow> \<not> d_lt w (Fin 0))"
proof (cases "qsize q < 2")
  case True
  with assms(1) show ?thesis by (simp add: new_width_def)
next
  case False
  let ?q0 = "q\<lparr>resize_enabled := False\<rparr>"
  have k0: "cq_inv ?q0"
    using assms(1) by (rule cq_inv_cong [rotated 8]) (use assms(1) in \<open>auto simp: cq_inv_def\<close>)
  have c0: "contents ?q0 = contents q" by (rule contents_cong) simp_all
  have n: "2 \<le> nsamples q" "nsamples q \<le> qsize q"
    using nsamples_range [of q] False assms(1) by (auto simp: cq_inv_def)
  have "\<exists>st. kfold (\<lambda>_. sample_step rs) [0..nsamples q - 1] (([], Fin 0), ?q0) = Inr st \<and>
      sampled ?q0 (nsamples q) st"
    using n k0 by (intro sample_ok) auto
  then obtain temp total q1 where run1:
    "kfold (\<lambda>_. sample_step rs) [0..nsamples q - 1] (([], Fin 0), ?q0) = Inr ((temp, total), q1)"
    and s: "int (length temp) = nsamples q" "cq_inv q1" "same_calendar ?q0 q1" "contents q = mset temp + contents q1"
    using c0 by (force simp: sampled_def)
  from s(1) n obtain nd nds where temp: "temp = nd # nds" by (cases temp) auto
  have size: "qsize q = int (length temp) + qsize q1" using assms(1) s(2,4) by (simp add: cq_inv_def)
  have pos: "\<forall>nd\<in>set temp. nonneg (priority nd)"
    using contents_nonneg [OF assms(1)] s(4) by simp
  have off1: "\<not> resize_enabled q1" using s(3) by (simp add: same_calendar_def)
  have small: "qsize q1 < INT_MAX" using size temp assms(1) by (simp add: cq_inv_def)
  obtain q2 where q2: "put_with rs (priority nd) (payload nd) q1 = Inr q2" "cq_inv q2" "same_calendar q1 q2"
    "contents q2 = add_mset nd (contents q1)"
    using put_off [OF off1 s(2), of "priority nd" "payload nd"] pos temp small by auto
  let ?avg = "d_div total (d_of_int (nsamples q - 1))"
  have off2: "\<not> resize_enabled q2" using off1 q2(3) by (simp add: same_calendar_def)
  have "qsize q2 = qsize q1 + 1" using q2(2,4) s(2) by (simp add: cq_inv_def)
  then have size2: "qsize q2 + int (length nds) \<le> INT_MAX" using size temp assms(1) by (simp add: cq_inv_def)
  have "\<forall>nd\<in>set nds. nonneg (priority nd)" using pos temp by simp
  from reinsert_ok [OF off2 q2(2) this size2, of ?avg nd "(Fin 0, 0)"] obtain newaverage j q3 where
    q3: "reinsert rs ?avg nd nds (Fin 0, 0) q2 = Inr ((newaverage, j), q3)" "cq_inv q3" "same_calendar q2 q3"
      "contents q3 = mset nds + contents q2"
    and ord: "sorted_chain temp \<longrightarrow> \<not> d_lt newaverage (Fin 0) \<and> 0 \<le> j \<and> j \<le> int (length nds)"
    using temp by auto
  let ?q4 = "q3\<lparr>lastbucket := lastbucket q, lastprio := lastprio q, buckettop := buckettop q, resize_enabled := True\<rparr>"
  have run: "new_width rs q = Inr (d_mul (d_div newaverage (d_of_int j)) (Fin 3), ?q4)"
    using False run1 temp q2(1) q3(1) by (simp add: new_width_def Let_def)
  have cal: "same_calendar ?q0 q3" using s(3) q2(3) q3(3) by (blast intro: same_calendar_trans)
  then have cal4: "same_calendar q ?q4" using assms(2) by (simp add: same_calendar_def)
  have c4: "contents ?q4 = contents q"
    using s(4) temp q2(4) q3(4) by (simp add: contents_cong [of ?q4 q3])
  have "nbuckets q3 = nbuckets q" using cal by (simp add: same_calendar_def)
  have k4: "cq_inv ?q4"
    using q3(2) by (rule cq_inv_cong [rotated 8]) (use assms(1) \<open>nbuckets q3 = nbuckets q\<close> in \<open>auto simp: cq_inv_def\<close>)
  have "\<not> d_lt (d_mul (d_div newaverage (d_of_int j)) (Fin 3)) (Fin 0)" if "sorted_chain temp"
  proof -
    have "int (length nds) \<le> INT_MAX" using size2 q2(2) by (simp add: cq_inv_def)
    with ord that show ?thesis
      by (intro d_mul_not_negative d_div_not_negative) (auto simp: INT_MAX_def)
  qed
  with run k4 cal4 c4 run1 show ?thesis by auto
qed

end

end
