(* ===== verification/Calqueue_Ops.thy ===== *)
theory Calqueue_Ops
  imports Calqueue_Resize
begin

text \<open>
  The interface of the calendar queue: building a calendar, copying the events into it, and the
  correctness of \<open>calqueue_init\<close>, \<open>calqueue_put\<close> and \<open>calqueue_get\<close>, resizing included. The one
  proviso is \<open>width_safe\<close>: the bucket width a resize computes is not negative.
\<close>

section \<open>A new calendar\<close>

definition in_calendar :: "int \<Rightarrow> calqueue \<Rightarrow> bool" where
  "in_calendar k q \<longleftrightarrow> calendar q \<le> k \<and> k < calendar q + nbuckets q"

lemma clear_ok:
  assumes "0 \<le> calendar q" "calendar q + n \<le> CALQSPACE" "0 \<le> n"
  shows "kfold (\<lambda>i q. set_chain (calendar q + i) (Some []) q) [0..n - 1] q =
    Inr (q\<lparr>calq := (\<lambda>k. if calendar q \<le> k \<and> k < calendar q + n then Some [] else calq q k)\<rparr>)"
proof -
  let ?I = "\<lambda>i s. s = q\<lparr>calq := (\<lambda>k. if calendar q \<le> k \<and> k < calendar q + i then Some [] else calq q k)\<rparr>"
  have "\<exists>s'. kfold (\<lambda>i q. set_chain (calendar q + i) (Some []) q) [0..n - 1] q = Inr s' \<and> ?I (n - 1 + 1) s'"
  proof (rule kfold_upto [where I = ?I])
    fix i s assume i: "0 \<le> i" "i \<le> n - 1" and s: "?I i s"
    have "(\<lambda>k. if calendar q \<le> k \<and> k < calendar q + i then Some [] else calq q k)(calendar q + i := Some []) =
        (\<lambda>k. if calendar q \<le> k \<and> k < calendar q + (i + 1) then Some [] else calq q k)"
      using i by (auto simp: fun_eq_iff)
    with i s assms show "\<exists>s'. set_chain (calendar s + i) (Some []) s = Inr s' \<and> ?I (i + 1) s'"
      by (simp add: set_chain_def)
  next
    have "(\<lambda>k. if calendar q \<le> k \<and> k < calendar q + 0 then Some [] else calq q k) = calq q"
      by (auto simp: fun_eq_iff)
    then show "?I 0 q" by simp
  qed (use assms(3) in simp)
  then show ?thesis by simp
qed

lemma half_int:
  assumes "k \<in> {1..15}"
  shows "d_to_int 32 (d_div (d_of_int (2 ^ k)) (Fin 2)) = 2 ^ k div 2"
proof -
  have p: "(2::int) ^ k = 2 * 2 ^ (k - 1)" using assms by (cases k) auto
  have b: "(2::int) ^ (k - 1) \<le> 2 ^ 14" using assms by (intro power_increasing) auto
  then have "\<bar>2 ^ k :: int\<bar> < 2 ^ 53" using p by simp
  then have "d_of_int (2 ^ k) = Fin (of_int (2 ^ k))" by (rule d_of_int_exact)
  moreover have "rnd False (of_int (2 ^ (k - 1))) = Fin (of_int (2 ^ (k - 1)))"
    using d_of_int_exact [of "2 ^ (k - 1)"] b by (simp add: d_of_int_def)
  ultimately have "d_div (d_of_int (2 ^ k)) (Fin 2) = Fin (of_int (2 ^ (k - 1)))"
    using p by (simp add: d_div_def)
  moreover have "d_to_int 32 (Fin (of_int i)) = i" if "0 \<le> i" "i \<le> 2 ^ 14" for i :: int
    using that by (simp add: d_to_int_def)
  ultimately show ?thesis using b p by (simp del: of_int_power)
qed

lemma localinit_ok:
  assumes "n = 2 ^ k" "k \<in> {1..15}" "qbase = 0 \<or> qbase = CALQSPACE - n" "\<not> d_lt w (Fin 0)" "nonneg p"
  shows "\<exists>q'. localinit qbase n w p q = Inr q' \<and> cq_inv q' \<and> contents q' = {#} \<and> calendar q' = qbase \<and>
    nbuckets q' = n \<and> resize_enabled q' = resize_enabled q \<and> lastprio q' = p \<and>
    (\<forall>k. \<not> in_calendar k q' \<longrightarrow> calq q' k = calq q k)"
proof -
  have n: "2 \<le> n" "n \<le> 32768"
  proof -
    have "(2::int) ^ 1 \<le> 2 ^ k" "(2::int) ^ k \<le> 2 ^ 15"
      using assms(2) by (simp_all only: atLeastAtMost_iff power_increasing_iff)
    then show "2 \<le> n" "n \<le> 32768" using assms(1) by simp_all
  qed
  let ?q1 = "q\<lparr>firstsub := qbase, calendar := qbase, cwidth := w, nbuckets := n, qsize := 0\<rparr>"
  let ?q2 = "?q1\<lparr>calq := (\<lambda>k. if qbase \<le> k \<and> k < qbase + n then Some [] else calq q k)\<rparr>"
  have clear: "kfold (\<lambda>i q. set_chain (calendar q + i) (Some []) q) [0..n - 1] ?q1 = Inr ?q2"
    using clear_ok [of ?q1 n] n assms(3) by (auto simp: CALQSPACE_def cong: if_cong)
  let ?m = "d_to_int 64 (d_div p w)"
  have "0 \<le> ?m \<or> ?m = - (2 ^ 63)" using quotient_to_int [OF assms(5,4), of 64] by simp
  moreover have "k \<le> 63" using assms(2) by simp
  ultimately obtain b where b: "c_mod ?m n = Inr b" "0 \<le> b" "b < n"
    using c_mod_range [of ?m 63 n k] assms(1) by auto
  let ?q3 = "?q2\<lparr>lastprio := p, lastbucket := b,
       buckettop := d_add (d_mul (d_of_int (?m + 1)) w) (d_mul (Fin (1 / 2)) w),
       bot_threshold := d_of_int (d_to_int 32 (d_div (d_of_int n) (Fin 2)) - 2),
       top_threshold := d_of_int (2 * n)\<rparr>"
  have run: "localinit qbase n w p q = Inr ?q3"
    using b by (simp add: localinit_def clear [simplified] Let_def)
  have ch: "chain ?q3 i = []" if "0 \<le> i" "i < n" for i using that by (simp add: chain_def)
  then have c: "contents ?q3 = {#}" by (simp add: contents_def)
  have "chain_ok ?q3 i" if "i \<in> {0..<n}" for i
    using ch [of i] that by (auto simp: chain_ok_def sorted_chain_def)
  moreover have "layout_ok ?q3"
    using assms half_int [OF assms(2)] by (auto simp: layout_ok_def)
  ultimately have "cq_inv ?q3" using b c assms(5) by (simp add: cq_inv_def INT_MAX_def)
  with run c show ?thesis by (auto simp: in_calendar_def)
qed

section \<open>Copying the events\<close>

lemma cq_inv_outside:
  assumes "cq_inv q" "\<not> in_calendar k q"
  shows "cq_inv (q\<lparr>calq := (calq q)(k := c)\<rparr>)" "contents (q\<lparr>calq := (calq q)(k := c)\<rparr>) = contents q"
proof -
  let ?q = "q\<lparr>calq := (calq q)(k := c)\<rparr>"
  have ch: "chain ?q i = chain q i" if "i \<in> {0..<nbuckets q}" for i
    using that assms(2) by (auto simp: chain_def in_calendar_def)
  then show cont: "contents ?q = contents q" by (simp add: contents_def)
  have "chain_ok ?q i" if i: "i \<in> {0..<nbuckets q}" for i
  proof -
    have "chain_ok q i" using assms(1) i by (simp add: cq_inv_def)
    then show ?thesis
      using ch [OF i] i assms(2) by (auto simp: chain_ok_def bucket_of_def in_calendar_def)
  qed
  with assms(1) cont show "cq_inv ?q" by (auto simp: cq_inv_def layout_ok_def)
qed

text \<open>A queue with room: no put of \<open>m\<close> more events makes it grow.\<close>

lemma put_room:
  assumes "cq_inv q" "nonneg p" "qsize q < 2 * nbuckets q"
  shows "\<exists>q'. put_with rs p x q = Inr q' \<and> cq_inv q' \<and> same_calendar q q' \<and> lastprio q' = lastprio q \<and>
    contents q' = add_mset \<lparr>priority = p, payload = x\<rparr> (contents q) \<and>
    put_node \<lparr>priority = p, payload = x\<rparr> q = Inr q'"
proof -
  let ?nd = "\<lparr>priority = p, payload = x\<rparr>"
  have n: "2 \<le> nbuckets q" "nbuckets q \<le> 32768"
    using nbuckets_pos assms(1) by (auto simp: cq_inv_def MAXNBUCKETS_def)
  then have "qsize q < INT_MAX" using assms(3) by (simp add: INT_MAX_def)
  then obtain q' where q': "put_node ?nd q = Inr q'" "cq_inv q'" "contents q' = add_mset ?nd (contents q)"
    "same_calendar q q'" "lastprio q' = lastprio q" using put_node_ok [OF assms(1), of ?nd] assms(2) by auto
  have "qsize q' = qsize q + 1" using q'(2,3) assms(1) by (simp add: cq_inv_def)
  moreover have "top_threshold q' = d_of_int (2 * nbuckets q)"
    using q'(4) assms(1) by (simp add: same_calendar_def cq_inv_def layout_ok_def)
  moreover have "0 \<le> qsize q" using assms(1) by (simp add: cq_inv_def)
  ultimately have "\<not> d_lt (top_threshold q') (d_of_int (qsize q'))"
    using n assms(3) by (simp add: d_lt_of_int)
  with q' show ?thesis by (simp add: put_with_def)
qed

lemma put_all_room:
  assumes "cq_inv q" "\<forall>nd\<in>set ns. nonneg (priority nd)" "qsize q + int (length ns) \<le> 2 * nbuckets q"
  shows "\<exists>q'. kfold (\<lambda>nd. put_with rs (priority nd) (payload nd)) ns q = Inr q' \<and> cq_inv q' \<and>
    same_calendar q q' \<and> lastprio q' = lastprio q \<and> contents q' = mset ns + contents q"
  using assms
proof (induction ns arbitrary: q)
  case Nil
  then show ?case by simp
next
  case (Cons nd ns)
  from put_room [OF Cons.prems(1), of "priority nd" rs "payload nd"] Cons.prems(2,3) obtain q1 where
    q1: "put_with rs (priority nd) (payload nd) q = Inr q1" "cq_inv q1" "same_calendar q q1"
      "lastprio q1 = lastprio q" "contents q1 = add_mset nd (contents q)" by auto
  have "qsize q1 = qsize q + 1" using q1(2,5) Cons.prems(1) by (simp add: cq_inv_def)
  moreover have "nbuckets q1 = nbuckets q" using q1(3) by (simp add: same_calendar_def)
  ultimately have "\<exists>q'. kfold (\<lambda>nd. put_with rs (priority nd) (payload nd)) ns q1 = Inr q' \<and> cq_inv q' \<and>
    same_calendar q1 q' \<and> lastprio q' = lastprio q1 \<and> contents q' = mset ns + contents q1"
    using Cons.prems q1(2) by (intro Cons.IH) auto
  with q1 show ?case by (auto intro: same_calendar_trans)
qed

text \<open>Where the copy stands: the buckets \<open>js\<close> of the old calendar \<open>old\<close> are still to be moved.\<close>

definition copying :: "calqueue \<Rightarrow> calqueue \<Rightarrow> int list \<Rightarrow> calqueue \<Rightarrow> bool" where
  "copying old q1 js q \<longleftrightarrow> cq_inv q \<and> calendar q = calendar q1 \<and> nbuckets q = nbuckets q1 \<and>
     lastprio q = lastprio q1 \<and> resize_enabled q = resize_enabled q1 \<and> distinct js \<and>
     (\<forall>j\<in>set js. calq q (calendar old + j) = calq old (calendar old + j)) \<and>
     contents q + (\<Sum>j\<in>set js. mset (chain old j)) = contents old"

lemma copy_chain_ok:
  assumes "cq_inv old" "copying old q1 (j # js) q" "size (contents old) \<le> nat (2 * nbuckets q1)"
    and disjoint: "\<And>k. in_calendar k old \<Longrightarrow> \<not> in_calendar k q1"
    and "set (j # js) \<subseteq> {0..<nbuckets old}"
  shows "\<exists>q'. copy_chain rs (calendar old + j) q = Inr q' \<and> copying old q1 js q'"
proof -
  let ?ns = "chain old j" and ?k = "calendar old + j"
  have j: "0 \<le> j" "j < nbuckets old" using assms(5) by auto
  have c: "cq_inv q" "calq q ?k = calq old ?k" "calendar q = calendar q1" "nbuckets q = nbuckets q1"
    using assms(2) by (auto simp: copying_def)
  have "get_chain ?k old = Inr ?ns" by (rule get_chain_ok [OF assms(1) j])
  then have g: "get_chain ?k q = Inr ?ns" using c(2) by (simp add: get_chain_def split: if_splits)
  have split: "contents q + mset ?ns + (\<Sum>j\<in>set js. mset (chain old j)) = contents old"
    using assms(2) by (auto simp: copying_def add.assoc)
  then have "size (contents q) + length ?ns \<le> size (contents old)"
    by (metis le_add1 size_mset size_union)
  then have "qsize q + int (length ?ns) \<le> 2 * nbuckets q"
    using assms(3) c nbuckets_pos [of q] by (auto simp: cq_inv_def)
  moreover have "\<forall>nd\<in>set ?ns. nonneg (priority nd)"
    using assms(1) j by (auto simp: cq_inv_def chain_ok_def)
  ultimately obtain q2 where q2: "kfold (\<lambda>nd. put_with rs (priority nd) (payload nd)) ?ns q = Inr q2"
    "cq_inv q2" "same_calendar q q2" "lastprio q2 = lastprio q" "contents q2 = mset ?ns + contents q"
    using put_all_room [OF c(1)] by blast
  have k: "0 \<le> ?k" "?k < CALQSPACE" using calendar_range [of old j] assms(1) j by (auto simp: cq_inv_def)
  have "in_calendar ?k old" using j by (simp add: in_calendar_def)
  then have out: "\<not> in_calendar ?k q2"
    using disjoint c q2(3) by (simp add: same_calendar_def in_calendar_def)
  let ?q3 = "if ?ns = [] then q2 else q2\<lparr>calq := (calq q2)(?k := None)\<rparr>"
  have run: "copy_chain rs ?k q = Inr ?q3"
    using g q2(1) k by (simp add: copy_chain_def set_chain_def)
  have "calq ?q3 (calendar old + i) = calq old (calendar old + i)" if "i \<in> set js" for i
  proof -
    have "i \<noteq> j" "calq q (calendar old + i) = calq old (calendar old + i)"
      using assms(2) that by (auto simp: copying_def)
    moreover have "\<not> in_calendar (calendar old + i) q"
      using disjoint [of "calendar old + i"] that assms(5) c by (auto simp: in_calendar_def)
    ultimately show ?thesis using q2(3) by (auto simp: same_calendar_def in_calendar_def)
  qed
  moreover have "contents ?q3 + (\<Sum>j\<in>set js. mset (chain old j)) = contents old"
    using q2(5) split cq_inv_outside(2) [OF q2(2) out, of None] by (auto simp: add.commute)
  ultimately have "copying old q1 js ?q3"
    using assms(2) q2 cq_inv_outside(1) [OF q2(2) out, of None]
    by (simp add: copying_def same_calendar_def)
  with run show ?thesis by blast
qed

lemma kfold_copy:
  assumes "cq_inv old" "copying old q1 js q" "size (contents old) \<le> nat (2 * nbuckets q1)"
    and "\<And>k. in_calendar k old \<Longrightarrow> \<not> in_calendar k q1" and "set js \<subseteq> {0..<nbuckets old}"
  shows "\<exists>q'. kfold (\<lambda>i. copy_chain rs (calendar old + i)) js q = Inr q' \<and> copying old q1 [] q'"
  using assms(2,5)
proof (induction js arbitrary: q)
  case (Cons j js)
  from copy_chain_ok [OF assms(1) Cons.prems(1) assms(3,4) Cons.prems(2)] obtain q' where
    q': "copy_chain rs (calendar old + j) q = Inr q'" "copying old q1 js q'" by blast
  moreover have "set js \<subseteq> {0..<nbuckets old}" using Cons.prems(2) by simp
  ultimately show ?case using Cons.IH [of q'] by simp
qed simp

section \<open>Resizing\<close>

text \<open>The two halves of the array cannot overlap.\<close>

lemma halves_disjoint:
  assumes "layout_ok q" "n \<le> MAXNBUCKETS" "calendar q1 = (if firstsub q = 0 then CALQSPACE - n else 0)"
    "nbuckets q1 = n" "in_calendar k q"
  shows "\<not> in_calendar k q1"
  using assms nbuckets_pos [OF assms(1)]
  by (auto simp: layout_ok_def in_calendar_def CALQSPACE_def MAXNBUCKETS_def split: if_splits)

context resize_call
begin

lemma resize_with_ok:
  assumes "cq_inv q" "resize_enabled q" "n = 2 ^ k" "k \<in> {1..15}" "size (contents q) \<le> nat (2 * n)"
    and w: "\<And>w q'. new_width rs q = Inr (w, q') \<Longrightarrow> \<not> d_lt w (Fin 0)"
  shows "\<exists>q'. resize_with rs n q = Inr q' \<and> cq_inv q' \<and> contents q' = contents q \<and> nbuckets q' = n \<and>
    resize_enabled q' \<and> lastprio q' = lastprio q"
proof -
  obtain w q1 where q1: "new_width rs q = Inr (w, q1)" "cq_inv q1" "same_calendar q q1"
    "contents q1 = contents q" "lastprio q1 = lastprio q" using new_width_ok [OF assms(1,2)] by blast
  let ?base = "if firstsub q1 = 0 then CALQSPACE - n else 0"
  have "nonneg (lastprio q1)" using q1(2) by (simp add: cq_inv_def)
  then obtain q2 where q2: "localinit ?base n w (lastprio q1) q1 = Inr q2" "cq_inv q2" "contents q2 = {#}"
    "calendar q2 = ?base" "nbuckets q2 = n" "resize_enabled q2 = resize_enabled q1" "lastprio q2 = lastprio q1"
    "\<forall>k. \<not> in_calendar k q2 \<longrightarrow> calq q2 k = calq q1 k"
    using localinit_ok [OF assms(3,4) _ w [OF q1(1)], of ?base "lastprio q1" q1] by fastforce
  have "(2::int) ^ k \<le> 2 ^ 15" using assms(4) by (intro power_increasing) auto
  then have "n \<le> MAXNBUCKETS" using assms(3) by (simp add: MAXNBUCKETS_def)
  then have dis: "\<not> in_calendar k q2" if "in_calendar k q1" for k
    using halves_disjoint [of q1 n q2 k] q1(2) q2(4,5) that by (simp add: cq_inv_def)
  let ?js = "rev [0..nbuckets q1 - 1]"
  have js: "set ?js = {0..<nbuckets q1}" by auto
  have "contents q2 + (\<Sum>j\<in>set ?js. mset (chain q1 j)) = contents q1"
    unfolding js q2(3) by (simp add: contents_def)
  moreover have "\<forall>j\<in>set ?js. calq q2 (calendar q1 + j) = calq q1 (calendar q1 + j)"
    unfolding js using q2(8) dis by (auto simp: in_calendar_def)
  ultimately have "copying q1 q2 ?js q2"
    using q2(2) by (simp add: copying_def)
  moreover have "size (contents q1) \<le> nat (2 * nbuckets q2)" using assms(5) q1(4) q2(5) by simp
  ultimately obtain q3 where q3: "kfold (\<lambda>i. copy_chain rs (calendar q1 + i)) ?js q2 = Inr q3" "copying q1 q2 [] q3"
    using kfold_copy [OF q1(2) _ _ dis, of ?js q2] js by blast
  have "resize_with rs n q = Inr q3"
    using q1(1) q2(1) q3(1) by (simp add: resize_with_def)
  with q3(2) q1 q2(5-7) assms(2) show ?thesis by (simp add: copying_def same_calendar_def)
qed

end

text \<open>The width the next resize of \<open>q\<close> computes is not negative.\<close>

definition width_safe :: "calqueue \<Rightarrow> bool" where
  "width_safe q \<longleftrightarrow> (case new_width (resize 0) q of Inl _ \<Rightarrow> True | Inr (w, _) \<Rightarrow> \<not> d_lt w (Fin 0))"

lemma resize_ok:
  assumes "cq_inv q" "n = 2 ^ k" "k \<in> {1..15}" "size (contents q) \<le> nat (2 * n)"
    and "resize_enabled q" "width_safe q"
  shows "\<exists>q'. resize resize_depth n q = Inr q' \<and> cq_inv q' \<and> contents q' = contents q \<and> resize_enabled q' \<and>
    nbuckets q' = n \<and> lastprio q' = lastprio q"
proof -
  have "\<not> d_lt w (Fin 0)" if "new_width (resize 0) q = Inr (w, q')" for w q'
    using assms(6) that by (simp add: width_safe_def)
  then have "\<exists>q'. resize_with (resize 0) n q = Inr q' \<and> cq_inv q' \<and> contents q' = contents q \<and> nbuckets q' = n \<and>
    resize_enabled q' \<and> lastprio q' = lastprio q"
    by (intro resize.resize_with_ok [OF assms(1,5,2,3,4)])
  then show ?thesis using assms(5) by (auto simp: resize_depth_def)
qed

section \<open>Putting an event\<close>

lemma half_bound: "layout_ok q \<Longrightarrow> \<bar>nbuckets q div 2 - 2\<bar> < 2 ^ 53 \<and> \<bar>2 * nbuckets q\<bar> < 2 ^ 53"
  using nbuckets_pos [of q] by (auto simp: MAXNBUCKETS_def)

lemma calqueue_put_ok:
  assumes "cq_inv q" "resize_enabled q" "nonneg p" "qsize q < INT_MAX"
    and "\<And>q1. put_node \<lparr>priority = p, payload = x\<rparr> q = Inr q1 \<Longrightarrow> 2 * nbuckets q < qsize q1 \<Longrightarrow> width_safe q1"
    and "qsize q \<le> 2 * nbuckets q \<or> nbuckets q = MAXNBUCKETS"
  shows "\<exists>q'. calqueue_put p x q = Inr q' \<and> cq_inv q' \<and> resize_enabled q' \<and> lastprio q' = lastprio q \<and>
    (qsize q' \<le> 2 * nbuckets q' \<or> nbuckets q' = MAXNBUCKETS) \<and>
    contents q' = add_mset \<lparr>priority = p, payload = x\<rparr> (contents q) \<and>
    nbuckets q' = (if 2 * nbuckets q \<le> qsize q \<and> nbuckets q < MAXNBUCKETS then 2 * nbuckets q else nbuckets q)"
proof -
  let ?nd = "\<lparr>priority = p, payload = x\<rparr>"
  obtain q1 where q1: "put_node ?nd q = Inr q1" "cq_inv q1" "contents q1 = add_mset ?nd (contents q)"
    "same_calendar q q1" "lastprio q1 = lastprio q" using put_node_ok [OF assms(1), of ?nd] assms(3,4) by auto
  have n: "nbuckets q1 = nbuckets q" "resize_enabled q1" using q1(4) assms(2) by (auto simp: same_calendar_def)
  have size: "qsize q1 = qsize q + 1" "qsize q1 = int (size (contents q1))" "0 \<le> qsize q"
    using q1(2,3) assms(1) by (simp_all add: cq_inv_def)
  have l: "layout_ok q1" "top_threshold q1 = d_of_int (2 * nbuckets q1)"
    using q1(2) by (auto simp: cq_inv_def layout_ok_def)
  have top: "d_lt (top_threshold q1) (d_of_int (qsize q1)) \<longleftrightarrow> 2 * nbuckets q1 < qsize q1"
    using l half_bound [OF l(1)] size assms(4) by (simp add: d_lt_of_int INT_MAX_def)
  show ?thesis
  proof (cases "2 * nbuckets q1 < qsize q1 \<and> nbuckets q1 < MAXNBUCKETS")
    case False
    then have "\<not> (d_lt (top_threshold q1) (d_of_int (qsize q1)) \<and> nbuckets q1 < MAXNBUCKETS)"
      using top by blast
    then have "calqueue_put p x q = Inr q1"
      using q1(1) by (auto simp: calqueue_put_def put_with_def)
    moreover have "qsize q1 \<le> 2 * nbuckets q1 \<or> nbuckets q1 = MAXNBUCKETS"
      using False nbuckets_pos [OF l(1)] by auto
    moreover have "\<not> (2 * nbuckets q \<le> qsize q \<and> nbuckets q < MAXNBUCKETS)" using False n size by auto
    ultimately show ?thesis using q1 n by (simp add: if_not_P del: de_Morgan_conj)
  next
    case True
    from l(1) obtain k where k: "nbuckets q1 = 2 ^ k" "1 \<le> k" "k \<le> 15" by (auto simp: layout_ok_def)
    with True have "k \<noteq> 15" by (auto simp: MAXNBUCKETS_def)
    with k have "2 * nbuckets q1 = 2 ^ Suc k" "Suc k \<in> {1..15}" by auto
    moreover have "size (contents q1) \<le> nat (2 * (2 * nbuckets q1))"
      using size n(1) assms(6) True nbuckets_pos [OF l(1)] by auto
    moreover have "width_safe q1" using assms(5) [OF q1(1)] True n by simp
    ultimately obtain q2 where "resize resize_depth (2 * nbuckets q1) q1 = Inr q2" "cq_inv q2"
      "contents q2 = contents q1" "resize_enabled q2" "nbuckets q2 = 2 * nbuckets q1" "lastprio q2 = lastprio q1"
      using resize_ok [OF q1(2)] n(2) by blast
    moreover from this have "qsize q2 = qsize q1" using q1(2) by (simp add: cq_inv_def)
    moreover have "calqueue_put p x q = resize resize_depth (2 * nbuckets q1) q1"
      using q1(1) top True by (simp add: calqueue_put_def put_with_def)
    moreover have "qsize q1 \<le> 2 * (2 * nbuckets q1)"
      using size n(1) assms(6) True nbuckets_pos [OF l(1)] by auto
    moreover have "2 * nbuckets q \<le> qsize q \<and> nbuckets q < MAXNBUCKETS" using True n size by auto
    ultimately show ?thesis using q1(3,5) n by simp
  qed
qed

section \<open>Taking an event\<close>

lemma shrink_int:
  assumes "layout_ok q" "0 \<le> m" "m < nbuckets q div 2 - 2"
  shows "\<exists>k\<in>{1..15}. d_to_int 32 (d_div (d_of_int (nbuckets q)) (Fin 2)) = 2 ^ k \<and> nbuckets q = 2 * 2 ^ k"
proof -
  from assms(1) obtain k where k: "nbuckets q = 2 ^ k" "k \<in> {1..15}" by (auto simp: layout_ok_def)
  have "k \<noteq> 1" using assms(2,3) k by auto
  then obtain j where "k = Suc j" "1 \<le> j" using k(2) by (cases k) auto
  with half_int [OF k(2)] k show ?thesis by (intro bexI [of _ j]) auto
qed

lemma calqueue_deq_ok:
  assumes "cq_inv q" "resize_enabled q" "0 < qsize q"
    and "\<And>e q1. deq_node q = Inr (e, q1) \<Longrightarrow> qsize q1 < nbuckets q div 2 - 2 \<Longrightarrow> width_safe q1"
    and "qsize q \<le> 2 * nbuckets q \<or> nbuckets q = MAXNBUCKETS"
  shows "\<exists>e q1 q'. deq_node q = Inr (e, q1) \<and> taken_in_order q e q1 \<and> calqueue_deq q = Inr (Some e, q') \<and>
    cq_inv q' \<and> resize_enabled q' \<and> lastprio q' = priority e \<and>
    (qsize q' \<le> 2 * nbuckets q' \<or> nbuckets q' = MAXNBUCKETS) \<and> contents q = add_mset e (contents q') \<and>
    nbuckets q' = (if qsize q - 1 < nbuckets q div 2 - 2 then nbuckets q div 2 else nbuckets q)"
proof -
  obtain e q1 where q1: "deq_node q = Inr (e, q1)" "cq_inv q1" "contents q = add_mset e (contents q1)"
    "same_calendar q q1" "taken_in_order q e q1" "lastprio q1 = priority e"
    using deq_node_ok [OF assms(1,3)] by blast
  have n: "nbuckets q1 = nbuckets q" "resize_enabled q1" using q1(4) assms(2) by (auto simp: same_calendar_def)
  have size: "qsize q = qsize q1 + 1" "qsize q1 = int (size (contents q1))" "0 \<le> qsize q1" "qsize q \<le> INT_MAX"
    using q1(2,3) assms(1) by (simp_all add: cq_inv_def)
  have l: "layout_ok q1" "bot_threshold q1 = d_of_int (nbuckets q1 div 2 - 2)"
    using q1(2) by (auto simp: cq_inv_def layout_ok_def)
  have bot: "d_lt (d_of_int (qsize q1)) (bot_threshold q1) \<longleftrightarrow> qsize q1 < nbuckets q1 div 2 - 2"
    using l half_bound [OF l(1)] size by (simp add: d_lt_of_int INT_MAX_def)
  show ?thesis
  proof (cases "qsize q1 < nbuckets q1 div 2 - 2")
    case False
    have "calqueue_deq q = Inr (Some e, q1)"
      using assms(3) q1(1) bot False by (simp add: calqueue_deq_def deq_with_def)
    moreover have "\<not> qsize q - 1 < nbuckets q div 2 - 2" using False n size by simp
    ultimately show ?thesis using q1 n size assms(5) by (simp add: if_not_P) auto
  next
    case True
    obtain k where k: "k \<in> {1..15}" "d_to_int 32 (d_div (d_of_int (nbuckets q1)) (Fin 2)) = 2 ^ k"
      "nbuckets q1 = 2 * 2 ^ k" using shrink_int [OF l(1) size(3) True] by blast
    have "size (contents q1) \<le> nat (2 * 2 ^ k)" using size True k(3) by simp
    then obtain q2 where q2: "resize resize_depth (2 ^ k) q1 = Inr q2" "cq_inv q2" "contents q2 = contents q1"
      "resize_enabled q2" "nbuckets q2 = 2 ^ k" "lastprio q2 = lastprio q1"
      using resize_ok [OF q1(2) refl k(1)] n assms(4) [OF q1(1)] True by metis
    have "calqueue_deq q = Inr (Some e, q2)"
      using assms(3) q1(1) bot True k(2) q2(1) by (simp add: calqueue_deq_def deq_with_def)
    moreover have "qsize q2 = qsize q1" using q1(2) q2(2,3) by (simp add: cq_inv_def)
    moreover have "qsize q - 1 < nbuckets q div 2 - 2" "nbuckets q div 2 = 2 ^ k" using True n k(3) size by simp_all
    ultimately show ?thesis using q1 q2 True k(3) size by auto
  qed
qed

lemma calqueue_init_ok:
  "\<exists>q'. calqueue_init q = Inr q' \<and> cq_inv q' \<and> contents q' = {#} \<and> resize_enabled q' \<and> nbuckets q' = 2"
proof -
  obtain q1 where q1: "localinit 0 2 (Fin 1) (Fin 0) q = Inr q1" "cq_inv q1" "contents q1 = {#}" "nbuckets q1 = 2"
    using localinit_ok [of 2 1 0 "Fin 1" "Fin 0" q] by auto
  let ?q = "q1\<lparr>resize_enabled := True\<rparr>"
  have "cq_inv ?q" using q1(2) by (rule cq_inv_cong [rotated 8]) (use q1(2) in \<open>auto simp: cq_inv_def\<close>)
  moreover have "contents ?q = {#}" using q1(3) contents_cong [of ?q q1] by simp
  ultimately show ?thesis using q1 by (simp add: calqueue_init_def)
qed

end
