(* ===== verification/Calqueue_Spec.thy ===== *)
theory Calqueue_Spec
  imports Calqueue_Ops
begin

text \<open>
  What the simulator may rely on, and what it may not. Between calls a queue is \<open>cq_ready\<close>. Puts and
  gets neither lose nor duplicate an event, through any resizing (\<open>put_conserves\<close>,
  \<open>get_conserves\<close>); the walk over the buckets ends. They do not keep the order of time: a direct
  search leaves \<^verbatim>\<open>buckettop\<close> ahead of the clock, and a later event can then be delivered
  before an earlier one (\<open>event_overtaken\<close>, and \<open>inversion\<close> for a run of the queue). A resize that samples such a queue computes a negative bucket
  width, and the next event is put outside the calendar (\<open>negative_width\<close>).
\<close>

section \<open>Safety of a resize\<close>

definition cq_ready :: "calqueue \<Rightarrow> bool" where
  "cq_ready q \<longleftrightarrow> cq_inv q \<and> resize_enabled q \<and> (qsize q \<le> 2 * nbuckets q \<or> nbuckets q = MAXNBUCKETS)"

text \<open>If the operation resizes, the width it computes is not negative.\<close>

definition put_safe :: "double \<Rightarrow> u64 \<Rightarrow> calqueue \<Rightarrow> bool" where
  "put_safe p x q \<longleftrightarrow>
     (case put_node \<lparr>priority = p, payload = x\<rparr> q of
        Inl _ \<Rightarrow> True | Inr q' \<Rightarrow> 2 * nbuckets q < qsize q' \<longrightarrow> width_safe q')"

definition get_safe :: "calqueue \<Rightarrow> bool" where
  "get_safe q \<longleftrightarrow>
     (case deq_node q of Inl _ \<Rightarrow> True | Inr (_, q') \<Rightarrow> qsize q' < nbuckets q div 2 - 2 \<longrightarrow> width_safe q')"

text \<open>A queue with room for one more event does not grow, and one of at most four buckets never
  shrinks.\<close>

lemma put_safe_room:
  assumes "cq_inv q" "nonneg p" "qsize q < 2 * nbuckets q"
  shows "put_safe p x q"
proof -
  have "nbuckets q \<le> MAXNBUCKETS" using assms(1) nbuckets_pos [of q] by (simp add: cq_inv_def)
  then have "qsize q < INT_MAX" using assms(3) by (simp add: MAXNBUCKETS_def INT_MAX_def)
  then obtain q' where q': "put_node \<lparr>priority = p, payload = x\<rparr> q = Inr q'" "cq_inv q'"
    "contents q' = add_mset \<lparr>priority = p, payload = x\<rparr> (contents q)"
    using put_node_ok [OF assms(1), of "\<lparr>priority = p, payload = x\<rparr>"] assms(2) by auto
  then have "qsize q' = qsize q + 1" using assms(1) by (simp add: cq_inv_def)
  with q'(1) assms(3) show ?thesis by (simp add: put_safe_def)
qed

lemma get_safe_small:
  assumes "cq_inv q" "0 < qsize q" "nbuckets q \<le> 4"
  shows "get_safe q"
proof -
  obtain e q' where "deq_node q = Inr (e, q')" "cq_inv q'" using deq_node_ok [OF assms(1,2)] by blast
  then show ?thesis using assms(3) by (auto simp: get_safe_def cq_inv_def)
qed

text \<open>With at most one event left no sample is taken.\<close>

lemma get_safe_few:
  assumes "cq_inv q" "0 < qsize q" "qsize q \<le> 2"
  shows "get_safe q"
proof -
  obtain e q' where "deq_node q = Inr (e, q')" "cq_inv q'" "contents q = add_mset e (contents q')"
    using deq_node_ok [OF assms(1,2)] by blast
  then have "deq_node q = Inr (e, q')" "qsize q' < 2" using assms by (simp_all add: cq_inv_def)
  then show ?thesis by (simp add: get_safe_def width_safe_def new_width_def)
qed

section \<open>Events are conserved\<close>

lemma put_run:
  assumes "cq_ready q" "nonneg p" "qsize q < INT_MAX" "put_safe p x q"
  shows "\<exists>q'. calqueue_put p x q = Inr q' \<and> cq_ready q' \<and> lastprio q' = lastprio q \<and>
    contents q' = add_mset \<lparr>priority = p, payload = x\<rparr> (contents q) \<and>
    nbuckets q' = (if 2 * nbuckets q \<le> qsize q \<and> nbuckets q < MAXNBUCKETS then 2 * nbuckets q else nbuckets q)"
proof -
  have "width_safe q1" if "put_node \<lparr>priority = p, payload = x\<rparr> q = Inr q1" "2 * nbuckets q < qsize q1" for q1
    using assms(4) that by (simp add: put_safe_def)
  with calqueue_put_ok [of q p x] assms(1-3) show ?thesis by (auto simp: cq_ready_def)
qed

text \<open>C28. Given memory for the node, and if the bucket width it computes in case it resizes is not negative
  (\<open>put_safe\<close>), \<open>calqueue_put\<close> on a queue as it is between two calls (\<open>cq_ready\<close>) returns, keeps that
  state, and adds exactly the event it is given; it doubles the calendar just when the events outnumber
  twice the buckets, up to \<open>MAXNBUCKETS\<close>.\<close>

theorem put_conserves:
  assumes "cq_ready q" "nonneg p" "qsize q < INT_MAX" "put_safe p x q"
  shows "\<exists>q'. calqueue_put p x q = Inr q' \<and> cq_ready q' \<and> lastprio q' = lastprio q \<and>
    contents q' = add_mset \<lparr>priority = p, payload = x\<rparr> (contents q) \<and>
    nbuckets q' = (if 2 * nbuckets q \<le> qsize q \<and> nbuckets q < MAXNBUCKETS then 2 * nbuckets q else nbuckets q)"
  by (rule put_run [OF assms])

lemma get_run:
  assumes "cq_ready q" "\<not> calqueue_empty q" "get_safe q"
  shows "\<exists>e q1 q'. calqueue_get q = Inr (payload e, q') \<and> cq_ready q' \<and> contents q = add_mset e (contents q') \<and>
    lastprio q' = priority e \<and> deq_node q = Inr (e, q1) \<and> taken_in_order q e q1 \<and>
    nbuckets q' = (if qsize q - 1 < nbuckets q div 2 - 2 then nbuckets q div 2 else nbuckets q)"
proof -
  have r: "cq_inv q" "resize_enabled q" "qsize q \<le> 2 * nbuckets q \<or> nbuckets q = MAXNBUCKETS"
    using assms(1) by (auto simp: cq_ready_def)
  have "0 < qsize q" using assms(2) r(1) by (simp add: cq_inv_def calqueue_empty_def nonempty_has_size)
  moreover have "width_safe q1" if "deq_node q = Inr (e, q1)" "qsize q1 < nbuckets q div 2 - 2" for e q1
    using assms(3) that by (simp add: get_safe_def)
  ultimately obtain e q1 q' where "deq_node q = Inr (e, q1)" "taken_in_order q e q1" "calqueue_deq q = Inr (Some e, q')"
    "cq_ready q'" "lastprio q' = priority e" "contents q = add_mset e (contents q')"
    "nbuckets q' = (if qsize q - 1 < nbuckets q div 2 - 2 then nbuckets q div 2 else nbuckets q)"
    using calqueue_deq_ok [OF r(1,2) _ _ r(3)] unfolding cq_ready_def by metis
  then show ?thesis by (auto simp: calqueue_get_def)
qed

text \<open>C29. If the bucket width it computes in case it resizes is not negative (\<open>get_safe\<close>), \<open>calqueue_get\<close> on
  a queue that is as it is between two calls (\<open>cq_ready\<close>) and not empty returns, keeps that state, and
  removes exactly the event whose payload it returns. The event is the earliest of its bucket, and the
  earliest of all unless it lies below the bound of the current bucket. The calendar is halved just when
  the events left are fewer than half the buckets less two.\<close>

theorem get_conserves:
  assumes "cq_ready q" "\<not> calqueue_empty q" "get_safe q"
  shows "\<exists>e q1 q'. calqueue_get q = Inr (payload e, q') \<and> cq_ready q' \<and> contents q = add_mset e (contents q') \<and>
    lastprio q' = priority e \<and> deq_node q = Inr (e, q1) \<and> taken_in_order q e q1 \<and>
    nbuckets q' = (if qsize q - 1 < nbuckets q div 2 - 2 then nbuckets q div 2 else nbuckets q)"
  by (rule get_run [OF assms])

lemma get_empty: "qsize q = 0 \<Longrightarrow> calqueue_get q = Inr (0, q)"
  by (simp add: calqueue_get_def calqueue_deq_def deq_with_def)

lemma init_ready: "\<exists>q'. calqueue_init q = Inr q' \<and> cq_ready q' \<and> contents q' = {#} \<and> qsize q' = 0 \<and> nbuckets q' = 2"
  using calqueue_init_ok [of q] by (auto simp: cq_ready_def cq_inv_def)

section \<open>A later event overtakes an earlier one\<close>

text \<open>A put that does not grow the calendar, seen through the chains.\<close>

lemma put_chain:
  assumes "cq_ready q" "nonneg p" "qsize q < 2 * nbuckets q" "bucket_of p q = Inr i"
  shows "\<exists>q'. calqueue_put p x q = Inr q' \<and> cq_ready q' \<and> same_calendar q q' \<and> lastprio q' = lastprio q \<and>
    contents q' = add_mset \<lparr>priority = p, payload = x\<rparr> (contents q) \<and> qsize q' = qsize q + 1 \<and>
    lastbucket q' = lastbucket q \<and> buckettop q' = buckettop q \<and>
    chain q' = (chain q)(i := chain_insert \<lparr>priority = p, payload = x\<rparr> (chain q i))"
proof -
  let ?nd = "\<lparr>priority = p, payload = x\<rparr>"
  have r: "cq_inv q" "resize_enabled q" using assms(1) by (auto simp: cq_ready_def)
  obtain q' where q': "calqueue_put p x q = Inr q'" "cq_inv q'" "same_calendar q q'" "lastprio q' = lastprio q"
    "contents q' = add_mset ?nd (contents q)" "put_node ?nd q = Inr q'"
    using put_room [OF r(1) assms(2,3), of "resize resize_depth" x] by (auto simp: calqueue_put_def)
  have l: "layout_ok q" using r(1) by (simp add: cq_inv_def)
  have i: "0 \<le> i" "i < nbuckets q" using bucket_of_range [OF l assms(2)] assms(4) by auto
  have n: "qsize q < INT_MAX" using assms(3) nbuckets_pos [OF l] by (simp add: MAXNBUCKETS_def INT_MAX_def)
  have e: "q' = (upd i (chain_insert ?nd (chain q i)) q)\<lparr>qsize := qsize q + 1\<rparr>"
    using q'(6) assms(4) calendar_range [OF l i] n
    by (simp add: put_node_def get_chain_ok [OF r(1) i] set_chain_def upd_def)
  then have c: "chain q' = (chain q)(i := chain_insert ?nd (chain q i))"
    by (simp add: fun_eq_iff upd_def chain_def)
  have s: "qsize q' = qsize q + 1" "lastbucket q' = lastbucket q" "buckettop q' = buckettop q"
    by (simp_all add: e upd_def)
  then have "cq_ready q'" using q'(2,3) r(2) assms(3) by (simp add: cq_ready_def same_calendar_def)
  then show ?thesis using q' c s by blast
qed

text \<open>The head of the bucket the last event came from is delivered first when it lies below
  \<^verbatim>\<open>buckettop\<close>.\<close>

lemma deq_current:
  assumes "cq_inv q" "chain q (lastbucket q) = e # es" "d_lt (priority e) (buckettop q)"
  shows "\<exists>q'. deq_node q = Inr (e, q')"
proof -
  have b: "0 \<le> lastbucket q" "lastbucket q < nbuckets q" using assms(1) by (simp_all add: cq_inv_def)
  obtain m where m: "nat (nbuckets q) = Suc m" using b by (cases "nat (nbuckets q)") auto
  have "scan (Suc m) (lastbucket q) q = Inr (Some (lastbucket q), q)"
    using assms(2,3) by (simp add: get_chain_ok [OF assms(1) b])
  with take_first_ok [OF assms(1) b] assms(2) m show ?thesis by (auto simp: deq_node_def)
qed

text \<open>C31. A simulator that never schedules into the past can see time go back. Let \<^verbatim>\<open>buckettop\<close> be ahead of
  the clock \<^verbatim>\<open>lastprio\<close>, as a direct search leaves it. Of two events scheduled at or after the clock, the
  later one \<open>pe\<close> below \<^verbatim>\<open>buckettop\<close> and in the bucket of the last event, which is empty, the earlier one
  \<open>pd\<close> in another bucket, the later one is delivered first and the earlier one is then in the past. (The
  calendar has room for both and is not resized.)\<close>

theorem event_overtaken:
  assumes "cq_ready q" "qsize q + 2 \<le> 2 * nbuckets q" "nbuckets q div 2 - 2 \<le> qsize q + 1"
    and "d_le (lastprio q) pd" "d_lt pd pe" "d_lt pe (buckettop q)" "nonneg pd" "nonneg pe"
    and "bucket_of pe q = Inr (lastbucket q)" "chain q (lastbucket q) = []" "bucket_of pd q = Inr j" "j \<noteq> lastbucket q"
  shows "\<exists>q1 q2 q3. calqueue_put pe x q = Inr q1 \<and> calqueue_put pd y q1 = Inr q2 \<and> calqueue_get q2 = Inr (x, q3) \<and>
    \<lparr>priority = pd, payload = y\<rparr> \<in># contents q3 \<and> d_lt pd (lastprio q3)"
proof -
  let ?e = "\<lparr>priority = pe, payload = x\<rparr>"
  let ?d = "\<lparr>priority = pd, payload = y\<rparr>"
  have "qsize q < 2 * nbuckets q" using assms(2) by simp
  from put_chain [OF assms(1,8) this assms(9), of x] obtain q1 where q1: "calqueue_put pe x q = Inr q1" "cq_ready q1"
    "same_calendar q q1" "contents q1 = add_mset ?e (contents q)" "qsize q1 = qsize q + 1" "lastbucket q1 = lastbucket q"
    "buckettop q1 = buckettop q" "chain q1 = (chain q)(lastbucket q := [?e])" using assms(10) by auto
  have n1: "nbuckets q1 = nbuckets q" "bucket_of pd q1 = Inr j"
    using q1(3) assms(11) by (auto simp: same_calendar_def bucket_of_def)
  have "qsize q1 < 2 * nbuckets q1" using assms(2) q1(5) n1 by simp
  from put_chain [OF q1(2) assms(7) this n1(2), of y] obtain q2 where q2: "calqueue_put pd y q1 = Inr q2" "cq_ready q2"
    "same_calendar q1 q2" "contents q2 = add_mset ?d (contents q1)" "qsize q2 = qsize q1 + 1" "lastbucket q2 = lastbucket q1"
    "buckettop q2 = buckettop q1" "chain q2 = (chain q1)(j := chain_insert ?d (chain q1 j))" by auto
  have i2: "cq_inv q2" using q2(2) by (simp add: cq_ready_def)
  have "chain q2 (lastbucket q2) = [?e]" using q1(6,8) q2(6,8) assms(12) by simp
  from deq_current [OF i2 this] assms(6) q1(7) q2(7) obtain q3 where q3: "deq_node q2 = Inr (?e, q3)" by auto
  have "0 \<le> qsize q" using assms(1) by (simp add: cq_ready_def cq_inv_def)
  then have "0 < qsize q2" using q1(5) q2(5) by simp
  from deq_node_ok [OF i2 this] q3 have "cq_inv q3" "contents q2 = add_mset ?e (contents q3)"
    by auto
  then have "qsize q3 = qsize q2 - 1" using i2 by (simp add: cq_inv_def)
  moreover have "nbuckets q2 = nbuckets q" using n1 q2(3) by (simp add: same_calendar_def)
  ultimately have "get_safe q2" using q3 q1(5) q2(5) assms(3) by (simp add: get_safe_def)
  moreover have "\<not> calqueue_empty q2" using i2 q2(4) by (simp add: calqueue_empty_def cq_inv_def)
  ultimately obtain q4 where q4: "calqueue_get q2 = Inr (x, q4)" "contents q2 = add_mset ?e (contents q4)" "lastprio q4 = pe"
    using get_run [OF q2(2)] q3 by fastforce
  have "?d \<noteq> ?e" using assms(5) by (auto simp: d_lt_def split: double.splits)
  then have "?d \<in># contents q4" using q4(2) q2(4) by (metis insert_noteq_member)
  then show ?thesis using q1(1) q2(1) q4 assms(5) by auto
qed

section \<open>A negative width needs a sample out of order\<close>

definition sample :: "calqueue \<Rightarrow> calqueue_node list" where
  "sample q =
     (case kfold (\<lambda>_. sample_step (resize 0)) [0..nsamples q - 1] (([], Fin 0), q\<lparr>resize_enabled := False\<rparr>) of
        Inl _ \<Rightarrow> [] | Inr st \<Rightarrow> fst (fst st))"

text \<open>A resize is safe when the events it samples come out of the queue in order of time.\<close>

theorem sorted_sample_safe:
  assumes "cq_ready q" "sorted_chain (sample q)"
  shows "width_safe q"
proof -
  obtain w q' where w: "new_width (resize 0) q = Inr (w, q')"
    "\<forall>temp total q1. kfold (\<lambda>_. sample_step (resize 0)) [0..nsamples q - 1] (([], Fin 0), q\<lparr>resize_enabled := False\<rparr>) =
        Inr ((temp, total), q1) \<longrightarrow> sorted_chain temp \<longrightarrow> \<not> d_lt w (Fin 0)"
    using resize.new_width_ok [of q 0] assms(1) by (auto simp: cq_ready_def)
  show ?thesis
  proof (cases "qsize q < 2")
    case True
    then show ?thesis by (simp add: width_safe_def new_width_def)
  next
    case False
    let ?q0 = "q\<lparr>resize_enabled := False\<rparr>"
    have i: "cq_inv q" using assms(1) by (simp add: cq_ready_def)
    have k0: "cq_inv ?q0"
      using i by (rule cq_inv_cong [rotated 8]) (use i in \<open>auto simp: cq_inv_def\<close>)
    have "2 \<le> nsamples q" "nsamples q \<le> qsize q"
      using nsamples_range [of q] False i by (auto simp: cq_inv_def)
    then obtain st where "kfold (\<lambda>_. sample_step (resize 0)) [0..nsamples q - 1] (([], Fin 0), ?q0) = Inr st"
      using resize.sample_ok [of ?q0 "nsamples q" 0] k0 by auto
    with w assms(2) show ?thesis by (cases st; cases "fst st") (auto simp: sample_def width_safe_def)
  qed
qed

section \<open>The walk over the buckets\<close>

lemma scan_more: "scan n i q = Inr r \<Longrightarrow> scan (Suc n) i q = Inr r"
proof (induction n arbitrary: i q)
  case (Suc n)
  let ?i = "if i + 1 = nbuckets q then 0 else i + 1"
  let ?q = "q\<lparr>buckettop := d_add (buckettop q) (cwidth q)\<rparr>"
  obtain ns where ns: "get_chain (calendar q + i) q = Inr ns"
    using Suc.prems by (auto simp: kbind_Inr_iff)
  show ?case
  proof (cases "(ns \<noteq> [] \<and> d_lt (priority (hd ns)) (buckettop q)) \<or> ?i = lastbucket q")
    case True
    then show ?thesis using Suc.prems ns by (auto simp: Let_def split: if_splits)
  next
    case False
    then have step: "scan (Suc m) i q = scan m ?i ?q" for m
      using ns by (auto simp: Let_def)
    have "scan n ?i ?q = Inr r" using Suc.prems step [of n] by metis
    from Suc.IH [OF this] show ?thesis using step [of "Suc n"] by metis
  qed
qed simp

text \<open>C30. The walk of \<open>calqueue_deq\<close> over the buckets is back at its start or at an event after at most
  \<open>nbuckets\<close> steps: more steps change nothing.\<close>

theorem walk_ends:
  assumes "cq_inv q"
  shows "\<exists>r. \<forall>m. scan (nat (nbuckets q) + m) (lastbucket q) q = Inr r"
proof -
  have "to_go (lastbucket q) q \<le> nat (nbuckets q)" by (simp add: to_go_def)
  then obtain r where r: "scan (nat (nbuckets q)) (lastbucket q) q = Inr r"
    using scan_ok [OF assms, of "lastbucket q" "nat (nbuckets q)"] assms by (auto simp: cq_inv_def)
  have "scan (nat (nbuckets q) + m) (lastbucket q) q = Inr r" for m
    by (induction m) (use r scan_more in \<open>auto simp del: scan.simps\<close>)
  then show ?thesis by blast
qed

end
