(* ===== verification/Calqueue_Runs.thy ===== *)
theory Calqueue_Runs
  imports Calqueue_Spec
begin

text \<open>
  Runs of the calendar queue on concrete events, evaluated in the kernel step by step: witnesses for
  the theorems of \<^verbatim>\<open>Calqueue_Spec\<close>, and two runs of a simulator that only ever schedules
  events in the future, in which the queue delivers events out of order, and in which a put touches
  memory outside the calendar.
\<close>

section \<open>Traces\<close>

text \<open>\<open>Some (p, x)\<close> puts the payload \<open>x\<close> at time \<open>p\<close>, \<open>None\<close> gets the next payload.\<close>

fun cq_run :: "(rat \<times> u64) option list \<Rightarrow> u64 list \<Rightarrow> calqueue \<Rightarrow> fault + u64 list" where
  "cq_run [] out q = Inr out"
| "cq_run (Some (p, x) # ops) out q = kbind (calqueue_put (Fin p) x q) (cq_run ops out)"
| "cq_run (None # ops) out q = kbind (calqueue_get q) (\<lambda>(x, q). cq_run ops (out @ [x]) q)"

text \<open>The structure as \<^verbatim>\<open>malloc\<close> hands it out: nothing in it is a usable pointer.\<close>

definition malloced :: calqueue where
  "malloced = \<lparr>calq = (\<lambda>_. None), calendar = 0, firstsub = 0, nbuckets = 0, qsize = 0, lastbucket = 0,
     resize_enabled = False, top_threshold = NaN, bot_threshold = NaN, lastprio = NaN, buckettop = NaN,
     cwidth = NaN\<rparr>"

text \<open>A calendar of two buckets of width 1 at the low end of the array.\<close>

definition two_buckets ::
  "calqueue_node list \<Rightarrow> calqueue_node list \<Rightarrow> int \<Rightarrow> int \<Rightarrow> rat \<Rightarrow> rat \<Rightarrow> bool \<Rightarrow> calqueue" where
  "two_buckets c0 c1 n b p t r = \<lparr>calq = (\<lambda>_. None)(0 := Some c0, 1 := Some c1), calendar = 0, firstsub = 0,
     nbuckets = 2, qsize = n, lastbucket = b, resize_enabled = r, top_threshold = Fin 4,
     bot_threshold = Fin (- 1), lastprio = Fin p, buckettop = Fin t, cwidth = Fin 1\<rparr>"

definition ev :: "rat \<Rightarrow> u64 \<Rightarrow> calqueue_node" where
  "ev p x = \<lparr>priority = Fin p, payload = x\<rparr>"

lemma ev_sel [simp]: "priority (ev p x) = Fin p" "payload (ev p x) = x"
  by (simp_all add: ev_def)

lemma upto_eval: "[0..1::int] = [0, 1]" "[0..3::int] = [0, 1, 2, 3]" "[0..4::int] = [0, 1, 2, 3, 4]"
  by (simp_all add: upto.simps)

lemma floor_fraction: "\<lfloor>numeral a / numeral b :: rat\<rfloor> = numeral a div numeral b"
  by (metis floor_divide_of_int_eq of_int_numeral)

lemmas cq_eval = put_with_def put_node_def bucket_of_def get_chain_def set_chain_def CALQSPACE_def
  INT_MAX_def c_mod_def smod_int_alt_def deq_with_def deq_node_def take_first_def direct_search_def
  search_step_def upto_eval floor_fraction numeral_2_eq_2 d_eval

section \<open>A later event overtakes an earlier one\<close>

lemma init_eval: "calqueue_init malloced = Inr (two_buckets [] [] 0 0 0 (3 / 2) True)"
  by (simp add: calqueue_init_def localinit_def malloced_def two_buckets_def cq_eval fun_upd_twist)

lemma get_1: "calqueue_get (two_buckets [] [ev (13 / 4) x] 1 0 0 (3 / 2) True) =
    Inr (x, two_buckets [] [] 0 1 (13 / 4) (7 / 2) True)"
  and get_2: "calqueue_get (two_buckets [] [ev (15 / 4) x] 1 1 (13 / 4) (7 / 2) True) =
    Inr (x, two_buckets [] [] 0 1 (15 / 4) (11 / 2) True)"
  and get_3: "calqueue_get (two_buckets [ev (17 / 4) x] [ev (21 / 4) y] 2 1 (15 / 4) (11 / 2) True) =
    Inr (y, two_buckets [ev (17 / 4) x] [] 1 1 (21 / 4) (11 / 2) True)"
  and get_4: "calqueue_get (two_buckets [ev (17 / 4) x] [] 1 1 (21 / 4) (11 / 2) True) =
    Inr (x, two_buckets [] [] 0 0 (17 / 4) (13 / 2) True)"
  by (simp_all add: calqueue_get_def calqueue_deq_def two_buckets_def ev_def cq_eval fun_upd_twist)

lemma put_1: "calqueue_put (Fin (13 / 4)) x (two_buckets [] [] 0 0 0 (3 / 2) True) =
    Inr (two_buckets [] [ev (13 / 4) x] 1 0 0 (3 / 2) True)"
  and put_2: "calqueue_put (Fin (15 / 4)) x (two_buckets [] [] 0 1 (13 / 4) (7 / 2) True) =
    Inr (two_buckets [] [ev (15 / 4) x] 1 1 (13 / 4) (7 / 2) True)"
  and put_3: "calqueue_put (Fin (21 / 4)) x (two_buckets [] [] 0 1 (15 / 4) (11 / 2) True) =
    Inr (two_buckets [] [ev (21 / 4) x] 1 1 (15 / 4) (11 / 2) True)"
  and put_4: "calqueue_put (Fin (17 / 4)) x (two_buckets [] [ev (21 / 4) y] 1 1 (15 / 4) (11 / 2) True) =
    Inr (two_buckets [ev (17 / 4) x] [ev (21 / 4) y] 2 1 (15 / 4) (11 / 2) True)"
  and put_5: "calqueue_put (Fin (9 / 2)) z (two_buckets [ev (17 / 4) x] [ev (21 / 4) y] 2 1 (15 / 4) (11 / 2) True) =
    Inr (two_buckets [ev (17 / 4) x, ev (9 / 2) z] [ev (21 / 4) y] 3 1 (15 / 4) (11 / 2) True)"
  and put_6: "calqueue_put (Fin (9 / 2)) w
      (two_buckets [ev (17 / 4) x, ev (9 / 2) z] [ev (21 / 4) y] 3 1 (15 / 4) (11 / 2) True) =
    Inr (two_buckets [ev (17 / 4) x, ev (9 / 2) z, ev (9 / 2) w] [ev (21 / 4) y] 4 1 (15 / 4) (11 / 2) True)"
  by (simp_all add: calqueue_put_def two_buckets_def ev_def cq_eval fun_upd_twist)

text \<open>A simulator that never schedules into the past sees time go back: with events at 3.25 and 3.75
  delivered, the events at 5.25 and 4.25 come out in the order 5.25, 4.25.\<close>

theorem inversion:
  "kbind (calqueue_init malloced)
     (cq_run [Some (13 / 4, 1), None, Some (15 / 4, 2), None, Some (21 / 4, 3), Some (17 / 4, 4), None, None] []) =
   Inr [1, 2, 3, 4]"
  by (simp add: init_eval put_1 get_1 put_2 get_2 put_3 put_4 get_3 get_4)

section \<open>A negative bucket width\<close>

text \<open>The queue just before the fifth event is counted in and the calendar doubles.\<close>

definition inverted :: calqueue where
  "inverted = two_buckets [ev (17 / 4) 4, ev (9 / 2) 5, ev (9 / 2) 6, ev (9 / 2) 7] [ev (21 / 4) 3] 5 1 (15 / 4) (11 / 2) True"

lemma inverted_sel:
  "qsize inverted = 5" "lastbucket inverted = 1" "lastprio inverted = Fin (15 / 4)"
  "buckettop inverted = Fin (11 / 2)" "nsamples inverted = 5" "firstsub inverted = 0"
  "calendar inverted = 0" "nbuckets inverted = 2" "resize_enabled inverted"
  by (simp_all add: inverted_def two_buckets_def nsamples_def)

lemma sample_inverted:
  "kfold (\<lambda>_. sample_step (resize 0)) [0..4] (([], Fin 0), inverted\<lparr>resize_enabled := False\<rparr>) =
   Inr (([ev (21 / 4) 3, ev (17 / 4) 4, ev (9 / 2) 5, ev (9 / 2) 6, ev (9 / 2) 7], Fin (- (3 / 4))),
     two_buckets [] [] 0 0 (9 / 2) (13 / 2) False)"
  by (simp add: inverted_def two_buckets_def sample_step_def ev_def cq_eval fun_upd_twist)

lemma reput_first:
  "put_with (resize 0) (Fin (21 / 4)) x (two_buckets [] [] 0 0 (9 / 2) (13 / 2) False) =
   Inr (two_buckets [] [ev (21 / 4) x] 1 0 (9 / 2) (13 / 2) False)"
  by (simp add: two_buckets_def ev_def cq_eval fun_upd_twist)

lemma reput_others:
  "reinsert (resize 0) (Fin (- (3 / 16))) (ev (21 / 4) 3) [ev (17 / 4) 4, ev (9 / 2) 5, ev (9 / 2) 6, ev (9 / 2) 7]
     (Fin 0, 0) (two_buckets [] [ev (21 / 4) 3] 1 0 (9 / 2) (13 / 2) False) =
   Inr ((Fin (- 1), 1),
     two_buckets [ev (17 / 4) 4, ev (9 / 2) 5, ev (9 / 2) 6, ev (9 / 2) 7] [ev (21 / 4) 3] 5 0 (9 / 2) (13 / 2) False)"
  by (simp add: two_buckets_def ev_def cq_eval fun_upd_twist Let_def)

lemma width_inverted: "new_width (resize 0) inverted = Inr (Fin (- 3), inverted)"
proof -
  have "two_buckets [ev (17 / 4) 4, ev (9 / 2) 5, ev (9 / 2) 6, ev (9 / 2) 7] [ev (21 / 4) 3] 5 0 (9 / 2) (13 / 2) False
      \<lparr>lastbucket := 1, lastprio := Fin (15 / 4), buckettop := Fin (11 / 2), resize_enabled := True\<rparr> = inverted"
    by (simp add: inverted_def two_buckets_def)
  then show ?thesis
    by (simp add: new_width_def sample_inverted reput_first reput_others inverted_sel d_eval Let_def
        del: reinsert.simps)
qed

definition narrowed :: calqueue where
  "narrowed = \<lparr>calq = (\<lambda>_. None)(0 := Some [ev (17 / 4) 4, ev (9 / 2) 5, ev (9 / 2) 6, ev (9 / 2) 7],
       1 := Some [ev (21 / 4) 3], 65532 := Some [], 65533 := Some [], 65534 := Some [], 65535 := Some []),
     calendar = 65532, firstsub = 65532, nbuckets = 4, qsize = 0, lastbucket = - 1, resize_enabled = True,
     top_threshold = Fin 8, bot_threshold = Fin 0, lastprio = Fin (15 / 4), buckettop = Fin (- (3 / 2)),
     cwidth = Fin (- 3)\<rparr>"

lemma localinit_inverted: "localinit 65532 4 (Fin (- 3)) (Fin (15 / 4)) inverted = Inr narrowed"
  by (simp add: inverted_def two_buckets_def localinit_def narrowed_def cq_eval)

lemma copy_narrowed: "copy_chain (resize 0) 1 narrowed = Inl Uninit"
  by (simp add: narrowed_def copy_chain_def ev_def cq_eval)

lemma resize_inverted: "resize resize_depth 4 inverted = Inl Uninit"
  using inverted_sel
  by (simp add: resize_depth_def resize_with_def width_inverted localinit_inverted CALQSPACE_def upto_eval
      copy_narrowed)

lemma put_7: "calqueue_put (Fin (9 / 2)) 7
    (two_buckets [ev (17 / 4) 4, ev (9 / 2) 5, ev (9 / 2) 6] [ev (21 / 4) 3] 4 1 (15 / 4) (11 / 2) True) = Inl Uninit"
proof -
  have "put_node \<lparr>priority = Fin (9 / 2), payload = 7\<rparr>
      (two_buckets [ev (17 / 4) 4, ev (9 / 2) 5, ev (9 / 2) 6] [ev (21 / 4) 3] 4 1 (15 / 4) (11 / 2) True) = Inr inverted"
    by (simp add: inverted_def two_buckets_def ev_def cq_eval fun_upd_twist)
  moreover have "top_threshold inverted = Fin 4" by (simp add: inverted_def two_buckets_def)
  ultimately show ?thesis
    by (simp add: calqueue_put_def put_with_def inverted_sel resize_inverted MAXNBUCKETS_def d_of_int_exact)
qed

text \<open>The fifth pending event makes the calendar double; the sample comes out in the order 5.25, 4.25,
  4.5, 4.5, 4.5, the width computed from it is -3, and the copy reads the slot before the new
  calendar, which was never written.\<close>

theorem negative_width:
  "kbind (calqueue_init malloced)
     (cq_run [Some (13 / 4, 1), None, Some (15 / 4, 2), None, Some (21 / 4, 3), Some (17 / 4, 4), Some (9 / 2, 5),
        Some (9 / 2, 6), Some (9 / 2, 7)] []) = Inl Uninit"
  by (simp add: init_eval put_1 get_1 put_2 get_2 put_3 put_4 put_5 put_6 put_7)

section \<open>Witnesses\<close>

lemma demo_ready:
  "cq_ready (two_buckets [] [] 0 0 0 (3 / 2) True)" "contents (two_buckets [] [] 0 0 0 (3 / 2) True) = {#}"
  using init_ready [of malloced] init_eval by auto

lemma demo_sizes: "qsize (two_buckets c0 c1 n b p t r) = n" "nbuckets (two_buckets c0 c1 n b p t r) = 2"
  by (simp_all add: two_buckets_def)

text \<open>A put that does not grow the calendar, between two queues given in full.\<close>

lemma put_ready:
  assumes "cq_ready q" "calqueue_put (Fin p) x q = Inr q'" "0 \<le> p" "qsize q < 2 * nbuckets q"
    "qsize q' \<le> 2 * nbuckets q'"
  shows "cq_ready q'" "contents q' = add_mset (ev p x) (contents q)"
proof -
  have "cq_inv q" "resize_enabled q" using assms(1) by (auto simp: cq_ready_def)
  then have "cq_inv q' \<and> same_calendar q q' \<and> contents q' = add_mset (ev p x) (contents q)"
    using put_room [of q "Fin p" "resize resize_depth" x] assms by (auto simp: calqueue_put_def ev_def)
  then show "cq_ready q'" "contents q' = add_mset (ev p x) (contents q)"
    using assms(5) \<open>resize_enabled q\<close> by (auto simp: cq_ready_def same_calendar_def)
qed

lemma demo_full:
  "cq_ready (two_buckets [] [ev (13 / 4) 1] 1 0 0 (3 / 2) True)"
  "contents (two_buckets [] [ev (13 / 4) 1] 1 0 0 (3 / 2) True) = {#ev (13 / 4) 1#}"
  using put_ready [OF demo_ready(1) put_1 [of 1]] demo_ready(2) by (simp_all add: demo_sizes)

lemma get_conserves_step:
  assumes "cq_ready q" "calqueue_get q = Inr (x, q')" "\<not> calqueue_empty q" "get_safe q"
  shows "cq_ready q'" "\<exists>e. contents q = add_mset e (contents q')"
  using get_run [OF assms(1,3,4)] assms(2) by auto

lemma demo_two: "cq_ready (two_buckets [ev (17 / 4) 2] [ev (13 / 4) 1] 2 0 0 (3 / 2) True)"
proof -
  have "calqueue_put (Fin (17 / 4)) 2 (two_buckets [] [ev (13 / 4) 1] 1 0 0 (3 / 2) True) =
      Inr (two_buckets [ev (17 / 4) 2] [ev (13 / 4) 1] 2 0 0 (3 / 2) True)"
    by (simp add: calqueue_put_def two_buckets_def ev_def cq_eval fun_upd_twist)
  from put_ready(1) [OF demo_full(1) this] show ?thesis by (simp add: demo_sizes)
qed

text \<open>The queue after the events at 3.25 and 3.75, whose direct searches have left \<^verbatim>\<open>buckettop\<close> at 5.5.\<close>

lemma demo_ahead:
  "cq_ready (two_buckets [] [] 0 1 (15 / 4) (11 / 2) True)"
proof -
  have safe: "get_safe q" "\<not> calqueue_empty q" if "cq_ready q" "contents q = {#e#}" "nbuckets q = 2" for q e
    using that get_safe_small [of q] by (simp_all add: cq_ready_def cq_inv_def calqueue_empty_def)
  have 1: "cq_ready (two_buckets [] [] 0 1 (13 / 4) (7 / 2) True)" "contents (two_buckets [] [] 0 1 (13 / 4) (7 / 2) True) = {#}"
    using get_conserves_step [OF demo_full(1) get_1 [of 1]] safe [OF demo_full] demo_full(2) by (auto simp: demo_sizes)
  have "qsize (two_buckets [] [ev (15 / 4) 1] 1 1 (13 / 4) (7 / 2) True) = 1" by (simp add: demo_sizes)
  note 2 = put_ready [OF 1(1) put_2 [of 1]]
  have "cq_ready (two_buckets [] [ev (15 / 4) 1] 1 1 (13 / 4) (7 / 2) True)"
    "contents (two_buckets [] [ev (15 / 4) 1] 1 1 (13 / 4) (7 / 2) True) = {#ev (15 / 4) 1#}"
    using 2 1(2) by (simp_all add: demo_sizes)
  from get_conserves_step [OF this(1) get_2 [of 1]] safe [OF this] show ?thesis by (simp add: demo_sizes)
qed

theorem event_overtaken_witness:
  "\<exists>q1 q2 q3. calqueue_put (Fin (21 / 4)) 3 (two_buckets [] [] 0 1 (15 / 4) (11 / 2) True) = Inr q1 \<and>
     calqueue_put (Fin (17 / 4)) 4 q1 = Inr q2 \<and> calqueue_get q2 = Inr (3, q3) \<and> ev (17 / 4) 4 \<in># contents q3 \<and>
     d_lt (Fin (17 / 4)) (lastprio q3)"
  unfolding ev_def
  by (rule event_overtaken [OF demo_ahead, where j = 0])
    (simp_all add: two_buckets_def bucket_of_def chain_def c_mod_def smod_int_alt_def floor_fraction d_eval d_le_def)

theorem sorted_sample_safe_witness: "width_safe (two_buckets [ev (17 / 4) 2] [ev (13 / 4) 1] 2 0 0 (3 / 2) True)"
proof (rule sorted_sample_safe [OF demo_two])
  let ?q = "two_buckets [ev (17 / 4) 2] [ev (13 / 4) 1] 2 0 0 (3 / 2) True"
  have "nsamples ?q = 2" by (simp add: nsamples_def demo_sizes)
  moreover have "kfold (\<lambda>_. sample_step (resize 0)) [0..1] (([], Fin 0), ?q\<lparr>resize_enabled := False\<rparr>) =
      Inr (([ev (13 / 4) 1, ev (17 / 4) 2], Fin 1), two_buckets [] [] 0 0 (17 / 4) (9 / 2) False)"
    by (simp add: sample_step_def two_buckets_def ev_def cq_eval fun_upd_twist)
  ultimately show "sorted_chain (sample ?q)" by (simp add: sample_def sorted_chain_def)
qed

theorem walk_ends_witness:
  "\<exists>r. \<forall>m. scan (2 + m) 0 (two_buckets [] [ev (13 / 4) 1] 1 0 0 (3 / 2) True) = Inr r"
proof -
  have "cq_inv (two_buckets [] [ev (13 / 4) 1] 1 0 0 (3 / 2) True)" using demo_full by (simp add: cq_ready_def)
  from walk_ends [OF this] show ?thesis by (simp add: two_buckets_def)
qed

text \<open>Four events in two buckets. The fifth makes the calendar double, and the width is computed from a
  sample that comes out in order.\<close>

definition four_events :: calqueue where
  "four_events = two_buckets [ev (3 / 4) 1, ev (11 / 4) 3] [ev (7 / 4) 2, ev (15 / 4) 4] 4 0 0 (3 / 2) True"

definition five_events :: calqueue where
  "five_events = two_buckets [ev (3 / 4) 1, ev (11 / 4) 3, ev (19 / 4) 5] [ev (7 / 4) 2, ev (15 / 4) 4] 5 0 0 (3 / 2) True"

lemma four_ready: "cq_ready four_events" "size (contents four_events) = 4"
proof -
  have p: "calqueue_put (Fin (3 / 4)) 1 (two_buckets [] [] 0 0 0 (3 / 2) True) =
      Inr (two_buckets [ev (3 / 4) 1] [] 1 0 0 (3 / 2) True)"
    "calqueue_put (Fin (7 / 4)) 2 (two_buckets [ev (3 / 4) 1] [] 1 0 0 (3 / 2) True) =
      Inr (two_buckets [ev (3 / 4) 1] [ev (7 / 4) 2] 2 0 0 (3 / 2) True)"
    "calqueue_put (Fin (11 / 4)) 3 (two_buckets [ev (3 / 4) 1] [ev (7 / 4) 2] 2 0 0 (3 / 2) True) =
      Inr (two_buckets [ev (3 / 4) 1, ev (11 / 4) 3] [ev (7 / 4) 2] 3 0 0 (3 / 2) True)"
    "calqueue_put (Fin (15 / 4)) 4 (two_buckets [ev (3 / 4) 1, ev (11 / 4) 3] [ev (7 / 4) 2] 3 0 0 (3 / 2) True) =
      Inr four_events"
    by (simp_all add: calqueue_put_def four_events_def two_buckets_def ev_def cq_eval fun_upd_twist)
  note 1 = put_ready [OF demo_ready(1) p(1)]
  have 1: "cq_ready (two_buckets [ev (3 / 4) 1] [] 1 0 0 (3 / 2) True)"
    using 1 by (simp add: demo_sizes)
  have 2: "cq_ready (two_buckets [ev (3 / 4) 1] [ev (7 / 4) 2] 2 0 0 (3 / 2) True)"
    using put_ready(1) [OF 1 p(2)] by (simp add: demo_sizes)
  have 3: "cq_ready (two_buckets [ev (3 / 4) 1, ev (11 / 4) 3] [ev (7 / 4) 2] 3 0 0 (3 / 2) True)"
    using put_ready(1) [OF 2 p(3)] by (simp add: demo_sizes)
  show "cq_ready four_events"
    using put_ready(1) [OF 3 p(4)] by (simp add: demo_sizes four_events_def)
  then show "size (contents four_events) = 4"
    by (simp add: cq_ready_def cq_inv_def four_events_def two_buckets_def)
qed

lemma five_put: "put_node \<lparr>priority = Fin (19 / 4), payload = 5\<rparr> four_events = Inr five_events"
  by (simp add: four_events_def five_events_def two_buckets_def ev_def cq_eval fun_upd_twist)

lemma five_sample:
  "\<exists>total q. kfold (\<lambda>_. sample_step (resize 0)) [0..4] (([], Fin 0), five_events\<lparr>resize_enabled := False\<rparr>) =
   Inr (([ev (3 / 4) 1, ev (7 / 4) 2, ev (11 / 4) 3, ev (15 / 4) 4, ev (19 / 4) 5], total), q)"
  by (simp add: five_events_def two_buckets_def sample_step_def ev_def cq_eval fun_upd_twist)

lemma five_safe: "put_safe (Fin (19 / 4)) 5 four_events"
proof -
  have "qsize four_events < INT_MAX" "resize_enabled five_events" "nsamples five_events = 5"
    by (simp_all add: four_events_def five_events_def two_buckets_def nsamples_def INT_MAX_def)
  moreover from this(1) have "cq_inv five_events"
    using put_node_ok [of four_events "\<lparr>priority = Fin (19 / 4), payload = 5\<rparr>"] four_ready(1) five_put
    by (auto simp: cq_ready_def)
  moreover obtain total q where "kfold (\<lambda>_. sample_step (resize 0)) [0..4] (([], Fin 0), five_events\<lparr>resize_enabled := False\<rparr>) =
      Inr (([ev (3 / 4) 1, ev (7 / 4) 2, ev (11 / 4) 3, ev (15 / 4) 4, ev (19 / 4) 5], total), q)"
    using five_sample by blast
  moreover have "sorted_chain [ev (3 / 4) 1, ev (7 / 4) 2, ev (11 / 4) 3, ev (15 / 4) 4, ev (19 / 4) 5]"
    by (simp add: sorted_chain_def d_le_def)
  ultimately have "width_safe five_events"
    using resize.new_width_ok [of five_events 0] by (auto simp: width_safe_def)
  then show ?thesis by (simp add: put_safe_def five_put)
qed

theorem put_conserves_witness:
  "\<exists>q'. calqueue_put (Fin (19 / 4)) 5 four_events = Inr q' \<and> cq_ready q' \<and> nbuckets four_events = 2 \<and> nbuckets q' = 4 \<and>
     ev (19 / 4) 5 \<in># contents q' \<and> size (contents q') = 5"
proof -
  have "qsize four_events = 4" "nbuckets four_events = 2" by (simp_all add: four_events_def two_buckets_def)
  with put_conserves [OF four_ready(1) _ _ five_safe] four_ready(2) show ?thesis
    by (auto simp: INT_MAX_def MAXNBUCKETS_def ev_def)
qed

text \<open>A calendar of eight buckets with two events. It shrinks to four when one of them is taken.\<close>

definition eight_buckets :: "calqueue_node list \<Rightarrow> calqueue_node list \<Rightarrow> int \<Rightarrow> calqueue" where
  "eight_buckets c3 c4 n = \<lparr>calq = (\<lambda>_. None)(0 := Some [], 1 := Some [], 2 := Some [], 3 := Some c3, 4 := Some c4,
       5 := Some [], 6 := Some [], 7 := Some []), calendar = 0, firstsub = 0,
     nbuckets = 8, qsize = n, lastbucket = 0, resize_enabled = True, top_threshold = Fin 16,
     bot_threshold = Fin 2, lastprio = Fin 0, buckettop = Fin (3 / 2), cwidth = Fin 1\<rparr>"

lemma eight_init: "localinit 0 8 (Fin 1) (Fin 0) (malloced\<lparr>resize_enabled := True\<rparr>) = Inr (eight_buckets [] [] 0)"
proof -
  have "[0..7::int] = [0, 1, 2, 3, 4, 5, 6, 7]" by (simp add: upto.simps)
  then show ?thesis by (simp add: localinit_def malloced_def eight_buckets_def cq_eval fun_upd_twist)
qed

lemma eight_ready: "cq_ready (eight_buckets [ev (13 / 4) 1] [ev (17 / 4) 2] 2)"
  "contents (eight_buckets [ev (13 / 4) 1] [ev (17 / 4) 2] 2) = {#ev (13 / 4) 1, ev (17 / 4) 2#}"
proof -
  have "cq_inv (eight_buckets [] [] 0) \<and> contents (eight_buckets [] [] 0) = {#}"
    using localinit_ok [of 8 3 0 "Fin 1" "Fin 0" "malloced\<lparr>resize_enabled := True\<rparr>"] eight_init by auto
  then have 0: "cq_ready (eight_buckets [] [] 0)" "contents (eight_buckets [] [] 0) = {#}"
    by (simp_all add: cq_ready_def eight_buckets_def)
  have p: "calqueue_put (Fin (13 / 4)) 1 (eight_buckets [] [] 0) = Inr (eight_buckets [ev (13 / 4) 1] [] 1)"
    "calqueue_put (Fin (17 / 4)) 2 (eight_buckets [ev (13 / 4) 1] [] 1) = Inr (eight_buckets [ev (13 / 4) 1] [ev (17 / 4) 2] 2)"
    by (simp_all add: calqueue_put_def eight_buckets_def ev_def cq_eval fun_upd_twist)
  have s: "qsize (eight_buckets c3 c4 n) = n" "nbuckets (eight_buckets c3 c4 n) = 8" for c3 c4 n
    by (simp_all add: eight_buckets_def)
  have 1: "cq_ready (eight_buckets [ev (13 / 4) 1] [] 1)" "contents (eight_buckets [ev (13 / 4) 1] [] 1) = {#ev (13 / 4) 1#}"
    using put_ready [OF 0(1) p(1)] 0(2) by (simp_all add: s)
  show "cq_ready (eight_buckets [ev (13 / 4) 1] [ev (17 / 4) 2] 2)"
    "contents (eight_buckets [ev (13 / 4) 1] [ev (17 / 4) 2] 2) = {#ev (13 / 4) 1, ev (17 / 4) 2#}"
    using put_ready [OF 1(1) p(2)] 1(2) by (simp_all add: s add_mset_commute)
qed

theorem get_conserves_witness:
  "\<exists>e q'. calqueue_get (eight_buckets [ev (13 / 4) 1] [ev (17 / 4) 2] 2) = Inr (payload e, q') \<and> cq_ready q' \<and>
     {#ev (13 / 4) 1, ev (17 / 4) 2#} = add_mset e (contents q') \<and> nbuckets q' = 4"
proof -
  let ?q = "eight_buckets [ev (13 / 4) 1] [ev (17 / 4) 2] 2"
  have s: "qsize ?q = 2" "nbuckets ?q = 8" by (simp_all add: eight_buckets_def)
  have "cq_inv ?q" using eight_ready by (simp add: cq_ready_def)
  then have "get_safe ?q" by (intro get_safe_few) (simp_all add: s)
  from get_conserves [OF eight_ready(1) _ this] show ?thesis
    using eight_ready(2) by (auto simp: s calqueue_empty_def)
qed

end
