(* ===== verification/Model_Spec.thy ===== *)
theory Model_Spec
  imports Model_Inv Calqueue_Runs
begin

text \<open>
  The simulation on its calendar queue. \<open>allocation\<close> and \<open>deallocation\<close> hand out and take back the
  channels of a cell as their specification says. With the checked operations of the calendar queue
  for an \<open>event_queue\<close>, a fiber simulates its cell without a fault, an abort or a premature exit for
  as long as no resize of the queue computes a negative bucket width.
\<close>

section \<open>Channels\<close>

definition in_use :: "addr list \<Rightarrow> cell_heap \<Rightarrow> nat set" where
  "in_use as h = (\<lambda>a. unat (id_of h a)) ` set as"

lemma full_bitmap:
  assumes "cell_inv p as h" "length as = 1000" "lps h p = Some lp" "i < 1000"
  shows "bit_at lp i"
proof -
  have l: "inj_on (\<lambda>a. unat (id_of h a)) (set as)" "in_use as h \<subseteq> {..<1000}" "distinct as"
    using assms(1) by (auto simp: cell_inv_def cell_links_def in_use_def inj_on_def dest: unsigned_word_eqI)
  have "card (in_use as h) = 1000" using l(1,3) assms(2) by (simp add: in_use_def card_image distinct_card)
  then have "in_use as h = {..<1000}" using l(2) by (intro card_subset_eq) auto
  then have "i \<in> in_use as h" using assms(4) by simp
  then show ?thesis using assms(1,3,4) by (auto simp: cell_inv_def cell_links_def in_use_def)
qed

text \<open>C36. In a cell with a free channel \<open>allocation\<close> returns the least one and adds a call for it; the
  channels of the other calls stay, and all powers are within the limits of the model (which
  \<open>cell_inv\<close> says). With every channel in use it aborts.\<close>

theorem allocation_least_free:
  assumes "libs_ok env" "cell_inv p as h"
  shows "if length as < 1000
    then \<exists>j h'. allocation env p h = Inr (of_nat j, h') \<and> j < 1000 \<and> j \<notin> in_use as h \<and> {..<j} \<subseteq> in_use as h \<and>
      cell_inv p (next_addr h # as) h' \<and> in_use (next_addr h # as) h' = insert j (in_use as h)
    else allocation env p h = Inl Aborted"
proof (cases "length as < 1000")
  case True
  obtain lp where lp: "lps h p = Some lp" using cell_inv_lp [OF assms(2)] by blast
  obtain j cs h' where a: "allocation env p h = Inr (of_nat j, h')" "j < 1000" "\<not> bit_at lp j" "\<forall>k<j. bit_at lp k"
    "cell_inv p (next_addr h # as) h'" "id_of h' (next_addr h) = of_nat j" "\<forall>a\<in>set as. id_of h' a = id_of h a"
    by (rule allocation_run [OF assms True lp])
  have b: "\<forall>i<1000. bit_at lp i \<longleftrightarrow> i \<in> in_use as h"
    using assms(2) lp by (auto simp: cell_inv_def cell_links_def in_use_def)
  have "unat (of_nat j :: u32) = j" using a(2) by (intro unat_of_nat_32) simp
  moreover have "(\<lambda>b. unat (id_of h' b)) ` set as = (\<lambda>b. unat (id_of h b)) ` set as"
    using a(7) by (intro image_cong) simp_all
  ultimately have "in_use (next_addr h # as) h' = insert j (in_use as h)" using a(6) by (simp add: in_use_def)
  moreover have "j \<notin> in_use as h" "{..<j} \<subseteq> in_use as h" using a(2-4) b by auto
  ultimately show ?thesis using True a(1,2,5) by auto
next
  case False
  obtain lp where lp: "lps h p = Some lp" using cell_inv_lp [OF assms(2)] by blast
  have l: "bitmap_ok lp" "channels_per_cell lp = CHANNELS_PER_CELL" "length as = 1000"
    using assms(2) lp False cell_length [of p as h] by (auto simp: cell_inv_def cell_links_def)
  have "find (\<lambda>j. \<not> bit_at lp j) [0..<1000] = None"
    using full_bitmap [OF assms(2) l(3) lp] by (auto simp: find_None_iff)
  then have "find_free lp (map of_nat [0..<1000]) = Inr None" using find_free_find [OF l(1), of "[0..<1000]"] by simp
  then show ?thesis using False lp l(2) by (simp add: allocation_def CHANNELS_PER_CELL_def)
qed

text \<open>\<open>deallocation\<close> of a channel in use takes the node of its call out of the list, frees it and its
  power data, and clears its bit; the other calls keep their channels. For any other channel it
  aborts.\<close>

theorem deallocation_releases:
  assumes "libs_ok env" "cell_inv p as h"
  shows "if i \<in> id_of h ` set as
    then \<exists>a h'. a \<in> set as \<and> id_of h a = i \<and> deallocation env p i h = Inr h' \<and> cell_inv p (remove1 a as) h' \<and>
      in_use (remove1 a as) h' = in_use as h - {unat i} \<and> chans h' a = None \<and> sirs h' (sd_of h a) = None
    else deallocation env p i h = Inl Aborted"
proof (cases "i \<in> id_of h ` set as")
  case True
  then obtain a where a: "a \<in> set as" "id_of h a = i" by auto
  obtain lp where lp: "lps h p = Some lp" using cell_inv_lp [OF assms(2)] by blast
  obtain cs q h' where d: "deallocation env p (id_of h a) h = Inr h'" "cell_inv p (remove1 a as) h'"
    "\<forall>b\<in>set as. b \<noteq> a \<longrightarrow> id_of h' b = id_of h b" "chans h' a = None" "sirs h' (sd_of h a) = None"
    by (rule deallocation_run [OF assms a(1) lp])
  have l: "distinct as" "inj_on (\<lambda>b. unat (id_of h b)) (set as)"
    using assms(2) by (auto simp: cell_inv_def cell_links_def inj_on_def dest: unsigned_word_eqI)
  have "in_use (remove1 a as) h' = (\<lambda>b. unat (id_of h b)) ` (set as - {a})"
    using d(3) l(1) by (auto simp: in_use_def intro!: image_cong)
  also have "\<dots> = in_use as h - {unat i}"
    using inj_on_image_set_diff [OF l(2), of "set as" "{a}"] a by (simp add: in_use_def)
  finally show ?thesis using True a d by auto
next
  case False
  then show ?thesis using deallocation_absent [of p as h i env] assms(2) by (simp add: cell_inv_def)
qed

section \<open>The calendar queue as an event queue\<close>

definition checked_put :: "double \<Rightarrow> u64 \<Rightarrow> calqueue \<Rightarrow> fault + calqueue" where
  "checked_put p x q = (if put_safe p x q then calqueue_put p x q else Inl BadWidth)"

definition checked_get :: "calqueue \<Rightarrow> fault + u64 \<times> calqueue" where
  "checked_get q = (if get_safe q then calqueue_get q else Inl BadWidth)"

definition cq_held :: "calqueue \<Rightarrow> u64 multiset" where
  "cq_held q = image_mset payload (contents q)"

lemma checked_put_law:
  assumes "cq_ready q" "nonneg p" "size (cq_held q) < 2000"
  shows "follows BadWidth (checked_put p x q) (calqueue_put p x q) (\<lambda>q'. cq_ready q' \<and> cq_held q' = add_mset x (cq_held q))"
proof (cases "put_safe p x q")
  case True
  have "qsize q < INT_MAX" using assms(1,3) by (simp add: cq_ready_def cq_inv_def cq_held_def INT_MAX_def)
  then show ?thesis using put_run [OF assms(1,2) _ True] by (auto simp: checked_put_def True cq_held_def)
qed (simp add: checked_put_def follows_def)

lemma checked_get_law:
  assumes "cq_ready q" "cq_held q \<noteq> {#}"
  shows "follows BadWidth (checked_get q) (calqueue_get q) (\<lambda>(x, q'). cq_ready q' \<and> cq_held q = add_mset x (cq_held q'))"
proof (cases "get_safe q")
  case True
  have "\<not> calqueue_empty q" using assms by (auto simp: cq_ready_def cq_inv_def cq_held_def calqueue_empty_def)
  then obtain e q' where "calqueue_get q = Inr (payload e, q')" "cq_ready q'" "contents q = add_mset e (contents q')"
    using get_run [OF assms(1) _ True] by blast
  then show ?thesis by (simp add: checked_get_def True cq_held_def)
qed (simp add: checked_get_def follows_def)

interpretation cal: event_queue calqueue_put checked_put calqueue_get checked_get BadWidth cq_ready cq_held
  by unfold_locales (rule checked_put_law, assumption+, rule checked_get_law, assumption+)

section \<open>The simulation\<close>

text \<open>The memory a fiber starts with; address 0 is NULL.\<close>

definition fresh_heap :: "rng \<Rightarrow> cell_heap" where
  "fresh_heap g = \<lparr>lps = (\<lambda>_. None), chans = (\<lambda>_. None), sirs = (\<lambda>_. None), msgs = (\<lambda>_. None), next_addr = 1, rng_state = g\<rparr>"

lemma loop_start_ok:
  assumes "libs_ok env"
  obtains s where "loop_start calqueue_init calqueue_put env self (fresh_heap g) q = Inr s" "sim_inv cq_ready cq_held self s"
    "next_addr (heap s) = 2"
proof -
  obtain q1 where q1: "calqueue_init q = Inr q1" "cq_ready q1" "contents q1 = {#}" "qsize q1 = 0" "nbuckets q1 = 2"
    using init_ready [of q] by blast
  have "put_safe (Fin 0) 1 q1" by (rule put_safe_room) (use q1 in \<open>simp_all add: cq_ready_def\<close>)
  moreover have "qsize q1 < INT_MAX" using q1(4) by (simp add: INT_MAX_def)
  ultimately obtain q2 where q2: "calqueue_put (Fin 0) 1 q1 = Inr q2" "cq_ready q2"
    "contents q2 = add_mset \<lparr>priority = Fin 0, payload = 1\<rparr> (contents q1)"
    using put_run [of q1 "Fin 0" 1] q1(2) by auto
  let ?h = "(fresh_heap g)\<lparr>next_addr := 2,
      msgs := [1 \<mapsto> \<lparr>sender = self, receiver = self, msg_type = INIT, timestamp = None, msg_channel = None\<rparr>]\<rparr>"
  have "loop_start calqueue_init calqueue_put env self (fresh_heap g) q = Inr \<lparr>heap = ?h, queue = q2, state_ptr = None\<rparr>"
    using q1(1) q2(1) assms by (simp add: loop_start_def malloc_def libs_ok_def fresh_heap_def)
  moreover have "sim_inv cq_ready cq_held self \<lparr>heap = ?h, queue = q2, state_ptr = None\<rparr>"
    using q2(2,3) q1(3) by (auto simp: sim_inv_def init_ok_def held_as_def cq_held_def fresh_heap_def intro!: exI [of _ 1])
  ultimately show ?thesis using that by simp
qed

text \<open>C37. A fiber that simulates a cell does not fault, abort or end the program: after any number of
  rounds it is in a state that satisfies the invariant, unless a resize of its queue computed a
  negative bucket width (where the checked run stops). It leaves the loop only with
  \<open>COMPLETE_CALLS\<close> completed calls.\<close>

theorem simulation_runs:
  assumes "libs_ok env" "4 * n + 2 \<le> 2 ^ 64"
  shows "\<exists>s. loop_start calqueue_init calqueue_put env self (fresh_heap g) q = Inr s \<and>
    (loop_run n checked_put checked_get env self s = Inl BadWidth \<or>
     (\<exists>stop s'. loop_run n checked_put checked_get env self s = Inr (stop, s') \<and>
        loop_run n calqueue_put calqueue_get env self s = Inr (stop, s') \<and> sim_inv cq_ready cq_held self s' \<and>
        (stop \<longrightarrow> stopped s')))"
proof -
  obtain s where s: "loop_start calqueue_init calqueue_put env self (fresh_heap g) q = Inr s" "sim_inv cq_ready cq_held self s"
    "next_addr (heap s) = 2" by (rule loop_start_ok [OF assms(1)])
  have "next_addr (heap s) + 4 * n \<le> 2 ^ 64" using s(3) assms(2) by simp
  from cal.loop_run_follows [OF assms(1) s(2) this] s(1) show ?thesis by (auto simp: follows_def)
qed

text \<open>The events a fiber has pending: the END_CALL messages in its queue.\<close>

definition pending_ends :: "calqueue cell_fiber \<Rightarrow> u64 multiset" where
  "pending_ends s = {#m \<in># cq_held (queue s). \<exists>x. msgs (heap s) (unat m) = Some x \<and> msg_type x = END_CALL#}"

lemma events_accounted:
  assumes "sim_inv cq_ready cq_held self s" "state_ptr s = Some p" "lps (heap s) p = Some lp" "next_addr (heap s) \<le> 2 ^ 64"
  shows "size (pending_ends s) = card {i. i < 1000 \<and> bit_at lp i} \<and>
    size (pending_ends s) + unat (channel_counter lp) = 1000 \<and>
    arriving_calls lp = complete_calls lp + blocked_on_setup lp + of_nat (size (pending_ends s))"
proof -
  let ?h = "heap s"
  obtain as s0 es where m: "held_as (cq_held (queue s)) (s0 # es)" "cell_events self p as s0 es ?h"
    using assms(1,2) by (auto simp: sim_inv_def)
  have addr: "unat (of_nat k :: u64) = k" if "k \<in> set (s0 # es)" for k
    using event_old(1) [OF m(2) that] assms(4) by (intro of_nat_addr) simp
  have ends: "\<exists>x. msgs ?h k = Some x \<and> msg_type x = END_CALL" if "k \<in> set es" for k
    using m(2) that by (auto simp: cell_events_def end_ok_def list_all2_conv_all_nth in_set_conv_nth)
  have st: "\<not> (\<exists>x. msgs ?h s0 = Some x \<and> msg_type x = END_CALL)"
    using m(2) by (auto simp: cell_events_def start_ok_def START_CALL_def END_CALL_def)
  have "{#k \<in># mset (s0 # es). \<exists>x. msgs ?h (unat (of_nat k :: u64)) = Some x \<and> msg_type x = END_CALL#} =
      {#k \<in># mset (s0 # es). \<exists>x. msgs ?h k = Some x \<and> msg_type x = END_CALL#}"
    by (rule filter_mset_cong [OF refl]) (simp only: set_mset_mset addr)
  then have "pending_ends s = image_mset of_nat {#k \<in># mset (s0 # es). \<exists>x. msgs ?h k = Some x \<and> msg_type x = END_CALL#}"
    using m(1) unfolding pending_ends_def held_as_def by (simp only: filter_mset_image_mset)
  also have "\<dots> = image_mset of_nat (mset es)"
  proof -
    have "{#k \<in># mset es. \<exists>x. msgs ?h k = Some x \<and> msg_type x = END_CALL#} = mset es"
      using ends by (simp add: filter_mset_eq_conv)
    then show ?thesis using st by simp
  qed
  finally have n: "size (pending_ends s) = length as"
    using m(2) by (auto simp: cell_events_def dest: list_all2_lengthD)
  have "{i. i < 1000 \<and> bit_at lp i} = in_use as ?h"
    using m(2) assms(3) by (auto simp: cell_events_def cell_inv_def cell_links_def in_use_def)
  moreover have "card (in_use as ?h) = length as"
  proof -
    have "inj_on (\<lambda>a. unat (id_of ?h a)) (set as)" "distinct as"
      using m(2) by (auto simp: cell_events_def cell_inv_def cell_links_def inj_on_def dest: unsigned_word_eqI)
    then show ?thesis by (simp add: in_use_def card_image distinct_card)
  qed
  ultimately show ?thesis using n m(2) assms(3) by (auto simp: cell_events_def counters_def)
qed

text \<open>C38. Accounting over a run. A fiber that starts on fresh memory and makes \<open>n\<close> rounds of its loop, with
  no resize of its queue computing a negative bucket width: in the cell it has built, the calls in
  progress are the END_CALL events pending in its queue. Their number is the number of bits set in the
  channel table and what the counter of free channels lacks to 1000, and with the completed and the
  blocked calls they make up the calls that have arrived.\<close>

theorem calls_accounted:
  assumes "libs_ok env" "4 * n + 2 \<le> 2 ^ 64"
    and "loop_start calqueue_init calqueue_put env self (fresh_heap g) q = Inr s"
    and "loop_run n checked_put checked_get env self s = Inr (stop, s')"
    and "state_ptr s' = Some p" "lps (heap s') p = Some lp"
  shows "loop_run n calqueue_put calqueue_get env self s = Inr (stop, s') \<and>
    size (pending_ends s') = card {i. i < 1000 \<and> bit_at lp i} \<and>
    size (pending_ends s') + unat (channel_counter lp) = 1000 \<and>
    arriving_calls lp = complete_calls lp + blocked_on_setup lp + of_nat (size (pending_ends s'))"
proof -
  have s: "sim_inv cq_ready cq_held self s" "next_addr (heap s) = 2"
    using loop_start_ok [OF assms(1), of self g q] assms(3) by auto
  have "next_addr (heap s) + 4 * n \<le> 2 ^ 64" using s(2) assms(2) by simp
  from cal.loop_run_follows [OF assms(1) s(1) this] assms(4) s(2)
  have r: "loop_run n calqueue_put calqueue_get env self s = Inr (stop, s')" "sim_inv cq_ready cq_held self s'"
    "next_addr (heap s') \<le> 2 + 4 * n" by (auto simp: follows_def)
  have "next_addr (heap s') \<le> 2 ^ 64" using r(3) assms(2) by simp
  from events_accounted [OF r(2) assms(5,6) this] r(1) show ?thesis by simp
qed

section \<open>Instances\<close>

definition demo_cell :: cell_heap where
  "demo_cell = (fresh_heap \<lparr>master_seed = 0, drawn = 0\<rparr>)\<lparr>next_addr := 3, lps := [1 \<mapsto> new_cell]\<rparr>"

lemma demo_cell_inv: "cell_inv 1 [] demo_cell" "lps demo_cell 1 = Some new_cell" "next_addr demo_cell = 3"
  using new_cell_inv [of "fresh_heap \<lparr>master_seed = 0, drawn = 0\<rparr>" "\<lparr>master_seed = 0, drawn = 0\<rparr>"]
  by (simp_all add: demo_cell_def fresh_heap_def numeral_3_eq_3)

theorem allocation_least_free_witness: "\<exists>h'. allocation sample_libs 1 demo_cell = Inr (0, h') \<and> in_use [3] h' = {0}"
proof -
  have "in_use [] demo_cell = {}" by (simp add: in_use_def)
  then obtain j h' where "allocation sample_libs 1 demo_cell = Inr (of_nat j, h')" "{..<j} \<subseteq> {}" "in_use [3] h' = {j}"
    using allocation_least_free [OF sample_libs_all_ok demo_cell_inv(1)] demo_cell_inv(3) by auto
  moreover from this(2) have "j = 0" by (metis lessThan_iff empty_iff subsetD gr_zeroI)
  ultimately show ?thesis by auto
qed

theorem deallocation_releases_witness:
  "\<exists>h h'. allocation sample_libs 1 demo_cell = Inr (0, h) \<and> deallocation sample_libs 1 0 h = Inr h' \<and>
     chans h 3 \<noteq> None \<and> chans h' 3 = None \<and> deallocation sample_libs 1 1 h = Inl Aborted"
proof -
  obtain j cs h where h: "allocation sample_libs 1 demo_cell = Inr (of_nat j, h)" "j < 1000" "\<forall>k<j. bit_at new_cell k"
    "cell_inv 1 (next_addr demo_cell # []) h" "id_of h (next_addr demo_cell) = of_nat j"
    by (rule allocation_run [OF sample_libs_all_ok demo_cell_inv(1) _ demo_cell_inv(2)]) auto
  have j: "j = 0"
  proof (rule ccontr)
    assume "j \<noteq> 0"
    then have "bit_at new_cell 0" using h(3) by simp
    then show False by (simp add: bit_at_def new_cell_def BITS_def CHANNELS_PER_CELL_def nth_append)
  qed
  have c: "cell_inv 1 [3] h" "id_of h 3 = 0" using h(4,5) j by (simp_all add: demo_cell_inv(3))
  then have "chans h 3 \<noteq> None" using cell_nodes [of 1 "[3]" h 3] by (simp add: cell_inv_def)
  then show ?thesis
    using deallocation_releases [OF sample_libs_all_ok c(1), of 0] deallocation_releases [OF sample_libs_all_ok c(1), of 1] c(2) h(1) j
    by auto
qed

text \<open>The first round, on the queue of two buckets.\<close>

abbreviation (input) first_msg :: "msg_t" where
  "first_msg \<equiv> \<lparr>sender = 1, receiver = 1, msg_type = INIT, timestamp = None, msg_channel = None\<rparr>"

definition demo_fiber :: "calqueue cell_fiber" where
  "demo_fiber = \<lparr>heap = (fresh_heap \<lparr>master_seed = 0, drawn = 0\<rparr>)\<lparr>next_addr := 2, msgs := [1 \<mapsto> first_msg]\<rparr>,
     queue = two_buckets [ev 0 1] [] 1 0 0 (3 / 2) True, state_ptr = None\<rparr>"

lemma demo_queue:
  "calqueue_put (Fin 0) 1 (two_buckets [] [] 0 0 0 (3 / 2) True) = Inr (two_buckets [ev 0 1] [] 1 0 0 (3 / 2) True)"
  "calqueue_get (two_buckets [ev 0 1] [] 1 0 0 (3 / 2) True) = Inr (1, two_buckets [] [] 0 0 0 (3 / 2) True)"
  by (simp_all add: calqueue_put_def calqueue_get_def calqueue_deq_def two_buckets_def ev_def cq_eval fun_upd_twist)

lemma demo_start: "loop_start calqueue_init calqueue_put sample_libs 1 (fresh_heap \<lparr>master_seed = 0, drawn = 0\<rparr>) malloced = Inr demo_fiber"
  by (simp add: loop_start_def init_eval demo_queue malloc_def sample_libs_def fresh_heap_def demo_fiber_def)

lemma demo_round:
  "\<exists>s'. loop_run 1 checked_put checked_get sample_libs 1 demo_fiber = Inr (False, s') \<and> state_ptr s' = Some 2"
proof -
  let ?e = "two_buckets [] [] 0 0 0 (3 / 2) True"
  let ?q = "two_buckets [ev 0 1] [] 1 0 0 (3 / 2) True"
  have e: "cq_ready ?e" "qsize ?e = 0" "nbuckets ?e = 2"
    using init_ready [of malloced] by (auto simp: init_eval two_buckets_def)
  have s: "sim_inv cq_ready cq_held 1 demo_fiber"
    using loop_start_ok [OF sample_libs_all_ok, of 1 "\<lparr>master_seed = 0, drawn = 0\<rparr>" malloced] demo_start by auto
  then have q: "cq_ready ?q" by (simp add: sim_inv_def demo_fiber_def)
  have "get_safe ?q" by (rule get_safe_small) (use q in \<open>simp_all add: cq_ready_def two_buckets_def\<close>)
  then have get: "checked_get ?q = Inr (1, ?e)" by (simp add: checked_get_def demo_queue)
  have put: "\<exists>q'. checked_put t x ?e = Inr q'" if "nonneg t" for t x
  proof -
    have "put_safe t x ?e" by (rule put_safe_room) (use e that in \<open>simp_all add: cq_ready_def\<close>)
    then show ?thesis using put_run [OF e(1) that, of x] e(2) by (auto simp: checked_put_def INT_MAX_def)
  qed
  obtain x g where x: "Random sample_libs \<lparr>master_seed = 0, drawn = 0\<rparr> = (Fin x, g)" "unit_lo \<le> x" "x \<le> unit_hi"
    by (metis Random_range prod.collapse)
  have x01: "0 \<le> x" "x \<le> 1" using x(2,3) by (simp_all add: unit_lo_def unit_hi_def)
  obtain t where t: "d_mul (Fin 20) (Fin x) = Fin t" "0 \<le> t" by (rule d_mul_fin [of 20 x 20]) (use x01 in auto)
  obtain q' where q': "checked_put (Fin t) 4 ?e = Inr q'" using put [of "Fin t" 4] t(2) by auto
  show ?thesis
    using get q' x(1) t(1)
    by (simp add: demo_fiber_def loop_step_def ProcessEvent_def process_init_def schedule_event_def pack_event_def malloc_def
        fresh_heap_def Let_def) (simp add: sample_libs_def INIT_def)
qed

theorem simulation_runs_witness:
  "\<exists>s s'. loop_start calqueue_init calqueue_put sample_libs 1 (fresh_heap \<lparr>master_seed = 0, drawn = 0\<rparr>) malloced = Inr s \<and>
     loop_run 1 calqueue_put calqueue_get sample_libs 1 s = Inr (False, s') \<and> state_ptr s' = Some 2"
  using simulation_runs [OF sample_libs_all_ok, of 1 1 "\<lparr>master_seed = 0, drawn = 0\<rparr>" malloced] demo_round demo_start by auto

theorem calls_accounted_witness:
  "\<exists>s' lp. loop_run 1 calqueue_put calqueue_get sample_libs 1 demo_fiber = Inr (False, s') \<and> state_ptr s' = Some 2 \<and>
     lps (heap s') 2 = Some lp \<and> size (pending_ends s') + unat (channel_counter lp) = 1000 \<and>
     arriving_calls lp = complete_calls lp + blocked_on_setup lp + of_nat (size (pending_ends s'))"
proof -
  obtain s' where s': "loop_run 1 checked_put checked_get sample_libs 1 demo_fiber = Inr (False, s')" "state_ptr s' = Some 2"
    using demo_round by blast
  have i: "sim_inv cq_ready cq_held 1 demo_fiber" "next_addr (heap demo_fiber) = 2"
    using loop_start_ok [OF sample_libs_all_ok, of 1 "\<lparr>master_seed = 0, drawn = 0\<rparr>" malloced] demo_start by (auto simp: demo_fiber_def)
  have "follows BadWidth (loop_step checked_put checked_get sample_libs 1 demo_fiber)
      (loop_step calqueue_put calqueue_get sample_libs 1 demo_fiber) (cal.round_ok 1 demo_fiber)"
    by (rule cal.loop_step_follows [OF sample_libs_all_ok i(1)]) (simp add: i(2))
  then have r: "sim_inv cq_ready cq_held 1 s'"
    using s'(1) i(2) by (auto simp: follows_def cal.round_ok_def split: if_splits)
  then obtain lp where lp: "lps (heap s') 2 = Some lp"
    using s'(2) by (auto simp: sim_inv_def cell_events_def counters_def)
  have "4 * 1 + 2 \<le> (2 :: nat) ^ 64" by simp
  from calls_accounted [OF sample_libs_all_ok this demo_start s'(1,2) lp] s'(2) lp show ?thesis by blast
qed

end
