(* ===== verification/Thread.thy ===== *)
theory Thread
  imports Prelude
begin

text \<open>
  \<^verbatim>\<open>multi_thread/src/thread.c\<close>: \<open>create_threads\<close> starts \<open>n\<close> threads on one helper, which all
  get the same argument object. The helper draws a thread id with a compare-and-swap loop, calls the
  start routine, and frees the argument. A thread is cut into the steps others can observe;
  \<open>helper_reach\<close> are the states all interleavings lead to. Ids are unique. The argument belongs to
  nobody: the first routine that returns frees it, and the next one frees it again.
\<close>

section \<open>State\<close>

datatype hpc =
    Enter
  | Loaded u32    \<comment> \<open>\<^verbatim>\<open>old_counter\<close> is read and \<^verbatim>\<open>tid\<close> set\<close>
  | Counted       \<comment> \<open>the swap succeeded\<close>
  | Running       \<comment> \<open>in the start routine\<close>
  | Returned      \<comment> \<open>the start routine has returned\<close>
  | Finished

record helper_state =
  thread_counter :: u32
  tid_of :: "nat \<Rightarrow> u32"
  hpcs :: "nat \<Rightarrow> hpc"
  arg_live :: bool    \<comment> \<open>the object \<^verbatim>\<open>new_arg\<close>, shared by all threads\<close>

section \<open>The helper\<close>

definition goto_hpc :: "nat \<Rightarrow> hpc \<Rightarrow> helper_state \<Rightarrow> fault + helper_state" where
  "goto_hpc t p s = Inr (s\<lparr>hpcs := (hpcs s)(t := p)\<rparr>)"

definition helper_step :: "nat \<Rightarrow> helper_state \<Rightarrow> fault + helper_state" where
  "helper_step t s =
     (case hpcs s t of
        Enter \<Rightarrow> goto_hpc t (Loaded (thread_counter s)) (s\<lparr>tid_of := (tid_of s)(t := thread_counter s + 1)\<rparr>)
      | Loaded old \<Rightarrow>
          if thread_counter s = old then goto_hpc t Counted (s\<lparr>thread_counter := tid_of s t\<rparr>) else goto_hpc t Enter s
      | Counted \<Rightarrow> if arg_live s then goto_hpc t Running s else Inl UseAfterFree
      | Running \<Rightarrow> Inr s
      | Returned \<Rightarrow> if arg_live s then goto_hpc t Finished (s\<lparr>arg_live := False\<rparr>) else Inl UseAfterFree
      | Finished \<Rightarrow> Inr s)"

definition routine_returns :: "nat \<Rightarrow> helper_state \<Rightarrow> helper_state" where
  "routine_returns t s = (case hpcs s t of Running \<Rightarrow> s\<lparr>hpcs := (hpcs s)(t := Returned)\<rparr> | _ \<Rightarrow> s)"

text \<open>All threads exist from the start, which only adds interleavings: a thread created later is one
  that has not moved yet.\<close>

definition create_threads :: "helper_state" where
  "create_threads = \<lparr>thread_counter = 0, tid_of = (\<lambda>_. 0), hpcs = (\<lambda>_. Enter), arg_live = True\<rparr>"

text \<open>\<open>ret\<close> says whether start routines return.\<close>

inductive helper_reach :: "bool \<Rightarrow> nat \<Rightarrow> helper_state \<Rightarrow> bool" for ret n where
  reach_start: "helper_reach ret n create_threads"
| reach_step: "helper_reach ret n s \<Longrightarrow> t < n \<Longrightarrow> helper_step t s = Inr s' \<Longrightarrow> helper_reach ret n s'"
| reach_return: "helper_reach ret n s \<Longrightarrow> t < n \<Longrightarrow> ret \<Longrightarrow> helper_reach ret n (routine_returns t s)"

section \<open>Thread ids\<close>

definition counted :: "hpc \<Rightarrow> bool" where
  "counted p \<longleftrightarrow> (case p of Enter \<Rightarrow> False | Loaded _ \<Rightarrow> False | _ \<Rightarrow> True)"

lemma counted_simps [simp]: "\<not> counted Enter" "\<not> counted (Loaded x)" "counted Counted" "counted Running"
  "counted Returned" "counted Finished"
  by (simp_all add: counted_def)

definition with_id :: "nat \<Rightarrow> helper_state \<Rightarrow> nat set" where
  "with_id n s = {t. t < n \<and> counted (hpcs s t)}"

definition ids_inv :: "nat \<Rightarrow> helper_state \<Rightarrow> bool" where
  "ids_inv n s \<longleftrightarrow> unat (thread_counter s) = card (with_id n s) \<and>
     bij_betw (\<lambda>t. unat (tid_of s t)) (with_id n s) {1..card (with_id n s)} \<and>
     (\<forall>t old. hpcs s t = Loaded old \<longrightarrow> tid_of s t = old + 1)"

lemma with_id_finite [simp]: "finite (with_id n s)"
  by (simp add: with_id_def)

lemma ids_step:
  assumes inv: "ids_inv n s" and t: "t < n" and n: "n < 2 ^ 32" and s: "helper_step t s = Inr s'"
  shows "ids_inv n s'"
proof -
  have same: "ids_inv n s'" if "with_id n s' = with_id n s" "thread_counter s' = thread_counter s"
    "\<forall>x\<in>with_id n s. tid_of s' x = tid_of s x" "\<forall>x old. hpcs s' x = Loaded old \<longrightarrow> tid_of s' x = old + 1"
  proof -
    have "bij_betw (\<lambda>x. unat (tid_of s' x)) (with_id n s) {1..card (with_id n s)} =
        bij_betw (\<lambda>x. unat (tid_of s x)) (with_id n s) {1..card (with_id n s)}"
      by (rule bij_betw_cong) (use that(3) in simp)
    then show ?thesis using inv that by (simp add: ids_inv_def)
  qed
  show ?thesis
  proof (cases "hpcs s t")
    case Enter
    then show ?thesis using inv s
      by (intro same) (auto simp: helper_step_def goto_hpc_def with_id_def ids_inv_def split: if_splits)
  next
    case (Loaded old)
    show ?thesis
    proof (cases "thread_counter s = old")
      case True
      let ?W = "with_id n s" and ?k = "card (with_id n s)"
      have s': "s' = s\<lparr>thread_counter := old + 1, hpcs := (hpcs s)(t := Counted)\<rparr>"
        using s Loaded True inv by (auto simp: helper_step_def goto_hpc_def ids_inv_def)
      have W: "with_id n s' = insert t ?W" "t \<notin> ?W" using Loaded t by (auto simp: with_id_def s')
      have "?k \<le> card {..<n} - 1"
        using card_mono [of "{..<n} - {t}" ?W] W(2) t by (auto simp: with_id_def subset_iff)
      then have k: "Suc ?k < 2 ^ 32" using n t by simp
      have o: "unat old = ?k" "tid_of s t = old + 1" using inv True Loaded by (auto simp: ids_inv_def)
      then have u: "unat (old + 1) = Suc ?k" using k by (simp add: unat_word_ariths)
      have "bij_betw (\<lambda>x. unat (tid_of s x)) (insert t ?W) (insert (Suc ?k) {1..?k})"
        using notIn_Un_bij_betw [of t ?W "\<lambda>x. unat (tid_of s x)" "{1..?k}"] inv u o(2) W(2) by (simp add: ids_inv_def)
      moreover have "insert (Suc ?k) {1..?k} = {1..Suc ?k}" by auto
      ultimately show ?thesis using inv W u by (auto simp: ids_inv_def s')
    next
      case False
      then show ?thesis using inv s Loaded
        by (intro same) (auto simp: helper_step_def goto_hpc_def with_id_def ids_inv_def split: if_splits)
    qed
  qed (use inv s in \<open>intro same; auto simp: helper_step_def goto_hpc_def with_id_def ids_inv_def split: if_splits\<close>)+
qed

lemma ids_return: "ids_inv n s \<Longrightarrow> ids_inv n (routine_returns t s)"
proof -
  assume "ids_inv n s"
  moreover have "with_id n (routine_returns t s) = with_id n s"
    by (auto simp: with_id_def routine_returns_def split: hpc.split)
  ultimately show ?thesis by (auto simp: ids_inv_def routine_returns_def split: hpc.split)
qed

lemma reach_ids: "helper_reach ret n s \<Longrightarrow> n < 2 ^ 32 \<Longrightarrow> ids_inv n s"
proof (induction rule: helper_reach.induct)
  case reach_start
  show ?case by (simp add: ids_inv_def with_id_def create_threads_def bij_betw_def)
qed (auto intro: ids_step ids_return)

text \<open>C40. Under every interleaving the threads that have left the loop of the helper have different
  thread ids, between 1 and the number of threads.\<close>

theorem thread_ids_unique:
  assumes "helper_reach ret n s" "n < 2 ^ 32" "t < n" "counted (hpcs s t)"
  shows "1 \<le> unat (tid_of s t) \<and> unat (tid_of s t) \<le> n \<and>
    (\<forall>t' < n. counted (hpcs s t') \<longrightarrow> tid_of s t' = tid_of s t \<longrightarrow> t' = t)"
proof -
  have b: "bij_betw (\<lambda>t. unat (tid_of s t)) (with_id n s) {1..card (with_id n s)}"
    using reach_ids [OF assms(1,2)] by (simp add: ids_inv_def)
  have w: "t \<in> with_id n s" using assms(3,4) by (simp add: with_id_def)
  have "card (with_id n s) \<le> card {..<n}" by (rule card_mono) (auto simp: with_id_def)
  then show ?thesis using bij_betwE [OF b] w bij_betw_imp_inj_on [OF b] by (fastforce simp: inj_on_def with_id_def)
qed

section \<open>The shared argument\<close>

text \<open>As long as no routine returns, as in \<^verbatim>\<open>main.c\<close>, no helper faults.\<close>

lemma noreturn_arg_live: "helper_reach ret n s \<Longrightarrow> \<not> ret \<Longrightarrow> arg_live s \<and> (\<forall>t. hpcs s t \<noteq> Returned)"
  by (induction rule: helper_reach.induct)
    (auto simp: create_threads_def helper_step_def goto_hpc_def split: hpc.splits if_splits)

fun helper_run :: "nat list \<Rightarrow> helper_state \<Rightarrow> fault + helper_state" where
  "helper_run [] s = Inr s"
| "helper_run (t # ts) s = kbind (helper_step t s) (helper_run ts)"

lemma reach_run: "helper_run ts s = Inr s' \<Longrightarrow> helper_reach ret n s \<Longrightarrow> \<forall>t\<in>set ts. t < n \<Longrightarrow> helper_reach ret n s'"
  by (induction ts arbitrary: s) (auto simp: kbind_Inr_iff intro: reach_step)

lemmas helper_eval = helper_step_def goto_hpc_def routine_returns_def create_threads_def

section \<open>Progress\<close>

text \<open>How many own steps a thread needs at most to leave the loop: each swap of another thread makes
  it go round once more, and there are only so many others.\<close>

definition steps_left :: "nat \<Rightarrow> nat \<Rightarrow> helper_state \<Rightarrow> nat" where
  "steps_left n t s = (let r = n - Suc (card (with_id n s)) in
     case hpcs s t of Enter \<Rightarrow> 2 + 2 * r | Loaded old \<Rightarrow> (if thread_counter s = old then 1 else 3) + 2 * r | _ \<Rightarrow> 0)"

lemma step_with_id:
  assumes "helper_step u s = Inr s'" "u < n"
  obtains (same) "with_id n s' = with_id n s" "thread_counter s' = thread_counter s"
  | (won) "hpcs s u = Loaded (thread_counter s)" "hpcs s' = (hpcs s)(u := Counted)" "with_id n s' = insert u (with_id n s)"
      "u \<notin> with_id n s"
proof (cases "\<exists>old. hpcs s u = Loaded old \<and> thread_counter s = old")
  case True
  then show thesis using assms by (intro won) (auto simp: helper_step_def goto_hpc_def with_id_def)
next
  case False
  then show thesis using assms
    by (intro same) (auto simp: helper_step_def goto_hpc_def with_id_def split: hpc.splits if_splits)
qed

lemma step_other_hpc: "helper_step u s = Inr s' \<Longrightarrow> t \<noteq> u \<Longrightarrow> hpcs s' t = hpcs s t"
  by (auto simp: helper_step_def goto_hpc_def split: hpc.splits if_splits)

lemma uncounted_card:
  assumes "A \<inter> with_id n s = {}" "A \<subseteq> {..<n}"
  shows "card A + card (with_id n s) \<le> n"
proof -
  have "finite A" using assms(2) finite_subset by blast
  then have "card A + card (with_id n s) = card (A \<union> with_id n s)" using assms(1) by (simp add: card_Un_disjoint)
  also have "\<dots> \<le> card {..<n}" using assms(2) by (intro card_mono) (auto simp: with_id_def)
  finally show ?thesis by simp
qed

lemma step_progress:
  assumes st: "helper_step u s = Inr s'" and u: "u < n" and t: "t < n" and c: "\<not> counted (hpcs s t)"
  shows "if u = t then steps_left n t s' < steps_left n t s else steps_left n t s' \<le> steps_left n t s"
  using st u
proof (cases rule: step_with_id)
  case same
  then show ?thesis
    using st c step_other_hpc [OF st, of t]
    by (auto simp: steps_left_def Let_def helper_step_def goto_hpc_def split: hpc.splits if_splits)
next
  case won
  then have k: "card (with_id n s') = Suc (card (with_id n s))" by simp
  show ?thesis
  proof (cases "u = t")
    case True
    then show ?thesis using won by (simp add: steps_left_def Let_def)
  next
    case False
    have "card {u, t} + card (with_id n s) \<le> n"
      by (rule uncounted_card) (use won(4) c u t in \<open>auto simp: with_id_def\<close>)
    then have "Suc (Suc (card (with_id n s))) \<le> n" using False by simp
    then show ?thesis using c k False won(2) by (auto simp: steps_left_def Let_def split: hpc.splits)
  qed
qed

lemma step_counted: "helper_step u s = Inr s' \<Longrightarrow> counted (hpcs s t) \<Longrightarrow> counted (hpcs s' t)"
  by (auto simp: helper_step_def goto_hpc_def split: hpc.splits if_splits)

lemma run_progress:
  assumes "helper_run ts s = Inr s'" "\<forall>u\<in>set ts. u < n" "t < n"
  shows "counted (hpcs s' t) \<or> \<not> counted (hpcs s t) \<and> steps_left n t s' + count_list ts t \<le> steps_left n t s"
  using assms(1,2)
proof (induction ts arbitrary: s)
  case (Cons u ts)
  obtain s1 where s1: "helper_step u s = Inr s1" "helper_run ts s1 = Inr s'" using Cons.prems(1) by (auto simp: kbind_Inr_iff)
  have IH: "counted (hpcs s' t) \<or> \<not> counted (hpcs s1 t) \<and> steps_left n t s' + count_list ts t \<le> steps_left n t s1"
    by (rule Cons.IH [OF s1(2)]) (use Cons.prems(2) in simp)
  show ?case
  proof (cases "counted (hpcs s t)")
    case True
    then show ?thesis using IH step_counted [OF s1(1)] by blast
  next
    case False
    have "u < n" using Cons.prems(2) by simp
    from step_progress [OF s1(1) this assms(3) False] IH False show ?thesis by (auto split: if_splits)
  qed
qed auto

lemma run_returns:
  assumes "helper_reach False n s" "\<forall>u\<in>set ts. u < n"
  shows "\<exists>s'. helper_run ts s = Inr s'"
  using assms
proof (induction ts arbitrary: s)
  case (Cons u ts)
  have "arg_live s" "hpcs s u \<noteq> Returned" using noreturn_arg_live [OF Cons.prems(1)] by auto
  then have "\<exists>s1. helper_step u s = Inr s1" by (cases "hpcs s u") (auto simp: helper_step_def goto_hpc_def)
  then obtain s1 where s1: "helper_step u s = Inr s1" ..
  have "helper_reach False n s1" by (rule reach_step [OF Cons.prems(1) _ s1]) (use Cons.prems(2) in simp)
  from Cons.IH [OF this] Cons.prems(2) s1 show ?case by simp
qed simp

text \<open>Every thread gets its id: under any schedule of the \<open>n\<close> threads no helper faults, and a thread
  that has made \<open>2 n\<close> steps has left the loop, whatever the others did in between.\<close>

theorem thread_id_obtained:
  assumes "\<forall>u\<in>set ts. u < n" "t < n" "2 * n \<le> count_list ts t"
  shows "\<exists>s. helper_run ts create_threads = Inr s \<and> counted (hpcs s t)"
proof -
  obtain s where s: "helper_run ts create_threads = Inr s" using run_returns [OF reach_start assms(1)] by blast
  have "with_id n create_threads = {}" by (simp add: with_id_def create_threads_def)
  then have i: "steps_left n t create_threads = 2 * n" using assms(2) by (simp add: steps_left_def create_threads_def)
  have "counted (hpcs s t)"
  proof (rule ccontr)
    assume c: "\<not> counted (hpcs s t)"
    then have "steps_left n t s + count_list ts t \<le> 2 * n" using run_progress [OF s assms(1,2)] i by simp
    moreover have "0 < steps_left n t s" using c by (auto simp: steps_left_def Let_def counted_def split: hpc.splits)
    ultimately show False using assms(3) by simp
  qed
  with s show ?thesis by blast
qed

theorem thread_id_obtained_witness:
  "\<exists>s. helper_run [0, 1, 0, 1, 1, 1] create_threads = Inr s \<and> counted (hpcs s 1)"
  using thread_id_obtained [of "[0, 1, 0, 1, 1, 1]" 2 1] by simp

section \<open>Routines that return\<close>

text \<open>With two threads whose start routines return, the argument they share is freed twice; a
  thread that is still about to read its start routine finds it freed as well.\<close>

theorem shared_arg_freed_twice:
  "\<exists>s. helper_reach True 2 s \<and> hpcs s 0 = Finished \<and> hpcs s 1 = Returned \<and> helper_step 1 s = Inl UseAfterFree"
proof -
  obtain s1 where s1: "helper_run [0, 0, 0, 1, 1, 1] create_threads = Inr s1" "hpcs s1 0 = Running" "hpcs s1 1 = Running" "arg_live s1"
    by (simp add: helper_eval)
  have r1: "helper_reach True 2 s1" by (rule reach_run [OF s1(1) reach_start]) simp
  let ?s2 = "routine_returns 1 (routine_returns 0 s1)"
  have r2: "helper_reach True 2 ?s2" by (intro reach_return r1) simp_all
  let ?s3 = "?s2\<lparr>arg_live := False, hpcs := (hpcs ?s2)(0 := Finished)\<rparr>"
  have "helper_step 0 ?s2 = Inr ?s3" using s1 by (simp add: helper_eval)
  then have "helper_reach True 2 ?s3" by (intro reach_step [OF r2]) simp_all
  moreover have "hpcs ?s3 0 = Finished" "hpcs ?s3 1 = Returned" "helper_step 1 ?s3 = Inl UseAfterFree"
    using s1 by (simp_all add: helper_eval)
  ultimately show ?thesis by blast
qed

theorem thread_ids_unique_witness: "\<exists>s. helper_reach False 2 s \<and> tid_of s 0 \<noteq> tid_of s 1"
proof -
  obtain s where s: "helper_run [0, 1, 0, 1, 1, 1] create_threads = Inr s" "counted (hpcs s 0)" "counted (hpcs s 1)"
    by (simp add: helper_eval)
  have r: "helper_reach False 2 s" by (rule reach_run [OF s(1) reach_start]) simp
  have "\<forall>t' < 2. counted (hpcs s t') \<longrightarrow> tid_of s t' = tid_of s 0 \<longrightarrow> t' = 0"
    using thread_ids_unique [OF r _ _ s(2)] by simp
  from this [rule_format, of 1] have "tid_of s 1 \<noteq> tid_of s 0" using s(3) by auto
  then show ?thesis using r by auto
qed

end
