(* ===== verification/Completion.thy ===== *)
theory Completion
  imports Prelude
begin

text \<open>
  The end of \<^verbatim>\<open>main_loop\<close> in \<^verbatim>\<open>multi_thread/src/main.c\<close>: every fiber adds the time it took
  to a total, counts itself out, and gives the processor away for ever, except fiber 1, which waits for
  the count to reach 0 and ends the program. The fibers are cut into the steps others can observe and
  interleave in any way. They have the numbers 1 to \<open>n\<close>, the arguments \<^verbatim>\<open>main\<close> passes.
\<close>

section \<open>Timers\<close>

text \<open>\<^verbatim>\<open>timer_value_milli\<close> of \<^verbatim>\<open>timer.h\<close>: a \<^verbatim>\<open>long\<close> number of milliseconds is cut to an
  \<^verbatim>\<open>int\<close> and another one taken away from it.\<close>

record timeval =
  tv_seconds :: int
  tv_usec :: int

definition millis_of :: "timeval \<Rightarrow> int" where
  "millis_of t = tv_seconds t * 1000 + tv_usec t div 1000"

definition timer_value_milli :: "timeval \<Rightarrow> timeval \<Rightarrow> u32" where
  "timer_value_milli start now =
     (let timedif = word_of_int (millis_of now) :: u32 in word_of_int (sint timedif - millis_of start))"

definition micros_of :: "timeval \<Rightarrow> int" where
  "micros_of t = tv_seconds t * 1000000 + tv_usec t"

text \<open>In spite of the cuts a timer is right to the millisecond for about 24 days, whatever the date:
  it differs from the elapsed time by less than 1000 microseconds.\<close>

theorem timer_value_exact:
  assumes "0 \<le> tv_usec start" "tv_usec start < 1000000" "0 \<le> tv_usec now" "tv_usec now < 1000000"
    and "0 \<le> micros_of now - micros_of start" "micros_of now - micros_of start < (2 ^ 31 - 1) * 1000"
  shows "\<bar>1000 * sint (timer_value_milli start now) - (micros_of now - micros_of start)\<bar> < 1000"
proof -
  let ?d = "millis_of now - millis_of start"
  have s: "word_of_int (sint w) = w" for w :: u32 by (rule trans [OF sym [OF scast_eq] scast_id])
  have t: "timer_value_milli start now = word_of_int ?d" by (simp add: timer_value_milli_def s)
  have r: "1000 * (x div 1000) \<le> x \<and> x < 1000 * (x div 1000) + 1000" for x :: int by presburger
  have d: "\<bar>1000 * ?d - (micros_of now - micros_of start)\<bar> < 1000"
    using r [of "tv_usec now"] r [of "tv_usec start"] unfolding millis_of_def micros_of_def by (simp add: algebra_simps abs_less_iff)
  then have "- 1000 < 1000 * ?d" "1000 * ?d < 1000 * 2 ^ 31" using assms(5,6) by (simp_all add: abs_less_iff)
  then have "0 \<le> ?d" "?d < 2 ^ 31" by simp_all
  note d = d this
  have "sint (timer_value_milli start now) = ?d"
    unfolding t using signed_take_bit_int_eq_self [of 31 ?d] d by (simp add: signed_of_int del: of_int_diff)
  with d(1) show ?thesis by simp
qed

theorem timer_value_exact_witness:
  "\<bar>1000 * sint (timer_value_milli \<lparr>tv_seconds = 1700000000, tv_usec = 999999\<rparr> \<lparr>tv_seconds = 1700000002, tv_usec = 1000\<rparr>) - 1001001\<bar> < 1000"
  using timer_value_exact [of "\<lparr>tv_seconds = 1700000000, tv_usec = 999999\<rparr>" "\<lparr>tv_seconds = 1700000002, tv_usec = 1000\<rparr>"]
  by (simp add: micros_of_def)

section \<open>State and steps\<close>

datatype fiber_phase =
    Working
  | Summed     \<comment> \<open>\<^verbatim>\<open>exec_millis\<close> holds the fiber's time\<close>
  | Counted_out
  | Ended      \<comment> \<open>the program has called \<^verbatim>\<open>exit\<close>\<close>

record completion =
  completed_fibers :: u32
  exec_millis :: u64
  phases :: "nat \<Rightarrow> fiber_phase"
  spent :: "nat \<Rightarrow> u32"    \<comment> \<open>what the fiber's timer showed; not in the code\<close>

definition start_completion :: "nat \<Rightarrow> completion" where
  "start_completion n = \<lparr>completed_fibers = of_nat n, exec_millis = 0, phases = (\<lambda>_. Working), spent = (\<lambda>_. 0)\<rparr>"

text \<open>One step of fiber \<open>i\<close>; \<open>millis\<close> is what its timer shows. A fiber other than 1 that has counted
  itself out only calls \<^verbatim>\<open>schedule\<close>; fiber 1 looks at the count again.\<close>

definition completion_step :: "nat \<Rightarrow> u32 \<Rightarrow> completion \<Rightarrow> completion" where
  "completion_step i millis s =
     (case phases s i of
        Working \<Rightarrow> s\<lparr>exec_millis := exec_millis s + ucast millis, phases := (phases s)(i := Summed),
          spent := (spent s)(i := millis)\<rparr>
      | Summed \<Rightarrow> s\<lparr>completed_fibers := completed_fibers s - 1, phases := (phases s)(i := Counted_out)\<rparr>
      | Counted_out \<Rightarrow>
          if i \<noteq> 1 then s
          else if completed_fibers s > 0 then s
          else s\<lparr>phases := (phases s)(i := Ended)\<rparr>
      | Ended \<Rightarrow> s)"

fun completion_run :: "(nat \<times> u32) list \<Rightarrow> completion \<Rightarrow> completion" where
  "completion_run [] s = s"
| "completion_run ((i, millis) # es) s = completion_run es (completion_step i millis s)"

section \<open>The count\<close>

definition still_in :: "nat \<Rightarrow> completion \<Rightarrow> nat set" where
  "still_in n s = {i \<in> {1..n}. phases s i = Working \<or> phases s i = Summed}"

definition summed :: "nat \<Rightarrow> completion \<Rightarrow> nat set" where
  "summed n s = {i \<in> {1..n}. phases s i \<noteq> Working}"

definition completion_inv :: "nat \<Rightarrow> completion \<Rightarrow> bool" where
  "completion_inv n s \<longleftrightarrow> completed_fibers s = of_nat (card (still_in n s)) \<and>
     exec_millis s = (\<Sum>i\<in>summed n s. ucast (spent s i)) \<and>
     (phases s 1 = Ended \<longrightarrow> still_in n s = {}) \<and> (\<forall>i. i \<noteq> 1 \<longrightarrow> phases s i \<noteq> Ended)"

lemma still_in_card: "finite (still_in n s)" "card (still_in n s) \<le> n"
proof -
  have "still_in n s \<subseteq> {1..n}" by (auto simp: still_in_def)
  then show "finite (still_in n s)" "card (still_in n s) \<le> n"
    using finite_subset card_mono [of "{1..n}" "still_in n s"] by auto
qed

lemma completion_start: "completion_inv n (start_completion n)"
proof -
  have "{i. Suc 0 \<le> i \<and> i \<le> n} = {Suc 0..n}" by auto
  then show ?thesis by (simp add: completion_inv_def start_completion_def still_in_def summed_def)
qed

lemma completion_step_inv:
  assumes inv: "completion_inv n s" and i: "i \<in> {1..n}" and n: "n < 2 ^ 32"
  shows "completion_inv n (completion_step i m s)"
proof (cases "phases s i")
  case Working
  let ?s = "completion_step i m s"
  have s': "?s = s\<lparr>exec_millis := exec_millis s + ucast m, phases := (phases s)(i := Summed), spent := (spent s)(i := m)\<rparr>"
    using Working by (simp add: completion_step_def)
  have st: "still_in n ?s = still_in n s" using Working by (auto simp: still_in_def s')
  have su: "summed n ?s = insert i (summed n s)" "i \<notin> summed n s" using Working i by (auto simp: summed_def s')
  have "finite (summed n s)" by (simp add: summed_def)
  moreover have "(\<Sum>j\<in>summed n s. ucast (spent ?s j) :: u64) = (\<Sum>j\<in>summed n s. ucast (spent s j))"
    by (rule sum.cong) (use su(2) in \<open>auto simp: s'\<close>)
  moreover have "spent ?s i = m" by (simp add: s')
  ultimately have "(\<Sum>j\<in>summed n ?s. ucast (spent ?s j) :: u64) = (\<Sum>j\<in>summed n s. ucast (spent s j)) + ucast m"
    using su(2) unfolding su(1) by simp
  moreover have "exec_millis ?s = exec_millis s + ucast m" "completed_fibers ?s = completed_fibers s" by (simp_all add: s')
  moreover have "phases ?s j = Ended \<longleftrightarrow> phases s j = Ended" for j using Working by (simp add: s')
  ultimately show ?thesis using inv st by (simp add: completion_inv_def)
next
  case Summed
  let ?s = "completion_step i m s"
  have s': "?s = s\<lparr>completed_fibers := completed_fibers s - 1, phases := (phases s)(i := Counted_out)\<rparr>"
    using Summed by (simp add: completion_step_def)
  have st: "still_in n ?s = still_in n s - {i}" "i \<in> still_in n s" using Summed i by (auto simp: still_in_def s')
  have "card (still_in n s) = Suc (card (still_in n ?s))" using st still_in_card(1) by (metis card.remove)
  moreover have "summed n ?s = summed n s" using Summed by (auto simp: summed_def s')
  ultimately show ?thesis using inv Summed st by (auto simp: completion_inv_def s')
next
  case Counted_out
  show ?thesis
  proof (cases "i = 1 \<and> \<not> completed_fibers s > 0")
    case True
    let ?s = "completion_step i m s"
    have s': "?s = s\<lparr>phases := (phases s)(i := Ended)\<rparr>" using Counted_out True by (simp add: completion_step_def)
    have "completed_fibers s = 0" using True by (simp add: word_gt_0)
    then have "card (still_in n s) = 0"
      using inv n still_in_card(2) [of n s] by (simp add: completion_inv_def word_of_nat_eq_0_iff) (metis dvd_imp_le leD le_less_trans not_gr0)
    then have "still_in n s = {}" using still_in_card(1) by simp
    moreover have "still_in n ?s = still_in n s" "summed n ?s = summed n s" using Counted_out by (auto simp: still_in_def summed_def s')
    moreover have "completed_fibers ?s = completed_fibers s" "exec_millis ?s = exec_millis s" "spent ?s = spent s"
      "\<And>j. j \<noteq> 1 \<Longrightarrow> phases ?s j = phases s j" using conjunct1 [OF True] unfolding s' by simp_all
    ultimately show ?thesis using inv by (simp add: completion_inv_def)
  next
    case False
    then have "completion_step i m s = s" using Counted_out by (auto simp: completion_step_def)
    then show ?thesis using inv by simp
  qed
next
  case Ended
  then show ?thesis using inv by (simp add: completion_step_def)
qed

lemma completion_run_inv:
  "completion_inv n s \<Longrightarrow> fst ` set es \<subseteq> {1..n} \<Longrightarrow> n < 2 ^ 32 \<Longrightarrow> completion_inv n (completion_run es s)"
proof (induction es arbitrary: s)
  case (Cons e es)
  then show ?case using completion_step_inv [of n s "fst e" "snd e"] by (cases e) simp
qed simp

text \<open>C13. The program ends with its work done: whatever the interleaving, when fiber 1 leaves the program
  every fiber has finished and counted itself out, and the total is the sum of all their times
  (modulo \<open>2 ^ 64\<close>).\<close>

theorem ends_complete:
  assumes "n < 2 ^ 32" "fst ` set es \<subseteq> {1..n}" "s = completion_run es (start_completion n)" "phases s i = Ended"
  shows "(\<forall>j\<in>{1..n}. phases s j \<in> {Counted_out, Ended}) \<and> exec_millis s = (\<Sum>j = 1..n. ucast (spent s j))"
proof -
  have inv: "completion_inv n s" using completion_run_inv [OF completion_start assms(2,1)] assms(3) by simp
  moreover have "i = 1" by (rule ccontr) (use inv assms(4) in \<open>simp add: completion_inv_def\<close>)
  ultimately have "still_in n s = {}" using assms(4) by (simp add: completion_inv_def)
  then have c: "phases s j \<in> {Counted_out, Ended}" if "j \<in> {1..n}" for j
    using that by (cases "phases s j") (auto simp: still_in_def)
  have "summed n s = {1..n}"
  proof
    show "{1..n} \<subseteq> summed n s" using c by (force simp: summed_def)
  qed (auto simp: summed_def)
  then show ?thesis using inv c by (simp add: completion_inv_def)
qed

definition two_done :: "(nat \<times> u32) list" where
  "two_done = [(1, 30), (2, 40), (2, 0), (1, 0), (1, 0)]"

theorem ends_complete_witness:
  "exec_millis (completion_run two_done (start_completion 2)) = 70 \<and>
    phases (completion_run two_done (start_completion 2)) 2 \<in> {Counted_out, Ended}"
proof -
  let ?s = "completion_run two_done (start_completion 2)"
  have "phases ?s 1 = Ended" "spent ?s 1 = 30" "spent ?s 2 = 40"
    by (simp_all add: two_done_def completion_step_def start_completion_def)
  moreover have "fst ` set two_done \<subseteq> {1..2}" by (simp add: two_done_def)
  moreover have "{1..2::nat} = {1, 2}" by auto
  ultimately show ?thesis using ends_complete [of 2 two_done ?s 1] by simp
qed

end
