(* ===== verification/Jmp.thy ===== *)
theory Jmp
  imports Prelude
begin

text \<open>
  \<^verbatim>\<open>multi_thread/src/jmp.S\<close>: the two routines that save and restore the context of a user-level
  thread, as programs of the x86-64 instructions they are written in. Memory is a map from addresses
  to quadwords, touched at multiples of eight only; the FX state is the 64 quadwords of its image.
  \<open>set_jmp_prog\<close> and \<open>long_jmp_prog\<close> follow the assembly line by line.
\<close>

section \<open>The machine\<close>

datatype reg = RAX | RDX | RCX | RBX | RSP | RBP | RSI | RDI | R8 | R9 | R10 | R11 | R12 | R13 | R14 | R15

text \<open>The status flags, as \<^verbatim>\<open>lahf\<close> and \<^verbatim>\<open>seto\<close> read them.\<close>

record status =
  cf :: bool
  pf :: bool
  af :: bool
  zf :: bool
  sf :: bool
  ovf :: bool

record cpu =
  gpr :: "reg \<Rightarrow> u64"
  rip :: u64
  flags :: status
  fx :: "u64 list"
  mem :: "u64 \<Rightarrow> u64"

datatype instr =
    Push reg
  | Pop reg
  | Mov reg reg          \<comment> \<open>source, destination\<close>
  | Load u64 reg reg     \<comment> \<open>displacement, base, destination\<close>
  | Store reg u64 reg    \<comment> \<open>source, displacement, base\<close>
  | AddMem u64 u64 reg   \<comment> \<open>constant, displacement, base\<close>
  | AddReg u64 reg
  | Xor reg reg
  | AddbAl "8 word"
  | Lahf
  | SetoAl
  | Sahf
  | Fxsave u64 reg
  | Fxrstor u64 reg
  | Ret

section \<open>Registers, memory, flags\<close>

definition set_reg :: "reg \<Rightarrow> u64 \<Rightarrow> cpu \<Rightarrow> cpu" where
  "set_reg r v c = c\<lparr>gpr := (gpr c)(r := v)\<rparr>"

definition load :: "u64 \<Rightarrow> cpu \<Rightarrow> fault + u64" where
  "load a c = (if a AND 7 = 0 then Inr (mem c a) else Inl Misaligned)"

definition store :: "u64 \<Rightarrow> u64 \<Rightarrow> cpu \<Rightarrow> fault + cpu" where
  "store a v c = (if a AND 7 = 0 then Inr (c\<lparr>mem := (mem c)(a := v)\<rparr>) else Inl Misaligned)"

definition get_al :: "u64 \<Rightarrow> 8 word" where "get_al x = ucast x"
definition get_ah :: "u64 \<Rightarrow> 8 word" where "get_ah x = ucast (drop_bit 8 x)"
definition set_al :: "8 word \<Rightarrow> u64 \<Rightarrow> u64" where "set_al v x = push_bit 8 (drop_bit 8 x) OR ucast v"
definition set_ah :: "8 word \<Rightarrow> u64 \<Rightarrow> u64" where
  "set_ah v x = push_bit 16 (drop_bit 16 x) OR push_bit 8 (ucast v) OR take_bit 8 x"

definition parity :: "'a::len word \<Rightarrow> bool" where
  "parity x = even (length (filter (bit x) [0..<8]))"

definition add_flags :: "'a::len word \<Rightarrow> 'a word \<Rightarrow> status" where
  "add_flags x y = \<lparr>cf = (uint x + uint y \<noteq> uint (x + y)), pf = parity (x + y),
     af = (15 < uint (x AND 15) + uint (y AND 15)), zf = (x + y = 0), sf = (sint (x + y) < 0),
     ovf = (sint x + sint y \<noteq> sint (x + y))\<rparr>"

definition logic_flags :: "u64 \<Rightarrow> status" where
  "logic_flags x = \<lparr>cf = False, pf = parity x, af = False, zf = (x = 0), sf = (sint x < 0), ovf = False\<rparr>"

text \<open>The byte \<^verbatim>\<open>lahf\<close> puts in AH: SF, ZF, 0, AF, 0, PF, 1, CF.\<close>

definition ah_image :: "status \<Rightarrow> 8 word" where
  "ah_image f = of_bool (cf f) OR 2 OR push_bit 2 (of_bool (pf f)) OR push_bit 4 (of_bool (af f)) OR
     push_bit 6 (of_bool (zf f)) OR push_bit 7 (of_bool (sf f))"

definition sahf_flags :: "8 word \<Rightarrow> status \<Rightarrow> status" where
  "sahf_flags x f = f\<lparr>cf := bit x 0, pf := bit x 2, af := bit x 4, zf := bit x 6, sf := bit x 7\<rparr>"

text \<open>The 512 bytes at \<open>a\<close> as 64 quadwords.\<close>

definition in_block :: "u64 \<Rightarrow> u64 \<Rightarrow> bool" where
  "in_block a b \<longleftrightarrow> (b - a) AND 7 = 0 \<and> b - a < 512"

definition store_block :: "u64 \<Rightarrow> u64 list \<Rightarrow> (u64 \<Rightarrow> u64) \<Rightarrow> u64 \<Rightarrow> u64" where
  "store_block a xs m b = (if in_block a b then xs ! unat ((b - a) div 8) else m b)"

definition load_block :: "u64 \<Rightarrow> (u64 \<Rightarrow> u64) \<Rightarrow> u64 list" where
  "load_block a m = map (\<lambda>i. m (a + 8 * of_nat i)) [0..<64]"

section \<open>Instructions\<close>

definition push_val :: "u64 \<Rightarrow> cpu \<Rightarrow> fault + cpu" where
  "push_val v c = (let a = gpr c RSP - 8 in store a v (set_reg RSP a c))"

definition pop_val :: "cpu \<Rightarrow> fault + u64 \<times> cpu" where
  "pop_val c = kbind (load (gpr c RSP) c) (\<lambda>v. Inr (v, set_reg RSP (gpr c RSP + 8) c))"

fun exec :: "instr \<Rightarrow> cpu \<Rightarrow> fault + cpu" where
  "exec (Push r) c = push_val (gpr c r) c"
| "exec (Pop r) c = kbind (pop_val c) (\<lambda>(v, c). Inr (set_reg r v c))"
| "exec (Mov src dst) c = Inr (set_reg dst (gpr c src) c)"
| "exec (Load d b dst) c = kbind (load (gpr c b + d) c) (\<lambda>v. Inr (set_reg dst v c))"
| "exec (Store src d b) c = store (gpr c b + d) (gpr c src) c"
| "exec (AddMem k d b) c =
     kbind (load (gpr c b + d) c) (\<lambda>v. store (gpr c b + d) (v + k) (c\<lparr>flags := add_flags v k\<rparr>))"
| "exec (AddReg k r) c = Inr (set_reg r (gpr c r + k) (c\<lparr>flags := add_flags (gpr c r) k\<rparr>))"
| "exec (Xor src dst) c =
     (let v = gpr c src XOR gpr c dst in Inr (set_reg dst v (c\<lparr>flags := logic_flags v\<rparr>)))"
| "exec (AddbAl k) c =
     (let al = get_al (gpr c RAX) in
      Inr (set_reg RAX (set_al (al + k) (gpr c RAX)) (c\<lparr>flags := add_flags al k\<rparr>)))"
| "exec Lahf c = Inr (set_reg RAX (set_ah (ah_image (flags c)) (gpr c RAX)) c)"
| "exec SetoAl c = Inr (set_reg RAX (set_al (of_bool (ovf (flags c))) (gpr c RAX)) c)"
| "exec Sahf c = Inr (c\<lparr>flags := sahf_flags (get_ah (gpr c RAX)) (flags c)\<rparr>)"
| "exec (Fxsave d b) c =
     (let a = gpr c b + d in
      if a AND 15 = 0 then Inr (c\<lparr>mem := store_block a (fx c) (mem c)\<rparr>) else Inl Misaligned)"
| "exec (Fxrstor d b) c =
     (let a = gpr c b + d in
      if a AND 15 = 0 then Inr (c\<lparr>fx := load_block a (mem c)\<rparr>) else Inl Misaligned)"
| "exec Ret c = kbind (pop_val c) (\<lambda>(v, c). Inr (c\<lparr>rip := v\<rparr>))"

fun run :: "instr list \<Rightarrow> cpu \<Rightarrow> fault + cpu" where
  "run [] c = Inr c"
| "run (i # is) c = kbind (exec i c) (run is)"

section \<open>The two routines\<close>

definition set_jmp_prog :: "instr list" where
  "set_jmp_prog =
    [Push RAX, Push R11,
     Lahf, SetoAl, Push RAX,
     Mov RDI RAX,
     Load 16 RSP R11, Store R11 0 RAX,
     Store RDX 8 RAX, Store RCX 16 RAX, Store RBX 24 RAX,
     Store RSP 32 RAX, AddMem 16 32 RAX,
     Store RBP 40 RAX, Store RSI 48 RAX,
     Load 32 RSP R11, Store R11 56 RAX,
     Store R8 64 RAX, Store R9 72 RAX, Store R10 80 RAX,
     Load 8 RSP R11, Store R11 88 RAX,
     Store R12 96 RAX, Store R13 104 RAX, Store R14 112 RAX, Store R15 120 RAX,
     Load 0 RSP RDX, Store RDX 136 RAX,
     Load 24 RSP R11, Store R11 128 RAX,
     Fxsave 144 RAX,
     AddReg 24 RSP,
     Xor RAX RAX,
     Ret]"

definition long_jmp_prog :: "instr list" where
  "long_jmp_prog =
    [Mov RDI RAX,
     Load 128 RAX R10, Load 32 RAX R11, Store R10 8 R11,
     Store RSI 0 R11,
     Load 8 RAX RDX, Load 16 RAX RCX, Load 24 RAX RBX, Load 32 RAX RSP, Load 40 RAX RBP, Load 48 RAX RSI,
     Load 64 RAX R8, Load 72 RAX R9, Load 80 RAX R10, Load 88 RAX R11, Load 96 RAX R12, Load 104 RAX R13,
     Load 112 RAX R14,
     Load 136 RAX RAX, AddbAl 127, Sahf,
     Mov RDI RAX, Load 56 RAX RDI, Load 120 RAX R15,
     Fxrstor 144 RAX,
     Load 32 RAX RSP, Pop RAX,
     Ret]"

text \<open>The macro \<^verbatim>\<open>set_jmp\<close> pushes RDI, loads the argument and calls; \<open>ret\<close> is the address after
  the call. The \<^verbatim>\<open>add $8, %rsp\<close> that follows runs after every return.\<close>

definition set_jmp_call :: "u64 \<Rightarrow> u64 \<Rightarrow> cpu \<Rightarrow> fault + cpu" where
  "set_jmp_call env ret c =
     kbind (exec (Push RDI) c) (\<lambda>c.
     kbind (push_val ret (set_reg RDI env c)) (run set_jmp_prog))"

definition long_jmp_call :: "u64 \<Rightarrow> u64 \<Rightarrow> u64 \<Rightarrow> cpu \<Rightarrow> fault + cpu" where
  "long_jmp_call env v ret c =
     kbind (push_val ret (set_reg RSI v (set_reg RDI env c))) (run long_jmp_prog)"

definition after_jmp :: "cpu \<Rightarrow> fault + cpu" where
  "after_jmp c = exec (AddReg 8 RSP) c"

end
