(* ===== verification/Jmp_Spec.thy ===== *)
theory Jmp_Spec
  imports Jmp
begin

text \<open>
  Saving a context with \<open>set_jmp\<close> and jumping to it later, from any processor state, restores every
  general register, the status flags and the FX state, with the result of the call in RAX. The two
  programs are run symbolically; the context (656 bytes, aligned to 16) must not overlap the five
  quadwords the routine uses below the caller's stack pointer.
\<close>

section \<open>Addresses\<close>

definition apart :: "u64 \<Rightarrow> u64 \<Rightarrow> bool" where
  "apart env b \<longleftrightarrow> env AND 15 = 0 \<and> b AND 7 = 0 \<and> (\<forall>a. \<not> (a - env < 656 \<and> a - b < 40))"

lemma aligned_add:
  assumes "b AND 7 = 0" "k AND 7 = 0" shows "(b + k) AND 7 = (0 :: u64)"
proof -
  have "(b + k) AND mask 3 = ((b AND mask 3) + (k AND mask 3)) AND mask 3"
    by (simp add: mask_eqs)
  with assms show ?thesis by (simp add: mask_eq_exp_minus_1)
qed

lemma aligned16_add:
  assumes "b AND 15 = 0" "k AND 15 = 0" shows "(b + k) AND 15 = (0 :: u64)"
proof -
  have "(b + k) AND mask 4 = ((b AND mask 4) + (k AND mask 4)) AND mask 4"
    by (simp add: mask_eqs)
  with assms show ?thesis by (simp add: mask_eq_exp_minus_1)
qed

lemma aligned16_8: "b AND 15 = 0 \<Longrightarrow> b AND 7 = (0 :: u64)"
proof -
  assume "b AND 15 = 0"
  then have "(b AND 15) AND 7 = 0" by simp
  then show ?thesis by (simp add: and.assoc)
qed

lemma apart_neq:
  assumes "apart env b" "x - env < 656" "y - b < 40"
  shows "(x = y) = False" "(y = x) = False"
  using assms by (auto simp: apart_def)

text \<open>The FX area is the last 512 bytes of the context.\<close>

lemma block_in_ctx: "in_block (env + 144) a \<Longrightarrow> a - env < 656"
proof -
  assume "in_block (env + 144) a"
  then have "unat (a - env - 144) < 512" by (simp add: in_block_def word_less_nat_alt diff_diff_eq)
  moreover have "a - env = (a - env - 144) + 144" by simp
  ultimately show ?thesis by unat_arith
qed

lemma stack_not_block: "apart env b \<Longrightarrow> y - b < 40 \<Longrightarrow> in_block (env + 144) y = False"
  using block_in_ctx [of env y] by (auto simp: apart_def)

lemma in_block_ctx:
  "in_block (env + 144) (env + numeral k) \<longleftrightarrow> (numeral k - 144) AND 7 = (0 :: u64) \<and> numeral k - 144 < (512 :: u64)"
  "in_block (env + 144) env = False"
  by (simp_all add: in_block_def)

lemma store_block_other: "\<not> in_block a b \<Longrightarrow> store_block a xs m b = m b"
  by (simp add: store_block_def)

lemma in_block_index: "i < 64 \<Longrightarrow> in_block a (a + 8 * of_nat i)"
proof -
  assume "i < 64"
  have "push_bit 3 (of_nat i) AND mask 3 = (0 :: u64)"
    by (rule bit_word_eqI) (auto simp: bit_simps)
  then have "(8 * of_nat i) AND 7 = (0 :: u64)"
    by (simp add: push_bit_eq_mult mask_eq_exp_minus_1 mult.commute)
  moreover have "8 * of_nat i < (512 :: u64)"
    using \<open>i < 64\<close> by (simp add: word_less_nat_alt unat_word_ariths unat_of_nat)
  ultimately show ?thesis by (simp add: in_block_def)
qed

lemma load_block_other: "\<not> in_block a b \<Longrightarrow> load_block a (m(b := v)) = load_block a m"
  using in_block_index [of _ a] by (auto simp: load_block_def)

lemma load_store_block: "length xs = 64 \<Longrightarrow> load_block a (store_block a xs m) = xs"
proof (rule nth_equalityI)
  assume l: "length xs = 64"
  then show "length (load_block a (store_block a xs m)) = length xs" by (simp add: load_block_def)
  fix i assume "i < length (load_block a (store_block a xs m))"
  then have i: "i < 64" by (simp add: load_block_def)
  then have "unat (8 * of_nat i :: u64) = 8 * i" by (simp add: unat_word_ariths unat_of_nat)
  then have "unat ((8 * of_nat i :: u64) div 8) = i" by (simp add: unat_div)
  with i show "load_block a (store_block a xs m) ! i = xs ! i"
    by (simp add: load_block_def store_block_def in_block_index)
qed

section \<open>The flags\<close>

definition flags_word :: "cpu \<Rightarrow> u64" where
  "flags_word c = set_al (of_bool (ovf (flags c))) (set_ah (ah_image (flags c)) (gpr c RAX))"

lemma get_al_flags: "get_al (flags_word c) = of_bool (ovf (flags c))"
  by (rule bit_word_eqI) (auto simp: flags_word_def get_al_def set_al_def bit_simps)

lemma get_ah_set_al: "get_ah (set_al v x) = get_ah x"
  by (rule bit_word_eqI) (auto simp: get_ah_def set_al_def bit_simps dest: bit_imp_le_length)

lemma get_ah_set_ah: "get_ah (set_ah v x) = v"
  by (rule bit_word_eqI) (auto simp: get_ah_def set_ah_def bit_simps dest: bit_imp_le_length)

text \<open>Adding 127 to AL sets the overflow flag iff AL was 1; AH gives back the rest.\<close>

lemma flags_back:
  "sahf_flags (get_ah (set_al (get_al (flags_word c) + 127) (flags_word c)))
     (add_flags (get_al (flags_word c)) 127) = flags c"
proof -
  have "ovf (add_flags (of_bool b :: 8 word) 127) = b" for b
    by (cases b) (simp_all add: add_flags_def)
  moreover have "get_ah (set_al v (flags_word c)) = ah_image (flags c)" for v
    by (simp add: get_ah_set_al get_ah_set_ah flags_word_def)
  ultimately show ?thesis
    by (cases "flags c") (simp add: get_al_flags sahf_flags_def ah_image_def bit_simps)
qed

section \<open>Saving and restoring\<close>

text \<open>Where \<^verbatim>\<open>exec_context_t\<close> keeps each register.\<close>

fun slot :: "reg \<Rightarrow> u64" where
  "slot RAX = 0" | "slot RDX = 8" | "slot RCX = 16" | "slot RBX = 24" | "slot RSP = 32" | "slot RBP = 40"
| "slot RSI = 48" | "slot RDI = 56" | "slot R8 = 64" | "slot R9 = 72" | "slot R10 = 80" | "slot R11 = 88"
| "slot R12 = 96" | "slot R13 = 104" | "slot R14 = 112" | "slot R15 = 120"

lemma all_reg:
  "(\<forall>r. P r) \<longleftrightarrow> P RAX \<and> P RDX \<and> P RCX \<and> P RBX \<and> P RSP \<and> P RBP \<and> P RSI \<and> P RDI \<and> P R8 \<and> P R9 \<and>
     P R10 \<and> P R11 \<and> P R12 \<and> P R13 \<and> P R14 \<and> P R15"
  (is "_ \<longleftrightarrow> ?all")
proof (intro iffI allI)
  fix r assume ?all
  then show "P r" by (cases r) simp_all
qed simp

text \<open>The context at \<open>env\<close> holds the state \<open>c\<close> had when it entered the macro.\<close>

definition saved :: "u64 \<Rightarrow> u64 \<Rightarrow> cpu \<Rightarrow> (u64 \<Rightarrow> u64) \<Rightarrow> bool" where
  "saved env ret c m \<longleftrightarrow>
     (\<forall>r. m (env + slot r) = (if r = RSP then gpr c RSP - 24 else gpr c r)) \<and>
     m (env + 128) = ret \<and> m (env + 136) = flags_word c \<and> load_block (env + 144) m = fx c"

lemmas machine = push_val_def pop_val_def load_def store_def set_reg_def Let_def aligned_add aligned16_add
  in_block_ctx store_block_other load_store_block

lemma set_jmp_saves:
  assumes "apart env b" "gpr c RSP = b + 40" "length (fx c) = 64"
  shows "\<exists>c1. set_jmp_call env ret c = Inr c1 \<and> rip c1 = ret \<and> gpr c1 RAX = 0 \<and> gpr c1 RSP = gpr c RSP - 8 \<and>
    saved env ret c (mem c1) \<and> fx c1 = fx c \<and> gpr c1 RBX = gpr c RBX \<and> gpr c1 RBP = gpr c RBP \<and>
    gpr c1 R12 = gpr c R12 \<and> gpr c1 R13 = gpr c R13 \<and> gpr c1 R14 = gpr c R14 \<and> gpr c1 R15 = gpr c R15"
proof -
  have al: "env AND 7 = 0" "b AND 7 = 0" "env AND 15 = 0"
    using assms(1) aligned16_8 by (auto simp: apart_def)
  note neq = apart_neq [OF assms(1)] stack_not_block [OF assms(1)]
  show ?thesis
    using assms(2,3)
    by (simp add: set_jmp_call_def set_jmp_prog_def machine al neq saved_def all_reg flags_word_def)
qed

lemma long_jmp_restores:
  assumes "apart env b" "gpr c RSP = b + 40" "saved env ret c (mem c2)"
    and lk: "(gpr c2 RSP - 8) AND 7 = 0" "\<not> gpr c2 RSP - 8 - env < 656"
  shows "\<exists>c3. long_jmp_call env v link c2 = Inr c3 \<and> rip c3 = ret \<and> gpr c3 RAX = v \<and>
    gpr c3 RSP = gpr c RSP - 8 \<and> (\<forall>r. r \<noteq> RAX \<longrightarrow> r \<noteq> RSP \<longrightarrow> gpr c3 r = gpr c r) \<and>
    flags c3 = flags c \<and> fx c3 = fx c \<and>
    mem c3 = (mem c2)(gpr c2 RSP - 8 := link, gpr c RSP - 16 := ret, gpr c RSP - 24 := v)"
proof -
  have al: "env AND 7 = 0" "b AND 7 = 0" "env AND 15 = 0"
    using assms(1) aligned16_8 by (auto simp: apart_def)
  note neq = apart_neq [OF assms(1)] stack_not_block [OF assms(1)]
  let ?x = "gpr c2 RSP - 8"
  have x: "(a = ?x) = False" "(?x = a) = False" if "a - env < 656" for a using that lk(2) by auto
  have bx: "in_block (env + 144) ?x = False" using lk(2) block_in_ctx by blast
  have s: "\<forall>r. mem c2 (env + slot r) = (if r = RSP then gpr c RSP - 24 else gpr c r)"
    "mem c2 (env + 128) = ret" "mem c2 (env + 136) = flags_word c" "load_block (env + 144) (mem c2) = fx c"
    using assms(3) by (simp_all add: saved_def)
  show ?thesis
    using assms(2) s lk(1) [simplified]
    by (simp add: long_jmp_call_def long_jmp_prog_def machine load_block_other al neq x [simplified] bx [simplified] all_reg flags_back)
qed

lemma saved_cong:
  assumes "\<And>a. a - env < 656 \<Longrightarrow> m' a = m a"
  shows "saved env ret c m' = saved env ret c m"
proof -
  have "env + slot r - env < 656" for r by (cases r) simp_all
  then have "m' (env + slot r) = m (env + slot r)" for r by (intro assms)
  moreover have "m' (env + 128) = m (env + 128)" "m' (env + 136) = m (env + 136)" by (simp_all add: assms)
  moreover have "load_block (env + 144) m' = load_block (env + 144) m"
    by (auto simp: load_block_def intro!: assms block_in_ctx in_block_index)
  ultimately show ?thesis by (simp add: saved_def)
qed

text \<open>C23. A context saved by \<open>set_jmp\<close> and jumped to later, from any processor state that has not
  touched it, continues after the call with every register, the status flags and the FX state of the
  moment it was saved, and with the value passed to \<open>long_jmp\<close> as the result.\<close>

theorem context_jump:
  assumes "apart env b" "gpr c RSP = b + 40" "length (fx c) = 64" "set_jmp_call env ret c = Inr c1"
    and "\<forall>a. a - env < 656 \<longrightarrow> mem c2 a = mem c1 a"
    and "(gpr c2 RSP - 8) AND 7 = 0" "\<not> gpr c2 RSP - 8 - env < 656"
  shows "\<exists>c3. long_jmp_call env v link c2 = Inr c3 \<and> rip c3 = rip c1 \<and> gpr c3 RAX = v \<and>
    gpr c3 RSP = gpr c1 RSP \<and> (\<forall>r. r \<noteq> RAX \<longrightarrow> r \<noteq> RSP \<longrightarrow> gpr c3 r = gpr c r) \<and>
    flags c3 = flags c \<and> fx c3 = fx c"
proof -
  have c1: "rip c1 = ret" "gpr c1 RSP = gpr c RSP - 8" "saved env ret c (mem c1)"
    using set_jmp_saves [OF assms(1-3), of ret] assms(4) by auto
  then have "saved env ret c (mem c2)" using saved_cong [of env "mem c2" "mem c1"] assms(5) by simp
  from long_jmp_restores [OF assms(1,2) this assms(6,7), of v link] show ?thesis
    unfolding c1(1,2) by metis
qed

definition demo_cpu :: cpu where
  "demo_cpu = \<lparr>gpr = (\<lambda>r. if r = RSP then 8192 else 7), rip = 1000,
     flags = \<lparr>cf = True, pf = False, af = False, zf = True, sf = False, ovf = True\<rparr>,
     fx = replicate 64 3, mem = (\<lambda>_. 0)\<rparr>"

theorem context_jump_witness:
  "\<exists>c1 c3. set_jmp_call 4096 1234 demo_cpu = Inr c1 \<and>
     long_jmp_call 4096 1 5678 (c1\<lparr>gpr := (gpr c1)(RSP := 12288, RBX := 0), fx := []\<rparr>) = Inr c3 \<and>
     rip c3 = 1234 \<and> gpr c3 RAX = 1 \<and> gpr c3 RBX = 7 \<and> gpr c3 RSP = 8184 \<and> ovf (flags c3) \<and> fx c3 = replicate 64 3"
proof -
  have "\<not> (a - 4096 < 656 \<and> a - 8152 < 40)" for a :: u64
  proof -
    have "a - 4096 = (a - 8152) + 4056" by simp
    moreover have "\<not> (x < 40 \<and> x + 4056 < 656)" for x :: u64
      by (auto simp: word_less_nat_alt unat_word_ariths)
    ultimately show ?thesis by metis
  qed
  then have a: "apart 4096 8152" by (simp add: apart_def)
  have d: "gpr demo_cpu RSP = 8152 + 40" "length (fx demo_cpu) = 64" by (simp_all add: demo_cpu_def)
  obtain c1 where c1: "set_jmp_call 4096 1234 demo_cpu = Inr c1" "rip c1 = 1234" "gpr c1 RSP = gpr demo_cpu RSP - 8"
    using set_jmp_saves [OF a d] by blast
  let ?c2 = "c1\<lparr>gpr := (gpr c1)(RSP := 12288, RBX := 0), fx := []\<rparr>"
  have "\<exists>c3. long_jmp_call 4096 1 5678 ?c2 = Inr c3 \<and> rip c3 = rip c1 \<and> gpr c3 RAX = 1 \<and> gpr c3 RSP = gpr c1 RSP \<and>
    (\<forall>r. r \<noteq> RAX \<longrightarrow> r \<noteq> RSP \<longrightarrow> gpr c3 r = gpr demo_cpu r) \<and> flags c3 = flags demo_cpu \<and> fx c3 = fx demo_cpu"
    by (rule context_jump [OF a d c1(1)]) simp_all
  with c1 show ?thesis by (auto simp: demo_cpu_def)
qed

end
