(* ===== verification/Ult.thy ===== *)
theory Ult
  imports Prelude
begin

text \<open>
  The user-level threads of \<^verbatim>\<open>multi_thread/src/ult.c\<close>, the library behind the fiber interface
  when the program is built with \<^verbatim>\<open>USERSPACE\<close>. Threads run in parallel, so the code is cut into
  the steps other threads can observe: the atomic operations on the lock \<^verbatim>\<open>running\<close>, the saving
  of a context by \<open>set_jmp\<close> and the jump to one by \<open>long_jmp\<close> (both programs are in \<^verbatim>\<open>Jmp\<close>, and
  \<^verbatim>\<open>Jmp_Spec\<close> shows that they capture and restore the registers). \<open>'r\<close> is the register state a
  context holds, RAX apart; a context also fixes the stack it was saved on and the call of
  \<open>set_jmp\<close> it returns from. That call returns the low half of the saved RAX once more, and the macros
  take the branch of the first return again when it is zero. What RAX is when a context is saved is up
  to the compiler: the action \<open>Rax\<close> sets it between any two steps. \<open>ult_step\<close> is what one thread
  does next.
\<close>

section \<open>State\<close>

type_synonym tid = nat
type_synonym stack = nat

text \<open>The calls of \<open>set_jmp\<close>, with the local variables the code around them goes on to use.\<close>

datatype frame =
    AtConvert addr          \<comment> \<open>\<^verbatim>\<open>ult_convert\<close>, the result is not looked at\<close>
  | AtTrampoline            \<comment> \<open>\<^verbatim>\<open>context_create_trampoline\<close>\<close>
  | AtSwitch addr addr      \<comment> \<open>\<^verbatim>\<open>context_switch(from, to)\<close> in \<^verbatim>\<open>ult_switch_to\<close>\<close>
  | AtCreate addr           \<comment> \<open>\<^verbatim>\<open>context_switch_create(current, context)\<close>\<close>
  | AtBoot                  \<comment> \<open>\<^verbatim>\<open>context_switch(context_creat, current)\<close>, on thread-local variables\<close>

record 'r exec_context =
  ctx_regs :: 'r
  ctx_rax :: u64
  ctx_stack :: stack
  ctx_frame :: frame

record 'r ult =
  ult_running :: bool
  ult_context :: "'r exec_context"
  ult_no :: u32                        \<comment> \<open>\<^verbatim>\<open>id\<close>\<close>
  ult_start :: "(u64 \<times> u64) option"    \<comment> \<open>\<^verbatim>\<open>context_start_func\<close>, \<^verbatim>\<open>context_start_arg\<close> in its first frame\<close>

text \<open>Where a thread is. The fibers it works on are local variables or thread-locals of the code.\<close>

datatype pc =
    Run                     \<comment> \<open>user code\<close>
  | Locked addr addr        \<comment> \<open>\<^verbatim>\<open>ult_switch_to\<close>: the target is locked\<close>
  | Chosen addr addr        \<comment> \<open>\<^verbatim>\<open>current = to\<close>\<close>
  | Saved addr addr         \<comment> \<open>\<^verbatim>\<open>set_jmp\<close> returned 0\<close>
  | Released addr addr      \<comment> \<open>the old fiber is unlocked, the jump is next\<close>
  | Prepared addr           \<comment> \<open>\<^verbatim>\<open>context_create\<close>: the trampoline has saved the new context\<close>
  | NewLocked addr
  | NewSaved addr           \<comment> \<open>the context of the creator is saved\<close>
  | NewReleased addr        \<comment> \<open>the creator is unlocked, the jump to the trampoline is next\<close>
  | Boot addr               \<comment> \<open>\<^verbatim>\<open>context_create_boot\<close>: waits for the creator's lock\<close>
  | BootLocked addr
  | BootSaved addr
  | BootReleased addr

record 'r ult_state =
  ults :: "addr \<Rightarrow> 'r ult option"
  ult_id :: u32
  current :: "tid \<Rightarrow> addr option"
  creat_func :: "tid \<Rightarrow> u64"
  creat_arg :: "tid \<Rightarrow> u64"
  creat_ctx :: "tid \<Rightarrow> addr option"    \<comment> \<open>\<^verbatim>\<open>context_creat\<close>\<close>
  pcs :: "tid \<Rightarrow> pc"
  live :: "tid \<Rightarrow> 'r"
  rax :: "tid \<Rightarrow> u64"
  stk :: "tid \<Rightarrow> stack"

section \<open>The lock\<close>

definition ult_modify :: "addr \<Rightarrow> ('r ult \<Rightarrow> 'r ult) \<Rightarrow> 'r ult_state \<Rightarrow> fault + 'r ult_state" where
  "ult_modify a f s = kbind (deref (ults s) a) (\<lambda>u. Inr (s\<lparr>ults := (ults s)(a := Some (f u))\<rparr>))"

text \<open>One \<^verbatim>\<open>__atomic_test_and_set\<close>: whether it took the lock.\<close>

definition ult_trylock :: "addr \<Rightarrow> 'r ult_state \<Rightarrow> fault + bool \<times> 'r ult_state" where
  "ult_trylock a s =
     kbind (deref (ults s) a) (\<lambda>u.
     Inr (\<not> ult_running u, s\<lparr>ults := (ults s)(a := Some (u\<lparr>ult_running := True\<rparr>))\<rparr>))"

definition ult_unlock :: "addr \<Rightarrow> 'r ult_state \<Rightarrow> fault + 'r ult_state" where
  "ult_unlock a s = ult_modify a (\<lambda>u. u\<lparr>ult_running := False\<rparr>) s"

text \<open>One round of the spin loop: with the lock free the thread goes on at \<open>next\<close>, else it stays.\<close>

definition ult_lock :: "tid \<Rightarrow> addr \<Rightarrow> pc \<Rightarrow> 'r ult_state \<Rightarrow> fault + 'r ult_state" where
  "ult_lock t a next s =
     kbind (ult_trylock a s) (\<lambda>(got, s). Inr (if got then s\<lparr>pcs := (pcs s)(t := next)\<rparr> else s))"

section \<open>Contexts\<close>

text \<open>The context is saved and \<open>set_jmp\<close> returns 0.\<close>

definition context_save :: "tid \<Rightarrow> addr \<Rightarrow> frame \<Rightarrow> 'r ult_state \<Rightarrow> fault + 'r ult_state" where
  "context_save t a fr s =
     kbind (ult_modify a (\<lambda>u. u\<lparr>ult_context :=
       \<lparr>ctx_regs = live s t, ctx_rax = rax s t, ctx_stack = stk s t, ctx_frame = fr\<rparr>\<rparr>) s) (\<lambda>s.
     Inr (s\<lparr>rax := (rax s)(t := 0)\<rparr>))"

definition goto :: "tid \<Rightarrow> pc \<Rightarrow> 'r ult_state \<Rightarrow> fault + 'r ult_state" where
  "goto t p s = Inr (s\<lparr>pcs := (pcs s)(t := p)\<rparr>)"

text \<open>The result of \<open>set_jmp\<close> is an \<^verbatim>\<open>int\<close>.\<close>

definition returns_zero :: "u64 \<Rightarrow> bool" where
  "returns_zero v \<longleftrightarrow> (ucast v :: u32) = 0"

text \<open>A call of \<open>set_jmp\<close> returns \<open>v\<close> on thread \<open>t\<close>. With zero, \<^verbatim>\<open>context_switch\<close> and
  \<^verbatim>\<open>context_switch_create\<close> unlock and jump again, and the trampoline returns into a signal delivery
  that is over. Else the trampoline enters \<^verbatim>\<open>context_create_boot\<close>, which copies the entry point and
  the argument to the new stack.\<close>

definition resume :: "tid \<Rightarrow> frame \<Rightarrow> u64 \<Rightarrow> 'r ult_state \<Rightarrow> fault + 'r ult_state" where
  "resume t fr v s = (case fr of
     AtConvert a \<Rightarrow> goto t Run (s\<lparr>current := (current s)(t := Some a)\<rparr>)
   | AtSwitch from to \<Rightarrow> goto t (if returns_zero v then Saved from to else Run) s
   | AtCreate new \<Rightarrow> goto t (if returns_zero v then NewSaved new else Run) s
   | AtBoot \<Rightarrow> if returns_zero v then kbind (nonnull (creat_ctx s t)) (\<lambda>new. goto t (BootSaved new) s) else goto t Run s
   | AtTrampoline \<Rightarrow> if returns_zero v then Inl NoReturn
       else kbind (nonnull (creat_ctx s t)) (\<lambda>new.
            kbind (ult_modify new (\<lambda>u. u\<lparr>ult_start := Some (creat_func s t, creat_arg s t)\<rparr>) s)
              (goto t (Boot new))))"

definition long_jmp :: "tid \<Rightarrow> addr \<Rightarrow> u64 \<Rightarrow> 'r ult_state \<Rightarrow> fault + 'r ult_state" where
  "long_jmp t a v s =
     kbind (deref (ults s) a) (\<lambda>u.
     resume t (ctx_frame (ult_context u)) v
       (s\<lparr>live := (live s)(t := ctx_regs (ult_context u)), rax := (rax s)(t := v),
          stk := (stk s)(t := ctx_stack (ult_context u))\<rparr>))"

text \<open>\<^verbatim>\<open>long_jmp(c->context, c->context->rax)\<close>\<close>

definition jump_back :: "tid \<Rightarrow> addr \<Rightarrow> 'r ult_state \<Rightarrow> fault + 'r ult_state" where
  "jump_back t a s = kbind (deref (ults s) a) (\<lambda>u. long_jmp t a (ctx_rax (ult_context u)) s)"

section \<open>Stacks\<close>

definition STACK_SIZE :: nat where "STACK_SIZE = 4096 * 2"

text \<open>The size \<^verbatim>\<open>get_ult_stack\<close> clears; the block it allocates always has \<open>STACK_SIZE\<close> bytes.
  \<open>sigstksz\<close> is the constant \<^verbatim>\<open>SIGSTKSZ\<close> and \<open>page\<close> the page size.\<close>

definition get_ult_stack :: "nat \<Rightarrow> nat \<Rightarrow> nat \<Rightarrow> fault + nat" where
  "get_ult_stack sigstksz page sz =
     (let sz = (if sz = 0 then sigstksz else sz);
          reminder = sz mod page;
          sz = (if reminder \<noteq> 0 then sz + (page - reminder) else sz) in
      if STACK_SIZE < sz then Inl OutOfBounds else Inr sz)"

section \<open>What user code can ask for\<close>

datatype 'r action =
    Convert addr                       \<comment> \<open>the address \<^verbatim>\<open>malloc\<close> returns\<close>
  | SwitchTo "addr option"
  | Creat addr stack 'r u64 u64 u64    \<comment> \<open>new object, its stack, registers and RAX in the trampoline, entry, argument\<close>
  | Compute 'r                         \<comment> \<open>user code changes the registers\<close>
  | Rax u64                            \<comment> \<open>code leaves a value in RAX\<close>
  | Step                               \<comment> \<open>the library code goes on\<close>

definition ult_convert :: "tid \<Rightarrow> addr \<Rightarrow> 'r ult_state \<Rightarrow> fault + 'r ult_state" where
  "ult_convert t a s =
     Inr (s\<lparr>ults := (ults s)(a := Some \<lparr>ult_running = True,
              ult_context = \<lparr>ctx_regs = live s t, ctx_rax = rax s t, ctx_stack = stk s t, ctx_frame = AtConvert a\<rparr>,
              ult_no = ult_id s, ult_start = None\<rparr>),
            ult_id := ult_id s + 1, current := (current s)(t := Some a), rax := (rax s)(t := 0)\<rparr>)"

definition ult_switch_to :: "tid \<Rightarrow> addr option \<Rightarrow> 'r ult_state \<Rightarrow> fault + 'r ult_state" where
  "ult_switch_to t p s =
     (case p of
        None \<Rightarrow> Inr s
      | Some to \<Rightarrow>
         kbind (ult_trylock to s) (\<lambda>(got, s).
           if \<not> got then Inr s
           else kbind (nonnull (current s t)) (\<lambda>from. goto t (Locked from to) s)))"

text \<open>\<^verbatim>\<open>context_create\<close> up to the return of the signal handler, which has run
  \<^verbatim>\<open>context_create_trampoline\<close> on the new stack: the context of the new object \<open>u\<close> is the one saved
  there. What is left of it is \<open>creat_step\<close>.\<close>

definition context_create ::
  "tid \<Rightarrow> addr \<Rightarrow> ('r exec_context \<Rightarrow> 'r ult) \<Rightarrow> stack \<Rightarrow> 'r \<Rightarrow> u64 \<Rightarrow> u64 \<Rightarrow> u64 \<Rightarrow> 'r ult_state \<Rightarrow> fault + 'r ult_state" where
  "context_create t a u st r x entry arg s =
     goto t (Prepared a)
       (s\<lparr>ults := (ults s)(a := Some (u \<lparr>ctx_regs = r, ctx_rax = x, ctx_stack = st, ctx_frame = AtTrampoline\<rparr>)),
          creat_ctx := (creat_ctx s)(t := Some a),
          creat_func := (creat_func s)(t := entry), creat_arg := (creat_arg s)(t := arg)\<rparr>)"

text \<open>A thread that has no fiber yet passes NULL as the creator, which \<open>context_create\<close> dereferences.\<close>

definition ult_creat :: "tid \<Rightarrow> addr \<Rightarrow> stack \<Rightarrow> 'r \<Rightarrow> u64 \<Rightarrow> u64 \<Rightarrow> u64 \<Rightarrow> 'r ult_state \<Rightarrow> fault + 'r ult_state" where
  "ult_creat t a st r x entry arg s =
     kbind (nonnull (current s t)) (\<lambda>_.
     context_create t a
       (\<lambda>c. \<lparr>ult_running = False, ult_context = c, ult_no = ult_id s, ult_start = None\<rparr>)
       st r x entry arg (s\<lparr>ult_id := ult_id s + 1\<rparr>))"

section \<open>The steps\<close>

text \<open>The macro \<^verbatim>\<open>context_switch\<close> as \<open>ult_switch_to\<close> uses it, with the assignment to \<open>current\<close> in
  front of it.\<close>

definition switch_step :: "tid \<Rightarrow> 'r ult_state \<Rightarrow> fault + 'r ult_state" where
  "switch_step t s =
     (case pcs s t of
        Locked from to \<Rightarrow> goto t (Chosen from to) (s\<lparr>current := (current s)(t := Some to)\<rparr>)
      | Chosen from to \<Rightarrow> kbind (context_save t from (AtSwitch from to) s) (goto t (Saved from to))
      | Saved from to \<Rightarrow> kbind (ult_unlock from s) (goto t (Released from to))
      | Released from to \<Rightarrow> jump_back t to s
      | _ \<Rightarrow> Inr s)"

text \<open>The macro \<^verbatim>\<open>context_switch_create\<close>: it locks the new fiber, and the jump enters the trampoline
  with 1.\<close>

definition creat_step :: "tid \<Rightarrow> 'r ult_state \<Rightarrow> fault + 'r ult_state" where
  "creat_step t s =
     (case pcs s t of
        Prepared new \<Rightarrow> ult_lock t new (NewLocked new) s
      | NewLocked new \<Rightarrow>
          kbind (nonnull (current s t)) (\<lambda>cur. kbind (context_save t cur (AtCreate new) s) (goto t (NewSaved new)))
      | NewSaved new \<Rightarrow>
          kbind (nonnull (current s t)) (\<lambda>cur. kbind (ult_unlock cur s) (goto t (NewReleased new)))
      | NewReleased new \<Rightarrow> long_jmp t new 1 s
      | _ \<Rightarrow> Inr s)"

text \<open>\<^verbatim>\<open>context_create_boot\<close> up to the jump back to the creator.\<close>

definition boot_step :: "tid \<Rightarrow> 'r ult_state \<Rightarrow> fault + 'r ult_state" where
  "boot_step t s =
     (case pcs s t of
        Boot new \<Rightarrow> kbind (nonnull (current s t)) (\<lambda>cur. ult_lock t cur (BootLocked new) s)
      | BootLocked new \<Rightarrow> kbind (context_save t new AtBoot s) (goto t (BootSaved new))
      | BootSaved new \<Rightarrow> kbind (ult_unlock new s) (goto t (BootReleased new))
      | BootReleased new \<Rightarrow> kbind (nonnull (current s t)) (\<lambda>cur. jump_back t cur s)
      | _ \<Rightarrow> Inr s)"

definition advance :: "tid \<Rightarrow> 'r ult_state \<Rightarrow> fault + 'r ult_state" where
  "advance t s =
     (case pcs s t of
        Run \<Rightarrow> Inr s
      | Locked _ _ \<Rightarrow> switch_step t s | Chosen _ _ \<Rightarrow> switch_step t s
      | Saved _ _ \<Rightarrow> switch_step t s | Released _ _ \<Rightarrow> switch_step t s
      | Prepared _ \<Rightarrow> creat_step t s | NewLocked _ \<Rightarrow> creat_step t s
      | NewSaved _ \<Rightarrow> creat_step t s | NewReleased _ \<Rightarrow> creat_step t s
      | _ \<Rightarrow> boot_step t s)"

lemmas step_defs = advance_def switch_step_def creat_step_def boot_step_def

fun ult_step :: "tid \<Rightarrow> 'r action \<Rightarrow> 'r ult_state \<Rightarrow> fault + 'r ult_state" where
  "ult_step t Step s = advance t s"
| "ult_step t (Convert a) s = ult_convert t a s"
| "ult_step t (SwitchTo p) s = ult_switch_to t p s"
| "ult_step t (Creat a st r x entry arg) s = ult_creat t a st r x entry arg s"
| "ult_step t (Compute r) s = Inr (s\<lparr>live := (live s)(t := r)\<rparr>)"
| "ult_step t (Rax v) s = Inr (s\<lparr>rax := (rax s)(t := v)\<rparr>)"

section \<open>Fiber-local storage\<close>

definition ULT_MAX_FLS :: nat where "ULT_MAX_FLS = 4096"

record ult_fls =
  fls_values :: "u64 list"
  fls_idx :: u64

definition fls_alloc :: "ult_fls \<Rightarrow> u64 \<times> ult_fls" where
  "fls_alloc f = (let ret = fls_idx f; f = f\<lparr>fls_idx := fls_idx f + 1\<rparr> in
     (if int ULT_MAX_FLS \<le> sint ret then - 1 else ret, f))"

definition fls_get :: "u64 \<Rightarrow> ult_fls \<Rightarrow> fault + u64" where
  "fls_get i f = (if 0 \<le> sint i \<and> sint i < int ULT_MAX_FLS then Inr (fls_values f ! unat i) else Inl OutOfBounds)"

definition fls_free :: "u64 \<Rightarrow> ult_fls \<Rightarrow> bool \<times> ult_fls" where
  "fls_free i f = (True, f)"

definition fls_set :: "u64 \<Rightarrow> u64 \<Rightarrow> ult_fls \<Rightarrow> fault + ult_fls" where
  "fls_set i v f =
     (if 0 \<le> sint i \<and> sint i < int ULT_MAX_FLS then Inr (f\<lparr>fls_values := (fls_values f)[unat i := v]\<rparr>)
      else Inl OutOfBounds)"

end
