(* ===== verification/Ult_Inv.thy ===== *)
theory Ult_Inv
  imports Ult
begin

text \<open>
  The invariant of the user-level threads under every interleaving: a fiber is locked on behalf of at
  most one thread, and a thread computes on the stack of the fiber it runs. \<open>mine t s\<close> are the fibers
  thread \<open>t\<close> has locked or is creating.
\<close>

section \<open>Ownership\<close>

definition locked :: "'r ult_state \<Rightarrow> addr \<Rightarrow> bool" where
  "locked s a \<longleftrightarrow> (\<exists>u. ults s a = Some u \<and> ult_running u)"

definition home :: "'r ult_state \<Rightarrow> addr \<Rightarrow> stack option" where
  "home s a = map_option (\<lambda>u. ctx_stack (ult_context u)) (ults s a)"

fun creating :: "pc \<Rightarrow> addr set" where
  "creating (Prepared n) = {n}"
| "creating (NewLocked n) = {n}"
| "creating (NewSaved n) = {n}"
| "creating (NewReleased n) = {n}"
| "creating (Boot n) = {n}"
| "creating (BootLocked n) = {n}"
| "creating (BootSaved n) = {n}"
| "creating (BootReleased n) = {n}"
| "creating _ = {}"

text \<open>The fibers whose lock a thread holds, from where it is and its \<^verbatim>\<open>current\<close>.\<close>

fun holding :: "pc \<Rightarrow> addr option \<Rightarrow> addr set" where
  "holding Run c = set_option c"
| "holding (Locked from to) c = {from, to}"
| "holding (Chosen from to) c = {from, to}"
| "holding (Saved from to) c = {from, to}"
| "holding (Released from to) c = {to}"
| "holding (Prepared n) c = set_option c"
| "holding (NewLocked n) c = insert n (set_option c)"
| "holding (NewSaved n) c = insert n (set_option c)"
| "holding (NewReleased n) c = {n}"
| "holding (Boot n) c = {n}"
| "holding (BootLocked n) c = insert n (set_option c)"
| "holding (BootSaved n) c = insert n (set_option c)"
| "holding (BootReleased n) c = set_option c"

definition holds :: "tid \<Rightarrow> 'r ult_state \<Rightarrow> addr set" where
  "holds t s = holding (pcs s t) (current s t)"

definition mine :: "tid \<Rightarrow> 'r ult_state \<Rightarrow> addr set" where
  "mine t s = holds t s \<union> creating (pcs s t)"

text \<open>The fiber on whose stack the thread executes.\<close>

fun runs_on :: "pc \<Rightarrow> addr option \<Rightarrow> addr option" where
  "runs_on (Locked from to) c = Some from"
| "runs_on (Chosen from to) c = Some from"
| "runs_on (Saved from to) c = Some from"
| "runs_on (Released from to) c = Some from"
| "runs_on (Boot n) c = Some n"
| "runs_on (BootLocked n) c = Some n"
| "runs_on (BootSaved n) c = Some n"
| "runs_on (BootReleased n) c = Some n"
| "runs_on _ c = c"

text \<open>What \<^verbatim>\<open>current\<close> is at each place.\<close>

fun current_ok :: "pc \<Rightarrow> addr option \<Rightarrow> bool" where
  "current_ok Run c = True"
| "current_ok (Locked from to) c = (c = Some from \<and> from \<noteq> to)"
| "current_ok (Chosen from to) c = (c = Some to \<and> from \<noteq> to)"
| "current_ok (Saved from to) c = (c = Some to \<and> from \<noteq> to)"
| "current_ok (Released from to) c = (c = Some to \<and> from \<noteq> to)"
| "current_ok p c = (\<exists>a. c = Some a \<and> a \<notin> creating p)"

definition thread_inv :: "'r ult_state \<Rightarrow> tid \<Rightarrow> bool" where
  "thread_inv s t \<longleftrightarrow> current_ok (pcs s t) (current s t) \<and> (\<forall>a\<in>holds t s. locked s a) \<and>
     (\<forall>a\<in>creating (pcs s t). home s a \<noteq> None) \<and> (\<forall>a\<in>set_option (current s t). home s a \<noteq> None) \<and>
     (\<forall>a\<in>set_option (runs_on (pcs s t) (current s t)). home s a = Some (stk s t)) \<and>
     (\<forall>n. pcs s t = Prepared n \<longrightarrow> \<not> locked s n)"

definition ult_inv :: "'r ult_state \<Rightarrow> bool" where
  "ult_inv s \<longleftrightarrow> (\<forall>t. thread_inv s t) \<and>
     (\<forall>t t'. t \<noteq> t' \<longrightarrow> mine t s \<inter> mine t' s = {}) \<and>
     (\<forall>t t'. \<forall>n\<in>creating (pcs s t'). current s t \<noteq> Some n) \<and>
     (\<forall>a b h. home s a = Some h \<longrightarrow> home s b = Some h \<longrightarrow> a = b) \<and>
     (\<forall>t a. current s t = None \<longrightarrow> home s a \<noteq> Some (stk s t)) \<and>
     (\<forall>t t'. t \<noteq> t' \<longrightarrow> current s t = None \<longrightarrow> current s t' = None \<longrightarrow> stk s t \<noteq> stk s t')"

section \<open>What callers keep to\<close>

text \<open>A thread converts itself once and before anything else, creates fibers on fresh objects and fresh
  stacks, and switches only to pointers the library has returned. The compiler leaves RAX with a low half
  that is not zero where \<^verbatim>\<open>context_switch\<close> or \<^verbatim>\<open>context_switch_create\<close> saves a context.\<close>

fun saves_next :: "pc \<Rightarrow> bool" where
  "saves_next (Chosen from to) = True"
| "saves_next (NewLocked n) = True"
| "saves_next (BootLocked n) = True"
| "saves_next _ = False"

fun action_ok :: "tid \<Rightarrow> 'r action \<Rightarrow> 'r ult_state \<Rightarrow> bool" where
  "action_ok t Step s \<longleftrightarrow> \<not> (saves_next (pcs s t) \<and> returns_zero (rax s t))"
| "action_ok t (Convert a) s \<longleftrightarrow> pcs s t = Run \<and> current s t = None \<and> ults s a = None"
| "action_ok t (SwitchTo p) s \<longleftrightarrow> pcs s t = Run \<and> current s t \<noteq> None \<and>
     (case p of None \<Rightarrow> True | Some a \<Rightarrow> home s a \<noteq> None \<and> (\<forall>t'. a \<notin> creating (pcs s t')))"
| "action_ok t (Creat a st r x entry arg) s \<longleftrightarrow> pcs s t = Run \<and> current s t \<noteq> None \<and> ults s a = None \<and>
     (\<forall>b. home s b \<noteq> Some st) \<and> (\<forall>t'. stk s t' \<noteq> st)"
| "action_ok t (Compute r) s \<longleftrightarrow> pcs s t = Run"
| "action_ok t (Rax v) s = True"

section \<open>Contexts that can be resumed\<close>

text \<open>A jump back to such a context lets the thread go on behind the macro that saved it.\<close>

fun goes_on :: "frame \<Rightarrow> bool" where
  "goes_on (AtSwitch from to) = True"
| "goes_on (AtCreate new) = True"
| "goes_on AtBoot = True"
| "goes_on _ = False"

definition resumable :: "'r ult_state \<Rightarrow> addr \<Rightarrow> bool" where
  "resumable s a \<longleftrightarrow> (\<exists>u. ults s a = Some u \<and> \<not> returns_zero (ctx_rax (ult_context u)) \<and> goes_on (ctx_frame (ult_context u)))"

definition frame_of :: "'r ult_state \<Rightarrow> addr \<Rightarrow> frame option" where
  "frame_of s a = map_option (\<lambda>u. ctx_frame (ult_context u)) (ults s a)"

text \<open>The contexts a thread relies on at each place, and those of the fibers it gives back.\<close>

fun relies_on :: "pc \<Rightarrow> addr option \<Rightarrow> addr set" where
  "relies_on (Locked from to) c = {to}"
| "relies_on (Chosen from to) c = {to}"
| "relies_on (Saved from to) c = {from, to}"
| "relies_on (Released from to) c = {to}"
| "relies_on (NewSaved n) c = set_option c"
| "relies_on (NewReleased n) c = set_option c"
| "relies_on (Boot n) c = set_option c"
| "relies_on (BootLocked n) c = set_option c"
| "relies_on (BootSaved n) c = insert n (set_option c)"
| "relies_on (BootReleased n) c = insert n (set_option c)"
| "relies_on _ c = {}"

fun before_boot :: "pc \<Rightarrow> addr set" where
  "before_boot (Prepared n) = {n}"
| "before_boot (NewLocked n) = {n}"
| "before_boot (NewSaved n) = {n}"
| "before_boot (NewReleased n) = {n}"
| "before_boot _ = {}"

definition thread_ready :: "'r ult_state \<Rightarrow> tid \<Rightarrow> bool" where
  "thread_ready s t \<longleftrightarrow> (\<forall>a\<in>relies_on (pcs s t) (current s t). resumable s a) \<and>
     (\<forall>n\<in>before_boot (pcs s t). frame_of s n = Some AtTrampoline \<and> creat_ctx s t = Some n)"

definition resume_inv :: "'r ult_state \<Rightarrow> bool" where
  "resume_inv s \<longleftrightarrow> (\<forall>t. thread_ready s t) \<and>
     (\<forall>a. home s a \<noteq> None \<longrightarrow> \<not> locked s a \<longrightarrow> (\<forall>t. a \<notin> creating (pcs s t)) \<longrightarrow> resumable s a)"

section \<open>Reachable states\<close>

definition ult_init :: "'r ult_state \<Rightarrow> bool" where
  "ult_init s \<longleftrightarrow> (\<forall>a. ults s a = None) \<and> (\<forall>t. current s t = None \<and> pcs s t = Run) \<and> inj (stk s)"

inductive ult_reach :: "'r ult_state \<Rightarrow> bool" where
  init: "ult_init s \<Longrightarrow> ult_reach s"
| step: "ult_reach s \<Longrightarrow> action_ok t ac s \<Longrightarrow> ult_step t ac s = Inr s' \<Longrightarrow> ult_reach s'"

section \<open>The primitives, seen through locks, homes and places\<close>

lemma home_locked: "locked s a \<Longrightarrow> home s a \<noteq> None"
  by (auto simp: locked_def home_def)

lemma goto_view: "goto t p s = Inr s' \<Longrightarrow> s' = s\<lparr>pcs := (pcs s)(t := p)\<rparr>"
  by (simp add: goto_def)

lemma view_update [simp]:
  "locked (s\<lparr>pcs := p\<rparr>) = locked s" "locked (s\<lparr>current := c\<rparr>) = locked s" "locked (s\<lparr>live := l\<rparr>) = locked s"
  "locked (s\<lparr>stk := k\<rparr>) = locked s" "locked (s\<lparr>creat_func := f\<rparr>) = locked s" "locked (s\<lparr>creat_arg := g\<rparr>) = locked s"
  "locked (s\<lparr>creat_ctx := d\<rparr>) = locked s" "locked (s\<lparr>rax := x\<rparr>) = locked s" "locked (s\<lparr>ult_id := i\<rparr>) = locked s"
  "home (s\<lparr>pcs := p\<rparr>) = home s" "home (s\<lparr>current := c\<rparr>) = home s" "home (s\<lparr>live := l\<rparr>) = home s"
  "home (s\<lparr>stk := k\<rparr>) = home s" "home (s\<lparr>creat_func := f\<rparr>) = home s" "home (s\<lparr>creat_arg := g\<rparr>) = home s"
  "home (s\<lparr>creat_ctx := d\<rparr>) = home s" "home (s\<lparr>rax := x\<rparr>) = home s" "home (s\<lparr>ult_id := i\<rparr>) = home s"
  "resumable (s\<lparr>pcs := p\<rparr>) = resumable s" "resumable (s\<lparr>current := c\<rparr>) = resumable s" "resumable (s\<lparr>live := l\<rparr>) = resumable s"
  "resumable (s\<lparr>stk := k\<rparr>) = resumable s" "resumable (s\<lparr>creat_func := f\<rparr>) = resumable s" "resumable (s\<lparr>creat_arg := g\<rparr>) = resumable s"
  "resumable (s\<lparr>creat_ctx := d\<rparr>) = resumable s" "resumable (s\<lparr>rax := x\<rparr>) = resumable s" "resumable (s\<lparr>ult_id := i\<rparr>) = resumable s"
  "frame_of (s\<lparr>pcs := p\<rparr>) = frame_of s" "frame_of (s\<lparr>current := c\<rparr>) = frame_of s" "frame_of (s\<lparr>live := l\<rparr>) = frame_of s"
  "frame_of (s\<lparr>stk := k\<rparr>) = frame_of s" "frame_of (s\<lparr>creat_func := f\<rparr>) = frame_of s" "frame_of (s\<lparr>creat_arg := g\<rparr>) = frame_of s"
  "frame_of (s\<lparr>creat_ctx := d\<rparr>) = frame_of s" "frame_of (s\<lparr>rax := x\<rparr>) = frame_of s" "frame_of (s\<lparr>ult_id := i\<rparr>) = frame_of s"
  by (simp_all add: locked_def home_def resumable_def frame_of_def fun_eq_iff)

definition same_places :: "'r ult_state \<Rightarrow> 'r ult_state \<Rightarrow> bool" where
  "same_places s s' \<longleftrightarrow> pcs s' = pcs s \<and> current s' = current s \<and> stk s' = stk s \<and> creat_ctx s' = creat_ctx s"

definition same_contexts :: "'r ult_state \<Rightarrow> 'r ult_state \<Rightarrow> bool" where
  "same_contexts s s' \<longleftrightarrow> home s' = home s \<and> resumable s' = resumable s \<and> frame_of s' = frame_of s"

lemmas view_defs = same_places_def same_contexts_def locked_def home_def resumable_def frame_of_def fun_eq_iff
  kbind_Inr_iff deref_Inr_iff

lemma context_save_view:
  assumes "context_save t a fr s = Inr s'" "home s a = Some (stk s t)"
  shows "same_places s s' \<and> locked s' = locked s \<and> home s' = home s \<and> frame_of s' = (frame_of s)(a := Some fr) \<and>
    (\<not> returns_zero (rax s t) \<longrightarrow> goes_on fr \<longrightarrow> resumable s' = (resumable s)(a := True))"
proof -
  obtain u where u: "ults s a = Some u" "ctx_stack (ult_context u) = stk s t" using assms(2) by (auto simp: home_def)
  then have s': "s' = s\<lparr>ults := (ults s)(a := Some (u\<lparr>ult_context :=
      \<lparr>ctx_regs = live s t, ctx_rax = rax s t, ctx_stack = stk s t, ctx_frame = fr\<rparr>\<rparr>)), rax := (rax s)(t := 0)\<rparr>"
    using assms(1) by (simp add: context_save_def ult_modify_def kbind_Inr_iff)
  have "resumable s' = (resumable s)(a := \<not> returns_zero (rax s t) \<and> goes_on fr)"
    by (simp add: s' resumable_def fun_eq_iff)
  then show ?thesis
    using u by (simp add: s' same_places_def locked_def home_def frame_of_def fun_eq_iff)
qed

lemma ult_unlock_view:
  assumes "ult_unlock a s = Inr s'"
  shows "same_places s s' \<and> locked s' = (locked s)(a := False) \<and> same_contexts s s'"
  using assms by (auto simp: ult_unlock_def ult_modify_def view_defs split: if_splits)

lemma ult_trylock_view:
  assumes "ult_trylock a s = Inr (got, s')"
  shows "same_places s s' \<and> same_contexts s s' \<and> locked s' = (locked s)(a := True) \<and> got = (\<not> locked s a) \<and>
    home s a \<noteq> None"
  using assms by (auto simp: ult_trylock_def view_defs split: if_splits)

lemma start_view:
  assumes "ult_modify a (\<lambda>u. u\<lparr>ult_start := x\<rparr>) s = Inr s'"
  shows "same_places s s' \<and> locked s' = locked s \<and> same_contexts s s'"
  using assms by (auto simp: ult_modify_def view_defs split: if_splits)

text \<open>What a jump leaves behind: thread \<open>t\<close> at \<open>p\<close> on the stack \<open>h\<close>.\<close>

definition jumped :: "tid \<Rightarrow> pc \<Rightarrow> stack \<Rightarrow> 'r ult_state \<Rightarrow> 'r ult_state \<Rightarrow> bool" where
  "jumped t p h s s' \<longleftrightarrow> pcs s' = (pcs s)(t := p) \<and> current s' = current s \<and> stk s' = (stk s)(t := h) \<and>
     creat_ctx s' = creat_ctx s \<and> locked s' = locked s \<and> same_contexts s s'"

lemma resume_on:
  assumes "goes_on fr" "\<not> returns_zero v"
  shows "resume t fr v s = goto t Run s"
  using assms by (cases fr) (simp_all add: resume_def)

lemma jump_back_view:
  assumes "jump_back t a s = Inr s'" "resumable s a" "home s a = Some h"
  shows "jumped t Run h s s'"
proof -
  obtain u where u: "ults s a = Some u" "\<not> returns_zero (ctx_rax (ult_context u))" "goes_on (ctx_frame (ult_context u))"
    "ctx_stack (ult_context u) = h"
    using assms(2,3) by (auto simp: resumable_def home_def)
  with assms(1) have "s' = s\<lparr>live := (live s)(t := ctx_regs (ult_context u)), rax := (rax s)(t := ctx_rax (ult_context u)),
      stk := (stk s)(t := h), pcs := (pcs s)(t := Run)\<rparr>"
    by (simp add: jump_back_def long_jmp_def resume_on goto_def)
  then show ?thesis by (simp add: jumped_def same_contexts_def)
qed

lemma trampoline_view:
  assumes "long_jmp t a 1 s = Inr s'" "frame_of s a = Some AtTrampoline" "creat_ctx s t = Some a" "home s a = Some h"
  shows "jumped t (Boot a) h s s'"
proof -
  obtain u where u: "ults s a = Some u" "ctx_frame (ult_context u) = AtTrampoline" "ctx_stack (ult_context u) = h"
    using assms(2,4) by (auto simp: frame_of_def home_def)
  with assms(1,3) obtain s1 where "ult_modify a (\<lambda>v. v\<lparr>ult_start := Some (creat_func s t, creat_arg s t)\<rparr>)
      (s\<lparr>live := (live s)(t := ctx_regs (ult_context u)), rax := (rax s)(t := 1), stk := (stk s)(t := h)\<rparr>) = Inr s1"
    "s' = s1\<lparr>pcs := (pcs s1)(t := Boot a)\<rparr>"
    by (auto simp: long_jmp_def resume_def returns_zero_def goto_def kbind_Inr_iff)
  with start_view [OF this(1)] show ?thesis by (simp add: jumped_def same_places_def same_contexts_def)
qed

section \<open>One step\<close>

text \<open>What a step of \<open>t\<close> guarantees to the others: their places, currents and stacks, the homes of all
  fibers, and the locks of everything that is not its own.\<close>

definition step_frame :: "tid \<Rightarrow> 'r ult_state \<Rightarrow> 'r ult_state \<Rightarrow> bool" where
  "step_frame t s s' \<longleftrightarrow>
     (\<forall>t'. t' \<noteq> t \<longrightarrow> pcs s' t' = pcs s t' \<and> current s' t' = current s t' \<and> stk s' t' = stk s t') \<and>
     (\<forall>a h. home s a = Some h \<longrightarrow> home s' a = Some h) \<and>
     (\<forall>a. a \<notin> mine t s \<longrightarrow> locked s a \<longrightarrow> locked s' a) \<and>
     (\<forall>t' n. t' \<noteq> t \<longrightarrow> n \<in> creating (pcs s t') \<longrightarrow> locked s' n \<longrightarrow> locked s n)"

lemma thread_inv_other:
  assumes "step_frame t s s'" "t' \<noteq> t" "thread_inv s t'" "mine t s \<inter> mine t' s = {}"
  shows "thread_inv s' t'"
proof -
  have e: "pcs s' t' = pcs s t'" "current s' t' = current s t'" "stk s' t' = stk s t'"
    using assms(1,2) by (auto simp: step_frame_def)
  have "locked s' a" if "a \<in> holds t' s" for a
    using assms(1,3,4) that by (auto simp: step_frame_def thread_inv_def mine_def)
  moreover have h: "home s' a = Some h" if "home s a = Some h" for a h
    using assms(1) that by (simp add: step_frame_def)
  moreover have "home s' a \<noteq> None" if "home s a \<noteq> None" for a
    using h that by blast
  moreover have "\<not> locked s' n" if "pcs s t' = Prepared n" for n
    using assms(1-3) that by (force simp: step_frame_def thread_inv_def)
  ultimately show ?thesis
    using assms(3) unfolding thread_inv_def holds_def e by blast
qed

lemma ult_inv_step:
  assumes inv: "ult_inv s" and frame: "step_frame t s s'" and own: "thread_inv s' t"
    and grow: "\<And>x t'. x \<in> mine t s' \<Longrightarrow> x \<notin> mine t s \<Longrightarrow> t' \<noteq> t \<Longrightarrow> x \<notin> mine t' s"
    and cur: "\<And>n t'. t' \<noteq> t \<Longrightarrow> n \<in> creating (pcs s t') \<Longrightarrow> current s' t \<noteq> Some n"
    and new: "\<And>n t'. n \<in> creating (pcs s' t) \<Longrightarrow> current s' t' \<noteq> Some n"
    and inj: "\<And>a b h. home s' a = Some h \<Longrightarrow> home s' b = Some h \<Longrightarrow> a = b"
    and unconv: "\<And>t' a. current s' t' = None \<Longrightarrow> home s' a \<noteq> Some (stk s' t')"
    and keep: "current s' t = None \<Longrightarrow> current s t = None \<and> stk s' t = stk s t"
  shows "ult_inv s'"
proof -
  have o: "pcs s' t' = pcs s t'" "current s' t' = current s t'" "stk s' t' = stk s t'" if "t' \<noteq> t" for t'
    using frame that by (auto simp: step_frame_def)
  have m: "mine t' s' = mine t' s" if "t' \<noteq> t" for t'
    using o [OF that] by (simp add: mine_def holds_def)
  have d: "mine a s \<inter> mine b s = {}" if "a \<noteq> b" for a b using inv that by (simp add: ult_inv_def)
  have "thread_inv s' t'" for t'
  proof (cases "t' = t")
    case False
    moreover have "thread_inv s t'" using inv by (simp add: ult_inv_def)
    ultimately show ?thesis using thread_inv_other [OF frame] d [of t t'] by auto
  qed (simp add: own)
  moreover have ot: "mine t s' \<inter> mine b s' = {}" if "b \<noteq> t" for b
    using grow [OF _ _ that] d [of t b] m [OF that] that by blast
  have "mine a s' \<inter> mine b s' = {}" if "a \<noteq> b" for a b
    using ot [of a] ot [of b] m [of a] m [of b] d [OF that] that by (cases "a = t"; cases "b = t") auto
  moreover have "current s' a \<noteq> Some n" if "n \<in> creating (pcs s' b)" for a b n
  proof (cases "b = t")
    case True
    then show ?thesis using new that by simp
  next
    case False
    then have "n \<in> creating (pcs s b)" using that o by simp
    then show ?thesis using cur [OF False] o [of a] inv by (cases "a = t") (auto simp: ult_inv_def)
  qed
  moreover have "stk s' a \<noteq> stk s' b" if "a \<noteq> b" "current s' a = None" "current s' b = None" for a b
  proof -
    have "current s x = None \<and> stk s' x = stk s x" if "current s' x = None" for x
      using keep o [of x] that by (cases "x = t") auto
    with that have "current s a = None" "current s b = None" "stk s' a = stk s a" "stk s' b = stk s b" by auto
    with inv that(1) show ?thesis by (simp add: ult_inv_def)
  qed
  ultimately show ?thesis using inj unconv unfolding ult_inv_def by blast
qed

text \<open>A step that leaves the homes alone, in terms of the places and locks it changes.\<close>

lemma ult_inv_quiet:
  fixes s s' :: "'r ult_state"
  assumes "ult_inv s" "home s' = home s" "thread_inv s' t"
    and "\<And>t'. t' \<noteq> t \<Longrightarrow> pcs s' t' = pcs s t' \<and> current s' t' = current s t' \<and> stk s' t' = stk s t'"
    and "\<And>a. a \<notin> mine t s \<Longrightarrow> locked s a \<Longrightarrow> locked s' a"
    and "\<And>t' n. t' \<noteq> t \<Longrightarrow> n \<in> creating (pcs s t') \<Longrightarrow> locked s' n \<Longrightarrow> locked s n"
    and "\<And>x t'. x \<in> mine t s' \<Longrightarrow> x \<notin> mine t s \<Longrightarrow> t' \<noteq> t \<Longrightarrow> x \<notin> mine t' s"
    and "\<And>n t'. t' \<noteq> t \<Longrightarrow> n \<in> creating (pcs s t') \<Longrightarrow> current s' t \<noteq> Some n"
    and "creating (pcs s' t) \<subseteq> creating (pcs s t)"
    and "current s t \<noteq> None" "current s' t \<noteq> None" "\<And>n. n \<in> creating (pcs s' t) \<Longrightarrow> current s' t \<noteq> Some n"
  shows "ult_inv s'"
proof (rule ult_inv_step [where s = s and t = t])
  show "ult_inv s" "thread_inv s' t" by (fact assms)+
  show "x \<notin> mine t' s" if "x \<in> mine t s'" "x \<notin> mine t s" "t' \<noteq> t" for x t' using assms(7) that by blast
  show "current s' t \<noteq> Some n" if "t' \<noteq> t" "n \<in> creating (pcs s t')" for t' n using assms(8) that by blast
  show "step_frame t s s'" using assms(2,4,5,6) by (simp add: step_frame_def)
  show "current s' t' \<noteq> Some n" if "n \<in> creating (pcs s' t)" for n t'
    using that assms(1,4,9,12) by (cases "t' = t") (auto simp: ult_inv_def)
  show "\<And>a b h. home s' a = Some h \<Longrightarrow> home s' b = Some h \<Longrightarrow> a = b"
    using assms(1,2) by (simp add: ult_inv_def)
  show "home s' a \<noteq> Some (stk s' t')" if "current s' t' = None" for t' a
    using that assms(1,2,4,11) by (cases "t' = t") (auto simp: ult_inv_def)
  show "current s' t = None \<Longrightarrow> current s t = None \<and> stk s' t = stk s t" using assms(11) by simp
qed

lemma not_mine_unlocked:
  assumes "ult_inv s" "\<not> locked s a" "\<And>t'. a \<notin> creating (pcs s t')"
  shows "a \<notin> mine t s"
  using assms by (auto simp: ult_inv_def thread_inv_def mine_def)

lemma advance_inv:
  assumes inv: "ult_inv s" and ready: "thread_ready s t" and step: "advance t s = Inr s'"
  shows "ult_inv s'"
proof -
  have ti: "thread_inv s t" and cr: "\<And>t' n. n \<in> creating (pcs s t') \<Longrightarrow> current s t \<noteq> Some n"
    and dis: "\<And>t'. t' \<noteq> t \<Longrightarrow> mine t s \<inter> mine t' s = {}"
    using inv by (auto simp: ult_inv_def)
  note defs = thread_inv_def holds_def mine_def same_places_def same_contexts_def jumped_def
  show ?thesis
  proof (cases "pcs s t")
    case Run
    then show ?thesis using step inv by (simp add: step_defs)
  next
    case (Locked f to)
    then have s': "s' = s\<lparr>current := (current s)(t := Some to), pcs := (pcs s)(t := Chosen f to)\<rparr>"
      using step by (simp add: step_defs goto_def)
    have "to \<notin> creating (pcs s t')" if "t' \<noteq> t" for t' using dis [OF that] Locked by (auto simp: defs)
    then show ?thesis
      using ti Locked by (intro ult_inv_quiet [OF inv, of s' t]) (auto simp: defs s' dest: home_locked)
  next
    case (Chosen f to)
    then obtain s1 where s1: "context_save t f (AtSwitch f to) s = Inr s1" "s' = s1\<lparr>pcs := (pcs s1)(t := Saved f to)\<rparr>"
      using step by (auto simp: step_defs goto_def kbind_Inr_iff)
    have "home s f = Some (stk s t)" using ti Chosen by (simp add: defs)
    from context_save_view [OF s1(1) this] show ?thesis
      using ti Chosen cr by (intro ult_inv_quiet [OF inv, of s' t]) (auto simp: defs s1 split: if_splits)
  next
    case (Saved f to)
    then obtain s1 where s1: "ult_unlock f s = Inr s1" "s' = s1\<lparr>pcs := (pcs s1)(t := Released f to)\<rparr>"
      using step by (auto simp: step_defs goto_def kbind_Inr_iff)
    from ult_unlock_view [OF s1(1)] show ?thesis
      using ti Saved cr by (intro ult_inv_quiet [OF inv, of s' t]) (auto simp: defs s1 split: if_splits)
  next
    case (Released f to)
    obtain h where h: "home s to = Some h" using ti Released by (auto simp: defs)
    have "jump_back t to s = Inr s'" "resumable s to" using step ready Released by (auto simp: step_defs thread_ready_def)
    from jump_back_view [OF this h] show ?thesis
      using ti Released cr h by (intro ult_inv_quiet [OF inv, of s' t]) (auto simp: defs split: if_splits)
  next
    case (Prepared new)
    then obtain got s1 where s1: "ult_trylock new s = Inr (got, s1)"
      "s' = (if got then s1\<lparr>pcs := (pcs s1)(t := NewLocked new)\<rparr> else s1)"
      using step by (auto simp: step_defs ult_lock_def kbind_Inr_iff)
    have "new \<notin> creating (pcs s t')" if "t' \<noteq> t" for t' using dis [OF that] Prepared by (auto simp: defs)
    then show ?thesis using ult_trylock_view [OF s1(1)]
      using ti Prepared cr by (intro ult_inv_quiet [OF inv, of s' t]) (auto simp: defs s1 split: if_splits)
  next
    case (NewLocked new)
    then obtain c s1 where s1: "current s t = Some c" "context_save t c (AtCreate new) s = Inr s1"
      "s' = s1\<lparr>pcs := (pcs s1)(t := NewSaved new)\<rparr>"
      using step by (cases "current s t") (auto simp: step_defs goto_def kbind_Inr_iff)
    have "home s c = Some (stk s t)" using ti NewLocked s1(1) by (simp add: defs)
    from context_save_view [OF s1(2) this] show ?thesis
      using ti NewLocked cr s1(1) by (intro ult_inv_quiet [OF inv, of s' t]) (auto simp: defs s1 split: if_splits)
  next
    case (NewSaved new)
    then obtain c s1 where s1: "current s t = Some c" "ult_unlock c s = Inr s1"
      "s' = s1\<lparr>pcs := (pcs s1)(t := NewReleased new)\<rparr>"
      using step by (cases "current s t") (auto simp: step_defs goto_def kbind_Inr_iff)
    from ult_unlock_view [OF s1(2)] show ?thesis
      using ti NewSaved cr s1(1) by (intro ult_inv_quiet [OF inv, of s' t]) (auto simp: defs s1 split: if_splits)
  next
    case (NewReleased new)
    obtain h where h: "home s new = Some h" using ti NewReleased by (auto simp: defs)
    have "long_jmp t new 1 s = Inr s'" "frame_of s new = Some AtTrampoline" "creat_ctx s t = Some new"
      using step ready NewReleased by (auto simp: step_defs thread_ready_def)
    from trampoline_view [OF this h] show ?thesis
      using ti NewReleased cr h by (intro ult_inv_quiet [OF inv, of s' t]) (auto simp: defs split: if_splits)
  next
    case (Boot new)
    then obtain c got s1 where s1: "current s t = Some c" "ult_trylock c s = Inr (got, s1)"
      "s' = (if got then s1\<lparr>pcs := (pcs s1)(t := BootLocked new)\<rparr> else s1)"
      using step by (cases "current s t") (auto simp: step_defs ult_lock_def kbind_Inr_iff)
    have "c \<notin> mine t' s" if "\<not> locked s c" for t'
      using not_mine_unlocked [OF inv that] cr s1(1) by blast
    then show ?thesis using ult_trylock_view [OF s1(2)]
      using ti Boot cr s1(1) by (intro ult_inv_quiet [OF inv, of s' t]) (auto simp: defs s1 split: if_splits)
  next
    case (BootLocked new)
    then obtain s1 where s1: "context_save t new AtBoot s = Inr s1" "s' = s1\<lparr>pcs := (pcs s1)(t := BootSaved new)\<rparr>"
      using step by (auto simp: step_defs goto_def kbind_Inr_iff)
    have "home s new = Some (stk s t)" using ti BootLocked by (simp add: defs)
    from context_save_view [OF s1(1) this] show ?thesis
      using ti BootLocked cr by (intro ult_inv_quiet [OF inv, of s' t]) (auto simp: defs s1 split: if_splits)
  next
    case (BootSaved new)
    then obtain s1 where s1: "ult_unlock new s = Inr s1" "s' = s1\<lparr>pcs := (pcs s1)(t := BootReleased new)\<rparr>"
      using step by (auto simp: step_defs goto_def kbind_Inr_iff)
    from ult_unlock_view [OF s1(1)] show ?thesis
      using ti BootSaved cr by (intro ult_inv_quiet [OF inv, of s' t]) (auto simp: defs s1 split: if_splits)
  next
    case (BootReleased new)
    then obtain c where c: "current s t = Some c" "jump_back t c s = Inr s'"
      using step by (cases "current s t") (auto simp: step_defs)
    obtain h where h: "home s c = Some h" using ti BootReleased c(1) by (auto simp: defs)
    have "resumable s c" using ready BootReleased c(1) by (simp add: thread_ready_def)
    from jump_back_view [OF c(2) this h] show ?thesis
      using ti BootReleased cr h c(1) by (intro ult_inv_quiet [OF inv, of s' t]) (auto simp: defs split: if_splits)
  qed
qed

lemma switch_inv:
  assumes inv: "ult_inv s" and ok: "action_ok t (SwitchTo p) s" and step: "ult_switch_to t p s = Inr s'"
  shows "ult_inv s'"
proof (cases p)
  case None
  then show ?thesis using step inv by (simp add: ult_switch_to_def)
next
  case (Some a)
  from ok Some obtain c where c: "pcs s t = Run" "current s t = Some c" "home s a \<noteq> None"
    "\<And>t'. a \<notin> creating (pcs s t')" by auto
  from step Some obtain got s1 where s1: "ult_trylock a s = Inr (got, s1)"
    "if got then goto t (Locked c a) s1 = Inr s' else s' = s1"
  proof -
    from step Some obtain got s1 where s1: "ult_trylock a s = Inr (got, s1)"
      "(if \<not> got then Inr s1 else kbind (nonnull (current s1 t)) (\<lambda>from. goto t (Locked from a) s1)) = Inr s'"
      by (auto simp: ult_switch_to_def kbind_Inr_iff)
    moreover have "current s1 = current s" using ult_trylock_view [OF s1(1)] by (simp add: same_places_def)
    ultimately show thesis using that [of got s1] c(2) by (auto split: if_splits)
  qed
  have ti: "thread_inv s t" and cr: "\<And>t' n. n \<in> creating (pcs s t') \<Longrightarrow> current s t \<noteq> Some n"
    using inv by (auto simp: ult_inv_def)
  have "a \<notin> mine t' s" if "\<not> locked s a" for t' using not_mine_unlocked [OF inv that] c(4) by blast
  moreover have "c \<noteq> a" if "\<not> locked s a"
    using ti c that by (auto simp: thread_inv_def holds_def)
  ultimately show ?thesis using ult_trylock_view [OF s1(1)] s1(2) ti cr c
    by (intro ult_inv_quiet [OF inv, of s' t])
      (auto simp: thread_inv_def holds_def mine_def same_places_def same_contexts_def goto_def split: if_splits)
qed

lemma convert_inv:
  assumes inv: "ult_inv s" and ok: "action_ok t (Convert a) s" and step: "ult_convert t a s = Inr s'"
  shows "ult_inv s'"
proof -
  from ok have c: "pcs s t = Run" "current s t = None" "ults s a = None" by auto
  have s': "pcs s' = pcs s" "stk s' = stk s" "current s' = (current s)(t := Some a)"
    "locked s' = (locked s)(a := True)" "home s' = (home s)(a := Some (stk s t))"
    using step by (auto simp: ult_convert_def locked_def home_def fun_eq_iff split: if_splits)
  have ti: "thread_inv s b" for b using inv by (simp add: ult_inv_def)
  have fresh: "home s a = None" "\<not> locked s a" using c(3) by (auto simp: home_def locked_def)
  have m: "a \<notin> mine b s" for b
    using ti [of b] fresh by (auto simp: thread_inv_def mine_def)
  have cr: "a \<notin> creating (pcs s b)" "current s b \<noteq> Some a" for b
    using ti [of b] fresh by (auto simp: thread_inv_def)
  have hn: "home s b \<noteq> Some (stk s t)" for b using inv c(2) by (simp add: ult_inv_def)
  have un: "\<And>t' b. current s t' = None \<Longrightarrow> home s b \<noteq> Some (stk s t')" "\<And>t'. t' \<noteq> t \<Longrightarrow> current s t' = None \<Longrightarrow> stk s t \<noteq> stk s t'"
    "\<And>x y h. home s x = Some h \<Longrightarrow> home s y = Some h \<Longrightarrow> x = y"
    using inv c(2) by (auto simp: ult_inv_def)
  show ?thesis
  proof (rule ult_inv_step [where s = s and t = t])
    show "step_frame t s s'" using s' fresh cr by (auto simp: step_frame_def)
    show "thread_inv s' t" using s' c by (simp add: thread_inv_def holds_def)
    show "x \<notin> mine t' s" if "x \<in> mine t s'" for x t'
      using that s' c m by (auto simp: mine_def holds_def)
    show "home s' b \<noteq> Some (stk s' t')" if "current s' t' = None" for t' b
    proof -
      have "t' \<noteq> t" "current s t' = None" using that s' by (auto split: if_splits)
      then show ?thesis using s' un by (auto split: if_splits)
    qed
    show "\<And>x y h. home s' x = Some h \<Longrightarrow> home s' y = Some h \<Longrightarrow> x = y"
      using s' hn un(3) by (auto split: if_splits)
  qed (use inv s' c cr in \<open>auto split: if_splits\<close>)
qed

lemma creat_inv:
  assumes inv: "ult_inv s" and ok: "action_ok t (Creat a st r x entry arg) s"
    and step: "ult_creat t a st r x entry arg s = Inr s'"
  shows "ult_inv s'"
proof -
  from ok obtain c where c: "pcs s t = Run" "current s t = Some c" "ults s a = None"
    "\<And>b. home s b \<noteq> Some st" "\<And>t'. stk s t' \<noteq> st" by auto
  have s': "pcs s' = (pcs s)(t := Prepared a)" "stk s' = stk s" "current s' = current s"
    "locked s' = locked s" "home s' = (home s)(a := Some st)"
    using step c(2,3) by (auto simp: ult_creat_def context_create_def goto_def locked_def home_def fun_eq_iff split: if_splits)
  have ti: "thread_inv s b" for b using inv by (simp add: ult_inv_def)
  have fresh: "home s a = None" "\<not> locked s a" using c(3) by (auto simp: home_def locked_def)
  have m: "a \<notin> mine b s" "current s b \<noteq> Some a" for b
    using ti [of b] fresh by (auto simp: thread_inv_def mine_def)
  have un: "\<And>t' b. current s t' = None \<Longrightarrow> home s b \<noteq> Some (stk s t')"
    "\<And>x y h. home s x = Some h \<Longrightarrow> home s y = Some h \<Longrightarrow> x = y"
    using inv by (auto simp: ult_inv_def)
  show ?thesis
  proof (rule ult_inv_step [where s = s and t = t])
    show "step_frame t s s'" using s' fresh by (auto simp: step_frame_def)
    show "thread_inv s' t" using ti [of t] s' c m(2) [of t] fresh by (auto simp: thread_inv_def holds_def)
    show "x \<notin> mine t' s" if "x \<in> mine t s'" "x \<notin> mine t s" for x t'
      using that s' c m by (auto simp: mine_def holds_def)
    show "home s' b \<noteq> Some (stk s' t')" if "current s' t' = None" for t' b
      using that s' un(1) c(5) [of t'] by (auto split: if_splits)
    show "\<And>x y h. home s' x = Some h \<Longrightarrow> home s' y = Some h \<Longrightarrow> x = y"
      using s' c(4) un(2) by (auto split: if_splits)
  qed (use inv s' c m in \<open>auto simp: ult_inv_def split: if_splits\<close>)
qed

lemma compute_inv:
  assumes "ult_inv s"
  shows "ult_inv (s\<lparr>live := l\<rparr>)" "ult_inv (s\<lparr>rax := x\<rparr>)"
  using assms by (simp_all add: ult_inv_def thread_inv_def holds_def mine_def)

end
