(* ===== verification/Ult_Resume.thy ===== *)
theory Ult_Resume
  imports Ult_Inv
begin

text \<open>
  The second invariant of the user-level threads: every free fiber, and every fiber a thread is about to
  jump to, has a context that lets the thread go on behind the macro that saved it. Both invariants hold
  in every reachable state.
\<close>

section \<open>One step\<close>

lemma resume_inv_step:
  assumes inv: "ult_inv s" "resume_inv s"
    and places: "\<And>t'. t' \<noteq> t \<Longrightarrow> pcs s' t' = pcs s t' \<and> current s' t' = current s t' \<and> creat_ctx s' t' = creat_ctx s t'"
    and keep: "\<And>a. resumable s a \<Longrightarrow> resumable s' a"
    and frames: "\<And>a. a \<notin> mine t s \<Longrightarrow> home s a \<noteq> None \<Longrightarrow> frame_of s' a = frame_of s a"
    and own: "thread_ready s' t"
    and free: "\<And>a. home s' a \<noteq> None \<Longrightarrow> \<not> locked s' a \<Longrightarrow> a \<notin> creating (pcs s' t) \<Longrightarrow>
      home s a = None \<or> locked s a \<or> a \<in> creating (pcs s t) \<Longrightarrow> resumable s' a"
  shows "resume_inv s'"
proof -
  have "thread_ready s' b" for b
  proof (cases "b = t")
    case False
    have r: "thread_ready s b" "thread_inv s b" using inv by (simp_all add: resume_inv_def ult_inv_def)
    have d: "mine t s \<inter> mine b s = {}" using inv(1) False by (auto simp: ult_inv_def)
    have "frame_of s' n = Some AtTrampoline" if "n \<in> before_boot (pcs s b)" for n
    proof -
      have "n \<in> creating (pcs s b)" using that by (cases "pcs s b") auto
      then have "n \<notin> mine t s" "home s n \<noteq> None" using d r(2) by (auto simp: mine_def thread_inv_def)
      with frames [of n] r(1) that show ?thesis by (simp add: thread_ready_def)
    qed
    then show ?thesis using r(1) keep places [OF False] by (simp add: thread_ready_def)
  qed (simp add: own)
  moreover have "resumable s' a" if a: "home s' a \<noteq> None" "\<not> locked s' a" "\<forall>b. a \<notin> creating (pcs s' b)" for a
  proof (cases "home s a = None \<or> locked s a \<or> a \<in> creating (pcs s t)")
    case True
    then show ?thesis using free a by blast
  next
    case False
    moreover have "a \<notin> creating (pcs s b)" for b
      using False a(3) places [of b] by (cases "b = t") (auto dest: spec [of _ b])
    ultimately show ?thesis using inv(2) keep by (simp add: resume_inv_def)
  qed
  ultimately show ?thesis by (simp add: resume_inv_def)
qed

lemma save_before_boot:
  assumes "ult_inv s" "n \<in> before_boot (pcs s t)"
  shows "n \<in> creating (pcs s t)" "current s b \<noteq> Some n" "home s n \<noteq> None"
proof -
  show "n \<in> creating (pcs s t)" using assms(2) by (cases "pcs s t") auto
  then show "current s b \<noteq> Some n" "home s n \<noteq> None" using assms(1) by (auto simp: ult_inv_def thread_inv_def)
qed

lemma advance_resume:
  assumes inv: "ult_inv s" "resume_inv s" and ok: "action_ok t Step s" and step: "advance t s = Inr s'"
  shows "resume_inv s'"
proof -
  have ti: "thread_inv s t" and cr: "\<And>t' n. n \<in> creating (pcs s t') \<Longrightarrow> current s t \<noteq> Some n"
    and dis: "\<And>t'. t' \<noteq> t \<Longrightarrow> mine t s \<inter> mine t' s = {}"
    using inv(1) by (auto simp: ult_inv_def)
  have tr: "thread_ready s t" using inv(2) by (simp add: resume_inv_def)
  have free: "resumable s a" if "home s a \<noteq> None" "\<not> locked s a" "\<And>b. a \<notin> creating (pcs s b)" for a
    using inv(2) that by (simp add: resume_inv_def)
  note defs = thread_ready_def same_places_def same_contexts_def jumped_def
  note own = thread_inv_def holds_def mine_def
  show ?thesis
  proof (cases "pcs s t")
    case Run
    then show ?thesis using step inv by (simp add: step_defs)
  next
    case (Locked f to)
    then have s': "s' = s\<lparr>current := (current s)(t := Some to), pcs := (pcs s)(t := Chosen f to)\<rparr>"
      using step by (simp add: step_defs goto_def)
    show ?thesis using tr Locked by (intro resume_inv_step [OF inv, of t]) (auto simp: defs s')
  next
    case (Chosen f to)
    then obtain s1 where s1: "context_save t f (AtSwitch f to) s = Inr s1" "s' = s1\<lparr>pcs := (pcs s1)(t := Saved f to)\<rparr>"
      using step by (auto simp: step_defs goto_def kbind_Inr_iff)
    have "home s f = Some (stk s t)" using ti Chosen by (simp add: own)
    from context_save_view [OF s1(1) this] show ?thesis using tr ti Chosen ok
      by (intro resume_inv_step [OF inv, of t]) (auto simp: defs s1 own)
  next
    case (Saved f to)
    then obtain s1 where s1: "ult_unlock f s = Inr s1" "s' = s1\<lparr>pcs := (pcs s1)(t := Released f to)\<rparr>"
      using step by (auto simp: step_defs goto_def kbind_Inr_iff)
    from ult_unlock_view [OF s1(1)] show ?thesis using tr ti Saved
      by (intro resume_inv_step [OF inv, of t]) (auto simp: defs s1 own split: if_splits)
  next
    case (Released f to)
    obtain h where h: "home s to = Some h" using ti Released by (auto simp: own)
    have "jump_back t to s = Inr s'" "resumable s to" using step tr Released by (auto simp: step_defs thread_ready_def)
    from jump_back_view [OF this h] show ?thesis using tr ti Released
      by (intro resume_inv_step [OF inv, of t]) (auto simp: defs own)
  next
    case (Prepared new)
    then obtain got s1 where s1: "ult_trylock new s = Inr (got, s1)"
      "s' = (if got then s1\<lparr>pcs := (pcs s1)(t := NewLocked new)\<rparr> else s1)"
      using step by (auto simp: step_defs ult_lock_def kbind_Inr_iff)
    from ult_trylock_view [OF s1(1)] show ?thesis using tr ti Prepared
      by (intro resume_inv_step [OF inv, of t]) (auto simp: defs s1 own split: if_splits)
  next
    case (NewLocked new)
    then obtain c s1 where s1: "current s t = Some c" "context_save t c (AtCreate new) s = Inr s1"
      "s' = s1\<lparr>pcs := (pcs s1)(t := NewSaved new)\<rparr>"
      using step by (cases "current s t") (auto simp: step_defs goto_def kbind_Inr_iff)
    have "home s c = Some (stk s t)" "c \<noteq> new" using ti NewLocked s1(1) by (auto simp: own)
    with context_save_view [OF s1(2) this(1)] show ?thesis using tr ti NewLocked ok s1(1)
      by (intro resume_inv_step [OF inv, of t]) (auto simp: defs s1(3) own)
  next
    case (NewSaved new)
    then obtain c s1 where s1: "current s t = Some c" "ult_unlock c s = Inr s1"
      "s' = s1\<lparr>pcs := (pcs s1)(t := NewReleased new)\<rparr>"
      using step by (cases "current s t") (auto simp: step_defs goto_def kbind_Inr_iff)
    from ult_unlock_view [OF s1(2)] show ?thesis using tr ti NewSaved s1(1)
      by (intro resume_inv_step [OF inv, of t]) (auto simp: defs s1(3) own split: if_splits)
  next
    case (NewReleased new)
    obtain h where h: "home s new = Some h" using ti NewReleased by (auto simp: own)
    have "long_jmp t new 1 s = Inr s'" "frame_of s new = Some AtTrampoline" "creat_ctx s t = Some new"
      using step tr NewReleased by (auto simp: step_defs thread_ready_def)
    from trampoline_view [OF this h] show ?thesis using tr ti NewReleased
      by (intro resume_inv_step [OF inv, of t]) (auto simp: defs own)
  next
    case (Boot new)
    then obtain c got s1 where s1: "current s t = Some c" "ult_trylock c s = Inr (got, s1)"
      "s' = (if got then s1\<lparr>pcs := (pcs s1)(t := BootLocked new)\<rparr> else s1)"
      using step by (cases "current s t") (auto simp: step_defs ult_lock_def kbind_Inr_iff)
    from ult_trylock_view [OF s1(2)] show ?thesis using tr ti Boot s1(1)
      by (intro resume_inv_step [OF inv, of t]) (auto simp: defs s1(3) own split: if_splits)
  next
    case (BootLocked new)
    then obtain s1 where s1: "context_save t new AtBoot s = Inr s1" "s' = s1\<lparr>pcs := (pcs s1)(t := BootSaved new)\<rparr>"
      using step by (auto simp: step_defs goto_def kbind_Inr_iff)
    have "home s new = Some (stk s t)" using ti BootLocked by (simp add: own)
    from context_save_view [OF s1(1) this] show ?thesis using tr ti BootLocked ok
      by (intro resume_inv_step [OF inv, of t]) (auto simp: defs s1 own)
  next
    case (BootSaved new)
    then obtain s1 where s1: "ult_unlock new s = Inr s1" "s' = s1\<lparr>pcs := (pcs s1)(t := BootReleased new)\<rparr>"
      using step by (auto simp: step_defs goto_def kbind_Inr_iff)
    from ult_unlock_view [OF s1(1)] show ?thesis using tr ti BootSaved
      by (intro resume_inv_step [OF inv, of t]) (auto simp: defs s1 own split: if_splits)
  next
    case (BootReleased new)
    then obtain c where c: "current s t = Some c" "jump_back t c s = Inr s'"
      using step by (cases "current s t") (auto simp: step_defs)
    obtain h where h: "home s c = Some h" using ti BootReleased c(1) by (auto simp: own)
    have "resumable s c" "resumable s new" using tr BootReleased c(1) by (simp_all add: thread_ready_def)
    with jump_back_view [OF c(2) this(1) h] show ?thesis using ti BootReleased
      by (intro resume_inv_step [OF inv, of t]) (auto simp: defs own)
  qed
qed

section \<open>The calls\<close>

lemma convert_resume:
  assumes inv: "ult_inv s" "resume_inv s" and ok: "action_ok t (Convert a) s" and step: "ult_convert t a s = Inr s'"
  shows "resume_inv s'"
  using step ok
  by (intro resume_inv_step [OF inv, of t])
    (auto simp: ult_convert_def resumable_def frame_of_def thread_ready_def home_def locked_def split: if_splits)

lemma creat_resume:
  assumes inv: "ult_inv s" "resume_inv s" and ok: "action_ok t (Creat a st r x entry arg) s"
    and step: "ult_creat t a st r x entry arg s = Inr s'"
  shows "resume_inv s'"
proof -
  from ok obtain c where c: "pcs s t = Run" "current s t = Some c" "ults s a = None" by auto
  with step show ?thesis
    by (intro resume_inv_step [OF inv, of t])
      (auto simp: ult_creat_def context_create_def goto_def resumable_def frame_of_def thread_ready_def home_def locked_def
        split: if_splits)
qed

lemma switch_resume:
  assumes inv: "ult_inv s" "resume_inv s" and ok: "action_ok t (SwitchTo p) s" and step: "ult_switch_to t p s = Inr s'"
  shows "resume_inv s'"
proof (cases p)
  case None
  then show ?thesis using step inv by (simp add: ult_switch_to_def)
next
  case (Some a)
  from ok Some obtain c where c: "pcs s t = Run" "current s t = Some c" "home s a \<noteq> None"
    "\<And>t'. a \<notin> creating (pcs s t')" by auto
  from step Some obtain got s1 where s1: "ult_trylock a s = Inr (got, s1)"
    "(if \<not> got then Inr s1 else kbind (nonnull (current s1 t)) (\<lambda>from. goto t (Locked from a) s1)) = Inr s'"
    by (auto simp: ult_switch_to_def kbind_Inr_iff)
  have v: "same_places s s1" "same_contexts s s1" "got = (\<not> locked s a)" "locked s1 = (locked s)(a := True)"
    using ult_trylock_view [OF s1(1)] by simp_all
  have "resumable s a" if got using inv(2) c v(3) that by (simp add: resume_inv_def)
  moreover have "s' = (if got then s1\<lparr>pcs := (pcs s1)(t := Locked c a)\<rparr> else s1)"
    using s1(2) v(1) c(2) by (auto simp: same_places_def goto_def split: if_splits)
  moreover have "thread_ready s t" using inv(2) by (simp add: resume_inv_def)
  ultimately show ?thesis using v c
    by (intro resume_inv_step [OF inv, of t])
      (auto simp: thread_ready_def same_places_def same_contexts_def split: if_splits)
qed

lemma compute_resume:
  assumes "resume_inv s"
  shows "resume_inv (s\<lparr>live := l\<rparr>)" "resume_inv (s\<lparr>rax := x\<rparr>)"
  using assms by (simp_all add: resume_inv_def thread_ready_def)

section \<open>Reachable states\<close>

lemma step_inv:
  assumes inv: "ult_inv s" "resume_inv s" and ok: "action_ok t ac s" and step: "ult_step t ac s = Inr s'"
  shows "ult_inv s' \<and> resume_inv s'"
proof (cases ac)
  case Step
  have "thread_ready s t" using inv(2) by (simp add: resume_inv_def)
  then show ?thesis using Step step ok advance_inv [OF inv(1)] advance_resume [OF inv] by simp
next
  case (Convert a)
  then show ?thesis using step ok convert_inv [OF inv(1)] convert_resume [OF inv] by (simp del: action_ok.simps)
next
  case (SwitchTo p)
  then show ?thesis using step ok switch_inv [OF inv(1)] switch_resume [OF inv] by (simp del: action_ok.simps)
next
  case (Creat a st r x entry arg)
  then show ?thesis using step ok creat_inv [OF inv(1)] creat_resume [OF inv] by (simp del: action_ok.simps)
next
  case (Compute r)
  then show ?thesis using step inv compute_inv compute_resume by auto
next
  case (Rax v)
  then show ?thesis using step inv compute_inv compute_resume by auto
qed

lemma init_inv: "ult_init s \<Longrightarrow> ult_inv s \<and> resume_inv s"
  by (auto simp: ult_init_def ult_inv_def thread_inv_def resume_inv_def thread_ready_def holds_def mine_def home_def inj_def)

lemma reach_invs: "ult_reach s \<Longrightarrow> ult_inv s \<and> resume_inv s"
  by (induction rule: ult_reach.induct) (use init_inv step_inv in blast)+

lemma reach_inv: "ult_reach s \<Longrightarrow> ult_inv s"
  by (simp add: reach_invs)

lemma reach_ready: "ult_reach s \<Longrightarrow> thread_ready s t"
  using reach_invs [of s] by (simp add: resume_inv_def)

end
