(* ===== verification/Ult_Spec.thy ===== *)
theory Ult_Spec
  imports Ult_Resume
begin

text \<open>
  What the user-level threads guarantee to callers that keep to \<open>action_ok\<close>: the lock of a fiber is
  held for one thread at a time, no call faults, a switch that is not disturbed resumes the target
  with the registers it was saved with, and a creation returns with a fiber that is ready to run its
  entry point. What they do not: a thread leaves the stack of the fiber it switches away from only
  after it has unlocked it, so for the length of a jump two threads can execute on one stack; and a
  context saved with a zero in the low half of RAX sends whoever resumes it on to another fiber, whose
  lock it does not hold.
\<close>

section \<open>Locks and stacks\<close>

text \<open>C24. Under every interleaving of callers that keep to \<open>action_ok\<close> (a thread converts itself before it
  uses the library, switches to fibers whose creation has returned, creates on fresh objects and stacks,
  and no context is saved with a zero in the low half of RAX) the lock of a fiber is held on behalf of at
  most one thread, and every fiber a thread works on is locked.\<close>

theorem ult_lock_exclusive:
  assumes "ult_reach s" "a \<in> holds t s"
  shows "locked s a \<and> (a \<in> holds t' s \<longrightarrow> t' = t)"
  using reach_inv [OF assms(1)] assms(2) by (fastforce simp: ult_inv_def thread_inv_def mine_def)

lemma runs_on_mine:
  assumes "thread_inv s t" "runs_on (pcs s t) (current s t) = Some a"
    and "\<And>f to. pcs s t \<noteq> Released f to" "\<And>n. pcs s t \<noteq> NewReleased n"
  shows "a \<in> mine t s"
  using assms by (cases "pcs s t") (auto simp: mine_def holds_def)

text \<open>C25. Under every interleaving of callers that keep to \<open>action_ok\<close> (in particular no context is saved with
  a zero in the low half of RAX) two threads execute on different stacks, unless one of them is between
  the unlocking of the fiber it leaves and the jump to the next one.\<close>

theorem ult_stacks_distinct:
  assumes "ult_reach s" "t \<noteq> t'"
    and "\<forall>f to n. pcs s t \<noteq> Released f to \<and> pcs s t \<noteq> NewReleased n"
    and "\<forall>f to n. pcs s t' \<noteq> Released f to \<and> pcs s t' \<noteq> NewReleased n"
  shows "stk s t \<noteq> stk s t'"
proof -
  have inv: "ult_inv s" by (rule reach_inv [OF assms(1)])
  have ti: "thread_inv s b" for b using inv by (simp add: ult_inv_def)
  have no: "current s b = None" if "runs_on (pcs s b) (current s b) = None" for b
    using that by (cases "pcs s b") auto
  have free: "home s y \<noteq> Some (stk s x)" if "current s x = None" for x y
    using inv that by (simp add: ult_inv_def)
  have home: "home s a = Some (stk s b)" if "runs_on (pcs s b) (current s b) = Some a" for a b
    using ti [of b] that by (auto simp: thread_inv_def)
  show ?thesis
  proof (cases "runs_on (pcs s t) (current s t)")
    case None
    show ?thesis
    proof (cases "runs_on (pcs s t') (current s t')")
      case None
      then show ?thesis using no \<open>runs_on (pcs s t) (current s t) = None\<close> inv assms(2) by (simp add: ult_inv_def)
    next
      case (Some b)
      then show ?thesis using home [OF Some] free [OF no [OF \<open>runs_on (pcs s t) (current s t) = None\<close>]] by metis
    qed
  next
    case (Some a)
    show ?thesis
    proof (cases "runs_on (pcs s t') (current s t')")
      case None
      then show ?thesis using home [OF Some] free [OF no [OF None]] by metis
    next
      case b: (Some b)
      have "a \<in> mine t s" by (rule runs_on_mine [OF ti Some]) (use assms(3) in auto)
      moreover have "b \<in> mine t' s" by (rule runs_on_mine [OF ti b]) (use assms(4) in auto)
      ultimately have "a \<noteq> b" using inv assms(2) by (auto simp: ult_inv_def)
      then show ?thesis using home [OF Some] home [OF b] inv by (auto simp: ult_inv_def)
    qed
  qed
qed

section \<open>No call faults\<close>

lemma total:
  assumes "ults s a \<noteq> None"
  shows "\<exists>s'. ult_modify a f s = Inr s'" "\<exists>s'. context_save t a fr s = Inr s'" "\<exists>s'. ult_unlock a s = Inr s'"
    "\<exists>s'. ult_lock t a p s = Inr s'" "\<exists>got s'. ult_trylock a s = Inr (got, s') \<and> current s' = current s"
  using assms
  by (auto simp: ult_modify_def context_save_def ult_unlock_def ult_lock_def ult_trylock_def)

lemma jump_total:
  assumes "resumable s a"
  shows "\<exists>s'. jump_back t a s = Inr s'"
proof -
  obtain u where u: "ults s a = Some u" "\<not> returns_zero (ctx_rax (ult_context u))" "goes_on (ctx_frame (ult_context u))"
    using assms by (auto simp: resumable_def)
  then show ?thesis
    by (cases "ctx_frame (ult_context u)") (simp_all add: jump_back_def long_jmp_def resume_def goto_def)
qed

lemma trampoline_total:
  assumes "frame_of s a = Some AtTrampoline" "creat_ctx s t = Some a"
  shows "\<exists>s'. long_jmp t a 1 s = Inr s'"
  using assms
  by (auto simp: frame_of_def long_jmp_def resume_def returns_zero_def ult_modify_def goto_def)

lemma goto_total: "\<exists>s'. m = Inr s' \<Longrightarrow> \<exists>s'. kbind m (goto t p) = Inr s'"
  by (auto simp: goto_def)

lemma advance_total:
  assumes "thread_inv s t" "thread_ready s t"
  shows "\<exists>s'. advance t s = Inr s'"
proof -
  have ex: "ults s a \<noteq> None" if "a \<in> holds t s \<or> a \<in> creating (pcs s t) \<or> current s t = Some a" for a
  proof -
    have "home s a \<noteq> None" using assms(1) that home_locked [of s a] by (auto simp: thread_inv_def)
    then show ?thesis by (auto simp: home_def)
  qed
  have cur: "\<exists>c. current s t = Some c" if "creating (pcs s t) \<noteq> {}"
    using assms(1) that by (cases "pcs s t") (auto simp: thread_inv_def)
  show ?thesis
  proof (cases "pcs s t")
    case Run
    then show ?thesis by (simp add: step_defs)
  next
    case (Locked f to)
    then show ?thesis by (simp add: step_defs goto_def)
  next
    case (Chosen f to)
    then show ?thesis using ex [of f] by (auto simp: step_defs holds_def intro!: goto_total total)
  next
    case (Saved f to)
    then show ?thesis using ex [of f] by (auto simp: step_defs holds_def intro!: goto_total total)
  next
    case (Released f to)
    then show ?thesis using assms(2) by (auto simp: step_defs thread_ready_def intro!: jump_total)
  next
    case (Prepared n)
    then show ?thesis using ex [of n] by (auto simp: step_defs intro!: total)
  next
    case (NewLocked n)
    then show ?thesis using ex cur by (auto simp: step_defs intro!: goto_total total)
  next
    case (NewSaved n)
    then show ?thesis using ex cur by (auto simp: step_defs intro!: goto_total total)
  next
    case (NewReleased n)
    then show ?thesis using assms(2) by (auto simp: step_defs thread_ready_def intro!: trampoline_total)
  next
    case (Boot n)
    then show ?thesis using ex cur by (auto simp: step_defs intro!: total)
  next
    case (BootLocked n)
    then show ?thesis using ex [of n] by (auto simp: step_defs holds_def intro!: goto_total total)
  next
    case (BootSaved n)
    then show ?thesis using ex [of n] by (auto simp: step_defs holds_def intro!: goto_total total)
  next
    case (BootReleased n)
    then obtain c where c: "current s t = Some c" using cur by auto
    then show ?thesis using BootReleased assms(2) by (auto simp: step_defs thread_ready_def intro!: jump_total)
  qed
qed

text \<open>C26. In every state callers that keep to \<open>action_ok\<close> reach, every step of such a caller returns: no NULL
  or dangling pointer is followed, and nothing returns into a signal delivery that is over.\<close>

theorem ult_returns:
  assumes "ult_reach s" "action_ok t ac s"
  shows "\<exists>s'. ult_step t ac s = Inr s'"
proof (cases ac)
  case (SwitchTo p)
  show ?thesis
  proof (cases p)
    case (Some a)
    then have "ults s a \<noteq> None" using assms(2) SwitchTo by (auto simp: home_def)
    from total(5) [OF this] assms(2) SwitchTo Some show ?thesis by (auto simp: ult_switch_to_def goto_def)
  qed (simp add: SwitchTo ult_switch_to_def)
next
  case Step
  have "thread_inv s t" using reach_inv [OF assms(1)] by (simp add: ult_inv_def)
  from advance_total [OF this reach_ready [OF assms(1)]] Step show ?thesis by simp
qed (use assms(2) in \<open>auto simp: ult_convert_def ult_creat_def context_create_def goto_def\<close>)

section \<open>Undisturbed runs\<close>

fun ult_trace :: "(tid \<times> 'r action) list \<Rightarrow> 'r ult_state \<Rightarrow> fault + 'r ult_state" where
  "ult_trace [] s = Inr s"
| "ult_trace ((t, ac) # acs) s = kbind (ult_step t ac s) (ult_trace acs)"

text \<open>Whether the callers keep to \<open>action_ok\<close> all the way.\<close>

fun trace_ok :: "(tid \<times> 'r action) list \<Rightarrow> 'r ult_state \<Rightarrow> bool" where
  "trace_ok [] s = True"
| "trace_ok ((t, ac) # acs) s \<longleftrightarrow> action_ok t ac s \<and> (case ult_step t ac s of Inl _ \<Rightarrow> False | Inr s' \<Rightarrow> trace_ok acs s')"

lemma trace_reach: "ult_reach s \<Longrightarrow> trace_ok acs s \<Longrightarrow> ult_trace acs s = Inr s' \<Longrightarrow> ult_reach s'"
proof (induction acs arbitrary: s)
  case (Cons x acs)
  obtain t ac where x: "x = (t, ac)" by (cases x)
  with Cons.prems(3) obtain s1 where s1: "ult_step t ac s = Inr s1" "ult_trace acs s1 = Inr s'"
    by (auto simp: kbind_Inr_iff)
  have "action_ok t ac s" "trace_ok acs s1" using Cons.prems(2) x s1(1) by simp_all
  with s1 ult_reach.step [OF Cons.prems(1)] Cons.IH show ?case by blast
qed simp

abbreviation steps :: "nat \<Rightarrow> tid \<Rightarrow> (tid \<times> 'r action) list" where
  "steps n t \<equiv> replicate n (t, Step)"

lemmas ult_prims = step_defs goto_def context_save_def ult_modify_def jump_back_def long_jmp_def ult_lock_def
  ult_trylock_def ult_unlock_def ult_switch_to_def ult_creat_def context_create_def ult_convert_def

lemmas ult_eval = ult_prims numeral_eq_Suc

lemma steps_list: "steps 2 t = [(t, Step), (t, Step)]" "steps 3 t = [(t, Step), (t, Step), (t, Step)]"
  by (simp_all add: numeral_eq_Suc)

text \<open>The context thread \<open>t\<close> saves when it calls \<open>set_jmp\<close> at \<open>fr\<close>.\<close>

abbreviation context_now :: "'r ult_state \<Rightarrow> tid \<Rightarrow> frame \<Rightarrow> 'r exec_context" where
  "context_now s t fr \<equiv> \<lparr>ctx_regs = live s t, ctx_rax = rax s t, ctx_stack = stk s t, ctx_frame = fr\<rparr>"

text \<open>A switch to a free fiber that no other thread disturbs: the thread goes on with the registers and
  the stack of the target's saved context, the target is locked, and the fiber it left is free, with
  the thread's registers and stack as its context.\<close>

lemma switch_run:
  assumes "pcs s t = Run" "current s t = Some f" "ults s f = Some uf" "ults s to = Some ut" "\<not> ult_running ut" "f \<noteq> to"
    "goes_on (ctx_frame (ult_context ut))" "\<not> returns_zero (ctx_rax (ult_context ut))"
  shows "ult_trace ((t, SwitchTo (Some to)) # steps 4 t) s =
    Inr (s\<lparr>ults := (ults s)(f := Some (uf\<lparr>ult_running := False, ult_context := context_now s t (AtSwitch f to)\<rparr>),
                            to := Some (ut\<lparr>ult_running := True\<rparr>)),
            current := (current s)(t := Some to),
            live := (live s)(t := ctx_regs (ult_context ut)),
            rax := (rax s)(t := ctx_rax (ult_context ut)),
            stk := (stk s)(t := ctx_stack (ult_context ut))\<rparr>)"
  using assms by (cases uf) (simp add: ult_eval resume_on fun_upd_twist fun_upd_idem)

text \<open>A thread that resumes a fiber whose context has a zero in the low half of RAX takes the branch of
  the first return again: it unlocks the fiber it was to resume and goes on in the fiber that one had
  switched to long ago, on its stack, whether that one is locked or not.\<close>

theorem ult_zero_resume:
  assumes "pcs s t = Released g f" "ults s f = Some uf" "ctx_frame (ult_context uf) = AtSwitch f to"
    "returns_zero (ctx_rax (ult_context uf))" "ults s to = Some ut" "f \<noteq> to" "resumable s to"
  shows "\<exists>s'. ult_trace (steps 3 t) s = Inr s' \<and> pcs s' t = Run \<and> current s' t = current s t \<and>
    stk s' t = ctx_stack (ult_context ut) \<and> \<not> locked s' f \<and> locked s' to = locked s to"
proof -
  have "goes_on (ctx_frame (ult_context ut))" "\<not> returns_zero (ctx_rax (ult_context ut))"
    using assms(5,7) by (auto simp: resumable_def)
  moreover have "resume t (AtSwitch f to) (ctx_rax (ult_context uf)) s1 = goto t (Saved f to) s1" for s1 :: "'a ult_state"
    using assms(4) by (simp add: resume_def)
  ultimately show ?thesis using assms(1-6) by (simp add: ult_eval resume_on locked_def)
qed

text \<open>A switch to NULL, or to a fiber that is running (the caller's own included), changes
  nothing.\<close>

theorem ult_switch_refused:
  assumes "case p of None \<Rightarrow> True | Some a \<Rightarrow> \<exists>u. ults s a = Some u \<and> ult_running u"
  shows "ult_step t (SwitchTo p) s = Inr s"
  using assms by (auto simp: ult_switch_to_def ult_trylock_def fun_upd_idem split: option.splits)

lemma ult_create_run:
  assumes "pcs s t = Run" "current s t = Some c" "ults s c = Some uc" "ult_running uc" "ults s a = None"
    "\<not> returns_zero (rax s t)"
  shows "\<exists>s'. ult_trace ((t, Creat a st r x entry arg) # steps 8 t) s = Inr s' \<and>
    pcs s' = pcs s \<and> current s' = current s \<and> live s' = live s \<and> rax s' = rax s \<and> stk s' = stk s \<and> ult_id s' = ult_id s + 1 \<and>
    ults s' = (ults s)(c := Some (uc\<lparr>ult_context := context_now s t (AtCreate a)\<rparr>),
      a := Some \<lparr>ult_running = False, ult_context = \<lparr>ctx_regs = r, ctx_rax = 1, ctx_stack = st, ctx_frame = AtBoot\<rparr>, ult_no = ult_id s,
                 ult_start = Some (entry, arg)\<rparr>)"
proof -
  have "c \<noteq> a" using assms(3,5) by auto
  moreover have "resume t AtTrampoline 1 s1 = kbind (nonnull (creat_ctx s1 t)) (\<lambda>new.
      kbind (ult_modify new (\<lambda>u. u\<lparr>ult_start := Some (creat_func s1 t, creat_arg s1 t)\<rparr>) s1) (goto t (Boot new)))"
    for s1 :: "'a ult_state" by (simp add: resume_def returns_zero_def)
  ultimately show ?thesis using assms by (cases uc) (simp add: ult_eval resume_on fun_upd_twist fun_upd_idem)
qed

text \<open>A creation that no other thread disturbs returns to its caller with the registers and the stack it
  had; the new fiber is free, has the next id, its context lies on the new stack, and it will run the
  given entry point with the given argument.\<close>

theorem ult_create_returns:
  assumes "pcs s t = Run" "current s t = Some c" "ults s c = Some uc" "ult_running uc" "ults s a = None"
    "\<not> returns_zero (rax s t)"
  shows "\<exists>s'. ult_trace ((t, Creat a st r x entry arg) # steps 8 t) s = Inr s' \<and>
    pcs s' = pcs s \<and> current s' = current s \<and> live s' = live s \<and> rax s' = rax s \<and> stk s' = stk s \<and> ult_id s' = ult_id s + 1 \<and>
    ults s' = (ults s)(c := Some (uc\<lparr>ult_context := context_now s t (AtCreate a)\<rparr>),
      a := Some \<lparr>ult_running = False, ult_context = \<lparr>ctx_regs = r, ctx_rax = 1, ctx_stack = st, ctx_frame = AtBoot\<rparr>, ult_no = ult_id s,
                 ult_start = Some (entry, arg)\<rparr>)"
  by (rule ult_create_run [OF assms])

section \<open>The stack of a new fiber\<close>

text \<open>With pages of 4096 bytes \<open>get_ult_stack\<close> stays within the block it allocates only for stack
  sizes up to \<open>STACK_SIZE\<close>; for larger ones it clears memory behind the block.\<close>

theorem ult_stack_overflow:
  assumes "0 < sz"
  shows "get_ult_stack sigstksz 4096 sz =
    (if sz \<le> STACK_SIZE then Inr (4096 * ((sz + 4095) div 4096)) else Inl OutOfBounds)"
proof -
  obtain q r where d: "sz = 4096 * q + r" "r < 4096" by (metis mod_less_divisor mult_div_mod_eq zero_less_numeral)
  have e: "(4096 * q + r + 4095) div 4096 = (if r = 0 then q else Suc q)" using d(2) by auto
  show ?thesis using assms d
    by (cases "q \<le> 1") (auto simp: get_ult_stack_def STACK_SIZE_def Let_def e)
qed

theorem ult_stack_overflow_witness:
  "get_ult_stack 8192 4096 8193 = Inl OutOfBounds \<and> get_ult_stack 8192 4096 100 = Inr 4096"
  using ult_stack_overflow [of 8193 8192] ult_stack_overflow [of 100 8192] by (simp add: STACK_SIZE_def)

section \<open>Local storage\<close>

lemma of_nat_pos:
  assumes "k < 2 ^ 63"
  shows "unat (of_nat k :: u64) = k" "sint (of_nat k :: u64) = int k"
proof -
  show u: "unat (of_nat k :: u64) = k" using assms by (simp add: unsigned_of_nat take_bit_nat_eq_self)
  have e: "uint (of_nat k :: u64) = int k" by (simp only: uint_nat u)
  have "- (2 ^ 63) \<le> int k" "int k < 2 ^ 63" using assms by simp_all
  then have "signed_take_bit 63 (int k) = int k" by (simp only: signed_take_bit_int_eq_self_iff)
  then show "sint (of_nat k :: u64) = int k" by (simp only: sint_uint e) simp
qed

lemma fls_alloc_at:
  assumes "fls_idx f = of_nat k" "k < 2 ^ 63"
  shows "fls_alloc f = (if k < ULT_MAX_FLS then of_nat k else - 1, f\<lparr>fls_idx := of_nat (Suc k)\<rparr>)"
proof -
  have "fls_idx f + 1 = of_nat (Suc k)" using assms(1) by simp
  moreover have "(int ULT_MAX_FLS \<le> sint (fls_idx f)) = (\<not> k < ULT_MAX_FLS)"
    unfolding assms(1) of_nat_pos(2) [OF assms(2)] by linarith
  ultimately show ?thesis unfolding fls_alloc_def Let_def by (simp add: assms(1))
qed

text \<open>A slot \<open>fls_alloc\<close> has handed out can be written and read back, and a write to one slot leaves the
  others; after 4096 calls the allocation fails.\<close>

theorem ult_fls_slots:
  assumes "fls_idx f = of_nat k" "k < 2 ^ 63" "length (fls_values f) = ULT_MAX_FLS" "fls_alloc f = (i, f1)"
  shows "if k < ULT_MAX_FLS
    then i = of_nat k \<and> (\<forall>v. \<exists>f2. fls_set i v f1 = Inr f2 \<and> fls_get i f2 = Inr v \<and>
           (\<forall>j < ULT_MAX_FLS. j \<noteq> k \<longrightarrow> fls_get (of_nat j) f2 = fls_get (of_nat j) f))
    else i = - 1"
proof -
  have r: "i = (if k < ULT_MAX_FLS then of_nat k else - 1)" "f1 = f\<lparr>fls_idx := of_nat (Suc k)\<rparr>"
    using fls_alloc_at [OF assms(1,2)] assms(4) by simp_all
  have n: "sint (of_nat j :: u64) = int j \<and> unat (of_nat j :: u64) = j" if "j < ULT_MAX_FLS" for j
  proof -
    have "j < 2 ^ 63" using that by (simp add: ULT_MAX_FLS_def)
    then show ?thesis using of_nat_pos [of j] by simp
  qed
  show ?thesis using r n assms(3) by (auto simp: fls_set_def fls_get_def)
qed

theorem ult_fls_slots_witness:
  "\<exists>f2. fls_set 0 7 (snd (fls_alloc \<lparr>fls_values = replicate 4096 0, fls_idx = 0\<rparr>)) = Inr f2 \<and> fls_get 0 f2 = Inr 7"
proof -
  let ?f = "\<lparr>fls_values = replicate 4096 0, fls_idx = 0\<rparr>"
  obtain i f1 where f1: "fls_alloc ?f = (i, f1)" by (cases "fls_alloc ?f")
  have p: "fls_idx ?f = of_nat 0" "(0::nat) < 2 ^ 63" "length (fls_values ?f) = ULT_MAX_FLS" "0 < ULT_MAX_FLS"
    by (simp_all add: ULT_MAX_FLS_def)
  from ult_fls_slots [OF p(1-3) f1] p(4) have "i = 0" "\<exists>f2. fls_set i 7 f1 = Inr f2 \<and> fls_get i f2 = Inr 7"
    by auto
  with f1 show ?thesis by simp
qed

section \<open>Two threads on one stack\<close>

text \<open>Thread 0 becomes fiber 100 and thread 1 fiber 200; thread 0 creates fiber 300 on a new stack and
  switches to it, and stops between the unlocking of fiber 100 and the jump.\<close>

definition ult_start_state :: "nat ult_state" where
  "ult_start_state = \<lparr>ults = (\<lambda>_. None), ult_id = 0, current = (\<lambda>_. None), creat_func = (\<lambda>_. 0), creat_arg = (\<lambda>_. 0),
     creat_ctx = (\<lambda>_. None), pcs = (\<lambda>_. Run), live = (\<lambda>t. t), rax = (\<lambda>_. 1), stk = (\<lambda>t. 2 * t)\<rparr>"

lemma start_reach: "ult_reach ult_start_state"
  by (rule ult_reach.init) (simp add: ult_init_def ult_start_state_def inj_def)

lemma switch_released:
  assumes "pcs s t = Run" "current s t = Some f" "ults s f = Some uf" "ults s to = Some ut" "\<not> ult_running ut" "f \<noteq> to"
  shows "\<exists>s'. ult_trace ((t, SwitchTo (Some to)) # steps 3 t) s = Inr s' \<and> pcs s' = (pcs s)(t := Released f to) \<and>
    current s' = (current s)(t := Some to) \<and> live s' = live s \<and> stk s' = stk s \<and> (\<forall>b. b \<noteq> t \<longrightarrow> rax s' b = rax s b) \<and>
    ults s' = (ults s)(f := Some (uf\<lparr>ult_running := False, ult_context := context_now s t (AtSwitch f to)\<rparr>),
                       to := Some (ut\<lparr>ult_running := True\<rparr>))"
  using assms by (cases uf) (simp add: ult_eval fun_upd_twist fun_upd_idem)

lemma switch_ok:
  assumes "pcs s t = Run" "current s t = Some f" "ults s f = Some uf" "ults s to = Some ut" "\<not> ult_running ut" "f \<noteq> to"
    "\<not> returns_zero (rax s t)" "\<And>b. to \<notin> creating (pcs s b)"
  shows "trace_ok ((t, SwitchTo (Some to)) # steps 3 t) s"
  using assms by (cases uf) (simp add: ult_eval home_def)

lemma switch_run_ok:
  assumes "pcs s t = Run" "current s t = Some f" "ults s f = Some uf" "ults s to = Some ut" "\<not> ult_running ut" "f \<noteq> to"
    "\<not> returns_zero (rax s t)" "\<And>b. to \<notin> creating (pcs s b)"
    "goes_on (ctx_frame (ult_context ut))" "\<not> returns_zero (ctx_rax (ult_context ut))"
  shows "trace_ok ((t, SwitchTo (Some to)) # steps 4 t) s"
  using assms by (cases uf) (simp add: ult_eval home_def resume_on)

text \<open>Thread 0 runs fiber 100 and thread 1 fiber 200. Both have converted themselves and then left a 1 in
  RAX.\<close>

definition plain_ult :: "nat \<Rightarrow> u32 \<Rightarrow> addr \<Rightarrow> nat ult" where
  "plain_ult r n a = \<lparr>ult_running = True,
     ult_context = \<lparr>ctx_regs = r, ctx_rax = 1, ctx_stack = 2 * r, ctx_frame = AtConvert a\<rparr>, ult_no = n, ult_start = None\<rparr>"

definition two_fibers :: "nat ult_state" where
  "two_fibers = ult_start_state\<lparr>ults := (\<lambda>_. None)(100 := Some (plain_ult 0 0 100), 200 := Some (plain_ult 1 1 200)),
     ult_id := 2, current := (\<lambda>_. None)(0 := Some 100, 1 := Some 200)\<rparr>"

lemma two_fibers:
  "pcs two_fibers = (\<lambda>_. Run)" "current two_fibers 0 = Some 100" "current two_fibers 1 = Some 200"
  "ults two_fibers 100 = Some (plain_ult 0 0 100)" "ults two_fibers 200 = Some (plain_ult 1 1 200)"
  "ults two_fibers 300 = None" "stk two_fibers = (\<lambda>t. 2 * t)" "live two_fibers = (\<lambda>t. t)" "rax two_fibers = (\<lambda>_. 1)"
  "\<And>b. home two_fibers b \<noteq> Some 9"
  by (auto simp: two_fibers_def ult_start_state_def plain_ult_def home_def)

lemma one_not_zero: "\<not> returns_zero 1" by (simp add: returns_zero_def)

lemma two_reach: "ult_reach two_fibers"
proof -
  let ?s1 = "ult_start_state\<lparr>ults := (\<lambda>_. None)(100 := Some (plain_ult 0 0 100)), ult_id := 1,
    current := (\<lambda>_. None)(0 := Some 100), rax := (\<lambda>_. 1)(0 := 0)\<rparr>"
  have "ult_reach ?s1"
    by (rule ult_reach.step [OF start_reach, of 0 "Convert 100"])
      (simp_all add: ult_start_state_def ult_convert_def plain_ult_def)
  then have "ult_reach (?s1\<lparr>rax := \<lambda>_. 1\<rparr>)"
    by (rule ult_reach.step [of _ 0 "Rax 1"]) (simp_all add: ult_start_state_def fun_upd_idem)
  then have "ult_reach (two_fibers\<lparr>rax := (\<lambda>_. 1)(1 := 0)\<rparr>)"
    by (rule ult_reach.step [of _ 1 "Convert 200"])
      (simp_all add: two_fibers_def ult_start_state_def ult_convert_def plain_ult_def)
  then show ?thesis
    by (rule ult_reach.step [of _ 1 "Rax 1"]) (simp_all add: two_fibers_def ult_start_state_def fun_upd_idem)
qed

lemma create_ok: "action_ok 0 (Creat 300 9 50 7 1000 0) two_fibers"
proof -
  have "2 * x \<noteq> (9 :: nat)" for x by presburger
  then show ?thesis using two_fibers by auto
qed

text \<open>Fiber 300 is created on stack 9.\<close>

definition new_ult :: "nat ult" where
  "new_ult = \<lparr>ult_running = False, ult_context = \<lparr>ctx_regs = 50, ctx_rax = 1, ctx_stack = 9, ctx_frame = AtBoot\<rparr>,
     ult_no = 2, ult_start = Some (1000, 0)\<rparr>"

definition three_fibers :: "nat ult_state" where
  "three_fibers = (case ult_trace ((0, Creat 300 9 50 7 1000 0) # steps 8 0) two_fibers of Inr s \<Rightarrow> s | Inl _ \<Rightarrow> two_fibers)"

lemma three_fibers:
  "ult_trace ((0, Creat 300 9 50 7 1000 0) # steps 8 0) two_fibers = Inr three_fibers"
  "pcs three_fibers = (\<lambda>_. Run)" "current three_fibers = current two_fibers" "stk three_fibers = (\<lambda>t. 2 * t)"
  "ults three_fibers 100 = Some ((plain_ult 0 0 100)\<lparr>ult_context := context_now two_fibers 0 (AtCreate 300)\<rparr>)"
  "ults three_fibers 200 = Some (plain_ult 1 1 200)" "ults three_fibers 300 = Some new_ult"
  "live three_fibers = (\<lambda>t. t)" "rax three_fibers = (\<lambda>_. 1)"
proof -
  let ?l = "(0, Creat 300 9 50 7 1000 0) # steps 8 0"
  have p: "ult_running (plain_ult 0 0 100)" "ult_id two_fibers = 2"
    by (simp_all add: plain_ult_def two_fibers_def)
  obtain s where s: "ult_trace ?l two_fibers = Inr s" "pcs s = pcs two_fibers" "current s = current two_fibers"
    "stk s = stk two_fibers" "live s = live two_fibers" "rax s = rax two_fibers"
    "ults s = (ults two_fibers)(100 := Some ((plain_ult 0 0 100)\<lparr>ult_context := context_now two_fibers 0 (AtCreate 300)\<rparr>),
      300 := Some new_ult)"
    using ult_create_run [of two_fibers 0 100 "plain_ult 0 0 100" 300 9 50 7 1000 0] two_fibers p one_not_zero
    by (auto simp: new_ult_def)
  then have "three_fibers = s" by (simp add: three_fibers_def)
  with s two_fibers show "ult_trace ?l two_fibers = Inr three_fibers"
    "pcs three_fibers = (\<lambda>_. Run)" "current three_fibers = current two_fibers" "stk three_fibers = (\<lambda>t. 2 * t)"
    "ults three_fibers 100 = Some ((plain_ult 0 0 100)\<lparr>ult_context := context_now two_fibers 0 (AtCreate 300)\<rparr>)"
    "ults three_fibers 200 = Some (plain_ult 1 1 200)" "ults three_fibers 300 = Some new_ult"
    "live three_fibers = (\<lambda>t. t)" "rax three_fibers = (\<lambda>_. 1)" by simp_all
qed

lemma create_run_ok: "trace_ok ((0, Creat 300 9 50 7 1000 0) # steps 8 0) two_fibers"
proof -
  have "resume 0 AtTrampoline 1 s = kbind (nonnull (creat_ctx s 0)) (\<lambda>new.
      kbind (ult_modify new (\<lambda>u. u\<lparr>ult_start := Some (creat_func s 0, creat_arg s 0)\<rparr>) s) (goto 0 (Boot new)))"
    for s :: "nat ult_state" by (simp add: resume_def returns_zero_def)
  then show ?thesis
    using two_fibers create_ok one_not_zero by (simp add: ult_eval resume_on plain_ult_def del: action_ok.simps(4))
qed

lemma three_reach: "ult_reach three_fibers"
  by (rule trace_reach [OF two_reach create_run_ok three_fibers(1)])

text \<open>C33. Two threads can execute on one stack: thread 1 takes over fiber 100 while thread 0, which has
  unlocked it, has not yet left its stack.\<close>

theorem ult_stack_race:
  "\<exists>s :: nat ult_state. ult_reach s \<and> pcs s 0 = Released 100 300 \<and> pcs s 1 = Run \<and> current s 1 = Some 100 \<and> stk s 0 = stk s 1"
proof -
  let ?u = "(plain_ult 0 0 100)\<lparr>ult_context := context_now two_fibers 0 (AtCreate 300)\<rparr>"
  have n: "\<not> ult_running new_ult" by (simp add: new_ult_def)
  obtain s4 where t4: "ult_trace ((0, SwitchTo (Some 300)) # steps 3 0) three_fibers = Inr s4"
    "pcs s4 = (pcs three_fibers)(0 := Released 100 300)" "rax s4 1 = rax three_fibers 1"
    "current s4 = (current three_fibers)(0 := Some 300)" "stk s4 = stk three_fibers"
    "ults s4 100 = Some (?u\<lparr>ult_running := False, ult_context := context_now three_fibers 0 (AtSwitch 100 300)\<rparr>)"
    "ults s4 200 = Some (plain_ult 1 1 200)"
    using switch_released [of three_fibers 0 100 ?u 300 new_ult] three_fibers two_fibers n by auto
  have "trace_ok ((0, SwitchTo (Some 300)) # steps 3 0) three_fibers"
    using three_fibers two_fibers n one_not_zero by (intro switch_ok [of three_fibers 0 100 ?u 300 new_ult]) auto
  then have r4: "ult_reach s4" by (rule trace_reach [OF three_reach _ t4(1)])
  let ?v = "?u\<lparr>ult_running := False, ult_context := context_now three_fibers 0 (AtSwitch 100 300)\<rparr>"
  have g: "goes_on (ctx_frame (ult_context ?v))" "\<not> returns_zero (ctx_rax (ult_context ?v))" "\<not> ult_running ?v"
    using three_fibers(9) one_not_zero by simp_all
  have p: "pcs s4 1 = Run" "current s4 1 = Some 200" "rax s4 1 = 1" "\<And>b. 100 \<notin> creating (pcs s4 b)"
    using t4 three_fibers two_fibers by simp_all
  obtain s5 where t5: "ult_trace ((1, SwitchTo (Some 100)) # steps 4 1) s4 = Inr s5" "pcs s5 = pcs s4"
    "current s5 1 = Some 100" "stk s5 = (stk s4)(1 := 0)"
    using switch_run [OF p(1,2) t4(7,6) g(3) _ g(1,2)] three_fibers(4) by simp
  have "trace_ok ((1, SwitchTo (Some 100)) # steps 4 1) s4"
    using p one_not_zero g by (intro switch_run_ok [OF p(1,2) t4(7,6)]) simp_all
  then have "ult_reach s5" by (rule trace_reach [OF r4 _ t5(1)])
  then show ?thesis using t5 t4 three_fibers by (intro exI [of _ s5]) simp
qed

section \<open>Witnesses\<close>

theorem ult_lock_exclusive_witness: "locked two_fibers 100 \<and> 100 \<notin> holds 1 two_fibers"
  using ult_lock_exclusive [OF two_reach, of 100 0 1] two_fibers by (auto simp: holds_def)

theorem ult_stacks_distinct_witness: "stk three_fibers 0 \<noteq> stk three_fibers 1"
  by (rule ult_stacks_distinct [OF three_reach]) (simp_all add: three_fibers)

theorem ult_returns_witness: "\<exists>s. ult_step 0 (Creat 300 9 50 7 1000 0) two_fibers = Inr s"
  by (rule ult_returns [OF two_reach create_ok])

theorem ult_create_returns_witness:
  "\<exists>s. ult_trace ((0, Creat 300 9 50 7 1000 0) # steps 8 0) two_fibers = Inr s \<and> pcs s 0 = Run \<and> live s 0 = 0 \<and>
     map_option ult_start (ults s 300) = Some (Some (1000, 0))"
  using ult_create_returns [of two_fibers 0 100 "plain_ult 0 0 100" 300 9 50 7 1000 0] two_fibers one_not_zero
  by (auto simp: plain_ult_def)

theorem ult_switch_refused_witness: "ult_step 0 (SwitchTo (Some 200)) two_fibers = Inr two_fibers"
  by (rule ult_switch_refused) (simp add: two_fibers plain_ult_def)

end
