(* ===== verification/Ult_Round.thy ===== *)
theory Ult_Round
  imports Ult_Spec
begin

text \<open>
  The round trip of a fiber through \<^verbatim>\<open>ult_switch_to\<close>: the registers, RAX and the stack with which a thread
  leaves a fiber are those with which whichever thread resumes it goes on, whatever all threads do in
  between.
\<close>

section \<open>Who may still write a context\<close>

definition context_of :: "'r ult_state \<Rightarrow> addr \<Rightarrow> 'r exec_context option" where
  "context_of s a = map_option ult_context (ults s a)"

text \<open>The fibers whose context a thread may write before its next jump.\<close>

fun will_save :: "pc \<Rightarrow> addr option \<Rightarrow> addr set" where
  "will_save Run c = set_option c"
| "will_save (Locked from to) c = {from}"
| "will_save (Chosen from to) c = {from}"
| "will_save (Prepared n) c = insert n (set_option c)"
| "will_save (NewLocked n) c = insert n (set_option c)"
| "will_save (NewSaved n) c = {n}"
| "will_save (NewReleased n) c = {n}"
| "will_save (Boot n) c = {n}"
| "will_save (BootLocked n) c = {n}"
| "will_save _ c = {}"

definition asleep :: "addr \<Rightarrow> 'r exec_context \<Rightarrow> 'r ult_state \<Rightarrow> bool" where
  "asleep f c s \<longleftrightarrow> context_of s f = Some c \<and> (\<forall>t. f \<notin> will_save (pcs s t) (current s t))"

text \<open>No thread computes in fiber \<open>f\<close>.\<close>

definition idle :: "addr \<Rightarrow> 'r ult_state \<Rightarrow> bool" where
  "idle f s \<longleftrightarrow> (\<forall>t. pcs s t = Run \<longrightarrow> current s t \<noteq> Some f)"

text \<open>Runs of all threads, callers keeping to \<open>action_ok\<close>, in which \<open>f\<close> is not resumed.\<close>

inductive ult_run :: "addr \<Rightarrow> 'r ult_state \<Rightarrow> 'r ult_state \<Rightarrow> bool" for f where
  here: "ult_run f s s"
| more: "ult_run f s s1 \<Longrightarrow> action_ok t ac s1 \<Longrightarrow> ult_step t ac s1 = Inr s2 \<Longrightarrow> idle f s2 \<Longrightarrow> ult_run f s s2"

lemma will_save_mine: "thread_inv s t \<Longrightarrow> will_save (pcs s t) (current s t) \<subseteq> mine t s"
  by (cases "pcs s t") (auto simp: mine_def holds_def)

section \<open>The primitives\<close>

lemma modify_context:
  assumes "ult_modify a g s = Inr s'" "\<And>u. ult_context (g u) = ult_context u"
  shows "context_of s' = context_of s \<and> same_places s s'"
  using assms by (auto simp: ult_modify_def context_of_def same_places_def kbind_Inr_iff deref_Inr_iff fun_eq_iff)

lemma unlock_context: "ult_unlock a s = Inr s' \<Longrightarrow> context_of s' = context_of s"
  using modify_context by (fastforce simp: ult_unlock_def)

lemma trylock_context: "ult_trylock a s = Inr (got, s') \<Longrightarrow> context_of s' = context_of s"
  by (auto simp: ult_trylock_def context_of_def kbind_Inr_iff deref_Inr_iff fun_eq_iff split: if_splits)

lemma save_context:
  "context_save t a fr s = Inr s' \<Longrightarrow> context_of s' = (context_of s)(a := Some (context_now s t fr)) \<and> same_places s s'"
  by (auto simp: context_save_def ult_modify_def context_of_def same_places_def kbind_Inr_iff deref_Inr_iff fun_eq_iff)

lemma context_update [simp]:
  "context_of (s\<lparr>pcs := p\<rparr>) = context_of s" "context_of (s\<lparr>current := c\<rparr>) = context_of s"
  "context_of (s\<lparr>live := l\<rparr>) = context_of s" "context_of (s\<lparr>rax := x\<rparr>) = context_of s"
  "context_of (s\<lparr>stk := k\<rparr>) = context_of s"
  by (simp_all add: context_of_def fun_eq_iff)

lemma jump_context:
  assumes "jump_back t a s = Inr s'" "resumable s a"
  shows "context_of s' = context_of s" "\<exists>c. context_of s a = Some c \<and> live s' t = ctx_regs c \<and> rax s' t = ctx_rax c \<and>
    stk s' t = ctx_stack c"
proof -
  obtain u where u: "ults s a = Some u" "\<not> returns_zero (ctx_rax (ult_context u))" "goes_on (ctx_frame (ult_context u))"
    using assms(2) by (auto simp: resumable_def)
  with assms(1) have s': "s' = s\<lparr>live := (live s)(t := ctx_regs (ult_context u)), rax := (rax s)(t := ctx_rax (ult_context u)),
      stk := (stk s)(t := ctx_stack (ult_context u)), pcs := (pcs s)(t := Run)\<rparr>"
    by (simp add: jump_back_def long_jmp_def resume_on goto_def)
  show "context_of s' = context_of s" by (simp add: s')
  show "\<exists>c. context_of s a = Some c \<and> live s' t = ctx_regs c \<and> rax s' t = ctx_rax c \<and> stk s' t = ctx_stack c"
    using u(1) by (simp add: s' context_of_def)
qed

lemma trampoline_context:
  assumes "long_jmp t a 1 s = Inr s'" "frame_of s a = Some AtTrampoline" "creat_ctx s t = Some a"
  shows "context_of s' = context_of s"
proof -
  obtain u where u: "ults s a = Some u" "ctx_frame (ult_context u) = AtTrampoline"
    using assms(2) by (auto simp: frame_of_def)
  with assms(1,3) obtain s1 where "ult_modify a (\<lambda>v. v\<lparr>ult_start := Some (creat_func s t, creat_arg s t)\<rparr>)
      (s\<lparr>live := (live s)(t := ctx_regs (ult_context u)), rax := (rax s)(t := 1), stk := (stk s)(t := ctx_stack (ult_context u))\<rparr>)
        = Inr s1" "s' = s1\<lparr>pcs := (pcs s1)(t := Boot a)\<rparr>"
    by (auto simp: long_jmp_def resume_def returns_zero_def goto_def kbind_Inr_iff)
  with modify_context [OF this(1)] show ?thesis by simp
qed

section \<open>A fiber nobody resumes keeps its context\<close>

lemma asleep_step:
  assumes "asleep f c s" "idle f s'" "context_of s' f = context_of s f"
    and "\<And>t'. t' \<noteq> t \<Longrightarrow> pcs s' t' = pcs s t' \<and> current s' t' = current s t'"
    and "f \<notin> will_save (pcs s' t) (current s' t)"
  shows "asleep f c s'"
  unfolding asleep_def
proof (intro conjI allI)
  show "context_of s' f = Some c" using assms(1,3) by (simp add: asleep_def)
  show "f \<notin> will_save (pcs s' b) (current s' b)" for b
    using assms(1,4,5) by (cases "b = t") (auto simp: asleep_def)
qed

lemma advance_asleep:
  assumes inv: "ult_inv s" "resume_inv s" and sl: "asleep f c s" and id: "idle f s'" and step: "advance t s = Inr s'"
  shows "asleep f c s'"
proof -
  have ti: "thread_inv s t" and tr: "thread_ready s t" using inv by (simp_all add: ult_inv_def resume_inv_def)
  have w: "f \<notin> will_save (pcs s t) (current s t)" using sl by (simp add: asleep_def)
  note defs = same_places_def jumped_def
  note own = thread_inv_def holds_def mine_def
  show ?thesis
  proof (cases "pcs s t")
    case Run
    then show ?thesis using step sl by (simp add: step_defs)
  next
    case (Locked g to)
    then have s': "s' = s\<lparr>current := (current s)(t := Some to), pcs := (pcs s)(t := Chosen g to)\<rparr>"
      using step by (simp add: step_defs goto_def)
    then show ?thesis using w Locked by (intro asleep_step [OF sl id, of t]) auto
  next
    case (Chosen g to)
    then obtain s1 where s1: "context_save t g (AtSwitch g to) s = Inr s1" "s' = s1\<lparr>pcs := (pcs s1)(t := Saved g to)\<rparr>"
      using step by (auto simp: step_defs goto_def kbind_Inr_iff)
    with save_context [OF s1(1)] w Chosen show ?thesis
      by (intro asleep_step [OF sl id, of t]) (auto simp: defs)
  next
    case (Saved g to)
    then obtain s1 where s1: "ult_unlock g s = Inr s1" "s' = s1\<lparr>pcs := (pcs s1)(t := Released g to)\<rparr>"
      using step by (auto simp: step_defs goto_def kbind_Inr_iff)
    with unlock_context [OF s1(1)] ult_unlock_view [OF s1(1)] show ?thesis
      by (intro asleep_step [OF sl id, of t]) (auto simp: defs)
  next
    case (Released g to)
    then have j: "jump_back t to s = Inr s'" "resumable s to" using step tr by (auto simp: step_defs thread_ready_def)
    obtain h where "home s to = Some h" using ti Released by (auto simp: own)
    from jump_context(1) [OF j] jump_back_view [OF j this] id show ?thesis
      by (intro asleep_step [OF sl id, of t]) (auto simp: defs idle_def)
  next
    case (Prepared new)
    then obtain got s1 where s1: "ult_trylock new s = Inr (got, s1)"
      "s' = (if got then s1\<lparr>pcs := (pcs s1)(t := NewLocked new)\<rparr> else s1)"
      using step by (auto simp: step_defs ult_lock_def kbind_Inr_iff)
    with trylock_context [OF s1(1)] ult_trylock_view [OF s1(1)] w Prepared show ?thesis
      by (intro asleep_step [OF sl id, of t]) (auto simp: defs)
  next
    case (NewLocked new)
    then obtain d s1 where s1: "current s t = Some d" "context_save t d (AtCreate new) s = Inr s1"
      "s' = s1\<lparr>pcs := (pcs s1)(t := NewSaved new)\<rparr>"
      using step by (cases "current s t") (auto simp: step_defs goto_def kbind_Inr_iff)
    with save_context [OF s1(2)] w NewLocked show ?thesis
      by (intro asleep_step [OF sl id, of t]) (auto simp: defs)
  next
    case (NewSaved new)
    then obtain d s1 where s1: "current s t = Some d" "ult_unlock d s = Inr s1"
      "s' = s1\<lparr>pcs := (pcs s1)(t := NewReleased new)\<rparr>"
      using step by (cases "current s t") (auto simp: step_defs goto_def kbind_Inr_iff)
    with unlock_context [OF s1(2)] ult_unlock_view [OF s1(2)] w NewSaved show ?thesis
      by (intro asleep_step [OF sl id, of t]) (auto simp: defs)
  next
    case (NewReleased new)
    then have j: "long_jmp t new 1 s = Inr s'" "frame_of s new = Some AtTrampoline" "creat_ctx s t = Some new"
      using step tr by (auto simp: step_defs thread_ready_def)
    obtain h where "home s new = Some h" using ti NewReleased by (auto simp: own)
    from trampoline_context [OF j] trampoline_view [OF j this] w NewReleased show ?thesis
      by (intro asleep_step [OF sl id, of t]) (auto simp: defs)
  next
    case (Boot new)
    then obtain d got s1 where s1: "current s t = Some d" "ult_trylock d s = Inr (got, s1)"
      "s' = (if got then s1\<lparr>pcs := (pcs s1)(t := BootLocked new)\<rparr> else s1)"
      using step by (cases "current s t") (auto simp: step_defs ult_lock_def kbind_Inr_iff)
    with trylock_context [OF s1(2)] ult_trylock_view [OF s1(2)] w Boot show ?thesis
      by (intro asleep_step [OF sl id, of t]) (auto simp: defs)
  next
    case (BootLocked new)
    then obtain s1 where s1: "context_save t new AtBoot s = Inr s1" "s' = s1\<lparr>pcs := (pcs s1)(t := BootSaved new)\<rparr>"
      using step by (auto simp: step_defs goto_def kbind_Inr_iff)
    with save_context [OF s1(1)] w BootLocked show ?thesis
      by (intro asleep_step [OF sl id, of t]) (auto simp: defs)
  next
    case (BootSaved new)
    then obtain s1 where s1: "ult_unlock new s = Inr s1" "s' = s1\<lparr>pcs := (pcs s1)(t := BootReleased new)\<rparr>"
      using step by (auto simp: step_defs goto_def kbind_Inr_iff)
    with unlock_context [OF s1(1)] ult_unlock_view [OF s1(1)] show ?thesis
      by (intro asleep_step [OF sl id, of t]) (auto simp: defs)
  next
    case (BootReleased new)
    then obtain d where d: "current s t = Some d" "jump_back t d s = Inr s'"
      using step by (cases "current s t") (auto simp: step_defs)
    have r: "resumable s d" using tr BootReleased d(1) by (simp add: thread_ready_def)
    obtain h where "home s d = Some h" using ti BootReleased d(1) by (auto simp: own)
    from jump_context(1) [OF d(2) r] jump_back_view [OF d(2) r this] id show ?thesis
      by (intro asleep_step [OF sl id, of t]) (auto simp: defs idle_def)
  qed
qed

lemma call_asleep:
  assumes sl: "asleep f c s" and id: "idle f s'" and ok: "action_ok t ac s" "ac \<noteq> Step" and step: "ult_step t ac s = Inr s'"
  shows "asleep f c s'"
proof -
  have w: "f \<notin> will_save (pcs s t) (current s t)" "ults s f \<noteq> None"
    using sl by (auto simp: asleep_def context_of_def)
  show ?thesis
  proof (cases ac)
    case (Convert a)
    with step ok w show ?thesis
      by (intro asleep_step [OF sl id, of t]) (auto simp: ult_convert_def context_of_def)
  next
    case (SwitchTo p)
    show ?thesis
    proof (cases p)
      case None
      then show ?thesis using step sl SwitchTo by (simp add: ult_switch_to_def)
    next
      case (Some a)
      from ok SwitchTo Some obtain d where d: "pcs s t = Run" "current s t = Some d" by auto
      from step Some SwitchTo obtain got s1 where s1: "ult_trylock a s = Inr (got, s1)"
        "(if \<not> got then Inr s1 else kbind (nonnull (current s1 t)) (\<lambda>from. goto t (Locked from a) s1)) = Inr s'"
        by (auto simp: ult_switch_to_def kbind_Inr_iff)
      with ult_trylock_view [OF s1(1)] d
      have "s' = (if got then s1\<lparr>pcs := (pcs s1)(t := Locked d a)\<rparr> else s1)"
        by (auto simp: same_places_def goto_def split: if_splits)
      with trylock_context [OF s1(1)] ult_trylock_view [OF s1(1)] w d show ?thesis
        by (intro asleep_step [OF sl id, of t]) (auto simp: same_places_def)
    qed
  next
    case (Creat a st r x entry arg)
    from ok Creat obtain d where d: "pcs s t = Run" "current s t = Some d" "ults s a = None" by auto
    with step Creat w show ?thesis
      by (intro asleep_step [OF sl id, of t]) (auto simp: ult_creat_def context_create_def goto_def context_of_def)
  next
    case (Compute r)
    with step w show ?thesis by (intro asleep_step [OF sl id, of t]) auto
  next
    case (Rax v)
    with step w show ?thesis by (intro asleep_step [OF sl id, of t]) auto
  qed (use ok in simp)
qed

lemma run_asleep:
  assumes "ult_run f s s'" "ult_reach s" "asleep f c s"
  shows "ult_reach s' \<and> asleep f c s'"
  using assms
proof (induction rule: ult_run.induct)
  case (more s s1 t ac s2)
  then have r: "ult_reach s1" "asleep f c s1" by simp_all
  have "asleep f c s2"
  proof (cases "ac = Step")
    case True
    with more.hyps(3) have "advance t s1 = Inr s2" by simp
    from advance_asleep [OF _ _ r(2) more.hyps(4) this] reach_invs [OF r(1)] show ?thesis by blast
  qed (rule call_asleep [OF r(2) more.hyps(4,2) _ more.hyps(3)])
  moreover have "ult_reach s2" by (rule ult_reach.step [OF r(1) more.hyps(2,3)])
  ultimately show ?case by simp
qed simp

section \<open>The round trip\<close>

lemma save_asleep:
  assumes reach: "ult_reach s" and at: "pcs s t = Chosen f to" and step: "ult_step t Step s = Inr s1"
  shows "asleep f (context_now s t (AtSwitch f to)) s1"
proof -
  have inv: "ult_inv s" by (rule reach_inv [OF reach])
  from step at obtain s0 where s0: "context_save t f (AtSwitch f to) s = Inr s0" "s1 = s0\<lparr>pcs := (pcs s0)(t := Saved f to)\<rparr>"
    by (auto simp: step_defs goto_def kbind_Inr_iff)
  have "f \<in> mine t s" using at by (simp add: mine_def holds_def)
  then have "f \<notin> will_save (pcs s b) (current s b)" if "b \<noteq> t" for b
    using inv that will_save_mine [of s b] by (fastforce simp: ult_inv_def)
  with save_context [OF s0(1)] show ?thesis by (auto simp: asleep_def s0(2) same_places_def)
qed

text \<open>C27. A thread leaves fiber \<open>f\<close> by a switch, with the low half of RAX not zero. Whatever all threads do
  from then on while \<open>f\<close> is not resumed, callers keeping to \<open>action_ok\<close>: the thread that comes to jump to
  \<open>f\<close>, by a switch or at the end of a creation, goes on in \<open>f\<close> with the registers, the RAX and the stack
  the first one left it with.\<close>

theorem ult_round_trip:
  assumes "ult_reach s" "pcs s t = Chosen f to" "\<not> returns_zero (rax s t)" "ult_step t Step s = Inr s1" "ult_run f s1 s2"
    and "pcs s2 t' = Released g f \<or> (pcs s2 t' = BootReleased n \<and> current s2 t' = Some f)"
  shows "\<exists>s3. ult_step t' Step s2 = Inr s3 \<and> pcs s3 t' = Run \<and> current s3 t' = Some f \<and>
    live s3 t' = live s t \<and> rax s3 t' = rax s t \<and> stk s3 t' = stk s t"
proof -
  have "action_ok t Step s" using assms(3) by simp
  from ult_reach.step [OF assms(1) this assms(4)] have r1: "ult_reach s1" .
  from run_asleep [OF assms(5) r1 save_asleep [OF assms(1,2,4)]]
  have r2: "ult_reach s2" and c: "context_of s2 f = Some (context_now s t (AtSwitch f to))" by (simp_all add: asleep_def)
  have ti: "thread_inv s2 t'" and tr: "thread_ready s2 t'"
    using reach_inv [OF r2] reach_ready [OF r2] by (simp_all add: ult_inv_def)
  have f: "resumable s2 f" "current s2 t' = Some f" using assms(6) tr ti by (auto simp: thread_ready_def thread_inv_def)
  obtain h where h: "home s2 f = Some h" using f(1) by (auto simp: resumable_def home_def)
  have e: "ult_step t' Step s2 = jump_back t' f s2" using assms(6) f(2) by (auto simp: step_defs)
  then obtain s3 where s3: "jump_back t' f s2 = Inr s3" using jump_total [OF f(1)] by blast
  from jump_context(2) [OF s3 f(1)] c jump_back_view [OF s3 f(1) h] f(2) e s3 show ?thesis by (auto simp: jumped_def)
qed

text \<open>Thread 0 switches from fiber 100 to fiber 300 and back, while thread 1 stays in fiber 200.\<close>

fun trace_idle :: "addr \<Rightarrow> (tid \<times> 'r action) list \<Rightarrow> 'r ult_state \<Rightarrow> bool" where
  "trace_idle f [] s = True"
| "trace_idle f ((t, ac) # acs) s \<longleftrightarrow> action_ok t ac s \<and>
     (case ult_step t ac s of Inl _ \<Rightarrow> False | Inr s' \<Rightarrow> idle f s' \<and> trace_idle f acs s')"

lemma trace_run: "ult_run f s0 s \<Longrightarrow> trace_idle f acs s \<Longrightarrow> ult_trace acs s = Inr s' \<Longrightarrow> ult_run f s0 s'"
proof (induction acs arbitrary: s)
  case (Cons x acs)
  obtain t ac where x: "x = (t, ac)" by (cases x)
  with Cons.prems(3) obtain s1 where s1: "ult_step t ac s = Inr s1" "ult_trace acs s1 = Inr s'"
    by (auto simp: kbind_Inr_iff)
  have "action_ok t ac s" "idle f s1" "trace_idle f acs s1" using Cons.prems(2) x s1(1) by simp_all
  with s1 ult_run.more [OF Cons.prems(1)] Cons.IH show ?case by blast
qed simp

theorem ult_round_trip_witness:
  "\<exists>(s :: nat ult_state) s1 s2 s3. ult_reach s \<and> pcs s 0 = Chosen 100 300 \<and> stk s 0 = 0 \<and> ult_step 0 Step s = Inr s1 \<and>
     ult_run 100 s1 s2 \<and> pcs s2 0 = Released 300 100 \<and> stk s2 0 = 9 \<and> ult_step 0 Step s2 = Inr s3 \<and>
     pcs s3 0 = Run \<and> current s3 0 = Some 100 \<and> live s3 0 = 0 \<and> rax s3 0 = 1 \<and> stk s3 0 = 0"
proof -
  let ?u = "(plain_ult 0 0 100)\<lparr>ult_context := context_now two_fibers 0 (AtCreate 300)\<rparr>"
  let ?s = "three_fibers\<lparr>ults := (ults three_fibers)(300 := Some (new_ult\<lparr>ult_running := True\<rparr>)),
    current := (current three_fibers)(0 := Some 300), pcs := (pcs three_fibers)(0 := Chosen 100 300)\<rparr>"
  let ?s1 = "?s\<lparr>ults := (ults ?s)(100 := Some (?u\<lparr>ult_context := context_now ?s 0 (AtSwitch 100 300)\<rparr>)),
    rax := (rax ?s)(0 := 0), pcs := (pcs ?s)(0 := Saved 100 300)\<rparr>"
  let ?l = "[(0, SwitchTo (Some 300)), (0, Step)]"
  let ?home = "steps 2 0 @ (0, SwitchTo (Some 100)) # steps 3 0"
  note facts = three_fibers(2-9) two_fibers(2,3,7-9) one_not_zero
  note ults = new_ult_def plain_ult_def
  have l: "trace_ok ?l three_fibers" "ult_trace ?l three_fibers = Inr ?s" "ult_step 0 Step ?s = Inr ?s1"
    using facts by (simp_all add: ults ult_prims home_def)
  have r: "ult_reach ?s" by (rule trace_reach [OF three_reach l(1,2)])
  have o: "current two_fibers t = Some 100 \<longleftrightarrow> t = 0" for t by (simp add: two_fibers_def)
  have "\<exists>s2. ult_trace ?home ?s1 = Inr s2 \<and> trace_idle 100 ?home ?s1 \<and> pcs s2 0 = Released 300 100 \<and> stk s2 0 = 9"
    using facts by (simp add: ults ult_prims steps_list home_def resume_on idle_def o)
  then obtain s2 where s2: "ult_trace ?home ?s1 = Inr s2" "trace_idle 100 ?home ?s1" "pcs s2 0 = Released 300 100" "stk s2 0 = 9"
    by blast
  have run: "ult_run 100 ?s1 s2" by (rule trace_run [OF ult_run.here s2(2,1)])
  have "pcs ?s 0 = Chosen 100 300" "\<not> returns_zero (rax ?s 0)" "stk ?s 0 = 0" using facts by simp_all
  from ult_round_trip [OF r this(1,2) l(3) run, of 0 300 0] this s2(3) facts obtain s3 where s3: "ult_step 0 Step s2 = Inr s3"
    "pcs s3 0 = Run" "current s3 0 = Some 100" "live s3 0 = 0" "rax s3 0 = 1" "stk s3 0 = 0" by auto
  with r l(3) run s2(3,4) \<open>pcs ?s 0 = Chosen 100 300\<close> \<open>stk ?s 0 = 0\<close> show ?thesis by blast
qed

end
