(* ===== verification/Hashtable.thy ===== *)
theory Hashtable
  imports Prelude
begin

text \<open>
  The intrusive hash tables of \<^verbatim>\<open>linux/hashtable.h\<close> as the module uses them
  (\<^verbatim>\<open>DECLARE_HASHTABLE\<close>, \<^verbatim>\<open>hash_init\<close>, \<^verbatim>\<open>hash_add\<close>,
  \<^verbatim>\<open>hash_del\<close>, \<^verbatim>\<open>hash_for_each_possible\<close>): a bucket is a chain of object
  addresses, an insertion puts the object at the head of its bucket, a lookup walks one bucket and
  loads the key field of every object on the way. The bucket function is the kernel's and stays a
  parameter. The interface \<open>keyed_index\<close> states what a client may rely on; it is interpreted on
  these very operations at the end of the theory.
\<close>

type_synonym table = "nat \<Rightarrow> addr list"

definition hash_init :: table where
  "hash_init = (\<lambda>_. [])"

definition hash_add :: "nat \<Rightarrow> addr \<Rightarrow> table \<Rightarrow> table" where
  "hash_add b a t = t(b := a # t b)"

definition hash_del :: "addr \<Rightarrow> table \<Rightarrow> table" where
  "hash_del a t = (\<lambda>b. removeAll a (t b))"

text \<open>One walk of \<^verbatim>\<open>hash_for_each_possible\<close> with the test of the loop body: the first
  object whose key passes, NULL at the end of the chain.\<close>

fun chain_find :: "(addr \<Rightarrow> 'k option) \<Rightarrow> ('k \<Rightarrow> bool) \<Rightarrow> addr list \<Rightarrow> fault + addr option" where
  "chain_find key P [] = Inr None"
| "chain_find key P (a # as) =
     kbind (deref key a) (\<lambda>k. if P k then Inr (Some a) else chain_find key P as)"

definition mem :: "table \<Rightarrow> addr set" where
  "mem t = {a. \<exists>b. a \<in> set (t b)}"

text \<open>A table is in order for a bucket function \<open>h\<close>: every object is live, its key is one the
  lookup can name (\<open>valid\<close>), it hangs in the bucket of its key, no chain holds it twice and no two
  objects share a key.\<close>

definition table_ok ::
  "('k \<Rightarrow> nat) \<Rightarrow> ('k \<Rightarrow> bool) \<Rightarrow> (addr \<Rightarrow> 'k option) \<Rightarrow> table \<Rightarrow> bool" where
  "table_ok h valid key t \<longleftrightarrow>
     (\<forall>b. \<forall>a\<in>set (t b). \<exists>k. key a = Some k \<and> valid k \<and> h k = b) \<and>
     (\<forall>b. distinct (t b)) \<and>
     (\<forall>a\<in>mem t. \<forall>a'\<in>mem t. key a = key a' \<longrightarrow> a = a')"

lemma mem_hash_init [simp]: "mem hash_init = {}"
  by (simp add: mem_def hash_init_def)

lemma mem_hash_add [simp]: "mem (hash_add b a t) = insert a (mem t)"
  by (auto simp: mem_def hash_add_def split: if_splits)

lemma mem_hash_del [simp]: "mem (hash_del a t) = mem t - {a}"
  by (auto simp: mem_def hash_del_def)

lemma table_ok_init: "table_ok h valid key hash_init"
  by (simp add: table_ok_def hash_init_def mem_def)

lemma table_ok_add:
  assumes "table_ok h valid key t" "a \<notin> mem t" "key a = Some k" "valid k"
    and "\<And>b. b \<in> mem t \<Longrightarrow> key b \<noteq> Some k"
  shows "table_ok h valid key (hash_add (h k) a t)"
  unfolding table_ok_def mem_hash_add
proof (intro conjI allI ballI impI)
  fix b c assume c: "c \<in> set (hash_add (h k) a t b)"
  show "\<exists>k'. key c = Some k' \<and> valid k' \<and> h k' = b"
  proof (cases "c \<in> set (t b)")
    case True
    then show ?thesis using assms(1) by (simp add: table_ok_def)
  next
    case False
    with c have "c = a" "h k = b" by (auto simp: hash_add_def split: if_splits)
    then show ?thesis using assms(3,4) by simp
  qed
next
  fix b show "distinct (hash_add (h k) a t b)"
    using assms(1,2) by (auto simp: table_ok_def hash_add_def mem_def)
next
  fix c c' assume "c \<in> insert a (mem t)" "c' \<in> insert a (mem t)" "key c = key c'"
  then show "c = c'"
    using assms(1,3) assms(5) [of c] assms(5) [of c'] by (auto simp: table_ok_def)
qed

lemma table_ok_del: "table_ok h valid key t \<Longrightarrow> table_ok h valid key (hash_del a t)"
  by (auto simp: table_ok_def hash_del_def mem_def distinct_removeAll)

lemma table_ok_cong:
  assumes "table_ok h valid key t" "\<And>a. a \<in> mem t \<Longrightarrow> key' a = key a"
  shows "table_ok h valid key' t"
proof -
  have chain: "key' a = key a" if "a \<in> set (t b)" for a b
    using assms(2) that by (auto simp: mem_def)
  show ?thesis
    unfolding table_ok_def
  proof (intro conjI allI ballI impI)
    fix b a assume a: "a \<in> set (t b)"
    then have "\<exists>k. key a = Some k \<and> valid k \<and> h k = b"
      using assms(1) by (simp add: table_ok_def)
    then show "\<exists>k. key' a = Some k \<and> valid k \<and> h k = b" by (simp only: chain [OF a])
  next
    fix b show "distinct (t b)" using assms(1) by (simp add: table_ok_def)
  next
    fix a a' assume "a \<in> mem t" "a' \<in> mem t" "key' a = key' a'"
    then have "key a = key a'" by (simp only: assms(2))
    then show "a = a'" using assms(1) \<open>a \<in> mem t\<close> \<open>a' \<in> mem t\<close> by (simp add: table_ok_def)
  qed
qed

lemma table_ok_bucket: "table_ok h valid key t \<Longrightarrow> a \<in> mem t \<Longrightarrow> key a = Some k \<Longrightarrow> a \<in> set (t (h k))"
  by (fastforce simp: table_ok_def mem_def)

lemma table_ok_live: "table_ok h valid key t \<Longrightarrow> a \<in> mem t \<Longrightarrow> \<exists>k. key a = Some k \<and> valid k"
  by (fastforce simp: table_ok_def mem_def)

lemma chain_find_Some:
  assumes "\<And>a. a \<in> set as \<Longrightarrow> key a \<noteq> None"
    and "a \<in> set as" "key a = Some k" "P k"
    and "\<And>b k'. b \<in> set as \<Longrightarrow> key b = Some k' \<Longrightarrow> P k' \<Longrightarrow> b = a"
  shows "chain_find key P as = Inr (Some a)"
  using assms
proof (induction as)
  case (Cons c as)
  obtain kc where kc: "key c = Some kc" using Cons.prems(1) [of c] by auto
  show ?case
  proof (cases "c = a")
    case True
    with Cons.prems(3,4) show ?thesis by simp
  next
    case False
    then have "\<not> P kc" using Cons.prems(5) [of c kc] kc by auto
    moreover have "chain_find key P as = Inr (Some a)"
      by (rule Cons.IH) (use Cons.prems False in auto)
    ultimately show ?thesis using kc by simp
  qed
qed simp

lemma chain_find_None:
  assumes "\<And>a. a \<in> set as \<Longrightarrow> \<exists>k. key a = Some k \<and> \<not> P k"
  shows "chain_find key P as = Inr None"
  using assms
proof (induction as)
  case (Cons c as)
  obtain kc where "key c = Some kc" "\<not> P kc" using Cons.prems [of c] by auto
  with Cons show ?case by simp
qed simp

lemma chain_find_result:
  "chain_find key P as = Inr (Some a) \<Longrightarrow> a \<in> set as \<and> (\<exists>k. key a = Some k \<and> P k)"
  by (induction as) (auto simp: deref_def split: option.splits if_splits)

lemma chain_find_total:
  "(\<And>a. a \<in> set as \<Longrightarrow> key a \<noteq> None) \<Longrightarrow> \<exists>r. chain_find key P as = Inr r"
  by (induction as) (auto simp: deref_def split: option.splits)

lemma chain_find_table:
  assumes "table_ok h valid key t"
  obtains "chain_find key P (t b) = Inr None"
  | a k where "chain_find key P (t b) = Inr (Some a)" "a \<in> mem t" "key a = Some k" "P k"
proof -
  have "key a \<noteq> None" if "a \<in> set (t b)" for a
    using assms that by (fastforce simp: table_ok_def)
  then obtain r where r: "chain_find key P (t b) = Inr r" using chain_find_total by metis
  show thesis
  proof (cases r)
    case None
    with r that(1) show ?thesis by simp
  next
    case (Some a)
    with r have "a \<in> set (t b)" "\<exists>k. key a = Some k \<and> P k" using chain_find_result by fastforce+
    with r Some that(2) show ?thesis by (auto simp: mem_def)
  qed
qed

section \<open>The interface\<close>

text \<open>
  What the module needs of an index from keys to objects: \<open>find\<close> reads the keys of the objects
  through the heap (\<open>key\<close>), so an update of the heap that keeps the keys of the members keeps the
  index. \<open>valid\<close> marks the keys for which \<open>find\<close> looks where \<open>add\<close> has put the object.
\<close>

locale keyed_index =
  fixes empty :: 't
    and add :: "'k \<Rightarrow> addr \<Rightarrow> 't \<Rightarrow> 't"
    and del :: "addr \<Rightarrow> 't \<Rightarrow> 't"
    and find :: "(addr \<Rightarrow> 'k option) \<Rightarrow> 'k \<Rightarrow> 't \<Rightarrow> fault + addr option"
    and members :: "'t \<Rightarrow> addr set"
    and valid :: "'k \<Rightarrow> bool"
    and invar :: "(addr \<Rightarrow> 'k option) \<Rightarrow> 't \<Rightarrow> bool"
  assumes members_empty: "members empty = {}"
    and members_add: "members (add k a t) = insert a (members t)"
    and members_del: "members (del a t) = members t - {a}"
    and invar_empty: "invar key empty"
    and invar_add: "invar key t \<Longrightarrow> a \<notin> members t \<Longrightarrow> key a = Some k \<Longrightarrow> valid k \<Longrightarrow>
          (\<And>b. b \<in> members t \<Longrightarrow> key b \<noteq> Some k) \<Longrightarrow> invar key (add k a t)"
    and invar_del: "invar key t \<Longrightarrow> invar key (del a t)"
    and invar_cong: "invar key t \<Longrightarrow> (\<And>a. a \<in> members t \<Longrightarrow> key' a = key a) \<Longrightarrow> invar key' t"
    and find_member: "invar key t \<Longrightarrow> valid k \<Longrightarrow> a \<in> members t \<Longrightarrow> key a = Some k \<Longrightarrow>
          find key k t = Inr (Some a)"
    and find_absent: "invar key t \<Longrightarrow> valid k \<Longrightarrow> (\<And>a. a \<in> members t \<Longrightarrow> key a \<noteq> Some k) \<Longrightarrow>
          find key k t = Inr None"
begin

lemma find_total:
  assumes "invar key t" "valid k"
  obtains "find key k t = Inr None" "\<And>a. a \<in> members t \<Longrightarrow> key a \<noteq> Some k"
  | a where "find key k t = Inr (Some a)" "a \<in> members t" "key a = Some k"
  using assms find_member find_absent by metis

lemma find_Some_iff:
  assumes "invar key t" "valid k"
  shows "find key k t = Inr (Some a) \<longleftrightarrow> a \<in> members t \<and> key a = Some k"
  using find_total [OF assms] find_member [OF assms] by (metis Inr_inject option.discI option.inject)

lemma find_None_iff:
  assumes "invar key t" "valid k"
  shows "find key k t = Inr None \<longleftrightarrow> (\<forall>a\<in>members t. key a \<noteq> Some k)"
  using find_total [OF assms] find_member [OF assms] by (metis Inr_inject option.discI)

lemma find_no_fault:
  assumes "invar key t" "valid k"
  shows "\<exists>r. find key k t = Inr r"
  by (rule find_total [OF assms]) auto

lemma find_add_same:
  assumes "invar key t" "a \<notin> members t" "key a = Some k" "valid k"
    and "\<And>b. b \<in> members t \<Longrightarrow> key b \<noteq> Some k"
  shows "find key k (add k a t) = Inr (Some a)"
  using invar_add [OF assms] assms(3,4) by (simp add: find_Some_iff members_add)

lemma find_add_other:
  assumes "invar key t" "a \<notin> members t" "key a = Some k" "valid k"
    and "\<And>b. b \<in> members t \<Longrightarrow> key b \<noteq> Some k" and "valid k'" "k' \<noteq> k"
  shows "find key k' (add k a t) = find key k' t"
proof (rule find_total [OF assms(1,6)])
  assume none: "find key k' t = Inr None" and "\<And>b. b \<in> members t \<Longrightarrow> key b \<noteq> Some k'"
  then have "find key k' (add k a t) = Inr None"
    using invar_add [OF assms(1-5)] assms(3,6,7) by (simp add: find_None_iff members_add)
  with none show ?thesis by simp
next
  fix b assume "find key k' t = Inr (Some b)" "b \<in> members t" "key b = Some k'"
  then show ?thesis
    using invar_add [OF assms(1-5)] assms(6) by (simp add: find_member members_add)
qed

lemma find_del_same:
  assumes "invar key t" "valid k" "a \<in> members t" "key a = Some k"
  shows "find key k (del a t) = Inr None"
proof -
  have "b = a" if "b \<in> members t" "key b = Some k" for b
    using find_member [OF assms] find_member [OF assms(1,2) that] by simp
  then show ?thesis
    using invar_del [OF assms(1)] assms(2) by (auto simp: find_None_iff members_del)
qed

lemma find_del_other:
  assumes "invar key t" "valid k'" "key a \<noteq> Some k'"
  shows "find key k' (del a t) = find key k' t"
proof (rule find_total [OF assms(1,2)])
  assume none: "find key k' t = Inr None" and abs: "\<And>b. b \<in> members t \<Longrightarrow> key b \<noteq> Some k'"
  have "find key k' (del a t) = Inr None"
    using abs by (intro find_absent [OF invar_del [OF assms(1)] assms(2)]) (simp add: members_del)
  with none show ?thesis by simp
next
  fix b assume "find key k' t = Inr (Some b)" "b \<in> members t" "key b = Some k'"
  moreover from this assms(3) have "b \<noteq> a" by auto
  ultimately show ?thesis
    using find_member [OF invar_del [OF assms(1)] assms(2), of b] by (simp add: members_del)
qed

end

section \<open>The tables are such an index\<close>

text \<open>A lookup with bucket function \<open>g\<close> in a table filled with bucket function \<open>h\<close>: the module
  fills \<^verbatim>\<open>process->fibers\<close> under an \<^verbatim>\<open>unsigned long\<close> key and searches it under an
  \<^verbatim>\<open>int\<close> key, for which the kernel's macro picks another hash function. The two agree on the
  keys that \<open>hvalid\<close> marks.\<close>

definition hvalid :: "('k \<Rightarrow> nat) \<Rightarrow> ('k \<Rightarrow> nat) \<Rightarrow> ('k \<Rightarrow> 'k) \<Rightarrow> 'k \<Rightarrow> bool" where
  "hvalid h g trunc k \<longleftrightarrow> g k = h k \<and> trunc k = k"

definition tfind ::
  "('k \<Rightarrow> nat) \<Rightarrow> ('k \<Rightarrow> 'k) \<Rightarrow> (addr \<Rightarrow> 'k option) \<Rightarrow> 'k \<Rightarrow> table \<Rightarrow> fault + addr option" where
  "tfind g trunc key k t = chain_find key (\<lambda>k'. k' = trunc k) (t (g k))"

lemma tfind_member:
  assumes "table_ok h (hvalid h g trunc) key t" "hvalid h g trunc k" "a \<in> mem t" "key a = Some k"
  shows "tfind g trunc key k t = Inr (Some a)"
  unfolding tfind_def
proof (rule chain_find_Some)
  have "g k = h k" using assms(2) by (simp add: hvalid_def)
  then show "a \<in> set (t (g k))"
    using assms table_ok_bucket by metis
  show "key b \<noteq> None" if "b \<in> set (t (g k))" for b
    using that assms(1) by (fastforce simp: table_ok_def)
  show "key a = Some k" by fact
  show "k = trunc k" using assms(2) by (simp add: hvalid_def)
  show "b = a" if "b \<in> set (t (g k))" "key b = Some k'" "k' = trunc k" for b k'
    using that assms by (auto simp: table_ok_def mem_def hvalid_def) metis
qed

lemma tfind_absent:
  assumes "table_ok h (hvalid h g trunc) key t" "hvalid h g trunc k"
    and "\<And>a. a \<in> mem t \<Longrightarrow> key a \<noteq> Some k"
  shows "tfind g trunc key k t = Inr None"
  unfolding tfind_def
proof (rule chain_find_None)
  fix a assume a: "a \<in> set (t (g k))"
  then have "a \<in> mem t" by (auto simp: mem_def)
  then obtain k' where "key a = Some k'" using table_ok_live [OF assms(1)] by blast
  with assms(2) assms(3) [OF \<open>a \<in> mem t\<close>] show "\<exists>k'. key a = Some k' \<and> k' \<noteq> trunc k"
    by (auto simp: hvalid_def)
qed

interpretation kx: keyed_index hash_init "\<lambda>k. hash_add (h k)" hash_del "tfind g trunc" mem
    "hvalid h g trunc" "table_ok h (hvalid h g trunc)"
  for h g :: "'k \<Rightarrow> nat" and trunc :: "'k \<Rightarrow> 'k"
  by unfold_locales
    (auto intro: table_ok_init table_ok_add table_ok_del table_ok_cong tfind_member tfind_absent)

end
