(* ===== verification/Fiber_State.thy ===== *)
theory Fiber_State
  imports Hashtable
begin

text \<open>
  The data of the kernel module of \<^verbatim>\<open>multi_thread/Module\<close> (\<^verbatim>\<open>fiber_ioctl.h\<close>,
  \<^verbatim>\<open>function_macro.h\<close>), its heap, its allocator, its spinlocks and the three search functions of
  \<^verbatim>\<open>fiber_ioctl.c\<close>.

  What the kernel supplies is collected in \<open>kenv\<close> (bucket functions, layout of
  \<^verbatim>\<open>struct pt_regs\<close>, save and restore of the FX registers), what one call brings along in
  \<open>call\<close> (identity of the calling task, argument, clock readings, success of each allocation and
  of each user copy).
\<close>

section \<open>What the kernel supplies\<close>

type_synonym pt_regs = "u64 list"  \<comment> \<open>the image of \<^verbatim>\<open>struct pt_regs\<close>, word by word\<close>
type_synonym fpu = "u64 list"      \<comment> \<open>the image of \<^verbatim>\<open>struct fpu\<close>\<close>
type_synonym fx = "u64 list"       \<comment> \<open>the FX registers of the processor\<close>

record kenv =
  hash_32 :: "u32 \<Rightarrow> nat"       \<comment> \<open>bucket of a 4-byte key in a table of \<open>2 ^ 10\<close> buckets\<close>
  hash_long :: "u64 \<Rightarrow> nat"     \<comment> \<open>bucket of an 8-byte key in such a table\<close>
  nregs :: nat                  \<comment> \<open>words of \<^verbatim>\<open>struct pt_regs\<close>\<close>
  nfpu :: nat                   \<comment> \<open>words from the end of \<open>f_list\<close> to the end of \<open>fpu_reg\<close>\<close>
  slot_ip :: nat
  slot_sp :: nat
  slot_di :: nat
  slot_bp :: nat
  fxsave :: "fx \<Rightarrow> fpu \<Rightarrow> fpu"  \<comment> \<open>\<^verbatim>\<open>copy_fxregs_to_kernel\<close>\<close>
  fxrstor :: "fpu \<Rightarrow> fx"        \<comment> \<open>\<^verbatim>\<open>copy_kernel_to_fxregs\<close>\<close>

text \<open>What the code relies on of the kernel: buckets stay below \<open>2 ^ 10\<close>, the four registers it names
  are distinct words of \<^verbatim>\<open>struct pt_regs\<close>, that structure has fewer than 63 words (it has 21), and
  FX registers restored from an image are those that were saved into it.\<close>

definition env_ok :: "kenv \<Rightarrow> bool" where
  "env_ok env \<longleftrightarrow> (\<forall>k. hash_32 env k < 1024) \<and> (\<forall>k. hash_long env k < 1024) \<and>
     distinct [slot_ip env, slot_sp env, slot_di env, slot_bp env] \<and>
     (\<forall>j\<in>{slot_ip env, slot_sp env, slot_di env, slot_bp env}. j < nregs env) \<and> nregs env < 63 \<and>
     (\<forall>x m. fxrstor env (fxsave env x m) = x)"

record timespec =
  tv_sec :: u64
  tv_nsec :: u64

text \<open>\<^verbatim>\<open>(unsigned long)ts.tv_nsec + (unsigned long)ts.tv_sec*1000000000\<close>\<close>

definition nanos :: "timespec \<Rightarrow> u64" where
  "nanos ts = tv_nsec ts + tv_sec ts * 1000000000"

section \<open>The structures of the module\<close>

record create_arg =
  dwStackPointer :: u64
  lpStartAddress :: u64
  lpParameter :: u64

record fls_arg =
  dwFlsIndex :: u64   \<comment> \<open>\<^verbatim>\<open>long\<close>, read with \<open>sint\<close>\<close>
  lpFlsData :: u64

text \<open>\<^verbatim>\<open>MAX_FLS\<close> slots, but \<^verbatim>\<open>DECLARE_BITMAP(fls_bitmap, sizeof(MAX_FLS))\<close>: four bits
  are asked for, one word is reserved.\<close>

definition MAX_FLS :: nat where
  "MAX_FLS = 4096"

definition BITS_PER_LONG :: nat where
  "BITS_PER_LONG = 64"

record fiber_arg =
  fls_bitmap :: u64
  regs :: pt_regs
  fpu_reg :: fpu
  index :: u64
  thread_id :: u64
  starting_point :: u64
  fls_array :: "nat \<Rightarrow> u64"
  activations :: u64
  failed_activations :: u64
  starting_time :: u64
  total_time :: u64
  fname :: string       \<comment> \<open>\<^verbatim>\<open>char name[8]\<close>\<close>
  running :: bool

record thread_arg =
  t_pid :: pid_t
  active_fiber :: "addr option"

record process_arg =
  p_pid :: pid_t
  fiber_id :: u64
  lock_fiber :: bool    \<comment> \<open>held?\<close>
  lock_hash :: bool
  fibers :: table
  threads :: table

text \<open>What \<^verbatim>\<open>kzalloc\<close> hands out: all bytes zero.\<close>

definition zero_fiber :: "kenv \<Rightarrow> fiber_arg" where
  "zero_fiber env = \<lparr>fls_bitmap = 0, regs = replicate (nregs env) 0, fpu_reg = replicate (nfpu env) 0,
     index = 0, thread_id = 0, starting_point = 0, fls_array = (\<lambda>_. 0), activations = 0,
     failed_activations = 0, starting_time = 0, total_time = 0, fname = [], running = False\<rparr>"

definition zero_thread :: thread_arg where
  "zero_thread = \<lparr>t_pid = 0, active_fiber = None\<rparr>"

definition zero_process :: process_arg where
  "zero_process = \<lparr>p_pid = 0, fiber_id = 0, lock_fiber = False, lock_hash = False,
     fibers = hash_init, threads = hash_init\<rparr>"

section \<open>State and calls\<close>

text \<open>The heap is typed, one map per structure; \<open>brk\<close> is the next address the allocator hands
  out, so an address names one allocation for good and a freed one is never live again. The user
  registers and FX registers of every task are part of the state because a fiber switch replaces
  them.\<close>

record kstate =
  procs :: "addr \<Rightarrow> process_arg option"
  thrs :: "addr \<Rightarrow> thread_arg option"
  fibs :: "addr \<Rightarrow> fiber_arg option"
  brk :: addr
  bufs_live :: nat                 \<comment> \<open>temporary buffers allocated and not yet freed\<close>
  list_process :: table
  count_threads :: int             \<comment> \<open>\<^verbatim>\<open>long\<close>, bounded by the number of live tasks\<close>
  uregs :: "pid_t \<Rightarrow> pt_regs"      \<comment> \<open>\<^verbatim>\<open>task_pt_regs\<close> of every task\<close>
  ufx :: "pid_t \<Rightarrow> fx"

record call =
  c_tgid :: pid_t
  c_pid :: pid_t
  c_arg :: u64
  ts1 :: timespec                  \<comment> \<open>first clock reading of the call\<close>
  ts2 :: timespec                  \<comment> \<open>second clock reading of the call\<close>
  ok_args :: bool                  \<comment> \<open>does the allocation of the argument buffer succeed?\<close>
  ok_fiber :: bool
  ok_process :: bool
  ok_thread :: bool
  user_create :: "create_arg option"  \<comment> \<open>what \<^verbatim>\<open>copy_from_user\<close> finds; \<open>None\<close>: it fails\<close>
  user_fls :: "fls_arg option"
  user_writable :: bool            \<comment> \<open>does \<^verbatim>\<open>copy_to_user\<close> succeed?\<close>

text \<open>Return values: \<^verbatim>\<open>long\<close> as a 64-bit word.\<close>

definition ENOMEM :: u64 where
  "ENOMEM = 12"

section \<open>Heap access\<close>

definition modify_proc :: "addr \<Rightarrow> (process_arg \<Rightarrow> process_arg) \<Rightarrow> kstate \<Rightarrow> fault + kstate" where
  "modify_proc a g s = kbind (deref (procs s) a) (\<lambda>p. Inr (s\<lparr>procs := (procs s)(a \<mapsto> g p)\<rparr>))"

definition modify_thr :: "addr \<Rightarrow> (thread_arg \<Rightarrow> thread_arg) \<Rightarrow> kstate \<Rightarrow> fault + kstate" where
  "modify_thr a g s = kbind (deref (thrs s) a) (\<lambda>t. Inr (s\<lparr>thrs := (thrs s)(a \<mapsto> g t)\<rparr>))"

definition modify_fib :: "addr \<Rightarrow> (fiber_arg \<Rightarrow> fiber_arg) \<Rightarrow> kstate \<Rightarrow> fault + kstate" where
  "modify_fib a g s = kbind (deref (fibs s) a) (\<lambda>f. Inr (s\<lparr>fibs := (fibs s)(a \<mapsto> g f)\<rparr>))"

lemma modify_proc_Some [simp]:
  "procs s a = Some p \<Longrightarrow> modify_proc a g s = Inr (s\<lparr>procs := (procs s)(a \<mapsto> g p)\<rparr>)"
  by (simp add: modify_proc_def)

lemma modify_thr_Some [simp]:
  "thrs s a = Some t \<Longrightarrow> modify_thr a g s = Inr (s\<lparr>thrs := (thrs s)(a \<mapsto> g t)\<rparr>)"
  by (simp add: modify_thr_def)

lemma modify_fib_Some [simp]:
  "fibs s a = Some f \<Longrightarrow> modify_fib a g s = Inr (s\<lparr>fibs := (fibs s)(a \<mapsto> g f)\<rparr>)"
  by (simp add: modify_fib_def)

text \<open>\<^verbatim>\<open>kzalloc\<close> of each structure: NULL when the kernel has no memory.\<close>

definition kzalloc_fiber :: "kenv \<Rightarrow> bool \<Rightarrow> kstate \<Rightarrow> addr option \<times> kstate" where
  "kzalloc_fiber env ok s =
     (if ok then (Some (brk s), s\<lparr>fibs := (fibs s)(brk s \<mapsto> zero_fiber env), brk := Suc (brk s)\<rparr>)
      else (None, s))"

definition kzalloc_thread :: "bool \<Rightarrow> kstate \<Rightarrow> addr option \<times> kstate" where
  "kzalloc_thread ok s =
     (if ok then (Some (brk s), s\<lparr>thrs := (thrs s)(brk s \<mapsto> zero_thread), brk := Suc (brk s)\<rparr>)
      else (None, s))"

definition kzalloc_process :: "bool \<Rightarrow> kstate \<Rightarrow> addr option \<times> kstate" where
  "kzalloc_process ok s =
     (if ok then (Some (brk s), s\<lparr>procs := (procs s)(brk s \<mapsto> zero_process), brk := Suc (brk s)\<rparr>)
      else (None, s))"

text \<open>The argument buffer lives for one call; only whether it is freed matters.\<close>

definition kzalloc_args :: "bool \<Rightarrow> kstate \<Rightarrow> kstate" where
  "kzalloc_args ok s = (if ok then s\<lparr>bufs_live := Suc (bufs_live s)\<rparr> else s)"

definition kfree_args :: "bool \<Rightarrow> kstate \<Rightarrow> kstate" where
  "kfree_args ok s = (if ok then s\<lparr>bufs_live := bufs_live s - 1\<rparr> else s)"

definition kfree_proc :: "addr \<Rightarrow> kstate \<Rightarrow> fault + kstate" where
  "kfree_proc a s = kbind (deref (procs s) a) (\<lambda>_. Inr (s\<lparr>procs := (procs s)(a := None)\<rparr>))"

definition kfree_thr :: "addr \<Rightarrow> kstate \<Rightarrow> fault + kstate" where
  "kfree_thr a s = kbind (deref (thrs s) a) (\<lambda>_. Inr (s\<lparr>thrs := (thrs s)(a := None)\<rparr>))"

definition kfree_fib :: "addr \<Rightarrow> kstate \<Rightarrow> fault + kstate" where
  "kfree_fib a s = kbind (deref (fibs s) a) (\<lambda>_. Inr (s\<lparr>fibs := (fibs s)(a := None)\<rparr>))"

lemma kfree_Some [simp]:
  "procs s a = Some p \<Longrightarrow> kfree_proc a s = Inr (s\<lparr>procs := (procs s)(a := None)\<rparr>)"
  "thrs s a = Some t \<Longrightarrow> kfree_thr a s = Inr (s\<lparr>thrs := (thrs s)(a := None)\<rparr>)"
  "fibs s a = Some f \<Longrightarrow> kfree_fib a s = Inr (s\<lparr>fibs := (fibs s)(a := None)\<rparr>)"
  by (simp_all add: kfree_proc_def kfree_thr_def kfree_fib_def)

section \<open>Spinlocks\<close>

text \<open>\<^verbatim>\<open>spin_lock_irqsave\<close> on a lock that is held never returns: with interrupts off on a
  single call path that is a deadlock.\<close>

definition spin_lock_fiber :: "addr \<Rightarrow> kstate \<Rightarrow> fault + kstate" where
  "spin_lock_fiber pa s = kbind (deref (procs s) pa) (\<lambda>p.
     if lock_fiber p then Inl Deadlock else modify_proc pa (\<lambda>p. p\<lparr>lock_fiber := True\<rparr>) s)"

definition spin_unlock_fiber :: "addr \<Rightarrow> kstate \<Rightarrow> fault + kstate" where
  "spin_unlock_fiber pa s = kbind (deref (procs s) pa) (\<lambda>p.
     if lock_fiber p then modify_proc pa (\<lambda>p. p\<lparr>lock_fiber := False\<rparr>) s else Inl NotLocked)"

definition spin_lock_hash :: "addr \<Rightarrow> kstate \<Rightarrow> fault + kstate" where
  "spin_lock_hash pa s = kbind (deref (procs s) pa) (\<lambda>p.
     if lock_hash p then Inl Deadlock else modify_proc pa (\<lambda>p. p\<lparr>lock_hash := True\<rparr>) s)"

definition spin_unlock_hash :: "addr \<Rightarrow> kstate \<Rightarrow> fault + kstate" where
  "spin_unlock_hash pa s = kbind (deref (procs s) pa) (\<lambda>p.
     if lock_hash p then modify_proc pa (\<lambda>p. p\<lparr>lock_hash := False\<rparr>) s else Inl NotLocked)"

section \<open>The search functions\<close>

text \<open>Loads of the key field of an object on a chain.\<close>

definition pkey :: "kstate \<Rightarrow> addr \<Rightarrow> pid_t option" where
  "pkey s a = map_option p_pid (procs s a)"

definition tkey :: "kstate \<Rightarrow> addr \<Rightarrow> pid_t option" where
  "tkey s a = map_option t_pid (thrs s a)"

definition fkey :: "kstate \<Rightarrow> addr \<Rightarrow> u64 option" where
  "fkey s a = map_option index (fibs s a)"

definition search_process :: "kenv \<Rightarrow> pid_t \<Rightarrow> kstate \<Rightarrow> fault + addr option" where
  "search_process env proc_id s =
     chain_find (pkey s) (\<lambda>k. k = proc_id) (list_process s (hash_32 env proc_id))"

definition search_thread :: "kenv \<Rightarrow> pid_t \<Rightarrow> addr \<Rightarrow> kstate \<Rightarrow> fault + addr option \<times> kstate" where
  "search_thread env thr_id pa s =
     kbind (spin_lock_hash pa s) (\<lambda>s.
     kbind (deref (procs s) pa) (\<lambda>p.
     kbind (chain_find (tkey s) (\<lambda>k. k = thr_id) (threads p (hash_32 env thr_id))) (\<lambda>r.
     kbind (spin_unlock_hash pa s) (\<lambda>s. Inr (r, s)))))"

text \<open>The parameter is an \<^verbatim>\<open>int\<close>: the bucket is that of a 4-byte key, and the comparison with
  the \<^verbatim>\<open>unsigned long\<close> index sign-extends it.\<close>

definition search_fiber :: "kenv \<Rightarrow> u32 \<Rightarrow> addr \<Rightarrow> kstate \<Rightarrow> fault + addr option" where
  "search_fiber env i pa s =
     kbind (deref (procs s) pa) (\<lambda>p.
       chain_find (fkey s) (\<lambda>k. k = scast i) (fibers p (hash_32 env i)))"

section \<open>The FLS bitmap and what lies behind it\<close>

text \<open>
  The bit operations address words counted from \<open>fls_bitmap\<close>, whatever member of the structure
  they fall into: word 0 is the bitmap, then come the words of \<open>regs\<close>, the two link words of
  \<open>f_list\<close>, and \<open>fpu_reg\<close> with the padding in front of it.
\<close>

definition get_word :: "nat \<Rightarrow> fiber_arg \<Rightarrow> fault + u64" where
  "get_word k f = (let n = length (regs f) in
     if k = 0 then Inr (fls_bitmap f)
     else if k \<le> n then Inr (regs f ! (k - 1))
     else if k \<le> n + 2 then Inl ListCorrupt
     else if k < n + 3 + length (fpu_reg f) then Inr (fpu_reg f ! (k - (n + 3)))
     else Inl OutOfBounds)"

definition put_word :: "nat \<Rightarrow> u64 \<Rightarrow> fiber_arg \<Rightarrow> fiber_arg" where
  "put_word k w f = (let n = length (regs f) in
     if k = 0 then f\<lparr>fls_bitmap := w\<rparr>
     else if k \<le> n then f\<lparr>regs := (regs f)[k - 1 := w]\<rparr>
     else f\<lparr>fpu_reg := (fpu_reg f)[k - (n + 3) := w]\<rparr>)"

text \<open>\<^verbatim>\<open>bitmap_zero(fiber->fls_bitmap, MAX_FLS)\<close> clears 4096 bits, hence 64 words. The module
  calls it before the node is linked, when the link words are zero anyway.\<close>

definition zero_prefix :: "nat \<Rightarrow> u64 list \<Rightarrow> u64 list" where
  "zero_prefix n xs = replicate (min n (length xs)) 0 @ drop n xs"

definition bitmap_zero :: "fiber_arg \<Rightarrow> fiber_arg" where
  "bitmap_zero f = (let n = length (regs f); words = MAX_FLS div BITS_PER_LONG in
     f\<lparr>fls_bitmap := 0, regs := zero_prefix (words - 1) (regs f),
       fpu_reg := zero_prefix (words - (n + 3)) (fpu_reg f)\<rparr>)"

text \<open>\<^verbatim>\<open>find_first_zero_bit(fiber->fls_bitmap, MAX_FLS)\<close>. After the words of \<open>regs\<close> the scan
  meets \<open>f_list.next\<close>, a pointer, whose bit 0 is clear because list nodes are aligned.\<close>

definition ffz :: "u64 \<Rightarrow> nat option" where
  "ffz w = List.find (\<lambda>i. \<not> bit w i) [0..<64]"

fun ffz_words :: "nat \<Rightarrow> u64 list \<Rightarrow> nat" where
  "ffz_words b [] = b"
| "ffz_words b (w # ws) = (case ffz w of Some i \<Rightarrow> b + i | None \<Rightarrow> ffz_words (b + 64) ws)"

definition find_first_zero_bit :: "fiber_arg \<Rightarrow> nat" where
  "find_first_zero_bit f = min MAX_FLS (ffz_words 0 (fls_bitmap f # regs f))"

text \<open>The single-bit operations take the index as a \<^verbatim>\<open>long\<close>.\<close>

definition bit_word :: "u64 \<Rightarrow> fiber_arg \<Rightarrow> fault + u64" where
  "bit_word i f = (if sint i < 0 then Inl OutOfBounds else get_word (unat i div BITS_PER_LONG) f)"

definition test_bit :: "u64 \<Rightarrow> fiber_arg \<Rightarrow> fault + bool" where
  "test_bit i f = kbind (bit_word i f) (\<lambda>w. Inr (bit w (unat i mod BITS_PER_LONG)))"

definition change_bit :: "u64 \<Rightarrow> fiber_arg \<Rightarrow> fault + fiber_arg" where
  "change_bit i f = kbind (bit_word i f) (\<lambda>w.
     Inr (put_word (unat i div BITS_PER_LONG) (flip_bit (unat i mod BITS_PER_LONG) w) f))"

definition clear_bit :: "u64 \<Rightarrow> fiber_arg \<Rightarrow> fault + fiber_arg" where
  "clear_bit i f = kbind (bit_word i f) (\<lambda>w.
     Inr (put_word (unat i div BITS_PER_LONG) (unset_bit (unat i mod BITS_PER_LONG) w) f))"

text \<open>Accesses to \<open>fls_array\<close>.\<close>

definition fls_load :: "u64 \<Rightarrow> fiber_arg \<Rightarrow> fault + u64" where
  "fls_load i f = (if sint i < 0 \<or> MAX_FLS \<le> unat i then Inl OutOfBounds else Inr (fls_array f (unat i)))"

definition fls_store :: "u64 \<Rightarrow> u64 \<Rightarrow> fiber_arg \<Rightarrow> fault + fiber_arg" where
  "fls_store i v f = (if sint i < 0 \<or> MAX_FLS \<le> unat i then Inl OutOfBounds
     else Inr (f\<lparr>fls_array := (fls_array f)(unat i := v)\<rparr>))"

end
