(* ===== verification/Fiber_Ioctl.thy ===== *)
theory Fiber_Ioctl
  imports Fiber_State
begin

text \<open>
  The operations of \<^verbatim>\<open>multi_thread/Module/fiber_ioctl.c\<close>: the seven commands of
  \<^verbatim>\<open>my_ioctl\<close> and the probe on \<^verbatim>\<open>do_exit\<close>, each as one transition from the state at
  its entry to its return value and the state at its return. A call runs to completion here; the
  order of the statements, the early returns and the buffers they leave behind are the code's.
\<close>

section \<open>CONVERTTOFIBER\<close>

text \<open>\<^verbatim>\<open>snprintf(fiber->name, 8, "%lu", fiber->index)\<close>: seven characters and the NUL.\<close>

definition snprintf8 :: "u64 \<Rightarrow> string" where
  "snprintf8 i = take 7 (dec (unat i))"

text \<open>The stores into the fresh structure, in the order of the code: \<open>bitmap_zero\<close> comes after the
  copy of the registers.\<close>

definition init_converted :: "kenv \<Rightarrow> call \<Rightarrow> kstate \<Rightarrow> u64 \<Rightarrow> fiber_arg \<Rightarrow> fiber_arg" where
  "init_converted env c s i f =
     (let ur = uregs s (c_pid c);
          f = f\<lparr>index := i\<rparr>;
          f = f\<lparr>thread_id := scast (c_pid c)\<rparr>;
          f = f\<lparr>starting_point := ur ! slot_ip env\<rparr>;
          f = f\<lparr>fname := snprintf8 (index f)\<rparr>;
          f = f\<lparr>regs := ur\<rparr>;
          f = f\<lparr>running := True\<rparr>;
          f = f\<lparr>activations := 1\<rparr>;
          f = f\<lparr>failed_activations := 0\<rparr>;
          f = bitmap_zero f;
          f = f\<lparr>starting_time := nanos (ts1 c)\<rparr>;
          f = f\<lparr>total_time := 0\<rparr>;
          f = f\<lparr>fpu_reg := replicate (length (fpu_reg f)) 0\<rparr>
      in f\<lparr>fpu_reg := fxsave env (ufx s (c_pid c)) (fpu_reg f)\<rparr>)"

text \<open>The part of the command after \<^verbatim>\<open>process\<close> is known.\<close>

definition convert_thread ::
  "kenv \<Rightarrow> call \<Rightarrow> addr option \<Rightarrow> addr \<Rightarrow> kstate \<Rightarrow> fault + u64 \<times> kstate" where
  "convert_thread env c fiber pa s =
     kbind (search_thread env (c_pid c) pa s) (\<lambda>(tr, s).
       case tr of
         Some _ \<Rightarrow> Inr (- 1, s)
       | None \<Rightarrow>
          (case kzalloc_thread (ok_thread c) s of
             (None, s) \<Rightarrow> Inr (- ENOMEM, s)
           | (Some ta, s) \<Rightarrow>
              kbind (modify_thr ta (\<lambda>t. t\<lparr>t_pid := c_pid c\<rparr>) s) (\<lambda>s.
              kbind (spin_lock_hash pa s) (\<lambda>s.
              kbind (modify_proc pa (\<lambda>p. p\<lparr>threads := hash_add (hash_32 env (c_pid c)) ta (threads p)\<rparr>) s) (\<lambda>s.
              kbind (spin_unlock_hash pa s) (\<lambda>s.
              kbind (nonnull fiber) (\<lambda>fa.
              kbind (deref (procs s) pa) (\<lambda>p.
              kbind (modify_proc pa (\<lambda>p. p\<lparr>fiber_id := fiber_id p + 1\<rparr>) s) (\<lambda>s.
              kbind (modify_fib fa (init_converted env c s (fiber_id p)) s) (\<lambda>s.
              kbind (deref (fibs s) fa) (\<lambda>f.
              kbind (modify_proc pa (\<lambda>p. p\<lparr>fibers := hash_add (hash_long env (index f)) fa (fibers p)\<rparr>) s) (\<lambda>s.
              kbind (modify_thr ta (\<lambda>t. t\<lparr>active_fiber := Some fa\<rparr>) s) (\<lambda>s.
                Inr (index f, s\<lparr>count_threads := count_threads s + 1\<rparr>))))))))))))))"

definition ioctl_convert :: "kenv \<Rightarrow> call \<Rightarrow> kstate \<Rightarrow> fault + u64 \<times> kstate" where
  "ioctl_convert env c s =
     (case kzalloc_fiber env (ok_fiber c) s of (fiber, s) \<Rightarrow>
      kbind (search_process env (c_tgid c) s) (\<lambda>pr.
        case pr of
          Some pa \<Rightarrow> convert_thread env c fiber pa s
        | None \<Rightarrow>
           (case kzalloc_process (ok_process c) s of
              (None, s) \<Rightarrow> Inr (- ENOMEM, s)
            | (Some pa, s) \<Rightarrow>
               kbind (modify_proc pa (\<lambda>p. p\<lparr>fiber_id := 0, p_pid := c_tgid c\<rparr>) s) (\<lambda>s.
               let s = s\<lparr>list_process := hash_add (hash_32 env (c_tgid c)) pa (list_process s)\<rparr> in
               kbind (modify_proc pa (\<lambda>p. p\<lparr>threads := hash_init, fibers := hash_init\<rparr>) s)
                 (convert_thread env c fiber pa)))))"

section \<open>CREATEFIBER\<close>

definition init_created :: "kenv \<Rightarrow> call \<Rightarrow> kstate \<Rightarrow> create_arg \<Rightarrow> u64 \<Rightarrow> fiber_arg \<Rightarrow> fiber_arg" where
  "init_created env c s u i f =
     (let f = f\<lparr>running := False\<rparr>;
          f = f\<lparr>index := i\<rparr>;
          f = f\<lparr>activations := 0\<rparr>;
          f = f\<lparr>failed_activations := 0\<rparr>;
          f = f\<lparr>thread_id := scast (c_pid c)\<rparr>;
          f = f\<lparr>starting_point := lpStartAddress u\<rparr>;
          f = f\<lparr>starting_time := 0\<rparr>;
          f = f\<lparr>total_time := 0\<rparr>;
          f = bitmap_zero f;
          f = f\<lparr>fname := snprintf8 (index f)\<rparr>;
          f = f\<lparr>regs := uregs s (c_pid c)\<rparr>;
          f = f\<lparr>regs := (regs f)[slot_sp env := dwStackPointer u]\<rparr>;
          f = f\<lparr>regs := (regs f)[slot_ip env := lpStartAddress u]\<rparr>;
          f = f\<lparr>regs := (regs f)[slot_di env := lpParameter u]\<rparr>;
          f = f\<lparr>regs := (regs f)[slot_bp env := regs f ! slot_sp env]\<rparr>;
          f = f\<lparr>fpu_reg := replicate (length (fpu_reg f)) 0\<rparr>
      in f\<lparr>fpu_reg := fxsave env (ufx s (c_pid c)) (fpu_reg f)\<rparr>)"

definition ioctl_create :: "kenv \<Rightarrow> call \<Rightarrow> kstate \<Rightarrow> fault + u64 \<times> kstate" where
  "ioctl_create env c s =
     (let s = kzalloc_args (ok_args c) s in
      case kzalloc_fiber env (ok_fiber c) s of (fiber, s) \<Rightarrow>
      if \<not> ok_args c then Inl NullDeref
      else case user_create c of
        None \<Rightarrow> Inr (- 1, s)
      | Some u \<Rightarrow>
         kbind (search_process env (c_tgid c) s) (\<lambda>pr.
           case pr of
             None \<Rightarrow> Inr (- 1, s)
           | Some pa \<Rightarrow>
              kbind (search_thread env (c_pid c) pa s) (\<lambda>(tr, s).
                case tr of
                  None \<Rightarrow> Inr (- 1, kfree_args (ok_args c) s)
                | Some ta \<Rightarrow>
                   kbind (nonnull fiber) (\<lambda>fa.
                   kbind (deref (procs s) pa) (\<lambda>p.
                   kbind (modify_proc pa (\<lambda>p. p\<lparr>fiber_id := fiber_id p + 1\<rparr>) s) (\<lambda>s.
                   kbind (modify_fib fa (init_created env c s u (fiber_id p)) s) (\<lambda>s.
                   kbind (deref (fibs s) fa) (\<lambda>f.
                   kbind (modify_proc pa (\<lambda>p. p\<lparr>fibers := hash_add (hash_long env (index f)) fa (fibers p)\<rparr>) s) (\<lambda>s.
                     Inr (index f, kfree_args (ok_args c) s))))))))))"

section \<open>SWITCHTOFIBER\<close>

text \<open>Charging a fiber for the time since it was last given the processor, in microseconds.\<close>

definition charge :: "timespec \<Rightarrow> fiber_arg \<Rightarrow> fiber_arg" where
  "charge ts f = f\<lparr>total_time := total_time f + (nanos ts - starting_time f) div 1000\<rparr>"

text \<open>The body of the success branch, with the fiber lock held.\<close>

definition switch_context :: "kenv \<Rightarrow> call \<Rightarrow> addr \<Rightarrow> addr \<Rightarrow> kstate \<Rightarrow> fault + kstate" where
  "switch_context env c ta fa s =
     kbind (deref (thrs s) ta) (\<lambda>t.
     kbind (nonnull (active_fiber t)) (\<lambda>af.
     kbind (modify_fib af (\<lambda>f. f\<lparr>regs := uregs s (c_pid c)\<rparr>) s) (\<lambda>s.
     kbind (modify_fib af (\<lambda>f. f\<lparr>fpu_reg := fxsave env (ufx s (c_pid c)) (fpu_reg f)\<rparr>) s) (\<lambda>s.
     kbind (deref (fibs s) fa) (\<lambda>f.
     let s = s\<lparr>uregs := (uregs s)(c_pid c := regs f), ufx := (ufx s)(c_pid c := fxrstor env (fpu_reg f))\<rparr> in
     kbind (modify_fib af (\<lambda>f. f\<lparr>running := False\<rparr>) s) (\<lambda>s.
     kbind (modify_fib af (\<lambda>f. if starting_time f \<noteq> 0 then charge (ts1 c) f else f) s) (\<lambda>s.
     kbind (modify_thr ta (\<lambda>t. t\<lparr>active_fiber := Some fa\<rparr>) s) (\<lambda>s.
       modify_fib fa (\<lambda>f. f\<lparr>running := True, activations := activations f + 1,
                             starting_time := nanos (ts2 c)\<rparr>) s))))))))"

definition ioctl_switch :: "kenv \<Rightarrow> call \<Rightarrow> kstate \<Rightarrow> fault + u64 \<times> kstate" where
  "ioctl_switch env c s =
     kbind (search_process env (c_tgid c) s) (\<lambda>pr.
       case pr of
         None \<Rightarrow> Inr (- 1, s)
       | Some pa \<Rightarrow>
          kbind (spin_lock_fiber pa s) (\<lambda>s.
          kbind (search_fiber env (ucast (c_arg c)) pa s) (\<lambda>fr.
            case fr of
              None \<Rightarrow> kbind (spin_unlock_fiber pa s) (\<lambda>s. Inr (- 1, s))
            | Some fa \<Rightarrow>
               kbind (deref (fibs s) fa) (\<lambda>f.
                 if running f then
                   kbind (modify_fib fa (\<lambda>f. f\<lparr>failed_activations := failed_activations f + 1\<rparr>) s) (\<lambda>s.
                   kbind (spin_unlock_fiber pa s) (\<lambda>s. Inr (- 1, s)))
                 else
                   kbind (search_thread env (c_pid c) pa s) (\<lambda>(tr, s).
                     case tr of
                       None \<Rightarrow> kbind (spin_unlock_fiber pa s) (\<lambda>s. Inr (- 1, s))
                     | Some ta \<Rightarrow>
                        kbind (switch_context env c ta fa s) (\<lambda>s.
                        kbind (spin_unlock_fiber pa s) (\<lambda>s. Inr (0, s))))))))"

section \<open>Fiber-local storage\<close>

text \<open>The prologue the FLS commands share: the calling thread's active fiber.\<close>

definition with_active ::
  "kenv \<Rightarrow> call \<Rightarrow> kstate \<Rightarrow> (kstate \<Rightarrow> fault + 'r \<times> kstate) \<Rightarrow> (kstate \<Rightarrow> fault + 'r \<times> kstate) \<Rightarrow>
   (addr \<Rightarrow> fiber_arg \<Rightarrow> kstate \<Rightarrow> fault + 'r \<times> kstate) \<Rightarrow> fault + 'r \<times> kstate" where
  "with_active env c s no_process no_thread body =
     kbind (search_process env (c_tgid c) s) (\<lambda>pr.
       case pr of
         None \<Rightarrow> no_process s
       | Some pa \<Rightarrow>
          kbind (search_thread env (c_pid c) pa s) (\<lambda>(tr, s).
            case tr of
              None \<Rightarrow> no_thread s
            | Some ta \<Rightarrow>
               kbind (deref (thrs s) ta) (\<lambda>t.
               kbind (nonnull (active_fiber t)) (\<lambda>fa.
               kbind (deref (fibs s) fa) (\<lambda>f. body fa f s)))))"

text \<open>The part of each command that works on the active fiber.\<close>

definition fls_alloc_slot :: "fiber_arg \<Rightarrow> fault + nat option \<times> fiber_arg" where
  "fls_alloc_slot f =
     (let i = find_first_zero_bit f in
      if i = MAX_FLS then Inr (None, f)
      else
        kbind (change_bit (of_nat i) f) (\<lambda>f.
        kbind (fls_store (of_nat i) 0 f) (\<lambda>f. Inr (Some i, f))))"

definition fls_free_slot :: "u64 \<Rightarrow> fiber_arg \<Rightarrow> fault + bool \<times> fiber_arg" where
  "fls_free_slot i f =
     (if 0 < sint i \<and> sint i < int MAX_FLS
      then kbind (clear_bit i f) (\<lambda>f. Inr (True, f))
      else Inr (False, f))"

definition fls_get_slot :: "u64 \<Rightarrow> fiber_arg \<Rightarrow> fault + u64 option" where
  "fls_get_slot i f =
     kbind (test_bit i f) (\<lambda>b.
       if b then kbind (fls_load i f) (\<lambda>v. Inr (Some v)) else Inr None)"

definition fls_set_slot :: "u64 \<Rightarrow> u64 \<Rightarrow> fiber_arg \<Rightarrow> fault + fiber_arg" where
  "fls_set_slot i v f =
     kbind (test_bit i f) (\<lambda>b. if b then fls_store i v f else Inr f)"

definition ioctl_fls_alloc :: "kenv \<Rightarrow> call \<Rightarrow> kstate \<Rightarrow> fault + u64 \<times> kstate" where
  "ioctl_fls_alloc env c s =
     with_active env c s (\<lambda>s. Inr (- 1, s)) (\<lambda>s. Inr (- 1, s)) (\<lambda>fa f s.
       kbind (fls_alloc_slot f) (\<lambda>(r, f).
       kbind (modify_fib fa (\<lambda>_. f) s) (\<lambda>s.
         Inr (case r of None \<Rightarrow> - 1 | Some i \<Rightarrow> of_nat i, s))))"

text \<open>\<^verbatim>\<open>false\<close> and \<^verbatim>\<open>true\<close> are returned as the numbers 0 and 1.\<close>

definition ioctl_fls_free :: "kenv \<Rightarrow> call \<Rightarrow> kstate \<Rightarrow> fault + u64 \<times> kstate" where
  "ioctl_fls_free env c s =
     with_active env c s (\<lambda>s. Inr (0, s)) (\<lambda>s. Inr (0, s)) (\<lambda>fa f s.
       kbind (fls_free_slot (c_arg c) f) (\<lambda>(b, f).
       kbind (modify_fib fa (\<lambda>_. f) s) (\<lambda>s. Inr (of_bool b, s))))"

text \<open>The result comes with what \<^verbatim>\<open>copy_to_user\<close> writes back, if anything. A missing process and
  a failed copy leave the argument buffer allocated.\<close>

definition ioctl_fls_get :: "kenv \<Rightarrow> call \<Rightarrow> kstate \<Rightarrow> fault + (u64 \<times> fls_arg option) \<times> kstate" where
  "ioctl_fls_get env c s =
     (if \<not> ok_args c then Inr ((- ENOMEM, None), s)
      else let s = kzalloc_args True s in
        case user_fls c of
          None \<Rightarrow> Inr ((- 1, None), s)
        | Some u \<Rightarrow>
           with_active env c s (\<lambda>s. Inr ((- 1, None), s)) (\<lambda>s. Inr ((- 1, None), kfree_args True s)) (\<lambda>fa f s.
             kbind (fls_get_slot (dwFlsIndex u) f) (\<lambda>r.
               case r of
                 None \<Rightarrow> Inr ((- 1, None), kfree_args True s)
               | Some v \<Rightarrow>
                  if user_writable c then Inr ((1, Some (u\<lparr>lpFlsData := v\<rparr>)), kfree_args True s)
                  else Inr ((- 1, None), s))))"

definition ioctl_fls_set :: "kenv \<Rightarrow> call \<Rightarrow> kstate \<Rightarrow> fault + u64 \<times> kstate" where
  "ioctl_fls_set env c s =
     (if \<not> ok_args c then Inr (- ENOMEM, s)
      else let s = kzalloc_args True s in
        case user_fls c of
          None \<Rightarrow> Inr (- 1, s)
        | Some u \<Rightarrow>
           with_active env c s (\<lambda>s. Inr (- 1, s)) (\<lambda>s. Inr (0, kfree_args True s)) (\<lambda>fa f s.
             kbind (fls_set_slot (dwFlsIndex u) (lpFlsData u) f) (\<lambda>f.
             kbind (modify_fib fa (\<lambda>_. f) s) (\<lambda>s. Inr (0, kfree_args True s)))))"

section \<open>The dispatcher\<close>

datatype ioctl_cmd =
    CONVERTTOFIBER | CREATEFIBER | SWITCHTOFIBER | FLSALLOC | FLSFREE | FLSGETVALUE | FLSSETVALUE
  | OtherCmd u32

text \<open>The result of a call: the number returned and what was written to the caller's buffer.\<close>

definition no_out :: "fault + u64 \<times> kstate \<Rightarrow> fault + (u64 \<times> fls_arg option) \<times> kstate" where
  "no_out m = kbind m (\<lambda>(r, s). Inr ((r, None), s))"

fun my_ioctl :: "kenv \<Rightarrow> ioctl_cmd \<Rightarrow> call \<Rightarrow> kstate \<Rightarrow> fault + (u64 \<times> fls_arg option) \<times> kstate" where
  "my_ioctl env CONVERTTOFIBER c s = no_out (ioctl_convert env c s)"
| "my_ioctl env CREATEFIBER c s = no_out (ioctl_create env c s)"
| "my_ioctl env SWITCHTOFIBER c s = no_out (ioctl_switch env c s)"
| "my_ioctl env FLSALLOC c s = no_out (ioctl_fls_alloc env c s)"
| "my_ioctl env FLSFREE c s = no_out (ioctl_fls_free env c s)"
| "my_ioctl env FLSGETVALUE c s = ioctl_fls_get env c s"
| "my_ioctl env FLSSETVALUE c s = no_out (ioctl_fls_set env c s)"
| "my_ioctl env (OtherCmd _) c s = Inr ((0, None), s)"

section \<open>The probe on do_exit\<close>

text \<open>\<^verbatim>\<open>hash_del(&(fiber->f_list))\<close> unlinks the node from the table it hangs in, which is the
  fiber table of the thread's process.\<close>

definition Pre_Handler :: "kenv \<Rightarrow> call \<Rightarrow> kstate \<Rightarrow> fault + u64 \<times> kstate" where
  "Pre_Handler env c s =
     kbind (search_process env (c_tgid c) s) (\<lambda>pr.
       case pr of
         None \<Rightarrow> Inr (0, s)
       | Some pa \<Rightarrow>
          kbind (search_thread env (c_pid c) pa s) (\<lambda>(tr, s).
            case tr of
              None \<Rightarrow> Inr (0, s)
            | Some ta \<Rightarrow>
               let s = s\<lparr>count_threads := count_threads s - 1\<rparr> in
               kbind (deref (thrs s) ta) (\<lambda>t.
               kbind (spin_lock_hash pa s) (\<lambda>s.
               kbind (modify_proc pa (\<lambda>p. p\<lparr>threads := hash_del ta (threads p)\<rparr>) s) (\<lambda>s.
               kbind (kfree_thr ta s) (\<lambda>s.
               kbind (spin_unlock_hash pa s) (\<lambda>s.
               kbind (nonnull (active_fiber t)) (\<lambda>fa.
               kbind (deref (fibs s) fa) (\<lambda>_.
               kbind (modify_proc pa (\<lambda>p. p\<lparr>fibers := hash_del fa (fibers p)\<rparr>) s) (\<lambda>s.
               kbind (kfree_fib fa s) (\<lambda>s.
                 if count_threads s = 0 then
                   kbind (kfree_proc pa (s\<lparr>list_process := hash_del pa (list_process s)\<rparr>)) (\<lambda>s. Inr (0, s))
                 else Inr (0, s))))))))))))"

end
