(* ===== verification/Fiber_Invariant.thy ===== *)
theory Fiber_Invariant
  imports Fiber_Ioctl
begin

text \<open>
  The invariant of the module's data structures, and the lemmas by which an operation on one
  process keeps it. It says, for every process in \<^verbatim>\<open>list_process\<close>: both locks are free between
  calls; the thread and fiber tables are in order and hold live objects; every thread has an active
  fiber of its own in the fiber table; a fiber is marked running exactly when it is the active fiber
  of some thread; and every index lies below \<^verbatim>\<open>fiber_id\<close>. Different processes share no thread and
  no fiber, nothing lives beyond the allocation frontier, and \<^verbatim>\<open>count_threads\<close> counts the threads
  of all processes.
\<close>

section \<open>The tables as indexes\<close>

definition pid_find :: "kenv \<Rightarrow> (addr \<Rightarrow> pid_t option) \<Rightarrow> pid_t \<Rightarrow> table \<Rightarrow> fault + addr option" where
  "pid_find env key k t = chain_find key (\<lambda>k'. k' = k) (t (hash_32 env k))"

definition pid_tab :: "kenv \<Rightarrow> (addr \<Rightarrow> pid_t option) \<Rightarrow> table \<Rightarrow> bool" where
  "pid_tab env = table_ok (hash_32 env) (hvalid (hash_32 env) (hash_32 env) id)"

text \<open>An \<^verbatim>\<open>unsigned long\<close> index passed through an \<^verbatim>\<open>int\<close> parameter.\<close>

definition int_cut :: "u64 \<Rightarrow> u64" where
  "int_cut k = scast (ucast k :: u32)"

definition fib_find :: "kenv \<Rightarrow> (addr \<Rightarrow> u64 option) \<Rightarrow> u64 \<Rightarrow> table \<Rightarrow> fault + addr option" where
  "fib_find env key k t = chain_find key (\<lambda>k'. k' = int_cut k) (t (hash_32 env (ucast k)))"

text \<open>The indexes the module can find again: they survive the \<^verbatim>\<open>int\<close> parameter, and the two hash
  functions of the kernel send them to one bucket.\<close>

definition fib_valid :: "kenv \<Rightarrow> u64 \<Rightarrow> bool" where
  "fib_valid env = hvalid (hash_long env) (\<lambda>k. hash_32 env (ucast k)) int_cut"

definition fib_tab :: "kenv \<Rightarrow> (addr \<Rightarrow> u64 option) \<Rightarrow> table \<Rightarrow> bool" where
  "fib_tab env = table_ok (hash_long env) (fib_valid env)"

lemma pid_find_eq: "pid_find env = tfind (hash_32 env) id"
  by (intro ext) (simp add: pid_find_def tfind_def)

lemma fib_find_eq: "fib_find env = tfind (\<lambda>k. hash_32 env (ucast k)) int_cut"
  by (intro ext) (simp add: fib_find_def tfind_def)

interpretation pidx: keyed_index hash_init "\<lambda>k. hash_add (hash_32 env k)" hash_del "pid_find env" mem
    "\<lambda>_. True" "pid_tab env" for env :: kenv
proof -
  have v: "hvalid (hash_32 env) (hash_32 env) id = (\<lambda>_. True)"
    by (intro ext) (simp add: hvalid_def)
  show "keyed_index hash_init (\<lambda>k. hash_add (hash_32 env k)) hash_del (pid_find env) mem
      (\<lambda>_. True) (pid_tab env)"
    using kx.keyed_index_axioms [where h = "hash_32 env" and g = "hash_32 env" and trunc = id]
    by (simp only: v pid_find_eq pid_tab_def)
qed

interpretation fibx: keyed_index hash_init "\<lambda>k. hash_add (hash_long env k)" hash_del "fib_find env" mem
    "fib_valid env" "fib_tab env" for env :: kenv
  using kx.keyed_index_axioms [where h = "hash_long env" and g = "\<lambda>k. hash_32 env (ucast k)"
      and trunc = int_cut]
  by (simp only: fib_find_eq fib_tab_def fib_valid_def)

text \<open>What the code relies on when it hands out index \<open>k\<close>: it is a nonnegative \<^verbatim>\<open>int\<close>, and
  both hash functions agree on it.\<close>

definition index_ok :: "kenv \<Rightarrow> u64 \<Rightarrow> bool" where
  "index_ok env k \<longleftrightarrow> unat k < 2 ^ 31 \<and> hash_32 env (ucast k) = hash_long env k"

lemma int_cut_small:
  assumes "unat k < 2 ^ 31"
  shows "int_cut k = k"
proof -
  have u: "uint k < 2 ^ 31" using assms by (metis of_nat_less_iff of_nat_numeral of_nat_power uint_nat)
  have e: "uint (ucast k :: u32) = uint k"
    using u uint_ge_0 [of k] by (simp add: unsigned_ucast_eq take_bit_int_eq_self)
  have "- (2 ^ 31) \<le> uint k" by (rule order_trans [OF _ uint_ge_0]) simp
  then have "sint (ucast k :: u32) = uint k"
    using u by (simp add: sint_uint signed_take_bit_int_eq_self_iff e)
  then show ?thesis unfolding int_cut_def by (metis word_of_int_uint scast_eq)
qed

lemma index_ok_valid: "index_ok env k \<Longrightarrow> fib_valid env k"
  by (simp add: index_ok_def fib_valid_def hvalid_def int_cut_small)

lemma index_ok_less_Suc:
  assumes "index_ok env k" "j < k \<or> j = k"
  shows "j < k + 1"
proof -
  have "unat (k + 1) = unat k + 1"
    using assms(1) by (simp add: index_ok_def unat_word_ariths)
  with assms(2) show ?thesis by (auto simp: word_less_nat_alt)
qed

section \<open>The invariant\<close>

definition act :: "kstate \<Rightarrow> addr \<Rightarrow> addr option" where
  "act s ta = (case thrs s ta of None \<Rightarrow> None | Some t \<Rightarrow> active_fiber t)"

definition fiber_inv :: "kenv \<Rightarrow> kstate \<Rightarrow> process_arg \<Rightarrow> addr \<Rightarrow> bool" where
  "fiber_inv env s p fa \<longleftrightarrow> (\<exists>f. fibs s fa = Some f \<and> index f < fiber_id p \<and>
     length (regs f) = nregs env \<and> (running f \<longleftrightarrow> (\<exists>ta\<in>mem (threads p). act s ta = Some fa)))"

definition proc_inv :: "kenv \<Rightarrow> kstate \<Rightarrow> process_arg \<Rightarrow> bool" where
  "proc_inv env s p \<longleftrightarrow>
     \<not> lock_fiber p \<and> \<not> lock_hash p \<and>
     pid_tab env (tkey s) (threads p) \<and> fib_tab env (fkey s) (fibers p) \<and>
     (\<forall>ta\<in>mem (threads p). \<exists>fa\<in>mem (fibers p). act s ta = Some fa) \<and>
     inj_on (act s) (mem (threads p)) \<and>
     (\<forall>fa\<in>mem (fibers p). fiber_inv env s p fa)"

definition all_threads :: "kstate \<Rightarrow> addr set" where
  "all_threads s = {ta. \<exists>pa p. pa \<in> mem (list_process s) \<and> procs s pa = Some p \<and> ta \<in> mem (threads p)}"

definition all_fibers :: "kstate \<Rightarrow> addr set" where
  "all_fibers s = {fa. \<exists>pa p. pa \<in> mem (list_process s) \<and> procs s pa = Some p \<and> fa \<in> mem (fibers p)}"

definition fresh_beyond :: "kstate \<Rightarrow> bool" where
  "fresh_beyond s \<longleftrightarrow> (\<forall>a\<ge>brk s. procs s a = None \<and> thrs s a = None \<and> fibs s a = None)"

definition disjoint_procs :: "kstate \<Rightarrow> bool" where
  "disjoint_procs s \<longleftrightarrow> (\<forall>pa pb p q. pa \<in> mem (list_process s) \<longrightarrow> pb \<in> mem (list_process s) \<longrightarrow>
     pa \<noteq> pb \<longrightarrow> procs s pa = Some p \<longrightarrow> procs s pb = Some q \<longrightarrow>
     mem (threads p) \<inter> mem (threads q) = {} \<and> mem (fibers p) \<inter> mem (fibers q) = {})"

definition kinv :: "kenv \<Rightarrow> kstate \<Rightarrow> bool" where
  "kinv env s \<longleftrightarrow> fresh_beyond s \<and> pid_tab env (pkey s) (list_process s) \<and>
     (\<forall>pa p. pa \<in> mem (list_process s) \<longrightarrow> procs s pa = Some p \<longrightarrow> proc_inv env s p) \<and>
     disjoint_procs s \<and> count_threads s = int (card (all_threads s)) \<and>
     (\<forall>t. length (uregs s t) = nregs env)"

text \<open>The state after \<^verbatim>\<open>hash_init(list_process)\<close> at module load.\<close>

definition init_state :: "(pid_t \<Rightarrow> pt_regs) \<Rightarrow> (pid_t \<Rightarrow> fx) \<Rightarrow> kstate" where
  "init_state ur uf = \<lparr>procs = Map.empty, thrs = Map.empty, fibs = Map.empty, brk = 0, bufs_live = 0,
     list_process = hash_init, count_threads = 0, uregs = ur, ufx = uf\<rparr>"

lemma kinv_init: "(\<And>t. length (ur t) = nregs env) \<Longrightarrow> kinv env (init_state ur uf)"
  by (simp add: kinv_def init_state_def fresh_beyond_def disjoint_procs_def all_threads_def
      pidx.invar_empty)

lemma kinvD:
  assumes "kinv env s"
  shows kinv_fresh: "a \<ge> brk s \<Longrightarrow> procs s a = None \<and> thrs s a = None \<and> fibs s a = None"
    and kinv_list: "pid_tab env (pkey s) (list_process s)"
    and kinv_proc: "pa \<in> mem (list_process s) \<Longrightarrow> procs s pa = Some p \<Longrightarrow> proc_inv env s p"
    and kinv_disjoint: "pa \<in> mem (list_process s) \<Longrightarrow> pb \<in> mem (list_process s) \<Longrightarrow> pa \<noteq> pb \<Longrightarrow>
        procs s pa = Some p \<Longrightarrow> procs s pb = Some q \<Longrightarrow>
        mem (threads p) \<inter> mem (threads q) = {} \<and> mem (fibers p) \<inter> mem (fibers q) = {}"
    and kinv_count: "count_threads s = int (card (all_threads s))"
    and kinv_uregs: "length (uregs s t) = nregs env"
  using assms by (auto simp: kinv_def fresh_beyond_def disjoint_procs_def)

lemma kinv_live_proc: "kinv env s \<Longrightarrow> pa \<in> mem (list_process s) \<Longrightarrow> \<exists>p. procs s pa = Some p"
  using table_ok_live [of "hash_32 env" _ "pkey s" "list_process s" pa] kinv_list [of env s]
  by (auto simp: pid_tab_def pkey_def)

lemma proc_invD:
  assumes "proc_inv env s p"
  shows proc_locks: "\<not> lock_fiber p" "\<not> lock_hash p"
    and proc_threads: "pid_tab env (tkey s) (threads p)"
    and proc_fibers: "fib_tab env (fkey s) (fibers p)"
    and proc_active: "ta \<in> mem (threads p) \<Longrightarrow> \<exists>fa\<in>mem (fibers p). act s ta = Some fa"
    and proc_inj: "inj_on (act s) (mem (threads p))"
    and proc_fiber: "fa \<in> mem (fibers p) \<Longrightarrow> fiber_inv env s p fa"
  using assms by (auto simp: proc_inv_def)

lemma proc_live_thread:
  "proc_inv env s p \<Longrightarrow> ta \<in> mem (threads p) \<Longrightarrow>
   \<exists>t fa f. thrs s ta = Some t \<and> active_fiber t = Some fa \<and> fa \<in> mem (fibers p) \<and> fibs s fa = Some f \<and> running f"
  using proc_active [of env s p ta] proc_fiber [of env s p]
  by (fastforce simp: act_def fiber_inv_def split: option.splits)

lemma fiber_invD: "fiber_inv env s p fa \<Longrightarrow> fibs s fa = Some f \<Longrightarrow>
    index f < fiber_id p \<and> length (regs f) = nregs env \<and>
    (running f \<longleftrightarrow> (\<exists>ta\<in>mem (threads p). act s ta = Some fa))"
  by (auto simp: fiber_inv_def)

lemma finite_all_threads: "kinv env s \<Longrightarrow> finite (all_threads s)"
proof -
  assume k: "kinv env s"
  have "all_threads s \<subseteq> {..<brk s}"
  proof
    fix ta assume "ta \<in> all_threads s"
    then obtain pa p where "pa \<in> mem (list_process s)" "procs s pa = Some p" "ta \<in> mem (threads p)"
      by (auto simp: all_threads_def)
    then obtain t where "thrs s ta = Some t"
      using proc_live_thread [OF kinv_proc [OF k]] by blast
    then show "ta \<in> {..<brk s}" using kinv_fresh [OF k, of ta] by (cases "brk s \<le> ta") auto
  qed
  then show ?thesis by (rule finite_subset) simp
qed

lemma proc_threads_finite:
  "kinv env s \<Longrightarrow> pa \<in> mem (list_process s) \<Longrightarrow> procs s pa = Some p \<Longrightarrow> finite (mem (threads p))"
  by (rule finite_subset [OF _ finite_all_threads]) (auto simp: all_threads_def)

section \<open>Framing\<close>

text \<open>A process whose threads and fibers are untouched keeps its part of the invariant.\<close>

lemma proc_inv_frame:
  assumes "proc_inv env s p"
    and t: "\<And>ta. ta \<in> mem (threads p) \<Longrightarrow> thrs s' ta = thrs s ta"
    and f: "\<And>fa. fa \<in> mem (fibers p) \<Longrightarrow> fibs s' fa = fibs s fa"
  shows "proc_inv env s' p"
proof -
  have a: "act s' ta = act s ta" if "ta \<in> mem (threads p)" for ta
    using t [OF that] by (simp add: act_def)
  have "pid_tab env (tkey s') (threads p)"
    by (rule pidx.invar_cong [OF proc_threads [OF assms(1)]]) (simp add: tkey_def t)
  moreover have "fib_tab env (fkey s') (fibers p)"
    by (rule fibx.invar_cong [OF proc_fibers [OF assms(1)]]) (simp add: fkey_def f)
  moreover have "inj_on (act s') (mem (threads p))"
    using proc_inj [OF assms(1)] a by (auto simp: inj_on_def)
  moreover have "fiber_inv env s' p fa" if "fa \<in> mem (fibers p)" for fa
    using proc_fiber [OF assms(1) that] by (simp add: fiber_inv_def f that a)
  ultimately show ?thesis
    using assms(1) a by (auto simp: proc_inv_def)
qed

text \<open>An operation on the process at \<open>pa\<close>: whatever it does to the objects of that process and to
  objects no process has linked, the other processes do not notice.\<close>

lemma kinv_local:
  assumes k: "kinv env s" and pa: "pa \<in> mem (list_process s)" and p: "procs s pa = Some p"
    and lst: "list_process s' = list_process s"
    and ps: "procs s' = (procs s)(pa \<mapsto> p')" and pid: "p_pid p' = p_pid p"
    and inv: "proc_inv env s' p'"
    and T: "mem (threads p') \<subseteq> mem (threads p) \<union> - all_threads s"
    and F: "mem (fibers p') \<subseteq> mem (fibers p) \<union> - all_fibers s"
    and thr: "\<And>a. a \<in> all_threads s \<Longrightarrow> a \<notin> mem (threads p) \<Longrightarrow> thrs s' a = thrs s a"
    and fib: "\<And>a. a \<in> all_fibers s \<Longrightarrow> a \<notin> mem (fibers p) \<Longrightarrow> fibs s' a = fibs s a"
    and fr: "fresh_beyond s'"
    and cnt: "count_threads s' = count_threads s + int (card (mem (threads p'))) - int (card (mem (threads p)))"
    and ur: "\<And>t. length (uregs s' t) = nregs env"
  shows "kinv env s'"
proof -
  have linked: "mem (threads q) \<subseteq> all_threads s" "mem (fibers q) \<subseteq> all_fibers s"
    if "qa \<in> mem (list_process s)" "procs s qa = Some q" for qa q
    using that by (auto simp: all_threads_def all_fibers_def)
  have sep: "mem (threads p') \<inter> mem (threads q) = {} \<and> mem (fibers p') \<inter> mem (fibers q) = {}"
    if "qa \<in> mem (list_process s)" "procs s qa = Some q" "qa \<noteq> pa" for qa q
    using kinv_disjoint [OF k pa that(1) not_sym [OF that(3)] p that(2)] T F linked [OF that(1,2)]
    by blast
  have "pid_tab env (pkey s') (list_process s')"
    unfolding lst
    by (rule pidx.invar_cong [OF kinv_list [OF k]]) (simp add: pkey_def ps p pid)
  moreover have "proc_inv env s' q" if "qa \<in> mem (list_process s')" "procs s' qa = Some q" for qa q
  proof (cases "qa = pa")
    case True
    with that inv show ?thesis by (simp add: ps)
  next
    case False
    with that have q: "qa \<in> mem (list_process s)" "procs s qa = Some q" by (simp_all add: ps lst)
    note d = kinv_disjoint [OF k pa q(1) not_sym [OF False] p q(2)]
    show ?thesis
      by (rule proc_inv_frame [OF kinv_proc [OF k q]])
        (use d linked [OF q] thr fib in blast)+
  qed
  moreover have "disjoint_procs s'"
    unfolding disjoint_procs_def lst ps
    using sep kinv_disjoint [OF k] by (auto split: if_splits)
  moreover have "count_threads s' = int (card (all_threads s'))"
  proof -
    let ?rest = "all_threads s - mem (threads p)"
    have all: "all_threads s = ?rest \<union> mem (threads p)"
      using pa p by (auto simp: all_threads_def)
    have all': "all_threads s' = ?rest \<union> mem (threads p')"
    proof (intro set_eqI iffI)
      fix x assume "x \<in> all_threads s'"
      then obtain qa q where q: "qa \<in> mem (list_process s)" "procs s' qa = Some q" "x \<in> mem (threads q)"
        by (auto simp: all_threads_def lst)
      show "x \<in> ?rest \<union> mem (threads p')"
      proof (cases "qa = pa")
        case False
        with q have "procs s qa = Some q" by (simp add: ps)
        moreover from this have "x \<notin> mem (threads p)"
          using kinv_disjoint [OF k pa q(1) not_sym [OF False] p] q(3) by blast
        ultimately show ?thesis using q by (auto simp: all_threads_def)
      qed (use q in \<open>simp add: ps\<close>)
    next
      fix x assume x: "x \<in> ?rest \<union> mem (threads p')"
      show "x \<in> all_threads s'"
      proof (cases "x \<in> mem (threads p')")
        case True
        then show ?thesis using pa by (auto simp: all_threads_def lst ps)
      next
        case False
        with x obtain qa q where q: "qa \<in> mem (list_process s)" "procs s qa = Some q" "x \<in> mem (threads q)"
          "x \<notin> mem (threads p)"
          by (auto simp: all_threads_def)
        moreover from this p have "qa \<noteq> pa" by auto
        ultimately show ?thesis by (auto simp: all_threads_def lst ps)
      qed
    qed
    have fin: "finite (all_threads s)" by (rule finite_all_threads [OF k])
    have "?rest \<inter> mem (threads p') = {}"
      using T by blast
    moreover have "finite (mem (threads p'))"
    proof (rule finite_subset)
      show "mem (threads p') \<subseteq> {..<brk s'}"
      proof
        fix x assume "x \<in> mem (threads p')"
        then obtain t where "thrs s' x = Some t" using proc_live_thread [OF inv] by blast
        then show "x \<in> {..<brk s'}" using fr by (cases "brk s' \<le> x") (auto simp: fresh_beyond_def)
      qed
    qed simp
    ultimately have "card (all_threads s') = card ?rest + card (mem (threads p'))"
      unfolding all' using fin by (intro card_Un_disjoint) auto
    moreover have "card (all_threads s) = card ?rest + card (mem (threads p))"
      by (subst all, rule card_Un_disjoint) (use fin proc_threads_finite [OF k pa p] in auto)
    ultimately show ?thesis using cnt kinv_count [OF k] by simp
  qed
  ultimately show ?thesis using fr ur by (auto simp: kinv_def)
qed

end
