(* ===== verification/Fiber_Steps.thy ===== *)
theory Fiber_Steps
  imports Fiber_Invariant
begin

text \<open>
  What the searches and the seven commands compute in a state that satisfies the invariant: the
  result and the next state of every branch, written out, and that each of them keeps the
  invariant.
\<close>

section \<open>Searching in an ordered state\<close>

lemma key_frames [simp]:
  "tkey (s\<lparr>procs := P\<rparr>) = tkey s" "fkey (s\<lparr>procs := P\<rparr>) = fkey s"
  "pkey (s\<lparr>thrs := T\<rparr>) = pkey s" "pkey (s\<lparr>fibs := F\<rparr>) = pkey s"
  "tkey (s\<lparr>fibs := F\<rparr>) = tkey s" "fkey (s\<lparr>thrs := T\<rparr>) = fkey s"
  "pkey (s\<lparr>bufs_live := n\<rparr>) = pkey s" "tkey (s\<lparr>bufs_live := n\<rparr>) = tkey s" "fkey (s\<lparr>bufs_live := n\<rparr>) = fkey s"
  "pkey (s\<lparr>brk := n\<rparr>) = pkey s" "tkey (s\<lparr>brk := n\<rparr>) = tkey s" "fkey (s\<lparr>brk := n\<rparr>) = fkey s"
  "pkey (s\<lparr>uregs := u\<rparr>) = pkey s" "tkey (s\<lparr>uregs := u\<rparr>) = tkey s" "fkey (s\<lparr>uregs := u\<rparr>) = fkey s"
  "pkey (s\<lparr>ufx := x\<rparr>) = pkey s" "tkey (s\<lparr>ufx := x\<rparr>) = tkey s" "fkey (s\<lparr>ufx := x\<rparr>) = fkey s"
  "pkey (s\<lparr>count_threads := i\<rparr>) = pkey s" "tkey (s\<lparr>count_threads := i\<rparr>) = tkey s"
  "fkey (s\<lparr>count_threads := i\<rparr>) = fkey s" "tkey (s\<lparr>list_process := l\<rparr>) = tkey s"
  "fkey (s\<lparr>list_process := l\<rparr>) = fkey s" "pkey (s\<lparr>list_process := l\<rparr>) = pkey s"
  by (simp_all add: tkey_def fkey_def pkey_def fun_eq_iff)

lemma lock_again [simp]:
  "\<not> lock_fiber p \<Longrightarrow> p\<lparr>lock_fiber := False\<rparr> = p"
  "\<not> lock_hash p \<Longrightarrow> p\<lparr>lock_hash := False\<rparr> = p"
  by (cases p; simp)+

lemma procs_triv [simp]: "procs s pa = Some p \<Longrightarrow> s\<lparr>procs := (procs s)(pa \<mapsto> p)\<rparr> = s"
  by (simp add: fun_upd_idem)

lemma search_process_find: "search_process env k s = pid_find env (pkey s) k (list_process s)"
  by (simp add: search_process_def pid_find_def)

lemma search_process_cases:
  assumes "kinv env s"
  obtains (None) "search_process env k s = Inr None" "\<And>pa. pa \<in> mem (list_process s) \<Longrightarrow> pkey s pa \<noteq> Some k"
  | (Some) pa p where "search_process env k s = Inr (Some pa)" "pa \<in> mem (list_process s)"
      "procs s pa = Some p" "p_pid p = k" "proc_inv env s p"
proof (rule pidx.find_total [OF kinv_list [OF assms] TrueI, of k])
  assume "pid_find env (pkey s) k (list_process s) = Inr None"
    "\<And>pa. pa \<in> mem (list_process s) \<Longrightarrow> pkey s pa \<noteq> Some k"
  then show thesis by (rule None [unfolded search_process_find])
next
  fix pa assume pa: "pid_find env (pkey s) k (list_process s) = Inr (Some pa)" "pa \<in> mem (list_process s)"
    "pkey s pa = Some k"
  obtain p where p: "procs s pa = Some p" using kinv_live_proc [OF assms pa(2)] by blast
  show thesis
    by (rule Some [unfolded search_process_find, OF pa(1,2) p _ kinv_proc [OF assms pa(2) p]])
      (use pa(3) p in \<open>simp add: pkey_def\<close>)
qed

lemma search_thread_find:
  assumes "procs s pa = Some p" "\<not> lock_hash p"
  shows "search_thread env k pa s = kbind (pid_find env (tkey s) k (threads p)) (\<lambda>r. Inr (r, s))"
  using assms by (simp add: search_thread_def spin_lock_hash_def spin_unlock_hash_def pid_find_def fun_upd_idem)

lemma thread_find_cases:
  assumes "proc_inv env s p"
  obtains (None) "pid_find env (tkey s) k (threads p) = Inr None"
      "\<And>ta. ta \<in> mem (threads p) \<Longrightarrow> tkey s ta \<noteq> Some k"
  | (Some) ta t fa f where "pid_find env (tkey s) k (threads p) = Inr (Some ta)" "ta \<in> mem (threads p)"
      "thrs s ta = Some t" "t_pid t = k" "active_fiber t = Some fa" "act s ta = Some fa"
      "fa \<in> mem (fibers p)" "fibs s fa = Some f" "running f" "length (regs f) = nregs env"
proof (rule pidx.find_total [OF proc_threads [OF assms] TrueI, of k])
  assume "pid_find env (tkey s) k (threads p) = Inr None" "\<And>a. a \<in> mem (threads p) \<Longrightarrow> tkey s a \<noteq> Some k"
  then show thesis by (rule None)
next
  fix ta assume ta: "pid_find env (tkey s) k (threads p) = Inr (Some ta)" "ta \<in> mem (threads p)" "tkey s ta = Some k"
  obtain t fa f where t: "thrs s ta = Some t" "active_fiber t = Some fa" "fa \<in> mem (fibers p)"
      "fibs s fa = Some f" "running f"
    using proc_live_thread [OF assms ta(2)] by blast
  show thesis
    by (rule Some [OF ta(1,2) t(1) _ t(2) _ t(3-5)])
      (use ta(3) t fiber_invD [OF proc_fiber [OF assms t(3)] t(4)] in \<open>simp_all add: tkey_def act_def\<close>)
qed

lemma search_fiber_find: "procs s pa = Some p \<Longrightarrow>
    search_fiber env i pa s = chain_find (fkey s) (\<lambda>k. k = scast i) (fibers p (hash_32 env i))"
  by (simp add: search_fiber_def)

lemma search_fiber_ucast: "procs s pa = Some p \<Longrightarrow>
    search_fiber env (ucast k) pa s = fib_find env (fkey s) k (fibers p)"
  by (simp add: search_fiber_def fib_find_def int_cut_def)

lemma search_fiber_cases:
  assumes "proc_inv env s p" "procs s pa = Some p"
  obtains (None) "search_fiber env i pa s = Inr None"
  | (Some) fa f where "search_fiber env i pa s = Inr (Some fa)" "fa \<in> mem (fibers p)" "fibs s fa = Some f"
      "index f = scast i" "fiber_inv env s p fa"
proof -
  have "table_ok (hash_long env) (fib_valid env) (fkey s) (fibers p)"
    using proc_fibers [OF assms(1)] by (simp add: fib_tab_def)
  then show thesis
  proof (rule chain_find_table [where P = "\<lambda>k. k = scast i" and b = "hash_32 env i"])
    assume "chain_find (fkey s) (\<lambda>k. k = scast i) (fibers p (hash_32 env i)) = Inr None"
    then show thesis using None search_fiber_find [OF assms(2)] by simp
  next
    fix a k assume "chain_find (fkey s) (\<lambda>k. k = scast i) (fibers p (hash_32 env i)) = Inr (Some a)"
      "a \<in> mem (fibers p)" "fkey s a = Some k" "k = scast i"
    then show thesis
      using Some search_fiber_find [OF assms(2)] proc_fiber [OF assms(1)] by (auto simp: fkey_def)
  qed
qed

section \<open>SWITCHTOFIBER\<close>

text \<open>The four ways the command can end.\<close>

definition switched :: "kenv \<Rightarrow> call \<Rightarrow> addr \<Rightarrow> addr \<Rightarrow> addr \<Rightarrow> kstate \<Rightarrow> kstate" where
  "switched env c ta af fa s =
     (let fo = the (fibs s af); fn = the (fibs s fa);
          fo' = fo\<lparr>regs := uregs s (c_pid c), fpu_reg := fxsave env (ufx s (c_pid c)) (fpu_reg fo), running := False\<rparr>
      in s\<lparr>fibs := (fibs s)(af \<mapsto> (if starting_time fo \<noteq> 0 then charge (ts1 c) fo' else fo'),
                           fa \<mapsto> fn\<lparr>running := True, activations := activations fn + 1, starting_time := nanos (ts2 c)\<rparr>),
           thrs := (thrs s)(ta \<mapsto> (the (thrs s ta))\<lparr>active_fiber := Some fa\<rparr>),
           uregs := (uregs s)(c_pid c := regs fn),
           ufx := (ufx s)(c_pid c := fxrstor env (fpu_reg fn))\<rparr>)"

lemma ioctl_switch_success:
  assumes "search_process env (c_tgid c) s = Inr (Some pa)" "procs s pa = Some p"
    and "\<not> lock_fiber p" "\<not> lock_hash p"
    and "search_fiber env (ucast (c_arg c)) pa s = Inr (Some fa)" "fibs s fa = Some f" "\<not> running f"
    and "pid_find env (tkey s) (c_pid c) (threads p) = Inr (Some ta)" "thrs s ta = Some t"
    and "active_fiber t = Some af" "fibs s af = Some fo" "running fo"
  shows "ioctl_switch env c s = Inr (0, switched env c ta af fa s)"
proof -
  have ne: "af \<noteq> fa" using assms by auto
  let ?s1 = "s\<lparr>procs := (procs s)(pa \<mapsto> p\<lparr>lock_fiber := True\<rparr>)\<rparr>"
  have sf: "search_fiber env (ucast (c_arg c)) pa ?s1 = Inr (Some fa)"
    using assms(2,5) by (simp add: search_fiber_find)
  have st: "search_thread env (c_pid c) pa ?s1 = Inr (Some ta, ?s1)"
    using assms search_thread_find [of ?s1 pa "p\<lparr>lock_fiber := True\<rparr>"] by simp
  show ?thesis
    using assms ne sf st
    by (simp add: ioctl_switch_def spin_lock_fiber_def spin_unlock_fiber_def switch_context_def
        switched_def charge_def Let_def fun_upd_idem fun_upd_twist)
qed

lemma switched_simps [simp]:
  "procs (switched env c ta af fa s) = procs s"
  "list_process (switched env c ta af fa s) = list_process s"
  "brk (switched env c ta af fa s) = brk s"
  "bufs_live (switched env c ta af fa s) = bufs_live s"
  "count_threads (switched env c ta af fa s) = count_threads s"
  by (simp_all add: switched_def Let_def)

text \<open>Facts about the parties of a switch.\<close>

lemma switched_proc_inv:
  assumes p: "proc_inv env s p" and ta: "ta \<in> mem (threads p)" "thrs s ta = Some t"
    and af: "active_fiber t = Some af" "fibs s af = Some fo"
    and fa: "fa \<in> mem (fibers p)" "fibs s fa = Some fn" "\<not> running fn"
    and ur: "length (uregs s (c_pid c)) = nregs env"
  shows "proc_inv env (switched env c ta af fa s) p"
proof -
  let ?s = "switched env c ta af fa s"
  have ata: "act s ta = Some af" using ta af by (simp add: act_def)
  have idle: "act s x \<noteq> Some fa" if "x \<in> mem (threads p)" for x
    using that fiber_invD [OF proc_fiber [OF p fa(1)] fa(2)] fa(3) by blast
  have afm: "af \<in> mem (fibers p)" "running fo"
    using proc_live_thread [OF p ta(1)] ta(2) af by auto
  have ne: "af \<noteq> fa" using idle [OF ta(1)] ata by auto
  have only: "x = ta" if "x \<in> mem (threads p)" "act s x = Some af" for x
    using proc_inj [OF p] that ta(1) ata by (auto simp: inj_on_def)
  have act': "act ?s = (act s)(ta := Some fa)"
    by (rule ext) (simp add: act_def switched_def Let_def)
  have fibs': "fibs ?s x = (if x = fa then Some (fn\<lparr>running := True, activations := activations fn + 1,
        starting_time := nanos (ts2 c)\<rparr>) else if x = af then
        Some ((if starting_time fo \<noteq> 0 then charge (ts1 c) else id)
          (fo\<lparr>regs := uregs s (c_pid c), fpu_reg := fxsave env (ufx s (c_pid c)) (fpu_reg fo), running := False\<rparr>))
        else fibs s x)" for x
    using ne fa(2) af(2) by (simp add: switched_def Let_def)
  have tk: "tkey ?s = tkey s"
    by (rule ext) (simp add: tkey_def switched_def Let_def ta)
  have fk: "fkey ?s = fkey s"
    using af(2) fa(2) by (intro ext) (simp add: fkey_def fibs' charge_def)
  have runs: "(\<exists>y\<in>mem (threads p). act ?s y = Some x) \<longleftrightarrow>
      x = fa \<or> x \<noteq> af \<and> (\<exists>y\<in>mem (threads p). act s y = Some x)" for x
  proof (cases "x = fa")
    case True
    then show ?thesis using ta(1) by (auto simp: act')
  next
    case False
    have "(\<exists>y\<in>mem (threads p). act ?s y = Some x) \<longleftrightarrow> (\<exists>y\<in>mem (threads p) - {ta}. act s y = Some x)"
      using False by (auto simp: act')
    also have "\<dots> \<longleftrightarrow> x \<noteq> af \<and> (\<exists>y\<in>mem (threads p). act s y = Some x)"
      using only ata by fastforce
    finally show ?thesis using False by simp
  qed
  have "fiber_inv env ?s p x" if x: "x \<in> mem (fibers p)" for x
  proof -
    obtain f where f: "fibs s x = Some f" "index f < fiber_id p" "length (regs f) = nregs env"
      "running f \<longleftrightarrow> (\<exists>y\<in>mem (threads p). act s y = Some x)"
      using proc_fiber [OF p x] by (auto simp: fiber_inv_def)
    then show ?thesis
      using ne ur fa(2) af(2) unfolding fiber_inv_def runs fibs' by (auto simp: charge_def)
  qed
  moreover have "inj_on (act ?s) (mem (threads p))"
  proof (rule inj_onI)
    fix x y assume xy: "x \<in> mem (threads p)" "y \<in> mem (threads p)" "act ?s x = act ?s y"
    then show "x = y"
      using inj_onD [OF proc_inj [OF p], of x y] idle [of x] idle [of y] by (auto simp: act' split: if_splits)
  qed
  moreover have "\<forall>x\<in>mem (threads p). \<exists>y\<in>mem (fibers p). act ?s x = Some y"
    using proc_active [OF p] fa(1) by (auto simp: act')
  ultimately show ?thesis
    using p by (simp add: proc_inv_def tk fk)
qed

lemma switched_kinv:
  assumes k: "kinv env s" and pa: "pa \<in> mem (list_process s)" "procs s pa = Some p"
    and ta: "ta \<in> mem (threads p)" "thrs s ta = Some t"
    and af: "active_fiber t = Some af" "fibs s af = Some fo"
    and fa: "fa \<in> mem (fibers p)" "fibs s fa = Some fn" "\<not> running fn"
  shows "kinv env (switched env c ta af fa s)"
proof -
  note p = kinv_proc [OF k pa]
  have afm: "af \<in> mem (fibers p)"
    using proc_live_thread [OF p ta(1)] ta(2) af by auto
  have fr: "fresh_beyond (switched env c ta af fa s)"
    using k ta(2) af(2) fa(2) by (auto simp: kinv_def fresh_beyond_def switched_def Let_def)
  show ?thesis
    by (rule kinv_local [OF k pa, where p' = p])
      (use pa switched_proc_inv [OF p ta af fa] kinv_uregs [OF k] fr afm fa ta
         fiber_invD [OF proc_fiber [OF p fa(1)] fa(2)] in \<open>auto simp: switched_def Let_def\<close>)
qed


text \<open>An index that is unknown, running, or asked for by an unregistered thread.\<close>

lemma ioctl_switch_refused:
  assumes "search_process env (c_tgid c) s = Inr (Some pa)" "procs s pa = Some p" "\<not> lock_fiber p" "\<not> lock_hash p"
  shows "search_fiber env (ucast (c_arg c)) pa s = Inr None \<Longrightarrow> ioctl_switch env c s = Inr (- 1, s)"
    and "search_fiber env (ucast (c_arg c)) pa s = Inr (Some fa) \<Longrightarrow> fibs s fa = Some f \<Longrightarrow> running f \<Longrightarrow>
      ioctl_switch env c s =
        Inr (- 1, s\<lparr>fibs := (fibs s)(fa \<mapsto> f\<lparr>failed_activations := failed_activations f + 1\<rparr>)\<rparr>)"
    and "search_fiber env (ucast (c_arg c)) pa s = Inr (Some fa) \<Longrightarrow> fibs s fa = Some f \<Longrightarrow> \<not> running f \<Longrightarrow>
      pid_find env (tkey s) (c_pid c) (threads p) = Inr None \<Longrightarrow> ioctl_switch env c s = Inr (- 1, s)"
proof -
  let ?s1 = "s\<lparr>procs := (procs s)(pa \<mapsto> p\<lparr>lock_fiber := True\<rparr>)\<rparr>"
  have sf: "search_fiber env i pa ?s1 = search_fiber env i pa s" for i
    using assms(2) by (simp add: search_fiber_find)
  note D = ioctl_switch_def spin_lock_fiber_def spin_unlock_fiber_def
  show "ioctl_switch env c s = Inr (- 1, s)" if "search_fiber env (ucast (c_arg c)) pa s = Inr None"
    using assms that sf by (simp add: D fun_upd_idem)
  show "ioctl_switch env c s =
        Inr (- 1, s\<lparr>fibs := (fibs s)(fa \<mapsto> f\<lparr>failed_activations := failed_activations f + 1\<rparr>)\<rparr>)"
    if "search_fiber env (ucast (c_arg c)) pa s = Inr (Some fa)" "fibs s fa = Some f" "running f"
    using assms that sf by (simp add: D fun_upd_idem)
  show "ioctl_switch env c s = Inr (- 1, s)"
    if "search_fiber env (ucast (c_arg c)) pa s = Inr (Some fa)" "fibs s fa = Some f" "\<not> running f"
      "pid_find env (tkey s) (c_pid c) (threads p) = Inr None"
  proof -
    have "search_thread env (c_pid c) pa ?s1 = Inr (None, ?s1)"
      using assms that search_thread_find [of ?s1 pa "p\<lparr>lock_fiber := True\<rparr>"] by simp
    then show ?thesis using assms that sf by (simp add: D fun_upd_idem)
  qed
qed

lemma fiber_update_kinv:
  assumes k: "kinv env s" and pa: "pa \<in> mem (list_process s)" "procs s pa = Some p"
    and fa: "fa \<in> mem (fibers p)" "fibs s fa = Some f"
    and f': "index f' = index f" "running f' = running f" "length (regs f') = length (regs f)"
  shows "kinv env (s\<lparr>fibs := (fibs s)(fa \<mapsto> f')\<rparr>)"
proof -
  let ?s = "s\<lparr>fibs := (fibs s)(fa \<mapsto> f')\<rparr>"
  note p = kinv_proc [OF k pa]
  have fk: "fkey ?s = fkey s" using fa f' by (auto simp: fkey_def)
  have ac: "act ?s = act s" by (auto simp: act_def)
  have "proc_inv env ?s p"
    using p fa(2) f' by (auto simp: proc_inv_def fk ac fiber_inv_def)
  moreover have "fresh_beyond ?s" using k fa(2) by (auto simp: kinv_def fresh_beyond_def)
  ultimately show ?thesis
    by (intro kinv_local [OF k pa, where p' = p]) (use pa fa kinv_uregs [OF k] in auto)
qed

lemma ioctl_switch_cases:
  assumes k: "kinv env s"
  obtains (refused) "ioctl_switch env c s = Inr (- 1, s)"
  | (busy) pa p fa f where "ioctl_switch env c s =
        Inr (- 1, s\<lparr>fibs := (fibs s)(fa \<mapsto> f\<lparr>failed_activations := failed_activations f + 1\<rparr>)\<rparr>)"
      "search_process env (c_tgid c) s = Inr (Some pa)" "pa \<in> mem (list_process s)" "procs s pa = Some p"
      "fa \<in> mem (fibers p)" "fibs s fa = Some f" "running f" "index f = scast (ucast (c_arg c) :: u32)"
  | (success) pa p ta t af fo fa f where "ioctl_switch env c s = Inr (0, switched env c ta af fa s)"
      "search_process env (c_tgid c) s = Inr (Some pa)" "pa \<in> mem (list_process s)" "procs s pa = Some p"
      "pid_find env (tkey s) (c_pid c) (threads p) = Inr (Some ta)"
      "ta \<in> mem (threads p)" "thrs s ta = Some t" "t_pid t = c_pid c" "active_fiber t = Some af"
      "af \<in> mem (fibers p)" "fibs s af = Some fo" "running fo"
      "fa \<in> mem (fibers p)" "fibs s fa = Some f" "\<not> running f" "index f = scast (ucast (c_arg c) :: u32)"
proof (rule search_process_cases [OF k, of "c_tgid c"])
  assume "search_process env (c_tgid c) s = Inr None"
  then show thesis by (intro refused) (simp add: ioctl_switch_def)
next
  fix pa p assume pa: "search_process env (c_tgid c) s = Inr (Some pa)" "pa \<in> mem (list_process s)"
    "procs s pa = Some p" "p_pid p = c_tgid c" and p: "proc_inv env s p"
  note ref = ioctl_switch_refused [OF pa(1,3) proc_locks [OF p]]
  show thesis
  proof (rule search_fiber_cases [OF p pa(3), of "ucast (c_arg c)"])
    assume "search_fiber env (ucast (c_arg c)) pa s = Inr None"
    then show thesis by (intro refused ref(1))
  next
    fix fa f assume fa: "search_fiber env (ucast (c_arg c)) pa s = Inr (Some fa)" "fa \<in> mem (fibers p)"
      "fibs s fa = Some f" "index f = scast (ucast (c_arg c) :: u32)"
    show thesis
    proof (cases "running f")
      case True
      show thesis by (rule busy [OF ref(2) [OF fa(1,3) True] pa(1-3) fa(2,3) True fa(4)])
    next
      case False
      show thesis
      proof (rule thread_find_cases [OF p, of "c_pid c"])
        assume "pid_find env (tkey s) (c_pid c) (threads p) = Inr None"
        then show thesis by (intro refused ref(3) [OF fa(1,3) False])
      next
        fix ta t af fo
        assume t: "pid_find env (tkey s) (c_pid c) (threads p) = Inr (Some ta)" "ta \<in> mem (threads p)"
          "thrs s ta = Some t" "t_pid t = c_pid c" "active_fiber t = Some af" "af \<in> mem (fibers p)"
          "fibs s af = Some fo" "running fo"
        show thesis
          by (rule success [OF ioctl_switch_success [OF pa(1,3) proc_locks [OF p] fa(1,3) False t(1,3,5,7,8)]
                pa(1-3) t(1-8) fa(2,3) False fa(4)])
      qed
    qed
  qed
qed

lemma ioctl_switch_kinv:
  assumes k: "kinv env s" and r: "ioctl_switch env c s = Inr (r, s')"
  shows "kinv env s'"
proof (rule ioctl_switch_cases [OF k, of c])
  assume "ioctl_switch env c s = Inr (- 1, s)"
  with k r show ?thesis by simp
next
  fix pa p fa f
  assume "ioctl_switch env c s = Inr (- 1, s\<lparr>fibs := (fibs s)(fa \<mapsto> f\<lparr>failed_activations := failed_activations f + 1\<rparr>)\<rparr>)"
    and a: "pa \<in> mem (list_process s)" "procs s pa = Some p" "fa \<in> mem (fibers p)" "fibs s fa = Some f"
  with r have "s' = s\<lparr>fibs := (fibs s)(fa \<mapsto> f\<lparr>failed_activations := failed_activations f + 1\<rparr>)\<rparr>" by simp
  then show ?thesis using fiber_update_kinv [OF k a] by simp
next
  fix pa p ta t af fo fa f
  assume "ioctl_switch env c s = Inr (0, switched env c ta af fa s)"
    and a: "pa \<in> mem (list_process s)" "procs s pa = Some p" "ta \<in> mem (threads p)" "thrs s ta = Some t"
    "active_fiber t = Some af" "fibs s af = Some fo" "fa \<in> mem (fibers p)" "fibs s fa = Some f" "\<not> running f"
  with r have "s' = switched env c ta af fa s" by simp
  then show ?thesis using switched_kinv [OF k a] by simp
qed

end
