(* ===== verification/Fiber_Create.thy ===== *)
theory Fiber_Create
  imports Fiber_Steps
begin

text \<open>
  CONVERTTOFIBER and CREATEFIBER: what they compute under the invariant, the failure branches and
  what these leave allocated, and that both keep the invariant as long as the index they hand out is
  one the module can find again (\<open>index_ok\<close>).
\<close>

section \<open>Allocations that nothing is linked to\<close>

lemma kinv_unlinked:
  assumes k: "kinv env s"
    and lst: "list_process s' = list_process s"
    and ps: "\<And>a. a \<in> mem (list_process s) \<Longrightarrow> procs s' a = procs s a"
    and ts: "\<And>a. a \<in> all_threads s \<Longrightarrow> thrs s' a = thrs s a"
    and fs: "\<And>a. a \<in> all_fibers s \<Longrightarrow> fibs s' a = fibs s a"
    and fr: "fresh_beyond s'" and cnt: "count_threads s' = count_threads s"
    and ur: "\<And>t. length (uregs s' t) = nregs env"
  shows "kinv env s'"
proof -
  have "pid_tab env (pkey s') (list_process s')"
    unfolding lst by (rule pidx.invar_cong [OF kinv_list [OF k]]) (simp add: pkey_def ps)
  moreover have "proc_inv env s' p" if "pa \<in> mem (list_process s')" "procs s' pa = Some p" for pa p
  proof -
    have q: "pa \<in> mem (list_process s)" "procs s pa = Some p" using that lst ps by auto
    then have "mem (threads p) \<subseteq> all_threads s" "mem (fibers p) \<subseteq> all_fibers s"
      by (auto simp: all_threads_def all_fibers_def)
    then show ?thesis
      by (intro proc_inv_frame [OF kinv_proc [OF k q]] ts fs) auto
  qed
  moreover have "all_threads s' = all_threads s"
    unfolding all_threads_def lst using ps by auto
  moreover have "disjoint_procs s'"
    using k ps by (auto simp: kinv_def disjoint_procs_def lst)
  ultimately show ?thesis
    using fr cnt ur kinv_count [OF k] by (auto simp: kinv_def)
qed

lemma linked_below:
  assumes "kinv env s"
  shows "a \<in> mem (list_process s) \<Longrightarrow> a < brk s"
    and "a \<in> all_threads s \<Longrightarrow> a < brk s"
    and "a \<in> all_fibers s \<Longrightarrow> a < brk s"
proof -
  show "a < brk s" if "a \<in> mem (list_process s)"
    using kinv_live_proc [OF assms that] kinv_fresh [OF assms, of a] by (cases "brk s \<le> a") auto
  show "a < brk s" if "a \<in> all_threads s"
    using that kinv_fresh [OF assms, of a] proc_live_thread [OF kinv_proc [OF assms]]
    by (cases "brk s \<le> a") (fastforce simp: all_threads_def)+
  show "a < brk s" if "a \<in> all_fibers s"
    using that kinv_fresh [OF assms, of a] proc_fiber [OF kinv_proc [OF assms]]
    by (cases "brk s \<le> a") (fastforce simp: all_fibers_def fiber_inv_def)+
qed

lemma kinv_alloc:
  assumes k: "kinv env s"
  shows "kinv env (s\<lparr>fibs := (fibs s)(brk s \<mapsto> f), brk := Suc (brk s)\<rparr>)"
    and "kinv env (s\<lparr>thrs := (thrs s)(brk s \<mapsto> t), brk := Suc (brk s)\<rparr>)"
    and "kinv env (s\<lparr>procs := (procs s)(brk s \<mapsto> p), brk := Suc (brk s)\<rparr>)"
    and "kinv env (s\<lparr>bufs_live := n\<rparr>)"
  by (rule kinv_unlinked [OF k];
      use linked_below [OF k] kinv_uregs [OF k] k in \<open>auto simp: kinv_def fresh_beyond_def\<close>)+

lemma all_linked_frames [simp]:
  "all_threads (s\<lparr>fibs := F\<rparr>) = all_threads s" "all_fibers (s\<lparr>fibs := F\<rparr>) = all_fibers s"
  "all_threads (s\<lparr>thrs := T\<rparr>) = all_threads s" "all_fibers (s\<lparr>thrs := T\<rparr>) = all_fibers s"
  "all_threads (s\<lparr>brk := b\<rparr>) = all_threads s" "all_fibers (s\<lparr>brk := b\<rparr>) = all_fibers s"
  "all_threads (s\<lparr>bufs_live := n\<rparr>) = all_threads s" "all_fibers (s\<lparr>bufs_live := n\<rparr>) = all_fibers s"
  by (simp_all add: all_threads_def all_fibers_def)

section \<open>Linking a fiber\<close>

definition link_fiber :: "kenv \<Rightarrow> addr \<Rightarrow> addr \<Rightarrow> fiber_arg \<Rightarrow> process_arg \<Rightarrow> kstate \<Rightarrow> kstate" where
  "link_fiber env pa fa f p s = s\<lparr>fibs := (fibs s)(fa \<mapsto> f),
     procs := (procs s)(pa \<mapsto> p\<lparr>fiber_id := fiber_id p + 1,
        fibers := hash_add (hash_long env (fiber_id p)) fa (fibers p)\<rparr>)\<rparr>"

lemma link_fiber_tab:
  assumes p: "proc_inv env s p" and ok: "index_ok env (fiber_id p)"
    and fa: "fa \<notin> mem (fibers p)" and key: "key fa = Some (fiber_id p)"
    and old: "\<And>x. x \<in> mem (fibers p) \<Longrightarrow> key x = fkey s x"
  shows "fib_tab env key (hash_add (hash_long env (fiber_id p)) fa (fibers p))"
proof (rule fibx.invar_add [OF fibx.invar_cong [OF proc_fibers [OF p] old] fa key index_ok_valid [OF ok]])
  fix x assume "x \<in> mem (fibers p)"
  then show "key x \<noteq> Some (fiber_id p)"
    using proc_fiber [OF p, of x] by (auto simp: old fkey_def fiber_inv_def)
qed assumption

lemma link_fiber_kinv:
  assumes k: "kinv env s" and pa: "pa \<in> mem (list_process s)" "procs s pa = Some p"
    and ok: "index_ok env (fiber_id p)"
    and fa: "fa \<notin> all_fibers s" "fa < brk s"
    and f: "index f = fiber_id p" "length (regs f) = nregs env" "\<not> running f"
  shows "kinv env (link_fiber env pa fa f p s)"
proof -
  let ?s = "link_fiber env pa fa f p s"
  let ?p = "p\<lparr>fiber_id := fiber_id p + 1, fibers := hash_add (hash_long env (fiber_id p)) fa (fibers p)\<rparr>"
  note p = kinv_proc [OF k pa]
  have fap: "fa \<notin> mem (fibers p)" using fa pa by (auto simp: all_fibers_def)
  have tk: "tkey ?s = tkey s" and ac: "act ?s = act s"
    by (simp_all add: link_fiber_def fun_eq_iff tkey_def act_def)
  have fs: "fibs ?s x = (if x = fa then Some f else fibs s x)" for x
    by (simp add: link_fiber_def)
  have idle: "act s x \<noteq> Some fa" if "x \<in> mem (threads p)" for x
    using proc_active [OF p that] fap by auto
  have "fib_tab env (fkey ?s) (fibers ?p)"
    using link_fiber_tab [OF p ok fap, of "fkey ?s"] fap f(1) by (simp add: fkey_def fs) (metis fkey_def)
  moreover have "fiber_inv env ?s ?p x" if "x \<in> mem (fibers ?p)" for x
    using that proc_fiber [OF p, of x] f idle index_ok_less_Suc [OF ok]
    by (cases "x = fa") (auto simp: fiber_inv_def fs ac)
  ultimately have "proc_inv env ?s ?p"
    using p by (auto simp: proc_inv_def tk ac)
  moreover have "fresh_beyond ?s"
    using k fa(2) linked_below(1) [OF k pa(1)] by (auto simp: kinv_def fresh_beyond_def link_fiber_def)
  ultimately show ?thesis
    by (intro kinv_local [OF k pa, where p' = ?p])
      (use fa kinv_uregs [OF k] in \<open>auto simp: link_fiber_def\<close>)
qed

section \<open>CREATEFIBER\<close>

lemma kzalloc_kinv:
  assumes "kinv env s"
  shows "kinv env (snd (kzalloc_fiber env ok s))" "kinv env (snd (kzalloc_thread ok s))"
    "kinv env (snd (kzalloc_process ok s))" "kinv env (kzalloc_args ok s)" "kinv env (kfree_args ok s)"
  using kinv_alloc [OF assms] assms
  by (simp_all add: kzalloc_fiber_def kzalloc_thread_def kzalloc_process_def kzalloc_args_def kfree_args_def)

lemma length_bitmap_zero [simp]: "length (regs (bitmap_zero f)) = length (regs f)"
  by (simp add: bitmap_zero_def zero_prefix_def Let_def)

lemma bitmap_zero_simps [simp]:
  "index (bitmap_zero f) = index f" "running (bitmap_zero f) = running f"
  "thread_id (bitmap_zero f) = thread_id f" "starting_point (bitmap_zero f) = starting_point f"
  "fname (bitmap_zero f) = fname f" "activations (bitmap_zero f) = activations f"
  "failed_activations (bitmap_zero f) = failed_activations f" "fls_array (bitmap_zero f) = fls_array f"
  "starting_time (bitmap_zero f) = starting_time f" "total_time (bitmap_zero f) = total_time f"
  "fls_bitmap (bitmap_zero f) = 0"
  by (simp_all add: bitmap_zero_def Let_def)

lemma init_created_simps [simp]:
  "index (init_created env c s u i f) = i" "running (init_created env c s u i f) = False"
  "length (regs (init_created env c s u i f)) = length (uregs s (c_pid c))"
  "thread_id (init_created env c s u i f) = scast (c_pid c)"
  "starting_point (init_created env c s u i f) = lpStartAddress u"
  "fname (init_created env c s u i f) = snprintf8 i" "fls_bitmap (init_created env c s u i f) = 0"
  "starting_time (init_created env c s u i f) = 0" "total_time (init_created env c s u i f) = 0"
  "activations (init_created env c s u i f) = 0" "failed_activations (init_created env c s u i f) = 0"
  "fls_array (init_created env c s u i f) = fls_array f"
  by (simp_all add: init_created_def Let_def)

lemma init_converted_simps [simp]:
  "index (init_converted env c s i f) = i" "running (init_converted env c s i f) = True"
  "length (regs (init_converted env c s i f)) = length (uregs s (c_pid c))"
  "thread_id (init_converted env c s i f) = scast (c_pid c)"
  "fname (init_converted env c s i f) = snprintf8 i" "fls_bitmap (init_converted env c s i f) = 0"
  "activations (init_converted env c s i f) = 1" "failed_activations (init_converted env c s i f) = 0"
  "starting_time (init_converted env c s i f) = nanos (ts1 c)" "total_time (init_converted env c s i f) = 0"
  "fls_array (init_converted env c s i f) = fls_array f"
  by (simp_all add: init_converted_def Let_def)

lemma init_frames [simp]:
  "init_created env c (s\<lparr>procs := P\<rparr>) = init_created env c s"
  "init_converted env c (s\<lparr>procs := P\<rparr>) = init_converted env c s"
  "init_created env c (s\<lparr>thrs := T\<rparr>) = init_created env c s"
  "init_converted env c (s\<lparr>thrs := T\<rparr>) = init_converted env c s"
  by (simp_all add: init_created_def init_converted_def fun_eq_iff)

text \<open>The state in which the command searches: both buffers are allocated.\<close>

definition create_entry :: "kenv \<Rightarrow> call \<Rightarrow> kstate \<Rightarrow> kstate" where
  "create_entry env c s = snd (kzalloc_fiber env (ok_fiber c) (kzalloc_args (ok_args c) s))"

lemma create_entry_kinv: "kinv env s \<Longrightarrow> kinv env (create_entry env c s)"
  unfolding create_entry_def by (intro kzalloc_kinv)

lemma create_entry_simps [simp]:
  "list_process (create_entry env c s) = list_process s" "procs (create_entry env c s) = procs s"
  "thrs (create_entry env c s) = thrs s" "uregs (create_entry env c s) = uregs s"
  "ufx (create_entry env c s) = ufx s" "count_threads (create_entry env c s) = count_threads s"
  "tkey (create_entry env c s) = tkey s" "pkey (create_entry env c s) = pkey s"
  by (simp_all add: create_entry_def kzalloc_fiber_def kzalloc_args_def)

lemma create_entry_pair:
  "kzalloc_fiber env (ok_fiber c) (kzalloc_args (ok_args c) s) =
     (if ok_fiber c then Some (brk s) else None, create_entry env c s)"
  by (simp add: create_entry_def kzalloc_fiber_def kzalloc_args_def)

lemma create_entry_fiber:
  assumes "ok_fiber c"
  shows "fibs (create_entry env c s) = (fibs s)(brk s \<mapsto> zero_fiber env)"
    and "brk (create_entry env c s) = Suc (brk s)"
  using assms by (simp_all add: create_entry_def kzalloc_fiber_def kzalloc_args_def)

lemma ioctl_create_refused:
  assumes "ok_args c"
  shows "user_create c = None \<Longrightarrow> ioctl_create env c s = Inr (- 1, create_entry env c s)"
    and "user_create c = Some u \<Longrightarrow> search_process env (c_tgid c) (create_entry env c s) = Inr None \<Longrightarrow>
      ioctl_create env c s = Inr (- 1, create_entry env c s)"
    and "user_create c = Some u \<Longrightarrow> search_process env (c_tgid c) (create_entry env c s) = Inr (Some pa) \<Longrightarrow>
      procs s pa = Some p \<Longrightarrow> \<not> lock_hash p \<Longrightarrow> pid_find env (tkey s) (c_pid c) (threads p) = Inr None \<Longrightarrow>
      ioctl_create env c s = Inr (- 1, kfree_args True (create_entry env c s))"
  unfolding ioctl_create_def create_entry_pair Let_def
  using assms by (simp_all add: search_thread_find)

lemma ioctl_create_success:
  assumes "ok_args c" "ok_fiber c" "user_create c = Some u"
    and "search_process env (c_tgid c) (create_entry env c s) = Inr (Some pa)"
    and "procs s pa = Some p" "\<not> lock_hash p"
    and "pid_find env (tkey s) (c_pid c) (threads p) = Inr (Some ta)"
  shows "ioctl_create env c s = Inr (fiber_id p, kfree_args True
     (link_fiber env pa (brk s) (init_created env c s u (fiber_id p) (zero_fiber env)) p (create_entry env c s)))"
proof -
  let ?e = "create_entry env c s"
  have st: "search_thread env (c_pid c) pa ?e = Inr (Some ta, ?e)"
    using assms(5-7) by (simp add: search_thread_find)
  have ic: "init_created env c ?e u = init_created env c s u"
    by (simp add: init_created_def fun_eq_iff)
  show ?thesis
    unfolding ioctl_create_def create_entry_pair Let_def
    using assms(1-6) st by (simp add: ic create_entry_fiber link_fiber_def)
qed

lemma ioctl_create_cases:
  assumes k: "kinv env s" and args: "ok_args c"
  obtains (refused) "ioctl_create env c s = Inr (- 1, create_entry env c s)"
    "user_create c = None \<or> search_process env (c_tgid c) s = Inr None"
  | (unknown) pa p where "ioctl_create env c s = Inr (- 1, kfree_args True (create_entry env c s))"
      "search_process env (c_tgid c) s = Inr (Some pa)" "procs s pa = Some p"
      "pid_find env (tkey s) (c_pid c) (threads p) = Inr None"
  | (no_memory) "ioctl_create env c s = Inl NullDeref" "\<not> ok_fiber c"
  | (success) u pa p ta where "ioctl_create env c s = Inr (fiber_id p, kfree_args True
        (link_fiber env pa (brk s) (init_created env c s u (fiber_id p) (zero_fiber env)) p (create_entry env c s)))"
      "ok_fiber c" "user_create c = Some u"
      "search_process env (c_tgid c) s = Inr (Some pa)" "pa \<in> mem (list_process s)" "procs s pa = Some p"
      "pid_find env (tkey s) (c_pid c) (threads p) = Inr (Some ta)" "ta \<in> mem (threads p)"
proof (cases "user_create c")
  case None
  then show thesis by (intro refused ioctl_create_refused(1) [OF args]) simp_all
next
  case (Some u)
  let ?e = "create_entry env c s"
  have sp: "search_process env (c_tgid c) ?e = search_process env (c_tgid c) s"
    by (simp add: search_process_def)
  show thesis
  proof (rule search_process_cases [OF k, of "c_tgid c"])
    assume "search_process env (c_tgid c) s = Inr None"
    then show thesis using Some sp by (intro refused ioctl_create_refused(2) [OF args Some]) simp_all
  next
    fix pa p assume pa: "search_process env (c_tgid c) s = Inr (Some pa)" "pa \<in> mem (list_process s)"
      "procs s pa = Some p" and p: "proc_inv env s p"
    note spe = trans [OF sp pa(1)]
    show thesis
    proof (rule thread_find_cases [OF p, of "c_pid c"])
      assume n: "pid_find env (tkey s) (c_pid c) (threads p) = Inr None"
      show thesis
        by (rule unknown [OF ioctl_create_refused(3) [OF args Some spe pa(3) proc_locks(2) [OF p] n] pa(1,3) n])
    next
      fix ta assume ta: "pid_find env (tkey s) (c_pid c) (threads p) = Inr (Some ta)" "ta \<in> mem (threads p)"
      show thesis
      proof (cases "ok_fiber c")
        case True
        show thesis
          by (rule success [OF ioctl_create_success [OF args True Some spe pa(3) proc_locks(2) [OF p] ta(1)]
                True Some pa ta])
      next
        case False
        then have "ioctl_create env c s = Inl NullDeref"
          unfolding ioctl_create_def create_entry_pair Let_def
          using args Some spe pa(3) proc_locks(2) [OF p] ta(1) by (simp add: search_thread_find)
        then show thesis using no_memory False by blast
      qed
    qed
  qed
qed

text \<open>The index about to be handed out is one the module can find again.\<close>

definition next_index_ok :: "kenv \<Rightarrow> call \<Rightarrow> kstate \<Rightarrow> bool" where
  "next_index_ok env c s \<longleftrightarrow> index_ok env 0 \<and>
     (\<forall>pa p. search_process env (c_tgid c) s = Inr (Some pa) \<longrightarrow> procs s pa = Some p \<longrightarrow> index_ok env (fiber_id p))"

lemma ioctl_create_kinv:
  assumes k: "kinv env s" and ix: "next_index_ok env c s" and r: "ioctl_create env c s = Inr (r, s')"
  shows "kinv env s'"
proof -
  have args: "ok_args c" using r by (cases "ok_args c") (auto simp: ioctl_create_def case_prod_beta)
  note e = create_entry_kinv [OF k, of c]
  show ?thesis
    using k args
  proof (cases rule: ioctl_create_cases)
    case refused
    with r e show ?thesis by simp
  next
    case (unknown pa p)
    with r have "s' = kfree_args True (create_entry env c s)" by simp
    then show ?thesis using kzalloc_kinv(5) [OF e] by simp
  next
    case no_memory
    with r show ?thesis by simp
  next
    case (success u pa p ta)
    let ?f = "init_created env c s u (fiber_id p) (zero_fiber env)"
    have "kinv env (link_fiber env pa (brk s) ?f p (create_entry env c s))"
    proof (rule link_fiber_kinv [OF e])
      show "brk s \<notin> all_fibers (create_entry env c s)"
        using linked_below(3) [OF k, of "brk s"] by (auto simp: all_fibers_def)
      show "index_ok env (fiber_id p)" using ix success by (auto simp: next_index_ok_def)
    qed (use success create_entry_fiber kinv_uregs [OF k] in simp_all)
    with success r kzalloc_kinv(5) show ?thesis by fastforce
  qed
qed

section \<open>CONVERTTOFIBER\<close>

text \<open>A process that has just entered the list has no thread and no fiber.\<close>

lemma new_process_kinv:
  assumes k: "kinv env s" and new: "\<And>a. a \<in> mem (list_process s) \<Longrightarrow> pkey s a \<noteq> Some (p_pid p)"
    and pa: "pa \<notin> mem (list_process s)" "pa < brk s"
    and p: "\<not> lock_fiber p" "\<not> lock_hash p" "threads p = hash_init" "fibers p = hash_init"
  shows "kinv env (s\<lparr>procs := (procs s)(pa \<mapsto> p),
     list_process := hash_add (hash_32 env (p_pid p)) pa (list_process s)\<rparr>)" (is "kinv env ?s")
proof -
  have same: "procs ?s a = procs s a" if "a \<in> mem (list_process s)" for a
    using that pa by auto
  have "pid_tab env (pkey ?s) (list_process s)"
    by (rule pidx.invar_cong [OF kinv_list [OF k]]) (use same in \<open>simp add: pkey_def\<close>)
  then have "pid_tab env (pkey ?s) (list_process ?s)"
    using pidx.invar_add [of env "pkey ?s" "list_process s" pa "p_pid p"] pa new same
    by (simp add: pkey_def)
  moreover have "proc_inv env ?s q" if q: "qa \<in> mem (list_process ?s)" "procs ?s qa = Some q" for qa q
  proof (cases "qa = pa")
    case True
    with q p show ?thesis by (simp add: proc_inv_def pidx.invar_empty fibx.invar_empty)
  next
    case False
    with q have "proc_inv env s q" using kinv_proc [OF k] by simp
    then show ?thesis by (rule proc_inv_frame) simp_all
  qed
  moreover have "disjoint_procs ?s"
    using k p pa by (auto simp: kinv_def disjoint_procs_def)
  moreover have "all_threads ?s = all_threads s"
    using p pa by (auto simp: all_threads_def)
  moreover have "fresh_beyond ?s"
    using k pa(2) by (auto simp: kinv_def fresh_beyond_def)
  ultimately show ?thesis
    using k by (auto simp: kinv_def)
qed

text \<open>Linking the fresh thread at the frontier together with its first fiber.\<close>

definition link_thread :: "kenv \<Rightarrow> pid_t \<Rightarrow> addr \<Rightarrow> addr \<Rightarrow> fiber_arg \<Rightarrow> process_arg \<Rightarrow> kstate \<Rightarrow> kstate" where
  "link_thread env tid pa fa f p s = s\<lparr>
     thrs := (thrs s)(brk s \<mapsto> \<lparr>t_pid = tid, active_fiber = Some fa\<rparr>), brk := Suc (brk s),
     fibs := (fibs s)(fa \<mapsto> f),
     procs := (procs s)(pa \<mapsto> p\<lparr>threads := hash_add (hash_32 env tid) (brk s) (threads p),
        fiber_id := fiber_id p + 1, fibers := hash_add (hash_long env (fiber_id p)) fa (fibers p)\<rparr>),
     count_threads := count_threads s + 1\<rparr>"

lemma link_thread_kinv:
  assumes k: "kinv env s" and pa: "pa \<in> mem (list_process s)" "procs s pa = Some p"
    and new: "\<And>x. x \<in> mem (threads p) \<Longrightarrow> tkey s x \<noteq> Some tid"
    and ok: "index_ok env (fiber_id p)"
    and fa: "fa \<notin> all_fibers s" "fa < brk s"
    and f: "index f = fiber_id p" "length (regs f) = nregs env" "running f"
  shows "kinv env (link_thread env tid pa fa f p s)"
proof -
  let ?s = "link_thread env tid pa fa f p s"
  let ?ta = "brk s"
  let ?p = "p\<lparr>threads := hash_add (hash_32 env tid) ?ta (threads p), fiber_id := fiber_id p + 1,
      fibers := hash_add (hash_long env (fiber_id p)) fa (fibers p)\<rparr>"
  note p = kinv_proc [OF k pa]
  have fap: "fa \<notin> mem (fibers p)" using fa pa by (auto simp: all_fibers_def)
  have tap: "?ta \<notin> mem (threads p)" "?ta \<notin> all_threads s"
    using linked_below(2) [OF k, of ?ta] pa by (auto simp: all_threads_def)
  have ts: "thrs ?s x = (if x = ?ta then Some \<lparr>t_pid = tid, active_fiber = Some fa\<rparr> else thrs s x)" for x
    by (simp add: link_thread_def)
  have ac: "act ?s = (act s)(?ta := Some fa)" by (auto simp: act_def ts)
  have fs: "fibs ?s x = (if x = fa then Some f else fibs s x)" for x
    by (simp add: link_thread_def)
  have idle: "act s x \<noteq> Some fa" if "x \<in> mem (threads p)" for x
    using proc_active [OF p that] fap by auto
  have "pid_tab env (tkey ?s) (hash_add (hash_32 env tid) ?ta (threads p))"
    by (rule pidx.invar_add [OF pidx.invar_cong [OF proc_threads [OF p]]])
      (use tap new in \<open>auto simp: tkey_def ts\<close>)
  moreover have "fib_tab env (fkey ?s) (fibers ?p)"
    using link_fiber_tab [OF p ok fap, of "fkey ?s"] fap f(1) by (simp add: fkey_def fs) (metis fkey_def)
  moreover have "\<forall>x\<in>mem (threads ?p). \<exists>y\<in>mem (fibers ?p). act ?s x = Some y"
    using proc_active [OF p] by (auto simp: ac)
  moreover have "inj_on (act ?s) (mem (threads ?p))"
    using inj_on_insert_upd [OF proc_inj [OF p] tap(1) idle] by (simp add: ac)
  moreover have "fiber_inv env ?s ?p x" if x: "x \<in> mem (fibers ?p)" for x
  proof (cases "x = fa")
    case True
    then show ?thesis using f index_ok_less_Suc [OF ok] by (auto simp: fiber_inv_def fs ac)
  next
    case False
    with x have "fiber_inv env s p x" using proc_fiber [OF p] by simp
    moreover have "(\<exists>y\<in>mem (threads ?p). act ?s y = Some x) \<longleftrightarrow> (\<exists>y\<in>mem (threads p). act s y = Some x)"
      using False tap(1) by (simp add: ac) metis
    ultimately show ?thesis
      using False index_ok_less_Suc [OF ok] by (auto simp: fiber_inv_def fs)
  qed
  ultimately have inv: "proc_inv env ?s ?p"
    using p by (simp add: proc_inv_def)
  have fr: "fresh_beyond ?s"
    using k fa(2) linked_below(1) [OF k pa(1)] by (auto simp: kinv_def fresh_beyond_def link_thread_def)
  have "card (mem (threads ?p)) = card (mem (threads p)) + 1"
    using tap(1) proc_threads_finite [OF k pa] by simp
  then show ?thesis
    by (intro kinv_local [OF k pa _ _ _ inv _ _ _ _ fr])
      (use fa tap kinv_uregs [OF k] in \<open>auto simp: link_thread_def\<close>)
qed

lemma convert_thread_success:
  assumes p: "procs s pa = Some p" "\<not> lock_hash p"
    and "pid_find env (tkey s) (c_pid c) (threads p) = Inr None" "ok_thread c" "fibs s fa = Some f0"
  shows "convert_thread env c (Some fa) pa s = Inr (fiber_id p,
     link_thread env (c_pid c) pa fa (init_converted env c s (fiber_id p) f0) p s)"
proof -
  have st: "search_thread env (c_pid c) pa s = Inr (None, s)"
    using assms by (simp add: search_thread_find)
  have ic: "init_converted env c (s\<lparr>brk := b, thrs := T, procs := P\<rparr>) = init_converted env c s" for b T P
    by (simp add: init_converted_def fun_eq_iff)
  show ?thesis
    using assms ic
    by (simp add: convert_thread_def st kzalloc_thread_def spin_lock_hash_def spin_unlock_hash_def zero_thread_def
        link_thread_def)
qed

lemma convert_thread_cases:
  assumes k: "kinv env s" and pa: "pa \<in> mem (list_process s)" "procs s pa = Some p"
    and fiber: "fiber = (if okf then Some fa else None)" "fibs s fa = Some f0 \<or> \<not> okf"
  obtains (present) ta where "convert_thread env c fiber pa s = Inr (- 1, s)"
      "pid_find env (tkey s) (c_pid c) (threads p) = Inr (Some ta)"
  | (no_thread) "convert_thread env c fiber pa s = Inr (- ENOMEM, s)" "\<not> ok_thread c"
      "pid_find env (tkey s) (c_pid c) (threads p) = Inr None"
  | (no_fiber) "convert_thread env c fiber pa s = Inl NullDeref" "ok_thread c" "\<not> okf"
      "pid_find env (tkey s) (c_pid c) (threads p) = Inr None"
  | (success) "convert_thread env c fiber pa s = Inr (fiber_id p,
        link_thread env (c_pid c) pa fa (init_converted env c s (fiber_id p) f0) p s)"
      "ok_thread c" "okf" "pid_find env (tkey s) (c_pid c) (threads p) = Inr None"
      "\<And>x. x \<in> mem (threads p) \<Longrightarrow> tkey s x \<noteq> Some (c_pid c)"
proof -
  note p = kinv_proc [OF k pa]
  note st = search_thread_find [OF pa(2) proc_locks(2) [OF p], of env "c_pid c"]
  show thesis
  proof (rule thread_find_cases [OF p, of "c_pid c"])
    fix ta assume ta: "pid_find env (tkey s) (c_pid c) (threads p) = Inr (Some ta)"
    show thesis by (rule present [OF _ ta]) (simp add: convert_thread_def st ta)
  next
    assume n: "pid_find env (tkey s) (c_pid c) (threads p) = Inr None"
      "\<And>x. x \<in> mem (threads p) \<Longrightarrow> tkey s x \<noteq> Some (c_pid c)"
    show thesis
    proof (cases "ok_thread c")
      case False
      then show thesis by (intro no_thread) (simp_all add: convert_thread_def st n kzalloc_thread_def)
    next
      case ok: True
      show thesis
      proof (cases okf)
        case True
        then show thesis
          using success convert_thread_success [OF pa(2) proc_locks(2) [OF p] n(1) ok] fiber ok n by simp
      next
        case False
        then show thesis
          using ok fiber pa(2) proc_locks(2) [OF p] n(1)
          by (intro no_fiber)
            (simp_all add: convert_thread_def st kzalloc_thread_def spin_lock_hash_def spin_unlock_hash_def)
      qed
    qed
  qed
qed

lemma convert_thread_kinv:
  assumes k: "kinv env s" and pa: "pa \<in> mem (list_process s)" "procs s pa = Some p"
    and fiber: "fiber = (if okf then Some fa else None)" "fibs s fa = Some f0 \<or> \<not> okf"
    and fa: "fa \<notin> all_fibers s" "fa < brk s \<or> \<not> okf" and ok: "index_ok env (fiber_id p)"
    and r: "convert_thread env c fiber pa s = Inr (r, s')"
  shows "kinv env s'"
  using k pa fiber
proof (cases rule: convert_thread_cases [where c = c])
  case success
  have "kinv env (link_thread env (c_pid c) pa fa (init_converted env c s (fiber_id p) f0) p s)"
    by (rule link_thread_kinv [OF k pa success(5) ok fa(1)])
      (use fa success(3) kinv_uregs [OF k] in simp_all)
  with success r show ?thesis by simp
qed (use k r in simp_all)

text \<open>The states in which the command looks for its process and for its thread.\<close>

definition convert_entry :: "kenv \<Rightarrow> call \<Rightarrow> kstate \<Rightarrow> kstate" where
  "convert_entry env c s = snd (kzalloc_fiber env (ok_fiber c) s)"

definition fresh_process :: "pid_t \<Rightarrow> process_arg" where
  "fresh_process k = \<lparr>p_pid = k, fiber_id = 0, lock_fiber = False, lock_hash = False,
     fibers = hash_init, threads = hash_init\<rparr>"

definition link_process :: "kenv \<Rightarrow> pid_t \<Rightarrow> kstate \<Rightarrow> kstate" where
  "link_process env k s = s\<lparr>brk := Suc (brk s),
     list_process := hash_add (hash_32 env k) (brk s) (list_process s),
     procs := (procs s)(brk s \<mapsto> fresh_process k)\<rparr>"

lemma link_process_kinv:
  assumes k: "kinv env s" and new: "\<And>a. a \<in> mem (list_process s) \<Longrightarrow> pkey s a \<noteq> Some pid"
  shows "kinv env (link_process env pid s)"
proof -
  let ?e = "s\<lparr>procs := (procs s)(brk s \<mapsto> zero_process), brk := Suc (brk s)\<rparr>"
  have "brk s \<notin> mem (list_process s)" using linked_below(1) [OF k, of "brk s"] by auto
  then have "kinv env (?e\<lparr>procs := (procs ?e)(brk s \<mapsto> fresh_process pid),
      list_process := hash_add (hash_32 env (p_pid (fresh_process pid))) (brk s) (list_process ?e)\<rparr>)"
    using new by (intro new_process_kinv kinv_alloc(3) [OF k]) (auto simp: pkey_def fresh_process_def)
  moreover have "?e\<lparr>procs := (procs ?e)(brk s \<mapsto> fresh_process pid),
      list_process := hash_add (hash_32 env (p_pid (fresh_process pid))) (brk s) (list_process ?e)\<rparr> =
      link_process env pid s"
    by (simp add: link_process_def fresh_process_def)
  ultimately show ?thesis by simp
qed

lemma all_fibers_link_process:
  assumes "brk s \<notin> mem (list_process s)"
  shows "all_fibers (link_process env pid s) = all_fibers s"
proof (rule set_eqI)
  have "(qa \<in> mem (list_process (link_process env pid s)) \<and> procs (link_process env pid s) qa = Some q \<and> x \<in> mem (fibers q))
      \<longleftrightarrow> (qa \<in> mem (list_process s) \<and> procs s qa = Some q \<and> x \<in> mem (fibers q))" for x qa q
    using assms by (cases "qa = brk s") (auto simp: link_process_def fresh_process_def)
  then show "x \<in> all_fibers (link_process env pid s) \<longleftrightarrow> x \<in> all_fibers s" for x
    by (simp add: all_fibers_def)
qed

lemma convert_entry_pair:
  "kzalloc_fiber env (ok_fiber c) s = (if ok_fiber c then Some (brk s) else None, convert_entry env c s)"
  by (simp add: convert_entry_def kzalloc_fiber_def)

lemma convert_entry_simps [simp]:
  "list_process (convert_entry env c s) = list_process s" "procs (convert_entry env c s) = procs s"
  "thrs (convert_entry env c s) = thrs s" "uregs (convert_entry env c s) = uregs s"
  "ufx (convert_entry env c s) = ufx s" "count_threads (convert_entry env c s) = count_threads s"
  "tkey (convert_entry env c s) = tkey s" "pkey (convert_entry env c s) = pkey s"
  "all_fibers (convert_entry env c s) = all_fibers s"
  "search_process env k (convert_entry env c s) = search_process env k s"
  by (simp_all add: convert_entry_def kzalloc_fiber_def search_process_def)

lemma convert_entry_fiber:
  "ok_fiber c \<Longrightarrow> fibs (convert_entry env c s) = (fibs s)(brk s \<mapsto> zero_fiber env)"
  "ok_fiber c \<Longrightarrow> brk (convert_entry env c s) = Suc (brk s)"
  by (simp_all add: convert_entry_def kzalloc_fiber_def)

lemma convert_entry_kinv: "kinv env s \<Longrightarrow> kinv env (convert_entry env c s)"
  unfolding convert_entry_def by (rule kzalloc_kinv)

lemma ioctl_convert_eq:
  "ioctl_convert env c s =
     (let fiber = (if ok_fiber c then Some (brk s) else None); e = convert_entry env c s in
      kbind (search_process env (c_tgid c) s) (\<lambda>pr.
        case pr of
          Some pa \<Rightarrow> convert_thread env c fiber pa e
        | None \<Rightarrow> if ok_process c
                   then convert_thread env c fiber (brk e) (link_process env (c_tgid c) e)
                   else Inr (- ENOMEM, e)))"
  unfolding ioctl_convert_def convert_entry_pair Let_def
  by (cases "search_process env (c_tgid c) s"; cases "ok_process c")
    (auto simp: kzalloc_process_def link_process_def zero_process_def fresh_process_def split: option.splits)

lemma convert_known_kinv:
  assumes k: "kinv env s" and ix: "next_index_ok env c s" and r: "ioctl_convert env c s = Inr (r, s')"
    and pa: "search_process env (c_tgid c) s = Inr (Some pa)" "pa \<in> mem (list_process s)" "procs s pa = Some p"
  shows "kinv env s'"
proof (rule convert_thread_kinv [OF convert_entry_kinv [OF k, of c] _ _ refl])
  show "brk s \<notin> all_fibers (convert_entry env c s)"
    using linked_below(3) [OF k, of "brk s"] by auto
  show "convert_thread env c (if ok_fiber c then Some (brk s) else None) pa (convert_entry env c s) = Inr (r, s')"
    using r pa by (simp add: ioctl_convert_eq Let_def)
qed (use pa ix convert_entry_fiber in \<open>auto simp: next_index_ok_def\<close>)

lemma convert_unknown_kinv:
  assumes k: "kinv env s" and ix: "next_index_ok env c s" and r: "ioctl_convert env c s = Inr (r, s')"
    and n: "search_process env (c_tgid c) s = Inr None" "\<And>a. a \<in> mem (list_process s) \<Longrightarrow> pkey s a \<noteq> Some (c_tgid c)"
    and ok: "ok_process c"
  shows "kinv env s'"
proof -
  let ?e = "convert_entry env c s"
  note e = convert_entry_kinv [OF k, of c]
  have fa: "all_fibers (link_process env (c_tgid c) ?e) = all_fibers s"
    using linked_below(1) [OF e, of "brk ?e"] by (subst all_fibers_link_process) auto
  have l: "kinv env (link_process env (c_tgid c) ?e)"
    by (rule link_process_kinv [OF e]) (use n in simp)
  show ?thesis
  proof (rule convert_thread_kinv [OF l _ _ refl])
    show "procs (link_process env (c_tgid c) ?e) (brk ?e) = Some (fresh_process (c_tgid c))"
      by (simp add: link_process_def)
    show "brk s \<notin> all_fibers (link_process env (c_tgid c) ?e)"
      using linked_below(3) [OF k, of "brk s"] by (auto simp: fa)
    show "convert_thread env c (if ok_fiber c then Some (brk s) else None) (brk ?e)
        (link_process env (c_tgid c) ?e) = Inr (r, s')"
      using r n ok by (simp add: ioctl_convert_eq Let_def)
  qed (use ix convert_entry_fiber in \<open>auto simp: link_process_def fresh_process_def next_index_ok_def\<close>)
qed

lemma ioctl_convert_kinv:
  assumes k: "kinv env s" and ix: "next_index_ok env c s" and r: "ioctl_convert env c s = Inr (r, s')"
  shows "kinv env s'"
proof (rule search_process_cases [OF k, of "c_tgid c"])
  fix pa p
  assume "search_process env (c_tgid c) s = Inr (Some pa)" "pa \<in> mem (list_process s)" "procs s pa = Some p"
  then show ?thesis by (rule convert_known_kinv [OF k ix r])
next
  assume n: "search_process env (c_tgid c) s = Inr None"
    "\<And>a. a \<in> mem (list_process s) \<Longrightarrow> pkey s a \<noteq> Some (c_tgid c)"
  show ?thesis
  proof (cases "ok_process c")
    case True
    show ?thesis by (rule convert_unknown_kinv [OF k ix r n True])
  next
    case False
    with r n(1) have "s' = convert_entry env c s" by (simp add: ioctl_convert_eq Let_def)
    then show ?thesis by (simp add: convert_entry_kinv [OF k])
  qed
qed

end
