(* ===== verification/Fls.thy ===== *)
theory Fls
  imports Fiber_Create
begin

text \<open>
  Fiber-local storage. The scan for a free bit and the single-bit operations; the interface
  \<open>slot_store\<close> of what the four operations promise, interpreted on the model's operations for the
  64 slots the bitmap word really has; what happens beyond them; and that the four commands keep the
  invariant.
\<close>

section \<open>The scan for a free bit\<close>

lemma ffz_Some_iff: "ffz w = Some i \<longleftrightarrow> i < 64 \<and> \<not> bit w i \<and> (\<forall>j<i. bit w j)"
  unfolding ffz_def find_Some_iff by (auto simp: nth_upt intro: exI [of _ i])

lemma ffz_None_iff: "ffz w = None \<longleftrightarrow> (\<forall>i<64. bit w i)"
  unfolding ffz_def find_None_iff by auto

lemma ffz_words_bounds:
  "b \<le> ffz_words b ws \<and> ffz_words b ws \<le> b + 64 * length ws"
proof (induction ws arbitrary: b)
  case (Cons w ws)
  show ?case
  proof (cases "ffz w")
    case None
    with Cons.IH [of "b + 64"] show ?thesis by simp
  next
    case (Some i)
    then have "i < 64" by (simp add: ffz_Some_iff)
    with Some show ?thesis by simp
  qed
qed simp

lemma ffz_words_Cons_full: "ffz w = None \<Longrightarrow> ffz_words b (w # ws) = ffz_words (b + 64) ws"
  by simp

text \<open>A free bit in the bitmap word itself is found; a full word sends the scan into the registers.\<close>

lemma find_first_zero_bit_low:
  "ffz (fls_bitmap f) = Some i \<Longrightarrow> find_first_zero_bit f = i"
  using ffz_Some_iff [of "fls_bitmap f" i] by (simp add: find_first_zero_bit_def MAX_FLS_def)

lemma find_first_zero_bit_high:
  "ffz (fls_bitmap f) = None \<Longrightarrow> find_first_zero_bit f = min MAX_FLS (ffz_words 64 (regs f))"
  by (simp add: find_first_zero_bit_def)

text \<open>Since \<^verbatim>\<open>struct pt_regs\<close> has fewer than 63 words, the scan never gets as far as
  \<^verbatim>\<open>MAX_FLS\<close>: the check for exhaustion is dead.\<close>

lemma find_first_zero_bit_less:
  "length (regs f) < 63 \<Longrightarrow> find_first_zero_bit f < MAX_FLS"
  using ffz_words_bounds [of 0 "fls_bitmap f # regs f"] by (simp add: find_first_zero_bit_def MAX_FLS_def)

section \<open>Bit operations on the bitmap word\<close>

lemma index_words:
  assumes "i < 4096"
  shows "unat (of_nat i :: u64) = i" "sint (of_nat i :: u64) = int i"
proof -
  show u: "unat (of_nat i :: u64) = i" using assms by (simp add: unsigned_of_nat take_bit_nat_eq_self)
  have e: "uint (of_nat i :: u64) = int i" by (simp only: uint_nat u)
  have "- (2 ^ 63) \<le> int i" "int i < 2 ^ 63" using assms by simp_all
  then have "signed_take_bit 63 (int i) = int i" by (simp only: signed_take_bit_int_eq_self_iff)
  then show "sint (of_nat i :: u64) = int i" by (simp only: sint_uint e) simp
qed

lemma low_bit_ops:
  assumes "i < 64"
  shows "test_bit (of_nat i) f = Inr (bit (fls_bitmap f) i)"
    and "change_bit (of_nat i) f = Inr (f\<lparr>fls_bitmap := flip_bit i (fls_bitmap f)\<rparr>)"
    and "clear_bit (of_nat i) f = Inr (f\<lparr>fls_bitmap := unset_bit i (fls_bitmap f)\<rparr>)"
    and "fls_load (of_nat i) f = Inr (fls_array f i)"
    and "fls_store (of_nat i) v f = Inr (f\<lparr>fls_array := (fls_array f)(i := v)\<rparr>)"
proof -
  have u: "unat (of_nat i :: u64) = i" and n: "sint (of_nat i :: u64) = int i"
    using assms by (simp_all only: index_words)
  have d: "i div 64 = 0" "i mod 64 = i" "\<not> 4096 \<le> i" using assms by simp_all
  have w: "bit_word (of_nat i) f = Inr (fls_bitmap f)"
    by (simp only: bit_word_def u n BITS_PER_LONG_def d get_word_def Let_def) simp
  show "test_bit (of_nat i) f = Inr (bit (fls_bitmap f) i)"
    by (simp only: test_bit_def w u BITS_PER_LONG_def d kbind.simps)
  show "change_bit (of_nat i) f = Inr (f\<lparr>fls_bitmap := flip_bit i (fls_bitmap f)\<rparr>)"
    by (simp only: change_bit_def w u BITS_PER_LONG_def d kbind.simps put_word_def Let_def) simp
  show "clear_bit (of_nat i) f = Inr (f\<lparr>fls_bitmap := unset_bit i (fls_bitmap f)\<rparr>)"
    by (simp only: clear_bit_def w u BITS_PER_LONG_def d kbind.simps put_word_def Let_def) simp
  show "fls_load (of_nat i) f = Inr (fls_array f i)"
    by (simp only: fls_load_def u n MAX_FLS_def d) simp
  show "fls_store (of_nat i) v f = Inr (f\<lparr>fls_array := (fls_array f)(i := v)\<rparr>)"
    by (simp only: fls_store_def u n MAX_FLS_def d) simp
qed

section \<open>The slot store\<close>

text \<open>
  What fiber-local storage promises: a finite map from slot numbers to values. \<open>alloc\<close> hands out the
  least free number and clears it, \<open>get\<close> and \<open>set\<close> act on allocated slots only, \<open>free\<close> gives a
  slot back.
\<close>

locale slot_store =
  fixes slots :: "'s \<Rightarrow> nat \<Rightarrow> 'v option"
    and cap :: nat
    and zero :: 'v
    and alloc :: "'s \<Rightarrow> 'e + nat option \<times> 's"
    and free :: "nat \<Rightarrow> 's \<Rightarrow> 'e + bool \<times> 's"
    and get :: "nat \<Rightarrow> 's \<Rightarrow> 'e + 'v option"
    and set :: "nat \<Rightarrow> 'v \<Rightarrow> 's \<Rightarrow> 'e + 's"
  assumes slots_cap: "slots s i \<noteq> None \<Longrightarrow> i < cap"
    and alloc_law: "i < cap \<Longrightarrow> slots s i = None \<Longrightarrow> (\<And>j. j < i \<Longrightarrow> slots s j \<noteq> None) \<Longrightarrow>
        \<exists>s'. alloc s = Inr (Some i, s') \<and> slots s' = (slots s)(i \<mapsto> zero)"
    and free_law: "0 < i \<Longrightarrow> i < cap \<Longrightarrow> \<exists>s'. free i s = Inr (True, s') \<and> slots s' = (slots s)(i := None)"
    and get_law: "i < cap \<Longrightarrow> get i s = Inr (slots s i)"
    and set_law: "i < cap \<Longrightarrow> \<exists>s'. set i v s = Inr s' \<and>
        slots s' = (if slots s i = None then slots s else (slots s)(i \<mapsto> v))"
begin

lemma alloc_total:
  assumes "i < cap" "slots s i = None"
  obtains k s' where "alloc s = Inr (Some k, s')" "k \<le> i" "slots s k = None" "slots s' = (slots s)(k \<mapsto> zero)"
proof -
  let ?k = "LEAST k. slots s k = None"
  have k: "slots s ?k = None" "?k \<le> i"
    using LeastI [of "\<lambda>k. slots s k = None" i] Least_le [of "\<lambda>k. slots s k = None" i] assms by auto
  have "slots s j \<noteq> None" if "j < ?k" for j using not_less_Least [OF that] by simp
  then obtain s' where "alloc s = Inr (Some ?k, s')" "slots s' = (slots s)(?k \<mapsto> zero)"
    using alloc_law [of ?k s] k assms(1) by (meson order_le_less_trans)
  then show thesis using that k by blast
qed

lemma get_after_alloc:
  assumes "alloc s = Inr (Some k, s')" "k < cap" "i < cap" "slots s i = None"
  shows "get k s' = Inr (Some zero)"
proof -
  obtain k' s'' where "alloc s = Inr (Some k', s'')" "slots s'' = (slots s)(k' \<mapsto> zero)"
    by (rule alloc_total [OF assms(3,4)])
  with assms(1,2) show ?thesis by (simp add: get_law)
qed

lemma get_after_set:
  assumes "i < cap" "slots s i \<noteq> None" "set i v s = Inr s'"
  shows "get i s' = Inr (Some v)"
  using set_law [of i v s] assms by (auto simp: get_law)

lemma get_after_set_other:
  assumes "i < cap" "j < cap" "i \<noteq> j" "set i v s = Inr s'"
  shows "get j s' = get j s"
  using set_law [of i v s] assms by (auto simp: get_law split: if_splits)

lemma set_unallocated:
  assumes "i < cap" "slots s i = None" "set i v s = Inr s'"
  shows "slots s' = slots s"
  using set_law [of i v s] assms by auto

lemma get_after_free:
  assumes "0 < i" "i < cap" "free i s = Inr (b, s')"
  shows "b \<and> get i s' = Inr None"
  using free_law [of i s] assms by (auto simp: get_law)

lemma alloc_after_free:
  assumes "0 < i" "i < cap" "free i s = Inr (b, s')" "\<And>j. j < i \<Longrightarrow> slots s j \<noteq> None"
  shows "\<exists>s''. alloc s' = Inr (Some i, s'') \<and> get i s'' = Inr (Some zero)"
proof -
  have s': "slots s' = (slots s)(i := None)" using free_law [of i s] assms by auto
  then obtain s'' where "alloc s' = Inr (Some i, s'')" "slots s'' = (slots s')(i \<mapsto> zero)"
    using alloc_law [of i s'] assms by auto
  then show ?thesis using assms by (simp add: get_law)
qed

end

text \<open>The map a fiber's bitmap and array stand for, on the 64 slots the bitmap word covers.\<close>

definition fls_slots :: "fiber_arg \<Rightarrow> nat \<Rightarrow> u64 option" where
  "fls_slots f i = (if i < BITS_PER_LONG \<and> bit (fls_bitmap f) i then Some (fls_array f i) else None)"

lemma fls_alloc_slot_low:
  assumes "ffz (fls_bitmap f) = Some i"
  shows "fls_alloc_slot f =
    Inr (Some i, f\<lparr>fls_bitmap := flip_bit i (fls_bitmap f), fls_array := (fls_array f)(i := 0)\<rparr>)"
proof -
  have i: "i < 64" "find_first_zero_bit f = i"
    using assms ffz_Some_iff find_first_zero_bit_low by auto
  then have "i \<noteq> MAX_FLS" by (simp add: MAX_FLS_def)
  then show ?thesis
    by (simp only: fls_alloc_slot_def i(2) low_bit_ops [OF i(1)] Let_def kbind.simps if_False) simp
qed

interpretation fls: slot_store fls_slots BITS_PER_LONG "0 :: u64" fls_alloc_slot
    "\<lambda>i. fls_free_slot (of_nat i)" "\<lambda>i. fls_get_slot (of_nat i)" "\<lambda>i. fls_set_slot (of_nat i)"
proof
  fix f i assume "fls_slots f i \<noteq> None"
  then show "i < BITS_PER_LONG" by (simp add: fls_slots_def split: if_splits)
next
  fix i f assume i: "i < BITS_PER_LONG" "fls_slots f i = None" and below: "\<And>j. j < i \<Longrightarrow> fls_slots f j \<noteq> None"
  have "bit (fls_bitmap f) j" if "j < i" for j using below [OF that] by (simp add: fls_slots_def split: if_splits)
  with i have "ffz (fls_bitmap f) = Some i" by (auto simp: ffz_Some_iff fls_slots_def BITS_PER_LONG_def)
  then show "\<exists>f'. fls_alloc_slot f = Inr (Some i, f') \<and> fls_slots f' = (fls_slots f)(i \<mapsto> 0)"
    using i by (auto simp: fls_alloc_slot_low fls_slots_def BITS_PER_LONG_def bit_flip_bit_iff fun_eq_iff)
next
  fix i f assume i: "0 < i" "i < BITS_PER_LONG"
  then have "i < 64" "0 < sint (of_nat i :: u64)" "sint (of_nat i :: u64) < int MAX_FLS"
    by (simp_all add: index_words BITS_PER_LONG_def MAX_FLS_def)
  then show "\<exists>f'. fls_free_slot (of_nat i) f = Inr (True, f') \<and> fls_slots f' = (fls_slots f)(i := None)"
    by (auto simp: fls_free_slot_def low_bit_ops fls_slots_def BITS_PER_LONG_def bit_unset_bit_iff fun_eq_iff)
next
  fix i f assume "i < BITS_PER_LONG"
  then show "fls_get_slot (of_nat i) f = Inr (fls_slots f i)"
    by (simp add: fls_get_slot_def low_bit_ops BITS_PER_LONG_def fls_slots_def)
next
  fix i v f assume "i < BITS_PER_LONG"
  then show "\<exists>f'. fls_set_slot (of_nat i) v f = Inr f' \<and>
      fls_slots f' = (if fls_slots f i = None then fls_slots f else (fls_slots f)(i \<mapsto> v))"
    by (auto simp: fls_set_slot_def low_bit_ops BITS_PER_LONG_def fls_slots_def fun_eq_iff)
qed


section \<open>Beyond the bitmap word\<close>

text \<open>With all 64 bits set the scan goes on into the saved registers: the number handed out is the
  position of the first clear register bit, and setting "its" bit overwrites that register.\<close>

lemma ffz_words_hit:
  assumes "ffz_words b ws < b + 64 * length ws"
  obtains k i where "ffz_words b ws = b + 64 * k + i" "k < length ws" "ffz (ws ! k) = Some i"
    "\<And>j. j < k \<Longrightarrow> ffz (ws ! j) = None"
  using assms
proof (induction ws arbitrary: b thesis)
  case (Cons w ws)
  show ?case
  proof (cases "ffz w")
    case (Some i)
    then show ?thesis using Cons.prems(1) [of 0 i] by simp
  next
    case None
    with Cons.prems(2) have "ffz_words (b + 64) ws < b + 64 + 64 * length ws" by simp
    then obtain k i where "ffz_words (b + 64) ws = b + 64 + 64 * k + i" "k < length ws" "ffz (ws ! k) = Some i"
      "\<And>j. j < k \<Longrightarrow> ffz (ws ! j) = None"
      using Cons.IH [of "b + 64"] by blast
    then show ?thesis
      using None by (intro Cons.prems(1) [of "Suc k" i]) (auto simp: nth_Cons split: nat.splits)
  qed
qed simp

lemma fls_alloc_slot_high:
  assumes full: "ffz (fls_bitmap f) = None" and small: "length (regs f) < 63"
    and hit: "k < length (regs f)" "ffz (regs f ! k) = Some i" "\<And>j. j < k \<Longrightarrow> ffz (regs f ! j) = None"
  shows "fls_alloc_slot f = Inr (Some (64 * (k + 1) + i),
    f\<lparr>regs := (regs f)[k := flip_bit i (regs f ! k)], fls_array := (fls_array f)(64 * (k + 1) + i := 0)\<rparr>)"
proof -
  have w: "ffz_words b ws = b + 64 * k + i"
    if "k < length ws" "ffz (ws ! k) = Some i" "\<And>j. j < k \<Longrightarrow> ffz (ws ! j) = None" for b ws
    using that
  proof (induction ws arbitrary: b k)
    case (Cons w ws)
    show ?case
    proof (cases k)
      case 0
      with Cons.prems show ?thesis by simp
    next
      case (Suc m)
      have "ffz w = None" using Cons.prems(3) [of 0] Suc by simp
      moreover have "ffz_words (b + 64) ws = b + 64 + 64 * m + i"
        using Cons.prems Suc by (intro Cons.IH) fastforce+
      ultimately show ?thesis using Suc by simp
    qed
  qed simp
  let ?n = "64 * (k + 1) + i"
  have i: "i < 64" using hit(2) by (simp add: ffz_Some_iff)
  have n: "?n < 4096" using hit(1) small i by simp
  have ff: "find_first_zero_bit f = ?n"
    using find_first_zero_bit_high [OF full] w [OF hit, of 64] n by (simp add: MAX_FLS_def)
  have ne: "(?n = MAX_FLS) = False" using n by (simp add: MAX_FLS_def)
  have u: "unat (of_nat ?n :: u64) = ?n" "sint (of_nat ?n :: u64) = int ?n"
    using n by (simp_all only: index_words)
  have split: "(64 * m + i) div 64 = m" "(64 * m + i) mod 64 = i" for m
    using i by simp_all
  note d = split [of "k + 1"]
  have gw: "get_word (k + 1) f = Inr (regs f ! k)" using hit(1) by (simp add: get_word_def)
  have pw: "put_word (k + 1) w f = f\<lparr>regs := (regs f)[k := w]\<rparr>" for w
    using hit(1) by (simp add: put_word_def)
  have neg: "(int ?n < 0) = False" by simp
  have c: "change_bit (of_nat ?n) f = Inr (f\<lparr>regs := (regs f)[k := flip_bit i (regs f ! k)]\<rparr>)"
    by (simp only: change_bit_def bit_word_def u neg if_False BITS_PER_LONG_def d gw pw kbind.simps)
  have big: "(MAX_FLS \<le> ?n) = False" using n by (simp add: MAX_FLS_def)
  have st: "fls_store (of_nat ?n) 0 g = Inr (g\<lparr>fls_array := (fls_array g)(?n := 0)\<rparr>)" for g
    by (simp only: fls_store_def u neg big if_False simp_thms)
  show ?thesis
    by (simp only: fls_alloc_slot_def ff ne Let_def if_False c st kbind.simps) simp
qed

section \<open>The commands\<close>

lemma put_word_keeps [simp]:
  "index (put_word k w f) = index f" "running (put_word k w f) = running f"
  "length (regs (put_word k w f)) = length (regs f)"
  by (simp_all add: put_word_def Let_def)

lemma fls_slot_keeps:
  "fls_alloc_slot f = Inr (r, f') \<Longrightarrow> index f' = index f \<and> running f' = running f \<and> length (regs f') = length (regs f)"
  "fls_free_slot i f = Inr (b, f') \<Longrightarrow> index f' = index f \<and> running f' = running f \<and> length (regs f') = length (regs f)"
  "fls_set_slot i v f = Inr f' \<Longrightarrow> index f' = index f \<and> running f' = running f \<and> length (regs f') = length (regs f)"
  by (auto simp: fls_alloc_slot_def fls_free_slot_def fls_set_slot_def change_bit_def clear_bit_def fls_store_def
      Let_def kbind_Inr_iff split: if_splits)

lemma with_active_cases:
  assumes k: "kinv env s"
  obtains (no_process) "with_active env c s np nt body = np s" "search_process env (c_tgid c) s = Inr None"
  | (no_thread) pa p where "with_active env c s np nt body = nt s" "search_process env (c_tgid c) s = Inr (Some pa)"
      "procs s pa = Some p" "pid_find env (tkey s) (c_pid c) (threads p) = Inr None"
  | (active) pa p ta t fa f where "with_active env c s np nt body = body fa f s"
      "search_process env (c_tgid c) s = Inr (Some pa)" "pa \<in> mem (list_process s)" "procs s pa = Some p"
      "pid_find env (tkey s) (c_pid c) (threads p) = Inr (Some ta)" "ta \<in> mem (threads p)"
      "thrs s ta = Some t" "active_fiber t = Some fa" "fa \<in> mem (fibers p)" "fibs s fa = Some f"
proof (rule search_process_cases [OF k, of "c_tgid c"])
  assume "search_process env (c_tgid c) s = Inr None"
  then show thesis by (intro no_process) (simp_all add: with_active_def)
next
  fix pa p assume pa: "search_process env (c_tgid c) s = Inr (Some pa)" "pa \<in> mem (list_process s)"
    "procs s pa = Some p" and p: "proc_inv env s p"
  note st = search_thread_find [OF pa(3) proc_locks(2) [OF p], of env "c_pid c"]
  show thesis
  proof (rule thread_find_cases [OF p, of "c_pid c"])
    assume n: "pid_find env (tkey s) (c_pid c) (threads p) = Inr None"
    show thesis by (rule no_thread [OF _ pa(1,3) n]) (simp add: with_active_def pa st n)
  next
    fix ta t fa f
    assume t: "pid_find env (tkey s) (c_pid c) (threads p) = Inr (Some ta)" "ta \<in> mem (threads p)"
      "thrs s ta = Some t" "active_fiber t = Some fa" "fa \<in> mem (fibers p)" "fibs s fa = Some f"
    show thesis by (rule active [OF _ pa t]) (simp add: with_active_def pa st t)
  qed
qed

lemma kfree_args_frames [simp]:
  "list_process (kzalloc_args b s) = list_process s" "procs (kzalloc_args b s) = procs s"
  "thrs (kzalloc_args b s) = thrs s" "fibs (kzalloc_args b s) = fibs s" "tkey (kzalloc_args b s) = tkey s"
  "search_process env k (kzalloc_args b s) = search_process env k s"
  by (simp_all add: kzalloc_args_def search_process_def)

lemma with_active_kinv:
  assumes k: "kinv env s" and r: "with_active env c s np nt body = Inr (r, s')"
    and "np s = Inr (r, s') \<Longrightarrow> kinv env s'" "nt s = Inr (r, s') \<Longrightarrow> kinv env s'"
    and body: "\<And>fa f. body fa f s = Inr (r, s') \<Longrightarrow>
      (\<And>f'. index f' = index f \<Longrightarrow> running f' = running f \<Longrightarrow> length (regs f') = length (regs f) \<Longrightarrow>
          kinv env (s\<lparr>fibs := (fibs s)(fa \<mapsto> f')\<rparr>)) \<Longrightarrow> fibs s fa = Some f \<Longrightarrow> kinv env s'"
  shows "kinv env s'"
proof (rule with_active_cases [OF k, of c np nt body])
  fix pa p ta t fa f
  assume "with_active env c s np nt body = body fa f s"
    and a: "pa \<in> mem (list_process s)" "procs s pa = Some p" "fa \<in> mem (fibers p)" "fibs s fa = Some f"
  then have "body fa f s = Inr (r, s')" using r by simp
  then show ?thesis by (rule body [OF _ fiber_update_kinv [OF k a] a(4)])
qed (use assms in simp_all)

lemma ioctl_fls_alloc_kinv:
  assumes k: "kinv env s" and r: "ioctl_fls_alloc env c s = Inr (r, s')"
  shows "kinv env s'"
  by (rule with_active_kinv [OF k r [unfolded ioctl_fls_alloc_def]])
    (use k in \<open>auto simp: kbind_Inr_iff dest: fls_slot_keeps\<close>)

lemma ioctl_fls_free_kinv:
  assumes k: "kinv env s" and r: "ioctl_fls_free env c s = Inr (r, s')"
  shows "kinv env s'"
  by (rule with_active_kinv [OF k r [unfolded ioctl_fls_free_def]])
    (use k in \<open>auto simp: kbind_Inr_iff dest: fls_slot_keeps\<close>)

lemma ioctl_fls_get_kinv:
  assumes k: "kinv env s" and r: "ioctl_fls_get env c s = Inr (r, s')"
  shows "kinv env s'"
proof (cases "user_fls c")
  case (Some u)
  note k' = kzalloc_kinv(4) [OF k, of True]
  show ?thesis
  proof (cases "ok_args c")
    case True
    show ?thesis
      by (rule with_active_kinv [OF k' r [unfolded ioctl_fls_get_def Let_def, simplified True Some, simplified]])
        (use k' kzalloc_kinv(5) [OF k', of True] in \<open>auto simp: kbind_Inr_iff split: option.splits if_splits\<close>)
  qed (use k r in \<open>simp add: ioctl_fls_get_def\<close>)
qed (use k r kzalloc_kinv(4) [OF k] in \<open>auto simp: ioctl_fls_get_def split: if_splits\<close>)

lemma ioctl_fls_set_kinv:
  assumes k: "kinv env s" and r: "ioctl_fls_set env c s = Inr (r, s')"
  shows "kinv env s'"
proof (cases "user_fls c")
  case (Some u)
  note k' = kzalloc_kinv(4) [OF k, of True]
  show ?thesis
  proof (cases "ok_args c")
    case True
    show ?thesis
      by (rule with_active_kinv [OF k' r [unfolded ioctl_fls_set_def Let_def, simplified True Some, simplified]])
        (use k' kzalloc_kinv(5) [OF k', of True] in
          \<open>auto simp: kbind_Inr_iff intro!: kzalloc_kinv(5) dest: fls_slot_keeps\<close>)
  qed (use k r in \<open>simp add: ioctl_fls_set_def\<close>)
qed (use k r kzalloc_kinv(4) [OF k] in \<open>auto simp: ioctl_fls_set_def split: if_splits\<close>)

end
