(* ===== verification/Fiber_Exit.thy ===== *)
theory Fiber_Exit
  imports Fiber_Create
begin

text \<open>
  The probe on \<^verbatim>\<open>do_exit\<close>: what it unlinks and frees under the invariant, that it keeps the
  invariant, and that the process structure is freed only when no thread of it is left.
\<close>

section \<open>Unlinking a thread and its fiber\<close>

definition unlink_thread :: "addr \<Rightarrow> addr \<Rightarrow> addr \<Rightarrow> process_arg \<Rightarrow> kstate \<Rightarrow> kstate" where
  "unlink_thread pa ta fa p s = s\<lparr>count_threads := count_threads s - 1,
     thrs := (thrs s)(ta := None), fibs := (fibs s)(fa := None),
     procs := (procs s)(pa \<mapsto> p\<lparr>threads := hash_del ta (threads p), fibers := hash_del fa (fibers p)\<rparr>)\<rparr>"

definition unlink_process :: "addr \<Rightarrow> kstate \<Rightarrow> kstate" where
  "unlink_process pa s = s\<lparr>list_process := hash_del pa (list_process s), procs := (procs s)(pa := None)\<rparr>"

lemma unlink_thread_kinv:
  assumes k: "kinv env s" and pa: "pa \<in> mem (list_process s)" "procs s pa = Some p"
    and ta: "ta \<in> mem (threads p)" "act s ta = Some fa"
  shows "kinv env (unlink_thread pa ta fa p s)"
proof -
  let ?s = "unlink_thread pa ta fa p s"
  let ?p = "p\<lparr>threads := hash_del ta (threads p), fibers := hash_del fa (fibers p)\<rparr>"
  note p = kinv_proc [OF k pa]
  have other: "act s x \<noteq> Some fa" if "x \<in> mem (threads p)" "x \<noteq> ta" for x
    using inj_onD [OF proc_inj [OF p], of x ta] that ta by auto
  have ts: "thrs ?s x = (if x = ta then None else thrs s x)" for x by (simp add: unlink_thread_def)
  have fs: "fibs ?s x = (if x = fa then None else fibs s x)" for x by (simp add: unlink_thread_def)
  have ac: "act ?s x = act s x" if "x \<noteq> ta" for x using that by (simp add: act_def ts)
  have "pid_tab env (tkey ?s) (hash_del ta (threads p))"
    by (rule pidx.invar_cong [OF pidx.invar_del [OF proc_threads [OF p]]]) (simp add: tkey_def ts)
  moreover have "fib_tab env (fkey ?s) (hash_del fa (fibers p))"
    by (rule fibx.invar_cong [OF fibx.invar_del [OF proc_fibers [OF p]]]) (simp add: fkey_def fs)
  moreover have "\<forall>x\<in>mem (threads ?p). \<exists>y\<in>mem (fibers ?p). act ?s x = Some y"
    using proc_active [OF p] other by (fastforce simp: ac)
  moreover have "inj_on (act ?s) (mem (threads ?p))"
    by (rule inj_on_cong [THEN iffD1, OF _ inj_on_subset [OF proc_inj [OF p]]]) (auto simp: ac)
  moreover have "fiber_inv env ?s ?p x" if x: "x \<in> mem (fibers ?p)" for x
  proof -
    have "x \<noteq> fa" "fiber_inv env s p x" using x proc_fiber [OF p] by auto
    moreover from this have "(\<exists>y\<in>mem (threads ?p). act ?s y = Some x) \<longleftrightarrow> (\<exists>y\<in>mem (threads p). act s y = Some x)"
      using ta by (auto simp: ac)
    ultimately show ?thesis by (auto simp: fiber_inv_def fs)
  qed
  ultimately have inv: "proc_inv env ?s ?p"
    using p by (simp add: proc_inv_def)
  have fr: "fresh_beyond ?s"
    using kinv_fresh [OF k] linked_below(1) [OF k pa(1)] by (auto simp: fresh_beyond_def unlink_thread_def)
  have "card (mem (threads ?p)) + 1 = card (mem (threads p))"
    using card_Suc_Diff1 [OF proc_threads_finite [OF k pa] ta(1)] by simp
  moreover have "fa \<in> mem (fibers p)" using proc_active [OF p ta(1)] ta(2) by auto
  ultimately have fap: "fa \<in> mem (fibers p)" and crd: "card (mem (threads ?p)) + 1 = card (mem (threads p))"
    by simp_all
  show ?thesis
  proof (rule kinv_local [OF k pa _ _ _ inv _ _ _ _ fr])
    show "count_threads ?s = count_threads s + int (card (mem (threads ?p))) - int (card (mem (threads p)))"
      using crd by (simp add: unlink_thread_def)
  qed (use fap ta(1) kinv_uregs [OF k] in \<open>auto simp: unlink_thread_def\<close>)
qed

text \<open>A process leaves the list when it has no thread left.\<close>

lemma unlink_process_kinv:
  assumes k: "kinv env s" and pa: "pa \<in> mem (list_process s)" "procs s pa = Some p"
    and none: "mem (threads p) = {}"
  shows "kinv env (unlink_process pa s)"
proof -
  let ?s = "unlink_process pa s"
  have ps: "procs ?s a = (if a = pa then None else procs s a)" for a by (simp add: unlink_process_def)
  have l: "mem (list_process ?s) = mem (list_process s) - {pa}" by (simp add: unlink_process_def)
  have "pid_tab env (pkey ?s) (hash_del pa (list_process s))"
    by (rule pidx.invar_cong [OF pidx.invar_del [OF kinv_list [OF k]]]) (simp add: pkey_def ps)
  moreover have "proc_inv env ?s q" if "qa \<in> mem (list_process ?s)" "procs ?s qa = Some q" for qa q
    by (rule proc_inv_frame [OF kinv_proc [OF k]]) (use that in \<open>auto simp: l ps unlink_process_def\<close>)
  moreover have "disjoint_procs ?s"
    unfolding disjoint_procs_def
    by (intro allI impI, rule kinv_disjoint [OF k]) (auto simp: l ps split: if_splits)
  moreover have "all_threads ?s = all_threads s"
  proof -
    have "(qa \<in> mem (list_process ?s) \<and> procs ?s qa = Some q \<and> x \<in> mem (threads q)) \<longleftrightarrow>
        (qa \<in> mem (list_process s) \<and> procs s qa = Some q \<and> x \<in> mem (threads q))" for qa q x
      using none pa by (cases "qa = pa") (auto simp: l ps)
    then show ?thesis by (simp add: all_threads_def)
  qed
  ultimately show ?thesis
    using k by (auto simp: kinv_def unlink_process_def fresh_beyond_def)
qed

lemma count_zero_no_threads:
  assumes k: "kinv env s" and "count_threads s = 0" and pa: "pa \<in> mem (list_process s)" "procs s pa = Some p"
  shows "mem (threads p) = {}"
proof -
  have "all_threads s = {}"
    using kinv_count [OF k] assms(2) finite_all_threads [OF k] by simp
  then show ?thesis using pa by (auto simp: all_threads_def)
qed

section \<open>The handler\<close>

definition exited :: "addr \<Rightarrow> addr \<Rightarrow> addr \<Rightarrow> process_arg \<Rightarrow> kstate \<Rightarrow> kstate" where
  "exited pa ta fa p s =
     (let u = unlink_thread pa ta fa p s in if count_threads s = 1 then unlink_process pa u else u)"

lemma Pre_Handler_success:
  assumes "search_process env (c_tgid c) s = Inr (Some pa)" "procs s pa = Some p" "\<not> lock_hash p"
    and "pid_find env (tkey s) (c_pid c) (threads p) = Inr (Some ta)" "thrs s ta = Some t"
    and "active_fiber t = Some fa" "fibs s fa = Some f"
  shows "Pre_Handler env c s = Inr (0, exited pa ta fa p s)"
proof -
  have "search_thread env (c_pid c) pa s = Inr (Some ta, s)"
    using assms by (simp add: search_thread_find)
  then show ?thesis
    using assms
    by (simp add: Pre_Handler_def spin_lock_hash_def spin_unlock_hash_def exited_def unlink_thread_def
        unlink_process_def Let_def)
qed

lemma Pre_Handler_cases:
  assumes k: "kinv env s"
  obtains (foreign) "Pre_Handler env c s = Inr (0, s)"
  | (registered) pa p ta t fa f where "Pre_Handler env c s = Inr (0, exited pa ta fa p s)"
      "search_process env (c_tgid c) s = Inr (Some pa)" "pa \<in> mem (list_process s)" "procs s pa = Some p"
      "pid_find env (tkey s) (c_pid c) (threads p) = Inr (Some ta)" "ta \<in> mem (threads p)"
      "thrs s ta = Some t" "active_fiber t = Some fa" "act s ta = Some fa" "fa \<in> mem (fibers p)" "fibs s fa = Some f"
proof (rule search_process_cases [OF k, of "c_tgid c"])
  assume "search_process env (c_tgid c) s = Inr None"
  then show thesis by (intro foreign) (simp add: Pre_Handler_def)
next
  fix pa p assume pa: "search_process env (c_tgid c) s = Inr (Some pa)" "pa \<in> mem (list_process s)"
    "procs s pa = Some p" and p: "proc_inv env s p"
  show thesis
  proof (rule thread_find_cases [OF p, of "c_pid c"])
    assume "pid_find env (tkey s) (c_pid c) (threads p) = Inr None"
    then show thesis
      using pa proc_locks(2) [OF p] by (intro foreign) (simp add: Pre_Handler_def search_thread_find)
  next
    fix ta t fa f
    assume t: "pid_find env (tkey s) (c_pid c) (threads p) = Inr (Some ta)" "ta \<in> mem (threads p)"
      "thrs s ta = Some t" "active_fiber t = Some fa" "act s ta = Some fa" "fa \<in> mem (fibers p)" "fibs s fa = Some f"
    show thesis
      by (rule registered [OF Pre_Handler_success [OF pa(1,3) proc_locks(2) [OF p] t(1,3,4,7)] pa t])
  qed
qed

lemma Pre_Handler_kinv:
  assumes k: "kinv env s" and r: "Pre_Handler env c s = Inr (r, s')"
  shows "kinv env s'"
  using k
proof (cases rule: Pre_Handler_cases [where c = c])
  case (registered pa p ta t fa f)
  let ?u = "unlink_thread pa ta fa p s"
  have u: "kinv env ?u" by (rule unlink_thread_kinv [OF k registered(3,4,6,9)])
  have "kinv env (exited pa ta fa p s)"
  proof (cases "count_threads s = 1")
    case True
    then have c0: "count_threads ?u = 0" by (simp add: unlink_thread_def)
    have m: "pa \<in> mem (list_process ?u)" and
      q: "procs ?u pa = Some (p\<lparr>threads := hash_del ta (threads p), fibers := hash_del fa (fibers p)\<rparr>)"
      using registered by (simp_all add: unlink_thread_def)
    show ?thesis
      using True unlink_process_kinv [OF u m q count_zero_no_threads [OF u c0 m q]]
      by (simp add: exited_def Let_def)
  qed (use u in \<open>simp add: exited_def Let_def\<close>)
  with registered r show ?thesis by simp
qed (use k r in simp)

end
