(* ===== verification/Proc_Fs.thy ===== *)
theory Proc_Fs
  imports Fiber_Create
begin

text \<open>
  \<^verbatim>\<open>multi_thread/Module/proc.c\<close>: the directory \<^verbatim>\<open>/proc/<pid>/fibers\<close> with one file per
  fiber, and the probe on \<^verbatim>\<open>finish_task_switch\<close> that charges a fiber for the processor time of
  its thread. The kernel's own \<^verbatim>\<open>proc_pident_readdir\<close> and \<^verbatim>\<open>proc_pident_lookup\<close> are not
  modelled: what the module's hooks compute is the entry table they pass on.
\<close>

section \<open>Time accounting\<close>

text \<open>The active fiber of a task, if the module knows the task.\<close>

definition with_task ::
  "kenv \<Rightarrow> pid_t \<times> pid_t \<Rightarrow> kstate \<Rightarrow> (addr \<Rightarrow> kstate \<Rightarrow> fault + kstate) \<Rightarrow> fault + kstate" where
  "with_task env task s body =
     kbind (search_process env (fst task) s) (\<lambda>pr.
       case pr of
         None \<Rightarrow> Inr s
       | Some pa \<Rightarrow>
          kbind (search_thread env (snd task) pa s) (\<lambda>(tr, s).
            case tr of
              None \<Rightarrow> Inr s
            | Some ta \<Rightarrow>
               kbind (deref (thrs s) ta) (\<lambda>t.
               kbind (nonnull (active_fiber t)) (\<lambda>fa. body fa s))))"

text \<open>\<open>scheduled\<close> is the per-processor variable: the task (\<^verbatim>\<open>tgid\<close>, \<^verbatim>\<open>pid\<close>) that got the
  processor last.\<close>

definition switch_handler ::
  "kenv \<Rightarrow> nat \<Rightarrow> pid_t \<times> pid_t \<Rightarrow> timespec \<Rightarrow> timespec \<Rightarrow> (nat \<Rightarrow> (pid_t \<times> pid_t) option) \<Rightarrow> kstate \<Rightarrow>
   fault + (nat \<Rightarrow> (pid_t \<times> pid_t) option) \<times> kstate" where
  "switch_handler env cpu current t1 t2 scheduled s =
     kbind (case scheduled cpu of
              None \<Rightarrow> Inr s
            | Some old \<Rightarrow> with_task env old s (\<lambda>fa. modify_fib fa (charge t1))) (\<lambda>s.
     kbind (with_task env current s (\<lambda>fa. modify_fib fa (\<lambda>f. f\<lparr>starting_time := nanos t2\<rparr>))) (\<lambda>s.
       Inr (scheduled(cpu := Some current), s)))"

lemma with_task_kinv:
  assumes k: "kinv env s"
    and body: "\<And>fa f. fibs s fa = Some f \<Longrightarrow>
      (\<And>f'. index f' = index f \<Longrightarrow> running f' = running f \<Longrightarrow> length (regs f') = length (regs f) \<Longrightarrow>
          kinv env (s\<lparr>fibs := (fibs s)(fa \<mapsto> f')\<rparr>)) \<Longrightarrow> \<exists>s'. body fa s = Inr s' \<and> kinv env s'"
  shows "\<exists>s'. with_task env task s body = Inr s' \<and> kinv env s'"
proof (rule search_process_cases [OF k, of "fst task"])
  assume "search_process env (fst task) s = Inr None"
  then show ?thesis using k by (simp add: with_task_def)
next
  fix pa p assume pa: "search_process env (fst task) s = Inr (Some pa)" "pa \<in> mem (list_process s)"
    "procs s pa = Some p" and p: "proc_inv env s p"
  note st = search_thread_find [OF pa(3) proc_locks(2) [OF p], of env "snd task"]
  show ?thesis
  proof (rule thread_find_cases [OF p, of "snd task"])
    assume "pid_find env (tkey s) (snd task) (threads p) = Inr None"
    then show ?thesis using k by (simp add: with_task_def pa st)
  next
    fix ta t fa f
    assume t: "pid_find env (tkey s) (snd task) (threads p) = Inr (Some ta)" "thrs s ta = Some t"
      "active_fiber t = Some fa" "fa \<in> mem (fibers p)" "fibs s fa = Some f"
    have "with_task env task s body = body fa s" by (simp add: with_task_def pa(1) st t(1-3))
    moreover have "\<exists>s'. body fa s = Inr s' \<and> kinv env s'"
      by (rule body [OF t(5) fiber_update_kinv [OF k pa(2,3) t(4,5)]])
    ultimately show ?thesis by simp
  qed
qed

text \<open>The probe never faults and keeps the invariant.\<close>

lemma switch_handler_total:
  assumes k: "kinv env s"
  shows "\<exists>sc s'. switch_handler env cpu current t1 t2 scheduled s = Inr (sc, s') \<and> kinv env s'"
proof -
  have "\<exists>s1. (case scheduled cpu of None \<Rightarrow> Inr s
      | Some old \<Rightarrow> with_task env old s (\<lambda>fa. modify_fib fa (charge t1))) = Inr s1 \<and> kinv env s1"
    using k by (auto split: option.splits intro!: with_task_kinv simp: charge_def)
  then obtain s1 where s1: "(case scheduled cpu of None \<Rightarrow> Inr s
      | Some old \<Rightarrow> with_task env old s (\<lambda>fa. modify_fib fa (charge t1))) = Inr s1" "kinv env s1" by blast
  have "\<exists>s2. with_task env current s1 (\<lambda>fa. modify_fib fa (\<lambda>f. f\<lparr>starting_time := nanos t2\<rparr>)) = Inr s2 \<and> kinv env s2"
    by (rule with_task_kinv [OF s1(2)]) auto
  with s1 show ?thesis by (auto simp: switch_handler_def)
qed

section \<open>The files\<close>

text \<open>The lines \<^verbatim>\<open>show_file\<close> prints; \<open>ptr\<close> is the kernel's rendering of \<^verbatim>\<open>%p\<close>.\<close>

definition show_fiber :: "(u64 \<Rightarrow> string) \<Rightarrow> fiber_arg \<Rightarrow> string list" where
  "show_fiber ptr f =
     [(if running f then ''The fiber is currently running: yes'' else ''The fiber is currently running: no''),
      ''Entry point: '' @ ptr (starting_point f),
      ''Thread id: '' @ dec (unat (thread_id f)),
      ''Number of activations: '' @ dec (unat (activations f)),
      ''Number of  falied activations: '' @ dec (unat (failed_activations f)),
      ''Execution time: '' @ dec (unat (total_time f))]"

definition show_file :: "(u64 \<Rightarrow> string) \<Rightarrow> addr option \<Rightarrow> kstate \<Rightarrow> fault + string list" where
  "show_file ptr data s = kbind (nonnull data) (\<lambda>fa. kbind (deref (fibs s) fa) (\<lambda>f. Inr (show_fiber ptr f)))"

text \<open>\<^verbatim>\<open>open_file\<close>: the file's name goes through the kernel's \<^verbatim>\<open>kstrtoul\<close> (a
  parameter; \<open>None\<close> is an error code), whose failure is ignored and leaves \<open>uninit\<close> in the variable;
  neither the task nor the process is tested for NULL; the fiber found is handed to
  \<^verbatim>\<open>single_open\<close> as it is, NULL included.\<close>

definition open_file ::
  "(string \<Rightarrow> u64 option) \<Rightarrow> kenv \<Rightarrow> u64 \<Rightarrow> pid_t option \<Rightarrow> string \<Rightarrow> kstate \<Rightarrow> fault + addr option" where
  "open_file kstrtoul env uninit task d_name s =
     (case task of
        None \<Rightarrow> Inl NullDeref
      | Some pid_process \<Rightarrow>
         let fiber_id = (case kstrtoul d_name of Some n \<Rightarrow> n | None \<Rightarrow> uninit) in
         kbind (search_process env pid_process s) (\<lambda>pr.
         kbind (nonnull pr) (\<lambda>pa.
           search_fiber env (ucast fiber_id) pa s)))"

section \<open>The directory\<close>

record pid_entry =
  e_name :: "string option"   \<comment> \<open>NULL in a zeroed entry\<close>
  e_len :: nat
  e_isdir :: bool
  e_mode :: nat               \<comment> \<open>permission bits\<close>

definition zero_entry :: pid_entry where
  "zero_entry = \<lparr>e_name = None, e_len = 0, e_isdir = False, e_mode = 0\<rparr>"

text \<open>\<^verbatim>\<open>S_IFREG|S_IRUGO|S_IXUGO\<close>\<close>

definition fiber_entry :: "fiber_arg \<Rightarrow> pid_entry" where
  "fiber_entry f = \<lparr>e_name = Some (fname f), e_len = length (fname f), e_isdir = False, e_mode = 365\<rparr>"

text \<open>The loop of \<^verbatim>\<open>hash_for_each_rcu\<close> over the \<open>2 ^ 10\<close> buckets, storing into an array of
  \<open>num_fibers\<close> entries.\<close>

fun fill_entries :: "kstate \<Rightarrow> addr list \<Rightarrow> pid_entry list \<Rightarrow> fault + pid_entry list" where
  "fill_entries s [] ents = Inr ents"
| "fill_entries s (fa # fas) ents =
     kbind (deref (fibs s) fa) (\<lambda>f.
       if unat (index f) < length ents
       then fill_entries s fas (ents[unat (index f) := fiber_entry f])
       else Inl OutOfBounds)"

definition fiber_chain :: "process_arg \<Rightarrow> addr list" where
  "fiber_chain p = concat (map (fibers p) [0..<1024])"

text \<open>What both \<^verbatim>\<open>fibers_readdir\<close> and \<^verbatim>\<open>fibers_lookup\<close> build for a process: the number of
  entries is read under the lock, the walk is not. A failed allocation is seen when the first entry
  is stored. Neither caller ever frees the table.\<close>

definition fiber_entries :: "bool \<Rightarrow> addr \<Rightarrow> kstate \<Rightarrow> fault + pid_entry list \<times> kstate" where
  "fiber_entries ok pa s =
     kbind (spin_lock_fiber pa s) (\<lambda>s.
     kbind (deref (procs s) pa) (\<lambda>p.
     let n = unat (fiber_id p); s = kzalloc_args ok s in
     kbind (spin_unlock_fiber pa s) (\<lambda>s.
     kbind (deref (procs s) pa) (\<lambda>p.
       if \<not> ok \<and> fiber_chain p \<noteq> [] then Inl NullDeref
       else kbind (fill_entries s (fiber_chain p) (replicate n zero_entry)) (\<lambda>ents. Inr (ents, s))))))"

definition ENOENT :: int where
  "ENOENT = 2"

text \<open>\<open>task\<close> is the \<^verbatim>\<open>tgid\<close> behind the inode, if the task still exists. The result is an error
  number or the table handed to \<^verbatim>\<open>proc_pident_readdir\<close>.\<close>

definition fibers_readdir ::
  "kenv \<Rightarrow> bool \<Rightarrow> pid_t option \<Rightarrow> kstate \<Rightarrow> fault + (int + pid_entry list) \<times> kstate" where
  "fibers_readdir env ok task s =
     (case task of
        None \<Rightarrow> Inr (Inl (- ENOENT), s)
      | Some tg \<Rightarrow>
         kbind (search_process env tg s) (\<lambda>pr.
           case pr of
             Some pa \<Rightarrow> kbind (fiber_entries ok pa s) (\<lambda>(ents, s). Inr (Inr ents, s))
           | None \<Rightarrow> Inr (Inr [], s)))"

text \<open>\<^verbatim>\<open>fibers_lookup\<close> takes the lock of \<^verbatim>\<open>process\<close> without a test for NULL.\<close>

definition fibers_lookup ::
  "kenv \<Rightarrow> bool \<Rightarrow> pid_t option \<Rightarrow> kstate \<Rightarrow> fault + (int + pid_entry list) \<times> kstate" where
  "fibers_lookup env ok task s =
     (case task of
        None \<Rightarrow> Inr (Inl (- ENOENT), s)
      | Some tg \<Rightarrow>
         kbind (search_process env tg s) (\<lambda>pr.
         kbind (nonnull pr) (\<lambda>pa.
         kbind (fiber_entries ok pa s) (\<lambda>(ents, s). Inr (Inr ents, s)))))"

section \<open>The hooks on the process directory\<close>

definition fibers_entry :: pid_entry where
  "fibers_entry = \<lparr>e_name = Some ''fibers'', e_len = 6, e_isdir = True, e_mode = 365\<rparr>"

text \<open>Both hooks copy the table the kernel passed and append one entry; neither tests the task for
  NULL, and a failed allocation is written through.\<close>

definition fh_lookup :: "kenv \<Rightarrow> bool \<Rightarrow> bool \<Rightarrow> pid_t option \<Rightarrow> pid_entry list \<Rightarrow> kstate \<Rightarrow> fault + pid_entry list" where
  "fh_lookup env ok_temp ok_ents task ents s =
     (case task of
        None \<Rightarrow> Inl NullDeref
      | Some tg \<Rightarrow>
         kbind (search_process env tg s) (\<lambda>pr.
           if pr \<noteq> None then
             (if ok_temp \<and> ok_ents then Inr (ents @ [fibers_entry]) else Inl NullDeref)
           else Inr ents))"

text \<open>\<^verbatim>\<open>strncmp(name, "fibers", strnlen("fibers", 8)) != 0\<close>: only the first six characters are
  compared.\<close>

definition fh_readdir ::
  "kenv \<Rightarrow> bool \<Rightarrow> bool \<Rightarrow> pid_t option \<Rightarrow> string \<Rightarrow> pid_entry list \<Rightarrow> kstate \<Rightarrow> fault + pid_entry list" where
  "fh_readdir env ok_temp ok_ents task d_name ents s =
     (case task of
        None \<Rightarrow> Inl NullDeref
      | Some tg \<Rightarrow>
         kbind (search_process env tg s) (\<lambda>pr.
           if pr \<noteq> None \<and> take 6 d_name \<noteq> ''fibers'' then
             (if ok_temp \<and> ok_ents then Inr (ents @ [fibers_entry]) else Inl NullDeref)
           else Inr ents))"

end
