(* ===== verification/Fiber_Module.thy ===== *)
theory Fiber_Module
  imports Fls Fiber_Exit Proc_Fs
begin

text \<open>
  The module as a whole: the step relation over its entry points (\<^verbatim>\<open>ioctl\<close>, the probes on
  \<^verbatim>\<open>do_exit\<close> and \<^verbatim>\<open>finish_task_switch\<close>, user code in between), the states reachable from
  module load, and that no entry point faults or blocks in such a state for a caller that keeps to
  \<open>call_safe\<close>.
\<close>

section \<open>Steps\<close>

text \<open>What can happen to the module: a command, the exit of a task, a clock tick of the scheduler
  probe on some processor, and user code running, which changes the registers of its task.\<close>

datatype event =
    Ioctl ioctl_cmd call
  | DoExit call
  | Resched nat "pid_t \<times> pid_t" timespec timespec
  | UserRuns pid_t pt_regs fx

type_synonym system = "(nat \<Rightarrow> (pid_t \<times> pid_t) option) \<times> kstate"

inductive kstep :: "kenv \<Rightarrow> system \<Rightarrow> event \<Rightarrow> system \<Rightarrow> bool" for env :: kenv where
  ioctl: "my_ioctl env cmd c s = Inr (r, s') \<Longrightarrow> kstep env (sc, s) (Ioctl cmd c) (sc, s')"
| do_exit: "Pre_Handler env c s = Inr (r, s') \<Longrightarrow> kstep env (sc, s) (DoExit c) (sc, s')"
| resched: "switch_handler env cpu cur t1 t2 sc s = Inr (sc', s') \<Longrightarrow>
    kstep env (sc, s) (Resched cpu cur t1 t2) (sc', s')"
| user_runs: "length u = nregs env \<Longrightarrow>
    kstep env (sc, s) (UserRuns k u x) (sc, s\<lparr>uregs := (uregs s)(k := u), ufx := (ufx s)(k := x)\<rparr>)"

inductive_cases ioctlE: "kstep env (sc, s) (Ioctl cmd c) z"
inductive_cases do_exitE: "kstep env (sc, s) (DoExit c) z"
inductive_cases reschedE: "kstep env (sc, s) (Resched cpu cur t1 t2) z"
inductive_cases user_runsE: "kstep env (sc, s) (UserRuns k u x) z"
inductive_simps kstep_ioctl_iff: "kstep env (sc, s) (Ioctl cmd c) (sc', s')"

text \<open>The indexes handed out stay findable: the condition under which the invariant is kept.\<close>

fun event_ok :: "kenv \<Rightarrow> kstate \<Rightarrow> event \<Rightarrow> bool" where
  "event_ok env s (Ioctl CONVERTTOFIBER c) = next_index_ok env c s"
| "event_ok env s (Ioctl CREATEFIBER c) = next_index_ok env c s"
| "event_ok env s _ = True"

lemma my_ioctl_kinv:
  assumes k: "kinv env s" and ok: "event_ok env s (Ioctl cmd c)" and r: "my_ioctl env cmd c s = Inr (r, s')"
  shows "kinv env s'"
  using assms
  by (cases cmd)
    (auto simp: no_out_def kbind_Inr_iff dest: ioctl_convert_kinv ioctl_create_kinv ioctl_switch_kinv
      ioctl_fls_alloc_kinv ioctl_fls_free_kinv ioctl_fls_get_kinv ioctl_fls_set_kinv)

lemma user_runs_kinv:
  "kinv env s \<Longrightarrow> length u = nregs env \<Longrightarrow> kinv env (s\<lparr>uregs := (uregs s)(k := u), ufx := (ufx s)(k := x)\<rparr>)"
  by (rule kinv_unlinked) (auto simp: kinv_def fresh_beyond_def)

lemma kstep_kinv:
  assumes "kstep env z e z'" "kinv env (snd z)" "event_ok env (snd z) e"
  shows "kinv env (snd z')"
  using assms
proof (induction rule: kstep.induct)
  case (ioctl cmd c s r s' sc)
  then show ?case using my_ioctl_kinv by simp
next
  case (do_exit c s r s' sc)
  then show ?case using Pre_Handler_kinv by simp
next
  case (resched cpu cur t1 t2 sc s sc' s')
  then show ?case using switch_handler_total [of env s cpu cur t1 t2 sc] by auto
next
  case (user_runs u sc s k x)
  then show ?case using user_runs_kinv by simp
qed

inductive reachable :: "kenv \<Rightarrow> system \<Rightarrow> bool" for env :: kenv where
  load: "(\<And>t. length (ur t) = nregs env) \<Longrightarrow> reachable env (\<lambda>_. None, init_state ur uf)"
| step: "reachable env z \<Longrightarrow> event_ok env (snd z) e \<Longrightarrow> kstep env z e z' \<Longrightarrow> reachable env z'"

lemma reachable_kinv_aux: "reachable env z \<Longrightarrow> kinv env (snd z)"
proof (induction rule: reachable.induct)
  case (load ur uf)
  then show ?case by (simp add: kinv_init)
next
  case (step z e z')
  then show ?case using kstep_kinv by blast
qed

section \<open>Absence of faults\<close>

text \<open>The caller's active fiber.\<close>

definition caller_fiber :: "kenv \<Rightarrow> call \<Rightarrow> kstate \<Rightarrow> addr option" where
  "caller_fiber env c s =
     (case search_process env (c_tgid c) s of
        Inr (Some pa) \<Rightarrow>
          (case procs s pa of
             Some p \<Rightarrow> (case pid_find env (tkey s) (c_pid c) (threads p) of Inr (Some ta) \<Rightarrow> act s ta | _ \<Rightarrow> None)
           | None \<Rightarrow> None)
      | _ \<Rightarrow> None)"

lemma caller_fiber_cong:
  "c_tgid d = c_tgid c \<Longrightarrow> c_pid d = c_pid c \<Longrightarrow> caller_fiber env d s = caller_fiber env c s"
  by (simp add: caller_fiber_def cong: sum.case_cong option.case_cong)

text \<open>What the caller has to respect: the allocations whose failure the code does not check succeed,
  the storage commands stay on the 64 slots the bitmap word has, and \<^verbatim>\<open>FLSALLOC\<close> finds one of them
  free.\<close>

fun call_safe :: "kenv \<Rightarrow> ioctl_cmd \<Rightarrow> call \<Rightarrow> kstate \<Rightarrow> bool" where
  "call_safe env CONVERTTOFIBER c s = ok_fiber c"
| "call_safe env CREATEFIBER c s = (ok_args c \<and> ok_fiber c)"
| "call_safe env FLSALLOC c s =
     (case caller_fiber env c s of None \<Rightarrow> True
      | Some fa \<Rightarrow> (case fibs s fa of None \<Rightarrow> True | Some f \<Rightarrow> ffz (fls_bitmap f) \<noteq> None))"
| "call_safe env FLSFREE c s = (sint (c_arg c) \<le> 0 \<or> int MAX_FLS \<le> sint (c_arg c) \<or> unat (c_arg c) < BITS_PER_LONG)"
| "call_safe env FLSGETVALUE c s = (case user_fls c of None \<Rightarrow> True | Some u \<Rightarrow> unat (dwFlsIndex u) < BITS_PER_LONG)"
| "call_safe env FLSSETVALUE c s = (case user_fls c of None \<Rightarrow> True | Some u \<Rightarrow> unat (dwFlsIndex u) < BITS_PER_LONG)"
| "call_safe env _ c s = True"

lemma kbind_total: "\<exists>a. m = Inr a \<Longrightarrow> (\<And>a. \<exists>x. g a = Inr x) \<Longrightarrow> \<exists>x. kbind m g = Inr x"
  by fastforce

lemma low_slot_ops:
  assumes "unat i < BITS_PER_LONG"
  shows "\<exists>r. fls_get_slot i f = Inr r" "\<exists>f'. fls_set_slot i v f = Inr f'" "\<exists>r. fls_free_slot i f = Inr r"
proof -
  have e: "of_nat (unat i) = i" by simp
  show "\<exists>r. fls_get_slot i f = Inr r" using fls.get_law [OF assms, of f] unfolding e by blast
  show "\<exists>f'. fls_set_slot i v f = Inr f'" using fls.set_law [OF assms, of v f] unfolding e by blast
  have "clear_bit i f = Inr (f\<lparr>fls_bitmap := unset_bit (unat i) (fls_bitmap f)\<rparr>)"
    using low_bit_ops(3) [of "unat i" f] assms unfolding e BITS_PER_LONG_def .
  then show "\<exists>r. fls_free_slot i f = Inr r" by (auto simp: fls_free_slot_def)
qed

lemma with_active_total:
  assumes k: "kinv env s" and "\<exists>x. np s = Inr x" "\<exists>x. nt s = Inr x"
    and body: "\<And>fa f. caller_fiber env c s = Some fa \<Longrightarrow> fibs s fa = Some f \<Longrightarrow> \<exists>x. body fa f s = Inr x"
  shows "\<exists>x. with_active env c s np nt body = Inr x"
proof (rule with_active_cases [OF k, of c np nt body])
  fix pa p ta t fa f
  assume a: "with_active env c s np nt body = body fa f s" "search_process env (c_tgid c) s = Inr (Some pa)"
    "procs s pa = Some p" "pid_find env (tkey s) (c_pid c) (threads p) = Inr (Some ta)"
    "thrs s ta = Some t" "active_fiber t = Some fa" "fibs s fa = Some f"
  then have "caller_fiber env c s = Some fa" by (simp add: caller_fiber_def act_def)
  then show ?thesis using body a(1,7) by simp
qed (use assms in simp_all)

lemma convert_total:
  assumes k: "kinv env s" and ok: "ok_fiber c"
  shows "\<exists>r s'. ioctl_convert env c s = Inr (r, s')"
proof -
  let ?e = "convert_entry env c s"
  note e = convert_entry_kinv [OF k, of c]
  have f: "fibs ?e (brk s) = Some (zero_fiber env)" using convert_entry_fiber(1) [OF ok] by simp
  have run: "\<exists>r s'. convert_thread env c (Some (brk s)) pa q = Inr (r, s')"
    if "kinv env q" "pa \<in> mem (list_process q)" "procs q pa = Some p" "fibs q (brk s) = Some (zero_fiber env)" for pa p q
    by (rule convert_thread_cases [OF that(1-3), of "Some (brk s)" True "brk s" "zero_fiber env" c])
      (simp_all add: that(4))
  show ?thesis
  proof (rule search_process_cases [OF k, of "c_tgid c"])
    fix pa p assume "search_process env (c_tgid c) s = Inr (Some pa)" "pa \<in> mem (list_process s)" "procs s pa = Some p"
    then show ?thesis using run [OF e _ _ f] ok by (simp add: ioctl_convert_eq Let_def)
  next
    assume n: "search_process env (c_tgid c) s = Inr None" "\<And>pa. pa \<in> mem (list_process s) \<Longrightarrow> pkey s pa \<noteq> Some (c_tgid c)"
    have l: "kinv env (link_process env (c_tgid c) ?e)" by (rule link_process_kinv [OF e]) (use n in simp)
    show ?thesis
      using run [OF l, of "brk ?e" "fresh_process (c_tgid c)"] f n ok
      by (auto simp: ioctl_convert_eq Let_def link_process_def)
  qed
qed

lemma create_total:
  assumes "kinv env s" "ok_args c" "ok_fiber c"
  shows "\<exists>r s'. ioctl_create env c s = Inr (r, s')"
  using assms by (cases rule: ioctl_create_cases) auto

lemma switch_total:
  assumes "kinv env s"
  shows "\<exists>r s'. ioctl_switch env c s = Inr (r, s')"
  by (rule ioctl_switch_cases [OF assms, of c]) auto

lemma fls_alloc_total:
  assumes k: "kinv env s" and ok: "call_safe env FLSALLOC c s"
  shows "\<exists>x. ioctl_fls_alloc env c s = Inr x"
  unfolding ioctl_fls_alloc_def
proof (rule with_active_total [OF k])
  fix fa f assume "caller_fiber env c s = Some fa" "fibs s fa = Some f"
  moreover from this obtain i where "ffz (fls_bitmap f) = Some i" using ok by auto
  ultimately show "\<exists>x. kbind (fls_alloc_slot f) (\<lambda>(r, f). kbind (modify_fib fa (\<lambda>_. f) s)
      (\<lambda>s. Inr (case r of None \<Rightarrow> - 1 | Some i \<Rightarrow> of_nat i, s))) = Inr x"
    by (simp add: fls_alloc_slot_low)
qed simp_all

lemma fls_free_total:
  assumes k: "kinv env s" and ok: "call_safe env FLSFREE c s"
  shows "\<exists>x. ioctl_fls_free env c s = Inr x"
  unfolding ioctl_fls_free_def
proof (rule with_active_total [OF k])
  fix fa f assume f: "fibs s fa = Some f"
  have "\<exists>r. fls_free_slot (c_arg c) f = Inr r"
    using ok low_slot_ops(3) [of "c_arg c" f] by (auto simp: fls_free_slot_def)
  then show "\<exists>x. kbind (fls_free_slot (c_arg c) f) (\<lambda>(b, f). kbind (modify_fib fa (\<lambda>_. f) s)
      (\<lambda>s. Inr (of_bool b, s))) = Inr x"
    using f by auto
qed simp_all

lemma fls_get_total:
  assumes k: "kinv env s" and ok: "call_safe env FLSGETVALUE c s"
  shows "\<exists>x. ioctl_fls_get env c s = Inr x"
proof (cases "ok_args c \<and> user_fls c \<noteq> None")
  case True
  then obtain u where u: "ok_args c" "user_fls c = Some u" by auto
  have l: "\<exists>r. fls_get_slot (dwFlsIndex u) f = Inr r" for f
    using ok u(2) low_slot_ops(1) [of "dwFlsIndex u" f] by simp
  show ?thesis
    unfolding ioctl_fls_get_def Let_def u
    by (auto simp: u simp del: split_paired_Ex intro!: with_active_total kbind_total kzalloc_kinv k l split: option.splits)
qed (auto simp: ioctl_fls_get_def)

lemma fls_set_total:
  assumes k: "kinv env s" and ok: "call_safe env FLSSETVALUE c s"
  shows "\<exists>x. ioctl_fls_set env c s = Inr x"
proof (cases "ok_args c \<and> user_fls c \<noteq> None")
  case True
  then obtain u where u: "ok_args c" "user_fls c = Some u" by auto
  have l: "\<exists>r. fls_set_slot (dwFlsIndex u) v f = Inr r" for f v
    using ok u(2) low_slot_ops(2) [of "dwFlsIndex u" v f] by simp
  show ?thesis
    unfolding ioctl_fls_set_def Let_def u
    by (auto simp: u simp del: split_paired_Ex intro!: with_active_total kbind_total kzalloc_kinv k l)
qed (auto simp: ioctl_fls_set_def)

lemmas command_totals = convert_total create_total switch_total fls_alloc_total fls_free_total fls_get_total fls_set_total

lemma my_ioctl_total:
  assumes k: "kinv env s" and ok: "call_safe env cmd c s"
  shows "\<exists>r s'. my_ioctl env cmd c s = Inr (r, s')"
  using ok command_totals [OF k, of c]
  by (cases cmd) (auto simp: no_out_def kbind_Inr_iff simp del: split_paired_Ex)

lemma Pre_Handler_total:
  assumes "kinv env s"
  shows "\<exists>r s'. Pre_Handler env c s = Inr (r, s')"
  using assms by (cases rule: Pre_Handler_cases [where c = c]) auto

end
