(* ===== verification/Fiber_Abstraction.thy ===== *)
theory Fiber_Abstraction
  imports Fiber_Module
begin

text \<open>
  What a client of the module can know of it: per process, the next index, the set of live fiber
  indexes and the index each registered thread runs. The abstraction function from the kernel state,
  and how each structural change of \<open>Fiber_Steps\<close>, \<open>Fiber_Create\<close> and \<open>Fiber_Exit\<close>
  shows in it.
\<close>

section \<open>The abstract state\<close>

record fproc =
  next_index :: u64
  live :: "u64 set"
  cur :: "pid_t \<Rightarrow> u64 option"

definition no_fibers :: fproc where
  "no_fibers = \<lparr>next_index = 0, live = {}, cur = Map.empty\<rparr>"

definition abs_proc :: "kenv \<Rightarrow> kstate \<Rightarrow> process_arg \<Rightarrow> fproc" where
  "abs_proc env s p = \<lparr>next_index = fiber_id p,
     live = {i. \<exists>fa\<in>mem (fibers p). fkey s fa = Some i},
     cur = (\<lambda>t. case pid_find env (tkey s) t (threads p) of
              Inr (Some ta) \<Rightarrow> (case act s ta of Some fa \<Rightarrow> fkey s fa | None \<Rightarrow> None)
            | _ \<Rightarrow> None)\<rparr>"

definition kabs :: "kenv \<Rightarrow> kstate \<Rightarrow> pid_t \<Rightarrow> fproc option" where
  "kabs env s tg = (case search_process env tg s of
     Inr (Some pa) \<Rightarrow> map_option (abs_proc env s) (procs s pa) | _ \<Rightarrow> None)"

lemma abs_found: "search_process env tg s = Inr (Some pa) \<Longrightarrow> procs s pa = Some p \<Longrightarrow>
    kabs env s tg = Some (abs_proc env s p)"
  by (simp add: kabs_def)

lemma abs_absent: "search_process env tg s = Inr None \<Longrightarrow> kabs env s tg = None"
  by (simp add: kabs_def)

lemma search_process_member:
  "kinv env s \<Longrightarrow> pa \<in> mem (list_process s) \<Longrightarrow> procs s pa = Some p \<Longrightarrow>
   search_process env (p_pid p) s = Inr (Some pa)"
  by (simp add: search_process_find pidx.find_Some_iff [OF kinv_list] pkey_def)

lemma abs_member:
  "kinv env s \<Longrightarrow> pa \<in> mem (list_process s) \<Longrightarrow> procs s pa = Some p \<Longrightarrow>
   kabs env s (p_pid p) = Some (abs_proc env s p)"
  by (rule abs_found [OF search_process_member])

lemma abs_eqI:
  assumes k: "kinv env s"
    and some: "\<And>pa p. pa \<in> mem (list_process s) \<Longrightarrow> procs s pa = Some p \<Longrightarrow> h (p_pid p) = Some (abs_proc env s p)"
    and none: "\<And>tg. (\<And>pa p. pa \<in> mem (list_process s) \<Longrightarrow> procs s pa = Some p \<Longrightarrow> p_pid p \<noteq> tg) \<Longrightarrow> h tg = None"
  shows "kabs env s = h"
proof (rule ext)
  fix tg
  show "kabs env s tg = h tg"
  proof (rule search_process_cases [OF k, of tg])
    assume a: "search_process env tg s = Inr None" "\<And>pa. pa \<in> mem (list_process s) \<Longrightarrow> pkey s pa \<noteq> Some tg"
    then have "h tg = None" by (intro none) (auto simp: pkey_def)
    with a show ?thesis by (simp add: abs_absent)
  next
    fix pa p assume "search_process env tg s = Inr (Some pa)" "pa \<in> mem (list_process s)" "procs s pa = Some p" "p_pid p = tg"
    then show ?thesis using some abs_found by metis
  qed
qed

lemma chain_find_cong:
  "(\<And>a. a \<in> set as \<Longrightarrow> key' a = key a) \<Longrightarrow> chain_find key' P as = chain_find key P as"
  by (induction as) (simp_all add: deref_def cong: if_cong)

lemma abs_proc_frame:
  assumes p: "proc_inv env s p"
    and t: "\<And>ta. ta \<in> mem (threads p) \<Longrightarrow> thrs s' ta = thrs s ta"
    and f: "\<And>fa. fa \<in> mem (fibers p) \<Longrightarrow> fkey s' fa = fkey s fa"
  shows "abs_proc env s' p = abs_proc env s p"
proof -
  have pf: "pid_find env (tkey s') k (threads p) = pid_find env (tkey s) k (threads p)" for k
    unfolding pid_find_def by (rule chain_find_cong) (auto simp: tkey_def mem_def intro!: arg_cong [of _ _ "map_option t_pid"] t)
  have "cur (abs_proc env s' p) k = cur (abs_proc env s p) k" for k
  proof (rule thread_find_cases [OF p, of k])
    fix ta t' fa assume "pid_find env (tkey s) k (threads p) = Inr (Some ta)" "ta \<in> mem (threads p)"
      "act s ta = Some fa" "fa \<in> mem (fibers p)"
    then show ?thesis using t f by (simp add: abs_proc_def pf act_def)
  qed (simp add: abs_proc_def pf)
  then have "cur (abs_proc env s' p) = cur (abs_proc env s p)" by (rule ext)
  moreover have "live (abs_proc env s' p) = live (abs_proc env s p)"
    using f by (auto simp: abs_proc_def)
  ultimately show ?thesis by (simp add: abs_proc_def)
qed

lemma abs_local:
  assumes k: "kinv env s" and k': "kinv env s'" and pa: "pa \<in> mem (list_process s)" "procs s pa = Some p"
    and lst: "list_process s' = list_process s"
    and ps: "procs s' = (procs s)(pa \<mapsto> p')" and pid: "p_pid p' = p_pid p"
    and thr: "\<And>a. a \<in> all_threads s \<Longrightarrow> a \<notin> mem (threads p) \<Longrightarrow> thrs s' a = thrs s a"
    and fib: "\<And>a. a \<in> all_fibers s \<Longrightarrow> a \<notin> mem (fibers p) \<Longrightarrow> fkey s' a = fkey s a"
  shows "kabs env s' = (kabs env s)(p_pid p \<mapsto> abs_proc env s' p')"
proof (rule abs_eqI [OF k'])
  fix qa q assume q: "qa \<in> mem (list_process s')" "procs s' qa = Some q"
  show "((kabs env s)(p_pid p \<mapsto> abs_proc env s' p')) (p_pid q) = Some (abs_proc env s' q)"
  proof (cases "qa = pa")
    case True
    with q pid show ?thesis by (simp add: ps)
  next
    case False
    with q have q0: "qa \<in> mem (list_process s)" "procs s qa = Some q" by (simp_all add: ps lst)
    have ne: "p_pid q \<noteq> p_pid p"
      using search_process_member [OF k q0] search_process_member [OF k pa] False by auto
    note d = kinv_disjoint [OF k pa(1) q0(1) not_sym [OF False] pa(2) q0(2)]
    have sub: "mem (threads q) \<subseteq> all_threads s" "mem (fibers q) \<subseteq> all_fibers s"
      using q0 by (auto simp: all_threads_def all_fibers_def)
    have "abs_proc env s' q = abs_proc env s q"
      by (rule abs_proc_frame [OF kinv_proc [OF k q0]]) (use d sub thr fib in blast)+
    then show ?thesis using ne abs_member [OF k q0] by simp
  qed
next
  fix tg assume n: "\<And>qa q. qa \<in> mem (list_process s') \<Longrightarrow> procs s' qa = Some q \<Longrightarrow> p_pid q \<noteq> tg"
  have "p_pid p \<noteq> tg" using n [of pa p'] pa pid by (simp add: lst ps)
  moreover have "search_process env tg s = Inr None"
  proof (rule search_process_cases [OF k, of tg])
    fix qa q assume q: "qa \<in> mem (list_process s)" "procs s qa = Some q" "p_pid q = tg"
    then have "qa \<noteq> pa" using pa \<open>p_pid p \<noteq> tg\<close> by auto
    with q n [of qa q] show ?thesis by (simp add: lst ps)
  qed
  ultimately show "((kabs env s)(p_pid p \<mapsto> abs_proc env s' p')) tg = None" by (simp add: abs_absent)
qed

lemma abs_unlinked:
  assumes k: "kinv env s" and k': "kinv env s'" and lst: "list_process s' = list_process s"
    and ps: "\<And>a. a \<in> mem (list_process s) \<Longrightarrow> procs s' a = procs s a"
    and ts: "\<And>a. a \<in> all_threads s \<Longrightarrow> thrs s' a = thrs s a"
    and fs: "\<And>a. a \<in> all_fibers s \<Longrightarrow> fkey s' a = fkey s a"
  shows "kabs env s' = kabs env s"
proof (rule abs_eqI [OF k'])
  fix qa q assume "qa \<in> mem (list_process s')" "procs s' qa = Some q"
  then have q: "qa \<in> mem (list_process s)" "procs s qa = Some q" using lst ps by auto
  then have "mem (threads q) \<subseteq> all_threads s" "mem (fibers q) \<subseteq> all_fibers s"
    by (auto simp: all_threads_def all_fibers_def)
  then have "abs_proc env s' q = abs_proc env s q"
    by (intro abs_proc_frame [OF kinv_proc [OF k q]] ts fs) auto
  then show "kabs env s (p_pid q) = Some (abs_proc env s' q)" using abs_member [OF k q] by simp
next
  fix tg assume n: "\<And>qa q. qa \<in> mem (list_process s') \<Longrightarrow> procs s' qa = Some q \<Longrightarrow> p_pid q \<noteq> tg"
  show "kabs env s tg = None"
    by (rule search_process_cases [OF k, of tg]) (use n lst ps in \<open>auto simp: abs_absent\<close>)
qed


section \<open>One process, operation by operation\<close>

lemma pid_find_cong:
  "(\<And>a. a \<in> mem t \<Longrightarrow> key' a = key a) \<Longrightarrow> pid_find env key' k t = pid_find env key k t"
  unfolding pid_find_def by (rule chain_find_cong) (auto simp: mem_def)

lemma cur_abs_proc:
  "pid_find env (tkey s) t (threads p) = Inr None \<Longrightarrow> cur (abs_proc env s p) t = None"
  "pid_find env (tkey s) t (threads p) = Inr (Some ta) \<Longrightarrow> act s ta = Some fa \<Longrightarrow> fibs s fa = Some f \<Longrightarrow>
     cur (abs_proc env s p) t = Some (index f)"
  by (simp_all add: abs_proc_def fkey_def)

lemma cur_empty_iff:
  assumes p: "proc_inv env s p"
  shows "cur (abs_proc env s p) = Map.empty \<longleftrightarrow> mem (threads p) = {}"
proof
  assume e: "cur (abs_proc env s p) = Map.empty"
  show "mem (threads p) = {}"
  proof (rule ccontr)
    assume "mem (threads p) \<noteq> {}"
    then obtain ta where ta: "ta \<in> mem (threads p)" by blast
    obtain t fa f where t: "thrs s ta = Some t" "active_fiber t = Some fa" "fibs s fa = Some f"
      using proc_live_thread [OF p ta] by blast
    have "pid_find env (tkey s) (t_pid t) (threads p) = Inr (Some ta)"
      using pidx.find_member [OF proc_threads [OF p] TrueI ta] t by (simp add: tkey_def)
    moreover have "act s ta = Some fa" using t by (simp add: act_def)
    ultimately have "cur (abs_proc env s p) (t_pid t) = Some (index f)" using t(3) by (intro cur_abs_proc(2))
    with e show False by simp
  qed
next
  assume "mem (threads p) = {}"
  then show "cur (abs_proc env s p) = Map.empty"
    using pidx.find_None_iff [OF proc_threads [OF p] TrueI] by (intro ext) (simp add: abs_proc_def)
qed

lemma fkey_inj: "proc_inv env s p \<Longrightarrow> a \<in> mem (fibers p) \<Longrightarrow> b \<in> mem (fibers p) \<Longrightarrow> fkey s a = fkey s b \<Longrightarrow> a = b"
  using proc_fibers [of env s p] by (simp add: fib_tab_def table_ok_def)

lemma live_iff: "i \<in> live (abs_proc env s p) \<longleftrightarrow> (\<exists>fa f. fa \<in> mem (fibers p) \<and> fibs s fa = Some f \<and> index f = i)"
  by (auto simp: abs_proc_def fkey_def)

lemma running_iff_cur:
  assumes p: "proc_inv env s p" and fa: "fa \<in> mem (fibers p)" "fibs s fa = Some f"
  shows "running f \<longleftrightarrow> index f \<in> ran (cur (abs_proc env s p))"
proof
  assume "running f"
  then obtain ta where ta: "ta \<in> mem (threads p)" "act s ta = Some fa"
    using fiber_invD [OF proc_fiber [OF p fa(1)] fa(2)] by blast
  then obtain t where t: "thrs s ta = Some t" using proc_live_thread [OF p ta(1)] by blast
  have "pid_find env (tkey s) (t_pid t) (threads p) = Inr (Some ta)"
    using pidx.find_member [OF proc_threads [OF p] TrueI ta(1)] t by (simp add: tkey_def)
  then show "index f \<in> ran (cur (abs_proc env s p))"
    using cur_abs_proc(2) ta fa by (metis ranI)
next
  assume "index f \<in> ran (cur (abs_proc env s p))"
  then obtain t where t: "cur (abs_proc env s p) t = Some (index f)" by (auto simp: ran_def)
  show "running f"
  proof (rule thread_find_cases [OF p, of t])
    assume "pid_find env (tkey s) t (threads p) = Inr None"
    with t show ?thesis by (simp add: cur_abs_proc(1))
  next
    fix ta t' fa' f' assume a: "pid_find env (tkey s) t (threads p) = Inr (Some ta)" "act s ta = Some fa'"
      "fa' \<in> mem (fibers p)" "fibs s fa' = Some f'" "running f'"
    then have "fkey s fa = fkey s fa'" using t fa cur_abs_proc(2) [of env s t p] by (simp add: fkey_def)
    then have "fa = fa'" by (rule fkey_inj [OF p fa(1) a(3)])
    with a fa show ?thesis by simp
  qed
qed

lemma abs_proc_link_fiber:
  assumes p: "proc_inv env s p" and fa: "fa \<notin> mem (fibers p)" and f: "index f = fiber_id p"
  shows "abs_proc env (link_fiber env pa fa f p s)
      (p\<lparr>fiber_id := fiber_id p + 1, fibers := hash_add b fa (fibers p)\<rparr>) =
    (abs_proc env s p)\<lparr>next_index := fiber_id p + 1, live := insert (fiber_id p) (live (abs_proc env s p))\<rparr>"
    (is "abs_proc env ?s ?p = ?q")
proof -
  have fk: "fkey ?s x = (if x = fa then Some (fiber_id p) else fkey s x)" for x
    using f by (simp add: link_fiber_def fkey_def)
  have tk: "tkey ?s = tkey s" and ac: "act ?s = act s"
    by (simp_all add: link_fiber_def fun_eq_iff tkey_def act_def)
  have "cur (abs_proc env ?s ?p) t = cur (abs_proc env s p) t" for t
    by (rule thread_find_cases [OF p, of t]) (use fa in \<open>auto simp: abs_proc_def tk ac fk\<close>)
  then have "cur (abs_proc env ?s ?p) = cur (abs_proc env s p)" by (rule ext)
  moreover have "live (abs_proc env ?s ?p) = insert (fiber_id p) (live (abs_proc env s p))"
    using fa by (auto simp: abs_proc_def fk)
  ultimately show ?thesis by (simp add: abs_proc_def)
qed

lemma abs_proc_link_thread:
  assumes p: "proc_inv env s p" and fa: "fa \<notin> mem (fibers p)" and f: "index f = fiber_id p"
    and ta: "brk s \<notin> mem (threads p)" and new: "\<And>x. x \<in> mem (threads p) \<Longrightarrow> tkey s x \<noteq> Some tid"
  shows "abs_proc env (link_thread env tid pa fa f p s)
      (p\<lparr>threads := hash_add (hash_32 env tid) (brk s) (threads p), fiber_id := fiber_id p + 1,
         fibers := hash_add b fa (fibers p)\<rparr>) =
    (abs_proc env s p)\<lparr>next_index := fiber_id p + 1, live := insert (fiber_id p) (live (abs_proc env s p)),
       cur := (cur (abs_proc env s p))(tid \<mapsto> fiber_id p)\<rparr>"
    (is "abs_proc env ?s ?p = ?q")
proof -
  have fk: "fkey ?s x = (if x = fa then Some (fiber_id p) else fkey s x)" for x
    using f by (simp add: link_thread_def fkey_def)
  have tk: "tkey ?s x = (if x = brk s then Some tid else tkey s x)" for x
    by (simp add: link_thread_def tkey_def)
  have ac: "act ?s x = (if x = brk s then Some fa else act s x)" for x
    by (simp add: link_thread_def act_def)
  have tk': "tkey ?s a = tkey s a" if "a \<in> mem (threads p)" for a using that ta by (auto simp: tk)
  have inv: "pid_tab env (tkey ?s) (threads p)"
    by (rule pidx.invar_cong [OF proc_threads [OF p] tk'])
  have new': "tkey ?s a \<noteq> Some tid" if "a \<in> mem (threads p)" for a using new [OF that] tk' [OF that] by simp
  have tta: "tkey ?s (brk s) = Some tid" by (simp add: tk)
  have same: "pid_find env (tkey ?s) tid (hash_add (hash_32 env tid) (brk s) (threads p)) = Inr (Some (brk s))"
    by (rule pidx.find_add_same [OF inv ta tta TrueI]) (rule new')
  have other: "pid_find env (tkey ?s) t (hash_add (hash_32 env tid) (brk s) (threads p)) = pid_find env (tkey ?s) t (threads p)"
    if "t \<noteq> tid" for t
    by (rule pidx.find_add_other [OF inv ta tta TrueI _ TrueI that]) (rule new')
  have "cur (abs_proc env ?s ?p) t = ((cur (abs_proc env s p))(tid \<mapsto> fiber_id p)) t" for t
  proof (cases "t = tid")
    case True
    then show ?thesis by (simp add: abs_proc_def same ac fk)
  next
    case False
    have pf: "pid_find env (tkey ?s) t (threads ?p) = pid_find env (tkey s) t (threads p)"
      using other [OF False] pid_find_cong [of "threads p" "tkey ?s" "tkey s" env t, OF tk'] by simp
    show ?thesis
      by (rule thread_find_cases [OF p, of t]) (use fa ta False pf in \<open>auto simp: abs_proc_def ac fk\<close>)
  qed
  then have "cur (abs_proc env ?s ?p) = (cur (abs_proc env s p))(tid \<mapsto> fiber_id p)" by (rule ext)
  moreover have "live (abs_proc env ?s ?p) = insert (fiber_id p) (live (abs_proc env s p))"
    using fa by (auto simp: abs_proc_def fk)
  ultimately show ?thesis by (simp add: abs_proc_def)
qed

lemma abs_proc_switched:
  assumes p: "proc_inv env s p" and ta: "pid_find env (tkey s) k (threads p) = Inr (Some ta)" "thrs s ta = Some t"
    and f: "fibs s af = Some fo" "fibs s fa = Some fn"
  shows "abs_proc env (switched env c ta af fa s) p =
    (abs_proc env s p)\<lparr>cur := (cur (abs_proc env s p))(k \<mapsto> index fn)\<rparr>" (is "abs_proc env ?s p = _")
proof -
  have fk: "fkey ?s x = fkey s x" for x using f by (simp add: switched_def fkey_def charge_def Let_def)
  have tk: "tkey ?s = tkey s" using ta(2) by (auto simp: switched_def tkey_def Let_def)
  have ac: "act ?s x = (if x = ta then Some fa else act s x)" for x
    by (simp add: switched_def act_def Let_def)
  have kta: "tkey s ta = Some k"
    using ta(1) pidx.find_Some_iff [OF proc_threads [OF p] TrueI] by blast
  have "cur (abs_proc env ?s p) j = ((cur (abs_proc env s p))(k \<mapsto> index fn)) j" for j
  proof (cases "j = k")
    case True
    then show ?thesis using ta f by (simp add: abs_proc_def tk fk ac) (simp add: fkey_def)
  next
    case False
    have "x \<noteq> ta" if "pid_find env (tkey s) j (threads p) = Inr (Some x)" for x
      using that kta False pidx.find_Some_iff [OF proc_threads [OF p] TrueI, of j x] by auto
    then show ?thesis
      using False by (auto simp: abs_proc_def tk fk ac split: sum.splits option.splits)
  qed
  then have "cur (abs_proc env ?s p) = (cur (abs_proc env s p))(k \<mapsto> index fn)" by (rule ext)
  then show ?thesis by (simp add: abs_proc_def fk)
qed

lemma abs_proc_unlink_thread:
  assumes p: "proc_inv env s p" and ta: "pid_find env (tkey s) k (threads p) = Inr (Some ta)" "act s ta = Some fa"
    and fa: "fa \<in> mem (fibers p)" "fibs s fa = Some f"
  shows "abs_proc env (unlink_thread pa ta fa p s) (p\<lparr>threads := hash_del ta (threads p), fibers := hash_del fa (fibers p)\<rparr>) =
    (abs_proc env s p)\<lparr>live := live (abs_proc env s p) - {index f}, cur := (cur (abs_proc env s p))(k := None)\<rparr>"
    (is "abs_proc env ?s ?p = _")
proof -
  have tam: "ta \<in> mem (threads p)" and kta: "tkey s ta = Some k"
    using ta(1) pidx.find_Some_iff [OF proc_threads [OF p] TrueI] by blast+
  have fk: "fkey ?s x = (if x = fa then None else fkey s x)" for x by (simp add: unlink_thread_def fkey_def)
  have tk: "tkey ?s x = (if x = ta then None else tkey s x)" for x by (simp add: unlink_thread_def tkey_def)
  have ac: "act ?s x = (if x = ta then None else act s x)" for x by (simp add: unlink_thread_def act_def)
  have pf: "pid_find env (tkey ?s) j (threads ?p) = pid_find env (tkey s) j (hash_del ta (threads p))" for j
    by (simp, rule pid_find_cong) (simp add: tk)
  have "cur (abs_proc env ?s ?p) j = ((cur (abs_proc env s p))(k := None)) j" for j
  proof (cases "j = k")
    case True
    then show ?thesis
      using pidx.find_del_same [OF proc_threads [OF p] TrueI tam kta] pf by (simp add: abs_proc_def)
  next
    case False
    have del: "pid_find env (tkey s) j (hash_del ta (threads p)) = pid_find env (tkey s) j (threads p)"
      by (rule pidx.find_del_other [OF proc_threads [OF p] TrueI]) (use kta False in simp)
    show ?thesis
    proof (rule thread_find_cases [OF p, of j])
      assume "pid_find env (tkey s) j (threads p) = Inr None"
      with False pf del show ?thesis by (simp add: abs_proc_def)
    next
      fix x t fb assume x: "pid_find env (tkey s) j (threads p) = Inr (Some x)" "x \<in> mem (threads p)" "act s x = Some fb"
      then have "x \<noteq> ta" using kta False pidx.find_Some_iff [OF proc_threads [OF p] TrueI, of j x] by auto
      moreover from this have "fb \<noteq> fa" using inj_onD [OF proc_inj [OF p] _ x(2) tam] x ta by auto
      ultimately show ?thesis using x False pf del by (simp add: abs_proc_def ac fk)
    qed
  qed
  then have "cur (abs_proc env ?s ?p) = (cur (abs_proc env s p))(k := None)" by (rule ext)
  moreover have "live (abs_proc env ?s ?p) = live (abs_proc env s p) - {index f}"
  proof -
    have "x = fa" if "x \<in> mem (fibers p)" "fkey s x = Some (index f)" for x
      using fkey_inj [OF p that(1) fa(1)] that fa by (simp add: fkey_def)
    then have "(\<exists>x\<in>mem (fibers p) - {fa}. fkey s x = Some i) \<longleftrightarrow>
        (\<exists>x\<in>mem (fibers p). fkey s x = Some i) \<and> i \<noteq> index f" for i
      using fa by (metis Diff_iff fkey_def insertCI insertE option.inject option.map(2) singletonD)
    then show ?thesis by (simp add: abs_proc_def fk set_eq_iff)
  qed
  ultimately show ?thesis by (simp add: abs_proc_def)
qed

end
