(* ===== verification/Fiber_Spec.thy ===== *)
theory Fiber_Spec
  imports Fiber_Abstraction
begin

text \<open>
  The specification of the module over the abstract state of \<open>Fiber_Abstraction\<close>, and the
  simulation: every command and the exit probe compute on the abstraction what the specification
  says, with the same return value; everything else leaves it alone.
\<close>

section \<open>The specification\<close>

text \<open>\<open>spec_idle\<close>: no thread of any process is registered.\<close>

definition spec_idle :: "(pid_t \<Rightarrow> fproc option) \<Rightarrow> bool" where
  "spec_idle m \<longleftrightarrow> (\<forall>q\<in>ran m. cur q = Map.empty)"

definition spec_register :: "call \<Rightarrow> fproc \<Rightarrow> (pid_t \<Rightarrow> fproc option) \<Rightarrow> u64 \<times> (pid_t \<Rightarrow> fproc option)" where
  "spec_register c q m =
     (if cur q (c_pid c) \<noteq> None then (- 1, m)
      else if \<not> ok_thread c then (- ENOMEM, m(c_tgid c \<mapsto> q))
      else (next_index q, m(c_tgid c \<mapsto> q\<lparr>next_index := next_index q + 1, live := insert (next_index q) (live q),
              cur := (cur q)(c_pid c \<mapsto> next_index q)\<rparr>)))"

definition spec_convert :: "call \<Rightarrow> (pid_t \<Rightarrow> fproc option) \<Rightarrow> u64 \<times> (pid_t \<Rightarrow> fproc option)" where
  "spec_convert c m = (case m (c_tgid c) of
     Some q \<Rightarrow> spec_register c q m
   | None \<Rightarrow> if ok_process c then spec_register c no_fibers m else (- ENOMEM, m))"

definition spec_create :: "call \<Rightarrow> (pid_t \<Rightarrow> fproc option) \<Rightarrow> u64 \<times> (pid_t \<Rightarrow> fproc option)" where
  "spec_create c m = (case m (c_tgid c) of
     None \<Rightarrow> (- 1, m)
   | Some q \<Rightarrow> if user_create c = None \<or> cur q (c_pid c) = None then (- 1, m)
      else (next_index q, m(c_tgid c \<mapsto> q\<lparr>next_index := next_index q + 1, live := insert (next_index q) (live q)\<rparr>)))"

definition spec_switch :: "call \<Rightarrow> (pid_t \<Rightarrow> fproc option) \<Rightarrow> u64 \<times> (pid_t \<Rightarrow> fproc option)" where
  "spec_switch c m = (case m (c_tgid c) of
     None \<Rightarrow> (- 1, m)
   | Some q \<Rightarrow> let i = int_cut (c_arg c) in
      if i \<in> live q \<and> i \<notin> ran (cur q) \<and> cur q (c_pid c) \<noteq> None
      then (0, m(c_tgid c \<mapsto> q\<lparr>cur := (cur q)(c_pid c \<mapsto> i)\<rparr>))
      else (- 1, m))"

definition spec_exit :: "call \<Rightarrow> (pid_t \<Rightarrow> fproc option) \<Rightarrow> (pid_t \<Rightarrow> fproc option)" where
  "spec_exit c m = (case m (c_tgid c) of
     None \<Rightarrow> m
   | Some q \<Rightarrow> (case cur q (c_pid c) of
        None \<Rightarrow> m
      | Some i \<Rightarrow> let m = m(c_tgid c \<mapsto> q\<lparr>live := live q - {i}, cur := (cur q)(c_pid c := None)\<rparr>) in
          if spec_idle m then m(c_tgid c := None) else m))"

section \<open>Refinement\<close>

lemma linked_linked: "ta \<in> mem (threads p) \<Longrightarrow> pa \<in> mem (list_process s) \<Longrightarrow> procs s pa = Some p \<Longrightarrow> ta \<in> all_threads s"
  "fa \<in> mem (fibers p) \<Longrightarrow> pa \<in> mem (list_process s) \<Longrightarrow> procs s pa = Some p \<Longrightarrow> fa \<in> all_fibers s"
  by (auto simp: all_threads_def all_fibers_def)

lemma abs_triv: "search_process env tg s = Inr (Some pa) \<Longrightarrow> procs s pa = Some p \<Longrightarrow>
    (kabs env s)(tg \<mapsto> abs_proc env s p) = kabs env s"
  by (simp add: abs_found fun_upd_idem)

lemma ucast_int_cut [simp]: "ucast (int_cut k) = (ucast k :: u32)"
  unfolding int_cut_def by (rule bit_word_eqI) (auto simp: bit_ucast_iff bit_signed_iff)

lemma int_cut_idem [simp]: "int_cut (int_cut k) = int_cut k"
  using ucast_int_cut [of k] unfolding int_cut_def by simp

lemma search_fiber_live:
  assumes p: "proc_inv env s p" "procs s pa = Some p"
  shows "fa \<in> mem (fibers p) \<Longrightarrow> fkey s fa = Some (int_cut k) \<Longrightarrow> search_fiber env (ucast k) pa s = Inr (Some fa)"
    and "int_cut k \<notin> live (abs_proc env s p) \<Longrightarrow> search_fiber env (ucast k) pa s = Inr None"
proof -
  assume fa: "fa \<in> mem (fibers p)" "fkey s fa = Some (int_cut k)"
  have "fib_valid env (int_cut k)"
    using table_ok_live [of "hash_long env" "fib_valid env" "fkey s" "fibers p" fa] fa proc_fibers [OF p(1)]
    by (auto simp: fib_tab_def)
  then have "fib_find env (fkey s) (int_cut k) (fibers p) = Inr (Some fa)"
    using fa by (intro fibx.find_member [OF proc_fibers [OF p(1)]])
  then show "search_fiber env (ucast k) pa s = Inr (Some fa)"
    using search_fiber_ucast [OF p(2), of env "int_cut k"] by simp
next
  assume n: "int_cut k \<notin> live (abs_proc env s p)"
  show "search_fiber env (ucast k) pa s = Inr None"
    by (rule search_fiber_cases [OF p, of "ucast k"]) (use n in \<open>auto simp: live_iff int_cut_def\<close>)
qed

lemma fibs_same_abs:
  assumes k: "kinv env s" and pa: "pa \<in> mem (list_process s)" "procs s pa = Some p"
    and fa: "fa \<in> mem (fibers p)" "fibs s fa = Some f"
    and f': "index f' = index f" "running f' = running f" "length (regs f') = length (regs f)"
  shows "kabs env (s\<lparr>fibs := (fibs s)(fa \<mapsto> f')\<rparr>) = kabs env s"
  by (rule abs_unlinked [OF k fiber_update_kinv [OF k pa fa f']]) (use fa f' in \<open>auto simp: fkey_def\<close>)

lemma switched_abs:
  assumes k: "kinv env s" and pa: "pa \<in> mem (list_process s)" "procs s pa = Some p"
    and ta: "pid_find env (tkey s) j (threads p) = Inr (Some ta)" "ta \<in> mem (threads p)" "thrs s ta = Some t"
    and af: "active_fiber t = Some af" "af \<in> mem (fibers p)" "fibs s af = Some fo"
    and fa: "fa \<in> mem (fibers p)" "fibs s fa = Some fn" "\<not> running fn"
  shows "kabs env (switched env c ta af fa s) =
    (kabs env s)(p_pid p \<mapsto> (abs_proc env s p)\<lparr>cur := (cur (abs_proc env s p))(j \<mapsto> index fn)\<rparr>)"
proof -
  note k' = switched_kinv [OF k pa ta(2,3) af(1,3) fa]
  have "kabs env (switched env c ta af fa s) = (kabs env s)(p_pid p \<mapsto> abs_proc env (switched env c ta af fa s) p)"
    by (rule abs_local [OF k k' pa]) (use pa ta af fa in \<open>auto simp: switched_def fkey_def charge_def Let_def\<close>)
  then show ?thesis
    using abs_proc_switched [OF kinv_proc [OF k pa] ta(1,3) af(3) fa(2)] by simp
qed

lemma switch_refines:
  assumes k: "kinv env s" and r: "ioctl_switch env c s = Inr (r, s')"
  shows "(r, kabs env s') = spec_switch c (kabs env s)"
proof (rule search_process_cases [OF k, of "c_tgid c"])
  assume "search_process env (c_tgid c) s = Inr None"
  then show ?thesis using r by (auto simp: ioctl_switch_def spec_switch_def abs_absent)
next
  fix pa p assume pa: "search_process env (c_tgid c) s = Inr (Some pa)" "pa \<in> mem (list_process s)"
    "procs s pa = Some p" "p_pid p = c_tgid c" and p: "proc_inv env s p"
  note a = abs_found [OF pa(1,3)]
  note ref = ioctl_switch_refused [OF pa(1,3) proc_locks [OF p]]
  show ?thesis
  proof (cases "int_cut (c_arg c) \<in> live (abs_proc env s p)")
    case False
    then show ?thesis
      using ref(1) [OF search_fiber_live(2) [OF p pa(3)]] r by (auto simp: spec_switch_def a Let_def)
  next
    case True
    then obtain fa f where fa: "fa \<in> mem (fibers p)" "fibs s fa = Some f" "index f = int_cut (c_arg c)"
      by (auto simp: live_iff)
    then have sf: "search_fiber env (ucast (c_arg c)) pa s = Inr (Some fa)"
      by (intro search_fiber_live(1) [OF p pa(3)]) (simp_all add: fkey_def)
    note run = running_iff_cur [OF p fa(1,2)]
    show ?thesis
    proof (cases "running f")
      case True
      then have "s' = s\<lparr>fibs := (fibs s)(fa \<mapsto> f\<lparr>failed_activations := failed_activations f + 1\<rparr>)\<rparr>" "r = - 1"
        using ref(2) [OF sf fa(2)] r by auto
      then show ?thesis
        using True run fa fibs_same_abs [OF k pa(2,3) fa(1,2)] by (simp add: spec_switch_def a Let_def)
    next
      case False
      show ?thesis
      proof (rule thread_find_cases [OF p, of "c_pid c"])
        assume "pid_find env (tkey s) (c_pid c) (threads p) = Inr None"
        then show ?thesis using ref(3) [OF sf fa(2) False] r by (simp add: spec_switch_def a Let_def cur_abs_proc(1))
      next
        fix ta t af fo
        assume t: "pid_find env (tkey s) (c_pid c) (threads p) = Inr (Some ta)" "ta \<in> mem (threads p)"
          "thrs s ta = Some t" "active_fiber t = Some af" "act s ta = Some af" "af \<in> mem (fibers p)"
          "fibs s af = Some fo" "running fo"
        have "r = 0" "s' = switched env c ta af fa s"
          using ioctl_switch_success [OF pa(1,3) proc_locks [OF p] sf fa(2) False t(1,3,4,7,8)] r by auto
        then show ?thesis
          using switched_abs [OF k pa(2,3) t(1-4,6,7) fa(1,2) False] True False run fa(3) pa(4) cur_abs_proc(2) [OF t(1,5,7)]
          by (simp add: spec_switch_def a Let_def)
      qed
    qed
  qed
qed

lemma link_fiber_abs:
  assumes k: "kinv env s" and pa: "pa \<in> mem (list_process s)" "procs s pa = Some p"
    and ok: "index_ok env (fiber_id p)" and fa: "fa \<notin> all_fibers s" "fa < brk s"
    and f: "index f = fiber_id p" "length (regs f) = nregs env" "\<not> running f"
  shows "kabs env (link_fiber env pa fa f p s) = (kabs env s)(p_pid p \<mapsto>
    (abs_proc env s p)\<lparr>next_index := fiber_id p + 1, live := insert (fiber_id p) (live (abs_proc env s p))\<rparr>)"
proof -
  have fap: "fa \<notin> mem (fibers p)" using fa pa linked_linked by blast
  have "kabs env (link_fiber env pa fa f p s) = (kabs env s)(p_pid p \<mapsto> abs_proc env (link_fiber env pa fa f p s)
      (p\<lparr>fiber_id := fiber_id p + 1, fibers := hash_add (hash_long env (fiber_id p)) fa (fibers p)\<rparr>))"
    by (rule abs_local [OF k link_fiber_kinv [OF assms] pa]) (use fa in \<open>auto simp: link_fiber_def fkey_def\<close>)
  then show ?thesis using abs_proc_link_fiber [OF kinv_proc [OF k pa] fap f(1)] by simp
qed

lemma link_thread_abs:
  assumes k: "kinv env s" and pa: "pa \<in> mem (list_process s)" "procs s pa = Some p"
    and new: "\<And>x. x \<in> mem (threads p) \<Longrightarrow> tkey s x \<noteq> Some tid"
    and ok: "index_ok env (fiber_id p)" and fa: "fa \<notin> all_fibers s" "fa < brk s"
    and f: "index f = fiber_id p" "length (regs f) = nregs env" "running f"
  shows "kabs env (link_thread env tid pa fa f p s) = (kabs env s)(p_pid p \<mapsto>
    (abs_proc env s p)\<lparr>next_index := fiber_id p + 1, live := insert (fiber_id p) (live (abs_proc env s p)),
       cur := (cur (abs_proc env s p))(tid \<mapsto> fiber_id p)\<rparr>)"
proof -
  have fap: "fa \<notin> mem (fibers p)" using fa pa linked_linked by blast
  have tap: "brk s \<notin> all_threads s" using linked_below(2) [OF k, of "brk s"] by auto
  then have tap': "brk s \<notin> mem (threads p)" using pa linked_linked by blast
  have "kabs env (link_thread env tid pa fa f p s) = (kabs env s)(p_pid p \<mapsto> abs_proc env (link_thread env tid pa fa f p s)
      (p\<lparr>threads := hash_add (hash_32 env tid) (brk s) (threads p), fiber_id := fiber_id p + 1,
         fibers := hash_add (hash_long env (fiber_id p)) fa (fibers p)\<rparr>))"
    by (rule abs_local [OF k link_thread_kinv [OF assms] pa]) (use fa tap in \<open>auto simp: link_thread_def fkey_def\<close>)
  then show ?thesis using abs_proc_link_thread [OF kinv_proc [OF k pa] fap f(1) tap' new] by simp
qed

lemma abs_proc_same:
  assumes "tkey s' = tkey s" "fkey s' = fkey s" "act s' = act s"
  shows "abs_proc env s' = abs_proc env s"
  by (rule ext) (simp add: abs_proc_def assms cong: sum.case_cong option.case_cong)

lemma act_frames [simp]:
  "act (s\<lparr>bufs_live := n\<rparr>) = act s" "act (s\<lparr>procs := P\<rparr>) = act s" "act (s\<lparr>list_process := l\<rparr>) = act s"
  "act (s\<lparr>brk := b\<rparr>) = act s" "act (s\<lparr>fibs := F\<rparr>) = act s"
  by (simp_all add: act_def fun_eq_iff)

lemma abs_proc_bufs [simp]: "abs_proc env (s\<lparr>bufs_live := n\<rparr>) = abs_proc env s"
  by (rule abs_proc_same) simp_all

lemma abs_bufs [simp]: "kabs env (s\<lparr>bufs_live := n\<rparr>) = kabs env s"
  by (simp add: fun_eq_iff kabs_def search_process_def cong: sum.case_cong option.case_cong)

lemma abs_args [simp]: "kabs env (kzalloc_args b s) = kabs env s" "kabs env (kfree_args b s) = kabs env s"
  by (simp_all add: kzalloc_args_def kfree_args_def)

lemma abs_alloc_fiber:
  assumes k: "kinv env s"
  shows "kabs env (snd (kzalloc_fiber env ok s)) = kabs env s"
  using linked_below(3) [OF k, of "brk s"]
  by (intro abs_unlinked [OF k kzalloc_kinv(1) [OF k]]) (auto simp: kzalloc_fiber_def fkey_def)

lemma abs_create_entry: "kinv env s \<Longrightarrow> kabs env (create_entry env c s) = kabs env s"
  by (simp add: create_entry_def abs_alloc_fiber kzalloc_kinv)

lemma abs_convert_entry: "kinv env s \<Longrightarrow> kabs env (convert_entry env c s) = kabs env s"
  by (simp add: convert_entry_def abs_alloc_fiber)

lemma abs_proc_entry:
  assumes k: "kinv env s" and pa: "pa \<in> mem (list_process s)" "procs s pa = Some p"
  shows "abs_proc env (snd (kzalloc_fiber env ok s)) p = abs_proc env s p"
proof (rule abs_proc_frame [OF kinv_proc [OF k pa]])
  fix fa assume "fa \<in> mem (fibers p)"
  then have "fa \<noteq> brk s" using linked_below(3) [OF k, of fa] pa linked_linked by blast
  then show "fkey (snd (kzalloc_fiber env ok s)) fa = fkey s fa" by (simp add: kzalloc_fiber_def fkey_def)
qed (simp add: kzalloc_fiber_def)

lemma create_refines:
  assumes k: "kinv env s" and ix: "next_index_ok env c s" and r: "ioctl_create env c s = Inr (r, s')"
  shows "(r, kabs env s') = spec_create c (kabs env s)"
proof -
  have args: "ok_args c" using r by (cases "ok_args c") (auto simp: ioctl_create_def case_prod_beta)
  note e = create_entry_kinv [OF k, of c]
  show ?thesis
    using k args
  proof (cases rule: ioctl_create_cases)
    case refused
    then show ?thesis using r by (auto simp: spec_create_def abs_absent abs_create_entry k split: option.splits)
  next
    case (unknown pa p)
    then show ?thesis
      using r abs_found [OF unknown(2,3)] by (auto simp: spec_create_def cur_abs_proc abs_create_entry k)
  next
    case no_memory
    with r show ?thesis by simp
  next
    case (success u pa p ta)
    let ?f = "init_created env c s u (fiber_id p) (zero_fiber env)"
    have ok: "index_ok env (fiber_id p)" using ix success by (auto simp: next_index_ok_def)
    have "brk s \<notin> all_fibers (create_entry env c s)"
      using linked_below(3) [OF k, of "brk s"] by (auto simp: all_fibers_def)
    then have "kabs env (link_fiber env pa (brk s) ?f p (create_entry env c s)) =
        (kabs env (create_entry env c s))(p_pid p \<mapsto> (abs_proc env (create_entry env c s) p)\<lparr>next_index := fiber_id p + 1,
           live := insert (fiber_id p) (live (abs_proc env (create_entry env c s) p))\<rparr>)"
      by (intro link_fiber_abs [OF e _ _ ok]) (use success create_entry_fiber kinv_uregs [OF k] in simp_all)
    moreover have "abs_proc env (create_entry env c s) p = abs_proc env s p"
    proof -
      have "abs_proc env (create_entry env c s) p = abs_proc env (kzalloc_args (ok_args c) s) p"
        unfolding create_entry_def
        by (rule abs_proc_entry [OF kzalloc_kinv(4) [OF k]]) (use success in simp_all)
      then show ?thesis by (simp add: kzalloc_args_def)
    qed
    ultimately have a: "kabs env s' = (kabs env s)(p_pid p \<mapsto> (abs_proc env s p)\<lparr>next_index := fiber_id p + 1,
           live := insert (fiber_id p) (live (abs_proc env s p))\<rparr>)" and r: "r = fiber_id p"
      using success(1) r abs_create_entry [OF k] by auto
    have "p_pid p = c_tgid c"
      using success(4,5) search_process_member [OF k success(5,6)] pidx.find_Some_iff [OF kinv_list [OF k] TrueI, of "c_tgid c" pa] success(6)
      by (simp add: search_process_find pkey_def)
    moreover obtain i where "cur (abs_proc env s p) (c_pid c) = Some i"
    proof -
      obtain t fa f where "thrs s ta = Some t" "active_fiber t = Some fa" "fibs s fa = Some f"
        using proc_live_thread [OF kinv_proc [OF k success(5,6)] success(8)] by blast
      then show thesis
        using that cur_abs_proc(2) [OF success(7), of fa f] by (simp add: act_def)
    qed
    ultimately show ?thesis
      using a r success(3) abs_found [OF success(4,6)] by (simp add: spec_create_def) (simp add: abs_proc_def)
  qed
qed

lemma exited_abs:
  assumes k: "kinv env s" and pa: "pa \<in> mem (list_process s)" "procs s pa = Some p"
    and ta: "pid_find env (tkey s) j (threads p) = Inr (Some ta)" "ta \<in> mem (threads p)" "act s ta = Some fa"
    and fa: "fa \<in> mem (fibers p)" "fibs s fa = Some f"
  shows "kabs env (unlink_thread pa ta fa p s) = (kabs env s)(p_pid p \<mapsto>
    (abs_proc env s p)\<lparr>live := live (abs_proc env s p) - {index f}, cur := (cur (abs_proc env s p))(j := None)\<rparr>)"
proof -
  note k' = unlink_thread_kinv [OF k pa ta(2,3)]
  have "kabs env (unlink_thread pa ta fa p s) = (kabs env s)(p_pid p \<mapsto> abs_proc env (unlink_thread pa ta fa p s)
      (p\<lparr>threads := hash_del ta (threads p), fibers := hash_del fa (fibers p)\<rparr>))"
    by (rule abs_local [OF k k' pa]) (use ta fa in \<open>auto simp: unlink_thread_def fkey_def\<close>)
  then show ?thesis
    using abs_proc_unlink_thread [OF kinv_proc [OF k pa] ta(1,3) fa] by simp
qed

lemma unlink_process_abs:
  assumes k: "kinv env s" and pa: "pa \<in> mem (list_process s)" "procs s pa = Some p" and none: "mem (threads p) = {}"
  shows "kabs env (unlink_process pa s) = (kabs env s)(p_pid p := None)"
proof (rule abs_eqI [OF unlink_process_kinv [OF assms]])
  let ?s = "unlink_process pa s"
  fix qa q assume "qa \<in> mem (list_process ?s)" "procs ?s qa = Some q"
  then have q: "qa \<in> mem (list_process s)" "procs s qa = Some q" "qa \<noteq> pa"
    by (auto simp: unlink_process_def split: if_splits)
  then have "p_pid q \<noteq> p_pid p"
    using search_process_member [OF k q(1,2)] search_process_member [OF k pa] by auto
  moreover have "abs_proc env ?s q = abs_proc env s q"
    by (rule fun_cong [OF abs_proc_same]) (simp_all add: unlink_process_def)
  ultimately show "((kabs env s)(p_pid p := None)) (p_pid q) = Some (abs_proc env ?s q)"
    using abs_member [OF k q(1,2)] by simp
next
  let ?s = "unlink_process pa s"
  fix tg assume n: "\<And>qa q. qa \<in> mem (list_process ?s) \<Longrightarrow> procs ?s qa = Some q \<Longrightarrow> p_pid q \<noteq> tg"
  show "((kabs env s)(p_pid p := None)) tg = None"
  proof (cases "tg = p_pid p")
    case False
    show ?thesis
    proof (rule search_process_cases [OF k, of tg])
      fix qa q assume q: "qa \<in> mem (list_process s)" "procs s qa = Some q" "p_pid q = tg"
      then have "qa \<noteq> pa" using pa False by auto
      with q n [of qa q] show ?thesis by (simp add: unlink_process_def)
    qed (simp add: abs_absent)
  qed simp
qed

lemma idle_iff_count:
  assumes k: "kinv env s"
  shows "spec_idle (kabs env s) \<longleftrightarrow> count_threads s = 0"
proof -
  have "spec_idle (kabs env s) \<longleftrightarrow> (\<forall>pa p. pa \<in> mem (list_process s) \<longrightarrow> procs s pa = Some p \<longrightarrow> mem (threads p) = {})"
  proof
    assume i: "spec_idle (kabs env s)"
    show "\<forall>pa p. pa \<in> mem (list_process s) \<longrightarrow> procs s pa = Some p \<longrightarrow> mem (threads p) = {}"
    proof (intro allI impI)
      fix pa p assume pa: "pa \<in> mem (list_process s)" "procs s pa = Some p"
      then have "abs_proc env s p \<in> ran (kabs env s)" using abs_member [OF k] by (auto simp: ran_def)
      then show "mem (threads p) = {}" using i cur_empty_iff [OF kinv_proc [OF k pa]] by (simp add: spec_idle_def)
    qed
  next
    assume a: "\<forall>pa p. pa \<in> mem (list_process s) \<longrightarrow> procs s pa = Some p \<longrightarrow> mem (threads p) = {}"
    have "cur q = Map.empty" if "kabs env s tg = Some q" for tg q
    proof (rule search_process_cases [OF k, of tg])
      fix pa p assume "search_process env tg s = Inr (Some pa)" "pa \<in> mem (list_process s)" "procs s pa = Some p"
        "proc_inv env s p"
      then show ?thesis using a that cur_empty_iff abs_found by (metis option.inject)
    qed (use that in \<open>simp add: abs_absent\<close>)
    then show "spec_idle (kabs env s)" by (auto simp: spec_idle_def ran_def)
  qed
  also have "\<dots> \<longleftrightarrow> all_threads s = {}" by (auto simp: all_threads_def)
  also have "\<dots> \<longleftrightarrow> count_threads s = 0"
    using kinv_count [OF k] finite_all_threads [OF k] by simp
  finally show ?thesis .
qed

lemma member_pid: "kinv env s \<Longrightarrow> search_process env tg s = Inr (Some pa) \<Longrightarrow> procs s pa = Some p \<Longrightarrow> p_pid p = tg"
  using pidx.find_Some_iff [OF kinv_list TrueI, of env s tg pa] by (simp add: search_process_find pkey_def)

lemma exit_refines:
  assumes k: "kinv env s" and r: "Pre_Handler env c s = Inr (r, s')"
  shows "kabs env s' = spec_exit c (kabs env s)"
proof (rule search_process_cases [OF k, of "c_tgid c"])
  assume "search_process env (c_tgid c) s = Inr None"
  then show ?thesis using r by (auto simp: Pre_Handler_def spec_exit_def abs_absent)
next
  fix pa p assume pa: "search_process env (c_tgid c) s = Inr (Some pa)" "pa \<in> mem (list_process s)"
    "procs s pa = Some p" "p_pid p = c_tgid c" and p: "proc_inv env s p"
  show ?thesis
  proof (rule thread_find_cases [OF p, of "c_pid c"])
    assume n: "pid_find env (tkey s) (c_pid c) (threads p) = Inr None"
    then have "s' = s" using r pa proc_locks(2) [OF p] by (simp add: Pre_Handler_def search_thread_find)
    then show ?thesis by (simp add: spec_exit_def abs_found [OF pa(1,3)] cur_abs_proc(1) [OF n])
  next
    fix ta t fa f
    assume t: "pid_find env (tkey s) (c_pid c) (threads p) = Inr (Some ta)" "ta \<in> mem (threads p)"
      "thrs s ta = Some t" "active_fiber t = Some fa" "act s ta = Some fa" "fa \<in> mem (fibers p)" "fibs s fa = Some f"
    let ?u = "unlink_thread pa ta fa p s"
    have s': "s' = exited pa ta fa p s"
      using r Pre_Handler_success [OF pa(1,3) proc_locks(2) [OF p] t(1,3,4,7)] by simp
    have ku: "kinv env ?u" by (rule unlink_thread_kinv [OF k pa(2,3) t(2,5)])
    note au = exited_abs [OF k pa(2,3) t(1,2,5-7), unfolded pa(4)]
    have cnt: "count_threads ?u = 0 \<longleftrightarrow> count_threads s = 1" by (simp add: unlink_thread_def)
    have m: "pa \<in> mem (list_process ?u)" and
      q: "procs ?u pa = Some (p\<lparr>threads := hash_del ta (threads p), fibers := hash_del fa (fibers p)\<rparr>)"
      using pa by (simp_all add: unlink_thread_def)
    have "kabs env s' = (if spec_idle (kabs env ?u) then (kabs env ?u)(c_tgid c := None) else kabs env ?u)"
      using unlink_process_abs [OF ku m q count_zero_no_threads [OF ku _ m q]] idle_iff_count [OF ku] cnt pa(4)
      by (simp add: s' exited_def Let_def)
    then show ?thesis
      by (simp add: spec_exit_def abs_found [OF pa(1,3)] cur_abs_proc(2) [OF t(1,5,7)] Let_def au)
  qed
qed

section \<open>Refinement of CONVERTTOFIBER\<close>

lemma link_process_abs:
  assumes k: "kinv env s" and new: "\<And>a. a \<in> mem (list_process s) \<Longrightarrow> pkey s a \<noteq> Some tg"
  shows "kabs env (link_process env tg s) = (kabs env s)(tg \<mapsto> no_fibers)"
    and "abs_proc env (link_process env tg s) (fresh_process tg) = no_fibers"
proof -
  let ?s = "link_process env tg s"
  note k' = link_process_kinv [OF k new]
  have keys: "tkey ?s = tkey s" "fkey ?s = fkey s" "act ?s = act s" by (simp_all add: link_process_def)
  show fresh: "abs_proc env ?s (fresh_process tg) = no_fibers"
    by (simp add: abs_proc_def fresh_process_def no_fibers_def pid_find_def hash_init_def fun_eq_iff)
      (simp add: mem_def)
  show "kabs env ?s = (kabs env s)(tg \<mapsto> no_fibers)"
  proof (rule abs_eqI [OF k'])
    fix qa q assume q: "qa \<in> mem (list_process ?s)" "procs ?s qa = Some q"
    show "((kabs env s)(tg \<mapsto> no_fibers)) (p_pid q) = Some (abs_proc env ?s q)"
    proof (cases "qa = brk s")
      case True
      then have "q = fresh_process tg" using q by (simp add: link_process_def)
      then show ?thesis using fresh by (simp add: fresh_process_def)
    next
      case False
      with q have q0: "qa \<in> mem (list_process s)" "procs s qa = Some q" by (simp_all add: link_process_def)
      then have "p_pid q \<noteq> tg" using new [of qa] by (simp add: pkey_def)
      then show ?thesis using abs_member [OF k q0] fun_cong [OF abs_proc_same [OF keys]] by simp
    qed
  next
    fix t assume n: "\<And>qa q. qa \<in> mem (list_process ?s) \<Longrightarrow> procs ?s qa = Some q \<Longrightarrow> p_pid q \<noteq> t"
    have "t \<noteq> tg" using n [of "brk s" "fresh_process tg"] by (simp add: link_process_def fresh_process_def)
    moreover have "kabs env s t = None"
    proof (rule search_process_cases [OF k, of t])
      fix qa q assume q: "qa \<in> mem (list_process s)" "procs s qa = Some q" "p_pid q = t"
      then have "qa \<noteq> brk s" using linked_below(1) [OF k, of qa] by auto
      with q n [of qa q] show ?thesis by (simp add: link_process_def)
    qed (simp add: abs_absent)
    ultimately show "((kabs env s)(tg \<mapsto> no_fibers)) t = None" by simp
  qed
qed

lemma convert_thread_refines:
  assumes k: "kinv env s" and pa: "pa \<in> mem (list_process s)" "procs s pa = Some p" "p_pid p = c_tgid c"
    and fiber: "fiber = (if okf then Some fa else None)" "fibs s fa = Some f0 \<or> \<not> okf"
    and fa: "fa \<notin> all_fibers s" "fa < brk s \<or> \<not> okf" and ok: "index_ok env (fiber_id p)"
    and r: "convert_thread env c fiber pa s = Inr (r, s')"
  shows "(r, kabs env s') = spec_register c (abs_proc env s p) (kabs env s)"
  using k pa(1,2) fiber
proof (cases rule: convert_thread_cases [where c = c])
  case (present ta)
  have p: "proc_inv env s p" by (rule kinv_proc [OF k pa(1,2)])
  obtain i where "cur (abs_proc env s p) (c_pid c) = Some i"
    by (rule thread_find_cases [OF p, of "c_pid c"]) (use present(2) cur_abs_proc(2) in \<open>auto simp: act_def\<close>)
  then show ?thesis using present r by (simp add: spec_register_def)
next
  case no_thread
  then show ?thesis
    using r abs_member [OF k pa(1,2)] pa(3) by (simp add: spec_register_def cur_abs_proc(1) fun_upd_idem)
next
  case no_fiber
  with r show ?thesis by simp
next
  case success
  have "kabs env s' = (kabs env s)(p_pid p \<mapsto>
    (abs_proc env s p)\<lparr>next_index := fiber_id p + 1, live := insert (fiber_id p) (live (abs_proc env s p)),
       cur := (cur (abs_proc env s p))(c_pid c \<mapsto> fiber_id p)\<rparr>)" "r = fiber_id p"
    using link_thread_abs [OF k pa(1,2) success(5) ok fa(1)] fa success r kinv_uregs [OF k] by simp_all
  moreover have "next_index (abs_proc env s p) = fiber_id p" by (simp add: abs_proc_def)
  ultimately show ?thesis
    using success(2,4) pa(3) by (simp add: spec_register_def cur_abs_proc(1))
qed

lemma convert_refines:
  assumes k: "kinv env s" and ix: "next_index_ok env c s" and r: "ioctl_convert env c s = Inr (r, s')"
  shows "(r, kabs env s') = spec_convert c (kabs env s)"
proof (rule search_process_cases [OF k, of "c_tgid c"])
  let ?e = "convert_entry env c s"
  note e = convert_entry_kinv [OF k, of c]
  have below: "brk s \<notin> all_fibers s" using linked_below(3) [OF k, of "brk s"] by auto
  {
    fix pa p assume pa: "search_process env (c_tgid c) s = Inr (Some pa)" "pa \<in> mem (list_process s)"
      "procs s pa = Some p" "p_pid p = c_tgid c"
    have "(r, kabs env s') = spec_register c (abs_proc env ?e p) (kabs env ?e)"
    proof (rule convert_thread_refines [OF e _ _ pa(4) refl])
      show "convert_thread env c (if ok_fiber c then Some (brk s) else None) pa ?e = Inr (r, s')"
        using r pa by (simp add: ioctl_convert_eq Let_def)
    qed (use pa ix below convert_entry_fiber in \<open>auto simp: next_index_ok_def\<close>)
    moreover have "abs_proc env ?e p = abs_proc env s p"
      unfolding convert_entry_def by (rule abs_proc_entry [OF k pa(2,3)])
    ultimately show ?thesis
      by (simp add: spec_convert_def abs_found [OF pa(1,3)] abs_convert_entry [OF k])
  }
  assume n: "search_process env (c_tgid c) s = Inr None" "\<And>a. a \<in> mem (list_process s) \<Longrightarrow> pkey s a \<noteq> Some (c_tgid c)"
  show ?thesis
  proof (cases "ok_process c")
    case False
    then show ?thesis using r n(1) by (auto simp: ioctl_convert_eq Let_def spec_convert_def abs_absent abs_convert_entry k)
  next
    case True
    let ?l = "link_process env (c_tgid c) ?e"
    have n': "\<And>a. a \<in> mem (list_process ?e) \<Longrightarrow> pkey ?e a \<noteq> Some (c_tgid c)" using n by simp
    note l = link_process_kinv [OF e n'] and la = link_process_abs [OF e n']
    have fa: "all_fibers ?l = all_fibers s"
      using linked_below(1) [OF e, of "brk ?e"] by (subst all_fibers_link_process) auto
    have "(r, kabs env s') = spec_register c (abs_proc env ?l (fresh_process (c_tgid c))) (kabs env ?l)"
    proof (rule convert_thread_refines [OF l _ _ _ refl])
      show "procs ?l (brk ?e) = Some (fresh_process (c_tgid c))" by (simp add: link_process_def)
      show "brk s \<notin> all_fibers ?l" using below fa by simp
      show "convert_thread env c (if ok_fiber c then Some (brk s) else None) (brk ?e) ?l = Inr (r, s')"
        using r n True by (simp add: ioctl_convert_eq Let_def)
    qed (use ix convert_entry_fiber in \<open>auto simp: link_process_def fresh_process_def next_index_ok_def\<close>)
    then show ?thesis
      using True la abs_absent [OF n(1)]
      by (simp add: spec_convert_def abs_convert_entry [OF k] spec_register_def no_fibers_def)
  qed
qed

end
