(* ===== verification/Fiber_Runs.thy ===== *)
theory Fiber_Runs
  imports Fiber_Spec
begin

text \<open>
  Runs of the module: the simulation of \<open>Fiber_Spec\<close> carried over whole sequences of events, and
  the isolation of processes from each other.
\<close>

section \<open>Whole runs\<close>

fun spec_event :: "event \<Rightarrow> (pid_t \<Rightarrow> fproc option) \<Rightarrow> (pid_t \<Rightarrow> fproc option)" where
  "spec_event (Ioctl CONVERTTOFIBER c) m = snd (spec_convert c m)"
| "spec_event (Ioctl CREATEFIBER c) m = snd (spec_create c m)"
| "spec_event (Ioctl SWITCHTOFIBER c) m = snd (spec_switch c m)"
| "spec_event (DoExit c) m = spec_exit c m"
| "spec_event _ m = m"

text \<open>The FLS commands change one fiber, and neither its index nor its flag.\<close>

lemma with_active_abs:
  assumes k: "kinv env s" and r: "with_active env c s np nt body = Inr (r, s')"
    and "np s = Inr (r, s') \<Longrightarrow> kabs env s' = kabs env s" "nt s = Inr (r, s') \<Longrightarrow> kabs env s' = kabs env s"
    and body: "\<And>fa f. body fa f s = Inr (r, s') \<Longrightarrow>
      (\<And>f'. index f' = index f \<Longrightarrow> running f' = running f \<Longrightarrow> length (regs f') = length (regs f) \<Longrightarrow>
          kabs env (s\<lparr>fibs := (fibs s)(fa \<mapsto> f')\<rparr>) = kabs env s) \<Longrightarrow> fibs s fa = Some f \<Longrightarrow> kabs env s' = kabs env s"
  shows "kabs env s' = kabs env s"
proof (rule with_active_cases [OF k, of c np nt body])
  fix pa p ta t fa f
  assume "with_active env c s np nt body = body fa f s"
    and a: "pa \<in> mem (list_process s)" "procs s pa = Some p" "fa \<in> mem (fibers p)" "fibs s fa = Some f"
  then have "body fa f s = Inr (r, s')" using r by simp
  then show ?thesis by (rule body [OF _ fibs_same_abs [OF k a] a(4)])
qed (use assms in simp_all)

lemma fls_alloc_abs: "kinv env s \<Longrightarrow> ioctl_fls_alloc env c s = Inr (r, s') \<Longrightarrow> kabs env s' = kabs env s"
  unfolding ioctl_fls_alloc_def
  by (erule with_active_abs, assumption) (auto simp: kbind_Inr_iff dest: fls_slot_keeps)

lemma fls_free_abs: "kinv env s \<Longrightarrow> ioctl_fls_free env c s = Inr (r, s') \<Longrightarrow> kabs env s' = kabs env s"
  unfolding ioctl_fls_free_def
  by (erule with_active_abs, assumption) (auto simp: kbind_Inr_iff dest: fls_slot_keeps)

lemma fls_get_abs:
  assumes k: "kinv env s" and r: "ioctl_fls_get env c s = Inr (r, s')"
  shows "kabs env s' = kabs env s"
proof (cases "ok_args c \<and> user_fls c \<noteq> None")
  case True
  then obtain u where u: "ok_args c" "user_fls c = Some u" by auto
  have "kabs env s' = kabs env (kzalloc_args True s)"
    by (rule with_active_abs [OF kzalloc_kinv(4) [OF k] r [unfolded ioctl_fls_get_def Let_def u, simplified u, simplified]])
      (auto simp: kbind_Inr_iff split: option.splits if_splits)
  then show ?thesis by simp
qed (use r in \<open>auto simp: ioctl_fls_get_def split: if_splits\<close>)

lemma fls_set_abs:
  assumes k: "kinv env s" and r: "ioctl_fls_set env c s = Inr (r, s')"
  shows "kabs env s' = kabs env s"
proof (cases "ok_args c \<and> user_fls c \<noteq> None")
  case True
  then obtain u where u: "ok_args c" "user_fls c = Some u" by auto
  have "kabs env s' = kabs env (kzalloc_args True s)"
    by (rule with_active_abs [OF kzalloc_kinv(4) [OF k] r [unfolded ioctl_fls_set_def Let_def u, simplified u, simplified]])
      (auto simp: kbind_Inr_iff dest: fls_slot_keeps)
  then show ?thesis by simp
qed (use r in \<open>auto simp: ioctl_fls_set_def split: if_splits\<close>)

lemma with_task_abs:
  assumes k: "kinv env s" and r: "with_task env task s (\<lambda>fa. modify_fib fa g) = Inr s'"
    and g: "\<And>f. index (g f) = index f \<and> running (g f) = running f \<and> regs (g f) = regs f"
  shows "kabs env s' = kabs env s \<and> kinv env s'"
proof (rule search_process_cases [OF k, of "fst task"])
  assume "search_process env (fst task) s = Inr None"
  then show ?thesis using k r by (simp add: with_task_def)
next
  fix pa p assume pa: "search_process env (fst task) s = Inr (Some pa)" "pa \<in> mem (list_process s)"
    "procs s pa = Some p" and p: "proc_inv env s p"
  note st = search_thread_find [OF pa(3) proc_locks(2) [OF p], of env "snd task"]
  show ?thesis
  proof (rule thread_find_cases [OF p, of "snd task"])
    assume "pid_find env (tkey s) (snd task) (threads p) = Inr None"
    then show ?thesis using k r by (simp add: with_task_def pa st)
  next
    fix ta t fa f
    assume t: "pid_find env (tkey s) (snd task) (threads p) = Inr (Some ta)" "thrs s ta = Some t"
      "active_fiber t = Some fa" "fa \<in> mem (fibers p)" "fibs s fa = Some f"
    have "s' = s\<lparr>fibs := (fibs s)(fa \<mapsto> g f)\<rparr>" using r t by (simp add: with_task_def pa(1) st)
    then show ?thesis
      using g [of f] fibs_same_abs [OF k pa(2,3) t(4,5)] fiber_update_kinv [OF k pa(2,3) t(4,5)] by simp
  qed
qed

lemma switch_handler_abs:
  assumes k: "kinv env s" and r: "switch_handler env cpu task t1 t2 sc s = Inr (sc', s')"
  shows "kabs env s' = kabs env s"
proof -
  from r obtain s1 where s1: "(case sc cpu of None \<Rightarrow> Inr s
      | Some old \<Rightarrow> with_task env old s (\<lambda>fa. modify_fib fa (charge t1))) = Inr s1"
    and s2: "with_task env task s1 (\<lambda>fa. modify_fib fa (\<lambda>f. f\<lparr>starting_time := nanos t2\<rparr>)) = Inr s'"
    by (auto simp: switch_handler_def kbind_Inr_iff)
  have 1: "kabs env s1 = kabs env s \<and> kinv env s1"
    using s1 k with_task_abs [OF k, of _ "charge t1"] by (auto simp: charge_def split: option.splits)
  then show ?thesis using with_task_abs [OF conjunct2 [OF 1] s2] by simp
qed

lemma user_runs_abs: "kabs env (s\<lparr>uregs := u, ufx := x\<rparr>) = kabs env s"
proof -
  have "abs_proc env (s\<lparr>uregs := u, ufx := x\<rparr>) = abs_proc env s"
    by (rule abs_proc_same) (simp_all add: act_def fun_eq_iff)
  then show ?thesis
    by (intro ext) (simp add: kabs_def search_process_def cong: sum.case_cong option.case_cong)
qed

lemma ioctl_refines:
  assumes k: "kinv env s" and ok: "event_ok env s (Ioctl cmd c)" and r: "my_ioctl env cmd c s = Inr (r, s')"
  shows "kabs env s' = spec_event (Ioctl cmd c) (kabs env s)"
proof (cases cmd)
  case CONVERTTOFIBER
  then show ?thesis using ok r convert_refines [OF k] by (auto simp: no_out_def kbind_Inr_iff) (metis snd_conv)
next
  case CREATEFIBER
  then show ?thesis using ok r create_refines [OF k] by (auto simp: no_out_def kbind_Inr_iff) (metis snd_conv)
next
  case SWITCHTOFIBER
  then show ?thesis using ok r switch_refines [OF k] by (auto simp: no_out_def kbind_Inr_iff) (metis snd_conv)
qed (use r in \<open>auto simp: no_out_def kbind_Inr_iff
  dest: fls_alloc_abs [OF k] fls_free_abs [OF k] fls_get_abs [OF k] fls_set_abs [OF k]\<close>)

lemma kstep_abs:
  assumes "kstep env z e z'" "kinv env (snd z)" "event_ok env (snd z) e"
  shows "kabs env (snd z') = spec_event e (kabs env (snd z))"
  using assms
proof (induction rule: kstep.induct)
  case (ioctl cmd c s r s' sc)
  then show ?case using ioctl_refines by simp
next
  case (do_exit c s r s' sc)
  then show ?case using exit_refines by simp
next
  case (resched cpu task t1 t2 sc s sc' s')
  then show ?case using switch_handler_abs by simp
next
  case (user_runs u sc s k x)
  then show ?case by (simp add: user_runs_abs)
qed

inductive krun :: "kenv \<Rightarrow> system \<Rightarrow> event list \<Rightarrow> system \<Rightarrow> bool" for env :: kenv where
  nil: "krun env z [] z"
| cons: "event_ok env (snd z) e \<Longrightarrow> kstep env z e z' \<Longrightarrow> krun env z' es z'' \<Longrightarrow> krun env z (e # es) z''"

inductive_cases krun_ConsE: "krun env z (e # es) z'"

lemma krun_kinv: "krun env z es z' \<Longrightarrow> kinv env (snd z) \<Longrightarrow> kinv env (snd z')"
  by (induction rule: krun.induct) (auto dest: kstep_kinv)

lemma krun_abs: "krun env z es z' \<Longrightarrow> kinv env (snd z) \<Longrightarrow> kabs env (snd z') = fold spec_event es (kabs env (snd z))"
proof (induction rule: krun.induct)
  case (cons z e z' es z'')
  then show ?case using kstep_kinv [OF cons(2,5,1)] kstep_abs [OF cons(2,5,1)] by simp
qed simp

section \<open>Isolation\<close>

fun event_tgid :: "event \<Rightarrow> pid_t option" where
  "event_tgid (Ioctl cmd c) = Some (c_tgid c)"
| "event_tgid (DoExit c) = Some (c_tgid c)"
| "event_tgid _ = None"

lemma spec_event_other:
  assumes "event_tgid e \<noteq> Some tg"
  shows "spec_event e m tg = m tg"
proof (cases e)
  case (Ioctl cmd c)
  with assms show ?thesis
    by (cases cmd) (auto simp: spec_convert_def spec_register_def spec_create_def spec_switch_def Let_def split: option.splits)
next
  case (DoExit c)
  with assms show ?thesis by (auto simp: spec_exit_def Let_def split: option.splits)
qed simp_all

lemma fold_spec_event_other:
  "(\<And>e. e \<in> set es \<Longrightarrow> event_tgid e \<noteq> Some tg) \<Longrightarrow> fold spec_event es m tg = m tg"
  by (induction es arbitrary: m) (simp_all add: spec_event_other)

section \<open>What the invariant says of the abstract state\<close>

lemma kabs_wf:
  assumes k: "kinv env s" and q: "kabs env s tg = Some q"
  shows "i \<in> live q \<Longrightarrow> i < next_index q" and "ran (cur q) \<subseteq> live q" and "inj_on (cur q) (dom (cur q))"
proof -
  obtain pa p where pa: "search_process env tg s = Inr (Some pa)" "pa \<in> mem (list_process s)" "procs s pa = Some p"
    "proc_inv env s p"
    by (rule search_process_cases [OF k, of tg]) (use q in \<open>auto simp: abs_absent\<close>)
  have qp: "q = abs_proc env s p" using q abs_found [OF pa(1,3)] by simp
  have c: "\<exists>ta fa f. ta \<in> mem (threads p) \<and> tkey s ta = Some t \<and> act s ta = Some fa \<and> fa \<in> mem (fibers p) \<and>
      fibs s fa = Some f \<and> index f = j" if "cur q t = Some j" for t j
    by (rule thread_find_cases [OF pa(4), of t])
      (use that in \<open>auto simp: qp abs_proc_def fkey_def tkey_def\<close>)
  show "i < next_index q" if i: "i \<in> live q"
  proof -
    obtain fa f where "fa \<in> mem (fibers p)" "fibs s fa = Some f" "index f = i" using i live_iff by (auto simp: qp)
    then show ?thesis using fiber_invD [OF proc_fiber [OF pa(4)]] by (auto simp: qp abs_proc_def)
  qed
  show "ran (cur q) \<subseteq> live q"
  proof
    fix j assume "j \<in> ran (cur q)"
    then obtain t where "cur q t = Some j" by (auto simp: ran_def)
    from c [OF this] show "j \<in> live q" by (auto simp: qp live_iff)
  qed
  show "inj_on (cur q) (dom (cur q))"
  proof (rule inj_onI)
    fix t u assume "t \<in> dom (cur q)" and e: "cur q t = cur q u"
    then obtain j where j: "cur q t = Some j" "cur q u = Some j" by (metis domD)
    obtain ta fa f tb fb g where a: "ta \<in> mem (threads p)" "tkey s ta = Some t" "act s ta = Some fa" "fa \<in> mem (fibers p)"
      "fibs s fa = Some f" "index f = j" and b: "tb \<in> mem (threads p)" "tkey s tb = Some u" "act s tb = Some fb"
      "fb \<in> mem (fibers p)" "fibs s fb = Some g" "index g = j"
      using c [OF j(1)] c [OF j(2)] by blast
    have "fa = fb" by (rule fkey_inj [OF pa(4) a(4) b(4)]) (simp add: fkey_def a b)
    then have "ta = tb" using inj_onD [OF proc_inj [OF pa(4)], of ta tb] a b by simp
    then show "t = u" using a(2) b(2) by simp
  qed
qed

end
