(* ===== verification/Fiber_Context.thy ===== *)
theory Fiber_Context
  imports Fiber_Runs
begin

text \<open>
  What becomes of a fiber nobody runs: no event but a switch that asks for it changes one word of it
  while its process is registered. With what a switch saves and restores this gives the round trip of
  a context.
\<close>

section \<open>Parked fibers\<close>

text \<open>A fiber of a registered process that no thread runs.\<close>

definition parked :: "kstate \<Rightarrow> addr \<Rightarrow> process_arg \<Rightarrow> addr \<Rightarrow> fiber_arg \<Rightarrow> bool" where
  "parked s pa p fa f \<longleftrightarrow> pa \<in> mem (list_process s) \<and> procs s pa = Some p \<and> fa \<in> mem (fibers p) \<and>
     fibs s fa = Some f \<and> \<not> running f"

text \<open>A step that leaves every parked fiber as it is, unless \<open>E\<close> holds of it or its process leaves
  the list; and that takes new processes from beyond the allocation frontier.\<close>

definition idle_frame :: "(process_arg \<Rightarrow> fiber_arg \<Rightarrow> bool) \<Rightarrow> kstate \<Rightarrow> kstate \<Rightarrow> bool" where
  "idle_frame E s s' \<longleftrightarrow> brk s \<le> brk s' \<and> mem (list_process s') \<subseteq> mem (list_process s) \<union> {brk s..} \<and>
     (\<forall>pa p fa f. parked s pa p fa f \<longrightarrow> \<not> E p f \<longrightarrow> pa \<in> mem (list_process s') \<longrightarrow>
        (\<exists>p'. parked s' pa p' fa f \<and> p_pid p' = p_pid p))"

definition never :: "process_arg \<Rightarrow> fiber_arg \<Rightarrow> bool" where
  "never p f = False"

lemma idle_frameI:
  assumes "brk s \<le> brk s'" "mem (list_process s') \<subseteq> mem (list_process s) \<union> {brk s..}"
    and "\<And>pa p. pa \<in> mem (list_process s) \<Longrightarrow> procs s pa = Some p \<Longrightarrow> pa \<in> mem (list_process s') \<Longrightarrow>
      \<exists>p'. procs s' pa = Some p' \<and> p_pid p' = p_pid p \<and>
        (\<forall>fa\<in>mem (fibers p). (\<exists>f. fibs s fa = Some f \<and> \<not> running f) \<longrightarrow> fa \<in> mem (fibers p'))"
    and "\<And>pa p fa f. pa \<in> mem (list_process s) \<Longrightarrow> procs s pa = Some p \<Longrightarrow> fa \<in> mem (fibers p) \<Longrightarrow> fibs s fa = Some f \<Longrightarrow>
      \<not> running f \<Longrightarrow> \<not> E p f \<Longrightarrow> fibs s' fa = Some f"
  shows "idle_frame E s s'"
  unfolding idle_frame_def parked_def using assms by fastforce

lemma idle_frame_refl: "idle_frame E s s"
  by (auto simp: idle_frame_def)

lemma idle_frame_weaken: "idle_frame never s s' \<Longrightarrow> idle_frame E s s'"
  by (auto simp: idle_frame_def never_def)

text \<open>An update of one running fiber.\<close>

lemma idle_frame_running:
  "fibs s fa = Some f \<Longrightarrow> running f \<Longrightarrow> idle_frame E s (s\<lparr>fibs := (fibs s)(fa \<mapsto> f')\<rparr>)"
  by (rule idle_frameI) auto

lemma idle_frame_bufs [simp]: "idle_frame E s (s'\<lparr>bufs_live := n\<rparr>) = idle_frame E s s'"
  "idle_frame E (s\<lparr>bufs_live := n\<rparr>) s' = idle_frame E s s'"
  by (simp_all add: idle_frame_def parked_def)

lemma idle_frame_args [simp]: "idle_frame E s (kfree_args b s') = idle_frame E s s'"
  "idle_frame E s (kzalloc_args b s') = idle_frame E s s'" "idle_frame E (kzalloc_args b s) s' = idle_frame E s s'"
  by (simp_all add: kfree_args_def kzalloc_args_def)

section \<open>The commands\<close>

lemma member_unique:
  assumes k: "kinv env s" and "pa \<in> mem (list_process s)" "procs s pa = Some p" "fa \<in> mem (fibers p)"
    and "pb \<in> mem (list_process s)" "procs s pb = Some q" "fa \<in> mem (fibers q)"
  shows "pb = pa"
  using kinv_disjoint [OF k assms(2,5) _ assms(3,6)] assms(4,7) by blast

lemma switch_idle_frame:
  assumes k: "kinv env s" and r: "ioctl_switch env c s = Inr (r, s')"
  shows "idle_frame (\<lambda>p f. p_pid p = c_tgid c \<and> index f = int_cut (c_arg c)) s s'"
  using k
proof (cases rule: ioctl_switch_cases [where c = c])
  case refused
  with r show ?thesis by (simp add: idle_frame_refl)
next
  case (busy pa p fa f)
  with r show ?thesis by (auto intro: idle_frame_running)
next
  case (success pa p ta t af fo fa f)
  with r have s': "s' = switched env c ta af fa s" by simp
  have pid: "p_pid p = c_tgid c" by (rule member_pid [OF k success(2,4)])
  show ?thesis
    unfolding s'
  proof (rule idle_frameI)
    fix pb q fb g
    assume q: "pb \<in> mem (list_process s)" "procs s pb = Some q" "fb \<in> mem (fibers q)" "fibs s fb = Some g"
      "\<not> running g" "\<not> (p_pid q = c_tgid c \<and> index g = int_cut (c_arg c))"
    have "fb \<noteq> af" using q success by auto
    moreover have "fb \<noteq> fa"
    proof
      assume "fb = fa"
      then have "pb = pa" using member_unique [OF k success(3,4,13) q(1,2)] q(3) by simp
      with q success pid \<open>fb = fa\<close> show False by (simp add: int_cut_def)
    qed
    ultimately show "fibs (switched env c ta af fa s) fb = Some g" using q by (simp add: switched_def Let_def)
  qed auto
qed

lemma alloc_idle_frame:
  assumes k: "kinv env s"
  shows "idle_frame E s (snd (kzalloc_fiber env ok s))"
proof -
  have ne: "fa \<noteq> brk s" if "fa \<in> all_fibers s" for fa using linked_below(3) [OF k that] by simp
  show ?thesis by (rule idle_frameI) (use ne linked_linked(2) in \<open>auto simp: kzalloc_fiber_def\<close>)
qed

lemma create_entry_frame: "kinv env s \<Longrightarrow> idle_frame E s (create_entry env c s)"
  using alloc_idle_frame [OF kzalloc_kinv(4)] by (simp add: create_entry_def)

lemma create_idle_frame:
  assumes k: "kinv env s" and r: "ioctl_create env c s = Inr (r, s')"
  shows "idle_frame E s s'"
proof -
  have args: "ok_args c" using r by (cases "ok_args c") (auto simp: ioctl_create_def case_prod_beta)
  show ?thesis
    using k args
  proof (cases rule: ioctl_create_cases)
    case (success u pa p ta)
    have ne: "fa \<noteq> brk s" if "fa \<in> all_fibers s" for fa using linked_below(3) [OF k that] by simp
    have f: "fibs (create_entry env c s) = (fibs s)(brk s \<mapsto> zero_fiber env)" "brk (create_entry env c s) = Suc (brk s)"
      using create_entry_fiber success(2) by auto
    have "idle_frame E s (link_fiber env pa (brk s) (init_created env c s u (fiber_id p) (zero_fiber env)) p (create_entry env c s))"
      by (rule idle_frameI) (use success(5,6) ne linked_linked(2) in \<open>auto simp: link_fiber_def f\<close>)
    then show ?thesis using success(1) r by auto
  qed (use k r create_entry_frame in auto)
qed

lemma convert_thread_idle_frame:
  assumes k: "kinv env s" and pa: "pa \<in> mem (list_process s)" "procs s pa = Some p"
    and fiber: "fiber = (if okf then Some fa else None)" "fibs s fa = Some f0 \<or> \<not> okf"
    and fa: "fa \<notin> all_fibers s" and r: "convert_thread env c fiber pa s = Inr (r, s')"
  shows "idle_frame E s s'"
  using k pa fiber
proof (cases rule: convert_thread_cases [where c = c])
  case success
  have "idle_frame E s (link_thread env (c_pid c) pa fa (init_converted env c s (fiber_id p) f0) p s)"
    by (rule idle_frameI) (use pa fa linked_linked(2) in \<open>auto simp: link_thread_def\<close>)
  with success r show ?thesis by simp
qed (use r in \<open>simp_all add: idle_frame_refl\<close>)

lemma idle_frame_trans:
  assumes "idle_frame never s s'" "idle_frame never s' s''" "mem (list_process s) \<subseteq> mem (list_process s')"
  shows "idle_frame never s s''"
  unfolding idle_frame_def
proof (intro conjI allI impI)
  show "brk s \<le> brk s''" "mem (list_process s'') \<subseteq> mem (list_process s) \<union> {brk s..}"
    using assms by (auto simp: idle_frame_def)
  fix pa p fa f assume p: "parked s pa p fa f" "pa \<in> mem (list_process s'')"
  then have "pa \<in> mem (list_process s')" using assms(3) by (auto simp: parked_def)
  then obtain p' where "parked s' pa p' fa f" "p_pid p' = p_pid p"
    using assms(1) p(1) unfolding idle_frame_def never_def by blast
  moreover from this obtain p'' where "parked s'' pa p'' fa f" "p_pid p'' = p_pid p'"
    using assms(2) p(2) unfolding idle_frame_def never_def by blast
  ultimately show "\<exists>p'. parked s'' pa p' fa f \<and> p_pid p' = p_pid p" by auto
qed

lemma link_process_frame:
  assumes k: "kinv env s"
  shows "idle_frame E s (link_process env tg s)"
proof -
  have ne: "pa \<noteq> brk s" if "pa \<in> mem (list_process s)" for pa using linked_below(1) [OF k that] by simp
  show ?thesis by (rule idle_frameI) (use ne in \<open>auto simp: link_process_def\<close>)
qed

lemma convert_idle_frame:
  assumes k: "kinv env s" and r: "ioctl_convert env c s = Inr (r, s')"
  shows "idle_frame E s s'"
proof (rule idle_frame_weaken)
  let ?e = "convert_entry env c s"
  let ?fiber = "if ok_fiber c then Some (brk s) else None"
  note e = convert_entry_kinv [OF k, of c]
  have ef: "idle_frame never s ?e" using alloc_idle_frame [OF k] by (simp add: convert_entry_def)
  have below: "brk s \<notin> all_fibers s" using linked_below(3) [OF k, of "brk s"] by auto
  show "idle_frame never s s'"
  proof (rule search_process_cases [OF k, of "c_tgid c"])
    fix pa p assume pa: "search_process env (c_tgid c) s = Inr (Some pa)" "pa \<in> mem (list_process s)" "procs s pa = Some p"
    have "idle_frame never ?e s'"
    proof (rule convert_thread_idle_frame [OF e _ _ refl])
      show "convert_thread env c ?fiber pa ?e = Inr (r, s')" using r pa by (simp add: ioctl_convert_eq Let_def)
    qed (use pa below convert_entry_fiber in auto)
    then show ?thesis by (rule idle_frame_trans [OF ef]) simp
  next
    assume n: "search_process env (c_tgid c) s = Inr None" "\<And>a. a \<in> mem (list_process s) \<Longrightarrow> pkey s a \<noteq> Some (c_tgid c)"
    show ?thesis
    proof (cases "ok_process c")
      case False
      then show ?thesis using r n(1) ef by (auto simp: ioctl_convert_eq Let_def)
    next
      case True
      let ?l = "link_process env (c_tgid c) ?e"
      have l: "kinv env ?l" by (rule link_process_kinv [OF e]) (use n in simp)
      have fa: "all_fibers ?l = all_fibers s"
        using linked_below(1) [OF e, of "brk ?e"] by (subst all_fibers_link_process) auto
      have "idle_frame never ?l s'"
      proof (rule convert_thread_idle_frame [OF l _ _ refl])
        show "procs ?l (brk ?e) = Some (fresh_process (c_tgid c))" by (simp add: link_process_def)
        show "convert_thread env c ?fiber (brk ?e) ?l = Inr (r, s')"
          using r n True by (simp add: ioctl_convert_eq Let_def)
      qed (use below fa convert_entry_fiber in \<open>auto simp: link_process_def\<close>)
      moreover have "idle_frame never s ?l"
        by (rule idle_frame_trans [OF ef link_process_frame [OF e]]) simp
      moreover have "mem (list_process s) \<subseteq> mem (list_process ?l)" by (auto simp: link_process_def)
      ultimately show ?thesis using idle_frame_trans by blast
    qed
  qed
qed

lemma exit_idle_frame:
  assumes k: "kinv env s" and r: "Pre_Handler env c s = Inr (r, s')"
  shows "idle_frame E s s'"
  using k
proof (cases rule: Pre_Handler_cases [where c = c])
  case foreign
  with r show ?thesis by (simp add: idle_frame_refl)
next
  case (registered pa p ta t fa f)
  have s': "s' = exited pa ta fa p s" using registered r by simp
  have run: "running f"
    using fiber_invD [OF proc_fiber [OF kinv_proc [OF k registered(3,4)] registered(10)] registered(11)] registered(6,9) by blast
  show ?thesis
    unfolding s' exited_def Let_def
    by (rule idle_frameI)
      (use registered run in \<open>auto simp: unlink_thread_def unlink_process_def split: if_splits\<close>)
qed

text \<open>The FLS commands and the accounting write to a fiber that is running.\<close>

lemma with_active_frame:
  assumes k: "kinv env s" and r: "with_active env c s np nt body = Inr (r, s')"
    and "np s = Inr (r, s') \<Longrightarrow> idle_frame E s s'" "nt s = Inr (r, s') \<Longrightarrow> idle_frame E s s'"
    and body: "\<And>fa f. body fa f s = Inr (r, s') \<Longrightarrow> fibs s fa = Some f \<Longrightarrow>
      (\<And>f'. idle_frame E s (s\<lparr>fibs := (fibs s)(fa \<mapsto> f')\<rparr>)) \<Longrightarrow> idle_frame E s s'"
  shows "idle_frame E s s'"
proof (rule with_active_cases [OF k, of c np nt body])
  fix pa p ta t fa f
  assume a: "with_active env c s np nt body = body fa f s" "pa \<in> mem (list_process s)" "procs s pa = Some p"
    "ta \<in> mem (threads p)" "thrs s ta = Some t" "active_fiber t = Some fa" "fa \<in> mem (fibers p)" "fibs s fa = Some f"
  then have b: "body fa f s = Inr (r, s')" using r by simp
  have "act s ta = Some fa" using a(5,6) by (simp add: act_def)
  then have "running f"
    using fiber_invD [OF proc_fiber [OF kinv_proc [OF k a(2,3)] a(7)] a(8)] a(4) by blast
  then show ?thesis by (intro body [OF b a(8)] idle_frame_running [OF a(8)])
qed (use assms in simp_all)

lemma fls_alloc_idle_frame: "kinv env s \<Longrightarrow> ioctl_fls_alloc env c s = Inr (r, s') \<Longrightarrow> idle_frame E s s'"
  unfolding ioctl_fls_alloc_def by (erule with_active_frame, assumption) (auto simp: kbind_Inr_iff idle_frame_refl)

lemma fls_free_idle_frame: "kinv env s \<Longrightarrow> ioctl_fls_free env c s = Inr (r, s') \<Longrightarrow> idle_frame E s s'"
  unfolding ioctl_fls_free_def by (erule with_active_frame, assumption) (auto simp: kbind_Inr_iff idle_frame_refl)

lemma fls_get_idle_frame:
  assumes k: "kinv env s" and r: "ioctl_fls_get env c s = Inr (r, s')"
  shows "idle_frame E s s'"
proof (cases "ok_args c \<and> user_fls c \<noteq> None")
  case True
  then obtain u where u: "ok_args c" "user_fls c = Some u" by auto
  have "idle_frame E (kzalloc_args True s) s'"
    by (rule with_active_frame [OF kzalloc_kinv(4) [OF k] r [unfolded ioctl_fls_get_def Let_def u, simplified u, simplified]])
      (auto simp: kbind_Inr_iff idle_frame_refl split: option.splits if_splits)
  then show ?thesis by simp
qed (use r in \<open>auto simp: ioctl_fls_get_def idle_frame_refl split: if_splits\<close>)

lemma fls_set_idle_frame:
  assumes k: "kinv env s" and r: "ioctl_fls_set env c s = Inr (r, s')"
  shows "idle_frame E s s'"
proof (cases "ok_args c \<and> user_fls c \<noteq> None")
  case True
  then obtain u where u: "ok_args c" "user_fls c = Some u" by auto
  have "idle_frame E (kzalloc_args True s) s'"
    by (rule with_active_frame [OF kzalloc_kinv(4) [OF k] r [unfolded ioctl_fls_set_def Let_def u, simplified u, simplified]])
      (auto simp: kbind_Inr_iff idle_frame_refl)
  then show ?thesis by simp
qed (use r in \<open>auto simp: ioctl_fls_set_def idle_frame_refl split: if_splits\<close>)

lemma with_task_frame:
  assumes k: "kinv env s" and r: "with_task env task s (\<lambda>fa. modify_fib fa g) = Inr s'"
  shows "idle_frame E s s' \<and> list_process s' = list_process s"
proof (rule search_process_cases [OF k, of "fst task"])
  assume "search_process env (fst task) s = Inr None"
  then show ?thesis using r by (simp add: with_task_def idle_frame_refl)
next
  fix pa p assume pa: "search_process env (fst task) s = Inr (Some pa)" "pa \<in> mem (list_process s)"
    "procs s pa = Some p" and p: "proc_inv env s p"
  note st = search_thread_find [OF pa(3) proc_locks(2) [OF p], of env "snd task"]
  show ?thesis
  proof (rule thread_find_cases [OF p, of "snd task"])
    assume "pid_find env (tkey s) (snd task) (threads p) = Inr None"
    then show ?thesis using r by (simp add: with_task_def pa st idle_frame_refl)
  next
    fix ta t fa f
    assume t: "pid_find env (tkey s) (snd task) (threads p) = Inr (Some ta)" "thrs s ta = Some t"
      "active_fiber t = Some fa" "fibs s fa = Some f" "running f"
    have "s' = s\<lparr>fibs := (fibs s)(fa \<mapsto> g f)\<rparr>" using r t by (simp add: with_task_def pa(1) st)
    then show ?thesis using idle_frame_running [OF t(4,5)] by simp
  qed
qed

lemma resched_idle_frame:
  assumes k: "kinv env s" and r: "switch_handler env cpu task t1 t2 sc s = Inr (sc', s')"
  shows "idle_frame E s s'"
proof (rule idle_frame_weaken)
  from r obtain s1 where s1: "(case sc cpu of None \<Rightarrow> Inr s
      | Some old \<Rightarrow> with_task env old s (\<lambda>fa. modify_fib fa (charge t1))) = Inr s1"
    and s2: "with_task env task s1 (\<lambda>fa. modify_fib fa (\<lambda>f. f\<lparr>starting_time := nanos t2\<rparr>)) = Inr s'"
    by (auto simp: switch_handler_def kbind_Inr_iff)
  have 1: "kinv env s1 \<and> idle_frame never s s1 \<and> list_process s1 = list_process s"
    using s1 k with_task_abs [OF k, of _ "charge t1"] with_task_frame [OF k]
    by (auto simp: charge_def idle_frame_refl split: option.splits)
  then have "idle_frame never s1 s'" using with_task_frame [OF _ s2] by blast
  then show "idle_frame never s s'" using 1 idle_frame_trans [of s s1 s'] by simp
qed

section \<open>Steps and runs\<close>

text \<open>The events that ask for fiber \<open>i\<close> of process \<open>tg\<close>.\<close>

fun asks_for :: "event \<Rightarrow> pid_t \<Rightarrow> u64 \<Rightarrow> bool" where
  "asks_for (Ioctl SWITCHTOFIBER c) tg i = (c_tgid c = tg \<and> int_cut (c_arg c) = i)"
| "asks_for _ tg i = False"

lemma kstep_idle_frame:
  assumes "kstep env z e z'" "kinv env (snd z)"
  shows "idle_frame (\<lambda>p f. asks_for e (p_pid p) (index f)) (snd z) (snd z')"
  using assms
proof (induction rule: kstep.induct)
  case (ioctl cmd c s r s' sc)
  then have k: "kinv env s" by simp
  show ?case
  proof (cases "cmd = SWITCHTOFIBER")
    case True
    with ioctl obtain r' where "ioctl_switch env c s = Inr (r', s')" by (auto simp: no_out_def kbind_Inr_iff)
    moreover have "(\<lambda>(p :: process_arg) (f :: fiber_arg). asks_for (Ioctl cmd c) (p_pid p) (index f)) =
        (\<lambda>p f. p_pid p = c_tgid c \<and> index f = int_cut (c_arg c))"
      by (auto simp: True fun_eq_iff)
    ultimately show ?thesis using switch_idle_frame [OF k] by simp
  next
    case False
    have "idle_frame never s s'"
      using ioctl(1) False by (cases cmd)
        (auto simp: no_out_def kbind_Inr_iff idle_frame_refl intro: convert_idle_frame [OF k] create_idle_frame [OF k]
          fls_alloc_idle_frame [OF k] fls_free_idle_frame [OF k] fls_get_idle_frame [OF k] fls_set_idle_frame [OF k])
    then show ?thesis by (simp add: idle_frame_weaken)
  qed
next
  case (do_exit c s r s' sc)
  then show ?case using exit_idle_frame by simp
next
  case (resched cpu task t1 t2 sc s sc' s')
  then show ?case using resched_idle_frame by simp
next
  case (user_runs u sc s k x)
  show ?case by (simp add: idle_frame_def parked_def)
qed

lemma krun_gone:
  assumes "krun env z es z'" "kinv env (snd z)" "pa \<notin> mem (list_process (snd z))" "pa < brk (snd z)"
  shows "pa \<notin> mem (list_process (snd z'))"
  using assms
proof (induction rule: krun.induct)
  case (cons z e z' es z'')
  have "idle_frame (\<lambda>p f. asks_for e (p_pid p) (index f)) (snd z) (snd z')"
    by (rule kstep_idle_frame [OF cons(2,5)])
  then have "pa \<notin> mem (list_process (snd z'))" "pa < brk (snd z')"
    using cons(6,7) by (auto simp: idle_frame_def)
  then show ?case using cons(4) kstep_kinv [OF cons(2,5,1)] by simp
qed simp

text \<open>A parked fiber nobody asks for stays as it is, word for word, as long as its process is
  there.\<close>

lemma krun_parked:
  assumes "krun env z es z'" "kinv env (snd z)" "parked (snd z) pa p fa f" "p_pid p = tg"
    and "\<And>e. e \<in> set es \<Longrightarrow> \<not> asks_for e tg (index f)" and "pa \<in> mem (list_process (snd z'))"
  shows "\<exists>p'. parked (snd z') pa p' fa f \<and> p_pid p' = tg"
  using assms
proof (induction arbitrary: p rule: krun.induct)
  case (cons z e z' es z'')
  note fr = kstep_idle_frame [OF cons(2,5)] and k' = kstep_kinv [OF cons(2,5,1)]
  have lt: "pa < brk (snd z')"
  proof -
    have "pa < brk (snd z)" using linked_below(1) [OF cons(5)] cons(6) by (simp add: parked_def)
    then show ?thesis using fr by (simp add: idle_frame_def)
  qed
  have pa': "pa \<in> mem (list_process (snd z'))"
    using krun_gone [OF cons(3) k' _ lt] cons(9) by blast
  then obtain p' where "parked (snd z') pa p' fa f" "p_pid p' = p_pid p"
    using fr cons(6-8) unfolding idle_frame_def by (metis list.set_intros(1))
  then show ?case using cons(4) [OF k'] cons(7-9) by simp
qed auto

section \<open>Leaving a fiber and coming back\<close>

lemma switch_success_cases:
  assumes k: "kinv env s" and r: "ioctl_switch env c s = Inr (0, s')"
  obtains pa p ta t af fo fa f where "s' = switched env c ta af fa s"
      "search_process env (c_tgid c) s = Inr (Some pa)" "pa \<in> mem (list_process s)" "procs s pa = Some p"
      "p_pid p = c_tgid c" "pid_find env (tkey s) (c_pid c) (threads p) = Inr (Some ta)"
      "ta \<in> mem (threads p)" "thrs s ta = Some t" "t_pid t = c_pid c" "active_fiber t = Some af"
      "af \<in> mem (fibers p)" "fibs s af = Some fo" "running fo"
      "fa \<in> mem (fibers p)" "fibs s fa = Some f" "\<not> running f" "index f = int_cut (c_arg c)"
      "caller_fiber env c s = Some af"
  using k
proof (cases rule: ioctl_switch_cases [where c = c])
  case (success pa p ta t af fo fa f)
  then have "caller_fiber env c s = Some af" by (simp add: caller_fiber_def act_def)
  with success r member_pid [OF k success(2,4)] that show ?thesis by (simp add: int_cut_def)
qed (use r in simp_all)

lemma switched_fibers:
  assumes "af \<noteq> fa" "fibs s af = Some fo" "fibs s fa = Some f"
  shows "\<exists>fo'. fibs (switched env c ta af fa s) af = Some fo' \<and> regs fo' = uregs s (c_pid c) \<and>
      fpu_reg fo' = fxsave env (ufx s (c_pid c)) (fpu_reg fo) \<and> \<not> running fo' \<and> index fo' = index fo \<and>
      fls_bitmap fo' = fls_bitmap fo \<and> fls_array fo' = fls_array fo"
    and "uregs (switched env c ta af fa s) (c_pid c) = regs f"
    and "ufx (switched env c ta af fa s) (c_pid c) = fxrstor env (fpu_reg f)"
  using assms by (simp_all add: switched_def Let_def charge_def)

lemma search_process_switched [simp]:
  "search_process env k (switched env' c ta af fa s) = search_process env k s"
proof -
  have "pkey (switched env' c ta af fa s) = pkey s" by (rule ext) (simp add: pkey_def)
  then show ?thesis by (simp add: search_process_def)
qed

text \<open>A parked fiber resumes with the context it was parked with, whichever thread picks it up and
  whatever happened in between.\<close>

lemma resume_parked:
  assumes run: "krun env z1 es z2" and k: "kinv env (snd z1)" and f: "parked (snd z1) pa p fa f"
    and pid: "p_pid p = c_tgid c" and quiet: "\<And>e. e \<in> set es \<Longrightarrow> \<not> asks_for e (c_tgid c) (index f)"
    and there: "search_process env (c_tgid c) (snd z2) = Inr (Some pa)"
    and sw: "ioctl_switch env c (snd z2) = Inr (0, s3)" "int_cut (c_arg c) = index f"
  shows "uregs s3 (c_pid c) = regs f \<and> ufx s3 (c_pid c) = fxrstor env (fpu_reg f) \<and>
    fibs s3 fa = Some (f\<lparr>running := True, activations := activations f + 1, starting_time := nanos (ts2 c)\<rparr>)"
proof -
  have k2: "kinv env (snd z2)" by (rule krun_kinv [OF run k])
  have m: "pa \<in> mem (list_process (snd z2))"
    using there pidx.find_Some_iff [OF kinv_list [OF k2] TrueI] by (auto simp: search_process_find)
  obtain p2 where p2: "parked (snd z2) pa p2 fa f" "p_pid p2 = c_tgid c"
    using krun_parked [OF run k f pid quiet m] by blast
  show ?thesis
  proof (rule switch_success_cases [OF k2 sw(1)])
    fix pb q ta t af fo fb g
    assume s3: "s3 = switched env c ta af fb (snd z2)" and q: "search_process env (c_tgid c) (snd z2) = Inr (Some pb)"
      "pb \<in> mem (list_process (snd z2))" "procs (snd z2) pb = Some q" and af: "fibs (snd z2) af = Some fo" "running fo"
      and fb: "fb \<in> mem (fibers q)" "fibs (snd z2) fb = Some g" "\<not> running g" "index g = int_cut (c_arg c)"
    have "pb = pa" "q = p2" using q there p2(1) by (auto simp: parked_def)
    moreover from this have "fb = fa"
      using p2(1) fb sw(2) by (intro fkey_inj [OF kinv_proc [OF k2 q(2,3)]]) (auto simp: parked_def fkey_def)
    ultimately show ?thesis using fb af p2(1) by (auto simp: s3 switched_def Let_def parked_def)
  qed
qed

end
