(* ===== verification/Fiber_Birth.thy ===== *)
theory Fiber_Birth
  imports Fiber_Context
begin

text \<open>
  The two ways a fiber comes into being: what \<^verbatim>\<open>CONVERTTOFIBER\<close> and \<^verbatim>\<open>CREATEFIBER\<close> put
  into the structure, and where it is found afterwards.
\<close>

section \<open>The first fiber of a thread\<close>

lemma caller_fiber_member:
  assumes k: "kinv env s" and pa: "pa \<in> mem (list_process s)" "procs s pa = Some p" "p_pid p = c_tgid c"
    and ta: "ta \<in> mem (threads p)" "thrs s ta = Some t" "t_pid t = c_pid c" "active_fiber t = Some fa"
  shows "caller_fiber env c s = Some fa"
proof -
  have "search_process env (c_tgid c) s = Inr (Some pa)" using search_process_member [OF k pa(1,2)] pa(3) by simp
  moreover have "pid_find env (tkey s) (c_pid c) (threads p) = Inr (Some ta)"
    by (rule pidx.find_member [OF proc_threads [OF kinv_proc [OF k pa(1,2)]] TrueI ta(1)]) (simp add: tkey_def ta)
  ultimately show ?thesis using pa ta by (simp add: caller_fiber_def act_def)
qed

lemma link_thread_caller:
  assumes k: "kinv env (link_thread env (c_pid c) pa fa f p s)" and pa: "pa \<in> mem (list_process s)" "p_pid p = c_tgid c"
  shows "caller_fiber env c (link_thread env (c_pid c) pa fa f p s) = Some fa"
    and "fibs (link_thread env (c_pid c) pa fa f p s) fa = Some f"
proof -
  show "caller_fiber env c (link_thread env (c_pid c) pa fa f p s) = Some fa"
    by (rule caller_fiber_member [OF k, where p = "p\<lparr>threads := hash_add (hash_32 env (c_pid c)) (brk s) (threads p),
          fiber_id := fiber_id p + 1, fibers := hash_add (hash_long env (fiber_id p)) fa (fibers p)\<rparr>"
          and ta = "brk s" and t = "\<lparr>t_pid = c_pid c, active_fiber = Some fa\<rparr>"])
      (use pa in \<open>auto simp: link_thread_def\<close>)
qed (simp add: link_thread_def)

lemma convert_thread_fiber:
  assumes k: "kinv env s" and pa: "pa \<in> mem (list_process s)" "procs s pa = Some p" "p_pid p = c_tgid c"
    and fa: "fibs s fa = Some f0" "fa \<notin> all_fibers s" "fa < brk s" and ok: "index_ok env (fiber_id p)" "ok_thread c"
    and new: "cur (abs_proc env s p) (c_pid c) = None" and r: "convert_thread env c (Some fa) pa s = Inr (r, s')"
  shows "caller_fiber env c s' = Some fa \<and> fibs s' fa = Some (init_converted env c s r f0)"
proof -
  have f: "Some fa = (if True then Some fa else None)" "fibs s fa = Some f0 \<or> \<not> True" using fa by simp_all
  note inv = convert_thread_kinv [OF k pa(1,2) f fa(2) _ ok(1) r]
  show ?thesis
    using k pa(1,2) f
  proof (cases rule: convert_thread_cases [where c = c])
    case (present ta)
    then show ?thesis
      by (rule_tac thread_find_cases [OF kinv_proc [OF k pa(1,2)], of "c_pid c"])
        (use present new in \<open>auto simp: abs_proc_def fkey_def\<close>)
  next
    case success
    then have s': "s' = link_thread env (c_pid c) pa fa (init_converted env c s (fiber_id p) f0) p s" "r = fiber_id p"
      using r by simp_all
    then show ?thesis using link_thread_caller [OF _ pa(1,3)] inv fa(3) by simp
  qed (use ok r in simp_all)
qed

lemma converted_fiber_state:
  assumes k: "kinv env s" and ix: "next_index_ok env c s" and ok: "ok_fiber c" "ok_process c" "ok_thread c"
    and new: "\<And>q. kabs env s (c_tgid c) = Some q \<Longrightarrow> cur q (c_pid c) = None"
    and r: "ioctl_convert env c s = Inr (r, s')"
  shows "\<exists>fa. caller_fiber env c s' = Some fa \<and> fibs s' fa = Some (init_converted env c s r (zero_fiber env))"
proof (rule search_process_cases [OF k, of "c_tgid c"])
  let ?e = "convert_entry env c s"
  note e = convert_entry_kinv [OF k, of c]
  have f: "fibs ?e (brk s) = Some (zero_fiber env)" "brk ?e = Suc (brk s)" using convert_entry_fiber ok by simp_all
  have below: "brk s \<notin> all_fibers s" using linked_below(3) [OF k, of "brk s"] by auto
  {
    fix pa p assume pa: "search_process env (c_tgid c) s = Inr (Some pa)" "pa \<in> mem (list_process s)"
      "procs s pa = Some p" "p_pid p = c_tgid c"
    have "caller_fiber env c s' = Some (brk s) \<and> fibs s' (brk s) = Some (init_converted env c ?e r (zero_fiber env))"
    proof (rule convert_thread_fiber [OF e _ _ pa(4) f(1)])
      have "abs_proc env ?e p = abs_proc env s p" unfolding convert_entry_def by (rule abs_proc_entry [OF k pa(2,3)])
      then show "cur (abs_proc env ?e p) (c_pid c) = None" using new abs_found [OF pa(1,3)] by simp
      show "convert_thread env c (Some (brk s)) pa ?e = Inr (r, s')" using r pa ok by (simp add: ioctl_convert_eq Let_def)
    qed (use pa ix below f ok in \<open>auto simp: next_index_ok_def\<close>)
    then show ?thesis by (auto simp: init_converted_def)
  }
  assume n: "search_process env (c_tgid c) s = Inr None" "\<And>a. a \<in> mem (list_process s) \<Longrightarrow> pkey s a \<noteq> Some (c_tgid c)"
  let ?l = "link_process env (c_tgid c) ?e"
  have n': "\<And>a. a \<in> mem (list_process ?e) \<Longrightarrow> pkey ?e a \<noteq> Some (c_tgid c)" using n by simp
  note l = link_process_kinv [OF e n'] and la = link_process_abs [OF e n']
  have fl: "all_fibers ?l = all_fibers s"
    using linked_below(1) [OF e, of "brk ?e"] by (subst all_fibers_link_process) auto
  have "caller_fiber env c s' = Some (brk s) \<and> fibs s' (brk s) = Some (init_converted env c ?l r (zero_fiber env))"
  proof (rule convert_thread_fiber [OF l])
    show "procs ?l (brk ?e) = Some (fresh_process (c_tgid c))" by (simp add: link_process_def)
    show "cur (abs_proc env ?l (fresh_process (c_tgid c))) (c_pid c) = None" using la by (simp add: no_fibers_def)
    show "convert_thread env c (Some (brk s)) (brk ?e) ?l = Inr (r, s')"
      using r n ok by (simp add: ioctl_convert_eq Let_def)
  qed (use ix below fl f ok in \<open>auto simp: link_process_def fresh_process_def next_index_ok_def\<close>)
  then show ?thesis by (auto simp: init_converted_def link_process_def)
qed

section \<open>A created fiber\<close>

lemma created_fiber_parked:
  assumes k: "kinv env s" and ix: "next_index_ok env c s"
    and reg: "kabs env s (c_tgid c) = Some q" "cur q (c_pid c) \<noteq> None" and u: "user_create c = Some u"
    and r: "ioctl_create env c s = Inr (i, s')"
  shows "\<exists>pa p. search_process env (c_tgid c) s' = Inr (Some pa) \<and> p_pid p = c_tgid c \<and>
    parked s' pa p (brk s) (init_created env c s u i (zero_fiber env))"
proof -
  have args: "ok_args c" using r by (cases "ok_args c") (auto simp: ioctl_create_def case_prod_beta)
  note k' = ioctl_create_kinv [OF k ix r]
  show ?thesis
    using k args
  proof (cases rule: ioctl_create_cases)
    case refused
    with u reg show ?thesis by (auto simp: abs_absent)
  next
    case (unknown pa p)
    with reg show ?thesis using abs_found [OF unknown(2,3)] cur_abs_proc(1) [OF unknown(4)] by simp
  next
    case no_memory
    with r show ?thesis by simp
  next
    case (success v pa p ta)
    let ?f = "init_created env c s u (fiber_id p) (zero_fiber env)"
    let ?p = "p\<lparr>fiber_id := fiber_id p + 1, fibers := hash_add (hash_long env (fiber_id p)) (brk s) (fibers p)\<rparr>"
    have s': "s' = kfree_args True (link_fiber env pa (brk s) ?f p (create_entry env c s))" "i = fiber_id p"
      using success(1,3) r u by simp_all
    have pid: "p_pid p = c_tgid c" by (rule member_pid [OF k success(4,6)])
    have "parked s' pa ?p (brk s) ?f" using success(5) by (simp add: parked_def s'(1) link_fiber_def kfree_args_def)
    moreover from this have "search_process env (p_pid ?p) s' = Inr (Some pa)"
      by (intro search_process_member [OF k']) (simp_all add: parked_def)
    ultimately show ?thesis using pid s'(2) by (intro exI [of _ pa] exI [of _ ?p]) simp
  qed
qed

lemma init_created_regs:
  assumes "env_ok env" "length (uregs s (c_pid c)) = nregs env"
  shows "regs (init_created env c s u i f) = (uregs s (c_pid c))[slot_sp env := dwStackPointer u,
      slot_ip env := lpStartAddress u, slot_di env := lpParameter u, slot_bp env := dwStackPointer u]"
    and "fxrstor env (fpu_reg (init_created env c s u i f)) = ufx s (c_pid c)"
  using assms by (auto simp: init_created_def Let_def env_ok_def)

end
