(* ===== verification/Demo.thy ===== *)
theory Demo
  imports Fiber_Birth
begin

text \<open>
  One concrete environment and a short run of one process in it, on which the properties are
  instantiated: task 7 becomes fiber 0, creates fiber 1, switches to it and back. The states are the
  results of the module's operations; what the run shows to its client is computed on the abstract
  state.
\<close>

section \<open>The environment\<close>

definition demo_env :: kenv where
  "demo_env = \<lparr>hash_32 = (\<lambda>k. unat k mod 1024), hash_long = (\<lambda>k. unat k mod 1024), nregs = 21, nfpu = 66,
     slot_ip = 16, slot_sp = 19, slot_di = 14, slot_bp = 4, fxsave = (\<lambda>x m. x), fxrstor = (\<lambda>m. m)\<rparr>"

lemma demo_env_ok: "env_ok demo_env"
  by (simp add: env_ok_def demo_env_def)

definition demo_call :: "pid_t \<Rightarrow> pid_t \<Rightarrow> u64 \<Rightarrow> call" where
  "demo_call tg pid arg = \<lparr>c_tgid = tg, c_pid = pid, c_arg = arg, ts1 = \<lparr>tv_sec = 5, tv_nsec = 0\<rparr>,
     ts2 = \<lparr>tv_sec = 6, tv_nsec = 0\<rparr>, ok_args = True, ok_fiber = True, ok_process = True, ok_thread = True,
     user_create = Some \<lparr>dwStackPointer = 0x7ff8, lpStartAddress = 0x400000, lpParameter = 42\<rparr>,
     user_fls = Some \<lparr>dwFlsIndex = 0, lpFlsData = 99\<rparr>, user_writable = True\<rparr>"

lemma demo_call_simps [simp]:
  "c_tgid (demo_call tg pid arg) = tg" "c_pid (demo_call tg pid arg) = pid" "c_arg (demo_call tg pid arg) = arg"
  "ok_args (demo_call tg pid arg)" "ok_fiber (demo_call tg pid arg)" "ok_process (demo_call tg pid arg)"
  "ok_thread (demo_call tg pid arg)" "user_create (demo_call tg pid arg) \<noteq> None"
  "user_fls (demo_call tg pid arg) = Some \<lparr>dwFlsIndex = 0, lpFlsData = 99\<rparr>" "user_writable (demo_call tg pid arg)"
  by (simp_all add: demo_call_def)

lemma demo_index_ok [simp]: "index_ok demo_env 0" "index_ok demo_env 1" "index_ok demo_env 2"
  by (simp_all add: index_ok_def demo_env_def)

section \<open>One step on the abstract state\<close>

definition then_state :: "'s \<Rightarrow> 'e + 'r \<times> 's \<Rightarrow> 's" where
  "then_state s m = (case m of Inr (_, s') \<Rightarrow> s' | Inl _ \<Rightarrow> s)"

lemma then_state_Inr [simp]: "then_state s (Inr (r, s')) = s'"
  by (simp add: then_state_def)

lemma next_index_okI:
  assumes "index_ok env 0" "\<And>q. kabs env s (c_tgid c) = Some q \<Longrightarrow> index_ok env (next_index q)"
  shows "next_index_ok env c s"
  unfolding next_index_ok_def
proof (intro conjI allI impI)
  fix pa p assume "search_process env (c_tgid c) s = Inr (Some pa)" "procs s pa = Some p"
  from abs_found [OF this] assms(2) show "index_ok env (fiber_id p)" by (fastforce simp: abs_proc_def)
qed (rule assms)

lemma convert_step:
  assumes k: "kinv env s" and ok: "ok_fiber c" "index_ok env 0"
    "\<And>q. kabs env s (c_tgid c) = Some q \<Longrightarrow> index_ok env (next_index q)"
    and sp: "spec_convert c (kabs env s) = (r, m)" and s': "s' = then_state s (ioctl_convert env c s)"
  shows "ioctl_convert env c s = Inr (r, s') \<and> kinv env s' \<and> kabs env s' = m"
proof -
  have ix: "next_index_ok env c s" by (rule next_index_okI [OF ok(2,3)])
  obtain r1 s1 where r: "ioctl_convert env c s = Inr (r1, s1)" using convert_total [OF k ok(1)] by blast
  show ?thesis using convert_refines [OF k ix r] ioctl_convert_kinv [OF k ix r] sp s' r by simp
qed

lemma create_step:
  assumes k: "kinv env s" and ok: "ok_args c" "ok_fiber c" "index_ok env 0"
    "\<And>q. kabs env s (c_tgid c) = Some q \<Longrightarrow> index_ok env (next_index q)"
    and sp: "spec_create c (kabs env s) = (r, m)" and s': "s' = then_state s (ioctl_create env c s)"
  shows "ioctl_create env c s = Inr (r, s') \<and> kinv env s' \<and> kabs env s' = m"
proof -
  have ix: "next_index_ok env c s" by (rule next_index_okI [OF ok(3,4)])
  obtain r1 s1 where r: "ioctl_create env c s = Inr (r1, s1)" using create_total [OF k ok(1,2)] by blast
  show ?thesis using create_refines [OF k ix r] ioctl_create_kinv [OF k ix r] sp s' r by simp
qed

lemma switch_step:
  assumes k: "kinv env s" and sp: "spec_switch c (kabs env s) = (r, m)"
    and s': "s' = then_state s (ioctl_switch env c s)"
  shows "ioctl_switch env c s = Inr (r, s') \<and> kinv env s' \<and> kabs env s' = m"
proof -
  obtain r1 s1 where r: "ioctl_switch env c s = Inr (r1, s1)" using switch_total [OF k] by blast
  show ?thesis using switch_refines [OF k r] ioctl_switch_kinv [OF k r] sp s' r by simp
qed

lemma exit_step:
  assumes k: "kinv env s" and s': "s' = then_state s (Pre_Handler env c s)"
  shows "\<exists>r. Pre_Handler env c s = Inr (r, s') \<and> kinv env s' \<and> kabs env s' = spec_exit c (kabs env s)"
proof -
  obtain r1 s1 where r: "Pre_Handler env c s = Inr (r1, s1)" using Pre_Handler_total [OF k] by blast
  show ?thesis using exit_refines [OF k r] Pre_Handler_kinv [OF k r] s' r by simp
qed

section \<open>A run\<close>

definition demo0 :: kstate where "demo0 = init_state (\<lambda>t. replicate 21 (ucast t)) (\<lambda>_. [1, 2])"
definition demo1 :: kstate where "demo1 = then_state demo0 (ioctl_convert demo_env (demo_call 7 7 0) demo0)"
definition demo2 :: kstate where "demo2 = then_state demo1 (ioctl_create demo_env (demo_call 7 7 0) demo1)"
definition demo3 :: kstate where "demo3 = then_state demo2 (ioctl_switch demo_env (demo_call 7 7 1) demo2)"
definition demo4 :: kstate where "demo4 = then_state demo3 (ioctl_switch demo_env (demo_call 7 7 0) demo3)"

lemma kabs_init: "kabs env (init_state ur uf) = Map.empty"
  by (simp add: fun_eq_iff kabs_def search_process_def init_state_def hash_init_def)

lemma demo0: "kinv demo_env demo0" "kabs demo_env demo0 = Map.empty"
  by (simp_all add: demo0_def kabs_init kinv_init) (simp add: kinv_init demo_env_def)

lemma demo1: "ioctl_convert demo_env (demo_call 7 7 0) demo0 = Inr (0, demo1) \<and> kinv demo_env demo1 \<and>
    kabs demo_env demo1 = [7 \<mapsto> \<lparr>next_index = 1, live = {0}, cur = [7 \<mapsto> 0]\<rparr>]"
  by (rule convert_step [OF demo0(1)])
    (simp_all add: demo0 demo1_def spec_convert_def spec_register_def no_fibers_def)

lemma demo2: "ioctl_create demo_env (demo_call 7 7 0) demo1 = Inr (1, demo2) \<and> kinv demo_env demo2 \<and>
    kabs demo_env demo2 = [7 \<mapsto> \<lparr>next_index = 2, live = {0, 1}, cur = [7 \<mapsto> 0]\<rparr>]"
  using demo1 by (intro create_step)
    (auto simp: demo2_def spec_create_def split: if_splits)

lemma demo3: "ioctl_switch demo_env (demo_call 7 7 1) demo2 = Inr (0, demo3) \<and> kinv demo_env demo3 \<and>
    kabs demo_env demo3 = [7 \<mapsto> \<lparr>next_index = 2, live = {0, 1}, cur = [7 \<mapsto> 1]\<rparr>]"
  using demo2 by (intro switch_step) (auto simp: demo3_def spec_switch_def int_cut_def)

lemma demo4: "ioctl_switch demo_env (demo_call 7 7 0) demo3 = Inr (0, demo4) \<and> kinv demo_env demo4 \<and>
    kabs demo_env demo4 = [7 \<mapsto> \<lparr>next_index = 2, live = {0, 1}, cur = [7 \<mapsto> 0]\<rparr>]"
  using demo3 by (intro switch_step) (auto simp: demo4_def spec_switch_def int_cut_def)

lemma demo_next: "next_index_ok demo_env (demo_call 7 7 0) demo0" "next_index_ok demo_env (demo_call 7 7 0) demo1"
  using demo0 demo1 by (auto intro!: next_index_okI split: if_splits)

lemma demo_reachable: "reachable demo_env (\<lambda>_. None, demo3)"
proof -
  have 0: "reachable demo_env (\<lambda>_. None, demo0)"
    unfolding demo0_def by (rule reachable.load) (simp add: demo_env_def)
  have 1: "reachable demo_env (\<lambda>_. None, demo1)"
    using reachable.step [OF 0, of "Ioctl CONVERTTOFIBER (demo_call 7 7 0)"] demo_next demo1
    by (auto simp: kstep_ioctl_iff no_out_def)
  have 2: "reachable demo_env (\<lambda>_. None, demo2)"
    using reachable.step [OF 1, of "Ioctl CREATEFIBER (demo_call 7 7 0)"] demo_next demo2
    by (auto simp: kstep_ioctl_iff no_out_def)
  show ?thesis
    using reachable.step [OF 2, of "Ioctl SWITCHTOFIBER (demo_call 7 7 1)"] demo3
    by (auto simp: kstep_ioctl_iff no_out_def)
qed

lemma demo_run: "krun demo_env (\<lambda>_. None, demo2)
    [Ioctl SWITCHTOFIBER (demo_call 7 7 1), Ioctl SWITCHTOFIBER (demo_call 7 7 0)] (\<lambda>_. None, demo4)"
proof -
  have "kstep demo_env (\<lambda>_. None, demo2) (Ioctl SWITCHTOFIBER (demo_call 7 7 1)) (\<lambda>_. None, demo3)"
    "kstep demo_env (\<lambda>_. None, demo3) (Ioctl SWITCHTOFIBER (demo_call 7 7 0)) (\<lambda>_. None, demo4)"
    using demo3 demo4 by (auto simp: kstep_ioctl_iff no_out_def)
  then show ?thesis by (auto intro!: krun.intros)
qed

lemma demo_caller:
  obtains fa f where "caller_fiber demo_env (demo_call 7 7 n) demo1 = Some fa" "fibs demo1 fa = Some f"
    "fls_bitmap f = 0" "index f = 0" "regs f = replicate 21 0"
proof -
  have c: "ioctl_convert demo_env (demo_call 7 7 0) demo0 = Inr (0, demo1)" using demo1 by simp
  have "caller_fiber demo_env (demo_call 7 7 n) demo1 = caller_fiber demo_env (demo_call 7 7 0) demo1"
    by (rule caller_fiber_cong) simp_all
  moreover have "regs (init_converted demo_env (demo_call 7 7 0) demo0 0 (zero_fiber demo_env)) = replicate 21 0"
    by (simp add: init_converted_def bitmap_zero_def zero_prefix_def MAX_FLS_def BITS_PER_LONG_def demo0_def
        init_state_def Let_def)
  ultimately show thesis
    using converted_fiber_state [OF demo0(1) demo_next(1) _ _ _ _ c] that by (auto simp: demo0)
qed

end
