(* ===== verification/Fls_Commands.thy ===== *)
theory Fls_Commands
  imports Demo
begin

text \<open>
  The four commands of fiber-local storage as their callers see them: on the active fiber of the
  calling thread, with the laws of \<open>slot_store\<close> carried over from \<open>Fls\<close>, and what they do
  beyond the 64 slots the bitmap word has.
\<close>

lemma caller_fiber_frames [simp]:
  "caller_fiber env c (s\<lparr>fibs := F\<rparr>) = caller_fiber env c s"
  "caller_fiber env c (s\<lparr>bufs_live := n\<rparr>) = caller_fiber env c s"
  by (simp_all add: caller_fiber_def search_process_def cong: sum.case_cong option.case_cong)

lemma caller_fiber_args [simp]:
  "caller_fiber env c (kzalloc_args b s) = caller_fiber env c s"
  "caller_fiber env c (kfree_args b s) = caller_fiber env c s"
  by (simp_all add: kzalloc_args_def kfree_args_def)

lemma args_balanced [simp]:
  "kfree_args True (kzalloc_args True s) = s"
  "kfree_args True ((kzalloc_args True s)\<lparr>fibs := F\<rparr>) = s\<lparr>fibs := F\<rparr>"
  by (simp_all add: kfree_args_def kzalloc_args_def)

lemma with_active_caller:
  assumes k: "kinv env s" and "caller_fiber env c s = Some fa" "fibs s fa = Some f"
  shows "with_active env c s np nt body = body fa f s"
  by (rule with_active_cases [OF k, of c np nt body]) (use assms(2,3) in \<open>auto simp: caller_fiber_def act_def\<close>)

lemma caller_linked:
  assumes k: "kinv env s" and "caller_fiber env c s = Some fa"
  obtains pa p f where "pa \<in> mem (list_process s)" "procs s pa = Some p" "fa \<in> mem (fibers p)" "fibs s fa = Some f"
    "running f" "length (regs f) = nregs env"
proof (rule search_process_cases [OF k, of "c_tgid c"])
  assume "search_process env (c_tgid c) s = Inr None"
  with assms show thesis by (simp add: caller_fiber_def)
next
  fix pa p assume pa: "search_process env (c_tgid c) s = Inr (Some pa)" "pa \<in> mem (list_process s)" "procs s pa = Some p"
    and p: "proc_inv env s p"
  show thesis
    by (rule thread_find_cases [OF p, of "c_pid c"]) (use assms pa that in \<open>auto simp: caller_fiber_def\<close>)
qed

lemma fls_update_kinv:
  assumes k: "kinv env s" and "caller_fiber env c s = Some fa" "fibs s fa = Some f"
    and f': "index f' = index f" "running f' = running f" "length (regs f') = length (regs f)"
  shows "kinv env (s\<lparr>fibs := (fibs s)(fa \<mapsto> f')\<rparr>)"
proof (rule caller_linked [OF k assms(2)])
  fix pa p g assume a: "pa \<in> mem (list_process s)" "procs s pa = Some p" "fa \<in> mem (fibers p)" "fibs s fa = Some g"
  then show ?thesis using fiber_update_kinv [OF k a(1-3) assms(3) f'] by blast
qed

section \<open>The commands on the caller's fiber\<close>

lemma fls_set_command:
  assumes "kinv env s" "caller_fiber env c s = Some fa" "fibs s fa = Some f" "ok_args c" "user_fls c = Some u"
    and "fls_set_slot (dwFlsIndex u) (lpFlsData u) f = Inr f'"
  shows "ioctl_fls_set env c s = Inr (0, s\<lparr>fibs := (fibs s)(fa \<mapsto> f')\<rparr>)"
  using assms(2-6)
  by (simp add: ioctl_fls_set_def Let_def with_active_caller [OF kzalloc_kinv(4) [OF assms(1)], of c True fa f])

lemma fls_get_command:
  assumes "kinv env s" "caller_fiber env c s = Some fa" "fibs s fa = Some f" "ok_args c" "user_fls c = Some u"
    and "user_writable c" "fls_get_slot (dwFlsIndex u) f = Inr r"
  shows "ioctl_fls_get env c s = Inr ((case r of None \<Rightarrow> (- 1, None) | Some v \<Rightarrow> (1, Some (u\<lparr>lpFlsData := v\<rparr>))), s)"
  using assms(2-7)
  by (simp add: ioctl_fls_get_def Let_def with_active_caller [OF kzalloc_kinv(4) [OF assms(1)], of c True fa f]
      split: option.splits)

lemma fls_alloc_command:
  assumes "kinv env s" "caller_fiber env c s = Some fa" "fibs s fa = Some f" "fls_alloc_slot f = Inr (Some i, f')"
  shows "ioctl_fls_alloc env c s = Inr (of_nat i, s\<lparr>fibs := (fibs s)(fa \<mapsto> f')\<rparr>)"
  using assms(3,4) by (simp add: ioctl_fls_alloc_def with_active_caller [OF assms(1-3)])

lemma fls_free_command:
  assumes "kinv env s" "caller_fiber env c s = Some fa" "fibs s fa = Some f" "fls_free_slot (c_arg c) f = Inr (b, f')"
  shows "ioctl_fls_free env c s = Inr (of_bool b, s\<lparr>fibs := (fibs s)(fa \<mapsto> f')\<rparr>)"
  using assms(3,4) by (simp add: ioctl_fls_free_def with_active_caller [OF assms(1-3)])

section \<open>Properties\<close>

text \<open>Fiber-local storage keeps what is put into it: after \<^verbatim>\<open>FLSSETVALUE\<close> on an allocated
  slot the same thread reads the value back with \<^verbatim>\<open>FLSGETVALUE\<close>.\<close>

theorem fls_get_after_set:
  assumes k: "kinv env s" and f: "caller_fiber env c s = Some fa" "fibs s fa = Some f"
    and i: "i < BITS_PER_LONG" "bit (fls_bitmap f) i"
    and c: "ok_args c" "user_fls c = Some \<lparr>dwFlsIndex = of_nat i, lpFlsData = v\<rparr>"
    and d: "c_tgid d = c_tgid c" "c_pid d = c_pid c" "ok_args d" "user_writable d"
      "user_fls d = Some \<lparr>dwFlsIndex = of_nat i, lpFlsData = w\<rparr>"
  shows "\<exists>s1. ioctl_fls_set env c s = Inr (0, s1) \<and>
    ioctl_fls_get env d s1 = Inr ((1, Some \<lparr>dwFlsIndex = of_nat i, lpFlsData = v\<rparr>), s1)"
proof -
  have a: "fls_slots f i \<noteq> None" using i by (simp add: fls_slots_def)
  obtain f' where f': "fls_set_slot (of_nat i) v f = Inr f'" using fls.set_law [OF i(1), of v f] by blast
  let ?s = "s\<lparr>fibs := (fibs s)(fa \<mapsto> f')\<rparr>"
  have s: "ioctl_fls_set env c s = Inr (0, ?s)"
    by (rule fls_set_command [OF k f c(1,2)]) (simp add: f')
  have k': "kinv env ?s" by (rule fls_update_kinv [OF k f]) (use fls_slot_keeps(3) [OF f'] in simp_all)
  have cf: "caller_fiber env d ?s = Some fa" using caller_fiber_cong [OF d(1,2)] f by simp
  have "ioctl_fls_get env d ?s = Inr ((1, Some \<lparr>dwFlsIndex = of_nat i, lpFlsData = v\<rparr>), ?s)"
    using fls_get_command [OF k' cf _ d(3,5,4), of f' "Some v"] fls.get_after_set [OF i(1) a f'] by simp
  with s show ?thesis by blast
qed

text \<open>C32. Within the invariant of the module and for a caller whose fiber has a free bit in the word of its
  bitmap, \<^verbatim>\<open>FLSALLOC\<close> hands out the least free slot of the fiber, and the same thread then
  reads 0 from that slot with \<^verbatim>\<open>FLSGETVALUE\<close>.\<close>

theorem fls_alloc_least:
  assumes k: "kinv env s" and f: "caller_fiber env c s = Some fa" "fibs s fa = Some f"
    and i: "i < BITS_PER_LONG" "\<not> bit (fls_bitmap f) i" "\<And>j. j < i \<Longrightarrow> bit (fls_bitmap f) j"
    and d: "c_tgid d = c_tgid c" "c_pid d = c_pid c" "ok_args d" "user_writable d"
      "user_fls d = Some \<lparr>dwFlsIndex = of_nat i, lpFlsData = w\<rparr>"
  shows "\<exists>s1. ioctl_fls_alloc env c s = Inr (of_nat i, s1) \<and>
    ioctl_fls_get env d s1 = Inr ((1, Some \<lparr>dwFlsIndex = of_nat i, lpFlsData = 0\<rparr>), s1)"
proof -
  have n: "fls_slots f i = None" "\<And>j. j < i \<Longrightarrow> fls_slots f j \<noteq> None" using i by (auto simp: fls_slots_def)
  obtain f' where f': "fls_alloc_slot f = Inr (Some i, f')"
    using fls.alloc_law [OF i(1) n(1)] n(2) by blast
  let ?s = "s\<lparr>fibs := (fibs s)(fa \<mapsto> f')\<rparr>"
  have s: "ioctl_fls_alloc env c s = Inr (of_nat i, ?s)" by (rule fls_alloc_command [OF k f f'])
  have k': "kinv env ?s" by (rule fls_update_kinv [OF k f]) (use fls_slot_keeps(1) [OF f'] in simp_all)
  have cf: "caller_fiber env d ?s = Some fa" using caller_fiber_cong [OF d(1,2)] f by simp
  have "ioctl_fls_get env d ?s = Inr ((1, Some \<lparr>dwFlsIndex = of_nat i, lpFlsData = 0\<rparr>), ?s)"
    using fls_get_command [OF k' cf _ d(3,5,4), of f' "Some 0"] fls.get_after_alloc [OF f' i(1) i(1) n(1)] by simp
  with s show ?thesis by blast
qed

text \<open>A state whose active fiber has the given bitmap, for the witnesses.\<close>

lemma demo_bitmap:
  obtains fa f s where "kinv demo_env s" "caller_fiber demo_env (demo_call 7 7 n) s = Some fa" "fibs s fa = Some f"
    "fls_bitmap f = w" "regs f = replicate 21 0"
proof (rule demo_caller [of n])
  fix fa f
  assume f: "caller_fiber demo_env (demo_call 7 7 n) demo1 = Some fa" "fibs demo1 fa = Some f" "regs f = replicate 21 0"
  have k: "kinv demo_env demo1" using demo1 by simp
  show thesis
    by (rule that [of "demo1\<lparr>fibs := (fibs demo1)(fa \<mapsto> f\<lparr>fls_bitmap := w\<rparr>)\<rparr>" fa "f\<lparr>fls_bitmap := w\<rparr>"])
      (use f fls_update_kinv [OF k f(1,2)] in simp_all)
qed

theorem fls_get_after_set_witness:
  "\<exists>s s1. kinv demo_env s \<and> ioctl_fls_set demo_env (demo_call 7 7 0) s = Inr (0, s1) \<and>
     ioctl_fls_get demo_env (demo_call 7 7 0) s1 = Inr ((1, Some \<lparr>dwFlsIndex = 0, lpFlsData = 99\<rparr>), s1)"
proof (rule demo_bitmap [of 0 1])
  fix fa f s
  assume s: "kinv demo_env s" "caller_fiber demo_env (demo_call 7 7 0) s = Some fa" "fibs s fa = Some f" "fls_bitmap f = 1"
  have "bit (fls_bitmap f) 0" by (simp add: s(4))
  then show ?thesis
    using fls_get_after_set [OF s(1-3), of 0 99 "demo_call 7 7 0" 99] s(1) by (auto simp: BITS_PER_LONG_def)
qed

theorem fls_alloc_least_witness:
  "\<exists>s1. ioctl_fls_alloc demo_env (demo_call 7 7 0) demo1 = Inr (0, s1) \<and>
     ioctl_fls_get demo_env (demo_call 7 7 0) s1 = Inr ((1, Some \<lparr>dwFlsIndex = 0, lpFlsData = 0\<rparr>), s1)"
proof (rule demo_caller [of 0])
  fix fa f assume f: "caller_fiber demo_env (demo_call 7 7 0) demo1 = Some fa" "fibs demo1 fa = Some f" "fls_bitmap f = 0"
  have k: "kinv demo_env demo1" using demo1 by simp
  show ?thesis
    using fls_alloc_least [OF k f(1,2), of 0 "demo_call 7 7 0" 99] f(3) by (auto simp: BITS_PER_LONG_def)
qed

text \<open>\<^verbatim>\<open>FLSFREE\<close> gives back every slot of the bitmap word but the first: a freed slot no longer
  reads, while freeing slot 0 is refused and changes nothing, so the first slot a fiber allocates is
  never free again.\<close>

theorem fls_free_but_zero:
  assumes k: "kinv env s" and f: "caller_fiber env c s = Some fa" "fibs s fa = Some f"
    and i: "i < BITS_PER_LONG" "c_arg c = of_nat i"
    and d: "c_tgid d = c_tgid c" "c_pid d = c_pid c" "ok_args d" "user_writable d"
      "user_fls d = Some \<lparr>dwFlsIndex = of_nat i, lpFlsData = w\<rparr>"
  shows "if i = 0 then ioctl_fls_free env c s = Inr (0, s)
    else \<exists>s1. ioctl_fls_free env c s = Inr (1, s1) \<and> ioctl_fls_get env d s1 = Inr ((- 1, None), s1)"
proof (cases "i = 0")
  case True
  then have "fls_free_slot (c_arg c) f = Inr (False, f)" using i by (simp add: fls_free_slot_def)
  from fls_free_command [OF k f this] True show ?thesis using f by (simp add: fun_upd_idem)
next
  case False
  obtain f' where f': "fls_free_slot (of_nat i) f = Inr (True, f')"
    using fls.free_law [of i f] False i(1) by blast
  let ?s = "s\<lparr>fibs := (fibs s)(fa \<mapsto> f')\<rparr>"
  have s: "ioctl_fls_free env c s = Inr (1, ?s)"
    using fls_free_command [OF k f, of True f'] f' i(2) by simp
  have k': "kinv env ?s" by (rule fls_update_kinv [OF k f]) (use fls_slot_keeps(2) [OF f'] in simp_all)
  have cf: "caller_fiber env d ?s = Some fa" using caller_fiber_cong [OF d(1,2)] f by simp
  have "fls_get_slot (of_nat i) f' = Inr None" using fls.get_after_free [OF _ i(1) f'] False by simp
  then have "ioctl_fls_get env d ?s = Inr ((- 1, None), ?s)"
    using fls_get_command [OF k' cf _ d(3,5,4), of f' None] by simp
  with s False show ?thesis by simp
qed

theorem fls_free_but_zero_witness:
  "\<exists>s. kinv demo_env s \<and> ioctl_fls_free demo_env (demo_call 7 7 0) s = Inr (0, s) \<and>
     (\<exists>s1. ioctl_fls_alloc demo_env (demo_call 7 7 0) demo1 = Inr (0, s1))"
proof (rule demo_caller [of 0])
  fix fa f assume f: "caller_fiber demo_env (demo_call 7 7 0) demo1 = Some fa" "fibs demo1 fa = Some f" "fls_bitmap f = 0"
  have k: "kinv demo_env demo1" using demo1 by simp
  have "fls_alloc_slot f = Inr (Some 0, f\<lparr>fls_bitmap := flip_bit 0 (fls_bitmap f), fls_array := (fls_array f)(0 := 0)\<rparr>)"
    by (rule fls_alloc_slot_low) (simp add: ffz_Some_iff f(3))
  from fls_alloc_command [OF k f(1,2) this]
  show ?thesis
    using fls_free_but_zero [OF k f(1,2), of 0 "demo_call 7 7 0" 99] k by (auto simp: BITS_PER_LONG_def)
qed

text \<open>The 65th slot is carved out of the saved registers: when all 64 bits of the bitmap word are
  set, \<^verbatim>\<open>FLSALLOC\<close> does not report exhaustion. It returns a number from 64 on and flips a bit of
  the fiber's saved \<^verbatim>\<open>pt_regs\<close>, or, when these have no clear bit either, of the list node behind
  them. (\<^verbatim>\<open>sizeof(MAX_FLS)\<close> sizes the bitmap, \<^verbatim>\<open>MAX_FLS\<close> bounds the scan.)\<close>

theorem fls_alloc_beyond_bitmap:
  assumes k: "kinv env s" and env: "env_ok env" and f: "caller_fiber env c s = Some fa" "fibs s fa = Some f"
    and full: "\<And>i. i < 64 \<Longrightarrow> bit (fls_bitmap f) i"
  shows "(\<exists>j<nregs env. \<exists>i<64. ioctl_fls_alloc env c s = Inr (of_nat (64 * (j + 1) + i),
        s\<lparr>fibs := (fibs s)(fa \<mapsto> f\<lparr>regs := (regs f)[j := flip_bit i (regs f ! j)],
           fls_array := (fls_array f)(64 * (j + 1) + i := 0)\<rparr>)\<rparr>)) \<or>
    ioctl_fls_alloc env c s = Inl ListCorrupt"
proof -
  have none: "ffz (fls_bitmap f) = None" using full by (simp add: ffz_None_iff)
  have len: "length (regs f) = nregs env"
    by (rule caller_linked [OF k f(1)]) (use f(2) in simp)
  then have small: "length (regs f) < 63" using env by (simp add: env_ok_def)
  show ?thesis
  proof (cases "ffz_words 64 (regs f) < 64 + 64 * length (regs f)")
    case True
    then obtain j i where j: "j < length (regs f)" "ffz (regs f ! j) = Some i" "\<And>l. l < j \<Longrightarrow> ffz (regs f ! l) = None"
      by (rule ffz_words_hit) blast
    then have "i < 64" by (simp add: ffz_Some_iff)
    moreover from fls_alloc_command [OF k f fls_alloc_slot_high [OF none small j]]
    have "ioctl_fls_alloc env c s = Inr (of_nat (64 * (j + 1) + i),
        s\<lparr>fibs := (fibs s)(fa \<mapsto> f\<lparr>regs := (regs f)[j := flip_bit i (regs f ! j)],
           fls_array := (fls_array f)(64 * (j + 1) + i := 0)\<rparr>)\<rparr>)" .
    ultimately show ?thesis unfolding len [symmetric] using j(1) by blast
  next
    case False
    let ?n = "64 * (length (regs f) + 1)"
    have "ffz_words 64 (regs f) = ?n" using False ffz_words_bounds [of 64 "regs f"] by simp
    then have ff: "find_first_zero_bit f = ?n"
      using find_first_zero_bit_high [OF none] small by (simp add: MAX_FLS_def)
    have n: "?n < 4096" using small by simp
    then have u: "unat (of_nat ?n :: u64) = ?n" "sint (of_nat ?n :: u64) = int ?n"
      by (simp_all only: index_words)
    have d: "?n div 64 = length (regs f) + 1" by simp
    have "bit_word (of_nat ?n) f = Inl ListCorrupt"
      by (simp only: bit_word_def u BITS_PER_LONG_def d get_word_def Let_def) simp
    moreover have "?n \<noteq> MAX_FLS" using n by (simp add: MAX_FLS_def)
    ultimately have "fls_alloc_slot f = Inl ListCorrupt"
      by (simp only: fls_alloc_slot_def ff Let_def change_bit_def kbind.simps if_False)
    then have "ioctl_fls_alloc env c s = Inl ListCorrupt"
      by (simp add: ioctl_fls_alloc_def with_active_caller [OF k f])
    then show ?thesis by blast
  qed
qed

theorem fls_alloc_beyond_bitmap_witness:
  "\<exists>s. kinv demo_env s \<and> ((\<exists>j<21. \<exists>i<64. \<exists>s1. ioctl_fls_alloc demo_env (demo_call 7 7 0) s = Inr (of_nat (64 * (j + 1) + i), s1)) \<or>
     ioctl_fls_alloc demo_env (demo_call 7 7 0) s = Inl ListCorrupt)"
proof (rule demo_bitmap [of 0 "- 1"])
  fix fa f s
  assume s: "kinv demo_env s" "caller_fiber demo_env (demo_call 7 7 0) s = Some fa" "fibs s fa = Some f" "fls_bitmap f = - 1"
  have "nregs demo_env = 21" by (simp add: demo_env_def)
  then show ?thesis
    using fls_alloc_beyond_bitmap [OF s(1) demo_env_ok s(2,3)] s(1,4) by (fastforce simp: bit_minus_1_iff)
qed

end
