(* ===== verification/Fiber_Library.thy ===== *)
theory Fiber_Library
  imports Fls_Commands
begin

text \<open>
  \<^verbatim>\<open>multi_thread/src/function_calls.c\<close>, the user-space interface to the module: each function
  packs its arguments, calls \<^verbatim>\<open>ioctl\<close> on the device and reads its \<^verbatim>\<open>int\<close> result. The
  operating system's part (what \<^verbatim>\<open>open\<close>, \<^verbatim>\<open>malloc\<close> and \<^verbatim>\<open>posix_memalign\<close> return) comes
  with the call.
\<close>

section \<open>Library state and system calls\<close>

record lib =
  fd :: int
  opened :: bool         \<comment> \<open>the variable \<^verbatim>\<open>done\<close>\<close>
  args_live :: nat       \<comment> \<open>argument structures allocated and not yet freed\<close>

record ucall =
  kcall :: call          \<comment> \<open>the task and what the kernel meets on the way\<close>
  open_result :: int
  memalign :: "u64 option"   \<comment> \<open>the stack, \<open>None\<close> when the allocation fails\<close>
  ok_malloc :: bool
  garbage :: u64         \<comment> \<open>what \<^verbatim>\<open>malloc\<close> finds in \<^verbatim>\<open>lpFlsData\<close>\<close>

definition init_file :: "ucall \<Rightarrow> lib \<Rightarrow> lib" where
  "init_file uc l =
     (let l = l\<lparr>fd := open_result uc\<rparr> in if fd l = - 1 then l else l\<lparr>opened := True\<rparr>)"

definition ensure_open :: "ucall \<Rightarrow> lib \<Rightarrow> lib" where
  "ensure_open uc l = (if \<not> opened l then init_file uc l else l)"

text \<open>The C library's \<^verbatim>\<open>ioctl\<close>: results from \<open>-4095\<close> to \<open>-1\<close> are error numbers and
  become \<open>-1\<close>; any other is cut to an \<^verbatim>\<open>int\<close>.\<close>

definition libc_result :: "u64 \<Rightarrow> u32" where
  "libc_result r = (if - 4095 \<le> sint r \<and> sint r < 0 then - 1 else ucast r)"

definition sys_ioctl ::
  "kenv \<Rightarrow> lib \<Rightarrow> ioctl_cmd \<Rightarrow> call \<Rightarrow> kstate \<Rightarrow> fault + (u32 \<times> fls_arg option) \<times> kstate" where
  "sys_ioctl env l cmd c s =
     (if fd l = - 1 then Inr ((- 1, None), s)
      else kbind (my_ioctl env cmd c s) (\<lambda>((r, out), s). Inr ((libc_result r, out), s)))"

section \<open>The functions\<close>

definition ConvertThreadToFiber :: "kenv \<Rightarrow> ucall \<Rightarrow> lib \<Rightarrow> kstate \<Rightarrow> fault + (u64 \<times> lib) \<times> kstate" where
  "ConvertThreadToFiber env uc l s =
     (let l = ensure_open uc l in
      kbind (sys_ioctl env l CONVERTTOFIBER (kcall uc) s) (\<lambda>((ret, _), s). Inr ((scast ret, l), s)))"

definition CreateFiber ::
  "kenv \<Rightarrow> ucall \<Rightarrow> u64 \<Rightarrow> u64 \<Rightarrow> u64 \<Rightarrow> lib \<Rightarrow> kstate \<Rightarrow> fault + (u64 \<times> lib) \<times> kstate" where
  "CreateFiber env uc dwStackSize start param l s =
     (let l = (if ok_malloc uc then l\<lparr>args_live := Suc (args_live l)\<rparr> else l) in
      case memalign uc of
        None \<Rightarrow> Inr ((- 1, l), s)
      | Some stack \<Rightarrow>
         if \<not> ok_malloc uc then Inl NullDeref
         else
           let args = \<lparr>dwStackPointer = stack + dwStackSize - 8, lpStartAddress = start, lpParameter = param\<rparr>;
               l = ensure_open uc l in
           kbind (sys_ioctl env l CREATEFIBER ((kcall uc)\<lparr>user_create := Some args\<rparr>) s)
             (\<lambda>((ret, _), s). Inr ((scast ret, l\<lparr>args_live := args_live l - 1\<rparr>), s)))"

definition SwitchToFiber :: "kenv \<Rightarrow> ucall \<Rightarrow> u64 \<Rightarrow> lib \<Rightarrow> kstate \<Rightarrow> fault + lib \<times> kstate" where
  "SwitchToFiber env uc lpFiber l s =
     (let l = ensure_open uc l in
      kbind (sys_ioctl env l SWITCHTOFIBER ((kcall uc)\<lparr>c_arg := lpFiber\<rparr>) s) (\<lambda>(_, s). Inr (l, s)))"

definition FlsAlloc :: "kenv \<Rightarrow> ucall \<Rightarrow> lib \<Rightarrow> kstate \<Rightarrow> fault + (u64 \<times> lib) \<times> kstate" where
  "FlsAlloc env uc l s =
     (let l = ensure_open uc l in
      kbind (sys_ioctl env l FLSALLOC (kcall uc) s) (\<lambda>((ret, _), s). Inr ((scast ret, l), s)))"

definition FlsFree :: "kenv \<Rightarrow> ucall \<Rightarrow> u64 \<Rightarrow> lib \<Rightarrow> kstate \<Rightarrow> fault + (bool \<times> lib) \<times> kstate" where
  "FlsFree env uc i l s =
     (let l = ensure_open uc l in
      kbind (sys_ioctl env l FLSFREE ((kcall uc)\<lparr>c_arg := i\<rparr>) s)
        (\<lambda>((ret, _), s). Inr ((if ret = - 1 then False else True, l), s)))"

text \<open>The argument structure is never freed.\<close>

definition FlsGetValue :: "kenv \<Rightarrow> ucall \<Rightarrow> u64 \<Rightarrow> lib \<Rightarrow> kstate \<Rightarrow> fault + (u64 \<times> lib) \<times> kstate" where
  "FlsGetValue env uc i l s =
     (let l = ensure_open uc l in
      if \<not> ok_malloc uc then Inl NullDeref
      else
        let args = \<lparr>dwFlsIndex = i, lpFlsData = garbage uc\<rparr>; l = l\<lparr>args_live := Suc (args_live l)\<rparr> in
        kbind (sys_ioctl env l FLSGETVALUE ((kcall uc)\<lparr>user_fls := Some args\<rparr>) s) (\<lambda>((ret, out), s).
          if ret = - 1 then Inr ((0, l), s)
          else
            let args = (case out of Some a \<Rightarrow> a | None \<Rightarrow> args) in
            if lpFlsData args = 0 then Inr ((0, l), s) else Inr ((lpFlsData args, l), s)))"

definition FlsSetValue :: "kenv \<Rightarrow> ucall \<Rightarrow> u64 \<Rightarrow> u64 \<Rightarrow> lib \<Rightarrow> kstate \<Rightarrow> fault + lib \<times> kstate" where
  "FlsSetValue env uc i v l s =
     (if \<not> ok_malloc uc then Inl NullDeref
      else
        let l = l\<lparr>args_live := Suc (args_live l)\<rparr>;
            args = \<lparr>dwFlsIndex = i, lpFlsData = v\<rparr>;
            l = ensure_open uc l in
        kbind (sys_ioctl env l FLSSETVALUE ((kcall uc)\<lparr>user_fls := Some args\<rparr>) s)
          (\<lambda>(_, s). Inr (l\<lparr>args_live := args_live l - 1\<rparr>, s)))"

section \<open>Results of system calls\<close>

lemma libc_result_small:
  assumes "unat r < 2 ^ 31"
  shows "libc_result r = ucast r" "scast (libc_result r) = r"
proof -
  have "uint r < 2 ^ 31" using assms by (metis of_nat_less_iff of_nat_numeral of_nat_power uint_nat)
  moreover have "- (2 ^ 63) \<le> uint r" by (rule order_trans [OF _ uint_ge_0]) simp
  ultimately have "sint r = uint r"
    by (simp add: sint_uint signed_take_bit_int_eq_self_iff)
  then show u: "libc_result r = ucast r" using uint_ge_0 [of r] by (simp add: libc_result_def)
  show "scast (libc_result r) = r" using int_cut_small [OF assms] by (simp add: u int_cut_def)
qed

text \<open>The device is open, or opens now.\<close>

definition usable :: "ucall \<Rightarrow> lib \<Rightarrow> bool" where
  "usable uc l \<longleftrightarrow> (if opened l then fd l \<noteq> - 1 else open_result uc \<noteq> - 1)"

lemma usable_fd [simp]: "usable uc l \<Longrightarrow> fd (ensure_open uc l) \<noteq> - 1"
  by (simp add: usable_def ensure_open_def init_file_def Let_def)

lemma usable_open [simp]: "usable uc l \<Longrightarrow> opened (ensure_open uc l)"
  by (simp add: usable_def ensure_open_def init_file_def Let_def)

lemma args_live_frames [simp]:
  "fd (l\<lparr>args_live := n\<rparr>) = fd l" "usable uc (l\<lparr>args_live := n\<rparr>) = usable uc l"
  "fd (ensure_open uc (l\<lparr>args_live := n\<rparr>)) = fd (ensure_open uc l)"
  "args_live (ensure_open uc l) = args_live l"
  by (simp_all add: usable_def ensure_open_def init_file_def Let_def)

lemma sys_ioctl_usable:
  "fd l \<noteq> - 1 \<Longrightarrow> my_ioctl env cmd c s = Inr ((r, out), s') \<Longrightarrow>
   sys_ioctl env l cmd c s = Inr ((libc_result r, out), s')"
  by (simp add: sys_ioctl_def)

section \<open>Results of freeing a slot\<close>

lemma with_active_result:
  assumes k: "kinv env s" and r: "with_active env c s np nt body = Inr x"
    and "np s = Inr x \<Longrightarrow> P" "nt s = Inr x \<Longrightarrow> P" "\<And>fa f. body fa f s = Inr x \<Longrightarrow> P"
  shows P
  by (rule with_active_cases [OF k, of c np nt body]) (use assms(2-5) in simp_all)

lemma ioctl_fls_free_result:
  assumes k: "kinv env s" and r: "ioctl_fls_free env c s = Inr (r, s')"
  shows "r = 0 \<or> r = 1"
  using r unfolding ioctl_fls_free_def
  by (rule with_active_result [OF k]) (auto simp: kbind_Inr_iff)

text \<open>\<^verbatim>\<open>FlsFree\<close> never reports a failure: on an open device it returns true, also for a slot that
  was never allocated, an index out of range, or an unregistered thread, because the module answers
  0 or 1 and the function looks for \<open>-1\<close>.\<close>

theorem FlsFree_always_true:
  assumes "kinv env s" "usable uc l" "FlsFree env uc i l s = Inr ((b, l'), s')"
  shows "b"
proof -
  let ?c = "(kcall uc)\<lparr>c_arg := i\<rparr>"
  obtain r t where r: "ioctl_fls_free env ?c s = Inr (r, t)" and b: "b = (if libc_result r = - 1 then False else True)"
    using assms(2,3) by (auto simp: FlsFree_def sys_ioctl_def Let_def kbind_Inr_iff no_out_def)
  from ioctl_fls_free_result [OF assms(1) r] have "libc_result r \<noteq> - 1"
    by (auto simp: libc_result_small)
  then show ?thesis using b by simp
qed

section \<open>A fiber from creation to its first run\<close>

lemma switch_to_idle:
  assumes k: "kinv env s" and q: "kabs env s (c_tgid c) = Some q"
    and i: "int_cut (c_arg c) \<in> live q" "int_cut (c_arg c) \<notin> ran (cur q)" "cur q (c_pid c) \<noteq> None"
  shows "\<exists>s'. ioctl_switch env c s = Inr (0, s')"
proof -
  obtain r s' where r: "ioctl_switch env c s = Inr (r, s')" using switch_total [OF k] by blast
  with switch_refines [OF k r] q i show ?thesis by (simp add: spec_switch_def Let_def)
qed

lemma stack_top_aligned:
  assumes "16 dvd uint stack" "16 dvd uint len"
  shows "uint (stack + len - 8 :: u64) mod 16 = 8"
proof -
  have "uint (stack + len - 8) = (uint stack + uint len - 8) mod 2 ^ 64"
    by (simp add: uint_word_ariths mod_simps)
  then have "uint (stack + len - 8) mod 16 = (uint stack + uint len - 8) mod 16"
    by (simp add: mod_mod_cancel)
  also have "\<dots> = 8" using assms by presburger
  finally show ?thesis .
qed

lemma usable_again [simp]: "usable uc l \<Longrightarrow> usable uc (ensure_open uc l)"
  by (simp add: usable_def ensure_open_def init_file_def Let_def)

text \<open>C5. A created fiber runs what it was created for: a registered thread that calls
  \<^verbatim>\<open>CreateFiber\<close> and hands the result to \<^verbatim>\<open>SwitchToFiber\<close> continues at the start address with
  the parameter in the register of the first argument, on top of the new stack, its stack pointer
  aligned as after a call, with its FX registers unchanged.\<close>

theorem create_then_switch:
  assumes k: "kinv env s" and env: "env_ok env"
    and q: "kabs env s (c_tgid (kcall uc)) = Some q" "cur q (c_pid (kcall uc)) \<noteq> None"
    and ix: "index_ok env 0" "index_ok env (next_index q)"
    and ok: "ok_args (kcall uc)" "ok_fiber (kcall uc)" "ok_malloc uc" "usable uc l"
    and stk: "memalign uc = Some stack" "16 dvd uint stack" "16 dvd uint len"
  shows "\<exists>h l1 s1 l2 s2. CreateFiber env uc len start param l s = Inr ((h, l1), s1) \<and>
    SwitchToFiber env uc h l1 s1 = Inr (l2, s2) \<and> h = next_index q \<and>
    uregs s2 (c_pid (kcall uc)) ! slot_ip env = start \<and> uregs s2 (c_pid (kcall uc)) ! slot_di env = param \<and>
    uregs s2 (c_pid (kcall uc)) ! slot_sp env = stack + len - 8 \<and> uint (stack + len - 8) mod 16 = 8 \<and>
    ufx s2 (c_pid (kcall uc)) = ufx s (c_pid (kcall uc))"
proof -
  let ?c = "kcall uc"
  let ?u = "\<lparr>dwStackPointer = stack + len - 8, lpStartAddress = start, lpParameter = param\<rparr>"
  let ?k = "?c\<lparr>user_create := Some ?u\<rparr>"
  let ?n = "next_index q"
  have nx: "next_index_ok env ?k s" by (rule next_index_okI) (use ix q in auto)
  obtain r s1 where cr: "ioctl_create env ?k s = Inr (r, s1)"
    using create_total [OF k, of ?k] ok by auto
  have r: "r = ?n" and a1: "kabs env s1 = (kabs env s)(c_tgid ?c \<mapsto> q\<lparr>next_index := ?n + 1, live := insert ?n (live q)\<rparr>)"
    using create_refines [OF k nx cr] q by (auto simp: spec_create_def)
  have k1: "kinv env s1" by (rule ioctl_create_kinv [OF k nx cr])
  have n: "unat ?n < 2 ^ 31" using ix(2) by (simp add: index_ok_def)
  have nr: "?n \<notin> ran (cur q)" using kabs_wf(1,2) [OF k q(1)] by blast
  let ?d = "?c\<lparr>c_arg := ?n\<rparr>"
  obtain s2 where sw: "ioctl_switch env ?d s1 = Inr (0, s2)"
    using switch_to_idle [OF k1, of ?d "q\<lparr>next_index := ?n + 1, live := insert ?n (live q)\<rparr>"] a1 n nr q(2)
    by (auto simp: int_cut_small)
  obtain pa p where pk: "search_process env (c_tgid ?c) s1 = Inr (Some pa)" "p_pid p = c_tgid ?c"
    "parked s1 pa p (brk s) (init_created env ?k s ?u ?n (zero_fiber env))"
    using created_fiber_parked [OF k nx, of q ?u r s1] cr q r by auto
  have res: "uregs s2 (c_pid ?d) = regs (init_created env ?k s ?u ?n (zero_fiber env)) \<and>
    ufx s2 (c_pid ?d) = fxrstor env (fpu_reg (init_created env ?k s ?u ?n (zero_fiber env)))"
    using resume_parked [OF krun.nil, of env "(\<lambda>_. None, s1)" pa p "brk s" _ ?d s2] k1 pk sw n by (simp add: int_cut_small)
  have lr: "length (uregs s (c_pid ?c)) = nregs env" by (rule kinv_uregs [OF k])
  note regs = init_created_regs [of env s ?k ?u ?n "zero_fiber env", OF env]
  have u: "uregs s2 (c_pid ?c) ! slot_ip env = start" "uregs s2 (c_pid ?c) ! slot_di env = param"
    "uregs s2 (c_pid ?c) ! slot_sp env = stack + len - 8" "ufx s2 (c_pid ?c) = ufx s (c_pid ?c)"
    using res regs lr env by (auto simp: env_ok_def)
  have al: "uint (stack + len - 8) mod 16 = 8" by (rule stack_top_aligned [OF stk(2,3)])
  let ?l = "ensure_open uc (l\<lparr>args_live := Suc (args_live l)\<rparr>)"
  have "CreateFiber env uc len start param l s = Inr ((?n, ?l\<lparr>args_live := args_live ?l - 1\<rparr>), s1)"
    using cr ok stk(1) r libc_result_small(2) [OF n]
    by (simp add: CreateFiber_def sys_ioctl_def no_out_def Let_def)
  moreover have "\<exists>l2. SwitchToFiber env uc ?n (?l\<lparr>args_live := args_live ?l - 1\<rparr>) s1 = Inr (l2, s2)"
    using sw ok(4) by (simp add: SwitchToFiber_def sys_ioctl_def no_out_def Let_def usable_again)
  ultimately show ?thesis using u al by blast
qed

section \<open>Local storage through the library\<close>

text \<open>Through the library as through the module: \<^verbatim>\<open>FlsGetValue\<close> returns what
  \<^verbatim>\<open>FlsSetValue\<close> has put into an allocated slot of the caller's fiber, 0 included.\<close>

theorem FlsGetValue_after_FlsSetValue:
  assumes k: "kinv env s" and f: "caller_fiber env (kcall uc) s = Some fa" "fibs s fa = Some f"
    and i: "i < BITS_PER_LONG" "bit (fls_bitmap f) i"
    and ok: "ok_args (kcall uc)" "user_writable (kcall uc)" "ok_malloc uc" "usable uc l"
  shows "\<exists>l1 s1 l2. FlsSetValue env uc (of_nat i) v l s = Inr (l1, s1) \<and>
    FlsGetValue env uc (of_nat i) l1 s1 = Inr ((v, l2), s1)"
proof -
  let ?c = "(kcall uc)\<lparr>user_fls := Some \<lparr>dwFlsIndex = of_nat i, lpFlsData = v\<rparr>\<rparr>"
  let ?d = "(kcall uc)\<lparr>user_fls := Some \<lparr>dwFlsIndex = of_nat i, lpFlsData = garbage uc\<rparr>\<rparr>"
  have a: "fls_slots f i \<noteq> None" using i by (simp add: fls_slots_def)
  obtain f' where f': "fls_set_slot (of_nat i) v f = Inr f'" using fls.set_law [OF i(1), of v f] by blast
  let ?s = "s\<lparr>fibs := (fibs s)(fa \<mapsto> f')\<rparr>"
  have cf: "caller_fiber env ?c s = Some fa" "caller_fiber env ?d ?s = Some fa"
    using caller_fiber_cong [of ?c "kcall uc"] caller_fiber_cong [of ?d "kcall uc"] f by simp_all
  have s: "ioctl_fls_set env ?c s = Inr (0, ?s)"
    using fls_set_command [OF k cf(1) f(2), of "\<lparr>dwFlsIndex = of_nat i, lpFlsData = v\<rparr>" f'] ok f' by simp
  have k': "kinv env ?s" by (rule fls_update_kinv [OF k f]) (use fls_slot_keeps(3) [OF f'] in simp_all)
  have g: "ioctl_fls_get env ?d ?s = Inr ((1, Some \<lparr>dwFlsIndex = of_nat i, lpFlsData = v\<rparr>), ?s)"
    using fls_get_command [OF k' cf(2), of f' "\<lparr>dwFlsIndex = of_nat i, lpFlsData = garbage uc\<rparr>" "Some v"]
      fls.get_after_set [OF i(1) a f'] ok by simp
  have one: "libc_result 1 \<noteq> - 1" using libc_result_small(1) [of 1] by simp
  have "\<exists>l1. FlsSetValue env uc (of_nat i) v l s = Inr (l1, ?s) \<and> usable uc l1"
    using s ok by (simp add: FlsSetValue_def sys_ioctl_def no_out_def Let_def)
  moreover have "\<exists>l2. FlsGetValue env uc (of_nat i) l1 ?s = Inr ((v, l2), ?s)" if "usable uc l1" for l1
    using g ok that one by (simp add: FlsGetValue_def sys_ioctl_def no_out_def Let_def)
  ultimately show ?thesis by blast
qed

section \<open>Concrete calls\<close>

definition demo_ucall :: ucall where
  "demo_ucall = \<lparr>kcall = demo_call 7 7 0, open_result = 3, memalign = Some 65536, ok_malloc = True, garbage = 5\<rparr>"

definition demo_lib :: lib where
  "demo_lib = \<lparr>fd = 0, opened = False, args_live = 0\<rparr>"

lemma demo_usable: "usable demo_ucall demo_lib"
  by (simp add: usable_def demo_ucall_def demo_lib_def)

theorem FlsFree_always_true_witness:
  "\<exists>b l' s'. FlsFree demo_env demo_ucall (- 1) demo_lib demo0 = Inr ((b, l'), s') \<and> b"
proof -
  let ?c = "(kcall demo_ucall)\<lparr>c_arg := - 1\<rparr>"
  obtain x where "ioctl_fls_free demo_env ?c demo0 = Inr x"
    using fls_free_total [OF demo0(1), of ?c] by (auto simp: demo_ucall_def)
  then have "\<exists>b l' s'. FlsFree demo_env demo_ucall (- 1) demo_lib demo0 = Inr ((b, l'), s')"
    using usable_fd [OF demo_usable] by (cases x) (auto simp: FlsFree_def sys_ioctl_def no_out_def Let_def)
  then show ?thesis using FlsFree_always_true [OF demo0(1) demo_usable] by blast
qed

theorem create_then_switch_witness:
  "\<exists>l1 s1 l2 s2. CreateFiber demo_env demo_ucall 8192 0x400000 42 demo_lib demo1 = Inr ((1, l1), s1) \<and>
    SwitchToFiber demo_env demo_ucall 1 l1 s1 = Inr (l2, s2) \<and> uregs s2 7 ! 16 = 0x400000 \<and>
    uregs s2 7 ! 14 = 42 \<and> uregs s2 7 ! 19 = 73720"
proof -
  have k: "kinv demo_env demo1" using demo1 by simp
  have c: "kcall demo_ucall = demo_call 7 7 0" "memalign demo_ucall = Some 65536" "ok_malloc demo_ucall"
    by (simp_all add: demo_ucall_def)
  have e: "slot_ip demo_env = 16" "slot_di demo_env = 14" "slot_sp demo_env = 19" by (simp_all add: demo_env_def)
  have "kabs demo_env demo1 (c_tgid (kcall demo_ucall)) = Some \<lparr>next_index = 1, live = {0}, cur = [7 \<mapsto> 0]\<rparr>"
    using demo1 by (simp add: c)
  from create_then_switch [OF k demo_env_ok this, of demo_lib 65536 8192 "0x400000" 42] demo_usable
  obtain h l1 s1 l2 s2 where r: "CreateFiber demo_env demo_ucall 8192 0x400000 42 demo_lib demo1 = Inr ((h, l1), s1)"
    "SwitchToFiber demo_env demo_ucall h l1 s1 = Inr (l2, s2)" "h = 1" "uregs s2 7 ! 16 = 0x400000"
    "uregs s2 7 ! 14 = 42" "uregs s2 7 ! 19 = 73720"
    by (auto simp: c e)
  then show ?thesis by blast
qed

theorem FlsGetValue_after_FlsSetValue_witness:
  "\<exists>s l1 s1 l2. kinv demo_env s \<and> FlsSetValue demo_env demo_ucall 0 77 demo_lib s = Inr (l1, s1) \<and>
    FlsGetValue demo_env demo_ucall 0 l1 s1 = Inr ((77, l2), s1)"
proof (rule demo_bitmap [of 0 1])
  fix fa f s
  assume s: "kinv demo_env s" "caller_fiber demo_env (demo_call 7 7 0) s = Some fa" "fibs s fa = Some f" "fls_bitmap f = 1"
  have c: "kcall demo_ucall = demo_call 7 7 0" "ok_malloc demo_ucall" by (simp_all add: demo_ucall_def)
  show ?thesis
    using FlsGetValue_after_FlsSetValue [OF s(1) _ s(3), of demo_ucall 0 demo_lib 77] s demo_usable c
    by (auto simp: BITS_PER_LONG_def)
qed

end
