(* ===== verification/Proc_Views.thy ===== *)
theory Proc_Views
  imports Fls_Commands
begin

text \<open>
  What the probe on \<^verbatim>\<open>finish_task_switch\<close> charges, and what the directory
  \<^verbatim>\<open>/proc/<pid>/fibers\<close> shows: exactly the live fibers, each under its name, and where the
  code of \<^verbatim>\<open>proc.c\<close> follows a pointer it should not.
\<close>

section \<open>Time accounting\<close>

lemma with_task_caller:
  assumes k: "kinv env s" and f: "caller_fiber env c s = Some fa" "fibs s fa = Some f"
  shows "with_task env (c_tgid c, c_pid c) s (\<lambda>fa. modify_fib fa g) = Inr (s\<lparr>fibs := (fibs s)(fa \<mapsto> g f)\<rparr>)"
proof (rule search_process_cases [OF k, of "c_tgid c"])
  assume "search_process env (c_tgid c) s = Inr None"
  with f show ?thesis by (simp add: caller_fiber_def)
next
  fix pa p assume pa: "search_process env (c_tgid c) s = Inr (Some pa)" "procs s pa = Some p"
    and p: "proc_inv env s p"
  note st = search_thread_find [OF pa(2) proc_locks(2) [OF p], of env "c_pid c"]
  show ?thesis
    by (rule thread_find_cases [OF p, of "c_pid c"])
      (use f pa st in \<open>auto simp: caller_fiber_def with_task_def\<close>)
qed

text \<open>Time accounting: when the scheduler hands a processor from one registered thread to another,
  the fiber of the first is charged with the microseconds since its clock was started, the clock of the
  fiber of the second is started, and nothing else changes but the record of who holds the processor.\<close>

theorem switch_handler_charges:
  assumes k: "kinv env s" and c: "caller_fiber env c s = Some fa" "fibs s fa = Some f"
    and d: "caller_fiber env d s = Some fb" "fibs s fb = Some g" and ne: "fa \<noteq> fb"
    and cpu: "scheduled cpu = Some (c_tgid c, c_pid c)"
  shows "switch_handler env cpu (c_tgid d, c_pid d) t1 t2 scheduled s =
    Inr (scheduled(cpu \<mapsto> (c_tgid d, c_pid d)),
      s\<lparr>fibs := (fibs s)(fa \<mapsto> f\<lparr>total_time := total_time f + (nanos t1 - starting_time f) div 1000\<rparr>,
                         fb \<mapsto> g\<lparr>starting_time := nanos t2\<rparr>)\<rparr>)"
proof -
  let ?s = "s\<lparr>fibs := (fibs s)(fa \<mapsto> charge t1 f)\<rparr>"
  have 1: "with_task env (c_tgid c, c_pid c) s (\<lambda>fa. modify_fib fa (charge t1)) = Inr ?s"
    by (rule with_task_caller [OF k c])
  have k': "kinv env ?s" by (rule fls_update_kinv [OF k c]) (simp_all add: charge_def)
  have "caller_fiber env d ?s = Some fb" "fibs ?s fb = Some g" using d ne by simp_all
  from with_task_caller [OF k' this, of "\<lambda>f. f\<lparr>starting_time := nanos t2\<rparr>"]
  show ?thesis using 1 cpu by (simp add: switch_handler_def) (simp add: charge_def)
qed

lemma caller_of_cur:
  assumes k: "kinv env s" and q: "kabs env s (c_tgid c) = Some q" "cur q (c_pid c) = Some i"
  obtains fa f where "caller_fiber env c s = Some fa" "fibs s fa = Some f" "index f = i"
proof (rule search_process_cases [OF k, of "c_tgid c"])
  assume "search_process env (c_tgid c) s = Inr None"
  from abs_absent [OF this] show thesis using q by simp
next
  fix pa p assume pa: "search_process env (c_tgid c) s = Inr (Some pa)" "procs s pa = Some p" "proc_inv env s p"
  have a: "cur (abs_proc env s p) (c_pid c) = Some i" using abs_found [OF pa(1,2)] q by simp
  show thesis
    by (rule thread_find_cases [OF pa(3), of "c_pid c"])
      (use a pa that in \<open>auto simp: abs_proc_def caller_fiber_def fkey_def\<close>)
qed

definition demo5 :: kstate where
  "demo5 = then_state demo1 (ioctl_convert demo_env (demo_call 7 8 0) demo1)"

lemma demo5: "ioctl_convert demo_env (demo_call 7 8 0) demo1 = Inr (1, demo5) \<and> kinv demo_env demo5 \<and>
    kabs demo_env demo5 = [7 \<mapsto> \<lparr>next_index = 2, live = {0, 1}, cur = [7 \<mapsto> 0, 8 \<mapsto> 1]\<rparr>]"
  using demo1 by (intro convert_step)
    (auto simp: demo5_def spec_convert_def spec_register_def split: if_splits)

theorem switch_handler_charges_witness:
  "\<exists>fa fb f g. fibs demo5 fa = Some f \<and> fibs demo5 fb = Some g \<and> index f = 0 \<and> index g = 1 \<and>
    (\<exists>s'. switch_handler demo_env 0 (7, 8) \<lparr>tv_sec = 9, tv_nsec = 0\<rparr> \<lparr>tv_sec = 9, tv_nsec = 5\<rparr> [0 \<mapsto> (7, 7)] demo5 =
       Inr ([0 \<mapsto> (7, 8)], s') \<and>
     fibs s' fa = Some (f\<lparr>total_time := total_time f + (9000000000 - starting_time f) div 1000\<rparr>))"
proof -
  have k: "kinv demo_env demo5" and q: "kabs demo_env demo5 7 = Some \<lparr>next_index = 2, live = {0, 1}, cur = [7 \<mapsto> 0, 8 \<mapsto> 1]\<rparr>"
    using demo5 by simp_all
  obtain fa f where f: "caller_fiber demo_env (demo_call 7 7 0) demo5 = Some fa" "fibs demo5 fa = Some f" "index f = 0"
    by (rule caller_of_cur [OF k, of "demo_call 7 7 0"]) (use q in auto)
  obtain fb g where g: "caller_fiber demo_env (demo_call 7 8 0) demo5 = Some fb" "fibs demo5 fb = Some g" "index g = 1"
    by (rule caller_of_cur [OF k, of "demo_call 7 8 0"]) (use q in auto)
  have "fa \<noteq> fb" using f g by auto
  from switch_handler_charges [OF k f(1,2) g(1,2) this, of "[0 \<mapsto> (7, 7)]" 0 "\<lparr>tv_sec = 9, tv_nsec = 0\<rparr>" "\<lparr>tv_sec = 9, tv_nsec = 5\<rparr>"]
  show ?thesis using f(2,3) g(2,3) \<open>fa \<noteq> fb\<close> by (auto simp: nanos_def)
qed

section \<open>The directory\<close>

lemma fill_entries_exact:
  assumes "\<And>fa. fa \<in> set fas \<Longrightarrow> \<exists>f. fibs s fa = Some f \<and> unat (index f) < length ents"
    and "\<And>fa fb f g. fa \<in> set fas \<Longrightarrow> fb \<in> set fas \<Longrightarrow> fibs s fa = Some f \<Longrightarrow> fibs s fb = Some g \<Longrightarrow>
      index f = index g \<Longrightarrow> fa = fb"
  shows "\<exists>ents'. fill_entries s fas ents = Inr ents' \<and> length ents' = length ents \<and>
    (\<forall>fa\<in>set fas. \<forall>f. fibs s fa = Some f \<longrightarrow> ents' ! unat (index f) = fiber_entry f) \<and>
    (\<forall>i<length ents. (\<forall>fa\<in>set fas. \<forall>f. fibs s fa = Some f \<longrightarrow> unat (index f) \<noteq> i) \<longrightarrow> ents' ! i = ents ! i)"
  using assms
proof (induction fas arbitrary: ents)
  case (Cons a fas)
  obtain f where f: "fibs s a = Some f" "unat (index f) < length ents" using Cons.prems(1) [of a] by auto
  let ?e = "ents[unat (index f) := fiber_entry f]"
  obtain ents' where e: "fill_entries s fas ?e = Inr ents'" "length ents' = length ents"
    "\<And>fa f. fa \<in> set fas \<Longrightarrow> fibs s fa = Some f \<Longrightarrow> ents' ! unat (index f) = fiber_entry f"
    "\<And>i. i < length ents \<Longrightarrow> (\<forall>fa\<in>set fas. \<forall>f. fibs s fa = Some f \<longrightarrow> unat (index f) \<noteq> i) \<Longrightarrow> ents' ! i = ?e ! i"
    using Cons.IH [of ?e] Cons.prems by fastforce
  have "ents' ! unat (index f) = fiber_entry f"
  proof (cases "a \<in> set fas")
    case True
    then show ?thesis using e(3) f(1) by simp
  next
    case False
    have "unat (index g) \<noteq> unat (index f)" if "fa \<in> set fas" "fibs s fa = Some g" for fa g
      using Cons.prems(2) [of fa a g f] that f(1) False by (auto simp: word_unat_eq_iff)
    then show ?thesis using e(4) [OF f(2)] f(2) by simp
  qed
  then have "ents' ! unat (index g) = fiber_entry g" if "fa = a \<or> fa \<in> set fas" "fibs s fa = Some g" for fa g
    using that e(3) f(1) by auto
  moreover have "ents' ! i = ents ! i" if "i < length ents" "\<forall>fa\<in>set (a # fas). \<forall>f. fibs s fa = Some f \<longrightarrow> unat (index f) \<noteq> i" for i
    using that e(4) [of i] f(1) by auto
  ultimately show ?case using f e(1,2) by auto
qed simp

lemma fiber_chain_set:
  assumes "env_ok env" "proc_inv env s p"
  shows "set (fiber_chain p) = mem (fibers p)"
proof -
  have "b < 1024" if "fa \<in> set (fibers p b)" for fa b
    using assms that proc_fibers [OF assms(2)] by (fastforce simp: fib_tab_def table_ok_def env_ok_def)
  then have "x \<in> set (fiber_chain p)" if "x \<in> mem (fibers p)" for x
    using that by (fastforce simp: fiber_chain_def mem_def)
  then show ?thesis by (auto simp: fiber_chain_def mem_def)
qed

lemma fiber_entries_exact:
  assumes k: "kinv env s" and env: "env_ok env" and pa: "pa \<in> mem (list_process s)" "procs s pa = Some p"
  shows "\<exists>ents. fiber_entries True pa s = Inr (ents, kzalloc_args True s) \<and> length ents = unat (fiber_id p) \<and>
    (\<forall>fa\<in>mem (fibers p). \<forall>f. fibs s fa = Some f \<longrightarrow> unat (index f) < length ents \<and> ents ! unat (index f) = fiber_entry f) \<and>
    (\<forall>i<length ents. of_nat i \<notin> live (abs_proc env s p) \<longrightarrow> ents ! i = zero_entry)"
proof -
  note p = kinv_proc [OF k pa]
  note ch = fiber_chain_set [OF env p]
  have b: "\<exists>f. fibs s fa = Some f \<and> unat (index f) < unat (fiber_id p)" if "fa \<in> mem (fibers p)" for fa
    using proc_fiber [OF p that] by (auto simp: fiber_inv_def word_less_nat_alt)
  have u: "fa = fb" if "fa \<in> mem (fibers p)" "fb \<in> mem (fibers p)" "fibs s fa = Some f" "fibs s fb = Some g" "index f = index g"
    for fa fb f g using fkey_inj [OF p that(1,2)] that(3-5) by (simp add: fkey_def)
  obtain ents where e: "fill_entries s (fiber_chain p) (replicate (unat (fiber_id p)) zero_entry) = Inr ents"
    "length ents = unat (fiber_id p)"
    "\<And>fa f. fa \<in> mem (fibers p) \<Longrightarrow> fibs s fa = Some f \<Longrightarrow> ents ! unat (index f) = fiber_entry f"
    "\<And>i. i < unat (fiber_id p) \<Longrightarrow> (\<forall>fa\<in>mem (fibers p). \<forall>f. fibs s fa = Some f \<longrightarrow> unat (index f) \<noteq> i) \<Longrightarrow> ents ! i = zero_entry"
    using fill_entries_exact [of "fiber_chain p" s "replicate (unat (fiber_id p)) zero_entry"] b u unfolding ch by fastforce
  have same: "fill_entries (s\<lparr>bufs_live := n\<rparr>) fas en = fill_entries s fas en" for n fas en
    by (induction fas arbitrary: en) (simp_all add: deref_def split: option.splits)
  have "fiber_entries True pa s = Inr (ents, kzalloc_args True s)"
    using pa(2) proc_locks [OF p] e(1) same
    by (simp add: fiber_entries_def spin_lock_fiber_def spin_unlock_fiber_def Let_def fiber_chain_def kzalloc_args_def fun_upd_idem)
  moreover have "ents ! i = zero_entry" if "i < length ents" "of_nat i \<notin> live (abs_proc env s p)" for i
    using that e(2) by (intro e(4)) (auto simp: live_iff)
  moreover have "unat (index f) < length ents \<and> ents ! unat (index f) = fiber_entry f"
    if "fa \<in> mem (fibers p)" "fibs s fa = Some f" for fa f
    using b [OF that(1)] e(2) e(3) [OF that] that(2) by auto
  ultimately show ?thesis using e(2) by (intro exI [of _ ents]) simp
qed

lemma directory_exact_aux:
  assumes k: "kinv env s" and env: "env_ok env" and q: "kabs env s tg = Some q"
  shows "\<exists>ents pa p. search_process env tg s = Inr (Some pa) \<and> procs s pa = Some p \<and>
    fibers_readdir env True (Some tg) s = Inr (Inr ents, kzalloc_args True s) \<and> length ents = unat (next_index q) \<and>
    (\<forall>fa\<in>mem (fibers p). \<forall>f. fibs s fa = Some f \<longrightarrow> unat (index f) < length ents \<and> ents ! unat (index f) = fiber_entry f) \<and>
    (\<forall>i<length ents. of_nat i \<notin> live q \<longrightarrow> ents ! i = zero_entry)"
proof (rule search_process_cases [OF k, of tg])
  assume "search_process env tg s = Inr None"
  from abs_absent [OF this] show ?thesis using q by simp
next
  fix pa p assume pa: "search_process env tg s = Inr (Some pa)" "pa \<in> mem (list_process s)" "procs s pa = Some p"
  have qp: "q = abs_proc env s p" using q abs_found [OF pa(1,3)] by simp
  then have n: "next_index q = fiber_id p" by (simp add: abs_proc_def)
  show ?thesis
    using fiber_entries_exact [OF k env pa(2,3)] pa(1,3) n qp by (fastforce simp: fibers_readdir_def)
qed

text \<open>C21. The directory \<^verbatim>\<open>/proc/<pid>/fibers\<close> of a registered process lists exactly its live
  fibers: the table handed to the kernel has one entry per index handed out so far, the entry of a live
  fiber carries its name, the others are empty, and no store leaves the table. (The table itself is
  never freed: one buffer more is live afterwards.)\<close>

theorem directory_exact:
  assumes "kinv env s" "env_ok env" "kabs env s tg = Some q"
  shows "\<exists>ents. fibers_readdir env True (Some tg) s = Inr (Inr ents, s\<lparr>bufs_live := Suc (bufs_live s)\<rparr>) \<and>
    length ents = unat (next_index q) \<and>
    (\<forall>i<length ents. if of_nat i \<in> live q
       then \<exists>fa f. fibs s fa = Some f \<and> index f = of_nat i \<and> ents ! i = fiber_entry f
       else ents ! i = zero_entry)"
proof -
  obtain ents pa p where e: "search_process env tg s = Inr (Some pa)" "procs s pa = Some p"
    "fibers_readdir env True (Some tg) s = Inr (Inr ents, kzalloc_args True s)" "length ents = unat (next_index q)"
    "\<And>fa f. fa \<in> mem (fibers p) \<Longrightarrow> fibs s fa = Some f \<Longrightarrow> unat (index f) < length ents \<and> ents ! unat (index f) = fiber_entry f"
    "\<And>i. i < length ents \<Longrightarrow> of_nat i \<notin> live q \<Longrightarrow> ents ! i = zero_entry"
    using directory_exact_aux [OF assms] by blast
  have q: "q = abs_proc env s p" using assms(3) abs_found [OF e(1,2)] by simp
  have "\<exists>fa f. fibs s fa = Some f \<and> index f = of_nat i \<and> ents ! i = fiber_entry f"
    if i: "i < length ents" "of_nat i \<in> live q" for i
  proof -
    obtain fa f where f: "fa \<in> mem (fibers p)" "fibs s fa = Some f" "index f = of_nat i"
      using i(2) by (auto simp: q live_iff)
    have "i < 2 ^ 64" using i(1) e(4) unsigned_less [where ?'a = nat, of "next_index q"] by simp
    then have "unat (index f) = i" using f(3) by (simp add: unsigned_of_nat take_bit_nat_eq_self)
    then show ?thesis using f e(5) [OF f(1,2)] by auto
  qed
  then show ?thesis using e(3,4,6) by (auto simp: kzalloc_args_def)
qed

theorem directory_exact_witness:
  "\<exists>ents. fibers_readdir demo_env True (Some 7) demo3 = Inr (Inr ents, demo3\<lparr>bufs_live := Suc (bufs_live demo3)\<rparr>) \<and>
    length ents = 2"
proof -
  have "kinv demo_env demo3" "kabs demo_env demo3 7 = Some \<lparr>next_index = 2, live = {0, 1}, cur = [7 \<mapsto> 1]\<rparr>"
    using demo3 by simp_all
  from directory_exact [OF this(1) demo_env_ok this(2)] show ?thesis by auto
qed

section \<open>Files\<close>

lemma fiber_found:
  assumes p: "proc_inv env s p" "procs s pa = Some p" and fa: "fa \<in> mem (fibers p)" "fibs s fa = Some f"
  shows "search_fiber env (ucast (index f)) pa s = Inr (Some fa)"
proof -
  have "fib_valid env (index f)"
    using table_ok_live [of "hash_long env" "fib_valid env" "fkey s" "fibers p" fa] fa proc_fibers [OF p(1)]
    by (auto simp: fib_tab_def fkey_def)
  then have "int_cut (index f) = index f" by (simp add: fib_valid_def hvalid_def)
  then show ?thesis using search_fiber_live(1) [OF p fa(1), of "index f"] fa(2) by (simp add: fkey_def)
qed

text \<open>A file opens the fiber it is named after: for every fiber of a registered process whose index
  has at most seven digits, \<^verbatim>\<open>open_file\<close> on the name the module gave it finds that very fiber.
  (\<^verbatim>\<open>kstrtoul\<close> is only assumed to read decimal numbers.)\<close>

theorem open_file_by_name:
  assumes k: "kinv env s" and pa: "search_process env tg s = Inr (Some pa)" "procs s pa = Some p"
    and fa: "fa \<in> mem (fibers p)" "fibs s fa = Some f"
    and small: "unat (index f) < 10 ^ 7" and kst: "\<And>n. n < 2 ^ 64 \<Longrightarrow> kstrtoul (dec n) = Some (of_nat n)"
  shows "open_file kstrtoul env uninit (Some tg) (snprintf8 (index f)) s = Inr (Some fa)"
proof -
  have "length (dec (unat (index f))) \<le> 7" by (rule length_dec_le) (use small in simp_all)
  then have "snprintf8 (index f) = dec (unat (index f))" by (simp add: snprintf8_def)
  moreover have "unat (index f) < 2 ^ 64" using small by simp
  ultimately have n: "kstrtoul (snprintf8 (index f)) = Some (index f)" using kst by simp
  have "pa \<in> mem (list_process s)"
    using pa(1) pidx.find_Some_iff [OF kinv_list [OF k] TrueI] by (auto simp: search_process_find)
  from kinv_proc [OF k this pa(2)] show ?thesis
    using fiber_found [OF _ pa(2) fa] n pa(1) by (simp add: open_file_def)
qed

text \<open>A file outlives its fiber: \<^verbatim>\<open>open_file\<close> keeps the raw pointer, so reading the file of
  the fiber a thread was running when it exited reads freed memory.\<close>

theorem show_file_after_exit:
  assumes "kinv env s" "caller_fiber env c s = Some fa" "Pre_Handler env c s = Inr (r, s')"
  shows "show_file ptr (Some fa) s' = Inl UseAfterFree"
  using assms(1)
proof (cases rule: Pre_Handler_cases [where c = c])
  case foreign
  then show ?thesis
  proof (rule_tac search_process_cases [OF assms(1), of "c_tgid c"])
    assume "search_process env (c_tgid c) s = Inr None"
    with assms(2) show ?thesis by (simp add: caller_fiber_def)
  next
    fix pa p assume pa: "search_process env (c_tgid c) s = Inr (Some pa)" "procs s pa = Some p" "proc_inv env s p"
    show ?thesis
    proof (rule thread_find_cases [OF pa(3), of "c_pid c"])
      assume "pid_find env (tkey s) (c_pid c) (threads p) = Inr None"
      with pa assms(2) show ?thesis by (simp add: caller_fiber_def)
    next
      fix ta t fb f
      assume t: "pid_find env (tkey s) (c_pid c) (threads p) = Inr (Some ta)" "thrs s ta = Some t" "active_fiber t = Some fb"
        "act s ta = Some fb" "fibs s fb = Some f"
      have "fb = fa" using assms(2) pa t(1,4) by (simp add: caller_fiber_def)
      moreover have "s' = exited pa ta fb p s"
        using Pre_Handler_success [OF pa(1,2) proc_locks(2) [OF pa(3)] t(1-3,5)] assms(3) by simp
      ultimately show ?thesis
        by (simp add: show_file_def exited_def unlink_thread_def unlink_process_def Let_def deref_def)
    qed
  qed
next
  case (registered pa p ta t fb f)
  have "fb = fa" using assms(2) registered by (simp add: caller_fiber_def)
  with registered assms(3) show ?thesis
    by (auto simp: show_file_def exited_def unlink_thread_def unlink_process_def Let_def deref_def)
qed

text \<open>The lookups do not expect a process without fibers: for a task whose process never called
  \<^verbatim>\<open>CONVERTTOFIBER\<close>, reading the directory lists nothing, but \<^verbatim>\<open>fibers_lookup\<close> and
  \<^verbatim>\<open>open_file\<close> dereference NULL.\<close>

theorem lookup_without_process:
  assumes "kinv env s" "kabs env s tg = None"
  shows "fibers_readdir env ok (Some tg) s = Inr (Inr [], s) \<and> fibers_lookup env ok (Some tg) s = Inl NullDeref \<and>
    open_file kstrtoul env uninit (Some tg) name s = Inl NullDeref"
proof (rule search_process_cases [OF assms(1), of tg])
  assume "search_process env tg s = Inr None"
  then show ?thesis by (simp add: fibers_readdir_def fibers_lookup_def open_file_def Let_def)
next
  fix pa p assume "search_process env tg s = Inr (Some pa)" "procs s pa = Some p"
  from abs_found [OF this] show ?thesis using assms(2) by simp
qed

theorem lookup_without_process_witness:
  "fibers_readdir demo_env True (Some 7) demo0 = Inr (Inr [], demo0) \<and>
   fibers_lookup demo_env True (Some 7) demo0 = Inl NullDeref"
  using lookup_without_process [OF demo0(1), of 7] by (simp add: demo0)

theorem show_file_after_exit_witness:
  "\<exists>fa r s'. Pre_Handler demo_env (demo_call 7 7 0) demo1 = Inr (r, s') \<and>
    show_file (\<lambda>_. ''0x0'') (Some fa) s' = Inl UseAfterFree \<and> (\<exists>x. show_file (\<lambda>_. ''0x0'') (Some fa) demo1 = Inr x)"
proof (rule demo_caller [of 0])
  fix fa f assume f: "caller_fiber demo_env (demo_call 7 7 0) demo1 = Some fa" "fibs demo1 fa = Some f"
  have k: "kinv demo_env demo1" using demo1 by simp
  then obtain r s' where r: "Pre_Handler demo_env (demo_call 7 7 0) demo1 = Inr (r, s')"
    using Pre_Handler_total by blast
  have "\<exists>x. show_file (\<lambda>_. ''0x0'') (Some fa) demo1 = Inr x" using f(2) by (simp add: show_file_def)
  with r show_file_after_exit [OF k f(1) r, of "\<lambda>_. ''0x0''"] show ?thesis by blast
qed

definition demo_kstrtoul :: "string \<Rightarrow> u64 option" where
  "demo_kstrtoul s = map_option of_nat (parse_dec s)"

theorem open_file_by_name_witness:
  "\<exists>fa f. fibs demo3 fa = Some f \<and> index f = 1 \<and>
    open_file demo_kstrtoul demo_env 0 (Some 7) (snprintf8 1) demo3 = Inr (Some fa)"
proof (rule search_process_cases [of demo_env demo3 7])
  show k: "kinv demo_env demo3" using demo3 by simp
  fix pa p assume pa: "search_process demo_env 7 demo3 = Inr (Some pa)" "procs demo3 pa = Some p"
  have "abs_proc demo_env demo3 p = \<lparr>next_index = 2, live = {0, 1}, cur = [7 \<mapsto> 1]\<rparr>"
    using abs_found [OF pa] demo3 by simp
  then obtain fa f where f: "fa \<in> mem (fibers p)" "fibs demo3 fa = Some f" "index f = 1"
    using live_iff [of 1 demo_env demo3 p] by auto
  have "demo_kstrtoul (dec n) = Some (of_nat n)" for n by (simp add: demo_kstrtoul_def)
  then have "open_file demo_kstrtoul demo_env 0 (Some 7) (snprintf8 (index f)) demo3 = Inr (Some fa)"
    using open_file_by_name [OF k pa f(1,2)] f(3) by simp
  with f show ?thesis by auto
next
  assume "search_process demo_env 7 demo3 = Inr None"
  from abs_absent [OF this] show ?thesis using demo3 by simp
qed

end
