(* ===== verification/Module_Init.thy ===== *)
theory Module_Init
  imports Prelude
begin

text \<open>
  Loading and unloading: the ftrace hooks of \<^verbatim>\<open>multi_thread/Module/proc.c\<close>
  (\<^verbatim>\<open>fh_install_hook\<close> to \<^verbatim>\<open>fh_exit\<close>) and the entry and exit functions of
  \<^verbatim>\<open>fiber_ioctl.c\<close>. What the kernel answers to a registration is a parameter; what is modelled is
  which registrations are in force when the functions return.
\<close>

section \<open>Hooks\<close>

text \<open>The two entries of \<^verbatim>\<open>hooks[]\<close> are known by the names of the functions they replace.\<close>

definition hooks :: "string list" where
  "hooks = [''proc_pident_readdir'', ''proc_pident_lookup'']"

text \<open>The kernel's answers, by hook name: the address of a symbol, the result of setting and of
  clearing the filter, of registering and of unregistering the handler.\<close>

record ftrace_env =
  kallsyms_lookup_name :: "string \<Rightarrow> u64"
  set_filter :: "string \<Rightarrow> int"
  clear_filter :: "string \<Rightarrow> int"
  register_ftrace :: "string \<Rightarrow> int"
  unregister_ftrace :: "string \<Rightarrow> int"

record ftrace_state =
  original :: "string \<Rightarrow> u64"       \<comment> \<open>\<^verbatim>\<open>*hook->original\<close>\<close>
  filtered :: "string \<Rightarrow> bool"      \<comment> \<open>the filter is set\<close>
  registered :: "string \<Rightarrow> bool"    \<comment> \<open>the handler is registered\<close>

definition ENOENT_err :: int where
  "ENOENT_err = 2"

definition fh_resolve_hook_address :: "ftrace_env \<Rightarrow> string \<Rightarrow> ftrace_state \<Rightarrow> int \<times> ftrace_state" where
  "fh_resolve_hook_address fe h st =
     (let address = kallsyms_lookup_name fe h in
      if address = 0 then (- ENOENT_err, st) else (0, st\<lparr>original := (original st)(h := address)\<rparr>))"

text \<open>A request changes the state only if the kernel answers 0.\<close>

definition ftrace_set_filter :: "ftrace_env \<Rightarrow> string \<Rightarrow> ftrace_state \<Rightarrow> int \<times> ftrace_state" where
  "ftrace_set_filter fe h st =
     (set_filter fe h, if set_filter fe h = 0 then st\<lparr>filtered := (filtered st)(h := True)\<rparr> else st)"

definition ftrace_clear_filter :: "ftrace_env \<Rightarrow> string \<Rightarrow> ftrace_state \<Rightarrow> int \<times> ftrace_state" where
  "ftrace_clear_filter fe h st =
     (clear_filter fe h, if clear_filter fe h = 0 then st\<lparr>filtered := (filtered st)(h := False)\<rparr> else st)"

definition ftrace_register :: "ftrace_env \<Rightarrow> string \<Rightarrow> ftrace_state \<Rightarrow> int \<times> ftrace_state" where
  "ftrace_register fe h st =
     (register_ftrace fe h, if register_ftrace fe h = 0 then st\<lparr>registered := (registered st)(h := True)\<rparr> else st)"

definition ftrace_unregister :: "ftrace_env \<Rightarrow> string \<Rightarrow> ftrace_state \<Rightarrow> int \<times> ftrace_state" where
  "ftrace_unregister fe h st =
     (unregister_ftrace fe h, if unregister_ftrace fe h = 0 then st\<lparr>registered := (registered st)(h := False)\<rparr> else st)"

definition fh_install_hook :: "ftrace_env \<Rightarrow> string \<Rightarrow> ftrace_state \<Rightarrow> int \<times> ftrace_state" where
  "fh_install_hook fe h st =
     (case fh_resolve_hook_address fe h st of (err, st) \<Rightarrow>
      if err \<noteq> 0 then (err, st)
      else case ftrace_set_filter fe h st of (err, st) \<Rightarrow>
        if err \<noteq> 0 then (err, st)
        else case ftrace_register fe h st of (err, st) \<Rightarrow>
          if err \<noteq> 0 then (err, snd (ftrace_clear_filter fe h st)) else (0, st))"

definition fh_remove_hook :: "ftrace_env \<Rightarrow> string \<Rightarrow> ftrace_state \<Rightarrow> ftrace_state" where
  "fh_remove_hook fe h st = snd (ftrace_clear_filter fe h (snd (ftrace_unregister fe h st)))"

text \<open>The roll-back loop \<^verbatim>\<open>while (i != 0) fh_remove_hook(&hooks[--i])\<close>.\<close>

fun roll_back :: "ftrace_env \<Rightarrow> string list \<Rightarrow> nat \<Rightarrow> ftrace_state \<Rightarrow> ftrace_state" where
  "roll_back fe hs 0 st = st"
| "roll_back fe hs (Suc i) st = roll_back fe hs i (fh_remove_hook fe (hs ! i) st)"

function install_from :: "ftrace_env \<Rightarrow> string list \<Rightarrow> nat \<Rightarrow> ftrace_state \<Rightarrow> int \<times> ftrace_state" where
  "install_from fe hs i st =
     (if i < length hs then
        (case fh_install_hook fe (hs ! i) st of (err, st) \<Rightarrow>
           if err \<noteq> 0 then (err, roll_back fe hs i st) else install_from fe hs (Suc i) st)
      else (0, st))"
  by auto
termination by (relation "measure (\<lambda>(fe, hs, i, st). length hs - i)") auto

declare install_from.simps [simp del]

definition fh_install_hooks :: "ftrace_env \<Rightarrow> string list \<Rightarrow> ftrace_state \<Rightarrow> int \<times> ftrace_state" where
  "fh_install_hooks fe hs st = install_from fe hs 0 st"

definition fh_remove_hooks :: "ftrace_env \<Rightarrow> string list \<Rightarrow> ftrace_state \<Rightarrow> ftrace_state" where
  "fh_remove_hooks fe hs st = fold (fh_remove_hook fe) hs st"

text \<open>The handler on a hooked function: the new instruction pointer. Calls from the module itself reach the
  original.\<close>

definition fh_ftrace_thunk :: "(u64 \<Rightarrow> bool) \<Rightarrow> u64 \<Rightarrow> u64 \<Rightarrow> u64 \<Rightarrow> u64" where
  "fh_ftrace_thunk within_module hook_function parent_ip ip = (if \<not> within_module parent_ip then hook_function else ip)"

section \<open>What installation leaves behind\<close>

text \<open>The hooks in force.\<close>

definition in_force :: "ftrace_state \<Rightarrow> string set" where
  "in_force st = {h. filtered st h \<or> registered st h}"

lemma fh_remove_hook_left:
  "registered (fh_remove_hook fe h st) g \<longleftrightarrow> registered st g \<and> (g = h \<longrightarrow> unregister_ftrace fe h \<noteq> 0)"
  "filtered (fh_remove_hook fe h st) g \<longleftrightarrow> filtered st g \<and> (g = h \<longrightarrow> clear_filter fe h \<noteq> 0)"
  by (auto simp: fh_remove_hook_def ftrace_clear_filter_def ftrace_unregister_def)

lemma fh_install_hook_cases:
  obtains (ok) st' where "fh_install_hook fe h st = (0, st')" "registered st' = (registered st)(h := True)"
      "filtered st' = (filtered st)(h := True)"
  | (failed) err st' where "fh_install_hook fe h st = (err, st')" "err \<noteq> 0" "registered st' = registered st"
      "\<And>g. filtered st' g \<Longrightarrow> filtered st g \<or> g = h \<and> clear_filter fe h \<noteq> 0"
      "\<And>g. filtered st g \<Longrightarrow> g \<noteq> h \<Longrightarrow> filtered st' g"
proof (cases "fst (fh_install_hook fe h st) = 0")
  case True
  obtain st' where st': "fh_install_hook fe h st = (0, st')" using True by (cases "fh_install_hook fe h st") auto
  show thesis
    by (rule ok [OF st'])
      (use st' in \<open>auto simp: fh_install_hook_def fh_resolve_hook_address_def ftrace_set_filter_def ftrace_register_def
        ENOENT_err_def Let_def split: if_splits\<close>)
next
  case False
  then show thesis
    by (intro failed [of "fst (fh_install_hook fe h st)" "snd (fh_install_hook fe h st)"])
      (auto simp: fh_install_hook_def fh_resolve_hook_address_def ftrace_set_filter_def ftrace_register_def
        ftrace_clear_filter_def ENOENT_err_def Let_def split: if_splits prod.splits)
qed

lemma roll_back_left:
  assumes "i \<le> length hs"
  shows "registered (roll_back fe hs i st) g \<longleftrightarrow> registered st g \<and> (g \<in> set (take i hs) \<longrightarrow> unregister_ftrace fe g \<noteq> 0)"
    "filtered (roll_back fe hs i st) g \<longleftrightarrow> filtered st g \<and> (g \<in> set (take i hs) \<longrightarrow> clear_filter fe g \<noteq> 0)"
  using assms by (induction i arbitrary: st) (auto simp: fh_remove_hook_left take_Suc_conv_app_nth)

text \<open>What is left when the installation of hook \<open>i\<close> fails: of the hooks before it, those the kernel would
  not unregister, and their filters and that of hook \<open>i\<close> where it would not clear them.\<close>

definition rolled_back :: "ftrace_env \<Rightarrow> string list \<Rightarrow> nat \<Rightarrow> ftrace_state \<Rightarrow> bool" where
  "rolled_back fe hs i st \<longleftrightarrow> i < length hs \<and>
     {h. registered st h} = {h \<in> set (take i hs). unregister_ftrace fe h \<noteq> 0} \<and>
     {h \<in> set (take i hs). clear_filter fe h \<noteq> 0} \<subseteq> {h. filtered st h} \<and>
     {h. filtered st h} \<subseteq> {h \<in> set (take (Suc i) hs). clear_filter fe h \<noteq> 0}"

lemma install_from_left:
  assumes "distinct hs" "i \<le> length hs" "{h. registered st h} = set (take i hs)" "{h. filtered st h} = set (take i hs)"
  shows "\<exists>err st'. install_from fe hs i st = (err, st') \<and>
    (if err = 0 then {h. registered st' h} = set hs \<and> {h. filtered st' h} = set hs else \<exists>i. rolled_back fe hs i st')"
  using assms
proof (induction fe hs i st rule: install_from.induct)
  case (1 fe hs i st)
  show ?case
  proof (cases "i < length hs")
    case False
    then have "install_from fe hs i st = (0, st)" by (subst install_from.simps) simp
    moreover have "take i hs = hs" using False by simp
    ultimately show ?thesis using "1.prems"(3,4) by simp
  next
    case True
    have new: "hs ! i \<notin> set (take i hs)"
      using "1.prems"(1) True by (auto simp: in_set_conv_nth distinct_conv_nth)
    have at: "registered st g \<longleftrightarrow> g \<in> set (take i hs)" "filtered st g \<longleftrightarrow> g \<in> set (take i hs)" for g
      using "1.prems"(3,4) by blast+
    have suc: "set (take (Suc i) hs) = insert (hs ! i) (set (take i hs))" using True by (simp add: take_Suc_conv_app_nth)
    show ?thesis
    proof (rule fh_install_hook_cases [of fe "hs ! i" st])
      fix err st' assume f: "fh_install_hook fe (hs ! i) st = (err, st')" "err \<noteq> 0" "registered st' = registered st"
        "\<And>g. filtered st' g \<Longrightarrow> filtered st g \<or> g = hs ! i \<and> clear_filter fe (hs ! i) \<noteq> 0"
        "\<And>g. filtered st g \<Longrightarrow> g \<noteq> hs ! i \<Longrightarrow> filtered st' g"
      have "install_from fe hs i st = (err, roll_back fe hs i st')"
        using True f(1,2) by (simp add: install_from.simps [of fe hs i])
      moreover have "rolled_back fe hs i (roll_back fe hs i st')"
      proof -
        have 1: "filtered st' x" if "x \<in> set (take i hs)" for x
          using f(5) [of x] that new at by auto
        have 2: "x \<in> set (take i hs) \<or> x = hs ! i \<and> clear_filter fe (hs ! i) \<noteq> 0" if "filtered st' x" for x
          using f(4) [OF that] at by auto
        show ?thesis
          using True f(3) new "1.prems"(2) unfolding rolled_back_def suc
          by (auto simp: roll_back_left at 1 dest: 2)
      qed
      ultimately show ?thesis using f(2) by auto
    next
      fix st' assume ok: "fh_install_hook fe (hs ! i) st = (0, st')" "registered st' = (registered st)(hs ! i := True)"
        "filtered st' = (filtered st)(hs ! i := True)"
      have "{h. registered st' h} = set (take (Suc i) hs)" "{h. filtered st' h} = set (take (Suc i) hs)"
        unfolding suc ok(2,3) using at by auto
      then have "\<exists>err st''. install_from fe hs (Suc i) st' = (err, st'') \<and>
        (if err = 0 then {h. registered st'' h} = set hs \<and> {h. filtered st'' h} = set hs else \<exists>i. rolled_back fe hs i st'')"
        using "1.prems" True ok(1) by (intro "1.IH" [of 0 st']) auto
      then show ?thesis using True ok(1) by (simp add: install_from.simps [of fe hs i])
    qed
  qed
qed

section \<open>Entry and exit of the module\<close>

text \<open>The kernel's answers to the registrations of \<^verbatim>\<open>fiber_ioctl_init\<close>; an error of
  \<^verbatim>\<open>class_create\<close> or \<^verbatim>\<open>device_create\<close> is the number \<^verbatim>\<open>PTR_ERR\<close> reads.\<close>

record module_env =
  alloc_chrdev_region :: int
  cdev_add :: int
  class_create :: int
  device_create :: int
  register_kprobe :: int
  register_kretprobe :: int
  ftr :: ftrace_env

record module_state =
  region :: bool
  cdev :: bool
  cls :: bool
  device :: bool
  kprobe :: bool
  kretprobe :: bool
  fts :: ftrace_state

definition fh_init :: "module_env \<Rightarrow> module_state \<Rightarrow> int \<times> module_state" where
  "fh_init me st =
     (case fh_install_hooks (ftr me) hooks (fts st) of (err, ft) \<Rightarrow>
      let st = st\<lparr>fts := ft\<rparr> in
      if err \<noteq> 0 then (err, st)
      else if register_kretprobe me < 0 then (- 1, st)
      else (0, st\<lparr>kretprobe := True\<rparr>))"

definition fh_exit :: "module_env \<Rightarrow> module_state \<Rightarrow> module_state" where
  "fh_exit me st = st\<lparr>fts := fh_remove_hooks (ftr me) hooks (fts st), kretprobe := False\<rparr>"

definition fiber_ioctl_init :: "module_env \<Rightarrow> module_state \<Rightarrow> int \<times> module_state" where
  "fiber_ioctl_init me st =
     (if alloc_chrdev_region me < 0 then (alloc_chrdev_region me, st)
      else let st = st\<lparr>region := True\<rparr> in
      if cdev_add me < 0 then (cdev_add me, st)
      else let st = st\<lparr>cdev := True\<rparr> in
      if class_create me \<noteq> 0 then (class_create me, st\<lparr>cdev := False, region := False\<rparr>)
      else let st = st\<lparr>cls := True\<rparr> in
      if device_create me \<noteq> 0 then (device_create me, st\<lparr>cls := False, cdev := False, region := False\<rparr>)
      else let st = st\<lparr>device := True, kprobe := (register_kprobe me = 0)\<rparr> in
      case fh_init me st of (ret, st) \<Rightarrow> if ret < 0 then (- 1, st) else (0, st))"

definition fiber_ioctl_exit :: "module_env \<Rightarrow> module_state \<Rightarrow> module_state" where
  "fiber_ioctl_exit me st =
     fh_exit me (st\<lparr>device := False, cls := False, cdev := False, region := False, kprobe := False\<rparr>)"

definition unloaded :: module_state where
  "unloaded = \<lparr>region = False, cdev = False, cls = False, device = False, kprobe = False, kretprobe = False,
     fts = \<lparr>original = (\<lambda>_. 0), filtered = (\<lambda>_. False), registered = (\<lambda>_. False)\<rparr>\<rparr>"

text \<open>Is nothing of the module registered with the kernel?\<close>

definition nothing_held :: "module_state \<Rightarrow> bool" where
  "nothing_held st \<longleftrightarrow> \<not> region st \<and> \<not> cdev st \<and> \<not> cls st \<and> \<not> device st \<and> \<not> kprobe st \<and> \<not> kretprobe st \<and>
     in_force (fts st) = {}"

lemma hooks_distinct: "distinct hooks"
  by (simp add: hooks_def)

lemma not_in_force: "in_force st = {} \<longleftrightarrow> {h. registered st h} = {} \<and> {h. filtered st h} = {}"
  by (auto simp: in_force_def)

lemma install_left:
  assumes "distinct hs" "in_force st = {}" "fh_install_hooks fe hs st = (err, st')"
  shows "if err = 0 then {h. registered st' h} = set hs \<and> {h. filtered st' h} = set hs else \<exists>i. rolled_back fe hs i st'"
  using install_from_left [of hs 0 st fe] assms by (simp add: fh_install_hooks_def not_in_force)


text \<open>The second hook is refused, and the kernel then refuses to unregister the first.\<close>

definition demo_ftrace :: ftrace_env where
  "demo_ftrace = \<lparr>kallsyms_lookup_name = (\<lambda>_. 4096), set_filter = (\<lambda>_. 0), clear_filter = (\<lambda>_. 0),
     register_ftrace = (\<lambda>h. if h = ''proc_pident_lookup'' then - 16 else 0), unregister_ftrace = (\<lambda>_. - 22)\<rparr>"


text \<open>For the way back to the kernel's state before loading, the undoing requests have to succeed.\<close>

definition undo_works :: "ftrace_env \<Rightarrow> bool" where
  "undo_works fe \<longleftrightarrow> (\<forall>h. clear_filter fe h = 0 \<and> unregister_ftrace fe h = 0)"

lemma fh_remove_hooks_in_force:
  assumes "undo_works fe"
  shows "in_force (fh_remove_hooks fe hs st) = in_force st - set hs"
proof -
  have "in_force (fh_remove_hook fe h st) = in_force st - {h}" for h st
    using assms by (auto simp: undo_works_def in_force_def fh_remove_hook_left)
  then show ?thesis unfolding fh_remove_hooks_def by (induction hs arbitrary: st) auto
qed

lemma fh_install_hook_sign:
  "(\<And>h. set_filter fe h \<le> 0 \<and> register_ftrace fe h \<le> 0) \<Longrightarrow> fst (fh_install_hook fe h st) \<le> 0"
  by (simp add: fh_install_hook_def fh_resolve_hook_address_def ftrace_set_filter_def ftrace_register_def
      ENOENT_err_def Let_def)

lemma install_from_sign:
  assumes "\<And>h. set_filter fe h \<le> 0 \<and> register_ftrace fe h \<le> 0"
  shows "fst (install_from fe hs i st) \<le> 0"
  using assms
proof (induction fe hs i st rule: install_from.induct)
  case (1 fe hs i st)
  obtain err st' where h: "fh_install_hook fe (hs ! i) st = (err, st')" by fastforce
  have "err \<le> 0" using fh_install_hook_sign [OF "1.prems", of "hs ! i" st] h by simp
  then show ?case using h "1.IH" [of err st'] "1.prems" by (subst install_from.simps) simp
qed

text \<open>Loading and unloading: a successful \<^verbatim>\<open>fiber_ioctl_init\<close> has every registration in force
  (the \<^verbatim>\<open>do_exit\<close> probe only if the kernel accepted it, its answer is not looked at), and
  \<^verbatim>\<open>fiber_ioctl_exit\<close> then leaves nothing behind.\<close>

theorem init_then_exit:
  assumes "undo_works (ftr me)" "\<And>h. set_filter (ftr me) h \<le> 0 \<and> register_ftrace (ftr me) h \<le> 0"
    and init: "fiber_ioctl_init me unloaded = (0, st)"
  shows "region st \<and> cdev st \<and> cls st \<and> device st \<and> kretprobe st \<and> (kprobe st \<longleftrightarrow> register_kprobe me = 0) \<and>
    in_force (fts st) = set hooks \<and> nothing_held (fiber_ioctl_exit me st)"
proof -
  obtain err ft where h: "fh_install_hooks (ftr me) hooks (fts unloaded) = (err, ft)" by fastforce
  have "err \<le> 0" using install_from_sign [OF assms(2), of hooks 0 "fts unloaded"] h by (simp add: fh_install_hooks_def)
  moreover have "\<not> err < 0"
    using init h by (auto simp: fiber_ioctl_init_def fh_init_def unloaded_def Let_def split: if_splits)
  ultimately have e: "err = 0" by simp
  have "in_force (fts unloaded) = {}" by (simp add: in_force_def unloaded_def)
  then have f: "in_force ft = set hooks"
    using install_left [OF hooks_distinct _ h] e by (auto simp: in_force_def)
  have st: "st = \<lparr>region = True, cdev = True, cls = True, device = True, kprobe = (register_kprobe me = 0),
      kretprobe = True, fts = ft\<rparr>"
    using init h e by (auto simp: fiber_ioctl_init_def fh_init_def unloaded_def Let_def split: if_splits)
  have "in_force (fh_remove_hooks (ftr me) hooks ft) = {}"
    using fh_remove_hooks_in_force [OF assms(1)] f by simp
  then show ?thesis using f by (simp add: st nothing_held_def fiber_ioctl_exit_def fh_exit_def)
qed

definition demo_module :: module_env where
  "demo_module = \<lparr>alloc_chrdev_region = 0, cdev_add = 0, class_create = 0, device_create = 0, register_kprobe = 0,
     register_kretprobe = 0, ftr = demo_ftrace\<lparr>register_ftrace := (\<lambda>_. 0), unregister_ftrace := (\<lambda>_. 0)\<rparr>\<rparr>"

theorem init_then_exit_witness:
  "\<exists>st. fiber_ioctl_init demo_module unloaded = (0, st) \<and> nothing_held (fiber_ioctl_exit demo_module st)"
proof -
  have "fst (fiber_ioctl_init demo_module unloaded) = 0"
    by (simp add: fiber_ioctl_init_def fh_init_def fh_install_hooks_def install_from.simps hooks_def demo_ftrace_def
        demo_module_def fh_install_hook_def fh_resolve_hook_address_def ftrace_set_filter_def ftrace_register_def
        ftrace_clear_filter_def Let_def)
  then show ?thesis
    using init_then_exit [of demo_module "snd (fiber_ioctl_init demo_module unloaded)"]
    by (cases "fiber_ioctl_init demo_module unloaded") (auto simp: undo_works_def demo_module_def demo_ftrace_def)
qed

text \<open>What a failed load leaves registered: nothing when the region, the class or the device
  fails; the region when \<^verbatim>\<open>cdev_add\<close> fails; and when \<^verbatim>\<open>fh_init\<close> fails, the device, its class
  and region and the \<^verbatim>\<open>do_exit\<close> probe, whose handler lies in a module that is not there.\<close>

theorem failed_init_leaves:
  assumes "fiber_ioctl_init me unloaded = (r, st)" "r < 0"
  shows "if alloc_chrdev_region me < 0 then nothing_held st
    else if cdev_add me < 0 then region st \<and> \<not> cdev st \<and> \<not> cls st \<and> \<not> device st \<and> \<not> kprobe st
    else if class_create me \<noteq> 0 \<or> device_create me \<noteq> 0 then nothing_held st
    else region st \<and> cdev st \<and> cls st \<and> device st \<and> (kprobe st \<longleftrightarrow> register_kprobe me = 0)"
  using assms
  by (auto simp: fiber_ioctl_init_def fh_init_def unloaded_def nothing_held_def in_force_def Let_def
      split: if_splits prod.splits)

theorem failed_init_leaves_witness:
  "\<exists>st. fiber_ioctl_init (demo_module\<lparr>register_kretprobe := - 22\<rparr>) unloaded = (- 1, st) \<and> kprobe st \<and> device st"
proof -
  let ?me = "demo_module\<lparr>register_kretprobe := - 22\<rparr>"
  have "fst (fiber_ioctl_init ?me unloaded) = - 1"
    by (simp add: fiber_ioctl_init_def fh_init_def fh_install_hooks_def install_from.simps hooks_def demo_ftrace_def
        demo_module_def fh_install_hook_def fh_resolve_hook_address_def ftrace_set_filter_def ftrace_register_def
        ftrace_clear_filter_def Let_def)
  then show ?thesis
    using failed_init_leaves [of ?me "- 1" "snd (fiber_ioctl_init ?me unloaded)"]
    by (cases "fiber_ioctl_init ?me unloaded") (auto simp: demo_module_def)
qed

end
