(* ===== verification/Main_Setup.thy ===== *)
theory Main_Setup
  imports Fiber_Library
begin

text \<open>
  The start-up of \<^verbatim>\<open>multi_thread/src/main.c\<close>: the checks of the argument, the array of fibers,
  and the way a thread picks one of them, on top of the library and the module. The
  seeding of \<^verbatim>\<open>random\<close> and the output are left out; the timers and the end are in \<open>Completion\<close>, \<^verbatim>\<open>main_loop\<close> itself is in \<open>Model\<close> and
  \<^verbatim>\<open>create_threads\<close> in \<open>Thread\<close>.
\<close>

section \<open>Arguments\<close>

definition EINVAL_code :: int where "EINVAL_code = 22"

datatype setup_check =
    NoCpus           \<comment> \<open>the number of processors cannot be determined\<close>
  | Usage            \<comment> \<open>no argument\<close>
  | InvalidNumber
  | TooFewFibers
  | Checked u32 u32  \<comment> \<open>\<^verbatim>\<open>cpus\<close> and \<^verbatim>\<open>num_fibers\<close>\<close>

text \<open>\<open>onln\<close> is what \<^verbatim>\<open>sysconf\<close> returns, \<open>strtoll\<close> gives the value and \<^verbatim>\<open>errno\<close> after the call.
  Both numbers are cut to \<^verbatim>\<open>unsigned int\<close>. \<^verbatim>\<open>ERANGE\<close> only prints a warning.\<close>

definition check_arguments :: "int \<Rightarrow> (string \<Rightarrow> int \<times> int) \<Rightarrow> string list \<Rightarrow> setup_check" where
  "check_arguments onln strtoll argv =
     (let cpus = word_of_int onln :: u32 in
      if cpus < 1 then NoCpus
      else if length argv < 2 then Usage
      else case strtoll (argv ! 1) of (v, errno) \<Rightarrow>
        let num_fibers = word_of_int v :: u32 in
        if num_fibers = 0 \<and> errno = EINVAL_code then InvalidNumber
        else if num_fibers \<le> cpus then TooFewFibers
        else Checked cpus num_fibers)"

text \<open>\<^verbatim>\<open>create_threads\<close> takes an \<^verbatim>\<open>unsigned short\<close>.\<close>

definition helper_threads :: "u32 \<Rightarrow> 16 word" where
  "helper_threads cpus = (if cpus > 1 then ucast (cpus - 1) else 0)"

section \<open>The handles\<close>

definition FC_STACK_SIZE :: u64 where "FC_STACK_SIZE = 8192"

text \<open>The loop over \<open>i\<close>, with \<open>m\<close> rounds to go; the parameter of fiber \<open>i\<close> is \<open>i + 1\<close>.\<close>

fun create_fibers ::
  "kenv \<Rightarrow> u64 \<Rightarrow> (nat \<Rightarrow> ucall) \<Rightarrow> nat \<Rightarrow> nat \<Rightarrow> u64 list \<Rightarrow> lib \<Rightarrow> kstate \<Rightarrow> fault + (u64 list \<times> lib) \<times> kstate" where
  "create_fibers env entry uc 0 i handles l s = Inr ((handles, l), s)"
| "create_fibers env entry uc (Suc m) i handles l s =
     kbind (CreateFiber env (uc i) FC_STACK_SIZE entry (of_nat (i + 1)) l s) (\<lambda>((h, l), s).
       create_fibers env entry uc m (i + 1) (handles[i := h]) l s)"

text \<open>\<open>handles\<close> is the array \<^verbatim>\<open>fibers\<close> that \<^verbatim>\<open>malloc\<close> returns, its length \<^verbatim>\<open>num_fibers\<close>; it is not checked for
  NULL.\<close>

definition setup_fibers ::
  "kenv \<Rightarrow> u64 \<Rightarrow> (nat \<Rightarrow> ucall) \<Rightarrow> u64 list option \<Rightarrow> lib \<Rightarrow> kstate \<Rightarrow> fault + (u64 list \<times> lib) \<times> kstate" where
  "setup_fibers env entry uc handles l s =
     kbind (ConvertThreadToFiber env (uc 0) l s) (\<lambda>((h, l), s).
       case handles of
         None \<Rightarrow> Inl NullDeref
       | Some handles \<Rightarrow> create_fibers env entry uc (length handles - 1) 1 (handles[0 := h]) l s)"

section \<open>Picking a fiber\<close>

text \<open>\<open>r\<close> is what \<^verbatim>\<open>random\<close> returns. The remainder is taken as a \<^verbatim>\<open>long\<close> and returned as an
  \<^verbatim>\<open>int\<close>.\<close>

definition get_random_fiber :: "nat \<Rightarrow> u32 \<Rightarrow> fault + u32" where
  "get_random_fiber r num_fibers = (if num_fibers = 0 then Inl DivByZero else Inr (of_nat (r mod unat num_fibers)))"

definition pick_fiber :: "nat \<Rightarrow> u64 list \<Rightarrow> fault + u64" where
  "pick_fiber r handles =
     kbind (get_random_fiber r (of_nat (length handles))) (\<lambda>f.
       if unat f < length handles then Inr (handles ! unat f) else Inl OutOfBounds)"

text \<open>\<^verbatim>\<open>schedule\<close>, the handler of \<^verbatim>\<open>SIGALRM\<close>, without the alarm.\<close>

definition schedule :: "kenv \<Rightarrow> ucall \<Rightarrow> u64 list \<Rightarrow> nat \<Rightarrow> lib \<Rightarrow> kstate \<Rightarrow> fault + lib \<times> kstate" where
  "schedule env uc handles r l s = kbind (pick_fiber r handles) (\<lambda>h. SwitchToFiber env uc h l s)"

text \<open>The loop of \<^verbatim>\<open>thread_initialization\<close> after the conversion, with the numbers \<^verbatim>\<open>random\<close>
  returns. A switch that changes the fiber the thread runs does not come back; the result says whether
  that happened.\<close>

fun thread_rounds :: "kenv \<Rightarrow> ucall \<Rightarrow> u64 list \<Rightarrow> nat list \<Rightarrow> lib \<Rightarrow> kstate \<Rightarrow> fault + (bool \<times> lib) \<times> kstate" where
  "thread_rounds env uc handles [] l s = Inr ((False, l), s)"
| "thread_rounds env uc handles (r # rs) l s =
     kbind (schedule env uc handles r l s) (\<lambda>(l, s').
       if caller_fiber env (kcall uc) s' \<noteq> caller_fiber env (kcall uc) s then Inr ((True, l), s')
       else thread_rounds env uc handles rs l s')"

definition thread_initialization ::
  "kenv \<Rightarrow> ucall \<Rightarrow> u64 list \<Rightarrow> nat list \<Rightarrow> lib \<Rightarrow> kstate \<Rightarrow> fault + (bool \<times> lib) \<times> kstate" where
  "thread_initialization env uc handles rs l s =
     kbind (ConvertThreadToFiber env uc l s) (\<lambda>((_, l), s). thread_rounds env uc handles rs l s)"

section \<open>The checks\<close>

text \<open>The program goes on exactly with more fibers than processors, both counted in 32 bits, at least
  one processor and an argument; a failing \<^verbatim>\<open>sysconf\<close> (\<open>-1\<close>) is not seen by its own check but
  leaves no number of handles that is large enough, and the number itself may be any 64-bit one, negative
  ones included, as long as its low half is.\<close>

theorem check_arguments_iff:
  "check_arguments onln strtoll argv = Checked c n \<longleftrightarrow>
     2 \<le> length argv \<and> c = word_of_int onln \<and> n = word_of_int (fst (strtoll (argv ! 1))) \<and> 1 \<le> c \<and> c < n"
proof -
  obtain v e where v: "strtoll (argv ! 1) = (v, e)" by fastforce
  let ?c = "word_of_int onln :: u32" and ?n = "word_of_int v :: u32"
  have n: "?c < ?n \<Longrightarrow> ?n \<noteq> 0" by (metis not_less_zero word_not_simps(1))
  have c: "?c < 1 \<longleftrightarrow> \<not> 1 \<le> ?c" "length argv < 2 \<longleftrightarrow> \<not> 2 \<le> length argv" "?n \<le> ?c \<longleftrightarrow> \<not> ?c < ?n"
    by (simp_all only: not_le not_less)
  have "check_arguments onln strtoll argv = (if \<not> 1 \<le> ?c then NoCpus else if \<not> 2 \<le> length argv then Usage
      else if ?n = 0 \<and> e = EINVAL_code then InvalidNumber else if \<not> ?c < ?n then TooFewFibers else Checked ?c ?n)"
    unfolding check_arguments_def Let_def v prod.case c ..
  then show ?thesis using n v by (auto split: if_splits)
qed

section \<open>The array of fibers\<close>

text \<open>The task makes its calls on an open device, with memory to spare.\<close>

definition good_call :: "pid_t \<Rightarrow> pid_t \<Rightarrow> ucall \<Rightarrow> bool" where
  "good_call tg pid uc \<longleftrightarrow> c_tgid (kcall uc) = tg \<and> c_pid (kcall uc) = pid \<and> ok_args (kcall uc) \<and> ok_fiber (kcall uc) \<and>
     ok_process (kcall uc) \<and> ok_thread (kcall uc) \<and> ok_malloc uc \<and> memalign uc \<noteq> None"

definition device_open :: "lib \<Rightarrow> bool" where
  "device_open l \<longleftrightarrow> opened l \<and> fd l \<noteq> - 1"

lemma device_open_simps [simp]:
  "device_open l \<Longrightarrow> ensure_open uc l = l" "device_open (l\<lparr>args_live := n\<rparr>) = device_open l" "device_open l \<Longrightarrow> fd l \<noteq> - 1"
  "usable uc l \<Longrightarrow> device_open (ensure_open uc l)"
  by (auto simp: device_open_def ensure_open_def usable_def init_file_def Let_def)

lemma CreateFiber_ok:
  assumes k: "kinv env s" and g: "good_call tg pid uc" and l: "device_open l"
    and q: "kabs env s tg = Some q" "cur q pid \<noteq> None" and ix: "index_ok env 0" "index_ok env (next_index q)"
  shows "\<exists>l' s'. CreateFiber env uc len start param l s = Inr ((next_index q, l'), s') \<and> device_open l' \<and> kinv env s' \<and>
    kabs env s' = (kabs env s)(tg \<mapsto> q\<lparr>next_index := next_index q + 1, live := insert (next_index q) (live q)\<rparr>)"
proof -
  obtain stk where stk: "memalign uc = Some stk" using g by (auto simp: good_call_def)
  let ?u = "\<lparr>dwStackPointer = stk + len - 8, lpStartAddress = start, lpParameter = param\<rparr>"
  let ?k = "(kcall uc)\<lparr>user_create := Some ?u\<rparr>"
  have c: "c_tgid ?k = tg" "c_pid ?k = pid" "ok_args ?k" "ok_fiber ?k" using g by (simp_all add: good_call_def)
  have nx: "next_index_ok env ?k s" by (rule next_index_okI) (use ix q c in auto)
  obtain r s1 where cr: "ioctl_create env ?k s = Inr (r, s1)" using create_total [OF k, of ?k] c by auto
  have r: "r = next_index q" "kabs env s1 = (kabs env s)(tg \<mapsto> q\<lparr>next_index := next_index q + 1, live := insert (next_index q) (live q)\<rparr>)"
    using create_refines [OF k nx cr] q c by (auto simp: spec_create_def)
  have "scast (libc_result r) = r" using ix(2) r(1) by (simp add: libc_result_small(2) index_ok_def)
  then show ?thesis
    using cr r l stk g ioctl_create_kinv [OF k nx cr]
    by (simp add: CreateFiber_def sys_ioctl_def no_out_def Let_def good_call_def)
qed

lemma ConvertThreadToFiber_ok:
  assumes k: "kinv env s" and g: "good_call tg pid uc" and l: "usable uc l"
    and q: "kabs env s tg = None \<and> q = no_fibers \<or> kabs env s tg = Some q \<and> cur q pid = None"
    and ix: "index_ok env 0" "index_ok env (next_index q)"
  shows "\<exists>l' s'. ConvertThreadToFiber env uc l s = Inr ((next_index q, l'), s') \<and> device_open l' \<and> kinv env s' \<and>
    kabs env s' = (kabs env s)(tg \<mapsto> q\<lparr>next_index := next_index q + 1, live := insert (next_index q) (live q),
      cur := (cur q)(pid \<mapsto> next_index q)\<rparr>)"
proof -
  let ?k = "kcall uc"
  have c: "c_tgid ?k = tg" "c_pid ?k = pid" "ok_fiber ?k" "ok_process ?k" "ok_thread ?k" using g by (simp_all add: good_call_def)
  have nx: "next_index_ok env ?k s" by (rule next_index_okI) (use ix q c in auto)
  obtain r s1 where cr: "ioctl_convert env ?k s = Inr (r, s1)" using convert_total [OF k c(3)] by blast
  have "cur q pid = None" using q by (auto simp: no_fibers_def)
  then have r: "r = next_index q" "kabs env s1 = (kabs env s)(tg \<mapsto> q\<lparr>next_index := next_index q + 1, live := insert (next_index q) (live q),
      cur := (cur q)(pid \<mapsto> next_index q)\<rparr>)"
    using convert_refines [OF k nx cr] q c by (auto simp: spec_convert_def spec_register_def)
  have "scast (libc_result r) = r" using ix(2) r(1) by (simp add: libc_result_small(2) index_ok_def)
  then show ?thesis
    using cr r l ioctl_convert_kinv [OF k nx cr] by (simp add: ConvertThreadToFiber_def sys_ioctl_def no_out_def Let_def)
qed

lemma create_fibers_ok:
  assumes "kinv env s" "\<And>j. good_call tg pid (uc j)" "device_open l" "kabs env s tg = Some q" "cur q pid \<noteq> None"
    and "next_index q = of_nat (k + i)" "\<And>j. j < i + m \<Longrightarrow> index_ok env (of_nat (k + j))" "index_ok env 0" "i + m = length handles"
    and "\<And>j. j < i \<Longrightarrow> handles ! j = of_nat (k + j)" "(\<lambda>j. of_nat (k + j)) ` {..<i} \<subseteq> live q"
  shows "\<exists>l' s' q'. create_fibers env entry uc m i handles l s = Inr ((map of_nat [k..<k + length handles], l'), s') \<and>
    device_open l' \<and> kinv env s' \<and> kabs env s' tg = Some q' \<and> (\<lambda>j. of_nat (k + j)) ` {..<length handles} \<subseteq> live q' \<and> cur q' = cur q"
  using assms
proof (induction m arbitrary: i handles l s q)
  case 0
  have "handles = map of_nat [k..<k + length handles]" by (rule nth_equalityI) (use 0 in auto)
  with 0 show ?case by auto
next
  case (Suc m)
  have ix: "index_ok env (next_index q)" using Suc.prems(6) Suc.prems(7) [of i] by simp
  obtain l1 s1 where c: "CreateFiber env (uc i) FC_STACK_SIZE entry (of_nat (i + 1)) l s = Inr ((next_index q, l1), s1)"
    "device_open l1" "kinv env s1" "kabs env s1 = (kabs env s)(tg \<mapsto> q\<lparr>next_index := next_index q + 1, live := insert (next_index q) (live q)\<rparr>)"
    using CreateFiber_ok [OF Suc.prems(1,2,3,4,5,8) ix] by blast
  let ?q = "q\<lparr>next_index := next_index q + 1, live := insert (next_index q) (live q)\<rparr>"
  let ?f = "handles[i := next_index q]"
  have "\<exists>l' s' q'. create_fibers env entry uc m (i + 1) ?f l1 s1 = Inr ((map of_nat [k..<k + length ?f], l'), s') \<and>
    device_open l' \<and> kinv env s' \<and> kabs env s' tg = Some q' \<and> (\<lambda>j. of_nat (k + j)) ` {..<length ?f} \<subseteq> live q' \<and> cur q' = cur ?q"
  proof (rule Suc.IH [OF c(3) Suc.prems(2) c(2)])
    show "kabs env s1 tg = Some ?q" using c(4) by simp
    show "?f ! j = of_nat (k + j)" if "j < i + 1" for j
      using that Suc.prems(6,9,10) by (cases "j = i") auto
    show "(\<lambda>j. of_nat (k + j)) ` {..<i + 1} \<subseteq> live ?q"
      using Suc.prems(6,11) by (simp add: lessThan_Suc subset_insertI2)
  qed (use Suc.prems in \<open>auto simp: add.commute add.left_commute\<close>)
  then show ?case using c(1) by simp
qed

text \<open>The start-up gives the program its fibers: with the device open and memory to spare, whether or
  not helper threads have been converted before, the array holds consecutive indexes, each the handle of
  a live fiber of the process, the first of them the one the main thread runs.\<close>

theorem setup_gives_fibers:
  assumes "kinv env s" "\<And>j. good_call tg pid (uc j)" "usable (uc 0) l"
    and q: "kabs env s tg = None \<and> q = no_fibers \<or> kabs env s tg = Some q \<and> cur q pid = None"
    and k: "next_index q = of_nat k" and ix: "index_ok env 0" "\<And>j. j < length handles \<Longrightarrow> index_ok env (of_nat (k + j))"
    and n: "handles \<noteq> []"
  shows "\<exists>l' s' q'. setup_fibers env entry uc (Some handles) l s = Inr ((map of_nat [k..<k + length handles], l'), s') \<and>
    kinv env s' \<and> kabs env s' tg = Some q' \<and> of_nat ` {k..<k + length handles} \<subseteq> live q' \<and> cur q' pid = Some (of_nat k)"
proof -
  have ix0: "index_ok env (next_index q)" using k ix(2) [of 0] n by simp
  obtain l1 s1 where c: "ConvertThreadToFiber env (uc 0) l s = Inr ((next_index q, l1), s1)" "device_open l1" "kinv env s1"
    "kabs env s1 = (kabs env s)(tg \<mapsto> q\<lparr>next_index := next_index q + 1, live := insert (next_index q) (live q),
      cur := (cur q)(pid \<mapsto> next_index q)\<rparr>)"
    using ConvertThreadToFiber_ok [OF assms(1-4) ix(1) ix0] by blast
  let ?q = "q\<lparr>next_index := next_index q + 1, live := insert (next_index q) (live q), cur := (cur q)(pid \<mapsto> next_index q)\<rparr>"
  let ?f = "handles[0 := next_index q]"
  have "\<exists>l' s' q'. create_fibers env entry uc (length handles - 1) 1 ?f l1 s1 = Inr ((map of_nat [k..<k + length ?f], l'), s') \<and>
    device_open l' \<and> kinv env s' \<and> kabs env s' tg = Some q' \<and> (\<lambda>j. of_nat (k + j)) ` {..<length ?f} \<subseteq> live q' \<and> cur q' = cur ?q"
    by (rule create_fibers_ok [OF c(3) assms(2) c(2), where q = ?q]) (use c(4) k ix n in \<open>auto simp: add.commute\<close>)
  moreover have "of_nat ` {k..<k + length handles} = (\<lambda>j. of_nat (k + j) :: u64) ` {..<length handles}"
  proof -
    have "{k..<k + length handles} = (+) k ` {..<length handles}"
      using image_add_atLeastLessThan [of k 0 "length handles"] by (simp add: lessThan_atLeast0 add.commute)
    then show ?thesis by (simp add: image_image)
  qed
  ultimately show ?thesis using c(1) k by (auto simp: setup_fibers_def)
qed

definition main_call :: "nat \<Rightarrow> ucall" where
  "main_call _ = demo_ucall"

theorem setup_gives_fibers_witness:
  "\<exists>l' s'. setup_fibers demo_env 0x401000 main_call (Some [0, 0, 0]) demo_lib demo0 = Inr (([0, 1, 2], l'), s')"
proof -
  have g: "good_call 7 7 (main_call j)" for j by (simp add: good_call_def main_call_def demo_ucall_def)
  have "index_ok demo_env (of_nat (0 + j))" if "j < length [0, 0, 0 :: u64]" for j
    using that by (auto simp: less_Suc_eq)
  then show ?thesis
    using setup_gives_fibers [where uc = main_call, OF demo0(1) g, where l = demo_lib and q = no_fibers and k = 0 and
        handles = "[0, 0, 0]" and entry = "0x401000"] demo0(2) demo_usable
    by (auto simp: main_call_def no_fibers_def upt_rec)
qed

section \<open>Picking a fiber\<close>

lemma pick_fiber_ok:
  assumes "handles \<noteq> []" "length handles < 2 ^ 32"
  shows "pick_fiber r handles = Inr (handles ! (r mod length handles))"
proof -
  have n: "unat (of_nat (length handles) :: u32) = length handles" using assms(2) by (simp add: unat_of_nat take_bit_nat_eq_self_iff)
  moreover have "r mod length handles < length handles" using assms(1) by simp
  moreover from this have "unat (of_nat (r mod length handles) :: u32) = r mod length handles"
    using assms(2) by (simp add: unat_of_nat take_bit_nat_eq_self_iff)
  moreover have "(of_nat (length handles) :: u32) \<noteq> 0" using n assms(1) by (metis length_0_conv unat_0)
  ultimately show ?thesis by (simp add: pick_fiber_def get_random_fiber_def)
qed

text \<open>Can the caller switch to the fiber of this index?\<close>

definition can_take :: "kenv \<Rightarrow> ucall \<Rightarrow> kstate \<Rightarrow> u64 \<Rightarrow> bool" where
  "can_take env uc s h \<longleftrightarrow> (\<exists>q. kabs env s (c_tgid (kcall uc)) = Some q \<and> int_cut h \<in> live q - ran (cur q) \<and>
     cur q (c_pid (kcall uc)) \<noteq> None)"

lemma switch_taken:
  assumes k: "kinv env s" and r: "ioctl_switch env c s = Inr (r, s')"
  shows "caller_fiber env c s' \<noteq> caller_fiber env c s \<longleftrightarrow> r = 0" "kinv env s'" "r \<noteq> 0 \<Longrightarrow> kabs env s' = kabs env s"
proof -
  show k': "kinv env s'" by (rule ioctl_switch_kinv [OF k r])
  have "(r, kabs env s') = spec_switch c (kabs env s)" by (rule switch_refines [OF k r])
  then show "r \<noteq> 0 \<Longrightarrow> kabs env s' = kabs env s"
    by (auto simp: spec_switch_def Let_def split: option.splits if_splits)
  show "caller_fiber env c s' \<noteq> caller_fiber env c s \<longleftrightarrow> r = 0"
    using k
  proof (cases rule: ioctl_switch_cases [where c = c])
    case refused
    then show ?thesis using r by simp
  next
    case (busy pa p fa f)
    have "caller_fiber env c (s\<lparr>fibs := F\<rparr>) = caller_fiber env c s" for F
    proof -
      have "search_process env i (s\<lparr>fibs := F\<rparr>) = search_process env i s" for i by (simp add: search_process_def pkey_def [abs_def])
      then show ?thesis by (simp add: caller_fiber_def act_def tkey_def [abs_def] cong: sum.case_cong option.case_cong)
    qed
    then show ?thesis using busy r by simp
  next
    case (success pa p ta t af fo fa f)
    have 0: "r = 0" "s' = switched env c ta af fa s" using success(1) r by simp_all
    have "caller_fiber env c s = Some af" using success by (simp add: caller_fiber_def act_def)
    moreover have "caller_fiber env c s' = Some fa"
      by (rule caller_fiber_member [OF k', where pa = pa and p = p and ta = ta and t = "t\<lparr>active_fiber := Some fa\<rparr>"])
        (use success member_pid [OF k success(2,4)] in \<open>simp_all add: 0 switched_def Let_def\<close>)
    moreover have "af \<noteq> fa" using success by auto
    ultimately show ?thesis using 0(1) by simp
  qed
qed

lemma schedule_ok:
  assumes k: "kinv env s" and l: "device_open l" and h: "handles \<noteq> []" "length handles < 2 ^ 32"
  shows "\<exists>s'. schedule env uc handles r l s = Inr (l, s') \<and> kinv env s' \<and>
    (if can_take env uc s (handles ! (r mod length handles))
     then caller_fiber env (kcall uc) s' \<noteq> caller_fiber env (kcall uc) s \<and>
       (\<exists>q. kabs env s' (c_tgid (kcall uc)) = Some q \<and> cur q (c_pid (kcall uc)) = Some (int_cut (handles ! (r mod length handles))))
     else caller_fiber env (kcall uc) s' = caller_fiber env (kcall uc) s \<and> kabs env s' = kabs env s)"
proof -
  let ?h = "handles ! (r mod length handles)" let ?c = "(kcall uc)\<lparr>c_arg := ?h\<rparr>"
  obtain x s' where x: "ioctl_switch env ?c s = Inr (x, s')" using switch_total [OF k] by blast
  note t = switch_taken [OF k x]
  have c: "caller_fiber env ?c u = caller_fiber env (kcall uc) u" for u by (rule caller_fiber_cong) simp_all
  have sp: "(x, kabs env s') = spec_switch ?c (kabs env s)" by (rule switch_refines [OF k x])
  have "x = 0 \<longleftrightarrow> can_take env uc s ?h"
    using sp by (auto simp: can_take_def spec_switch_def Let_def split: option.splits if_splits)
  moreover have "\<exists>q. kabs env s' (c_tgid (kcall uc)) = Some q \<and> cur q (c_pid (kcall uc)) = Some (int_cut ?h)" if "can_take env uc s ?h"
    using sp that by (auto simp: can_take_def spec_switch_def Let_def split: option.splits if_splits)
  moreover have "schedule env uc handles r l s = Inr (l, s')"
    using x l by (simp add: schedule_def pick_fiber_ok [OF h] SwitchToFiber_def sys_ioctl_def no_out_def Let_def)
  ultimately show ?thesis using t c by auto
qed

text \<open>C11. A helper thread finds its fiber: its loop never faults, and it leaves it for good with the first
  number \<^verbatim>\<open>random\<close> returns that selects a fiber nobody runs; until then nothing changes for
  anybody.\<close>

theorem thread_takes_fiber:
  assumes "kinv env s" "device_open l" "handles \<noteq> []" "length handles < 2 ^ 32"
    and "\<forall>r\<in>set rs. \<not> can_take env uc s (handles ! (r mod length handles))"
    and "can_take env uc s (handles ! (r mod length handles))"
  shows "\<exists>s' q. thread_rounds env uc handles (rs @ r # later) l s = Inr ((True, l), s') \<and> kinv env s' \<and>
    kabs env s' (c_tgid (kcall uc)) = Some q \<and> cur q (c_pid (kcall uc)) = Some (int_cut (handles ! (r mod length handles)))"
  using assms
proof (induction rs arbitrary: s)
  case Nil
  then show ?case using schedule_ok [OF Nil.prems(1-4), of uc r] by auto
next
  case (Cons x rs)
  obtain s' where s': "schedule env uc handles x l s = Inr (l, s')" "kinv env s'" "kabs env s' = kabs env s"
    "caller_fiber env (kcall uc) s' = caller_fiber env (kcall uc) s"
    using schedule_ok [OF Cons.prems(1-4), of uc x] Cons.prems(5) by auto
  have "can_take env uc s' = can_take env uc s" using s'(3) by (simp add: fun_eq_iff can_take_def)
  then show ?case using Cons.IH [OF s'(2) Cons.prems(2-4)] Cons.prems(5,6) s'(1,4) by simp
qed

theorem thread_takes_fiber_witness:
  "\<exists>s'. thread_rounds demo_env demo_ucall [0, 1] [4, 2, 7, 1] (ensure_open demo_ucall demo_lib) demo2 =
    Inr ((True, ensure_open demo_ucall demo_lib), s')"
proof -
  have k: "kinv demo_env demo2" and a: "kabs demo_env demo2 = [7 \<mapsto> \<lparr>next_index = 2, live = {0, 1}, cur = [7 \<mapsto> 0]\<rparr>]"
    using demo2 by simp_all
  have "kcall demo_ucall = demo_call 7 7 0" by (simp add: demo_ucall_def)
  then have "\<not> can_take demo_env demo_ucall demo2 0" "can_take demo_env demo_ucall demo2 1"
    using a by (simp_all add: can_take_def int_cut_def)
  then show ?thesis
    using thread_takes_fiber [OF k, of "ensure_open demo_ucall demo_lib" "[0, 1]" "[4, 2]" demo_ucall 7 "[1]"] demo_usable
    by (auto simp: numeral_2_eq_2 [symmetric] simp del: thread_rounds.simps)
qed

end
