(* ===== verification/Single_State.thy ===== *)
theory Single_State
  imports Fiber_State
begin

text \<open>
  \<^verbatim>\<open>single_thread/Module\<close>, the earlier version of the module: its structures
  (\<^verbatim>\<open>fiber_ioctl.h\<close>) in an explicit heap, the allocator and the three search functions of its
  \<^verbatim>\<open>fiber_ioctl.c\<close>. It has no locks. A fiber refers to its registers and its FX image by
  pointers. \<^verbatim>\<open>kmalloc\<close> does not clear memory: what a new object holds is a parameter
  (\<open>junk_fiber\<close> and so on), and whether the allocation at an address succeeds is another. Tables,
  argument structures, \<^verbatim>\<open>MAX_FLS\<close> and the kernel's environment are those of \<open>Fiber_State\<close>.
\<close>

section \<open>Structures\<close>

text \<open>The members of \<^verbatim>\<open>struct pt_regs\<close> that the code names.\<close>

datatype pt_reg = P_r15 | P_r14 | P_r13 | P_r12 | P_r11 | P_r10 | P_r9 | P_r8 | P_ax | P_bx | P_cx | P_dx | P_si
  | P_di | P_sp | P_ip | P_bp | P_flags

text \<open>\<^verbatim>\<open>fls_in\<close> and \<^verbatim>\<open>set_bitmap\<close> are never used. \<^verbatim>\<open>fls_bitmap\<close> is one word, as in the
  later version; here \<^verbatim>\<open>fls_array\<close> comes right behind it.\<close>

record st_fiber =
  st_running :: bool
  st_index :: u64
  st_regs :: "addr option"
  st_fls_bitmap :: u64
  st_fls_array :: "u64 list"
  st_fpu :: "addr option"

record st_thread =
  st_tpid :: pid_t
  st_active :: "addr option"

record st_process =
  st_ppid :: pid_t
  st_fibers :: table
  st_threads :: table
  st_fiber_id :: u64

record st_state =
  st_procs :: "addr \<Rightarrow> st_process option"
  st_thrs :: "addr \<Rightarrow> st_thread option"
  st_fibs :: "addr \<Rightarrow> st_fiber option"
  st_pregs :: "addr \<Rightarrow> pt_regs option"
  st_fpus :: "addr \<Rightarrow> fpu option"
  st_args :: nat             \<comment> \<open>argument buffers allocated and not yet freed\<close>
  st_brk :: addr
  st_list :: table           \<comment> \<open>\<^verbatim>\<open>list_process\<close>\<close>
  st_uregs :: "pid_t \<Rightarrow> pt_regs"
  st_ufx :: "pid_t \<Rightarrow> fx"

record st_env =
  kern :: kenv
  slot_of :: "pt_reg \<Rightarrow> nat"
  kmalloc_ok :: "addr \<Rightarrow> bool"
  junk_fiber :: "addr \<Rightarrow> st_fiber"
  junk_thread :: "addr \<Rightarrow> st_thread"
  junk_process :: "addr \<Rightarrow> st_process"
  junk_regs :: "addr \<Rightarrow> pt_regs"
  junk_fpu :: "addr \<Rightarrow> fpu"

text \<open>The buffers are as \<^verbatim>\<open>copy_from_user\<close>, whose result is ignored, leaves them.\<close>

record st_call =
  sc_tgid :: pid_t
  sc_pid :: pid_t
  sc_arg :: u64
  create_buf :: create_arg
  set_buf :: fls_arg

text \<open>What is relied on: the kernel's part, distinct slots for the registers, an array of the declared
  size in every new fiber.\<close>

definition st_env_ok :: "st_env \<Rightarrow> bool" where
  "st_env_ok env \<longleftrightarrow> env_ok (kern env) \<and> inj (slot_of env) \<and> (\<forall>r. slot_of env r < nregs (kern env)) \<and>
     (\<forall>a. length (st_fls_array (junk_fiber env a)) = MAX_FLS)"

section \<open>Memory\<close>

definition kmalloc_fiber :: "st_env \<Rightarrow> st_state \<Rightarrow> addr option \<times> st_state" where
  "kmalloc_fiber env s = (let a = st_brk s; s = s\<lparr>st_brk := a + 1\<rparr> in
     if kmalloc_ok env a then (Some a, s\<lparr>st_fibs := (st_fibs s)(a \<mapsto> junk_fiber env a)\<rparr>) else (None, s))"

definition kmalloc_thread :: "st_env \<Rightarrow> st_state \<Rightarrow> addr option \<times> st_state" where
  "kmalloc_thread env s = (let a = st_brk s; s = s\<lparr>st_brk := a + 1\<rparr> in
     if kmalloc_ok env a then (Some a, s\<lparr>st_thrs := (st_thrs s)(a \<mapsto> junk_thread env a)\<rparr>) else (None, s))"

definition kmalloc_process :: "st_env \<Rightarrow> st_state \<Rightarrow> addr option \<times> st_state" where
  "kmalloc_process env s = (let a = st_brk s; s = s\<lparr>st_brk := a + 1\<rparr> in
     if kmalloc_ok env a then (Some a, s\<lparr>st_procs := (st_procs s)(a \<mapsto> junk_process env a)\<rparr>) else (None, s))"

definition kmalloc_regs :: "st_env \<Rightarrow> st_state \<Rightarrow> addr option \<times> st_state" where
  "kmalloc_regs env s = (let a = st_brk s; s = s\<lparr>st_brk := a + 1\<rparr> in
     if kmalloc_ok env a then (Some a, s\<lparr>st_pregs := (st_pregs s)(a \<mapsto> junk_regs env a)\<rparr>) else (None, s))"

definition kmalloc_fpu :: "st_env \<Rightarrow> st_state \<Rightarrow> addr option \<times> st_state" where
  "kmalloc_fpu env s = (let a = st_brk s; s = s\<lparr>st_brk := a + 1\<rparr> in
     if kmalloc_ok env a then (Some a, s\<lparr>st_fpus := (st_fpus s)(a \<mapsto> junk_fpu env a)\<rparr>) else (None, s))"

text \<open>The buffer for the argument of one call; \<open>False\<close>: NULL.\<close>

definition st_kmalloc_args :: "st_env \<Rightarrow> st_state \<Rightarrow> bool \<times> st_state" where
  "st_kmalloc_args env s = (let a = st_brk s; s = s\<lparr>st_brk := a + 1\<rparr> in
     if kmalloc_ok env a then (True, s\<lparr>st_args := st_args s + 1\<rparr>) else (False, s))"

definition st_kfree_args :: "st_state \<Rightarrow> st_state" where
  "st_kfree_args s = s\<lparr>st_args := st_args s - 1\<rparr>"

definition upd_fiber :: "addr \<Rightarrow> (st_fiber \<Rightarrow> st_fiber) \<Rightarrow> st_state \<Rightarrow> fault + st_state" where
  "upd_fiber a g s = kbind (deref (st_fibs s) a) (\<lambda>f. Inr (s\<lparr>st_fibs := (st_fibs s)(a \<mapsto> g f)\<rparr>))"

definition upd_thread :: "addr \<Rightarrow> (st_thread \<Rightarrow> st_thread) \<Rightarrow> st_state \<Rightarrow> fault + st_state" where
  "upd_thread a g s = kbind (deref (st_thrs s) a) (\<lambda>t. Inr (s\<lparr>st_thrs := (st_thrs s)(a \<mapsto> g t)\<rparr>))"

definition upd_process :: "addr \<Rightarrow> (st_process \<Rightarrow> st_process) \<Rightarrow> st_state \<Rightarrow> fault + st_state" where
  "upd_process a g s = kbind (deref (st_procs s) a) (\<lambda>p. Inr (s\<lparr>st_procs := (st_procs s)(a \<mapsto> g p)\<rparr>))"

definition upd_regs :: "addr \<Rightarrow> (pt_regs \<Rightarrow> pt_regs) \<Rightarrow> st_state \<Rightarrow> fault + st_state" where
  "upd_regs a g s = kbind (deref (st_pregs s) a) (\<lambda>r. Inr (s\<lparr>st_pregs := (st_pregs s)(a \<mapsto> g r)\<rparr>))"

definition upd_fpu :: "addr \<Rightarrow> (fpu \<Rightarrow> fpu) \<Rightarrow> st_state \<Rightarrow> fault + st_state" where
  "upd_fpu a g s = kbind (deref (st_fpus s) a) (\<lambda>x. Inr (s\<lparr>st_fpus := (st_fpus s)(a \<mapsto> g x)\<rparr>))"

lemma upd_Some [simp]:
  "st_fibs s a = Some f \<Longrightarrow> upd_fiber a gf s = Inr (s\<lparr>st_fibs := (st_fibs s)(a \<mapsto> gf f)\<rparr>)"
  "st_thrs s a = Some t \<Longrightarrow> upd_thread a gt s = Inr (s\<lparr>st_thrs := (st_thrs s)(a \<mapsto> gt t)\<rparr>)"
  "st_procs s a = Some p \<Longrightarrow> upd_process a gp s = Inr (s\<lparr>st_procs := (st_procs s)(a \<mapsto> gp p)\<rparr>)"
  "st_pregs s a = Some r \<Longrightarrow> upd_regs a gr s = Inr (s\<lparr>st_pregs := (st_pregs s)(a \<mapsto> gr r)\<rparr>)"
  "st_fpus s a = Some x \<Longrightarrow> upd_fpu a gx s = Inr (s\<lparr>st_fpus := (st_fpus s)(a \<mapsto> gx x)\<rparr>)"
  by (simp_all add: upd_fiber_def upd_thread_def upd_process_def upd_regs_def upd_fpu_def)

text \<open>\<^verbatim>\<open>kfree(NULL)\<close> does nothing; a second \<^verbatim>\<open>kfree\<close> of one object is a fault.\<close>

definition kfree_in :: "(addr \<Rightarrow> 'a option) \<Rightarrow> addr option \<Rightarrow> fault + (addr \<Rightarrow> 'a option)" where
  "kfree_in h p = (case p of None \<Rightarrow> Inr h | Some a \<Rightarrow> kbind (deref h a) (\<lambda>_. Inr (h(a := None))))"

section \<open>Searches\<close>

definition st_pkey :: "st_state \<Rightarrow> addr \<Rightarrow> pid_t option" where
  "st_pkey s a = map_option st_ppid (st_procs s a)"

definition st_tkey :: "st_state \<Rightarrow> addr \<Rightarrow> pid_t option" where
  "st_tkey s a = map_option st_tpid (st_thrs s a)"

definition st_fkey :: "st_state \<Rightarrow> addr \<Rightarrow> (u64 \<times> bool) option" where
  "st_fkey s a = map_option (\<lambda>f. (st_index f, st_running f)) (st_fibs s a)"

definition st_search_process :: "st_env \<Rightarrow> pid_t \<Rightarrow> st_state \<Rightarrow> fault + addr option" where
  "st_search_process env proc_id s =
     chain_find (st_pkey s) (\<lambda>k. k = proc_id) (st_list s (hash_32 (kern env) proc_id))"

definition st_search_thread :: "st_env \<Rightarrow> pid_t \<Rightarrow> addr \<Rightarrow> st_state \<Rightarrow> fault + addr option" where
  "st_search_thread env thr_id pa s = kbind (deref (st_procs s) pa) (\<lambda>p.
     chain_find (st_tkey s) (\<lambda>k. k = thr_id) (st_threads p (hash_32 (kern env) thr_id)))"

text \<open>Running fibers are passed over.\<close>

definition st_search_fiber :: "st_env \<Rightarrow> u32 \<Rightarrow> addr \<Rightarrow> st_state \<Rightarrow> fault + addr option" where
  "st_search_fiber env i pa s = kbind (deref (st_procs s) pa) (\<lambda>p.
     chain_find (st_fkey s) (\<lambda>(k, run). k = scast i \<and> \<not> run) (st_fibers p (hash_32 (kern env) i)))"

section \<open>The FLS bitmap and the array behind it\<close>

text \<open>Bit operations count words from \<open>st_fls_bitmap\<close>: word \<open>k + 1\<close> is slot \<open>k\<close> of the array.\<close>

definition st_get_word :: "nat \<Rightarrow> st_fiber \<Rightarrow> fault + u64" where
  "st_get_word k f =
     (if k = 0 then Inr (st_fls_bitmap f)
      else if k \<le> length (st_fls_array f) then Inr (st_fls_array f ! (k - 1))
      else Inl OutOfBounds)"

definition st_put_word :: "nat \<Rightarrow> u64 \<Rightarrow> st_fiber \<Rightarrow> st_fiber" where
  "st_put_word k w f =
     (if k = 0 then f\<lparr>st_fls_bitmap := w\<rparr> else f\<lparr>st_fls_array := (st_fls_array f)[k - 1 := w]\<rparr>)"

definition st_find_first_zero :: "st_fiber \<Rightarrow> nat" where
  "st_find_first_zero f =
     min MAX_FLS (ffz_words 0 (st_fls_bitmap f # take (MAX_FLS div BITS_PER_LONG - 1) (st_fls_array f)))"

definition st_bit_word :: "u64 \<Rightarrow> st_fiber \<Rightarrow> fault + u64" where
  "st_bit_word i f = (if sint i < 0 then Inl OutOfBounds else st_get_word (unat i div BITS_PER_LONG) f)"

definition st_test_bit :: "u64 \<Rightarrow> st_fiber \<Rightarrow> fault + bool" where
  "st_test_bit i f = kbind (st_bit_word i f) (\<lambda>w. Inr (bit w (unat i mod BITS_PER_LONG)))"

definition st_change_bit :: "u64 \<Rightarrow> st_fiber \<Rightarrow> fault + st_fiber" where
  "st_change_bit i f = kbind (st_bit_word i f) (\<lambda>w.
     Inr (st_put_word (unat i div BITS_PER_LONG) (flip_bit (unat i mod BITS_PER_LONG) w) f))"

definition st_clear_bit :: "u64 \<Rightarrow> st_fiber \<Rightarrow> fault + st_fiber" where
  "st_clear_bit i f = kbind (st_bit_word i f) (\<lambda>w.
     Inr (st_put_word (unat i div BITS_PER_LONG) (unset_bit (unat i mod BITS_PER_LONG) w) f))"

definition st_fls_load :: "u64 \<Rightarrow> st_fiber \<Rightarrow> fault + u64" where
  "st_fls_load i f =
     (if sint i < 0 \<or> length (st_fls_array f) \<le> unat i then Inl OutOfBounds else Inr (st_fls_array f ! unat i))"

definition st_fls_store :: "u64 \<Rightarrow> u64 \<Rightarrow> st_fiber \<Rightarrow> fault + st_fiber" where
  "st_fls_store i v f =
     (if sint i < 0 \<or> length (st_fls_array f) \<le> unat i then Inl OutOfBounds
      else Inr (f\<lparr>st_fls_array := (st_fls_array f)[unat i := v]\<rparr>))"

end
