(* ===== verification/Single_Ioctl.thy ===== *)
theory Single_Ioctl
  imports Single_State Fiber_Ioctl
begin

text \<open>
  The handlers of \<^verbatim>\<open>single_thread/Module/fiber_ioctl.c\<close>: one definition per command of
  \<^verbatim>\<open>my_ioctl\<close>, and the probe on \<^verbatim>\<open>do_exit\<close>. As for the later version a handler is one
  transition that returns a fault or its result and the next state.
\<close>

section \<open>Registers\<close>

definition copy_reg :: "st_env \<Rightarrow> pt_regs \<Rightarrow> pt_reg \<Rightarrow> pt_regs \<Rightarrow> pt_regs" where
  "copy_reg env src r dst = dst[slot_of env r := src ! slot_of env r]"

definition switch_regs :: "pt_reg list" where
  "switch_regs = [P_r15, P_r14, P_r13, P_r12, P_r11, P_r10, P_r9, P_r8, P_ax, P_bx, P_cx, P_dx, P_si, P_di,
     P_sp, P_ip, P_bp, P_flags]"

definition copy_regs :: "st_env \<Rightarrow> pt_regs \<Rightarrow> pt_reg list \<Rightarrow> pt_regs \<Rightarrow> pt_regs" where
  "copy_regs env src rs dst = fold (copy_reg env src) rs dst"

definition created_regs :: "st_env \<Rightarrow> create_arg \<Rightarrow> pt_regs \<Rightarrow> pt_regs \<Rightarrow> pt_regs" where
  "created_regs env u src img =
     (let img = copy_regs env src [P_r15, P_r14, P_r13, P_r12, P_r11, P_r10, P_r9, P_r8, P_ax, P_bx, P_cx, P_dx, P_si] img;
          img = img[slot_of env P_sp := dwStackPointer u];
          img = img[slot_of env P_ip := lpStartAddress u];
          img = img[slot_of env P_di := lpParameter u];
          img = img[slot_of env P_bp := img ! slot_of env P_sp]
      in copy_reg env src P_flags img)"

section \<open>CONVERTTOFIBER\<close>

text \<open>The calling thread is registered with the new fiber.\<close>

definition st_convert_thread :: "st_env \<Rightarrow> st_call \<Rightarrow> addr option \<Rightarrow> addr \<Rightarrow> st_state \<Rightarrow> fault + u64 \<times> st_state" where
  "st_convert_thread env c fiber pa s =
     kbind (st_search_thread env (sc_pid c) pa s) (\<lambda>tr.
       case tr of
         Some _ \<Rightarrow> Inr (- 1, s)
       | None \<Rightarrow>
          (case kmalloc_thread env s of (thread, s) \<Rightarrow>
           kbind (nonnull thread) (\<lambda>ta.
           kbind (upd_thread ta (\<lambda>t. t\<lparr>st_tpid := sc_pid c\<rparr>) s) (\<lambda>s.
           kbind (upd_process pa (\<lambda>p. p\<lparr>st_threads := hash_add (hash_32 (kern env) (sc_pid c)) ta (st_threads p)\<rparr>) s) (\<lambda>s.
           case kmalloc_regs env s of (r, s) \<Rightarrow>
           kbind (nonnull fiber) (\<lambda>fa.
           kbind (upd_fiber fa (\<lambda>f. f\<lparr>st_regs := r\<rparr>) s) (\<lambda>s.
           kbind (deref (st_procs s) pa) (\<lambda>p.
           kbind (upd_process pa (\<lambda>p. p\<lparr>st_fiber_id := st_fiber_id p + 1\<rparr>) s) (\<lambda>s.
           kbind (upd_fiber fa (\<lambda>f. f\<lparr>st_index := st_fiber_id p\<rparr>) s) (\<lambda>s.
           kbind (nonnull r) (\<lambda>ra.
           kbind (upd_regs ra (\<lambda>_. st_uregs s (sc_pid c)) s) (\<lambda>s.
           kbind (upd_thread ta (\<lambda>t. t\<lparr>st_active := Some fa\<rparr>) s) (\<lambda>s.
           kbind (upd_fiber fa (\<lambda>f. f\<lparr>st_running := True\<rparr>) s) (\<lambda>s.
           case kmalloc_fpu env s of (x, s) \<Rightarrow>
           kbind (upd_fiber fa (\<lambda>f. f\<lparr>st_fpu := x\<rparr>) s) (\<lambda>s.
           kbind (nonnull x) (\<lambda>xa.
           kbind (upd_fpu xa (fxsave (kern env) (st_ufx s (sc_pid c))) s) (\<lambda>s.
           kbind (deref (st_fibs s) fa) (\<lambda>f.
           kbind (upd_process pa (\<lambda>p. p\<lparr>st_fibers := hash_add (hash_long (kern env) (st_index f)) fa (st_fibers p)\<rparr>) s) (\<lambda>s.
             Inr (st_index f, s))))))))))))))))))))"

definition st_convert :: "st_env \<Rightarrow> st_call \<Rightarrow> st_state \<Rightarrow> fault + u64 \<times> st_state" where
  "st_convert env c s =
     (case kmalloc_fiber env s of (fiber, s) \<Rightarrow>
      kbind (st_search_process env (sc_tgid c) s) (\<lambda>pr.
        case pr of
          Some pa \<Rightarrow> st_convert_thread env c fiber pa s
        | None \<Rightarrow>
           (case kmalloc_process env s of (process, s) \<Rightarrow>
            kbind (nonnull process) (\<lambda>pa.
            kbind (upd_process pa (\<lambda>p. p\<lparr>st_fiber_id := 0, st_ppid := sc_tgid c\<rparr>) s) (\<lambda>s.
            let s = s\<lparr>st_list := hash_add (hash_32 (kern env) (sc_tgid c)) pa (st_list s)\<rparr> in
            kbind (upd_process pa (\<lambda>p. p\<lparr>st_threads := hash_init, st_fibers := hash_init\<rparr>) s)
              (st_convert_thread env c fiber pa))))))"

section \<open>CREATEFIBER\<close>

text \<open>The FX image is allocated twice; the first one stays behind. Between the two the registers of the
  processor are saved into the image of the fiber that runs.\<close>

definition st_create_fiber :: "st_env \<Rightarrow> st_call \<Rightarrow> addr option \<Rightarrow> addr \<Rightarrow> addr \<Rightarrow> st_state \<Rightarrow> fault + u64 \<times> st_state" where
  "st_create_fiber env c fiber pa ta s =
     kbind (nonnull fiber) (\<lambda>fa.
     kbind (upd_fiber fa (\<lambda>f. f\<lparr>st_running := False\<rparr>) s) (\<lambda>s.
     kbind (deref (st_procs s) pa) (\<lambda>p.
     kbind (upd_process pa (\<lambda>p. p\<lparr>st_fiber_id := st_fiber_id p + 1\<rparr>) s) (\<lambda>s.
     kbind (upd_fiber fa (\<lambda>f. f\<lparr>st_index := st_fiber_id p\<rparr>) s) (\<lambda>s.
     case kmalloc_regs env s of (r, s) \<Rightarrow>
     kbind (upd_fiber fa (\<lambda>f. f\<lparr>st_regs := r\<rparr>) s) (\<lambda>s.
     kbind (nonnull r) (\<lambda>ra.
     kbind (upd_regs ra (\<lambda>_. st_uregs s (sc_pid c)) s) (\<lambda>s.
     case kmalloc_fpu env s of (x, s) \<Rightarrow>
     kbind (upd_fiber fa (\<lambda>f. f\<lparr>st_fpu := x\<rparr>) s) (\<lambda>s.
     kbind (upd_regs ra (created_regs env (create_buf c) (st_uregs s (sc_pid c))) s) (\<lambda>s.
     kbind (deref (st_thrs s) ta) (\<lambda>t.
     kbind (nonnull (st_active t)) (\<lambda>af.
     kbind (deref (st_fibs s) af) (\<lambda>fo.
     kbind (nonnull (st_fpu fo)) (\<lambda>xo.
     kbind (upd_fpu xo (fxsave (kern env) (st_ufx s (sc_pid c))) s) (\<lambda>s.
     kbind (deref (st_fibs s) fa) (\<lambda>f.
     kbind (upd_process pa (\<lambda>p. p\<lparr>st_fibers := hash_add (hash_long (kern env) (st_index f)) fa (st_fibers p)\<rparr>) s) (\<lambda>s.
     case kmalloc_fpu env s of (x, s) \<Rightarrow>
     kbind (upd_fiber fa (\<lambda>f. f\<lparr>st_fpu := x\<rparr>) s) (\<lambda>s.
     kbind (nonnull x) (\<lambda>xa.
     kbind (upd_fpu xa (fxsave (kern env) (st_ufx s (sc_pid c))) s) (\<lambda>s.
       Inr (st_index f, st_kfree_args s)))))))))))))))))))))"

definition st_create :: "st_env \<Rightarrow> st_call \<Rightarrow> st_state \<Rightarrow> fault + u64 \<times> st_state" where
  "st_create env c s =
     (case st_kmalloc_args env s of (args, s) \<Rightarrow>
      case kmalloc_fiber env s of (fiber, s) \<Rightarrow>
      if \<not> args then Inl NullDeref
      else kbind (st_search_process env (sc_tgid c) s) (\<lambda>pr.
        case pr of
          None \<Rightarrow> Inr (- 1, s)
        | Some pa \<Rightarrow> kbind (st_search_thread env (sc_pid c) pa s) (\<lambda>tr.
            case tr of
              None \<Rightarrow> Inr (- 1, st_kfree_args s)
            | Some ta \<Rightarrow> st_create_fiber env c fiber pa ta s)))"

section \<open>SWITCHTOFIBER\<close>

text \<open>The target gets a new FX image before it is read.\<close>

definition st_switch_context :: "st_env \<Rightarrow> st_call \<Rightarrow> addr \<Rightarrow> addr \<Rightarrow> st_state \<Rightarrow> fault + st_state" where
  "st_switch_context env c ta fa s =
     (case kmalloc_fpu env s of (x, s) \<Rightarrow>
      kbind (upd_fiber fa (\<lambda>f. f\<lparr>st_fpu := x\<rparr>) s) (\<lambda>s.
      kbind (deref (st_thrs s) ta) (\<lambda>t.
      kbind (nonnull (st_active t)) (\<lambda>af.
      kbind (deref (st_fibs s) af) (\<lambda>fo.
      kbind (nonnull (st_regs fo)) (\<lambda>ro.
      kbind (upd_regs ro (copy_regs env (st_uregs s (sc_pid c)) switch_regs) s) (\<lambda>s.
      kbind (nonnull (st_fpu fo)) (\<lambda>xo.
      kbind (upd_fpu xo (fxsave (kern env) (st_ufx s (sc_pid c))) s) (\<lambda>s.
      kbind (deref (st_fibs s) fa) (\<lambda>f.
      kbind (nonnull (st_regs f)) (\<lambda>rn.
      kbind (deref (st_pregs s) rn) (\<lambda>img.
      let s = s\<lparr>st_uregs := (st_uregs s)(sc_pid c := copy_regs env img switch_regs (st_uregs s (sc_pid c)))\<rparr> in
      kbind (nonnull (st_fpu f)) (\<lambda>xn.
      kbind (deref (st_fpus s) xn) (\<lambda>m.
      let s = s\<lparr>st_ufx := (st_ufx s)(sc_pid c := fxrstor (kern env) m)\<rparr> in
      kbind (upd_fiber af (\<lambda>f. f\<lparr>st_running := False\<rparr>) s) (\<lambda>s.
      kbind (upd_thread ta (\<lambda>t. t\<lparr>st_active := Some fa\<rparr>) s) (\<lambda>s.
      upd_fiber fa (\<lambda>f. f\<lparr>st_running := True\<rparr>) s))))))))))))))))"

definition st_switch :: "st_env \<Rightarrow> st_call \<Rightarrow> st_state \<Rightarrow> fault + u64 \<times> st_state" where
  "st_switch env c s =
     kbind (st_search_process env (sc_tgid c) s) (\<lambda>pr.
       case pr of
         None \<Rightarrow> Inr (- 1, s)
       | Some pa \<Rightarrow> kbind (st_search_fiber env (ucast (sc_arg c)) pa s) (\<lambda>fr.
           case fr of
             None \<Rightarrow> Inr (- 1, s)
           | Some fa \<Rightarrow> kbind (st_search_thread env (sc_pid c) pa s) (\<lambda>tr.
               case tr of
                 None \<Rightarrow> Inr (- 1, s)
               | Some ta \<Rightarrow> kbind (st_switch_context env c ta fa s) (\<lambda>s. Inr (0, s)))))"

section \<open>Fiber-local storage\<close>

text \<open>The prologue of the four commands.\<close>

definition st_with_active ::
  "st_env \<Rightarrow> st_call \<Rightarrow> st_state \<Rightarrow> fault + u64 \<times> st_state \<Rightarrow> fault + u64 \<times> st_state \<Rightarrow>
   (addr \<Rightarrow> st_fiber \<Rightarrow> fault + u64 \<times> st_state) \<Rightarrow> fault + u64 \<times> st_state" where
  "st_with_active env c s no_process no_thread body =
     kbind (st_search_process env (sc_tgid c) s) (\<lambda>pr.
       case pr of
         None \<Rightarrow> no_process
       | Some pa \<Rightarrow> kbind (st_search_thread env (sc_pid c) pa s) (\<lambda>tr.
           case tr of
             None \<Rightarrow> no_thread
           | Some ta \<Rightarrow>
              kbind (deref (st_thrs s) ta) (\<lambda>t.
              kbind (nonnull (st_active t)) (\<lambda>fa.
              kbind (deref (st_fibs s) fa) (\<lambda>f. body fa f)))))"

definition st_fls_alloc :: "st_env \<Rightarrow> st_call \<Rightarrow> st_state \<Rightarrow> fault + u64 \<times> st_state" where
  "st_fls_alloc env c s =
     st_with_active env c s (Inr (- 1, s)) (Inr (- 1, s)) (\<lambda>fa f.
       let i = of_nat (st_find_first_zero f) in
       kbind (st_change_bit i f) (\<lambda>f.
       kbind (st_fls_store i 0 f) (\<lambda>f.
       kbind (upd_fiber fa (\<lambda>_. f) s) (\<lambda>s. Inr (i, s)))))"

definition st_fls_free :: "st_env \<Rightarrow> st_call \<Rightarrow> st_state \<Rightarrow> fault + u64 \<times> st_state" where
  "st_fls_free env c s =
     st_with_active env c s (Inr (0, s)) (Inr (0, s)) (\<lambda>fa f.
       kbind (st_clear_bit (sc_arg c) f) (\<lambda>f.
       kbind (upd_fiber fa (\<lambda>_. f) s) (\<lambda>s. Inr (1, s))))"

definition st_fls_get :: "st_env \<Rightarrow> st_call \<Rightarrow> st_state \<Rightarrow> fault + u64 \<times> st_state" where
  "st_fls_get env c s =
     st_with_active env c s (Inr (- 1, s)) (Inr (- 1, s)) (\<lambda>fa f.
       kbind (st_test_bit (sc_arg c) f) (\<lambda>b.
         if b then kbind (st_fls_load (sc_arg c) f) (\<lambda>v. Inr (v, s)) else Inr (- 1, s)))"

text \<open>The result is 0 whether or not a value was stored; without a process the buffer is leaked.\<close>

definition st_fls_set :: "st_env \<Rightarrow> st_call \<Rightarrow> st_state \<Rightarrow> fault + u64 \<times> st_state" where
  "st_fls_set env c s =
     (case st_kmalloc_args env s of (args, s) \<Rightarrow>
      if \<not> args then Inl NullDeref
      else
        let i = dwFlsIndex (set_buf c) in
        st_with_active env c s (Inr (- 1, s)) (Inr (0, st_kfree_args s)) (\<lambda>fa f.
          kbind (st_test_bit i f) (\<lambda>b.
            if b then
              kbind (st_fls_store i (lpFlsData (set_buf c)) f) (\<lambda>f.
              kbind (upd_fiber fa (\<lambda>_. f) s) (\<lambda>s. Inr (0, st_kfree_args s)))
            else Inr (0, st_kfree_args s))))"

section \<open>The dispatcher and the probe\<close>

fun st_ioctl :: "st_env \<Rightarrow> ioctl_cmd \<Rightarrow> st_call \<Rightarrow> st_state \<Rightarrow> fault + u64 \<times> st_state" where
  "st_ioctl env CONVERTTOFIBER c s = st_convert env c s"
| "st_ioctl env CREATEFIBER c s = st_create env c s"
| "st_ioctl env SWITCHTOFIBER c s = st_switch env c s"
| "st_ioctl env FLSALLOC c s = st_fls_alloc env c s"
| "st_ioctl env FLSFREE c s = st_fls_free env c s"
| "st_ioctl env FLSGETVALUE c s = st_fls_get env c s"
| "st_ioctl env FLSSETVALUE c s = st_fls_set env c s"
| "st_ioctl env (OtherCmd _) c s = Inr (0, s)"

text \<open>The process stays in its table when its last thread exits.\<close>

definition st_Pre_Handler :: "st_env \<Rightarrow> st_call \<Rightarrow> st_state \<Rightarrow> fault + u64 \<times> st_state" where
  "st_Pre_Handler env c s =
     kbind (st_search_process env (sc_tgid c) s) (\<lambda>pr.
       case pr of
         None \<Rightarrow> Inr (0, s)
       | Some pa \<Rightarrow> kbind (st_search_thread env (sc_pid c) pa s) (\<lambda>tr.
           case tr of
             None \<Rightarrow> Inr (0, s)
           | Some ta \<Rightarrow>
              kbind (deref (st_thrs s) ta) (\<lambda>t.
              kbind (upd_process pa (\<lambda>p. p\<lparr>st_threads := hash_del ta (st_threads p)\<rparr>) s) (\<lambda>s.
              kbind (nonnull (st_active t)) (\<lambda>fa.
              kbind (upd_process pa (\<lambda>p. p\<lparr>st_fibers := hash_del fa (st_fibers p)\<rparr>) s) (\<lambda>s.
              kbind (deref (st_fibs s) fa) (\<lambda>f.
              kbind (kfree_in (st_fpus s) (st_fpu f)) (\<lambda>F.
              let s = s\<lparr>st_fpus := F\<rparr> in
              kbind (kfree_in (st_pregs s) (st_regs f)) (\<lambda>R.
              let s = s\<lparr>st_pregs := R\<rparr> in
              kbind (kfree_in (st_thrs s) (Some ta)) (\<lambda>T.
              let s = s\<lparr>st_thrs := T\<rparr> in
              kbind (kfree_in (st_fibs s) (Some fa)) (\<lambda>X.
                Inr (0, s\<lparr>st_fibs := X\<rparr>))))))))))))"

text \<open>The state after \<^verbatim>\<open>hash_init(list_process)\<close> at module load.\<close>

definition st_init_state :: "(pid_t \<Rightarrow> pt_regs) \<Rightarrow> (pid_t \<Rightarrow> fx) \<Rightarrow> st_state" where
  "st_init_state ur uf = \<lparr>st_procs = Map.empty, st_thrs = Map.empty, st_fibs = Map.empty, st_pregs = Map.empty,
     st_fpus = Map.empty, st_args = 0, st_brk = 0, st_list = hash_init, st_uregs = ur, st_ufx = uf\<rparr>"

end
