(* ===== verification/Single_Inv.thy ===== *)
theory Single_Inv
  imports Single_Ioctl Fiber_Spec
begin

text \<open>
  The invariant of the earlier version. Its state is embedded into that of the later one: what the
  two have in common is read off, the rest (clocks, counters, locks) gets fixed values. The
  invariant \<open>kinv\<close> of the embedded state is what \<open>Fiber_Invariant\<close> says of the tables; on top of
  it the registers and the FX image of every linked fiber are live and belong to it alone.
\<close>

section \<open>States the invariant of the later version does not tell apart\<close>

definition same_fiber :: "fiber_arg option \<Rightarrow> fiber_arg option \<Rightarrow> bool" where
  "same_fiber x y = rel_option (\<lambda>f f'. index f' = index f \<and> running f' = running f \<and> length (regs f') = length (regs f)) x y"

lemma kinv_similar:
  assumes k: "kinv env s"
    and eq: "procs s' = procs s" "thrs s' = thrs s" "list_process s' = list_process s" "count_threads s' = count_threads s"
    and f: "\<And>a. same_fiber (fibs s a) (fibs s' a)" and b: "brk s \<le> brk s'" and u: "\<And>t. length (uregs s' t) = nregs env"
  shows "kinv env s'" and "kabs env s' = kabs env s"
proof -
  have keys: "pkey s' = pkey s" "tkey s' = tkey s" "act s' = act s"
    by (simp_all add: fun_eq_iff pkey_def tkey_def act_def eq)
  have fk: "fkey s' = fkey s"
  proof
    fix a show "fkey s' a = fkey s a" using f [of a] by (cases "fibs s a"; cases "fibs s' a") (simp_all add: same_fiber_def fkey_def)
  qed
  have fi: "fiber_inv env s' p a = fiber_inv env s p a" for p a
    using f [of a] by (cases "fibs s a"; cases "fibs s' a") (auto simp: same_fiber_def fiber_inv_def keys)
  have "fibs s' a = None" if "brk s' \<le> a" for a
    using f [of a] kinv_fresh [OF k, of a] that b by (simp add: same_fiber_def)
  then have fr: "fresh_beyond s'" using kinv_fresh [OF k] b by (simp add: fresh_beyond_def eq)
  have pinv: "proc_inv env s' p = proc_inv env s p" for p by (simp add: proc_inv_def keys fk fi)
  show "kinv env s'" using k fr u by (simp add: kinv_def eq keys pinv disjoint_procs_def all_threads_def)
  have "search_process env tg s' = search_process env tg s" for tg by (simp add: search_process_def keys eq)
  moreover have "abs_proc env s' = abs_proc env s" by (rule abs_proc_same) (simp_all add: keys fk)
  ultimately show "kabs env s' = kabs env s" by (intro ext) (simp add: kabs_def eq split: sum.split option.split)
qed

section \<open>The embedding\<close>

definition embed_fiber :: "kenv \<Rightarrow> st_fiber \<Rightarrow> fiber_arg" where
  "embed_fiber env f = (zero_fiber env)\<lparr>index := st_index f, running := st_running f\<rparr>"

definition embed_thread :: "st_thread \<Rightarrow> thread_arg" where
  "embed_thread t = \<lparr>t_pid = st_tpid t, active_fiber = st_active t\<rparr>"

definition embed_process :: "st_process \<Rightarrow> process_arg" where
  "embed_process p = \<lparr>p_pid = st_ppid p, fiber_id = st_fiber_id p, lock_fiber = False, lock_hash = False,
     fibers = st_fibers p, threads = st_threads p\<rparr>"

definition embed :: "kenv \<Rightarrow> int \<Rightarrow> st_state \<Rightarrow> kstate" where
  "embed env n s = \<lparr>procs = (\<lambda>a. map_option embed_process (st_procs s a)), thrs = (\<lambda>a. map_option embed_thread (st_thrs s a)),
     fibs = (\<lambda>a. map_option (embed_fiber env) (st_fibs s a)), brk = st_brk s, bufs_live = 0, list_process = st_list s,
     count_threads = n, uregs = st_uregs s, ufx = st_ufx s\<rparr>"

lemma embed_simps [simp]:
  "procs (embed env n s) a = map_option embed_process (st_procs s a)"
  "thrs (embed env n s) a = map_option embed_thread (st_thrs s a)"
  "fibs (embed env n s) a = map_option (embed_fiber env) (st_fibs s a)"
  "brk (embed env n s) = st_brk s" "list_process (embed env n s) = st_list s" "count_threads (embed env n s) = n"
  "uregs (embed env n s) = st_uregs s" "ufx (embed env n s) = st_ufx s"
  by (simp_all add: embed_def)

lemma embed_field [simp]:
  "p_pid (embed_process p) = st_ppid p" "fiber_id (embed_process p) = st_fiber_id p"
  "fibers (embed_process p) = st_fibers p" "threads (embed_process p) = st_threads p"
  "\<not> lock_fiber (embed_process p)" "\<not> lock_hash (embed_process p)"
  "t_pid (embed_thread t) = st_tpid t" "active_fiber (embed_thread t) = st_active t"
  "index (embed_fiber env f) = st_index f" "running (embed_fiber env f) = st_running f"
  "length (regs (embed_fiber env f)) = nregs env"
  by (simp_all add: embed_process_def embed_thread_def embed_fiber_def zero_fiber_def)

lemma embed_keys:
  "pkey (embed env n s) = st_pkey s" "tkey (embed env n s) = st_tkey s" "fkey (embed env n s) = map_option fst \<circ> st_fkey s"
  by (simp_all add: fun_eq_iff pkey_def st_pkey_def tkey_def st_tkey_def fkey_def st_fkey_def option.map_comp comp_def)

section \<open>Searches\<close>

lemma st_search_process_embed: "st_search_process env k s = search_process (kern env) k (embed (kern env) n s)"
  by (simp add: st_search_process_def search_process_def embed_keys)

lemma st_search_thread_embed:
  "st_procs s pa = Some p \<Longrightarrow>
   st_search_thread env k pa s = pid_find (kern env) (tkey (embed (kern env) n s)) k (st_threads p)"
  by (simp add: st_search_thread_def pid_find_def embed_keys)

lemma chain_find_NoneD: "chain_find key P as = Inr None \<Longrightarrow> a \<in> set as \<Longrightarrow> key a = Some k \<Longrightarrow> \<not> P k"
  by (induction as) (auto simp: deref_def split: option.splits if_splits)

lemma st_search_fiber_cases:
  assumes p: "proc_inv (kern env) (embed (kern env) n s) (embed_process p)" "st_procs s pa = Some p"
  obtains (None) "st_search_fiber env (ucast k) pa s = Inr None"
      "\<And>fa f. fa \<in> mem (st_fibers p) \<Longrightarrow> st_fibs s fa = Some f \<Longrightarrow> st_index f = int_cut k \<Longrightarrow> st_running f"
  | (Some) fa f where "st_search_fiber env (ucast k) pa s = Inr (Some fa)" "fa \<in> mem (st_fibers p)" "st_fibs s fa = Some f"
      "st_index f = int_cut k" "\<not> st_running f"
proof -
  let ?e = "kern env" let ?b = "hash_32 ?e (ucast k)"
  let ?P = "\<lambda>(i, run). i = scast (ucast k :: u32) \<and> \<not> run"
  have sf: "st_search_fiber env (ucast k) pa s = chain_find (st_fkey s) ?P (st_fibers p ?b)"
    using p(2) by (simp add: st_search_fiber_def)
  have tab: "table_ok (hash_long ?e) (fib_valid ?e) (map_option fst \<circ> st_fkey s) (st_fibers p)"
    using proc_fibers [OF p(1)] by (simp add: fib_tab_def embed_keys)
  have live: "st_fkey s a \<noteq> None" if "a \<in> set (st_fibers p ?b)" for a
    using table_ok_live [OF tab, of a] that by (auto simp: mem_def)
  obtain r where r: "chain_find (st_fkey s) ?P (st_fibers p ?b) = Inr r"
    using chain_find_total [of "st_fibers p ?b" "st_fkey s" ?P] live by blast
  show thesis
  proof (cases r)
    case None
    have "st_running f" if f: "fa \<in> mem (st_fibers p)" "st_fibs s fa = Some f" "st_index f = int_cut k" for fa f
    proof -
      have key: "(map_option fst \<circ> st_fkey s) fa = Some (int_cut k)" using f by (simp add: st_fkey_def)
      have "fib_valid ?e (int_cut k)" using table_ok_live [OF tab f(1)] key by auto
      then have "hash_long ?e (int_cut k) = ?b" by (simp add: fib_valid_def hvalid_def)
      then have "fa \<in> set (st_fibers p ?b)" using table_ok_bucket [OF tab f(1) key] by simp
      from chain_find_NoneD [OF r [unfolded None] this, of "(st_index f, st_running f)"] show ?thesis
        using f(2,3) by (simp add: st_fkey_def int_cut_def)
    qed
    then show thesis using that(1) sf r None by simp
  next
    case (Some fa)
    then have a: "fa \<in> set (st_fibers p ?b)" "\<exists>k. st_fkey s fa = Some k \<and> ?P k"
      using chain_find_result [of "st_fkey s" ?P "st_fibers p ?b" fa] r by auto
    then show thesis using that(2) [of fa] sf r Some by (auto simp: st_fkey_def mem_def int_cut_def)
  qed
qed

section \<open>The invariant\<close>

definition linked :: "st_state \<Rightarrow> addr set" where
  "linked s = {fa. \<exists>pa p. pa \<in> mem (st_list s) \<and> st_procs s pa = Some p \<and> fa \<in> mem (st_fibers p)}"

definition regs_of :: "st_state \<Rightarrow> addr \<Rightarrow> addr option" where
  "regs_of s fa = (case st_fibs s fa of None \<Rightarrow> None | Some f \<Rightarrow> st_regs f)"

definition fpu_of :: "st_state \<Rightarrow> addr \<Rightarrow> addr option" where
  "fpu_of s fa = (case st_fibs s fa of None \<Rightarrow> None | Some f \<Rightarrow> st_fpu f)"

definition owns :: "st_env \<Rightarrow> st_state \<Rightarrow> addr \<Rightarrow> bool" where
  "owns env s fa \<longleftrightarrow> (\<exists>f r x img m. st_fibs s fa = Some f \<and> st_regs f = Some r \<and> st_fpu f = Some x \<and>
     st_pregs s r = Some img \<and> length img = nregs (kern env) \<and> st_fpus s x = Some m \<and> length (st_fls_array f) = MAX_FLS)"

definition objects_ok :: "st_env \<Rightarrow> st_state \<Rightarrow> bool" where
  "objects_ok env s \<longleftrightarrow> (\<forall>fa\<in>linked s. owns env s fa) \<and> inj_on (regs_of s) (linked s) \<and> inj_on (fpu_of s) (linked s) \<and>
     (\<forall>a\<ge>st_brk s. st_pregs s a = None \<and> st_fpus s a = None)"

definition st_inv :: "st_env \<Rightarrow> st_state \<Rightarrow> bool" where
  "st_inv env s \<longleftrightarrow> (\<exists>n. kinv (kern env) (embed (kern env) n s)) \<and> objects_ok env s"

definition st_abs :: "st_env \<Rightarrow> st_state \<Rightarrow> pid_t \<Rightarrow> fproc option" where
  "st_abs env s = kabs (kern env) (embed (kern env) 0 s)"

definition st_aproc :: "st_env \<Rightarrow> st_state \<Rightarrow> st_process \<Rightarrow> fproc" where
  "st_aproc env s p = abs_proc (kern env) (embed (kern env) 0 s) (embed_process p)"

lemma aproc_count: "abs_proc (kern env) (embed (kern env) n s) (embed_process p) = st_aproc env s p"
  unfolding st_aproc_def
  by (rule fun_cong [OF abs_proc_same]) (simp_all add: embed_keys fun_eq_iff act_def)

lemma abs_count: "kabs env (embed env n s) = kabs env (embed env m s)"
proof -
  have "act (embed env n s) = act (embed env m s)" by (simp add: fun_eq_iff act_def)
  then have "abs_proc env (embed env n s) = abs_proc env (embed env m s)"
    by (intro abs_proc_same) (simp_all add: embed_keys)
  then show ?thesis by (intro ext) (simp add: kabs_def search_process_def embed_keys split: sum.split option.split)
qed

lemma linked_embed: "all_fibers (embed env n s) = linked s"
  by (auto simp: all_fibers_def linked_def)

lemma st_inv_init: "(\<And>t. length (ur t) = nregs (kern env)) \<Longrightarrow> st_inv env (st_init_state ur uf)"
proof -
  assume "\<And>t. length (ur t) = nregs (kern env)"
  then have "kinv (kern env) (init_state ur uf)" by (rule kinv_init)
  moreover have "embed (kern env) 0 (st_init_state ur uf) = init_state ur uf"
    by (simp add: embed_def st_init_state_def init_state_def)
  ultimately show ?thesis
    by (auto simp: st_inv_def objects_ok_def linked_def st_init_state_def intro!: exI [of _ 0])
qed

lemma st_invD:
  assumes "st_inv env s"
  obtains n where "kinv (kern env) (embed (kern env) n s)" "objects_ok env s" "\<And>m. kabs (kern env) (embed (kern env) m s) = st_abs env s"
  using assms abs_count unfolding st_inv_def st_abs_def by blast

section \<open>Searches under the invariant\<close>

lemma st_process_cases:
  assumes i: "st_inv env s"
  obtains (None) "st_search_process env k s = Inr None" "st_abs env s k = None"
      "\<And>pa. pa \<in> mem (st_list s) \<Longrightarrow> st_pkey s pa \<noteq> Some k"
  | (Some) pa p where "st_search_process env k s = Inr (Some pa)" "pa \<in> mem (st_list s)" "st_procs s pa = Some p"
      "st_ppid p = k" "st_abs env s k = Some (st_aproc env s p)"
proof -
  let ?e = "kern env"
  obtain n where n: "kinv ?e (embed ?e n s)" and ab: "\<And>m. kabs ?e (embed ?e m s) = st_abs env s"
    by (rule st_invD [OF i]) blast
  show thesis
  proof (rule search_process_cases [OF n, of k])
    assume a: "search_process ?e k (embed ?e n s) = Inr None" "\<And>pa. pa \<in> mem (list_process (embed ?e n s)) \<Longrightarrow> pkey (embed ?e n s) pa \<noteq> Some k"
    show thesis
      by (rule None) (use a abs_absent [OF a(1)] ab [of n] in \<open>simp_all add: st_search_process_embed [of env k s n] embed_keys\<close>)
  next
    fix pa q assume a: "search_process ?e k (embed ?e n s) = Inr (Some pa)" "pa \<in> mem (list_process (embed ?e n s))"
      "procs (embed ?e n s) pa = Some q" "p_pid q = k"
    then obtain p where p: "st_procs s pa = Some p" "q = embed_process p" by auto
    show thesis
      by (rule Some [of pa p])
        (use a p abs_found [OF a(1,3)] ab [of n] in \<open>simp_all add: st_search_process_embed [of env k s n] aproc_count\<close>)
  qed
qed

lemma st_proc_inv:
  assumes "st_inv env s" "pa \<in> mem (st_list s)" "st_procs s pa = Some p"
  obtains n where "kinv (kern env) (embed (kern env) n s)" "proc_inv (kern env) (embed (kern env) n s) (embed_process p)"
proof -
  obtain n where n: "kinv (kern env) (embed (kern env) n s)" using assms(1) by (auto simp: st_inv_def)
  from that [OF n kinv_proc [OF n, of pa]] assms(2,3) show thesis by simp
qed

lemma st_abs_member:
  assumes i: "st_inv env s" and p: "pa \<in> mem (st_list s)" "st_procs s pa = Some p"
  shows "st_abs env s (st_ppid p) = Some (st_aproc env s p)"
proof -
  obtain n where n: "kinv (kern env) (embed (kern env) n s)" and ab: "\<And>m. kabs (kern env) (embed (kern env) m s) = st_abs env s"
    by (rule st_invD [OF i]) blast
  show ?thesis using abs_member [OF n, of pa "embed_process p"] p ab [of n] by (simp add: aproc_count)
qed

lemma st_thread_cases:
  assumes i: "st_inv env s" and p: "pa \<in> mem (st_list s)" "st_procs s pa = Some p"
  obtains (None) "st_search_thread env k pa s = Inr None" "cur (st_aproc env s p) k = None"
      "\<And>ta. ta \<in> mem (st_threads p) \<Longrightarrow> st_tkey s ta \<noteq> Some k"
  | (Some) ta t fa f where "st_search_thread env k pa s = Inr (Some ta)" "ta \<in> mem (st_threads p)" "st_thrs s ta = Some t"
      "st_tpid t = k" "st_active t = Some fa" "fa \<in> mem (st_fibers p)" "st_fibs s fa = Some f" "st_running f"
      "cur (st_aproc env s p) k = Some (st_index f)"
proof -
  let ?e = "kern env"
  obtain n where n: "kinv ?e (embed ?e n s)" "proc_inv ?e (embed ?e n s) (embed_process p)" by (rule st_proc_inv [OF assms])
  show thesis
  proof (rule thread_find_cases [OF n(2), of k])
    assume a: "pid_find ?e (tkey (embed ?e n s)) k (threads (embed_process p)) = Inr None"
      "\<And>ta. ta \<in> mem (threads (embed_process p)) \<Longrightarrow> tkey (embed ?e n s) ta \<noteq> Some k"
    show thesis
      by (rule None) (use a cur_abs_proc(1) [OF a(1)] in
        \<open>simp_all add: st_search_thread_embed [OF p(2), of env k n] embed_keys aproc_count\<close>)
  next
    fix ta t fa f assume a: "pid_find ?e (tkey (embed ?e n s)) k (threads (embed_process p)) = Inr (Some ta)"
      "ta \<in> mem (threads (embed_process p))" "thrs (embed ?e n s) ta = Some t" "t_pid t = k" "active_fiber t = Some fa"
      "act (embed ?e n s) ta = Some fa" "fa \<in> mem (fibers (embed_process p))" "fibs (embed ?e n s) fa = Some f" "running f"
    then obtain u g where u: "st_thrs s ta = Some u" "t = embed_thread u" "st_fibs s fa = Some g" "f = embed_fiber ?e g" by auto
    have "cur (st_aproc env s p) k = Some (index f)" using cur_abs_proc(2) [OF a(1,6,8)] by (simp add: aproc_count)
    then show thesis
      by (intro Some [of ta u fa g]) (use a u in \<open>simp_all add: st_search_thread_embed [OF p(2), of env k n]\<close>)
  qed
qed

lemma st_live_iff:
  "i \<in> live (st_aproc env s p) \<longleftrightarrow> (\<exists>fa f. fa \<in> mem (st_fibers p) \<and> st_fibs s fa = Some f \<and> st_index f = i)"
  unfolding st_aproc_def live_iff by auto

lemma st_running_iff:
  assumes i: "st_inv env s" and p: "pa \<in> mem (st_list s)" "st_procs s pa = Some p"
    and fa: "fa \<in> mem (st_fibers p)" "st_fibs s fa = Some f"
  shows "st_running f \<longleftrightarrow> st_index f \<in> ran (cur (st_aproc env s p))"
proof -
  obtain n where n: "proc_inv (kern env) (embed (kern env) n s) (embed_process p)" by (rule st_proc_inv [OF i p])
  from running_iff_cur [OF n, of fa "embed_fiber (kern env) f"] fa show ?thesis by (simp add: aproc_count)
qed

lemma st_index_inj:
  assumes i: "st_inv env s" and p: "pa \<in> mem (st_list s)" "st_procs s pa = Some p"
    and a: "a \<in> mem (st_fibers p)" "st_fibs s a = Some f" and b: "b \<in> mem (st_fibers p)" "st_fibs s b = Some g"
    and e: "st_index f = st_index g"
  shows "a = b"
proof -
  obtain n where n: "proc_inv (kern env) (embed (kern env) n s) (embed_process p)" by (rule st_proc_inv [OF i p])
  show ?thesis by (rule fkey_inj [OF n]) (use a b e in \<open>simp_all add: fkey_def\<close>)
qed

end
