(* ===== verification/Single_Steps.thy ===== *)
theory Single_Steps
  imports Single_Inv
begin

text \<open>
  What the commands of the earlier version compute under the invariant, that they keep it, and what
  they do to the abstract state, which is that of the later version.
\<close>

section \<open>Ownership\<close>

text \<open>Registers and FX images are never freed or resized by the rest of a step.\<close>

definition keeps :: "st_state \<Rightarrow> st_state \<Rightarrow> bool" where
  "keeps s s' \<longleftrightarrow> (\<forall>r img. st_pregs s r = Some img \<longrightarrow> (\<exists>img'. st_pregs s' r = Some img' \<and> length img' = length img)) \<and>
     (\<forall>x m. st_fpus s x = Some m \<longrightarrow> (\<exists>m'. st_fpus s' x = Some m'))"

lemma owns_keeps:
  assumes "owns env s a" "st_fibs s' a = st_fibs s a" "keeps s s'"
  shows "owns env s' a"
proof -
  obtain f r x img m where f: "st_fibs s a = Some f" "st_regs f = Some r" "st_fpu f = Some x"
     "st_pregs s r = Some img" "length img = nregs (kern env)" "st_fpus s x = Some m" "length (st_fls_array f) = MAX_FLS"
    using assms(1) by (auto simp: owns_def)
  obtain img' m' where "st_pregs s' r = Some img'" "length img' = length img" "st_fpus s' x = Some m'"
    using assms(3) f(4,6) unfolding keeps_def by blast
  then show ?thesis unfolding owns_def using f assms(2) by simp
qed

lemma owns_old:
  assumes "objects_ok env s" "a \<in> linked s"
  obtains r x where "regs_of s a = Some r" "r < st_brk s" "fpu_of s a = Some x" "x < st_brk s"
proof -
  obtain f r x img m where f: "st_fibs s a = Some f" "st_regs f = Some r" "st_fpu f = Some x"
     "st_pregs s r = Some img" "st_fpus s x = Some m"
    using assms by (auto simp: objects_ok_def owns_def)
  have "r < st_brk s" "x < st_brk s"
    using assms(1) f(4,5) unfolding objects_ok_def by (metis not_le_imp_less option.distinct(1))+
  then show ?thesis using that f by (simp add: regs_of_def fpu_of_def)
qed

text \<open>A step that touches the pointers of one fiber \<open>fa\<close> only, and gives it new objects if any.\<close>

lemma objects_okI:
  assumes o: "objects_ok env s"
    and L: "linked s' \<subseteq> insert fa (linked s)"
    and old: "\<And>a. a \<in> linked s' \<Longrightarrow> a \<noteq> fa \<Longrightarrow> owns env s' a \<and> regs_of s' a = regs_of s a \<and> fpu_of s' a = fpu_of s a"
    and new: "fa \<in> linked s' \<Longrightarrow> owns env s' fa \<and>
      (regs_of s' fa = regs_of s fa \<and> fa \<in> linked s \<or> (\<exists>r\<ge>st_brk s. regs_of s' fa = Some r)) \<and>
      (fpu_of s' fa = fpu_of s fa \<and> fa \<in> linked s \<or> (\<exists>x\<ge>st_brk s. fpu_of s' fa = Some x))"
    and fresh: "\<And>a. a \<ge> st_brk s' \<Longrightarrow> st_pregs s' a = None \<and> st_fpus s' a = None"
  shows "objects_ok env s'"
proof -
  have i: "inj_on (regs_of s) (linked s)" "inj_on (fpu_of s) (linked s)" using o by (auto simp: objects_ok_def)
  have d: "regs_of s' a \<noteq> regs_of s' fa \<and> fpu_of s' a \<noteq> fpu_of s' fa" if a: "a \<in> linked s'" "a \<noteq> fa" "fa \<in> linked s'" for a
  proof -
    have l: "a \<in> linked s" using L a by auto
    obtain r x where r: "regs_of s a = Some r" "r < st_brk s" "fpu_of s a = Some x" "x < st_brk s" by (rule owns_old [OF o l])
    have "regs_of s a \<noteq> regs_of s fa \<and> fpu_of s a \<noteq> fpu_of s fa" if "fa \<in> linked s"
      using that l a(2) i by (auto simp: inj_on_def)
    then show ?thesis using old [OF a(1,2)] new [OF a(3)] r by auto
  qed
  have "inj_on (regs_of s') (linked s')" "inj_on (fpu_of s') (linked s')"
  proof (safe intro!: inj_onI)
    fix a b assume ab: "a \<in> linked s'" "b \<in> linked s'" "regs_of s' a = regs_of s' b"
    show "a = b"
    proof (cases "a = fa \<or> b = fa")
      case False
      then have "a \<in> linked s" "b \<in> linked s" using L ab by auto
      then show ?thesis using old [of a] old [of b] ab False i by (auto simp: inj_on_def)
    qed (use d ab in metis)
  next
    fix a b assume ab: "a \<in> linked s'" "b \<in> linked s'" "fpu_of s' a = fpu_of s' b"
    show "a = b"
    proof (cases "a = fa \<or> b = fa")
      case False
      then have "a \<in> linked s" "b \<in> linked s" using L ab by auto
      then show ?thesis using old [of a] old [of b] ab False i by (auto simp: inj_on_def)
    qed (use d ab in metis)
  qed
  then show ?thesis using old new fresh unfolding objects_ok_def by blast
qed

lemma objects_fresh: "objects_ok env s \<Longrightarrow> a \<ge> st_brk s \<Longrightarrow> st_pregs s a = None \<and> st_fpus s a = None"
  by (simp add: objects_ok_def)

lemma objects_owns: "objects_ok env s \<Longrightarrow> a \<in> linked s \<Longrightarrow> owns env s a"
  by (simp add: objects_ok_def)

text \<open>Changes the invariant does not speak of: new objects, words of local storage.\<close>

definition same_role :: "st_fiber \<Rightarrow> st_fiber \<Rightarrow> bool" where
  "same_role f g \<longleftrightarrow> st_index g = st_index f \<and> st_running g = st_running f \<and> st_regs g = st_regs f \<and> st_fpu g = st_fpu f \<and>
     length (st_fls_array g) = length (st_fls_array f)"

lemma st_inv_frame:
  assumes i: "st_inv env s" and l: "st_list s' = st_list s"
    and ps: "\<And>a. a \<in> mem (st_list s) \<Longrightarrow> st_procs s' a = st_procs s a"
    and ts: "\<And>a pa p. pa \<in> mem (st_list s) \<Longrightarrow> st_procs s pa = Some p \<Longrightarrow> a \<in> mem (st_threads p) \<Longrightarrow> st_thrs s' a = st_thrs s a"
    and fs: "\<And>a f. a \<in> linked s \<Longrightarrow> st_fibs s a = Some f \<Longrightarrow> \<exists>g. st_fibs s' a = Some g \<and> same_role f g"
    and kp: "keeps s s'" and b: "st_brk s \<le> st_brk s'"
    and fr: "\<And>a. a \<ge> st_brk s' \<Longrightarrow> st_procs s' a = None \<and> st_thrs s' a = None \<and> st_fibs s' a = None \<and>
       st_pregs s' a = None \<and> st_fpus s' a = None"
    and u: "\<And>t. length (st_uregs s' t) = nregs (kern env)"
  shows "st_inv env s'" "st_abs env s' = st_abs env s" "linked s' = linked s"
proof -
  let ?e = "kern env"
  obtain n where k: "kinv ?e (embed ?e n s)" and o: "objects_ok env s" and ab: "\<And>m. kabs ?e (embed ?e m s) = st_abs env s"
    by (rule st_invD [OF i]) blast
  show L: "linked s' = linked s" unfolding linked_def l using ps by auto
  have fl: "\<exists>f g. st_fibs s a = Some f \<and> st_fibs s' a = Some g \<and> same_role f g" if "a \<in> linked s" for a
    using objects_owns [OF o that] fs [OF that] by (auto simp: owns_def)
  have F: "fibs (embed ?e n s') a = fibs (embed ?e n s) a" if "a \<in> all_fibers (embed ?e n s)" for a
    using fl [of a] that by (auto simp: linked_embed same_role_def embed_fiber_def)
  have T: "thrs (embed ?e n s') a = thrs (embed ?e n s) a" if "a \<in> all_threads (embed ?e n s)" for a
    using that ts by (auto simp: all_threads_def)
  have k': "kinv ?e (embed ?e n s')"
  proof (rule kinv_unlinked [OF k _ _ T F])
    show "fresh_beyond (embed ?e n s')" unfolding fresh_beyond_def using fr by simp
    show "procs (embed ?e n s') a = procs (embed ?e n s) a" if "a \<in> mem (list_process (embed ?e n s))" for a
      using that ps by simp
  qed (simp_all add: l u)
  have "kabs ?e (embed ?e n s') = kabs ?e (embed ?e n s)"
  proof (rule abs_unlinked [OF k k' _ _ T])
    show "procs (embed ?e n s') a = procs (embed ?e n s) a" if "a \<in> mem (list_process (embed ?e n s))" for a
      using that ps by simp
    show "fkey (embed ?e n s') a = fkey (embed ?e n s) a" if "a \<in> all_fibers (embed ?e n s)" for a
      using F [OF that] by (simp only: fkey_def)
  qed (simp add: l)
  then show "st_abs env s' = st_abs env s" using ab [of n] abs_count [of ?e n s' 0] by (simp add: st_abs_def [of env s'])
  have ow: "owns env s' a \<and> regs_of s' a = regs_of s a \<and> fpu_of s' a = fpu_of s a" if a: "a \<in> linked s" for a
  proof -
    obtain f g where fg: "st_fibs s a = Some f" "st_fibs s' a = Some g" "same_role f g" using fl [OF a] by blast
    have "owns env (s'\<lparr>st_fibs := st_fibs s\<rparr>) a"
      by (rule owns_keeps [OF objects_owns [OF o a]]) (use kp in \<open>simp_all add: keeps_def\<close>)
    then show ?thesis using fg by (auto simp: owns_def same_role_def regs_of_def fpu_of_def)
  qed
  have "objects_ok env s'"
    by (rule objects_okI [OF o, where fa = "st_brk s'"]) (use L ow fr in auto)
  then show "st_inv env s'" using k' by (auto simp: st_inv_def)
qed

section \<open>CONVERTTOFIBER\<close>

definition registered :: "st_env \<Rightarrow> st_call \<Rightarrow> addr \<Rightarrow> addr \<Rightarrow> st_fiber \<Rightarrow> st_process \<Rightarrow> st_state \<Rightarrow> st_state" where
  "registered env c fa pa f p s = (let b = st_brk s in s\<lparr>
     st_thrs := (st_thrs s)(b \<mapsto> (junk_thread env b)\<lparr>st_tpid := sc_pid c, st_active := Some fa\<rparr>),
     st_pregs := (st_pregs s)(b + 1 \<mapsto> st_uregs s (sc_pid c)),
     st_fpus := (st_fpus s)(b + 2 \<mapsto> fxsave (kern env) (st_ufx s (sc_pid c)) (junk_fpu env (b + 2))),
     st_fibs := (st_fibs s)(fa \<mapsto> f\<lparr>st_regs := Some (b + 1), st_index := st_fiber_id p, st_running := True, st_fpu := Some (b + 2)\<rparr>),
     st_procs := (st_procs s)(pa \<mapsto> p\<lparr>st_threads := hash_add (hash_32 (kern env) (sc_pid c)) b (st_threads p),
       st_fiber_id := st_fiber_id p + 1, st_fibers := hash_add (hash_long (kern env) (st_fiber_id p)) fa (st_fibers p)\<rparr>),
     st_brk := b + 3\<rparr>)"

lemma st_convert_thread_eq:
  assumes p: "st_procs s pa = Some p" and n: "st_search_thread env (sc_pid c) pa s = Inr None"
    and f: "\<And>fa. fiber = Some fa \<Longrightarrow> st_fibs s fa = Some (f0 fa)"
  shows "st_convert_thread env c fiber pa s =
    (case fiber of
       Some fa \<Rightarrow> if kmalloc_ok env (st_brk s) \<and> kmalloc_ok env (st_brk s + 1) \<and> kmalloc_ok env (st_brk s + 2)
         then Inr (st_fiber_id p, registered env c fa pa (f0 fa) p s) else Inl NullDeref
     | None \<Rightarrow> Inl NullDeref)"
proof (cases fiber)
  case None
  then show ?thesis using p n
    by (simp add: st_convert_thread_def kmalloc_thread_def kmalloc_regs_def Let_def)
next
  case (Some fa)
  then show ?thesis using p n f [OF Some]
    by (simp add: st_convert_thread_def kmalloc_thread_def kmalloc_regs_def kmalloc_fpu_def Let_def registered_def)
qed

lemma registered_ok:
  assumes i: "st_inv env s" and pa: "pa \<in> mem (st_list s)" "st_procs s pa = Some p"
    and new: "\<And>x. x \<in> mem (st_threads p) \<Longrightarrow> st_tkey s x \<noteq> Some (sc_pid c)"
    and ok: "index_ok (kern env) (st_fiber_id p)"
    and fa: "fa \<notin> linked s" "fa < st_brk s" "st_fibs s fa = Some f" "length (st_fls_array f) = MAX_FLS"
  shows "st_inv env (registered env c fa pa f p s) \<and>
    st_abs env (registered env c fa pa f p s) = (st_abs env s)(st_ppid p \<mapsto>
      (st_aproc env s p)\<lparr>next_index := st_fiber_id p + 1, live := insert (st_fiber_id p) (live (st_aproc env s p)),
         cur := (cur (st_aproc env s p))(sc_pid c \<mapsto> st_fiber_id p)\<rparr>)"
proof -
  let ?e = "kern env" let ?s = "registered env c fa pa f p s"
  obtain n where k: "kinv ?e (embed ?e n s)" and o: "objects_ok env s" and ab: "\<And>m. kabs ?e (embed ?e m s) = st_abs env s"
    by (rule st_invD [OF i]) blast
  let ?f = "embed_fiber ?e (f\<lparr>st_index := st_fiber_id p, st_running := True\<rparr>)"
  let ?k = "link_thread ?e (sc_pid c) pa fa ?f (embed_process p) (embed ?e n s)"
  have pe: "pa \<in> mem (list_process (embed ?e n s))" "procs (embed ?e n s) pa = Some (embed_process p)" using pa by simp_all
  have fe: "fa \<notin> all_fibers (embed ?e n s)" "fa < brk (embed ?e n s)" using fa by (simp_all add: linked_embed)
  have ne: "tkey (embed ?e n s) x \<noteq> Some (sc_pid c)" if "x \<in> mem (threads (embed_process p))" for x
    using new [of x] that by (simp add: embed_keys)
  have k': "kinv ?e ?k"
    by (rule link_thread_kinv [OF k pe ne _ fe]) (use ok in simp_all)
  have a': "kabs ?e ?k = (kabs ?e (embed ?e n s))(st_ppid p \<mapsto>
     (st_aproc env s p)\<lparr>next_index := st_fiber_id p + 1, live := insert (st_fiber_id p) (live (st_aproc env s p)),
       cur := (cur (st_aproc env s p))(sc_pid c \<mapsto> st_fiber_id p)\<rparr>)"
    using link_thread_abs [OF k pe ne _ fe, of ?f] ok by (simp add: aproc_count)
  have sim: "procs (embed ?e (n + 1) ?s) = procs ?k" "thrs (embed ?e (n + 1) ?s) = thrs ?k"
    "list_process (embed ?e (n + 1) ?s) = list_process ?k" "count_threads (embed ?e (n + 1) ?s) = count_threads ?k"
    "brk ?k \<le> brk (embed ?e (n + 1) ?s)"
    by (auto simp: fun_eq_iff registered_def link_thread_def Let_def embed_process_def embed_thread_def)
  have sf: "same_fiber (fibs ?k a) (fibs (embed ?e (n + 1) ?s) a)" for a
    by (cases "st_fibs s a") (auto simp: same_fiber_def registered_def link_thread_def Let_def)
  have u: "length (uregs (embed ?e (n + 1) ?s) t) = nregs ?e" for t
    using kinv_uregs [OF k, of t] by (simp add: registered_def Let_def)
  note sim' = kinv_similar [OF k' sim(1-4) sf sim(5) u]
  have "objects_ok env ?s"
  proof (rule objects_okI [OF o, where fa = fa])
    show "linked ?s \<subseteq> insert fa (linked s)"
      using pa by (auto simp: linked_def registered_def Let_def split: if_splits)
    have kp: "keeps s ?s"
      using objects_fresh [OF o] by (auto simp: keeps_def registered_def Let_def)
    show "owns env ?s a \<and> regs_of ?s a = regs_of s a \<and> fpu_of ?s a = fpu_of s a" if "a \<in> linked ?s" "a \<noteq> fa" for a
    proof -
      have "a \<in> linked s" using that \<open>linked ?s \<subseteq> insert fa (linked s)\<close> by auto
      moreover have "st_fibs ?s a = st_fibs s a" using that by (simp add: registered_def Let_def)
      ultimately show ?thesis using owns_keeps [OF objects_owns [OF o] _ kp] by (simp add: regs_of_def fpu_of_def)
    qed
  qed (use fa(4) kinv_uregs [OF k, of "sc_pid c"] objects_fresh [OF o] in
      \<open>auto simp: owns_def regs_of_def fpu_of_def registered_def Let_def\<close>)
  then show ?thesis
    using sim'(1) sim'(2) a' ab [of n] abs_count [of ?e "n + 1" ?s 0] unfolding st_inv_def st_abs_def by auto
qed

text \<open>The call as the later version takes it, with every allocation and copy in order.\<close>

definition call_of :: "st_call \<Rightarrow> call" where
  "call_of c = \<lparr>c_tgid = sc_tgid c, c_pid = sc_pid c, c_arg = sc_arg c, ts1 = \<lparr>tv_sec = 0, tv_nsec = 0\<rparr>,
     ts2 = \<lparr>tv_sec = 0, tv_nsec = 0\<rparr>, ok_args = True, ok_fiber = True, ok_process = True, ok_thread = True,
     user_create = Some (create_buf c), user_fls = Some (set_buf c), user_writable = True\<rparr>"

lemma call_of_simps [simp]:
  "c_tgid (call_of c) = sc_tgid c" "c_pid (call_of c) = sc_pid c" "c_arg (call_of c) = sc_arg c" "ok_thread (call_of c)"
  "ok_process (call_of c)" "ok_args (call_of c)" "ok_fiber (call_of c)" "user_create (call_of c) = Some (create_buf c)"
  by (simp_all add: call_of_def)

lemma st_convert_thread_ok:
  assumes i: "st_inv env s" and pa: "pa \<in> mem (st_list s)" "st_procs s pa = Some p" "st_ppid p = sc_tgid c"
    and ab: "st_abs env s (sc_tgid c) = Some (st_aproc env s p)"
    and fiber: "\<And>fa. fiber = Some fa \<Longrightarrow> fa \<notin> linked s \<and> fa < st_brk s \<and> (\<exists>f. st_fibs s fa = Some f \<and> length (st_fls_array f) = MAX_FLS)"
    and ok: "index_ok (kern env) (st_fiber_id p)" and r: "st_convert_thread env c fiber pa s = Inr (r, s')"
  shows "st_inv env s' \<and> (r, st_abs env s') = spec_register (call_of c) (st_aproc env s p) (st_abs env s)"
  using i pa(1,2)
proof (cases rule: st_thread_cases [where k = "sc_pid c"])
  case (Some ta t fa f)
  then show ?thesis using r i by (auto simp: st_convert_thread_def spec_register_def)
next
  case None
  define f0 where "f0 fa = the (st_fibs s fa)" for fa
  have f0: "st_fibs s fa = Some (f0 fa)" if "fiber = Some fa" for fa using fiber [OF that] by (auto simp: f0_def)
  note eq = st_convert_thread_eq [OF pa(2) None(1) f0]
  obtain fa where fa: "fiber = Some fa" "r = st_fiber_id p" "s' = registered env c fa pa (f0 fa) p s"
    using r eq by (auto split: option.splits if_splits)
  have "next_index (st_aproc env s p) = st_fiber_id p" by (simp add: st_aproc_def abs_proc_def)
  moreover have "length (st_fls_array (f0 fa)) = MAX_FLS" using fiber [OF fa(1)] by (auto simp: f0_def)
  ultimately show ?thesis
    using registered_ok [OF i pa(1,2) None(3) ok _ _ f0 [OF fa(1)]] fiber [OF fa(1)] fa(2,3) None(2) pa(3)
    by (simp add: spec_register_def)
qed

lemma st_fresh: "st_inv env s \<Longrightarrow> a \<ge> st_brk s \<Longrightarrow>
    st_procs s a = None \<and> st_thrs s a = None \<and> st_fibs s a = None \<and> st_pregs s a = None \<and> st_fpus s a = None"
  using kinv_fresh [of "kern env" "embed (kern env) n s" a for n] by (auto simp: st_inv_def objects_ok_def)

lemma st_below:
  assumes i: "st_inv env s"
  shows "a \<in> mem (st_list s) \<Longrightarrow> a < st_brk s" "a \<in> linked s \<Longrightarrow> a < st_brk s"
    "pa \<in> mem (st_list s) \<Longrightarrow> st_procs s pa = Some p \<Longrightarrow> a \<in> mem (st_threads p) \<Longrightarrow> a < st_brk s"
proof -
  obtain n where k: "kinv (kern env) (embed (kern env) n s)" using i by (auto simp: st_inv_def)
  show "a \<in> mem (st_list s) \<Longrightarrow> a < st_brk s" "a \<in> linked s \<Longrightarrow> a < st_brk s"
    using linked_below [OF k, of a] by (simp_all add: linked_embed)
  show "a < st_brk s" if "pa \<in> mem (st_list s)" "st_procs s pa = Some p" "a \<in> mem (st_threads p)"
  proof -
    have "a \<in> all_threads (embed (kern env) n s)" using that by (auto simp: all_threads_def)
    then show ?thesis using linked_below(2) [OF k] by simp
  qed
qed

lemma st_uregs_length: "st_inv env s \<Longrightarrow> length (st_uregs s t) = nregs (kern env)"
  using kinv_uregs [of "kern env" "embed (kern env) n s" t for n] by (auto simp: st_inv_def)

lemma same_role_refl [simp]: "same_role f f"
  by (simp add: same_role_def)

text \<open>Allocations nothing is linked to.\<close>

lemma kmalloc_fiber_ok:
  assumes i: "st_inv env s" and e: "kmalloc_fiber env s = (fiber, e)"
  shows "st_inv env e" "st_abs env e = st_abs env s" "linked e = linked s"
    and "fiber = Some fa \<Longrightarrow> fa \<notin> linked e \<and> fa < st_brk e \<and> st_fibs e fa = Some (junk_fiber env fa)"
    and "fiber = None \<Longrightarrow> \<not> kmalloc_ok env (st_brk s)"
proof -
  have e': "e = (if kmalloc_ok env (st_brk s) then s\<lparr>st_brk := st_brk s + 1, st_fibs := (st_fibs s)(st_brk s \<mapsto> junk_fiber env (st_brk s))\<rparr>
      else s\<lparr>st_brk := st_brk s + 1\<rparr>)" and f: "fiber = (if kmalloc_ok env (st_brk s) then Some (st_brk s) else None)"
    using e by (auto simp: kmalloc_fiber_def Let_def split: if_splits)
  have fr: "st_inv env e \<and> st_abs env e = st_abs env s \<and> linked e = linked s"
    using st_below(2) [OF i] st_fresh [OF i] st_uregs_length [OF i]
    by (intro conjI st_inv_frame [OF i]) (auto simp: e' keeps_def split: if_splits)
  then show "st_inv env e" "st_abs env e = st_abs env s" "linked e = linked s" by auto
  show "fiber = Some fa \<Longrightarrow> fa \<notin> linked e \<and> fa < st_brk e \<and> st_fibs e fa = Some (junk_fiber env fa)"
    using st_below(2) [OF i, of "st_brk s"] fr by (auto simp: e' f split: if_splits)
  show "fiber = None \<Longrightarrow> \<not> kmalloc_ok env (st_brk s)" using f by (auto split: if_splits)
qed

definition st_link_process :: "st_env \<Rightarrow> pid_t \<Rightarrow> st_state \<Rightarrow> st_state" where
  "st_link_process env tg s = s\<lparr>st_brk := st_brk s + 1,
     st_list := hash_add (hash_32 (kern env) tg) (st_brk s) (st_list s),
     st_procs := (st_procs s)(st_brk s \<mapsto>
       (junk_process env (st_brk s))\<lparr>st_fiber_id := 0, st_ppid := tg, st_threads := hash_init, st_fibers := hash_init\<rparr>)\<rparr>"

lemma st_link_process_ok:
  assumes i: "st_inv env s" and new: "\<And>pa. pa \<in> mem (st_list s) \<Longrightarrow> st_pkey s pa \<noteq> Some tg"
  shows "st_inv env (st_link_process env tg s)" "st_abs env (st_link_process env tg s) = (st_abs env s)(tg \<mapsto> no_fibers)"
    "linked (st_link_process env tg s) = linked s"
proof -
  let ?e = "kern env" let ?s = "st_link_process env tg s"
  obtain n where k: "kinv ?e (embed ?e n s)" and o: "objects_ok env s" and ab: "\<And>m. kabs ?e (embed ?e m s) = st_abs env s"
    by (rule st_invD [OF i]) blast
  have eq: "embed ?e n ?s = link_process ?e tg (embed ?e n s)"
    by (simp add: embed_def st_link_process_def link_process_def fresh_process_def embed_process_def fun_eq_iff)
  have new': "\<And>a. a \<in> mem (list_process (embed ?e n s)) \<Longrightarrow> pkey (embed ?e n s) a \<noteq> Some tg" using new by (simp add: embed_keys)
  have k': "kinv ?e (embed ?e n ?s)" using link_process_kinv [OF k new'] eq by simp
  have "brk (embed ?e n s) \<notin> mem (list_process (embed ?e n s))" using st_below(1) [OF i, of "st_brk s"] by auto
  then show L: "linked ?s = linked s" using all_fibers_link_process [of "embed ?e n s" ?e tg] eq linked_embed [of ?e n] by metis
  show "st_abs env ?s = (st_abs env s)(tg \<mapsto> no_fibers)"
    using link_process_abs(1) [OF k new'] ab [of n] eq abs_count [of ?e n ?s 0] by (simp add: st_abs_def [of env ?s])
  have "owns env ?s a \<and> regs_of ?s a = regs_of s a \<and> fpu_of ?s a = fpu_of s a" if "a \<in> linked s" for a
    using owns_keeps [OF objects_owns [OF o that], of ?s] by (simp add: st_link_process_def keeps_def regs_of_def fpu_of_def)
  then have "objects_ok env ?s"
    by (intro objects_okI [OF o, where fa = "st_brk s"])
      (use L st_below(2) [OF i, of "st_brk s"] st_fresh [OF i] in \<open>auto simp: st_link_process_def\<close>)
  then show "st_inv env ?s" using k' by (auto simp: st_inv_def)
qed

text \<open>The index the next fiber of the calling process gets can be found again.\<close>

definition st_next_ok :: "st_env \<Rightarrow> st_call \<Rightarrow> st_state \<Rightarrow> bool" where
  "st_next_ok env c s \<longleftrightarrow> index_ok (kern env) 0 \<and>
     (\<forall>q. st_abs env s (sc_tgid c) = Some q \<longrightarrow> index_ok (kern env) (next_index q))"

lemma next_index_st [simp]: "next_index (st_aproc env s p) = st_fiber_id p"
  by (simp add: st_aproc_def abs_proc_def)

lemma st_convert_ok:
  assumes e: "st_env_ok env" and i: "st_inv env s" and ok: "st_next_ok env c s" and r: "st_convert env c s = Inr (r, s')"
  shows "st_inv env s' \<and> (r, st_abs env s') = spec_convert (call_of c) (st_abs env s)"
proof -
  obtain fiber t where t: "kmalloc_fiber env s = (fiber, t)" by (cases "kmalloc_fiber env s")
  note f = kmalloc_fiber_ok [OF i t]
  have new: "fa \<notin> linked t \<and> fa < st_brk t \<and> (\<exists>f. st_fibs t fa = Some f \<and> length (st_fls_array f) = MAX_FLS)"
    if "fiber = Some fa" for fa using f(4) [OF that] e by (simp add: st_env_ok_def)
  show ?thesis
    using f(1)
  proof (cases rule: st_process_cases [where k = "sc_tgid c"])
    case (Some pa p)
    have m: "st_convert_thread env c fiber pa t = Inr (r, s')" using r t Some(1) by (simp add: st_convert_def)
    moreover have "index_ok (kern env) (st_fiber_id p)" using ok Some(5) f(2) by (simp add: st_next_ok_def)
    ultimately show ?thesis
      using st_convert_thread_ok [OF f(1) Some(2-4) _ new _ m] Some(4,5) f(2) by (simp add: spec_convert_def)
  next
    case None
    let ?l = "st_link_process env (sc_tgid c) t"
    let ?p = "(junk_process env (st_brk t))\<lparr>st_fiber_id := 0, st_ppid := sc_tgid c, st_threads := hash_init, st_fibers := hash_init\<rparr>"
    note l = st_link_process_ok [OF f(1) None(3)]
    have p: "st_brk t \<in> mem (st_list ?l)" "st_procs ?l (st_brk t) = Some ?p" by (simp_all add: st_link_process_def)
    have m: "kmalloc_ok env (st_brk t)" "st_convert_thread env c fiber (st_brk t) ?l = Inr (r, s')"
      using r t None(1)
      by (auto simp: st_convert_def kmalloc_process_def st_link_process_def Let_def split: if_splits)
    have ap: "st_abs env ?l (sc_tgid c) = Some (st_aproc env ?l ?p)" using st_abs_member [OF l(1) p] by simp
    then have nf: "st_aproc env ?l ?p = no_fibers" using l(2) by simp
    have "index_ok (kern env) 0" using ok by (simp add: st_next_ok_def)
    moreover have "fa \<notin> linked ?l \<and> fa < st_brk ?l \<and> (\<exists>f. st_fibs ?l fa = Some f \<and> length (st_fls_array f) = MAX_FLS)"
      if "fiber = Some fa" for fa using new [OF that] l(3) by (auto simp: st_link_process_def)
    ultimately have "st_inv env s' \<and> (r, st_abs env s') = spec_register (call_of c) no_fibers (st_abs env ?l)"
      using st_convert_thread_ok [OF l(1) p _ _ _ _ m(2)] ap nf by simp
    then show ?thesis using l(2) f(2) None(2) by (simp add: spec_convert_def spec_register_def no_fibers_def)
  qed
qed

end
