(* ===== verification/Single_Switch.thy ===== *)
theory Single_Switch
  imports Single_Steps
begin

text \<open>
  CREATEFIBER and SWITCHTOFIBER of the earlier version under the invariant: the next state written
  out, the invariant kept, and the abstract effect.
\<close>

section \<open>CREATEFIBER\<close>

definition st_created :: "st_env \<Rightarrow> st_call \<Rightarrow> addr \<Rightarrow> addr \<Rightarrow> addr \<Rightarrow> st_fiber \<Rightarrow> st_process \<Rightarrow> st_state \<Rightarrow> st_state" where
  "st_created env c fa pa xo f p s =
     (let b = st_brk s; src = st_uregs s (sc_pid c); save = fxsave (kern env) (st_ufx s (sc_pid c));
          F = (if kmalloc_ok env (b + 1) then (st_fpus s)(b + 1 \<mapsto> junk_fpu env (b + 1)) else st_fpus s)
      in s\<lparr>st_fibs := (st_fibs s)(fa \<mapsto> f\<lparr>st_running := False, st_index := st_fiber_id p, st_regs := Some b, st_fpu := Some (b + 2)\<rparr>),
           st_pregs := (st_pregs s)(b \<mapsto> created_regs env (create_buf c) src src),
           st_fpus := F(xo \<mapsto> save (the (st_fpus s xo)), b + 2 \<mapsto> save (junk_fpu env (b + 2))),
           st_procs := (st_procs s)(pa \<mapsto> p\<lparr>st_fiber_id := st_fiber_id p + 1,
             st_fibers := hash_add (hash_long (kern env) (st_fiber_id p)) fa (st_fibers p)\<rparr>),
           st_brk := b + 3, st_args := st_args s - 1\<rparr>)"

lemma st_create_fiber_eq:
  assumes p: "st_procs s pa = Some p"
    and t: "st_thrs s ta = Some t" "st_active t = Some af" "st_fibs s af = Some fo" "st_fpu fo = Some xo" "st_fpus s xo = Some mo"
    and x: "xo < st_brk s"
    and f: "\<And>fa. fiber = Some fa \<Longrightarrow> st_fibs s fa = Some (f0 fa) \<and> fa \<noteq> af"
  shows "st_create_fiber env c fiber pa ta s =
    (case fiber of
       Some fa \<Rightarrow> if kmalloc_ok env (st_brk s) \<and> kmalloc_ok env (st_brk s + 2)
         then Inr (st_fiber_id p, st_created env c fa pa xo (f0 fa) p s) else Inl NullDeref
     | None \<Rightarrow> Inl NullDeref)"
proof (cases fiber)
  case None
  then show ?thesis by (simp add: st_create_fiber_def)
next
  case (Some fa)
  have fa: "st_fibs s fa = Some (f0 fa)" "af \<noteq> fa" using f [OF Some] by auto
  show ?thesis
  proof (cases "kmalloc_ok env (st_brk s + 1)")
    case True
    then show ?thesis using p t fa Some x
      by (simp add: st_create_fiber_def kmalloc_regs_def kmalloc_fpu_def Let_def st_created_def st_kfree_args_def)
  next
    case False
    then show ?thesis using p t fa Some x
      by (simp add: st_create_fiber_def kmalloc_regs_def kmalloc_fpu_def Let_def st_created_def st_kfree_args_def)
  qed
qed

lemma length_copy_regs [simp]: "length (copy_regs env src rs dst) = length dst"
  unfolding copy_regs_def by (induction rs arbitrary: dst) (simp_all add: copy_reg_def)

lemma length_created_regs [simp]: "length (created_regs env u src img) = length img"
  by (simp add: created_regs_def Let_def copy_reg_def)

lemma st_created_ok:
  assumes i: "st_inv env s" and pa: "pa \<in> mem (st_list s)" "st_procs s pa = Some p"
    and ok: "index_ok (kern env) (st_fiber_id p)"
    and fa: "fa \<notin> linked s" "fa < st_brk s" "st_fibs s fa = Some f" "length (st_fls_array f) = MAX_FLS"
    and xo: "st_fpus s xo = Some mo" "xo < st_brk s"
  shows "st_inv env (st_created env c fa pa xo f p s) \<and>
    st_abs env (st_created env c fa pa xo f p s) = (st_abs env s)(st_ppid p \<mapsto>
      (st_aproc env s p)\<lparr>next_index := st_fiber_id p + 1, live := insert (st_fiber_id p) (live (st_aproc env s p))\<rparr>)"
proof -
  let ?e = "kern env" let ?s = "st_created env c fa pa xo f p s"
  obtain n where k: "kinv ?e (embed ?e n s)" and o: "objects_ok env s" and ab: "\<And>m. kabs ?e (embed ?e m s) = st_abs env s"
    by (rule st_invD [OF i]) blast
  let ?f = "embed_fiber ?e (f\<lparr>st_index := st_fiber_id p, st_running := False\<rparr>)"
  let ?k = "link_fiber ?e pa fa ?f (embed_process p) (embed ?e n s)"
  have pe: "pa \<in> mem (list_process (embed ?e n s))" "procs (embed ?e n s) pa = Some (embed_process p)" using pa by simp_all
  have fe: "fa \<notin> all_fibers (embed ?e n s)" "fa < brk (embed ?e n s)" using fa by (simp_all add: linked_embed)
  have k': "kinv ?e ?k"
    by (rule link_fiber_kinv [OF k pe _ fe]) (use ok in simp_all)
  have a': "kabs ?e ?k = (kabs ?e (embed ?e n s))(st_ppid p \<mapsto>
     (st_aproc env s p)\<lparr>next_index := st_fiber_id p + 1, live := insert (st_fiber_id p) (live (st_aproc env s p))\<rparr>)"
    using link_fiber_abs [OF k pe _ fe, of ?f] ok by (simp add: aproc_count)
  have sim: "procs (embed ?e n ?s) = procs ?k" "thrs (embed ?e n ?s) = thrs ?k"
    "list_process (embed ?e n ?s) = list_process ?k" "count_threads (embed ?e n ?s) = count_threads ?k"
    "brk ?k \<le> brk (embed ?e n ?s)"
    by (auto simp: fun_eq_iff st_created_def link_fiber_def Let_def embed_process_def)
  have sf: "same_fiber (fibs ?k a) (fibs (embed ?e n ?s) a)" for a
    by (cases "st_fibs s a") (auto simp: same_fiber_def st_created_def link_fiber_def Let_def)
  have u: "length (uregs (embed ?e n ?s) t) = nregs ?e" for t
    using kinv_uregs [OF k, of t] by (simp add: st_created_def Let_def)
  note sim' = kinv_similar [OF k' sim(1-4) sf sim(5) u]
  have "objects_ok env ?s"
  proof (rule objects_okI [OF o, where fa = fa])
    show L: "linked ?s \<subseteq> insert fa (linked s)"
      using pa by (auto simp: linked_def st_created_def Let_def split: if_splits)
    have kp: "keeps s ?s"
      using objects_fresh [OF o] xo by (auto simp: keeps_def st_created_def Let_def)
    show "owns env ?s a \<and> regs_of ?s a = regs_of s a \<and> fpu_of ?s a = fpu_of s a" if a: "a \<in> linked ?s" "a \<noteq> fa" for a
    proof -
      have "a \<in> linked s" using a L by auto
      moreover have "st_fibs ?s a = st_fibs s a" using a by (simp add: st_created_def Let_def)
      ultimately show ?thesis using owns_keeps [OF objects_owns [OF o] _ kp] by (simp add: regs_of_def fpu_of_def)
    qed
  qed (use fa(4) kinv_uregs [OF k, of "sc_pid c"] objects_fresh [OF o] xo(2) in
      \<open>auto simp: owns_def regs_of_def fpu_of_def st_created_def Let_def\<close>)
  then show ?thesis
    using sim'(1) sim'(2) a' ab [of n] abs_count [of ?e n ?s 0] unfolding st_inv_def st_abs_def by auto
qed

lemma st_kmalloc_args_ok:
  assumes i: "st_inv env s"
  shows "st_inv env (snd (st_kmalloc_args env s))" "st_abs env (snd (st_kmalloc_args env s)) = st_abs env s"
    "st_inv env (st_kfree_args s)" "st_abs env (st_kfree_args s) = st_abs env s"
  by ((rule st_inv_frame [OF i]; use st_fresh [OF i] st_uregs_length [OF i] in
      \<open>auto simp: st_kmalloc_args_def st_kfree_args_def Let_def keeps_def split: if_splits\<close>))+

lemma st_create_ok:
  assumes e: "st_env_ok env" and i: "st_inv env s" and ok: "st_next_ok env c s" and r: "st_create env c s = Inr (r, s')"
  shows "st_inv env s' \<and> (r, st_abs env s') = spec_create (call_of c) (st_abs env s)"
proof -
  obtain args s1 where s1: "st_kmalloc_args env s = (args, s1)" by (cases "st_kmalloc_args env s")
  obtain fiber t where t: "kmalloc_fiber env s1 = (fiber, t)" by (cases "kmalloc_fiber env s1")
  have i1: "st_inv env s1" "st_abs env s1 = st_abs env s" using st_kmalloc_args_ok(1,2) [OF i] s1 by auto
  note f = kmalloc_fiber_ok [OF i1(1) t] and kf = st_kmalloc_args_ok(3,4)
  have a: args using r s1 t by (cases args) (auto simp: st_create_def)
  show ?thesis
    using f(1)
  proof (cases rule: st_process_cases [where k = "sc_tgid c"])
    case None
    then show ?thesis using r s1 t a f i1 by (auto simp: st_create_def spec_create_def)
  next
    case (Some pa p)
    note pa = this
    show ?thesis
      using f(1) pa(2,3)
    proof (cases rule: st_thread_cases [where k = "sc_pid c"])
      case None
      then show ?thesis using r s1 t a f i1 pa kf [OF f(1)] by (auto simp: st_create_def spec_create_def)
    next
      case (Some ta u af fo)
      have o: "objects_ok env t" using f(1) by (simp add: st_inv_def)
      have l: "af \<in> linked t" using pa Some by (auto simp: linked_def)
      obtain xo where "fpu_of t af = Some xo" and x3: "xo < st_brk t" by (rule owns_old [OF o l])
      then have x1: "st_fpu fo = Some xo" using Some(7) by (simp add: fpu_of_def)
      obtain mo where x2: "st_fpus t xo = Some mo" using objects_owns [OF o l] Some(7) x1 by (auto simp: owns_def)
      note x = x1 x2 x3
      have fb: "st_fibs t fa = Some (junk_fiber env fa) \<and> fa \<noteq> af" if "fiber = Some fa" for fa
        using f(4) [OF that] l by auto
      have eq: "st_create_fiber env c fiber pa ta t = Inr (r, s')"
        using r s1 t a pa(1) Some(1) by (simp add: st_create_def)
      then obtain fa where fa: "fiber = Some fa" "r = st_fiber_id p" "s' = st_created env c fa pa xo (junk_fiber env fa) p t"
        using st_create_fiber_eq [OF pa(3) Some(3,5,7) x fb] by (auto split: option.splits if_splits)
      have "length (st_fls_array (junk_fiber env fa)) = MAX_FLS" using e by (simp add: st_env_ok_def)
      moreover have "index_ok (kern env) (st_fiber_id p)" using ok pa(5) f(2) i1(2) by (simp add: st_next_ok_def)
      ultimately show ?thesis
        using st_created_ok [OF f(1) pa(2,3) _ _ _ _ _ x(2,3)] f(2) f(4) [OF fa(1)] fa(2,3) pa(4,5) Some(9) i1(2)
        by (simp add: spec_create_def)
    qed
  qed
qed

section \<open>SWITCHTOFIBER\<close>

text \<open>\<open>af\<close> is the fiber left, \<open>fa\<close> the one resumed.\<close>

definition st_switched :: "st_env \<Rightarrow> st_call \<Rightarrow> addr \<Rightarrow> addr \<Rightarrow> addr \<Rightarrow> st_state \<Rightarrow> st_state" where
  "st_switched env c ta af fa s =
     (let b = st_brk s; src = st_uregs s (sc_pid c); fo = the (st_fibs s af); fn = the (st_fibs s fa);
          ro = the (st_regs fo); xo = the (st_fpu fo); img = the (st_pregs s (the (st_regs fn)))
      in s\<lparr>st_brk := b + 1,
           st_fpus := (st_fpus s)(b \<mapsto> junk_fpu env b, xo \<mapsto> fxsave (kern env) (st_ufx s (sc_pid c)) (the (st_fpus s xo))),
           st_pregs := (st_pregs s)(ro \<mapsto> copy_regs env src switch_regs (the (st_pregs s ro))),
           st_uregs := (st_uregs s)(sc_pid c := copy_regs env img switch_regs src),
           st_ufx := (st_ufx s)(sc_pid c := fxrstor (kern env) (junk_fpu env b)),
           st_thrs := (st_thrs s)(ta \<mapsto> (the (st_thrs s ta))\<lparr>st_active := Some fa\<rparr>),
           st_fibs := (st_fibs s)(af \<mapsto> fo\<lparr>st_running := False\<rparr>, fa \<mapsto> fn\<lparr>st_fpu := Some b, st_running := True\<rparr>)\<rparr>)"

lemma st_switch_context_eq:
  assumes t: "st_thrs s ta = Some t" "st_active t = Some af"
    and fo: "st_fibs s af = Some fo" "st_regs fo = Some ro" "st_pregs s ro = Some io" "st_fpu fo = Some xo" "st_fpus s xo = Some mo"
    and fn: "st_fibs s fa = Some fn" "st_regs fn = Some rn" "st_pregs s rn = Some img"
    and ne: "af \<noteq> fa" "ro \<noteq> rn" "xo < st_brk s"
  shows "st_switch_context env c ta fa s =
    (if kmalloc_ok env (st_brk s) then Inr (st_switched env c ta af fa s) else Inl NullDeref)"
  using assms by (simp add: st_switch_context_def kmalloc_fpu_def st_switched_def Let_def fun_upd_twist)

lemma st_switched_ok:
  assumes i: "st_inv env s" and pa: "pa \<in> mem (st_list s)" "st_procs s pa = Some p"
    and ta: "st_search_thread env (sc_pid c) pa s = Inr (Some ta)" "ta \<in> mem (st_threads p)" "st_thrs s ta = Some t"
    and af: "st_active t = Some af" "af \<in> mem (st_fibers p)" "st_fibs s af = Some fo" "st_running fo"
    and fa: "fa \<in> mem (st_fibers p)" "st_fibs s fa = Some fn" "\<not> st_running fn"
  shows "st_inv env (st_switched env c ta af fa s) \<and>
    st_abs env (st_switched env c ta af fa s) =
      (st_abs env s)(st_ppid p \<mapsto> (st_aproc env s p)\<lparr>cur := (cur (st_aproc env s p))(sc_pid c \<mapsto> st_index fn)\<rparr>)"
proof -
  let ?e = "kern env" let ?s = "st_switched env c ta af fa s"
  obtain n where k: "kinv ?e (embed ?e n s)" and o: "objects_ok env s" and ab: "\<And>m. kabs ?e (embed ?e m s) = st_abs env s"
    by (rule st_invD [OF i]) blast
  let ?k = "switched ?e (call_of c) ta af fa (embed ?e n s)"
  have ne: "af \<noteq> fa" using af fa by auto
  have pe: "pa \<in> mem (list_process (embed ?e n s))" "procs (embed ?e n s) pa = Some (embed_process p)" using pa by simp_all
  have te: "ta \<in> mem (threads (embed_process p))" "thrs (embed ?e n s) ta = Some (embed_thread t)" using ta by simp_all
  have ae: "active_fiber (embed_thread t) = Some af" "fibs (embed ?e n s) af = Some (embed_fiber ?e fo)" using af by simp_all
  have fe: "fa \<in> mem (fibers (embed_process p))" "fibs (embed ?e n s) fa = Some (embed_fiber ?e fn)" "\<not> running (embed_fiber ?e fn)"
    using fa by simp_all
  have k': "kinv ?e ?k" by (rule switched_kinv [OF k pe te ae fe])
  have pf: "pid_find ?e (tkey (embed ?e n s)) (sc_pid c) (threads (embed_process p)) = Inr (Some ta)"
    using ta(1) st_search_thread_embed [OF pa(2), of env "sc_pid c" n] by simp
  have a': "kabs ?e ?k = (kabs ?e (embed ?e n s))(st_ppid p \<mapsto>
      (st_aproc env s p)\<lparr>cur := (cur (st_aproc env s p))(sc_pid c \<mapsto> st_index fn)\<rparr>)"
    using switched_abs [OF k pe pf te ae(1) _ ae(2) fe, of "call_of c"] af(2) by (simp add: aproc_count)
  have L: "af \<in> linked s" "fa \<in> linked s" using pa af fa by (auto simp: linked_def)
  obtain ro xo where ro: "regs_of s af = Some ro" "fpu_of s af = Some xo" "xo < st_brk s" by (rule owns_old [OF o L(1)])
  then have fo: "st_regs fo = Some ro" "st_fpu fo = Some xo" using af(3) by (simp_all add: regs_of_def fpu_of_def)
  obtain io mo where io: "st_pregs s ro = Some io" "length io = nregs ?e" "st_fpus s xo = Some mo"
    using objects_owns [OF o L(1)] af(3) fo by (auto simp: owns_def)
  have sim: "procs (embed ?e n ?s) = procs ?k" "thrs (embed ?e n ?s) = thrs ?k"
    "list_process (embed ?e n ?s) = list_process ?k" "count_threads (embed ?e n ?s) = count_threads ?k"
    "brk ?k \<le> brk (embed ?e n ?s)"
    using ta(3) by (auto simp: fun_eq_iff st_switched_def switched_def Let_def embed_thread_def)
  have sf: "same_fiber (fibs ?k a) (fibs (embed ?e n ?s) a)" for a
    using ne af(3) fa(2) kinv_uregs [OF k, of "sc_pid c"]
    by (cases "st_fibs s a") (auto simp: same_fiber_def st_switched_def switched_def Let_def charge_def)
  have u: "length (uregs (embed ?e n ?s) j) = nregs ?e" for j
    using kinv_uregs [OF k, of j] by (auto simp: st_switched_def Let_def)
  note sim' = kinv_similar [OF k' sim(1-4) sf sim(5) u]
  have fs: "st_fibs ?s x = (if x = fa then Some (fn\<lparr>st_fpu := Some (st_brk s), st_running := True\<rparr>)
      else if x = af then Some (fo\<lparr>st_running := False\<rparr>) else st_fibs s x)" for x
    using af(3) fa(2) by (simp add: st_switched_def Let_def)
  have kp: "keeps s ?s"
    using objects_fresh [OF o] io fo af(3) by (auto simp: keeps_def st_switched_def Let_def)
  have ow: "owns env ?s a \<and> regs_of ?s a = regs_of s a" if a: "a \<in> linked s" for a
  proof -
    have "owns env (?s\<lparr>st_fibs := st_fibs s\<rparr>) a"
      by (rule owns_keeps [OF objects_owns [OF o a]]) (use kp in \<open>simp_all add: keeps_def\<close>)
    moreover have "st_fpus ?s (st_brk s) \<noteq> None" using ro(3) by (simp add: st_switched_def Let_def)
    ultimately show ?thesis using ne af(3) fa(2) by (auto simp: owns_def regs_of_def fs)
  qed
  have L': "linked ?s = linked s" by (simp add: linked_def st_switched_def Let_def)
  have "objects_ok env ?s"
  proof (rule objects_okI [OF o, where fa = fa])
    show "owns env ?s a \<and> regs_of ?s a = regs_of s a \<and> fpu_of ?s a = fpu_of s a" if "a \<in> linked ?s" "a \<noteq> fa" for a
      using ow [of a] that af(3) by (auto simp: L' fpu_of_def fs)
    show "st_pregs ?s a = None \<and> st_fpus ?s a = None" if "st_brk ?s \<le> a" for a
      using that objects_fresh [OF o, of a] objects_fresh [OF o, of ro] io ro(3) fo af(3)
      by (auto simp: st_switched_def Let_def)
  qed (use ow L L' in \<open>auto simp: fpu_of_def fs\<close>)
  then show ?thesis
    using sim'(1) sim'(2) a' ab [of n] abs_count [of ?e n ?s 0] unfolding st_inv_def st_abs_def by auto
qed

text \<open>The two ways the command can end.\<close>

lemma st_switch_cases:
  assumes i: "st_inv env s"
  obtains (refused) "st_switch env c s = Inr (- 1, s)" "spec_switch (call_of c) (st_abs env s) = (- 1, st_abs env s)"
  | (found) pa p ta t af fo fa fn where
      "st_switch env c s = (if kmalloc_ok env (st_brk s) then Inr (0, st_switched env c ta af fa s) else Inl NullDeref)"
      "st_search_process env (sc_tgid c) s = Inr (Some pa)" "pa \<in> mem (st_list s)" "st_procs s pa = Some p" "st_ppid p = sc_tgid c"
      "st_search_thread env (sc_pid c) pa s = Inr (Some ta)" "ta \<in> mem (st_threads p)" "st_thrs s ta = Some t"
      "st_active t = Some af" "af \<in> mem (st_fibers p)" "st_fibs s af = Some fo" "st_running fo"
      "fa \<in> mem (st_fibers p)" "st_fibs s fa = Some fn" "\<not> st_running fn" "st_index fn = int_cut (sc_arg c)"
proof -
  note D = st_switch_def spec_switch_def
  show thesis
    using i
  proof (cases rule: st_process_cases [where k = "sc_tgid c"])
    case None
    then show thesis by (intro refused) (simp_all add: D)
  next
    case (Some pa p)
    note pa = this
    obtain n where n: "proc_inv (kern env) (embed (kern env) n s) (embed_process p)" by (rule st_proc_inv [OF i pa(2,3)])
    show thesis
      using n pa(3)
    proof (cases rule: st_search_fiber_cases [where k = "sc_arg c"])
      case None
      have "\<not> (int_cut (sc_arg c) \<in> live (st_aproc env s p) \<and> int_cut (sc_arg c) \<notin> ran (cur (st_aproc env s p)))"
        using None(2) st_running_iff [OF i pa(2,3)] by (metis st_live_iff)
      then show thesis using None pa by (intro refused) (auto simp: D Let_def)
    next
      case (Some fa fn)
      note fa = this
      show thesis
        using i pa(2,3)
      proof (cases rule: st_thread_cases [where k = "sc_pid c"])
        case None
        then show thesis using pa fa by (intro refused) (simp_all add: D Let_def)
      next
        case (Some ta t af fo)
        have o: "objects_ok env s" using i by (simp add: st_inv_def)
        have L: "af \<in> linked s" "fa \<in> linked s" and ne: "af \<noteq> fa" using pa Some fa by (auto simp: linked_def)
        obtain ro xo where ro: "regs_of s af = Some ro" "fpu_of s af = Some xo" "xo < st_brk s" by (rule owns_old [OF o L(1)])
        obtain rn where rn: "regs_of s fa = Some rn" by (rule owns_old [OF o L(2)])
        have "ro \<noteq> rn" using o L ne ro(1) rn by (auto simp: objects_ok_def inj_on_def)
        moreover obtain io mo where "st_pregs s ro = Some io" "st_fpus s xo = Some mo"
          using objects_owns [OF o L(1)] ro by (auto simp: owns_def regs_of_def fpu_of_def)
        moreover obtain img where "st_pregs s rn = Some img"
          using objects_owns [OF o L(2)] rn by (auto simp: owns_def regs_of_def)
        ultimately have "st_switch_context env c ta fa s =
            (if kmalloc_ok env (st_brk s) then Inr (st_switched env c ta af fa s) else Inl NullDeref)"
          using ro rn Some fa(3) ne by (intro st_switch_context_eq) (auto simp: regs_of_def fpu_of_def)
        then have "st_switch env c s = (if kmalloc_ok env (st_brk s) then Inr (0, st_switched env c ta af fa s) else Inl NullDeref)"
          using pa(1) fa(1) Some(1) by (simp add: st_switch_def)
        from found [OF this pa(1-4) Some(1-3,5-8) fa(2-3) fa(5,4)] show thesis .
      qed
    qed
  qed
qed

lemma st_switch_ok:
  assumes i: "st_inv env s" and r: "st_switch env c s = Inr (r, s')"
  shows "st_inv env s' \<and> (r, st_abs env s') = spec_switch (call_of c) (st_abs env s)"
  using i
proof (cases rule: st_switch_cases [where c = c])
  case refused
  with r i show ?thesis by simp
next
  case (found pa p ta t af fo fa fn)
  have s': "r = 0" "s' = st_switched env c ta af fa s" using r found(1) by (auto split: if_splits)
  have "st_abs env s (sc_tgid c) = Some (st_aproc env s p)" using st_abs_member [OF i found(3,4)] found(5) by simp
  moreover have "int_cut (sc_arg c) \<in> live (st_aproc env s p)" using found(13,14,16) st_live_iff by metis
  moreover have "int_cut (sc_arg c) \<notin> ran (cur (st_aproc env s p))"
    using st_running_iff [OF i found(3,4,13,14)] found(15,16) by simp
  moreover have "cur (st_aproc env s p) (sc_pid c) \<noteq> None"
    using i found(3,4) by (cases rule: st_thread_cases [where k = "sc_pid c"]) (use found(6) in auto)
  ultimately show ?thesis
    using st_switched_ok [OF i found(3,4,6-15)] s' found(5,16) by (simp add: spec_switch_def Let_def)
qed

end
