(* ===== verification/Single_Spec.thy ===== *)
theory Single_Spec
  imports Single_Switch Fiber_Exit
begin

text \<open>
  The probe and the commands for local storage of the earlier version, runs of events, and what
  holds of every reachable state.
\<close>

section \<open>The probe on do_exit\<close>

definition st_exited :: "addr \<Rightarrow> addr \<Rightarrow> addr \<Rightarrow> st_process \<Rightarrow> st_state \<Rightarrow> st_state" where
  "st_exited pa ta fa p s = s\<lparr>
     st_procs := (st_procs s)(pa \<mapsto> p\<lparr>st_threads := hash_del ta (st_threads p), st_fibers := hash_del fa (st_fibers p)\<rparr>),
     st_fpus := (st_fpus s)(the (fpu_of s fa) := None), st_pregs := (st_pregs s)(the (regs_of s fa) := None),
     st_thrs := (st_thrs s)(ta := None), st_fibs := (st_fibs s)(fa := None)\<rparr>"

lemma st_exit_cases:
  assumes i: "st_inv env s"
  obtains (foreign) "st_Pre_Handler env c s = Inr (0, s)"
      "st_abs env s (sc_tgid c) = None \<or> (\<exists>q. st_abs env s (sc_tgid c) = Some q \<and> cur q (sc_pid c) = None)"
  | (registered) pa p ta t fa f where "st_Pre_Handler env c s = Inr (0, st_exited pa ta fa p s)"
      "pa \<in> mem (st_list s)" "st_procs s pa = Some p" "st_ppid p = sc_tgid c"
      "st_search_thread env (sc_pid c) pa s = Inr (Some ta)" "ta \<in> mem (st_threads p)" "st_thrs s ta = Some t"
      "st_active t = Some fa" "fa \<in> mem (st_fibers p)" "st_fibs s fa = Some f" "cur (st_aproc env s p) (sc_pid c) = Some (st_index f)"
  using i
proof (cases rule: st_process_cases [where k = "sc_tgid c"])
  case None
  then show thesis by (intro foreign) (simp_all add: st_Pre_Handler_def)
next
  case (Some pa p)
  note pa = this
  show thesis
    using i pa(2,3)
  proof (cases rule: st_thread_cases [where k = "sc_pid c"])
    case None
    then show thesis using pa by (intro foreign) (simp_all add: st_Pre_Handler_def)
  next
    case (Some ta t fa f)
    have "fa \<in> linked s" using pa Some by (auto simp: linked_def)
    then obtain r x img m where "st_regs f = Some r" "st_fpu f = Some x" "st_pregs s r = Some img" "st_fpus s x = Some m"
      using i Some(7) unfolding st_inv_def objects_ok_def owns_def by force
    then have "st_Pre_Handler env c s = Inr (0, st_exited pa ta fa p s)"
      using pa Some by (simp add: st_Pre_Handler_def st_exited_def kfree_in_def regs_of_def fpu_of_def Let_def)
    from registered [OF this pa(2-4) Some(1-3,5-7,9)] show thesis .
  qed
qed

text \<open>What the probe does to the abstract state: as in the later version, but the process stays.\<close>

definition st_spec_exit :: "st_call \<Rightarrow> (pid_t \<Rightarrow> fproc option) \<Rightarrow> (pid_t \<Rightarrow> fproc option)" where
  "st_spec_exit c m = (case m (sc_tgid c) of
     None \<Rightarrow> m
   | Some q \<Rightarrow> (case cur q (sc_pid c) of
        None \<Rightarrow> m
      | Some i \<Rightarrow> m(sc_tgid c \<mapsto> q\<lparr>live := live q - {i}, cur := (cur q)(sc_pid c := None)\<rparr>)))"

lemma st_exited_ok:
  assumes i: "st_inv env s" and pa: "pa \<in> mem (st_list s)" "st_procs s pa = Some p"
    and ta: "st_search_thread env j pa s = Inr (Some ta)" "ta \<in> mem (st_threads p)" "st_thrs s ta = Some t"
    and fa: "st_active t = Some fa" "fa \<in> mem (st_fibers p)" "st_fibs s fa = Some f"
  shows "st_inv env (st_exited pa ta fa p s) \<and> st_abs env (st_exited pa ta fa p s) = (st_abs env s)(st_ppid p \<mapsto>
    (st_aproc env s p)\<lparr>live := live (st_aproc env s p) - {st_index f}, cur := (cur (st_aproc env s p))(j := None)\<rparr>)"
proof -
  let ?e = "kern env" let ?s = "st_exited pa ta fa p s"
  obtain n where k: "kinv ?e (embed ?e n s)" and o: "objects_ok env s" and ab: "\<And>m. kabs ?e (embed ?e m s) = st_abs env s"
    by (rule st_invD [OF i]) blast
  let ?k = "unlink_thread pa ta fa (embed_process p) (embed ?e n s)"
  have pe: "pa \<in> mem (list_process (embed ?e n s))" "procs (embed ?e n s) pa = Some (embed_process p)" using pa by simp_all
  have ac: "act (embed ?e n s) ta = Some fa" using ta fa by (simp add: act_def)
  have k': "kinv ?e ?k" by (rule unlink_thread_kinv [OF k pe _ ac]) (use ta in simp)
  have pf: "pid_find ?e (tkey (embed ?e n s)) j (threads (embed_process p)) = Inr (Some ta)"
    using ta(1) st_search_thread_embed [OF pa(2), of env j n] by simp
  have a': "kabs ?e ?k = (kabs ?e (embed ?e n s))(st_ppid p \<mapsto>
      (st_aproc env s p)\<lparr>live := live (st_aproc env s p) - {st_index f}, cur := (cur (st_aproc env s p))(j := None)\<rparr>)"
    using exited_abs [OF k pe pf _ ac, of "embed_fiber ?e f"] ta fa by (simp add: aproc_count)
  have eq: "embed ?e (n - 1) ?s = ?k"
    by (simp add: embed_def st_exited_def unlink_thread_def embed_process_def fun_eq_iff)
  have L: "fa \<in> linked s" using pa fa by (auto simp: linked_def)
  have dis: "fa \<notin> mem (st_fibers q)" if q: "qa \<in> mem (st_list s)" "st_procs s qa = Some q" "qa \<noteq> pa" for qa q
    using kinv_disjoint [OF k pe(1) _ not_sym [OF q(3)] pe(2), of "embed_process q"] q fa(2) by auto
  have L': "linked ?s = linked s - {fa}"
  proof (intro set_eqI iffI)
    fix x assume "x \<in> linked ?s"
    then obtain qa q where q: "qa \<in> mem (st_list s)" "st_procs ?s qa = Some q" "x \<in> mem (st_fibers q)"
      by (auto simp: linked_def st_exited_def)
    then show "x \<in> linked s - {fa}"
      using pa dis [of qa q] by (cases "qa = pa") (auto simp: linked_def st_exited_def)
  next
    fix x assume "x \<in> linked s - {fa}"
    then obtain qa q where q: "qa \<in> mem (st_list s)" "st_procs s qa = Some q" "x \<in> mem (st_fibers q)" "x \<noteq> fa"
      by (auto simp: linked_def)
    then show "x \<in> linked ?s"
      using pa unfolding linked_def by (cases "qa = pa") (auto simp: st_exited_def)
  qed
  have ow: "owns env ?s a \<and> regs_of ?s a = regs_of s a \<and> fpu_of ?s a = fpu_of s a" if a: "a \<in> linked s" "a \<noteq> fa" for a
  proof -
    have "regs_of s a \<noteq> regs_of s fa" "fpu_of s a \<noteq> fpu_of s fa"
      using o L a by (auto simp: objects_ok_def inj_on_def)
    moreover obtain r x r' x' where "regs_of s fa = Some r'" "fpu_of s fa = Some x'" "regs_of s a = Some r" "fpu_of s a = Some x"
      using owns_old [OF o L] owns_old [OF o a(1)] by metis
    moreover obtain f img m where f: "st_fibs s a = Some f" "st_pregs s r = Some img" "length img = nregs ?e" "st_fpus s x = Some m"
      "length (st_fls_array f) = MAX_FLS"
      using objects_owns [OF o a(1)] calculation(5,6) by (auto simp: owns_def regs_of_def fpu_of_def)
    ultimately have "st_pregs ?s r = Some img" "st_fpus ?s x = Some m" "st_fibs ?s a = Some f" "st_regs f = Some r" "st_fpu f = Some x"
      using a(2) by (auto simp: st_exited_def regs_of_def fpu_of_def)
    then show ?thesis using f by (auto simp: owns_def regs_of_def fpu_of_def)
  qed
  have "objects_ok env ?s"
  proof (rule objects_okI [OF o, where fa = fa])
    show "linked ?s \<subseteq> insert fa (linked s)" using L' by auto
    show "st_pregs ?s a = None \<and> st_fpus ?s a = None" if "st_brk ?s \<le> a" for a
      using that objects_fresh [OF o, of a] by (auto simp: st_exited_def)
  qed (use L' ow in auto)
  then show ?thesis
    using k' a' ab [of n] abs_count [of ?e "n - 1" ?s 0] unfolding st_inv_def st_abs_def eq [symmetric] by auto
qed

lemma st_exit_ok:
  assumes i: "st_inv env s" and r: "st_Pre_Handler env c s = Inr (r, s')"
  shows "st_inv env s' \<and> st_abs env s' = st_spec_exit c (st_abs env s)"
  using i
proof (cases rule: st_exit_cases [where c = c])
  case foreign
  then show ?thesis using r i by (auto simp: st_spec_exit_def)
next
  case (registered pa p ta t fa f)
  have "st_abs env s (sc_tgid c) = Some (st_aproc env s p)" using st_abs_member [OF i registered(2,3)] registered(4) by simp
  then show ?thesis
    using st_exited_ok [OF i registered(2,3,5-10)] registered(1,4,11) r by (simp add: st_spec_exit_def)
qed

section \<open>Local storage\<close>

lemma st_active_cases:
  assumes i: "st_inv env s"
  obtains (no_process) "st_with_active env c s np nt body = np" "st_search_process env (sc_tgid c) s = Inr None"
  | (no_thread) "st_with_active env c s np nt body = nt"
  | (active) pa p ta t fa f where "st_with_active env c s np nt body = body fa f" "pa \<in> mem (st_list s)" "st_procs s pa = Some p"
      "st_search_process env (sc_tgid c) s = Inr (Some pa)" "st_search_thread env (sc_pid c) pa s = Inr (Some ta)"
      "st_thrs s ta = Some t" "st_active t = Some fa" "fa \<in> linked s" "st_fibs s fa = Some f" "length (st_fls_array f) = MAX_FLS"
      "st_running f" "st_abs env s (sc_tgid c) = Some (st_aproc env s p)" "cur (st_aproc env s p) (sc_pid c) = Some (st_index f)"
  using i
proof (cases rule: st_process_cases [where k = "sc_tgid c"])
  case None
  then show thesis by (intro no_process) (simp_all add: st_with_active_def)
next
  case (Some pa p)
  note pa = this
  show thesis
    using i pa(2,3)
  proof (cases rule: st_thread_cases [where k = "sc_pid c"])
    case None
    then show thesis using pa by (intro no_thread) (simp add: st_with_active_def)
  next
    case (Some ta t fa f)
    have l: "fa \<in> linked s" using pa Some by (auto simp: linked_def)
    have "owns env s fa" using i l by (auto simp: st_inv_def objects_ok_def)
    then have "length (st_fls_array f) = MAX_FLS" using Some(7) by (auto simp: owns_def)
    moreover have "st_with_active env c s np nt body = body fa f" using pa Some by (simp add: st_with_active_def)
    ultimately show thesis using active pa l Some by blast
  qed
qed

lemma st_fiber_update:
  assumes i: "st_inv env s" and f: "st_fibs s fa = Some f" "same_role f g" and l: "fa \<in> linked s"
  shows "st_inv env (s\<lparr>st_fibs := (st_fibs s)(fa \<mapsto> g)\<rparr>) \<and> st_abs env (s\<lparr>st_fibs := (st_fibs s)(fa \<mapsto> g)\<rparr>) = st_abs env s"
  using f st_fresh [OF i] st_below(2) [OF i l] st_uregs_length [OF i]
  by (intro conjI st_inv_frame [OF i]) (auto simp: keeps_def)

lemma role_ops:
  "st_change_bit k f = Inr g \<Longrightarrow> same_role f g" "st_clear_bit k f = Inr g \<Longrightarrow> same_role f g"
  "st_fls_store k v f = Inr g \<Longrightarrow> same_role f g"
  by (auto simp: st_change_bit_def st_clear_bit_def st_fls_store_def st_put_word_def same_role_def kbind_Inr_iff split: if_splits)

lemma role_trans: "same_role f g \<Longrightarrow> same_role g h \<Longrightarrow> same_role f h"
  by (simp add: same_role_def)

lemma st_fls_alloc_ok:
  assumes i: "st_inv env s" and r: "st_fls_alloc env c s = Inr (r, s')"
  shows "st_inv env s' \<and> st_abs env s' = st_abs env s"
  using i
proof (cases rule: st_active_cases [where c = c and np = "Inr (- 1, s)" and nt = "Inr (- 1, s)" and body = "\<lambda>fa f.
       let i = of_nat (st_find_first_zero f) in
       kbind (st_change_bit i f) (\<lambda>f. kbind (st_fls_store i 0 f) (\<lambda>f. kbind (upd_fiber fa (\<lambda>_. f) s) (\<lambda>s. Inr (i, s))))"])
  case (active pa p ta t fa f)
  then show ?thesis
    using r st_fiber_update [OF i active(9) role_trans [OF role_ops(1) role_ops(3)] active(8)]
    by (auto simp: st_fls_alloc_def Let_def kbind_Inr_iff)
qed (use r i in \<open>auto simp: st_fls_alloc_def\<close>)

lemma st_fls_free_ok:
  assumes i: "st_inv env s" and r: "st_fls_free env c s = Inr (r, s')"
  shows "st_inv env s' \<and> st_abs env s' = st_abs env s"
  using i
proof (cases rule: st_active_cases [where c = c and np = "Inr (0, s)" and nt = "Inr (0, s)" and body = "\<lambda>fa f.
       kbind (st_clear_bit (sc_arg c) f) (\<lambda>f. kbind (upd_fiber fa (\<lambda>_. f) s) (\<lambda>s. Inr (1, s)))"])
  case (active pa p ta t fa f)
  then show ?thesis
    using r st_fiber_update [OF i active(9) role_ops(2) active(8)] by (auto simp: st_fls_free_def kbind_Inr_iff)
qed (use r i in \<open>auto simp: st_fls_free_def\<close>)

lemma st_fls_get_same:
  assumes i: "st_inv env s" and r: "st_fls_get env c s = Inr (r, s')"
  shows "s' = s"
  using i
proof (cases rule: st_active_cases [where c = c and np = "Inr (- 1, s)" and nt = "Inr (- 1, s)" and body = "\<lambda>fa f.
       kbind (st_test_bit (sc_arg c) f) (\<lambda>b. if b then kbind (st_fls_load (sc_arg c) f) (\<lambda>v. Inr (v, s)) else Inr (- 1, s))"])
  case (active pa p ta t fa f)
  then show ?thesis using r by (auto simp: st_fls_get_def kbind_Inr_iff split: if_splits)
qed (use r in \<open>auto simp: st_fls_get_def\<close>)

lemma st_fls_get_ok: "st_inv env s \<Longrightarrow> st_fls_get env c s = Inr (r, s') \<Longrightarrow> st_inv env s' \<and> st_abs env s' = st_abs env s"
  using st_fls_get_same by blast

lemma st_fls_set_ok:
  assumes i: "st_inv env s" and r: "st_fls_set env c s = Inr (r, s')"
  shows "st_inv env s' \<and> st_abs env s' = st_abs env s"
proof -
  obtain args t where t: "st_kmalloc_args env s = (args, t)" by (cases "st_kmalloc_args env s")
  have j: "st_inv env t" "st_abs env t = st_abs env s" using st_kmalloc_args_ok(1,2) [OF i] t by auto
  let ?i = "dwFlsIndex (set_buf c)"
  let ?b = "\<lambda>fa f. kbind (st_test_bit ?i f) (\<lambda>b. if b then kbind (st_fls_store ?i (lpFlsData (set_buf c)) f) (\<lambda>f.
              kbind (upd_fiber fa (\<lambda>_. f) t) (\<lambda>s. Inr (0, st_kfree_args s))) else Inr (0, st_kfree_args t))"
  have w: "st_with_active env c t (Inr (- 1, t)) (Inr (0, st_kfree_args t)) ?b = Inr (r, s')"
    using r t by (auto simp: st_fls_set_def Let_def split: if_splits)
  show ?thesis
    using j(1)
  proof (cases rule: st_active_cases [where c = c and np = "Inr (- 1, t)" and nt = "Inr (0, st_kfree_args t)" and body = ?b])
    case (active pa p ta u fa f)
    from trans [OF sym [OF active(1)] w] consider "s' = st_kfree_args t"
      | g where "st_fls_store ?i (lpFlsData (set_buf c)) f = Inr g" "s' = st_kfree_args (t\<lparr>st_fibs := (st_fibs t)(fa \<mapsto> g)\<rparr>)"
      using active(9) by (auto simp: kbind_Inr_iff split: if_splits)
    then show ?thesis
    proof cases
      case 1
      then show ?thesis using st_kmalloc_args_ok(3,4) [OF j(1)] j(2) by simp
    next
      case 2
      note u = st_fiber_update [OF j(1) active(9) role_ops(3) [OF 2(1)] active(8)]
      then show ?thesis using st_kmalloc_args_ok(3,4) [OF conjunct1 [OF u]] j(2) 2(2) by simp
    qed
  qed (use w j st_kmalloc_args_ok(3,4) [OF j(1)] in auto)
qed

section \<open>Reachable states\<close>

lemma st_ioctl_ok:
  assumes e: "st_env_ok env" and i: "st_inv env s" and ok: "st_next_ok env c s" and r: "st_ioctl env cmd c s = Inr (r, s')"
  shows "st_inv env s'"
  using r st_convert_ok [OF e i ok] st_create_ok [OF e i ok] st_switch_ok [OF i] st_fls_alloc_ok [OF i] st_fls_free_ok [OF i]
    st_fls_get_ok [OF i] st_fls_set_ok [OF i] i
  by (cases cmd) auto

text \<open>Commands whose next index can be found again, exits, and user code.\<close>

inductive st_step :: "st_env \<Rightarrow> st_state \<Rightarrow> st_state \<Rightarrow> bool" for env where
  st_command: "st_next_ok env c s \<Longrightarrow> st_ioctl env cmd c s = Inr (r, s') \<Longrightarrow> st_step env s s'"
| st_exit: "st_Pre_Handler env c s = Inr (r, s') \<Longrightarrow> st_step env s s'"
| st_user: "length img = nregs (kern env) \<Longrightarrow>
    st_step env s (s\<lparr>st_uregs := (st_uregs s)(t := img), st_ufx := (st_ufx s)(t := x)\<rparr>)"

inductive st_reachable :: "st_env \<Rightarrow> st_state \<Rightarrow> bool" for env where
  st_load: "(\<And>t. length (ur t) = nregs (kern env)) \<Longrightarrow> st_reachable env (st_init_state ur uf)"
| st_next: "st_reachable env s \<Longrightarrow> st_step env s s' \<Longrightarrow> st_reachable env s'"

lemma st_user_ok:
  assumes i: "st_inv env s" and l: "length img = nregs (kern env)"
  shows "st_inv env (s\<lparr>st_uregs := (st_uregs s)(t := img), st_ufx := (st_ufx s)(t := x)\<rparr>)"
    "st_abs env (s\<lparr>st_uregs := (st_uregs s)(t := img), st_ufx := (st_ufx s)(t := x)\<rparr>) = st_abs env s"
  by ((rule st_inv_frame [OF i]; use l st_fresh [OF i] st_uregs_length [OF i] in \<open>auto simp: keeps_def\<close>))+

lemma st_step_inv: "st_step env s s' \<Longrightarrow> st_env_ok env \<Longrightarrow> st_inv env s \<Longrightarrow> st_inv env s'"
  by (induction rule: st_step.induct) (auto intro: st_ioctl_ok st_user_ok dest: st_exit_ok)

lemma st_reachable_inv: "st_reachable env s \<Longrightarrow> st_env_ok env \<Longrightarrow> st_inv env s"
  by (induction rule: st_reachable.induct) (auto intro: st_inv_init st_step_inv)

section \<open>Calls that return\<close>

definition memory_ok :: "st_env \<Rightarrow> bool" where
  "memory_ok env \<longleftrightarrow> (\<forall>a. kmalloc_ok env a)"

lemma st_convert_total:
  assumes i: "st_inv env s" and m: "memory_ok env"
  shows "\<exists>x. st_convert env c s = Inr x"
proof -
  have k: "kmalloc_ok env a" for a using m by (simp add: memory_ok_def)
  obtain t where t: "kmalloc_fiber env s = (Some (st_brk s), t)" by (simp add: kmalloc_fiber_def k Let_def)
  note f = kmalloc_fiber_ok [OF i t]
  have thread: "\<exists>x. st_convert_thread env c (Some (st_brk s)) pa u = Inr x"
    if u: "st_inv env u" "pa \<in> mem (st_list u)" "st_procs u pa = Some p" "st_fibs u (st_brk s) = Some g" for u pa p g
    using u(1-3)
  proof (cases rule: st_thread_cases [where k = "sc_pid c"])
    case None
    show ?thesis using st_convert_thread_eq [OF u(3) None(1), of "Some (st_brk s)" "\<lambda>_. g"] u(4) k by simp
  qed (simp add: st_convert_thread_def)
  show ?thesis
    using f(1)
  proof (cases rule: st_process_cases [where k = "sc_tgid c"])
    case None
    let ?l = "st_link_process env (sc_tgid c) t"
    have "st_convert env c s = st_convert_thread env c (Some (st_brk s)) (st_brk t) ?l"
      using t None(1) k by (simp add: st_convert_def kmalloc_process_def st_link_process_def Let_def)
    moreover have "\<exists>x. st_convert_thread env c (Some (st_brk s)) (st_brk t) ?l = Inr x"
      by (rule thread [OF st_link_process_ok(1) [OF f(1) None(3)]]) (use f(4) in \<open>simp_all add: st_link_process_def\<close>)
    ultimately show ?thesis by simp
  next
    case (Some pa p)
    have "st_convert env c s = st_convert_thread env c (Some (st_brk s)) pa t" using t Some(1) by (simp add: st_convert_def)
    then show ?thesis using thread [OF f(1) Some(2,3)] f(4) by simp
  qed
qed

lemma st_create_total:
  assumes i: "st_inv env s" and m: "memory_ok env"
  shows "\<exists>x. st_create env c s = Inr x"
proof -
  have k: "kmalloc_ok env a" for a using m by (simp add: memory_ok_def)
  obtain s1 where s1: "st_kmalloc_args env s = (True, s1)" by (simp add: st_kmalloc_args_def k Let_def)
  have i1: "st_inv env s1" using st_kmalloc_args_ok(1) [OF i] s1 by simp
  obtain t where t: "kmalloc_fiber env s1 = (Some (st_brk s1), t)" by (simp add: kmalloc_fiber_def k Let_def)
  note f = kmalloc_fiber_ok [OF i1 t]
  show ?thesis
    using f(1)
  proof (cases rule: st_process_cases [where k = "sc_tgid c"])
    case None
    then show ?thesis using s1 t by (simp add: st_create_def)
  next
    case (Some pa p)
    note pa = this
    show ?thesis
      using f(1) pa(2,3)
    proof (cases rule: st_thread_cases [where k = "sc_pid c"])
      case None
      then show ?thesis using s1 t pa by (simp add: st_create_def)
    next
      case (Some ta u af fo)
      have o: "objects_ok env t" using f(1) by (simp add: st_inv_def)
      have l: "af \<in> linked t" using pa Some by (auto simp: linked_def)
      obtain xo where "fpu_of t af = Some xo" and x: "xo < st_brk t" by (rule owns_old [OF o l])
      then have xo: "st_fpu fo = Some xo" using Some(7) by (simp add: fpu_of_def)
      obtain mo where mo: "st_fpus t xo = Some mo" using objects_owns [OF o l] Some(7) xo by (auto simp: owns_def)
      have "st_fibs t (st_brk s1) = Some (junk_fiber env (st_brk s1)) \<and> st_brk s1 \<noteq> af" using f(4) l by auto
      then show ?thesis
        using st_create_fiber_eq [OF pa(3) Some(3,5,7) xo mo x, of "Some (st_brk s1)" "\<lambda>fa. junk_fiber env fa"]
          s1 t pa Some(1) k by (simp add: st_create_def)
    qed
  qed
qed

lemma st_switch_total: "st_inv env s \<Longrightarrow> memory_ok env \<Longrightarrow> \<exists>x. st_switch env c s = Inr x"
  by (cases rule: st_switch_cases [where c = c and env = env and s = s]) (auto simp: memory_ok_def)

text \<open>Which slots a command may name: nothing is checked, so the caller has to stay inside the array.
  A full bitmap and array make FLSALLOC leave it.\<close>

definition st_current :: "st_env \<Rightarrow> st_call \<Rightarrow> st_state \<Rightarrow> addr option" where
  "st_current env c s =
     (case st_search_process env (sc_tgid c) s of
        Inr (Some pa) \<Rightarrow> (case st_search_thread env (sc_pid c) pa s of
           Inr (Some ta) \<Rightarrow> (case st_thrs s ta of None \<Rightarrow> None | Some t \<Rightarrow> st_active t)
         | _ \<Rightarrow> None)
      | _ \<Rightarrow> None)"

definition st_caller :: "st_env \<Rightarrow> st_call \<Rightarrow> st_state \<Rightarrow> st_fiber option" where
  "st_caller env c s = (case st_current env c s of None \<Rightarrow> None | Some fa \<Rightarrow> st_fibs s fa)"

definition slot_inside :: "u64 \<Rightarrow> bool" where
  "slot_inside i \<longleftrightarrow> 0 \<le> sint i \<and> unat i < MAX_FLS"

fun st_call_safe :: "st_env \<Rightarrow> ioctl_cmd \<Rightarrow> st_call \<Rightarrow> st_state \<Rightarrow> bool" where
  "st_call_safe env FLSALLOC c s = (case st_caller env c s of None \<Rightarrow> True | Some f \<Rightarrow> st_find_first_zero f < MAX_FLS)"
| "st_call_safe env FLSFREE c s = slot_inside (sc_arg c)"
| "st_call_safe env FLSGETVALUE c s = slot_inside (sc_arg c)"
| "st_call_safe env FLSSETVALUE c s = slot_inside (dwFlsIndex (set_buf c))"
| "st_call_safe env _ c s = True"

lemma slot_ops:
  assumes i: "slot_inside i" and l: "length (st_fls_array f) = MAX_FLS"
  shows "\<exists>b. st_test_bit i f = Inr b" "\<exists>g. st_change_bit i f = Inr g" "\<exists>g. st_clear_bit i f = Inr g"
    "\<exists>v. st_fls_load i f = Inr v" "\<exists>g. st_fls_store i v f = Inr g"
proof -
  have "unat i div BITS_PER_LONG \<le> MAX_FLS"
    by (rule order_trans [OF div_le_dividend]) (use i in \<open>simp add: slot_inside_def\<close>)
  then have w: "\<exists>w. st_bit_word i f = Inr w" using i l by (simp add: st_bit_word_def st_get_word_def slot_inside_def)
  then show "\<exists>b. st_test_bit i f = Inr b" "\<exists>g. st_change_bit i f = Inr g" "\<exists>g. st_clear_bit i f = Inr g"
    by (auto simp: st_test_bit_def st_change_bit_def st_clear_bit_def)
  show "\<exists>v. st_fls_load i f = Inr v" "\<exists>g. st_fls_store i v f = Inr g"
    using i l by (simp_all add: st_fls_load_def st_fls_store_def slot_inside_def)
qed

lemma slot_inside_nat:
  assumes "n < MAX_FLS"
  shows "slot_inside (of_nat n)" "unat (of_nat n :: u64) = n"
proof -
  have n: "n < 4096" using assms by (simp add: MAX_FLS_def)
  then show u: "unat (of_nat n :: u64) = n" by (simp add: unat_of_nat take_bit_nat_eq_self_iff)
  have "sint (of_nat n :: u64) = int n" using n by (simp add: signed_of_nat signed_take_bit_int_eq_self)
  then show "slot_inside (of_nat n)" using u assms by (simp add: slot_inside_def)
qed

lemma st_fls_total:
  assumes i: "st_inv env s" and m: "memory_ok env" and c: "st_call_safe env cmd c s"
  shows "cmd = FLSALLOC \<Longrightarrow> \<exists>x. st_fls_alloc env c s = Inr x" "cmd = FLSFREE \<Longrightarrow> \<exists>x. st_fls_free env c s = Inr x"
    "cmd = FLSGETVALUE \<Longrightarrow> \<exists>x. st_fls_get env c s = Inr x" "cmd = FLSSETVALUE \<Longrightarrow> \<exists>x. st_fls_set env c s = Inr x"
proof -
  have W: "\<exists>x. st_with_active env c u np nt body = Inr x" if u: "st_inv env u" "\<exists>x. np = Inr x" "\<exists>x. nt = Inr x"
    "\<And>fa f. st_caller env c u = Some f \<Longrightarrow> st_fibs u fa = Some f \<Longrightarrow> length (st_fls_array f) = MAX_FLS \<Longrightarrow> \<exists>x. body fa f = Inr x"
    for u np nt body
    using u(1)
  proof (cases rule: st_active_cases [where c = c and np = np and nt = nt and body = body])
    case (active pa p ta t fa f)
    then show ?thesis using u(4) [of f fa] by (simp add: st_caller_def st_current_def)
  qed (use u in auto)
  show "\<exists>x. st_fls_alloc env c s = Inr x" if a: "cmd = FLSALLOC"
    unfolding st_fls_alloc_def
  proof (rule W [OF i])
    fix fa f assume f: "st_caller env c s = Some f" "st_fibs s fa = Some f" "length (st_fls_array f) = MAX_FLS"
    let ?n = "st_find_first_zero f"
    have n: "slot_inside (of_nat ?n)" using slot_inside_nat c a f(1) by simp
    obtain g where g: "st_change_bit (of_nat ?n) f = Inr g" using slot_ops(2) [OF n f(3)] by blast
    have "length (st_fls_array g) = MAX_FLS" using role_ops(1) [OF g] f(3) by (simp add: same_role_def)
    from slot_ops(5) [OF n this, of 0] g f(2) show "\<exists>x. (let i = of_nat ?n in kbind (st_change_bit i f) (\<lambda>f. kbind (st_fls_store i 0 f)
        (\<lambda>f. kbind (upd_fiber fa (\<lambda>_. f) s) (\<lambda>s. Inr (i, s))))) = Inr x" by (auto simp: Let_def)
  qed simp_all
  show "\<exists>x. st_fls_free env c s = Inr x" if a: "cmd = FLSFREE"
    unfolding st_fls_free_def
    by (rule W [OF i]) (use slot_ops(3) c a in \<open>fastforce\<close>)+
  show "\<exists>x. st_fls_get env c s = Inr x" if a: "cmd = FLSGETVALUE"
    unfolding st_fls_get_def
  proof (rule W [OF i])
    fix fa and f :: st_fiber assume f: "length (st_fls_array f) = MAX_FLS"
    then show "\<exists>x. kbind (st_test_bit (sc_arg c) f) (\<lambda>b. if b then kbind (st_fls_load (sc_arg c) f) (\<lambda>v. Inr (v, s)) else Inr (- 1, s)) = Inr x"
      using slot_ops(1,4) [OF _ f, of "sc_arg c"] c a by auto
  qed simp_all
  show "\<exists>x. st_fls_set env c s = Inr x" if a: "cmd = FLSSETVALUE"
  proof -
    obtain t where t: "st_kmalloc_args env s = (True, t)" using m by (simp add: st_kmalloc_args_def memory_ok_def Let_def)
    have j: "st_inv env t" using st_kmalloc_args_ok(1) [OF i] t by simp
    show ?thesis
      unfolding st_fls_set_def t Let_def prod.case not_True_eq_False if_False
    proof (rule W [OF j])
      fix fa f assume f: "st_fibs t fa = Some f" "length (st_fls_array f) = MAX_FLS"
      have s: "slot_inside (dwFlsIndex (set_buf c))" using c a by simp
      obtain b g where "st_test_bit (dwFlsIndex (set_buf c)) f = Inr b" "st_fls_store (dwFlsIndex (set_buf c)) (lpFlsData (set_buf c)) f = Inr g"
        using slot_ops(1,5) [OF s f(2)] by blast
      then show "\<exists>x. kbind (st_test_bit (dwFlsIndex (set_buf c)) f) (\<lambda>b. if b then
          kbind (st_fls_store (dwFlsIndex (set_buf c)) (lpFlsData (set_buf c)) f) (\<lambda>f. kbind (upd_fiber fa (\<lambda>_. f) t) (\<lambda>s. Inr (0, st_kfree_args s)))
          else Inr (0, st_kfree_args t)) = Inr x" using f(1) by simp
    qed simp_all
  qed
qed

lemma st_ioctl_total:
  assumes "st_inv env s" "memory_ok env" "st_call_safe env cmd c s"
  shows "\<exists>r s'. st_ioctl env cmd c s = Inr (r, s')"
  using st_convert_total [OF assms(1,2), of c] st_create_total [OF assms(1,2), of c] st_switch_total [OF assms(1,2), of c]
    st_fls_total [OF assms] by (cases cmd) auto

end
