(* ===== verification/Single_Runs.thy ===== *)
theory Single_Runs
  imports Single_Spec
begin

text \<open>
  Runs of the earlier version: registers through switches, and the comparison with the later version
  command by command.
\<close>

section \<open>Idle fibers keep their registers\<close>

definition regs_img :: "st_state \<Rightarrow> addr \<Rightarrow> pt_regs option" where
  "regs_img s fa = (case regs_of s fa of None \<Rightarrow> None | Some r \<Rightarrow> st_pregs s r)"

definition kept :: "st_state \<Rightarrow> st_state \<Rightarrow> addr \<Rightarrow> bool" where
  "kept s s' a \<longleftrightarrow> st_fibs s' a = st_fibs s a \<and> regs_img s' a = regs_img s a"

definition idle :: "st_state \<Rightarrow> addr \<Rightarrow> bool" where
  "idle s fa \<longleftrightarrow> fa \<in> linked s \<and> (\<exists>f. st_fibs s fa = Some f \<and> \<not> st_running f)"

lemma kept_trans: "kept s t a \<Longrightarrow> kept t u a \<Longrightarrow> kept s u a"
  by (simp add: kept_def)

lemma keptI: "st_fibs s' a = st_fibs s a \<Longrightarrow> (\<And>r. regs_of s a = Some r \<Longrightarrow> st_pregs s' r = st_pregs s r) \<Longrightarrow> kept s s' a"
  by (simp add: kept_def regs_img_def regs_of_def split: option.split)

lemma regs_below: "st_inv env s \<Longrightarrow> a \<in> linked s \<Longrightarrow> regs_of s a = Some r \<Longrightarrow> r < st_brk s"
  by (auto simp: st_inv_def elim: owns_old)

lemma alloc_kept:
  assumes i: "st_inv env s" and a: "a \<in> linked s"
  shows "kmalloc_fiber env s = (x, t) \<Longrightarrow> kept s t a" "st_kmalloc_args env s = (y, t) \<Longrightarrow> kept s t a"
    "kept s (st_link_process env tg s) a" "kept s (st_kfree_args s) a"
  using st_below(2) [OF i a]
  by (auto intro!: keptI simp: kmalloc_fiber_def st_kmalloc_args_def st_link_process_def st_kfree_args_def Let_def split: if_splits)

lemma convert_thread_kept:
  assumes i: "st_inv env s" and pa: "pa \<in> mem (st_list s)" "st_procs s pa = Some p" and a: "a \<in> linked s"
    and fiber: "\<And>fa. fiber = Some fa \<Longrightarrow> fa \<notin> linked s \<and> (\<exists>f. st_fibs s fa = Some f)"
    and r: "st_convert_thread env c fiber pa s = Inr (r, s')"
  shows "kept s s' a"
  using i pa
proof (cases rule: st_thread_cases [where k = "sc_pid c"])
  case (Some ta t fa f)
  then show ?thesis using r by (simp add: st_convert_thread_def kept_def)
next
  case None
  define f0 where "f0 fa = the (st_fibs s fa)" for fa
  have f0: "st_fibs s fa = Some (f0 fa)" if "fiber = Some fa" for fa using fiber [OF that] by (auto simp: f0_def)
  obtain fa where fa: "fiber = Some fa" "s' = registered env c fa pa (f0 fa) p s"
    using r st_convert_thread_eq [OF pa(2) None(1) f0] by (auto split: option.splits if_splits)
  show ?thesis
    using fiber [OF fa(1)] a regs_below [OF i a] unfolding fa(2) by (intro keptI) (auto simp: registered_def Let_def)
qed

lemma convert_kept:
  assumes i: "st_inv env s" and a: "a \<in> linked s" and r: "st_convert env c s = Inr (r, s')"
  shows "kept s s' a"
proof -
  obtain fiber t where t: "kmalloc_fiber env s = (fiber, t)" by (cases "kmalloc_fiber env s")
  note f = kmalloc_fiber_ok [OF i t] and k1 = alloc_kept(1) [OF i a t]
  have at: "a \<in> linked t" using a f(3) by simp
  have new: "fa \<notin> linked t \<and> (\<exists>f. st_fibs t fa = Some f)" if "fiber = Some fa" for fa using f(4) [OF that] by simp
  show ?thesis
    using f(1)
  proof (cases rule: st_process_cases [where k = "sc_tgid c"])
    case (Some pa p)
    have m: "st_convert_thread env c fiber pa t = Inr (r, s')" using r t Some(1) by (simp add: st_convert_def)
    show ?thesis by (rule kept_trans [OF k1 convert_thread_kept [OF f(1) Some(2,3) at new m]])
  next
    case None
    let ?l = "st_link_process env (sc_tgid c) t"
    note l = st_link_process_ok [OF f(1) None(3)]
    have m: "st_convert_thread env c fiber (st_brk t) ?l = Inr (r, s')"
      using r t None(1)
      by (auto simp: st_convert_def kmalloc_process_def st_link_process_def Let_def split: if_splits)
    have new': "fa \<notin> linked ?l \<and> (\<exists>f. st_fibs ?l fa = Some f)" if "fiber = Some fa" for fa
      using new [OF that] l(3) by (simp add: st_link_process_def)
    have p: "st_brk t \<in> mem (st_list ?l)" "st_procs ?l (st_brk t) = Some ((junk_process env (st_brk t))\<lparr>st_fiber_id := 0,
        st_ppid := sc_tgid c, st_threads := hash_init, st_fibers := hash_init\<rparr>)" by (simp_all add: st_link_process_def)
    have al: "a \<in> linked ?l" using at l(3) by simp
    from kept_trans [OF kept_trans [OF k1 alloc_kept(3) [OF f(1) at]] convert_thread_kept [OF l(1) p al new' m]]
    show ?thesis .
  qed
qed

lemma create_kept:
  assumes i: "st_inv env s" and a: "a \<in> linked s" and r: "st_create env c s = Inr (r, s')"
  shows "kept s s' a"
proof -
  obtain args s1 where s1: "st_kmalloc_args env s = (args, s1)" by (cases "st_kmalloc_args env s")
  have i1: "st_inv env s1" using st_kmalloc_args_ok(1) [OF i] s1 by simp
  have a1: "a \<in> linked s1" using a s1 by (auto simp: st_kmalloc_args_def Let_def linked_def split: if_splits)
  obtain fiber t where t: "kmalloc_fiber env s1 = (fiber, t)" by (cases "kmalloc_fiber env s1")
  note f = kmalloc_fiber_ok [OF i1 t]
  note k1 = kept_trans [OF alloc_kept(2) [OF i a s1] alloc_kept(1) [OF i1 a1 t]]
  have at: "a \<in> linked t" using a1 f(3) by simp
  have ar: args using r s1 t by (cases args) (auto simp: st_create_def)
  show ?thesis
    using f(1)
  proof (cases rule: st_process_cases [where k = "sc_tgid c"])
    case None
    then show ?thesis using r s1 t ar k1 by (simp add: st_create_def)
  next
    case (Some pa p)
    note pa = this
    show ?thesis
      using f(1) pa(2,3)
    proof (cases rule: st_thread_cases [where k = "sc_pid c"])
      case None
      then show ?thesis using r s1 t ar pa k1 kept_trans [OF k1 alloc_kept(4) [OF f(1) at]] by (simp add: st_create_def)
    next
      case (Some ta u af fo)
      have o: "objects_ok env t" using f(1) by (simp add: st_inv_def)
      have l: "af \<in> linked t" using pa Some by (auto simp: linked_def)
      obtain xo where "fpu_of t af = Some xo" and x: "xo < st_brk t" by (rule owns_old [OF o l])
      then have xo: "st_fpu fo = Some xo" using Some(7) by (simp add: fpu_of_def)
      obtain mo where mo: "st_fpus t xo = Some mo" using objects_owns [OF o l] Some(7) xo by (auto simp: owns_def)
      have fb: "st_fibs t fa = Some (junk_fiber env fa) \<and> fa \<noteq> af" if "fiber = Some fa" for fa
        using f(4) [OF that] l by auto
      have "st_create_fiber env c fiber pa ta t = Inr (r, s')" using r s1 t ar pa(1) Some(1) by (simp add: st_create_def)
      then obtain fa where fa: "fiber = Some fa" "s' = st_created env c fa pa xo (junk_fiber env fa) p t"
        using st_create_fiber_eq [OF pa(3) Some(3,5,7) xo mo x fb] by (auto split: option.splits if_splits)
      have "kept t s' a"
        using f(4) [OF fa(1)] at regs_below [OF f(1) at] unfolding fa(2) by (intro keptI) (auto simp: st_created_def Let_def)
      then show ?thesis by (rule kept_trans [OF k1])
    qed
  qed
qed

lemma switch_kept:
  assumes i: "st_inv env s" and a: "idle s a" "idle s' a" and r: "st_switch env c s = Inr (r, s')"
  shows "kept s s' a"
  using i
proof (cases rule: st_switch_cases [where c = c])
  case refused
  then show ?thesis using r by (simp add: kept_def)
next
  case (found pa p ta t af fo fa fn)
  have s': "s' = st_switched env c ta af fa s" using r found(1) by (auto split: if_splits)
  have "a \<noteq> fa" using a(2) found(14) by (auto simp: idle_def s' st_switched_def Let_def)
  moreover have "a \<noteq> af" using a(1) found(11,12) by (auto simp: idle_def)
  moreover have "regs_of s a \<noteq> regs_of s af"
  proof -
    have "af \<in> linked s" "a \<in> linked s" "inj_on (regs_of s) (linked s)"
      using found(3,4,10) a(1) i by (auto simp: linked_def idle_def st_inv_def objects_ok_def)
    with \<open>a \<noteq> af\<close> show ?thesis by (auto dest: inj_onD)
  qed
  moreover obtain ro where "regs_of s af = Some ro" "st_regs fo = Some ro"
  proof -
    have "objects_ok env s" "af \<in> linked s" using i found(3,4,10) by (auto simp: st_inv_def linked_def)
    then show thesis using owns_old [of env s af] found(11) that by (auto simp: regs_of_def)
  qed
  ultimately show ?thesis
    using found(11) unfolding s' by (intro keptI) (auto simp: st_switched_def Let_def)
qed

lemma exit_kept:
  assumes i: "st_inv env s" and a: "idle s a" "idle s' a" and r: "st_Pre_Handler env c s = Inr (r, s')"
  shows "kept s s' a"
  using i
proof (cases rule: st_exit_cases [where c = c])
  case foreign
  then show ?thesis using r by (simp add: kept_def)
next
  case (registered pa p ta t fa f)
  have s': "s' = st_exited pa ta fa p s" using r registered(1) by simp
  have ne: "a \<noteq> fa" using a(2) by (auto simp: idle_def s' st_exited_def)
  have "fa \<in> linked s" "objects_ok env s" using i registered(2,3,9) by (auto simp: st_inv_def linked_def)
  moreover from this obtain rf where "regs_of s fa = Some rf" using owns_old [of env s fa] by blast
  ultimately show ?thesis
    using ne a(1) unfolding s' by (intro keptI) (auto simp: st_exited_def objects_ok_def inj_on_def idle_def)
qed

lemma fls_kept:
  assumes i: "st_inv env s" and a: "idle s a"
  shows "st_fls_alloc env c s = Inr (r, s') \<Longrightarrow> kept s s' a" "st_fls_free env c s = Inr (r, s') \<Longrightarrow> kept s s' a"
    "st_fls_set env c s = Inr (r, s') \<Longrightarrow> kept s s' a"
proof -
  have W: "kept u s' a" if u: "st_inv env u" "idle u a" "st_with_active env c u np nt body = Inr (r, s')"
    "np = Inr (x, s1) \<and> st_fibs s1 = st_fibs u \<and> st_pregs s1 = st_pregs u" "nt = Inr (y, s2) \<and> st_fibs s2 = st_fibs u \<and> st_pregs s2 = st_pregs u"
    "\<And>fa f. st_fibs u fa = Some f \<Longrightarrow> body fa f = Inr (r, s') \<Longrightarrow>
      (\<forall>b. b \<noteq> fa \<longrightarrow> st_fibs s' b = st_fibs u b) \<and> st_pregs s' = st_pregs u"
    for u np nt body x s1 y s2
    using u(1)
  proof (cases rule: st_active_cases [where c = c and np = np and nt = nt and body = body])
    case (active pa p ta t fa f)
    have "a \<noteq> fa" using u(2) active(9,11) by (auto simp: idle_def)
    then show ?thesis using u(6) [OF active(9)] active(1) u(3) by (intro keptI) auto
  qed (use u in \<open>auto intro!: keptI\<close>)
  show "kept s s' a" if "st_fls_alloc env c s = Inr (r, s')"
    by (rule W [OF i a that [unfolded st_fls_alloc_def]]) (auto simp: kbind_Inr_iff Let_def)
  show "kept s s' a" if "st_fls_free env c s = Inr (r, s')"
    by (rule W [OF i a that [unfolded st_fls_free_def]]) (auto simp: kbind_Inr_iff)
  show "kept s s' a" if r: "st_fls_set env c s = Inr (r, s')"
  proof -
    obtain args t where t: "st_kmalloc_args env s = (args, t)" by (cases "st_kmalloc_args env s")
    have j: "st_inv env t" using st_kmalloc_args_ok(1) [OF i] t by simp
    have e: "st_fibs t = st_fibs s" "st_pregs t = st_pregs s" "linked t = linked s"
      using t by (auto simp: st_kmalloc_args_def Let_def linked_def split: if_splits)
    have it: "idle t a" using a e by (simp add: idle_def)
    let ?i = "dwFlsIndex (set_buf c)"
    have w: "st_with_active env c t (Inr (- 1, t)) (Inr (0, st_kfree_args t)) (\<lambda>fa f. kbind (st_test_bit ?i f) (\<lambda>b.
        if b then kbind (st_fls_store ?i (lpFlsData (set_buf c)) f) (\<lambda>f. kbind (upd_fiber fa (\<lambda>_. f) t) (\<lambda>s. Inr (0, st_kfree_args s)))
        else Inr (0, st_kfree_args t))) = Inr (r, s')"
      using r t by (auto simp: st_fls_set_def Let_def split: if_splits)
    have "kept t s' a"
      by (rule W [OF j it w]) (auto simp: kbind_Inr_iff st_kfree_args_def split: if_splits)
    moreover have "kept s t a" using e by (intro keptI) simp_all
    ultimately show ?thesis by (blast intro: kept_trans)
  qed
qed

lemma step_kept:
  assumes st: "st_step env s s'" and i: "st_inv env s" and a: "idle s a" "idle s' a"
  shows "kept s s' a"
  using st
proof cases
  case (st_command c cmd r)
  have "a \<in> linked s" using a(1) by (simp add: idle_def)
  with st_command(2) show ?thesis
    using convert_kept [OF i, of a c r s'] create_kept [OF i, of a c r s'] switch_kept [OF i a, of c r] fls_kept [OF i a(1), of c r s']
      st_fls_get_same [OF i, of c r s']
    by (cases cmd) (auto simp: kept_def)
next
  case (st_exit c r)
  then show ?thesis by (rule exit_kept [OF i a])
next
  case (st_user img t x)
  then show ?thesis by (intro keptI) simp_all
qed

text \<open>A run in which fiber \<open>fa\<close> stays in its table and nobody runs it.\<close>

inductive idle_run :: "st_env \<Rightarrow> addr \<Rightarrow> st_state \<Rightarrow> st_state \<Rightarrow> bool" for env fa where
  idle_nil: "idle_run env fa s s"
| idle_step: "idle_run env fa s t \<Longrightarrow> st_step env t u \<Longrightarrow> idle u fa \<Longrightarrow> idle_run env fa s u"

lemma idle_run_kept:
  "idle_run env fa s s' \<Longrightarrow> st_env_ok env \<Longrightarrow> st_inv env s \<Longrightarrow> idle s fa \<Longrightarrow> st_inv env s' \<and> idle s' fa \<and> kept s s' fa"
proof (induction rule: idle_run.induct)
  case (idle_nil s)
  then show ?case by (simp add: kept_def)
next
  case (idle_step s t u)
  then show ?case using st_step_inv step_kept kept_trans by metis
qed

section \<open>Registers through a switch\<close>

lemma copy_regs_nth:
  "k < length dst \<Longrightarrow> copy_regs env src rs dst ! k = (if k \<in> slot_of env ` set rs then src ! k else dst ! k)"
proof (induction rs rule: rev_induct)
  case (snoc r rs)
  then show ?case
    using length_copy_regs [of env src rs dst]
    by (cases "k = slot_of env r") (simp_all add: copy_regs_def copy_reg_def)
qed (simp add: copy_regs_def)

lemma switch_regs_all: "r \<in> set switch_regs"
  by (cases r) (simp_all add: switch_regs_def)

lemma copy_regs_slot:
  "st_env_ok env \<Longrightarrow> length dst = nregs (kern env) \<Longrightarrow> copy_regs env src switch_regs dst ! slot_of env r = src ! slot_of env r"
  using switch_regs_all [of r] by (simp add: copy_regs_nth st_env_ok_def)

text \<open>What a successful switch leaves and what it takes up.\<close>

lemma switched_current:
  assumes "st_search_process env (sc_tgid d) s = Inr (Some pa)" "st_search_thread env (sc_pid d) pa s = Inr (Some ta)"
    "st_thrs s ta = Some t"
  shows "st_current env d (st_switched env d ta af fa s) = Some fa"
    "st_search_process env k (st_switched env d ta af fa s) = st_search_process env k s"
proof -
  let ?s = "st_switched env d ta af fa s"
  have tk: "st_tkey ?s = st_tkey s" using assms(3) by (auto simp: st_switched_def Let_def st_tkey_def fun_eq_iff)
  have same: "st_list ?s = st_list s" "st_procs ?s = st_procs s" "st_pkey ?s = st_pkey s"
    by (simp_all add: st_switched_def Let_def st_pkey_def fun_eq_iff)
  show sp: "st_search_process env k ?s = st_search_process env k s" for k by (simp add: st_search_process_def same)
  have "st_search_thread env (sc_pid d) pa ?s = Inr (Some ta)" using assms(2) by (simp add: st_search_thread_def same tk)
  then show "st_current env d ?s = Some fa" using assms(1) sp by (simp add: st_current_def) (simp add: st_switched_def Let_def)
qed

lemma switch_success:
  assumes i: "st_inv env s" and r: "st_switch env d s = Inr (0, s')"
  obtains pa p ta t af fo fa fn where "s' = st_switched env d ta af fa s" "st_current env d s = Some af" "st_current env d s' = Some fa"
    "st_search_process env (sc_tgid d) s = Inr (Some pa)" "st_search_process env (sc_tgid d) s' = Inr (Some pa)"
    "pa \<in> mem (st_list s)" "st_procs s pa = Some p" "af \<in> mem (st_fibers p)" "st_fibs s af = Some fo" "st_running fo"
    "fa \<in> mem (st_fibers p)" "st_fibs s fa = Some fn" "\<not> st_running fn" "st_index fn = int_cut (sc_arg d)"
  using i
proof (cases rule: st_switch_cases [where c = d])
  case refused
  then show thesis using r by simp
next
  case (found pa p ta t af fo fa fn)
  have s': "s' = st_switched env d ta af fa s" using r found(1) by (auto split: if_splits)
  have "st_current env d s = Some af" using found(2,6,8,9) by (simp add: st_current_def)
  with that [OF s' _ _ found(2) _ found(3,4,10-16)] switched_current(1) [OF found(2,6,8), of af fa]
    switched_current(2) [OF found(2,6,8), of "sc_tgid d" af fa] found(2) s' show thesis by simp
qed

text \<open>The fiber left is idle and holds the registers of the processor.\<close>

lemma left_idle:
  assumes i: "st_inv env s" and ok: "st_env_ok env" and r: "st_switch env c s = Inr (0, s')" and a: "st_current env c s = Some af"
  shows "st_inv env s'" "idle s' af" "\<exists>img. regs_img s' af = Some img \<and> (\<forall>r. img ! slot_of env r = st_uregs s (sc_pid c) ! slot_of env r)"
proof -
  show "st_inv env s'" using st_switch_ok [OF i r] by simp
  have "idle s' af \<and> (\<exists>img. regs_img s' af = Some img \<and> (\<forall>r. img ! slot_of env r = st_uregs s (sc_pid c) ! slot_of env r))"
    using i r
  proof (rule switch_success)
    fix pa p ta ao fo fa fn
    assume s': "s' = st_switched env c ta ao fa s" and "st_current env c s = Some ao"
      and pa: "pa \<in> mem (st_list s)" "st_procs s pa = Some p"
      and ao: "ao \<in> mem (st_fibers p)" "st_fibs s ao = Some fo" "st_running fo" and fa: "st_fibs s fa = Some fn" "\<not> st_running fn"
    then have [simp]: "ao = af" using a by simp
    have l: "af \<in> linked s" using pa ao by (auto simp: linked_def)
    have ne: "af \<noteq> fa" using ao fa by auto
    have "owns env s af" using i l by (auto simp: st_inv_def objects_ok_def)
    then obtain ro img where ro: "st_regs fo = Some ro" "st_pregs s ro = Some img" "length img = nregs (kern env)"
      using ao(2) by (auto simp: owns_def)
    have "regs_img s' af = Some (copy_regs env (st_uregs s (sc_pid c)) switch_regs img)"
      using ao(2) ro ne by (simp add: s' regs_img_def regs_of_def st_switched_def Let_def)
    moreover have "idle s' af" using l ne by (auto simp: idle_def s' st_switched_def Let_def linked_def)
    ultimately show ?thesis using copy_regs_slot [OF ok ro(3)] by simp
  qed
  then show "idle s' af" "\<exists>img. regs_img s' af = Some img \<and> (\<forall>r. img ! slot_of env r = st_uregs s (sc_pid c) ! slot_of env r)"
    by simp_all
qed

text \<open>The caller has the registers of the fiber it switched to.\<close>

lemma resumed:
  assumes i: "st_inv env s" and ok: "st_env_ok env" and r: "st_switch env d s = Inr (0, s')" and a: "st_current env d s' = Some fa"
    and img: "regs_img s fa = Some img"
  shows "st_uregs s' (sc_pid d) ! slot_of env r = img ! slot_of env r"
  using i r
proof (rule switch_success)
  fix ta af fb fn assume s: "s' = st_switched env d ta af fb s" "st_current env d s' = Some fb" "st_fibs s fb = Some fn"
  then have "st_uregs s' (sc_pid d) = copy_regs env img switch_regs (st_uregs s (sc_pid d))"
    using img a by (auto simp: st_switched_def Let_def regs_img_def regs_of_def split: option.splits)
  then show ?thesis using copy_regs_slot [OF ok st_uregs_length [OF i]] by simp
qed

end
