(* ===== verification/Kernel_Runs.thy ===== *)
theory Kernel_Runs
  imports Demo
begin

text \<open>
  Runs of the loaded module without any proviso on the single steps: \<open>kexec\<close>. The module hashes an index
  in two ways, and finds a fiber again only if both agree on its index (\<open>index_ok\<close>). Indexes are handed
  out in order, from 0 on, so a run that makes at most \<open>n\<close> fibers stays within the invariant when the
  first \<open>n\<close> indexes are of this kind.
\<close>

section \<open>Runs\<close>

inductive kexec :: "kenv \<Rightarrow> system \<Rightarrow> event list \<Rightarrow> system \<Rightarrow> bool" for env :: kenv where
  none: "kexec env z [] z"
| more: "kstep env z e z' \<Longrightarrow> kexec env z' es z'' \<Longrightarrow> kexec env z (e # es) z''"

fun makes_fiber :: "event \<Rightarrow> bool" where
  "makes_fiber (Ioctl CONVERTTOFIBER c) = True"
| "makes_fiber (Ioctl CREATEFIBER c) = True"
| "makes_fiber _ = False"

definition creations :: "event list \<Rightarrow> nat" where
  "creations es = length (filter makes_fiber es)"

lemma creations_simps [simp]: "creations [] = 0" "creations (e # es) = (if makes_fiber e then 1 else 0) + creations es"
  by (simp_all add: creations_def)

section \<open>The indexes handed out\<close>

text \<open>Every process has handed out at most \<open>n\<close> indexes.\<close>

definition handed_out :: "nat \<Rightarrow> (pid_t \<Rightarrow> fproc option) \<Rightarrow> bool" where
  "handed_out n m \<longleftrightarrow> (\<forall>tg q. m tg = Some q \<longrightarrow> (\<exists>j\<le>n. next_index q = of_nat j))"

lemma handed_out_upd:
  assumes "handed_out n m" and q: "\<exists>j\<le>n. next_index q = of_nat j"
  shows "handed_out (Suc n) (m(tg \<mapsto> q\<lparr>next_index := next_index q + 1, live := l, cur := u\<rparr>))"
    "handed_out (Suc n) (m(tg \<mapsto> q\<lparr>next_index := next_index q + 1, live := l\<rparr>))" "handed_out n (m(tg \<mapsto> q\<lparr>cur := u\<rparr>))"
    "handed_out (Suc n) (m(tg \<mapsto> q))"
proof -
  obtain j where j: "j \<le> n" "next_index q = of_nat j" using q by blast
  then have "Suc j \<le> Suc n" "next_index q + 1 = of_nat (Suc j)" by simp_all
  moreover have "\<exists>j\<le>Suc n. next_index p = of_nat j" if "m t = Some p" for t p
    using assms(1) that unfolding handed_out_def by (meson le_SucI)
  ultimately show "handed_out (Suc n) (m(tg \<mapsto> q\<lparr>next_index := next_index q + 1, live := l, cur := u\<rparr>))"
    "handed_out (Suc n) (m(tg \<mapsto> q\<lparr>next_index := next_index q + 1, live := l\<rparr>))"
    "handed_out (Suc n) (m(tg \<mapsto> q))"
    using j unfolding handed_out_def by (auto simp del: of_nat_Suc intro: le_SucI)
  show "handed_out n (m(tg \<mapsto> q\<lparr>cur := u\<rparr>))"
    using assms(1) j unfolding handed_out_def by auto
qed

lemma handed_out_Suc: "handed_out n m \<Longrightarrow> handed_out (Suc n) m"
  unfolding handed_out_def by (meson le_SucI)

lemma handed_out_spec:
  assumes h: "handed_out n m"
  shows "handed_out (Suc n) (snd (spec_convert c m))" "handed_out (Suc n) (snd (spec_create c m))"
    "handed_out n (snd (spec_switch c m))" "handed_out n (spec_exit c m)"
proof -
  note u = handed_out_upd [OF h] and s = handed_out_Suc [OF h]
  have q: "\<exists>j\<le>n. next_index q = of_nat j" if "m tg = Some q" for tg q using h that by (auto simp: handed_out_def)
  have "\<exists>j\<le>n. next_index no_fibers = of_nat j" by (auto simp: no_fibers_def)
  then show "handed_out (Suc n) (snd (spec_convert c m))" "handed_out (Suc n) (snd (spec_create c m))"
    "handed_out n (snd (spec_switch c m))"
    using u s q h by (auto simp: spec_convert_def spec_register_def spec_create_def spec_switch_def Let_def split: option.split)
  show "handed_out n (spec_exit c m)"
    using h q by (auto simp: spec_exit_def Let_def handed_out_def split: option.splits)
qed

lemma handed_out_event: "handed_out n m \<Longrightarrow> handed_out (n + (if makes_fiber e then 1 else 0)) (spec_event e m)"
  using handed_out_spec by (cases "(e, m)" rule: spec_event.cases) simp_all

section \<open>They stay within the invariant\<close>

lemma event_ok_handed:
  assumes "handed_out n (kabs env s)" "\<And>j. j < n + (if makes_fiber e then 1 else 0) \<Longrightarrow> index_ok env (of_nat j)"
  shows "event_ok env s e"
proof (cases "makes_fiber e")
  case True
  then have ix: "index_ok env (of_nat j)" if "j \<le> n" for j using assms(2) that by simp
  have "index_ok env (next_index q)" if "kabs env s tg = Some q" for tg q
    using assms(1) that ix unfolding handed_out_def by force
  moreover have "index_ok env 0" using ix [of 0] by simp
  ultimately have "next_index_ok env c s" for c by (rule_tac next_index_okI) auto
  then show ?thesis by (cases "(env, s, e)" rule: event_ok.cases) simp_all
next
  case False
  then show ?thesis by (cases "(env, s, e)" rule: event_ok.cases) simp_all
qed

lemma kexec_krun:
  assumes "kexec env z es z'" "kinv env (snd z)" "handed_out n (kabs env (snd z))"
    and "\<And>j. j < n + creations es \<Longrightarrow> index_ok env (of_nat j)"
  shows "krun env z es z'"
  using assms
proof (induction arbitrary: n rule: kexec.induct)
  case (more z e z' es z'')
  have ok: "event_ok env (snd z) e" by (rule event_ok_handed [OF more.prems(2)]) (use more.prems(3) in simp)
  have "handed_out (n + (if makes_fiber e then 1 else 0)) (kabs env (snd z'))"
    using kstep_abs [OF more.hyps(1) more.prems(1) ok] handed_out_event [OF more.prems(2)] by simp
  from more.IH [OF kstep_kinv [OF more.hyps(1) more.prems(1) ok] this] more.prems(3)
  show ?case by (intro krun.cons [OF ok more.hyps(1)]) (simp add: add.assoc)
qed (rule krun.nil)

lemma krun_reachable: "krun env z es z' \<Longrightarrow> reachable env z \<Longrightarrow> reachable env z'"
  by (induction rule: krun.induct) (auto intro: reachable.step)

lemma load_reachable:
  assumes "\<And>t. length (ur t) = nregs env" "kexec env (\<lambda>_. None, init_state ur uf) es z"
    "\<And>j. j < creations es \<Longrightarrow> index_ok env (of_nat j)"
  shows "reachable env z"
proof -
  have "kinv env (init_state ur uf)" using assms(1) by (rule kinv_init)
  moreover have "handed_out 0 (kabs env (init_state ur uf))" by (simp add: kabs_init handed_out_def)
  ultimately have "krun env (\<lambda>_. None, init_state ur uf) es z"
    using kexec_krun [OF assms(2), of 0] assms(3) by simp
  then show ?thesis using reachable.load [OF assms(1)] by (rule krun_reachable)
qed

section \<open>The run of the demonstration\<close>

definition demo_events :: "event list" where
  "demo_events = [Ioctl CONVERTTOFIBER (demo_call 7 7 0), Ioctl CREATEFIBER (demo_call 7 7 0),
     Ioctl SWITCHTOFIBER (demo_call 7 7 1), Ioctl SWITCHTOFIBER (demo_call 7 7 0)]"

lemma demo_exec: "kexec demo_env (\<lambda>_. None, demo0) demo_events (\<lambda>_. None, demo4)"
proof -
  have "kstep demo_env (\<lambda>_. None, demo0) (Ioctl CONVERTTOFIBER (demo_call 7 7 0)) (\<lambda>_. None, demo1)"
    "kstep demo_env (\<lambda>_. None, demo1) (Ioctl CREATEFIBER (demo_call 7 7 0)) (\<lambda>_. None, demo2)"
    "kstep demo_env (\<lambda>_. None, demo2) (Ioctl SWITCHTOFIBER (demo_call 7 7 1)) (\<lambda>_. None, demo3)"
    "kstep demo_env (\<lambda>_. None, demo3) (Ioctl SWITCHTOFIBER (demo_call 7 7 0)) (\<lambda>_. None, demo4)"
    using demo1 demo2 demo3 demo4 by (auto simp: kstep_ioctl_iff no_out_def)
  then show ?thesis
    unfolding demo_events_def
    by (rule kexec.more [OF _ kexec.more [OF _ kexec.more [OF _ kexec.more [OF _ kexec.none]]]])
qed

lemma demo_creations: "creations demo_events = 2" "j < 2 \<Longrightarrow> index_ok demo_env (of_nat j)"
  by (simp_all add: demo_events_def less_2_cases_iff) auto

end
