(* ===== verification/Single_Props.thy ===== *)
theory Single_Props
  imports Single_Runs Kernel_Runs
begin

text \<open>
  Properties of the earlier version of the module, with a concrete environment to instantiate them
  in: task 7 becomes fiber 0, creates fiber 1, switches to it and back. The states are the results of
  the module's operations; what the run shows to its client is computed on the abstract state.
\<close>

section \<open>A run\<close>

definition st_demo_env :: st_env where
  "st_demo_env = \<lparr>kern = demo_env, slot_of = (\<lambda>r. case r of P_r15 \<Rightarrow> 0 | P_r14 \<Rightarrow> 1 | P_r13 \<Rightarrow> 2 | P_r12 \<Rightarrow> 3 | P_bp \<Rightarrow> 4
       | P_bx \<Rightarrow> 5 | P_r11 \<Rightarrow> 6 | P_r10 \<Rightarrow> 7 | P_r9 \<Rightarrow> 8 | P_r8 \<Rightarrow> 9 | P_ax \<Rightarrow> 10 | P_cx \<Rightarrow> 11 | P_dx \<Rightarrow> 12 | P_si \<Rightarrow> 13
       | P_di \<Rightarrow> 14 | P_ip \<Rightarrow> 16 | P_flags \<Rightarrow> 18 | P_sp \<Rightarrow> 19),
     kmalloc_ok = (\<lambda>_. True),
     junk_fiber = (\<lambda>_. \<lparr>st_running = True, st_index = 77, st_regs = None, st_fls_bitmap = - 1, st_fls_array = replicate MAX_FLS 6,
       st_fpu = None\<rparr>),
     junk_thread = (\<lambda>_. \<lparr>st_tpid = 0, st_active = None\<rparr>),
     junk_process = (\<lambda>_. \<lparr>st_ppid = 0, st_fibers = hash_init, st_threads = hash_init, st_fiber_id = 9\<rparr>),
     junk_regs = (\<lambda>_. []), junk_fpu = (\<lambda>_. [0, 0])\<rparr>"

lemma st_demo_env_ok: "st_env_ok st_demo_env" "memory_ok st_demo_env" "kern st_demo_env = demo_env"
proof -
  have "inj (slot_of st_demo_env)"
  proof (rule injI)
    fix q r show "slot_of st_demo_env q = slot_of st_demo_env r \<Longrightarrow> q = r"
      by (cases q; cases r) (simp_all add: st_demo_env_def)
  qed
  moreover have "slot_of st_demo_env r < 21" for r by (cases r) (simp_all add: st_demo_env_def)
  ultimately show "st_env_ok st_demo_env"
    using demo_env_ok by (simp add: st_env_ok_def) (simp add: st_demo_env_def demo_env_def)
qed (simp_all add: st_demo_env_def memory_ok_def)

lemma st_demo_junk [simp]:
  "st_fls_bitmap (junk_fiber st_demo_env a) = - 1" "st_fls_array (junk_fiber st_demo_env a) = replicate MAX_FLS 6"
  by (simp_all add: st_demo_env_def)

definition st_demo_call :: "pid_t \<Rightarrow> pid_t \<Rightarrow> u64 \<Rightarrow> st_call" where
  "st_demo_call tg pid arg = \<lparr>sc_tgid = tg, sc_pid = pid, sc_arg = arg,
     create_buf = \<lparr>dwStackPointer = 0x7ff8, lpStartAddress = 0x400000, lpParameter = 42\<rparr>,
     set_buf = \<lparr>dwFlsIndex = 0, lpFlsData = 99\<rparr>\<rparr>"

lemma st_demo_call_simps [simp]:
  "sc_tgid (st_demo_call tg pid arg) = tg" "sc_pid (st_demo_call tg pid arg) = pid" "sc_arg (st_demo_call tg pid arg) = arg"
  "set_buf (st_demo_call tg pid arg) = \<lparr>dwFlsIndex = 0, lpFlsData = 99\<rparr>"
  by (simp_all add: st_demo_call_def)

definition st0 :: st_state where "st0 = st_init_state (\<lambda>t. replicate 21 (ucast t)) (\<lambda>_. [1, 2])"
definition st1 :: st_state where "st1 = then_state st0 (st_convert st_demo_env (st_demo_call 7 7 0) st0)"
definition st2 :: st_state where "st2 = then_state st1 (st_create st_demo_env (st_demo_call 7 7 0) st1)"
definition st3 :: st_state where "st3 = then_state st2 (st_switch st_demo_env (st_demo_call 7 7 1) st2)"
definition st4 :: st_state where "st4 = then_state st3 (st_switch st_demo_env (st_demo_call 7 7 0) st3)"

lemma st_abs_init: "st_abs env (st_init_state ur uf) = Map.empty"
proof -
  have "embed (kern env) 0 (st_init_state ur uf) = init_state ur uf" by (simp add: embed_def st_init_state_def init_state_def)
  then show ?thesis by (simp add: st_abs_def kabs_init)
qed

lemma st0: "st_inv st_demo_env st0" "st_abs st_demo_env st0 = Map.empty"
  unfolding st0_def by (rule st_inv_init, simp add: st_demo_env_ok, simp add: demo_env_def) (rule st_abs_init)

lemma st1: "st_convert st_demo_env (st_demo_call 7 7 0) st0 = Inr (0, st1) \<and> st_next_ok st_demo_env (st_demo_call 7 7 0) st0 \<and>
  st_inv st_demo_env st1 \<and> st_abs st_demo_env st1 = [7 \<mapsto> \<lparr>next_index = 1, live = {0}, cur = [7 \<mapsto> 0]\<rparr>]"
proof -
  obtain r s where r: "st_convert st_demo_env (st_demo_call 7 7 0) st0 = Inr (r, s)"
    using st_convert_total [OF st0(1) st_demo_env_ok(2)] by force
  have n: "st_next_ok st_demo_env (st_demo_call 7 7 0) st0" by (simp add: st_next_ok_def st0 st_demo_env_ok)
  show ?thesis
    using st_convert_ok [OF st_demo_env_ok(1) st0(1) n r] r n by (simp add: st1_def st0 spec_convert_def spec_register_def no_fibers_def)
qed

lemma st2: "st_create st_demo_env (st_demo_call 7 7 0) st1 = Inr (1, st2) \<and> st_next_ok st_demo_env (st_demo_call 7 7 0) st1 \<and>
  st_inv st_demo_env st2 \<and> st_abs st_demo_env st2 = [7 \<mapsto> \<lparr>next_index = 2, live = {0, 1}, cur = [7 \<mapsto> 0]\<rparr>]"
proof -
  have i: "st_inv st_demo_env st1" using st1 by simp
  obtain r s where r: "st_create st_demo_env (st_demo_call 7 7 0) st1 = Inr (r, s)"
    using st_create_total [OF i st_demo_env_ok(2)] by force
  have n: "st_next_ok st_demo_env (st_demo_call 7 7 0) st1" using st1 by (simp add: st_next_ok_def st_demo_env_ok)
  show ?thesis
    using st_create_ok [OF st_demo_env_ok(1) i n r] r n st1 by (auto simp: st2_def spec_create_def)
qed

lemma st3: "st_switch st_demo_env (st_demo_call 7 7 1) st2 = Inr (0, st3) \<and> st_inv st_demo_env st3 \<and>
  st_abs st_demo_env st3 = [7 \<mapsto> \<lparr>next_index = 2, live = {0, 1}, cur = [7 \<mapsto> 1]\<rparr>]"
proof -
  have i: "st_inv st_demo_env st2" using st2 by simp
  obtain r s where r: "st_switch st_demo_env (st_demo_call 7 7 1) st2 = Inr (r, s)"
    using st_switch_total [OF i st_demo_env_ok(2)] by force
  show ?thesis using st_switch_ok [OF i r] r st2 by (auto simp: st3_def spec_switch_def int_cut_def)
qed

lemma st4: "st_switch st_demo_env (st_demo_call 7 7 0) st3 = Inr (0, st4) \<and> st_inv st_demo_env st4 \<and>
  st_abs st_demo_env st4 = [7 \<mapsto> \<lparr>next_index = 2, live = {0, 1}, cur = [7 \<mapsto> 0]\<rparr>]"
proof -
  have i: "st_inv st_demo_env st3" using st3 by simp
  obtain r s where r: "st_switch st_demo_env (st_demo_call 7 7 0) st3 = Inr (r, s)"
    using st_switch_total [OF i st_demo_env_ok(2)] by force
  show ?thesis using st_switch_ok [OF i r] r st3 by (auto simp: st4_def spec_switch_def int_cut_def)
qed

lemma st_demo_reachable: "st_reachable st_demo_env st2" "st_reachable st_demo_env st3" "st_reachable st_demo_env st1"
  "st_reachable st_demo_env st0"
proof -
  show 0: "st_reachable st_demo_env st0"
    unfolding st0_def by (rule st_reachable.st_load) (simp add: st_demo_env_ok demo_env_def)
  have "st_step st_demo_env st0 st1" using st1 by (intro st_step.st_command [where cmd = CONVERTTOFIBER]) auto
  from st_next [OF 0 this] show 1: "st_reachable st_demo_env st1" .
  have "st_step st_demo_env st1 st2" using st2 by (intro st_step.st_command [where cmd = CREATEFIBER]) auto
  from st_next [OF 1 this] show 2: "st_reachable st_demo_env st2" .
  have "st_next_ok st_demo_env (st_demo_call 7 7 1) st2" using st2 by (simp add: st_next_ok_def st_demo_env_ok)
  then have "st_step st_demo_env st2 st3" using st3 by (intro st_step.st_command [where cmd = SWITCHTOFIBER]) auto
  from st_next [OF 2 this] show "st_reachable st_demo_env st3" .
qed

section \<open>Registers\<close>

text \<open>C15. In the earlier version too a fiber is resumed where it was left: every general register that
  \<^verbatim>\<open>SWITCHTOFIBER\<close> names is back in the task that switches to it next, however many commands and
  exits came in between while the fiber stayed in its table and nobody ran it.\<close>

theorem st_context_round_trip:
  assumes "st_env_ok env" "st_reachable env s"
    and "st_switch env c s = Inr (0, s1)" "st_current env c s = Some fa"
    and "idle_run env fa s1 s2"
    and "st_switch env d s2 = Inr (0, s3)" "st_current env d s3 = Some fa"
  shows "st_uregs s3 (sc_pid d) ! slot_of env r = st_uregs s (sc_pid c) ! slot_of env r"
proof -
  have i: "st_inv env s" using st_reachable_inv assms(1,2) by blast
  note l = left_idle [OF i assms(1,3,4)]
  obtain img where img: "regs_img s1 fa = Some img" "img ! slot_of env r = st_uregs s (sc_pid c) ! slot_of env r"
    using l(3) by blast
  have "st_inv env s2 \<and> kept s1 s2 fa" using idle_run_kept [OF assms(5,1) l(1,2)] by simp
  then show ?thesis using resumed [OF _ assms(1,6,7), of img r] img by (simp add: kept_def)
qed

theorem st_context_round_trip_witness: "st_uregs st4 7 ! slot_of st_demo_env P_ip = st_uregs st2 7 ! slot_of st_demo_env P_ip"
proof -
  have sw: "st_switch st_demo_env (st_demo_call 7 7 1) st2 = Inr (0, st3)" "st_switch st_demo_env (st_demo_call 7 7 0) st3 = Inr (0, st4)"
    and i: "st_inv st_demo_env st2" "st_inv st_demo_env st3" using st2 st3 st4 by simp_all
  show ?thesis
    using i(1) sw(1)
  proof (rule switch_success)
    fix pa p ta af fo fa fn
    assume s3: "st3 = st_switched st_demo_env (st_demo_call 7 7 1) ta af fa st2"
      and af: "st_current st_demo_env (st_demo_call 7 7 1) st2 = Some af" "af \<in> mem (st_fibers p)" "st_fibs st2 af = Some fo" "st_running fo"
      and pa: "st_search_process st_demo_env (sc_tgid (st_demo_call 7 7 1)) st3 = Inr (Some pa)" "pa \<in> mem (st_list st2)" "st_procs st2 pa = Some p"
        "st_search_process st_demo_env (sc_tgid (st_demo_call 7 7 1)) st2 = Inr (Some pa)"
      and fa: "st_fibs st2 fa = Some fn" "\<not> st_running fn"
    have "st_abs st_demo_env st2 7 = Some (st_aproc st_demo_env st2 p)"
      using i(1) pa(3,4) by (cases rule: st_process_cases [where k = 7]) auto
    then have "st_aproc st_demo_env st2 p = \<lparr>next_index = 2, live = {0, 1}, cur = [7 \<mapsto> 0]\<rparr>" using st2 by simp
    then have x: "st_index fo = 0" using st_running_iff [OF i(1) pa(2,3) af(2,3)] af(4) by simp
    have f3: "st_fibs st3 af = Some (fo\<lparr>st_running := False\<rparr>)"
      using af fa by (auto simp: s3 st_switched_def Let_def)
    show ?thesis
      using i(2) sw(2)
    proof (rule switch_success)
      fix pb q fb fm
      assume c4: "st_current st_demo_env (st_demo_call 7 7 0) st4 = Some fb"
        and pb: "st_search_process st_demo_env (sc_tgid (st_demo_call 7 7 0)) st3 = Inr (Some pb)" "pb \<in> mem (st_list st3)" "st_procs st3 pb = Some q"
        and fb: "fb \<in> mem (st_fibers q)" "st_fibs st3 fb = Some fm" "st_index fm = int_cut (sc_arg (st_demo_call 7 7 0))"
      have "pb = pa" using pa(1) pb(1) by simp
      then have "q = p" using pb(3) pa(3) by (simp add: s3 st_switched_def Let_def)
      then have "fb = af" using st_index_inj [OF i(2) pb(2,3) fb(1,2) _ f3] fb(3) af(2) x by (simp add: int_cut_def)
      then show ?thesis
        using st_context_round_trip [OF st_demo_env_ok(1) st_demo_reachable(1) sw(1) af(1) idle_nil sw(2), of P_ip] c4 by simp
    qed
  qed
qed

section \<open>The two versions\<close>









section \<open>Commands and the probe return\<close>

text \<open>C16. While memory lasts no command of the earlier version faults for a caller that names slots inside
  the array and has a free one, and neither does the probe.\<close>

theorem st_commands_return:
  assumes "st_env_ok env" "st_reachable env s" "memory_ok env" "st_call_safe env cmd c s"
  shows "(\<exists>r s'. st_ioctl env cmd c s = Inr (r, s')) \<and> (\<exists>r s'. st_Pre_Handler env d s = Inr (r, s'))"
proof -
  have i: "st_inv env s" using st_reachable_inv assms(1,2) by blast
  have "\<exists>r s'. st_Pre_Handler env d s = Inr (r, s')" using i by (cases rule: st_exit_cases [where c = d]) auto
  then show ?thesis using st_ioctl_total [OF i assms(3,4)] by simp
qed

theorem st_commands_return_witness: "\<exists>r s'. st_ioctl st_demo_env FLSFREE (st_demo_call 7 7 3) st3 = Inr (r, s')"
  using st_commands_return [OF st_demo_env_ok(1) st_demo_reachable(2) st_demo_env_ok(2), of FLSFREE "st_demo_call 7 7 3"]
  by (simp add: slot_inside_def MAX_FLS_def)

section \<open>What goes wrong\<close>

text \<open>C19. A switch loses the FX registers: the target gets a new FX image before it is read, so the task
  goes on with whatever the allocator's memory held, never with what \<^verbatim>\<open>copy_fxregs_to_kernel\<close>
  saved when the fiber was left.\<close>

theorem st_switch_loses_fx:
  assumes "st_env_ok env" "st_reachable env s" "st_switch env c s = Inr (0, s')"
  shows "st_ufx s' (sc_pid c) = fxrstor (kern env) (junk_fpu env (st_brk s))"
  using st_reachable_inv [OF assms(2,1)] assms(3)
  by (rule switch_success) (simp add: st_switched_def Let_def)

theorem st_switch_loses_fx_witness: "st_ufx st4 7 = [0, 0]"
proof -
  have "st_switch st_demo_env (st_demo_call 7 7 0) st3 = Inr (0, st4)" using st4 by simp
  from st_switch_loses_fx [OF st_demo_env_ok(1) st_demo_reachable(2) this]
  show ?thesis by (simp add: st_demo_env_ok) (simp add: st_demo_env_def demo_env_def)
qed

lemma registered_current:
  assumes "st_search_process env (sc_tgid c) s = Inr (Some pa)" "st_procs s pa = Some p"
  shows "st_current env c (registered env c fa pa f p s) = Some fa"
    "st_fibs (registered env c fa pa f p s) fa = Some (f\<lparr>st_regs := Some (st_brk s + 1), st_index := st_fiber_id p,
       st_running := True, st_fpu := Some (st_brk s + 2)\<rparr>)"
proof -
  let ?s = "registered env c fa pa f p s"
  have l: "st_list ?s = st_list s" and pk: "st_pkey ?s = st_pkey s"
    using assms(2) by (auto simp: registered_def Let_def st_pkey_def fun_eq_iff)
  have "st_search_process env (sc_tgid c) ?s = Inr (Some pa)" using assms(1) by (simp add: st_search_process_def l pk)
  moreover have "st_search_thread env (sc_pid c) pa ?s = Inr (Some (st_brk s))"
    by (simp add: st_search_thread_def registered_def Let_def hash_add_def st_tkey_def)
  moreover have "st_thrs ?s (st_brk s) = Some ((junk_thread env (st_brk s))\<lparr>st_tpid := sc_pid c, st_active := Some fa\<rparr>)"
    by (simp add: registered_def Let_def)
  ultimately show "st_current env c ?s = Some fa" by (simp add: st_current_def)
qed (simp add: registered_def Let_def)

lemma st_current_same: "sc_tgid d = sc_tgid c \<Longrightarrow> sc_pid d = sc_pid c \<Longrightarrow> st_current env d s = st_current env c s"
  unfolding st_current_def by (erule ssubst)+ (rule refl)

text \<open>The fiber of a thread that has just been converted is the one allocated first.\<close>

lemma convert_current:
  assumes i: "st_inv env s" and r: "st_convert env c s = Inr (r, s')" "r \<noteq> - 1"
  shows "st_current env c s' = Some (st_brk s)"
    "\<exists>x i y. st_fibs s' (st_brk s) = Some ((junk_fiber env (st_brk s))\<lparr>st_regs := x, st_index := i, st_running := True, st_fpu := y\<rparr>)"
proof -
  obtain fiber t where t: "kmalloc_fiber env s = (fiber, t)" by (cases "kmalloc_fiber env s")
  note f = kmalloc_fiber_ok [OF i t]
  have fb: "fiber = Some fa \<Longrightarrow> fa = st_brk s" for fa using t by (auto simp: kmalloc_fiber_def Let_def split: if_splits)
  have R: "st_current env c s' = Some (st_brk s) \<and> (\<exists>x i y. st_fibs s' (st_brk s) =
      Some ((junk_fiber env (st_brk s))\<lparr>st_regs := x, st_index := i, st_running := True, st_fpu := y\<rparr>))"
    if m: "st_convert_thread env c fiber pa u = Inr (r, s')" and u: "st_inv env u" "pa \<in> mem (st_list u)" "st_procs u pa = Some p"
      and sp: "st_search_process env (sc_tgid c) u = Inr (Some pa)" and new: "\<And>fa. fiber = Some fa \<Longrightarrow> st_fibs u fa = Some (junk_fiber env fa)"
    for pa p u
    using u
  proof (cases rule: st_thread_cases [where k = "sc_pid c"])
    case (Some ta v fa f)
    then show ?thesis using m r(2) by (simp add: st_convert_thread_def)
  next
    case None
    then obtain fa where fa: "fiber = Some fa" "s' = registered env c fa pa (junk_fiber env fa) p u"
      using m st_convert_thread_eq [OF u(3) None(1) new] by (auto split: option.splits if_splits)
    then show ?thesis using registered_current [OF sp u(3)] fb [OF fa(1)] by blast
  qed
  have "st_current env c s' = Some (st_brk s) \<and> (\<exists>x i y. st_fibs s' (st_brk s) =
      Some ((junk_fiber env (st_brk s))\<lparr>st_regs := x, st_index := i, st_running := True, st_fpu := y\<rparr>))"
    using f(1)
  proof (cases rule: st_process_cases [where k = "sc_tgid c"])
    case (Some pa p)
    have "st_convert_thread env c fiber pa t = Inr (r, s')" using r(1) t Some(1) by (simp add: st_convert_def)
    then show ?thesis by (rule R [OF _ f(1) Some(2,3,1)]) (use f(4) in simp)
  next
    case None
    let ?l = "st_link_process env (sc_tgid c) t"
    note l = st_link_process_ok [OF f(1) None(3)]
    have m: "st_convert_thread env c fiber (st_brk t) ?l = Inr (r, s')"
      using r(1) t None(1) by (auto simp: st_convert_def kmalloc_process_def st_link_process_def Let_def split: if_splits)
    have sp: "st_search_process env (sc_tgid c) ?l = Inr (Some (st_brk t))"
      by (simp add: st_search_process_def st_link_process_def hash_add_def st_pkey_def)
    show ?thesis by (rule R [OF m l(1) _ _ sp]) (use f(4) in \<open>simp_all add: st_link_process_def\<close>)
  qed
  then show "st_current env c s' = Some (st_brk s)"
    "\<exists>x i y. st_fibs s' (st_brk s) = Some ((junk_fiber env (st_brk s))\<lparr>st_regs := x, st_index := i, st_running := True, st_fpu := y\<rparr>)"
    by simp_all
qed

text \<open>The commands for local storage act on the fiber the caller runs.\<close>

lemma with_current:
  assumes i: "st_inv env s" and f: "st_current env c s = Some fa" "st_fibs s fa = Some f"
  shows "st_with_active env c s np nt body = body fa f" "length (st_fls_array f) = MAX_FLS"
proof -
  have "st_with_active env c s np nt body = body fa f \<and> fa \<in> linked s"
    using i
  proof (cases rule: st_process_cases [where k = "sc_tgid c"])
    case None
    then show ?thesis using f(1) by (simp add: st_current_def)
  next
    case (Some pa p)
    note pa = this
    show ?thesis
      using i pa(2,3)
    proof (cases rule: st_thread_cases [where k = "sc_pid c"])
      case None
      then show ?thesis using f(1) pa(1) by (simp add: st_current_def)
    next
      case (Some ta t fb g)
      then show ?thesis using f pa by (auto simp: st_current_def st_with_active_def linked_def)
    qed
  qed
  moreover from this have "owns env s fa" using i by (simp add: st_inv_def objects_ok_def)
  ultimately show "st_with_active env c s np nt body = body fa f" "length (st_fls_array f) = MAX_FLS"
    using f(2) by (auto simp: owns_def)
qed

text \<open>Local storage of a converted thread is not initialised: \<^verbatim>\<open>FLSGETVALUE\<close> with a slot that was
  never allocated returns what the allocator's memory held there, when the word that became the bitmap
  had the bit.\<close>

theorem st_fls_leaks_memory:
  assumes "st_env_ok env" "st_reachable env s" "st_next_ok env c s" "st_convert env c s = Inr (r, s')" "r \<noteq> - 1"
    and "sc_tgid d = sc_tgid c" "sc_pid d = sc_pid c"
    and "slot_inside (sc_arg d)" "unat (sc_arg d) < 64" "bit (st_fls_bitmap (junk_fiber env (st_brk s))) (unat (sc_arg d))"
  shows "st_fls_get env d s' = Inr (st_fls_array (junk_fiber env (st_brk s)) ! unat (sc_arg d), s')"
proof -
  have i: "st_inv env s" using st_reachable_inv assms(1,2) by blast
  have i': "st_inv env s'" using st_convert_ok [OF assms(1) i assms(3,4)] by simp
  note cc = convert_current [OF i assms(4,5)]
  have "st_current env d s' = Some (st_brk s)" using cc(1) st_current_same [OF assms(6,7)] by simp
  moreover obtain x j y where
    "st_fibs s' (st_brk s) = Some ((junk_fiber env (st_brk s))\<lparr>st_regs := x, st_index := j, st_running := True, st_fpu := y\<rparr>)"
    using cc(2) by blast
  moreover have "length (st_fls_array (junk_fiber env (st_brk s))) = MAX_FLS" using assms(1) by (simp add: st_env_ok_def)
  moreover have "unat (sc_arg d) div BITS_PER_LONG = 0" "unat (sc_arg d) mod BITS_PER_LONG = unat (sc_arg d)"
    using assms(9) by (simp_all add: BITS_PER_LONG_def)
  ultimately show ?thesis
    using with_current(1) [OF i', of d] assms(8,10)
    by (simp add: st_fls_get_def st_test_bit_def st_bit_word_def st_get_word_def st_fls_load_def slot_inside_def)
qed

theorem st_fls_leaks_memory_witness: "st_fls_get st_demo_env (st_demo_call 7 7 1) st1 = Inr (6, st1)"
proof -
  from st_fls_leaks_memory [OF st_demo_env_ok(1) st_demo_reachable(4), of "st_demo_call 7 7 0" 0 st1 "st_demo_call 7 7 1"] st1
  show ?thesis by (simp add: slot_inside_def MAX_FLS_def)
qed

lemma flip_low: "\<not> bit (w :: u64) 0 \<Longrightarrow> flip_bit 0 w = w + 1"
proof -
  assume "\<not> bit w 0"
  then have "and w 1 = 0" by (intro bit_eqI) (auto simp: bit_simps intro!: gr0I)
  then have "w + 1 = or w 1" by (rule disjunctive_add_eq_or)
  also have "... = flip_bit 0 w" using \<open>\<not> bit w 0\<close> by (intro bit_eqI) (auto simp: bit_simps)
  finally show ?thesis by simp
qed

text \<open>The 65th slot overwrites the first: the bitmap is one word and the array lies behind it, so with
  64 slots in use \<^verbatim>\<open>FLSALLOC\<close> takes bit 0 of the value stored in slot 0 for the mark of slot 64,
  sets it and returns 64.\<close>

theorem st_fls_alloc_corrupts:
  assumes "st_env_ok env" "st_reachable env s" "st_caller env c s = Some f"
    and "st_fls_bitmap f = - 1" "\<not> bit (st_fls_array f ! 0) 0"
  shows "\<exists>s' f'. st_fls_alloc env c s = Inr (64, s') \<and> st_caller env c s' = Some f' \<and>
    st_fls_array f' = (st_fls_array f)[0 := st_fls_array f ! 0 + 1, 64 := 0]"
proof -
  have i: "st_inv env s" using st_reachable_inv assms(1,2) by blast
  obtain fa where fa: "st_current env c s = Some fa" "st_fibs s fa = Some f"
    using assms(3) by (auto simp: st_caller_def split: option.splits)
  have l: "length (st_fls_array f) = MAX_FLS" by (rule with_current(2) [OF i fa])
  have "take 63 (st_fls_array f) = st_fls_array f ! 0 # take 62 (tl (st_fls_array f))"
    using l by (cases "st_fls_array f") (simp_all add: MAX_FLS_def)
  moreover have "ffz (st_fls_array f ! 0) = Some 0" "ffz (st_fls_bitmap f) = None"
    using assms(4,5) by (simp_all add: ffz_Some_iff ffz_None_iff)
  ultimately have n: "st_find_first_zero f = 64"
    by (simp add: st_find_first_zero_def MAX_FLS_def BITS_PER_LONG_def)
  let ?g = "f\<lparr>st_fls_array := (st_fls_array f)[0 := st_fls_array f ! 0 + 1]\<rparr>"
  let ?h = "f\<lparr>st_fls_array := (st_fls_array f)[0 := st_fls_array f ! 0 + 1, 64 := 0]\<rparr>"
  let ?s = "s\<lparr>st_fibs := (st_fibs s)(fa \<mapsto> ?h)\<rparr>"
  have "flip_bit 0 (st_fls_array f ! 0) = st_fls_array f ! 0 + 1" by (rule flip_low [OF assms(5)])
  then have "st_change_bit 64 f = Inr ?g"
    using l by (simp add: st_change_bit_def st_bit_word_def st_get_word_def st_put_word_def BITS_PER_LONG_def MAX_FLS_def)
  moreover have "st_fls_store 64 0 ?g = Inr ?h" using l by (simp add: st_fls_store_def MAX_FLS_def)
  ultimately have "st_fls_alloc env c s = Inr (64, ?s)"
    using with_current(1) [OF i fa] fa(2) by (simp add: st_fls_alloc_def n)
  moreover have "st_pkey ?s = st_pkey s" "st_tkey ?s = st_tkey s" by (simp_all add: st_pkey_def st_tkey_def fun_eq_iff)
  then have "st_current env c ?s = st_current env c s"
    by (simp add: st_current_def st_search_process_def st_search_thread_def split: sum.split option.split)
  then have "st_caller env c ?s = Some ?h" using fa(1) by (simp add: st_caller_def)
  ultimately show ?thesis by (intro exI [of _ ?s] exI [of _ ?h]) simp
qed

lemma st1_current:
  obtains fa f where "st_current st_demo_env (st_demo_call 7 7 n) st1 = Some fa" "st_fibs st1 fa = Some f" "st_fls_bitmap f = - 1"
    "st_fls_array f = replicate MAX_FLS 6"
proof -
  have c: "st_convert st_demo_env (st_demo_call 7 7 0) st0 = Inr (0, st1)" using st1 by simp
  have "st_current st_demo_env (st_demo_call 7 7 n) st1 = st_current st_demo_env (st_demo_call 7 7 0) st1"
    by (rule st_current_same) simp_all
  then show thesis using convert_current [OF st0(1) c] that by auto
qed

theorem st_fls_alloc_corrupts_witness:
  "\<exists>s'. st_fls_alloc st_demo_env (st_demo_call 7 7 0) st1 = Inr (64, s')"
proof -
  obtain fa f where f: "st_current st_demo_env (st_demo_call 7 7 0) st1 = Some fa" "st_fibs st1 fa = Some f"
    "st_fls_bitmap f = - 1" "st_fls_array f = replicate MAX_FLS 6" by (rule st1_current)
  then have "st_caller st_demo_env (st_demo_call 7 7 0) st1 = Some f" by (simp add: st_caller_def)
  from st_fls_alloc_corrupts [OF st_demo_env_ok(1) st_demo_reachable(3) this f(3)] f(4) show ?thesis
    by (auto simp: MAX_FLS_def bit_simps)
qed

end
