(* ===== verification/Single_Library.thy ===== *)
theory Single_Library
  imports Single_Props Fiber_Library
begin

text \<open>
  \<^verbatim>\<open>single_thread/Library/function_calls.c\<close>: the user-space interface of the earlier version. The
  stack a fiber gets is not checked for NULL, and \<^verbatim>\<open>FlsGetValue\<close> takes the value from the result
  of \<^verbatim>\<open>ioctl\<close> itself.
\<close>

section \<open>Library state and system calls\<close>

text \<open>As in the later version the library keeps the descriptor, \<^verbatim>\<open>done\<close> and (here) the number of
  argument structures in use. \<open>su_stack\<close> is what the variable \<^verbatim>\<open>stack\<close> holds after
  \<^verbatim>\<open>posix_memalign\<close>: the block, or whatever it held when the call failed.\<close>

record st_ucall =
  su_call :: st_call
  su_open :: int
  su_malloc :: bool
  su_stack :: u64

definition st_init_file :: "st_ucall \<Rightarrow> lib \<Rightarrow> lib" where
  "st_init_file uc l = (let l = l\<lparr>fd := su_open uc\<rparr> in if fd l = - 1 then l else l\<lparr>opened := True\<rparr>)"

definition st_ensure_open :: "st_ucall \<Rightarrow> lib \<Rightarrow> lib" where
  "st_ensure_open uc l = (if \<not> opened l then st_init_file uc l else l)"

definition st_sys_ioctl :: "st_env \<Rightarrow> lib \<Rightarrow> ioctl_cmd \<Rightarrow> st_call \<Rightarrow> st_state \<Rightarrow> fault + u32 \<times> st_state" where
  "st_sys_ioctl env l cmd c s =
     (if fd l = - 1 then Inr (- 1, s) else kbind (st_ioctl env cmd c s) (\<lambda>(r, s). Inr (libc_result r, s)))"

section \<open>The functions\<close>

definition st_ConvertThreadToFiber :: "st_env \<Rightarrow> st_ucall \<Rightarrow> lib \<Rightarrow> st_state \<Rightarrow> fault + (u64 \<times> lib) \<times> st_state" where
  "st_ConvertThreadToFiber env uc l s =
     (let l = st_ensure_open uc l in
      kbind (st_sys_ioctl env l CONVERTTOFIBER (su_call uc) s) (\<lambda>(ret, s). Inr ((scast ret, l), s)))"

definition st_CreateFiber :: "st_env \<Rightarrow> st_ucall \<Rightarrow> u64 \<Rightarrow> u64 \<Rightarrow> u64 \<Rightarrow> lib \<Rightarrow> st_state \<Rightarrow> fault + (u64 \<times> lib) \<times> st_state" where
  "st_CreateFiber env uc dwStackSize start param l s =
     (if \<not> su_malloc uc then Inl NullDeref
      else
        let l = l\<lparr>args_live := Suc (args_live l)\<rparr>;
            args = \<lparr>dwStackPointer = su_stack uc + dwStackSize - 8, lpStartAddress = start, lpParameter = param\<rparr>;
            l = st_ensure_open uc l in
        kbind (st_sys_ioctl env l CREATEFIBER ((su_call uc)\<lparr>create_buf := args\<rparr>) s)
          (\<lambda>(ret, s). Inr ((scast ret, l\<lparr>args_live := args_live l - 1\<rparr>), s)))"

definition st_SwitchToFiber :: "st_env \<Rightarrow> st_ucall \<Rightarrow> u64 \<Rightarrow> lib \<Rightarrow> st_state \<Rightarrow> fault + lib \<times> st_state" where
  "st_SwitchToFiber env uc lpFiber l s =
     (let l = st_ensure_open uc l in
      kbind (st_sys_ioctl env l SWITCHTOFIBER ((su_call uc)\<lparr>sc_arg := lpFiber\<rparr>) s) (\<lambda>(_, s). Inr (l, s)))"

definition st_FlsAlloc :: "st_env \<Rightarrow> st_ucall \<Rightarrow> lib \<Rightarrow> st_state \<Rightarrow> fault + (u64 \<times> lib) \<times> st_state" where
  "st_FlsAlloc env uc l s =
     (let l = st_ensure_open uc l in
      kbind (st_sys_ioctl env l FLSALLOC (su_call uc) s) (\<lambda>(ret, s). Inr ((scast ret, l), s)))"

definition st_FlsFree :: "st_env \<Rightarrow> st_ucall \<Rightarrow> u64 \<Rightarrow> lib \<Rightarrow> st_state \<Rightarrow> fault + (bool \<times> lib) \<times> st_state" where
  "st_FlsFree env uc i l s =
     (let l = st_ensure_open uc l in
      kbind (st_sys_ioctl env l FLSFREE ((su_call uc)\<lparr>sc_arg := i\<rparr>) s)
        (\<lambda>(ret, s). Inr ((if ret = - 1 then False else True, l), s)))"

definition st_FlsGetValue :: "st_env \<Rightarrow> st_ucall \<Rightarrow> u64 \<Rightarrow> lib \<Rightarrow> st_state \<Rightarrow> fault + (u64 \<times> lib) \<times> st_state" where
  "st_FlsGetValue env uc i l s =
     (let l = st_ensure_open uc l in
      kbind (st_sys_ioctl env l FLSGETVALUE ((su_call uc)\<lparr>sc_arg := i\<rparr>) s)
        (\<lambda>(ret, s). Inr ((if ret = - 1 then - 1 else scast ret, l), s)))"

definition st_FlsSetValue :: "st_env \<Rightarrow> st_ucall \<Rightarrow> u64 \<Rightarrow> u64 \<Rightarrow> lib \<Rightarrow> st_state \<Rightarrow> fault + lib \<times> st_state" where
  "st_FlsSetValue env uc i v l s =
     (if \<not> su_malloc uc then Inl NullDeref
      else
        let l = l\<lparr>args_live := Suc (args_live l)\<rparr>;
            args = \<lparr>dwFlsIndex = i, lpFlsData = v\<rparr>;
            l = st_ensure_open uc l in
        kbind (st_sys_ioctl env l FLSSETVALUE ((su_call uc)\<lparr>set_buf := args\<rparr>) s)
          (\<lambda>(_, s). Inr (l\<lparr>args_live := args_live l - 1\<rparr>, s)))"

section \<open>Values through the library\<close>

definition st_usable :: "st_ucall \<Rightarrow> lib \<Rightarrow> bool" where
  "st_usable uc l \<longleftrightarrow> (if opened l then fd l \<noteq> - 1 else su_open uc \<noteq> - 1)"

lemma st_usable_open:
  "st_usable uc l \<Longrightarrow> fd (st_ensure_open uc l) \<noteq> - 1 \<and> opened (st_ensure_open uc l)"
  "st_usable uc (l\<lparr>args_live := n\<rparr>) = st_usable uc l"
  "opened l \<Longrightarrow> st_usable uc l \<Longrightarrow> fd l \<noteq> - 1" "opened l \<Longrightarrow> st_ensure_open uc l = l"
  by (simp_all add: st_usable_def st_ensure_open_def st_init_file_def Let_def)

text \<open>What a user reads back of a value stored in an allocated slot.\<close>

definition value_read :: "u64 \<Rightarrow> u64" where
  "value_read v = (if - 4095 \<le> sint v \<and> sint v < 0 then - 1 else scast (ucast v :: u32))"

lemma scast_ucast_iff: "scast (ucast (v::64 word) :: 32 word) = v \<longleftrightarrow> - (2 ^ 31) \<le> sint v \<and> sint v < 2 ^ 31"
proof -
  let ?x = "signed_take_bit 31 (sint v)"
  have "sint (ucast v :: 32 word) = signed_take_bit 31 (uint v)" by (simp add: signed_ucast_eq)
  also have "... = ?x"
    by (simp add: sint_uint signed_take_bit_signed_take_bit)
  finally have w: "scast (ucast v :: 32 word) = (word_of_int ?x :: 64 word)" by (metis scast_eq)
  have r: "- (2 ^ 31) \<le> ?x" "?x < 2 ^ 31" using signed_take_bit_int_greater_eq_minus_exp [of 31 "sint v"] signed_take_bit_int_less_exp [of 31 "sint v"] by simp_all
  have "signed_take_bit 63 ?x = ?x" by (rule signed_take_bit_int_eq_self) (use r in simp_all)
  then have "sint (word_of_int ?x :: 64 word) = ?x" by (simp add: signed_of_int)
  moreover have "word_of_int (sint v) = v" by (rule trans [OF sym [OF scast_eq] scast_id])
  ultimately have "word_of_int ?x = v \<longleftrightarrow> ?x = sint v" by metis
  also have "... \<longleftrightarrow> - (2 ^ 31) \<le> sint v \<and> sint v < 2 ^ 31" by (simp add: signed_take_bit_int_eq_self_iff)
  finally show ?thesis by (simp add: w)
qed

lemma value_read_iff:
  "value_read v = v \<longleftrightarrow> v = - 1 \<or> - (2 ^ 31) \<le> sint v \<and> sint v < - 4095 \<or> 0 \<le> sint v \<and> sint v < 2 ^ 31"
proof (cases "- 4095 \<le> sint v \<and> sint v < 0")
  case False
  moreover have "v \<noteq> - 1" using False by auto
  ultimately show ?thesis by (auto simp: value_read_def scast_ucast_iff)
qed (auto simp: value_read_def)

lemma st_fls_set_allocated:
  assumes i: "st_inv env s" and m: "memory_ok env" and f: "st_current env c s = Some fa" "st_fibs s fa = Some f"
    and k: "k < 64" "bit (st_fls_bitmap f) k" and c: "set_buf c = \<lparr>dwFlsIndex = of_nat k, lpFlsData = v\<rparr>"
  shows "\<exists>s'. st_fls_set env c s = Inr (0, s') \<and> st_current env c s' = Some fa \<and>
    st_fibs s' fa = Some (f\<lparr>st_fls_array := (st_fls_array f)[k := v]\<rparr>)"
proof -
  obtain t where t: "st_kmalloc_args env s = (True, t)" and tf: "st_fibs t = st_fibs s" "st_current env c t = st_current env c s"
    using m by (simp add: st_kmalloc_args_def memory_ok_def Let_def st_current_def st_search_process_def st_search_thread_def
        st_pkey_def [abs_def] st_tkey_def [abs_def] split: sum.split option.split)
  have j: "st_inv env t" using st_kmalloc_args_ok(1) [OF i] t by simp
  have n: "k < MAX_FLS" "slot_inside (of_nat k)" "unat (of_nat k :: u64) = k" using k(1) slot_inside_nat [of k] by (simp_all add: MAX_FLS_def)
  have g: "st_current env c t = Some fa" "st_fibs t fa = Some f" using f tf by simp_all
  note w = with_current [OF j g]
  have "st_test_bit (of_nat k) f = Inr True"
    using k n by (simp add: st_test_bit_def st_bit_word_def st_get_word_def slot_inside_def BITS_PER_LONG_def)
  moreover have "st_fls_store (of_nat k) v f = Inr (f\<lparr>st_fls_array := (st_fls_array f)[k := v]\<rparr>)"
    using n w(2) by (simp add: st_fls_store_def slot_inside_def)
  ultimately have r: "st_fls_set env c s = Inr (0, st_kfree_args (t\<lparr>st_fibs := (st_fibs t)(fa \<mapsto> f\<lparr>st_fls_array := (st_fls_array f)[k := v]\<rparr>)\<rparr>))"
    using t w(1) g(2) c by (simp add: st_fls_set_def)
  moreover have "st_current env c (st_kfree_args (t\<lparr>st_fibs := F\<rparr>)) = st_current env c t" for F
    by (simp add: st_kfree_args_def st_current_def st_search_process_def st_search_thread_def
        st_pkey_def [abs_def] st_tkey_def [abs_def] split: sum.split option.split)
  ultimately show ?thesis using g by (simp add: st_kfree_args_def)
qed

text \<open>A value comes back through the earlier library only in part: after \<^verbatim>\<open>FlsSetValue\<close> into an
  allocated slot \<^verbatim>\<open>FlsGetValue\<close> returns the low 32 bits, sign-extended, and \<open>-1\<close> for every value
  from \<open>-4095\<close> to \<open>-1\<close>; so exactly the other values that fit a signed 32-bit integer, and \<open>-1\<close>,
  survive.\<close>

theorem st_FlsGetValue_after_FlsSetValue:
  assumes "st_env_ok env" "memory_ok env" "st_reachable env s" "st_usable uc l" "su_malloc uc"
    and f: "st_current env (su_call uc) s = Some fa" "st_fibs s fa = Some f" and k: "k < 64" "bit (st_fls_bitmap f) k"
  shows "\<exists>l1 s1 l2. st_FlsSetValue env uc (of_nat k) v l s = Inr (l1, s1) \<and>
    st_FlsGetValue env uc (of_nat k) l1 s1 = Inr ((value_read v, l2), s1) \<and>
    (value_read v = v \<longleftrightarrow> v = - 1 \<or> - (2 ^ 31) \<le> sint v \<and> sint v < - 4095 \<or> 0 \<le> sint v \<and> sint v < 2 ^ 31)"
proof -
  have i: "st_inv env s" using st_reachable_inv assms(1,3) by blast
  let ?c = "(su_call uc)\<lparr>set_buf := \<lparr>dwFlsIndex = of_nat k, lpFlsData = v\<rparr>\<rparr>" let ?d = "(su_call uc)\<lparr>sc_arg := of_nat k\<rparr>"
  let ?f = "f\<lparr>st_fls_array := (st_fls_array f)[k := v]\<rparr>"
  have cc: "st_current env ?c t = st_current env (su_call uc) t" "st_current env ?d t = st_current env (su_call uc) t" for t
    by (rule st_current_same; simp)+
  obtain s1 where s1: "st_fls_set env ?c s = Inr (0, s1)" "st_current env ?d s1 = Some fa" "st_fibs s1 fa = Some ?f"
    using st_fls_set_allocated [OF i assms(2) _ f(2) k, of ?c v] f(1) by (auto simp: cc)
  have i1: "st_inv env s1" using st_fls_set_ok [OF i s1(1)] by simp
  note w = with_current [OF i1 s1(2,3)]
  have n: "slot_inside (of_nat k)" "unat (of_nat k :: u64) = k" "k < MAX_FLS" using k(1) slot_inside_nat [of k] by (simp_all add: MAX_FLS_def)
  have "st_test_bit (of_nat k) ?f = Inr True"
    using k n by (simp add: st_test_bit_def st_bit_word_def st_get_word_def slot_inside_def BITS_PER_LONG_def)
  moreover have "st_fls_load (of_nat k) ?f = Inr v" using n w(2) by (simp add: st_fls_load_def slot_inside_def)
  ultimately have g: "st_fls_get env ?d s1 = Inr (v, s1)" using w(1) by (simp add: st_fls_get_def)
  let ?l = "st_ensure_open uc (l\<lparr>args_live := Suc (args_live l)\<rparr>)"
  have o: "fd ?l \<noteq> - 1" "opened ?l" using st_usable_open(1) [of uc "l\<lparr>args_live := Suc (args_live l)\<rparr>"] assms(4) st_usable_open(2) by auto
  have "st_FlsSetValue env uc (of_nat k) v l s = Inr (?l\<lparr>args_live := args_live ?l - 1\<rparr>, s1)"
    using s1(1) o assms(5) by (simp add: st_FlsSetValue_def st_sys_ioctl_def Let_def)
  moreover have "st_FlsGetValue env uc (of_nat k) (?l\<lparr>args_live := args_live ?l - 1\<rparr>) s1 =
      Inr ((value_read v, ?l\<lparr>args_live := args_live ?l - 1\<rparr>), s1)"
    using g o by (simp add: st_FlsGetValue_def st_sys_ioctl_def st_usable_open(4) value_read_def libc_result_def)
  moreover have "value_read v = v \<longleftrightarrow> v = - 1 \<or> - (2 ^ 31) \<le> sint v \<and> sint v < - 4095 \<or> 0 \<le> sint v \<and> sint v < 2 ^ 31"
    by (rule value_read_iff)
  ultimately show ?thesis by blast
qed

definition st_demo_ucall :: st_ucall where
  "st_demo_ucall = \<lparr>su_call = st_demo_call 7 7 0, su_open = 3, su_malloc = True, su_stack = 0x10000\<rparr>"

theorem st_FlsGetValue_after_FlsSetValue_witness:
  "\<exists>l1 s1 l2. st_FlsSetValue st_demo_env st_demo_ucall 3 (2 ^ 32 + 5) demo_lib st1 = Inr (l1, s1) \<and>
    st_FlsGetValue st_demo_env st_demo_ucall 3 l1 s1 = Inr ((5, l2), s1)"
proof -
  obtain fa f where f: "st_current st_demo_env (st_demo_call 7 7 0) st1 = Some fa" "st_fibs st1 fa = Some f" "st_fls_bitmap f = - 1"
    by (rule st1_current)
  have "su_call st_demo_ucall = st_demo_call 7 7 0" "su_malloc st_demo_ucall" "st_usable st_demo_ucall demo_lib"
    by (simp_all add: st_demo_ucall_def st_usable_def demo_lib_def)
  then show ?thesis
    using st_FlsGetValue_after_FlsSetValue [OF st_demo_env_ok(1,2) st_demo_reachable(3), of st_demo_ucall demo_lib fa f 3 "2 ^ 32 + 5"] f
    by (auto simp: value_read_def)
qed

end
