(* ===== verification/Query.thy ===== *)
theory Query
  imports Single_Ioctl Module_Init
begin

text \<open>
  \<^verbatim>\<open>single_thread/query_ioctl.c\<close> and \<^verbatim>\<open>query_app.c\<close>: a character device with three variables
  and the program that reads, clears and sets them; and the entry and exit functions of
  \<^verbatim>\<open>single_thread/Module/fiber_ioctl.c\<close>, which register the same things with the kernel.
\<close>

section \<open>The driver\<close>

record query_arg =
  q_status :: u32
  q_dignity :: u32
  q_ego :: u32

datatype query_cmd = QUERY_GET_VARIABLES | QUERY_CLR_VARIABLES | QUERY_SET_VARIABLES | OtherQuery u32

definition EACCES :: u64 where "EACCES = 13"
definition EINVAL :: u64 where "EINVAL = 22"

text \<open>The three variables when the module is loaded.\<close>

definition query_init_vars :: query_arg where
  "query_init_vars = \<lparr>q_status = 1, q_dignity = 3, q_ego = 5\<rparr>"

text \<open>\<open>left\<close> is the number of bytes \<^verbatim>\<open>raw_copy_to_user\<close> or \<^verbatim>\<open>raw_copy_from_user\<close> could not copy,
  \<open>user\<close> the structure of the caller. The results are the return value, what the caller finds in its
  structure if all of it was copied, and the variables.\<close>

fun query_ioctl :: "nat \<Rightarrow> query_arg \<Rightarrow> query_cmd \<Rightarrow> query_arg \<Rightarrow> (u64 \<times> query_arg option) \<times> query_arg" where
  "query_ioctl left user QUERY_GET_VARIABLES vars = (if left \<noteq> 0 then ((- EACCES, None), vars) else ((0, Some vars), vars))"
| "query_ioctl left user QUERY_CLR_VARIABLES vars = ((0, None), \<lparr>q_status = 0, q_dignity = 0, q_ego = 0\<rparr>)"
| "query_ioctl left user QUERY_SET_VARIABLES vars = (if left \<noteq> 0 then ((- EACCES, None), vars) else ((0, None), user))"
| "query_ioctl left user (OtherQuery _) vars = ((- EINVAL, None), vars)"

section \<open>Entry and exit\<close>

text \<open>The registrations the two modules make in the same order: \<^verbatim>\<open>cdev_add\<close>'s failure leaves the
  region.\<close>

definition chrdev_init :: "module_env \<Rightarrow> module_state \<Rightarrow> int \<times> module_state" where
  "chrdev_init me st =
     (if alloc_chrdev_region me < 0 then (alloc_chrdev_region me, st)
      else let st = st\<lparr>region := True\<rparr> in
      if cdev_add me < 0 then (cdev_add me, st)
      else let st = st\<lparr>cdev := True\<rparr> in
      if class_create me \<noteq> 0 then (class_create me, st\<lparr>cdev := False, region := False\<rparr>)
      else let st = st\<lparr>cls := True\<rparr> in
      if device_create me \<noteq> 0 then (device_create me, st\<lparr>cls := False, cdev := False, region := False\<rparr>)
      else (0, st\<lparr>device := True\<rparr>))"

definition query_ioctl_init :: "module_env \<Rightarrow> module_state \<Rightarrow> int \<times> module_state" where
  "query_ioctl_init me st = chrdev_init me st"

definition query_ioctl_exit :: "module_state \<Rightarrow> module_state" where
  "query_ioctl_exit st = st\<lparr>device := False, cls := False, cdev := False, region := False\<rparr>"

text \<open>The fiber module also empties its process table and registers the probe, whose result it ignores.\<close>

definition st_fiber_ioctl_init :: "module_env \<Rightarrow> module_state \<Rightarrow> st_state \<Rightarrow> int \<times> module_state \<times> st_state" where
  "st_fiber_ioctl_init me st s =
     (case chrdev_init me st of (ret, st) \<Rightarrow>
      if ret \<noteq> 0 then (ret, st, s)
      else (0, st\<lparr>kprobe := (register_kprobe me = 0)\<rparr>, s\<lparr>st_list := hash_init\<rparr>))"

definition st_fiber_ioctl_exit :: "module_state \<Rightarrow> module_state" where
  "st_fiber_ioctl_exit st = st\<lparr>device := False, cls := False, cdev := False, region := False, kprobe := False\<rparr>"

section \<open>The program\<close>

datatype query_option = e_get | e_clr | e_set

text \<open>\<^verbatim>\<open>argv\<close> with the program's name in front; \<open>None\<close>: the usage line and exit code 1.\<close>

definition query_option_of :: "string list \<Rightarrow> query_option option" where
  "query_option_of argv =
     (if length argv = 1 then Some e_get
      else if length argv = 2 then
        (if argv ! 1 = ''-g'' then Some e_get
         else if argv ! 1 = ''-c'' then Some e_clr
         else if argv ! 1 = ''-s'' then Some e_set
         else None)
      else None)"

text \<open>What the program meets: the result of \<^verbatim>\<open>open\<close>, the bytes a copy leaves behind, the numbers
  \<^verbatim>\<open>scanf\<close> reads (\<open>None\<close>: nothing converted, the variable keeps its value) and what the variable
  holds at first.\<close>

record query_world =
  qw_open :: int
  qw_left :: nat
  qw_status :: "u32 option"
  qw_dignity :: "u32 option"
  qw_ego :: "u32 option"
  qw_junk :: u32

definition scanf_int :: "u32 option \<Rightarrow> u32 \<Rightarrow> u32" where
  "scanf_int inp v = (case inp of None \<Rightarrow> v | Some n \<Rightarrow> n)"

text \<open>The three functions return the lines printed (\<open>None\<close>: the message of \<^verbatim>\<open>perror\<close>) and the
  variables of the driver.\<close>

definition get_vars :: "query_world \<Rightarrow> query_arg \<Rightarrow> query_arg option \<times> query_arg" where
  "get_vars w vars =
     (case query_ioctl (qw_left w) \<lparr>q_status = qw_junk w, q_dignity = qw_junk w, q_ego = qw_junk w\<rparr> QUERY_GET_VARIABLES vars of
        ((r, out), vars) \<Rightarrow> if r \<noteq> 0 then (None, vars) else (out, vars))"

definition clr_vars :: "query_world \<Rightarrow> query_arg \<Rightarrow> query_arg" where
  "clr_vars w vars = snd (query_ioctl (qw_left w) \<lparr>q_status = 0, q_dignity = 0, q_ego = 0\<rparr> QUERY_CLR_VARIABLES vars)"

definition set_vars :: "query_world \<Rightarrow> query_arg \<Rightarrow> query_arg" where
  "set_vars w vars =
     (let v = scanf_int (qw_status w) (qw_junk w); q_s = v;
          v = scanf_int (qw_dignity w) v; q_d = v;
          v = scanf_int (qw_ego w) v
      in snd (query_ioctl (qw_left w) \<lparr>q_status = q_s, q_dignity = q_d, q_ego = v\<rparr> QUERY_SET_VARIABLES vars))"

text \<open>Exit code, lines printed, variables.\<close>

definition query_main :: "query_world \<Rightarrow> string list \<Rightarrow> query_arg \<Rightarrow> int \<times> query_arg option \<times> query_arg" where
  "query_main w argv vars =
     (case query_option_of argv of
        None \<Rightarrow> (1, None, vars)
      | Some opt \<Rightarrow>
          if qw_open w = - 1 then (2, None, vars)
          else (case opt of
              e_get \<Rightarrow> (case get_vars w vars of (out, vars) \<Rightarrow> (0, out, vars))
            | e_clr \<Rightarrow> (0, None, clr_vars w vars)
            | e_set \<Rightarrow> (0, None, set_vars w vars)))"

section \<open>What they do\<close>

text \<open>What \<^verbatim>\<open>query_app -s\<close> reads from its input is what \<^verbatim>\<open>query_app\<close> prints next, if all
  numbers convert, the device opens and user memory can be copied.\<close>

theorem query_set_then_get:
  assumes "qw_open w \<noteq> - 1" "qw_left w = 0" "qw_status w = Some x" "qw_dignity w = Some y" "qw_ego w = Some z"
    and "qw_open u \<noteq> - 1" "qw_left u = 0"
  shows "\<exists>vars'. query_main w [p, ''-s''] vars = (0, None, vars') \<and>
    query_main u [p] vars' = (0, Some \<lparr>q_status = x, q_dignity = y, q_ego = z\<rparr>, vars')"
  using assms by (simp add: query_main_def query_option_of_def set_vars_def get_vars_def scanf_int_def)

definition query_demo :: query_world where
  "query_demo = \<lparr>qw_open = 3, qw_left = 0, qw_status = Some 10, qw_dignity = Some 20, qw_ego = Some 30, qw_junk = 9\<rparr>"

theorem query_set_then_get_witness:
  "\<exists>vars. query_main query_demo [''query_app'', ''-s''] query_init_vars = (0, None, vars) \<and>
    query_main query_demo [''query_app''] vars = (0, Some \<lparr>q_status = 10, q_dignity = 20, q_ego = 30\<rparr>, vars)"
  using query_set_then_get [of query_demo 10 20 30 query_demo "''query_app''" query_init_vars] by (simp add: query_demo_def)

text \<open>Loading the earlier module is all or nothing but for one case: it returns 0 with the device in
  place, and unloading then leaves nothing behind, or it returns an error with nothing registered,
  unless \<^verbatim>\<open>cdev_add\<close> fails, where the region stays allocated.\<close>

theorem st_init_all_or_nothing:
  assumes "nothing_held st" "st_fiber_ioctl_init me st s = (r, st', s')"
  shows "if r = 0 then device st' \<and> cls st' \<and> cdev st' \<and> region st' \<and> nothing_held (st_fiber_ioctl_exit st')
    else if alloc_chrdev_region me \<ge> 0 \<and> cdev_add me < 0 then region st' \<and> \<not> device st' \<and> \<not> kprobe st' else nothing_held st'"
  using assms
  by (auto simp: st_fiber_ioctl_init_def chrdev_init_def st_fiber_ioctl_exit_def nothing_held_def Let_def split: if_splits)

definition query_module_env :: module_env where
  "query_module_env = \<lparr>alloc_chrdev_region = 0, cdev_add = - 12, class_create = 0, device_create = 0, register_kprobe = 0,
     register_kretprobe = 0, ftr = demo_ftrace\<rparr>"

definition query_no_fibers :: st_state where
  "query_no_fibers = st_init_state (\<lambda>_. []) (\<lambda>_. [])"

theorem st_init_all_or_nothing_witness:
  "\<exists>st' s'. st_fiber_ioctl_init query_module_env unloaded query_no_fibers = (- 12, st', s') \<and> region st'"
proof -
  have n: "nothing_held unloaded" by (simp add: nothing_held_def unloaded_def in_force_def)
  obtain r st' s' where r: "st_fiber_ioctl_init query_module_env unloaded query_no_fibers = (r, st', s')"
    by (cases "st_fiber_ioctl_init query_module_env unloaded query_no_fibers") auto
  then have "r = - 12" by (simp add: st_fiber_ioctl_init_def chrdev_init_def query_module_env_def Let_def)
  with st_init_all_or_nothing [OF n r] r show ?thesis by (simp add: query_module_env_def)
qed

end
