(* ===== verification/Switch_Steps.thy ===== *)
theory Switch_Steps
  imports Demo
begin

text \<open>
  The command SWITCHTOFIBER of \<^verbatim>\<open>my_ioctl\<close> (\<^verbatim>\<open>multi_thread/Module/fiber_ioctl.c\<close>)
  cut at its accesses to shared memory: \<open>sw_step\<close> is one access, a thread that finds
  \<open>lock_fiber\<close> held stays where it is. Run without interruption the steps are \<open>ioctl_switch\<close>
  (\<open>sw_rest_search\<close>), and a step of one task commutes with the registers of another.
\<close>

section \<open>The command step by step\<close>

datatype swpc =
    SReady                                  \<comment> \<open>outside the command\<close>
  | SSearch call                            \<comment> \<open>\<^verbatim>\<open>search_process\<close>\<close>
  | SLock call addr                         \<comment> \<open>\<^verbatim>\<open>spin_lock_irqsave(&(process->lock_fiber), flags)\<close>\<close>
  | SFind call addr                         \<comment> \<open>\<^verbatim>\<open>search_fiber\<close>\<close>
  | SRunning call addr addr                 \<comment> \<open>\<^verbatim>\<open>if(fiber->running)\<close>\<close>
  | SFail call addr addr                    \<comment> \<open>\<^verbatim>\<open>fiber->failed_activations += 1\<close>\<close>
  | SThread call addr addr                  \<comment> \<open>\<^verbatim>\<open>search_thread\<close>\<close>
  | SActive call addr addr addr             \<comment> \<open>\<^verbatim>\<open>thread->active_fiber\<close>\<close>
  | SSaveRegs call addr addr addr addr
  | SSaveFx call addr addr addr addr
  | SLoadRegs call addr addr addr addr
  | SLoadFx call addr addr addr addr
  | SClear call addr addr addr addr         \<comment> \<open>\<^verbatim>\<open>thread->active_fiber->running = false\<close>\<close>
  | SCharge call addr addr addr addr
  | SAdopt call addr addr addr              \<comment> \<open>\<^verbatim>\<open>thread->active_fiber = fiber\<close>\<close>
  | SRun call addr addr                     \<comment> \<open>\<^verbatim>\<open>fiber->running = true\<close> and its counters\<close>
  | SUnlock call addr u64                   \<comment> \<open>\<^verbatim>\<open>spin_unlock_irqrestore\<close>, then return\<close>
  | SDone call u64

fun sw_step :: "kenv \<Rightarrow> swpc \<Rightarrow> kstate \<Rightarrow> fault + swpc \<times> kstate" where
  "sw_step env SReady s = Inr (SReady, s)"
| "sw_step env (SSearch c) s = kbind (search_process env (c_tgid c) s) (\<lambda>pr.
     case pr of None \<Rightarrow> Inr (SDone c (- 1), s) | Some pa \<Rightarrow> Inr (SLock c pa, s))"
| "sw_step env (SLock c pa) s = kbind (deref (procs s) pa) (\<lambda>p.
     if lock_fiber p then Inr (SLock c pa, s)
     else kbind (spin_lock_fiber pa s) (\<lambda>s. Inr (SFind c pa, s)))"
| "sw_step env (SFind c pa) s = kbind (search_fiber env (ucast (c_arg c)) pa s) (\<lambda>fr.
     case fr of None \<Rightarrow> Inr (SUnlock c pa (- 1), s) | Some fa \<Rightarrow> Inr (SRunning c pa fa, s))"
| "sw_step env (SRunning c pa fa) s = kbind (deref (fibs s) fa) (\<lambda>f.
     if running f then Inr (SFail c pa fa, s) else Inr (SThread c pa fa, s))"
| "sw_step env (SFail c pa fa) s =
     kbind (modify_fib fa (\<lambda>f. f\<lparr>failed_activations := failed_activations f + 1\<rparr>) s) (\<lambda>s.
       Inr (SUnlock c pa (- 1), s))"
| "sw_step env (SThread c pa fa) s = kbind (search_thread env (c_pid c) pa s) (\<lambda>(tr, s).
     case tr of None \<Rightarrow> Inr (SUnlock c pa (- 1), s) | Some ta \<Rightarrow> Inr (SActive c pa ta fa, s))"
| "sw_step env (SActive c pa ta fa) s = kbind (deref (thrs s) ta) (\<lambda>t.
     kbind (nonnull (active_fiber t)) (\<lambda>af. Inr (SSaveRegs c pa ta fa af, s)))"
| "sw_step env (SSaveRegs c pa ta fa af) s =
     kbind (modify_fib af (\<lambda>f. f\<lparr>regs := uregs s (c_pid c)\<rparr>) s) (\<lambda>s. Inr (SSaveFx c pa ta fa af, s))"
| "sw_step env (SSaveFx c pa ta fa af) s =
     kbind (modify_fib af (\<lambda>f. f\<lparr>fpu_reg := fxsave env (ufx s (c_pid c)) (fpu_reg f)\<rparr>) s) (\<lambda>s.
       Inr (SLoadRegs c pa ta fa af, s))"
| "sw_step env (SLoadRegs c pa ta fa af) s = kbind (deref (fibs s) fa) (\<lambda>f.
     Inr (SLoadFx c pa ta fa af, s\<lparr>uregs := (uregs s)(c_pid c := regs f)\<rparr>))"
| "sw_step env (SLoadFx c pa ta fa af) s = kbind (deref (fibs s) fa) (\<lambda>f.
     Inr (SClear c pa ta fa af, s\<lparr>ufx := (ufx s)(c_pid c := fxrstor env (fpu_reg f))\<rparr>))"
| "sw_step env (SClear c pa ta fa af) s =
     kbind (modify_fib af (\<lambda>f. f\<lparr>running := False\<rparr>) s) (\<lambda>s. Inr (SCharge c pa ta fa af, s))"
| "sw_step env (SCharge c pa ta fa af) s =
     kbind (modify_fib af (\<lambda>f. if starting_time f \<noteq> 0 then charge (ts1 c) f else f) s) (\<lambda>s.
       Inr (SAdopt c pa ta fa, s))"
| "sw_step env (SAdopt c pa ta fa) s =
     kbind (modify_thr ta (\<lambda>t. t\<lparr>active_fiber := Some fa\<rparr>) s) (\<lambda>s. Inr (SRun c pa fa, s))"
| "sw_step env (SRun c pa fa) s =
     kbind (modify_fib fa (\<lambda>f. f\<lparr>running := True, activations := activations f + 1,
                                  starting_time := nanos (ts2 c)\<rparr>) s) (\<lambda>s. Inr (SUnlock c pa 0, s))"
| "sw_step env (SUnlock c pa r) s = kbind (spin_unlock_fiber pa s) (\<lambda>s. Inr (SDone c r, s))"
| "sw_step env (SDone c r) s = Inr (SDone c r, s)"

text \<open>How far a thread has come, its call, and whether it is between lock and unlock.\<close>

fun sw_rank :: "swpc \<Rightarrow> nat" where
  "sw_rank SReady = 0"
| "sw_rank (SSearch _) = 17"
| "sw_rank (SLock _ _) = 16"
| "sw_rank (SFind _ _) = 15"
| "sw_rank (SRunning _ _ _) = 14"
| "sw_rank (SFail _ _ _) = 13"
| "sw_rank (SThread _ _ _) = 13"
| "sw_rank (SActive _ _ _ _) = 12"
| "sw_rank (SSaveRegs _ _ _ _ _) = 11"
| "sw_rank (SSaveFx _ _ _ _ _) = 10"
| "sw_rank (SLoadRegs _ _ _ _ _) = 9"
| "sw_rank (SLoadFx _ _ _ _ _) = 8"
| "sw_rank (SClear _ _ _ _ _) = 7"
| "sw_rank (SCharge _ _ _ _ _) = 6"
| "sw_rank (SAdopt _ _ _ _) = 5"
| "sw_rank (SRun _ _ _) = 4"
| "sw_rank (SUnlock _ _ _) = 2"
| "sw_rank (SDone _ _) = 0"

fun sw_call :: "swpc \<Rightarrow> call option" where
  "sw_call SReady = None"
| "sw_call (SSearch c) = Some c"
| "sw_call (SLock c _) = Some c"
| "sw_call (SFind c _) = Some c"
| "sw_call (SRunning c _ _) = Some c"
| "sw_call (SFail c _ _) = Some c"
| "sw_call (SThread c _ _) = Some c"
| "sw_call (SActive c _ _ _) = Some c"
| "sw_call (SSaveRegs c _ _ _ _) = Some c"
| "sw_call (SSaveFx c _ _ _ _) = Some c"
| "sw_call (SLoadRegs c _ _ _ _) = Some c"
| "sw_call (SLoadFx c _ _ _ _) = Some c"
| "sw_call (SClear c _ _ _ _) = Some c"
| "sw_call (SCharge c _ _ _ _) = Some c"
| "sw_call (SAdopt c _ _ _) = Some c"
| "sw_call (SRun c _ _) = Some c"
| "sw_call (SUnlock c _ _) = Some c"
| "sw_call (SDone c _) = Some c"

fun sw_process :: "swpc \<Rightarrow> addr option" where
  "sw_process (SLock _ pa) = Some pa"
| "sw_process (SFind _ pa) = Some pa"
| "sw_process (SRunning _ pa _) = Some pa"
| "sw_process (SFail _ pa _) = Some pa"
| "sw_process (SThread _ pa _) = Some pa"
| "sw_process (SActive _ pa _ _) = Some pa"
| "sw_process (SSaveRegs _ pa _ _ _) = Some pa"
| "sw_process (SSaveFx _ pa _ _ _) = Some pa"
| "sw_process (SLoadRegs _ pa _ _ _) = Some pa"
| "sw_process (SLoadFx _ pa _ _ _) = Some pa"
| "sw_process (SClear _ pa _ _ _) = Some pa"
| "sw_process (SCharge _ pa _ _ _) = Some pa"
| "sw_process (SAdopt _ pa _ _) = Some pa"
| "sw_process (SRun _ pa _) = Some pa"
| "sw_process (SUnlock _ pa _) = Some pa"
| "sw_process _ = None"

fun in_section :: "swpc \<Rightarrow> bool" where
  "in_section (SLock _ _) \<longleftrightarrow> False"
| "in_section pc \<longleftrightarrow> sw_process pc \<noteq> None"

section \<open>Run without interruption\<close>

function sw_rest :: "kenv \<Rightarrow> swpc \<Rightarrow> kstate \<Rightarrow> fault + u64 \<times> kstate" where
  "sw_rest env pc s = (case pc of SDone c r \<Rightarrow> Inr (r, s) | _ \<Rightarrow>
     kbind (sw_step env pc s) (\<lambda>(pc', s').
       if sw_rank pc' < sw_rank pc then sw_rest env pc' s' else Inl Deadlock))"
  by pat_completeness auto
termination by (relation "measure (\<lambda>(_, pc, _). sw_rank pc)") auto

declare sw_rest.simps [simp del]

lemma sw_step_rank:
  "sw_step env pc s = Inr (pc', s') \<Longrightarrow> sw_rank pc' < sw_rank pc \<or> pc' = pc \<and> s' = s"
  by (cases pc) (auto simp: kbind_Inr_iff split: option.splits if_splits)

lemma sw_rest_step:
  assumes "sw_step env pc s = Inr (pc', s')" "pc' \<noteq> pc"
  shows "sw_rest env pc s = sw_rest env pc' s'"
proof -
  have "sw_rank pc' < sw_rank pc" using sw_step_rank [OF assms(1)] assms(2) by blast
  then show ?thesis using assms(1) by (cases pc) (auto simp: sw_rest.simps [of env _ s])
qed

lemma sw_rest_fault: "sw_step env pc s = Inl e \<Longrightarrow> sw_rest env pc s = Inl e"
  by (cases pc) (auto simp: sw_rest.simps [of env _ s])

text \<open>What is left to do at each program counter, one access at a time.\<close>

lemma kbind_assoc: "kbind (kbind m g) h = kbind m (\<lambda>x. kbind (g x) h)"
  by (cases m) auto

lemma sw_rest_done [simp]: "sw_rest env (SDone c r) s = Inr (r, s)"
  by (simp add: sw_rest.simps [of env _ s])

lemma sw_rest_unlock: "sw_rest env (SUnlock c pa r) s = kbind (spin_unlock_fiber pa s) (\<lambda>s. Inr (r, s))"
  by (subst sw_rest.simps) (simp add: kbind_assoc)

lemma sw_rest_run: "sw_rest env (SRun c pa fa) s =
    kbind (modify_fib fa (\<lambda>f. f\<lparr>running := True, activations := activations f + 1,
                                 starting_time := nanos (ts2 c)\<rparr>) s) (sw_rest env (SUnlock c pa 0))"
  by (subst sw_rest.simps) (simp add: kbind_assoc)

lemma sw_rest_adopt: "sw_rest env (SAdopt c pa ta fa) s =
    kbind (modify_thr ta (\<lambda>t. t\<lparr>active_fiber := Some fa\<rparr>) s) (sw_rest env (SRun c pa fa))"
  by (subst sw_rest.simps) (simp add: kbind_assoc)

lemma sw_rest_charge: "sw_rest env (SCharge c pa ta fa af) s =
    kbind (modify_fib af (\<lambda>f. if starting_time f \<noteq> 0 then charge (ts1 c) f else f) s)
      (sw_rest env (SAdopt c pa ta fa))"
  by (subst sw_rest.simps) (simp add: kbind_assoc)

lemma sw_rest_clear: "sw_rest env (SClear c pa ta fa af) s =
    kbind (modify_fib af (\<lambda>f. f\<lparr>running := False\<rparr>) s) (sw_rest env (SCharge c pa ta fa af))"
  by (subst sw_rest.simps) (simp add: kbind_assoc)

lemma sw_rest_load: "sw_rest env (SLoadRegs c pa ta fa af) s = kbind (deref (fibs s) fa) (\<lambda>f.
    sw_rest env (SClear c pa ta fa af)
      (s\<lparr>uregs := (uregs s)(c_pid c := regs f), ufx := (ufx s)(c_pid c := fxrstor env (fpu_reg f))\<rparr>))"
proof (cases "fibs s fa")
  case (Some f)
  then show ?thesis
    by (subst sw_rest.simps, simp, subst sw_rest.simps, simp)
qed (simp add: sw_rest.simps [of env _ s])

lemma sw_rest_save_fx: "sw_rest env (SSaveFx c pa ta fa af) s =
    kbind (modify_fib af (\<lambda>f. f\<lparr>fpu_reg := fxsave env (ufx s (c_pid c)) (fpu_reg f)\<rparr>) s)
      (sw_rest env (SLoadRegs c pa ta fa af))"
  by (subst sw_rest.simps) (simp add: kbind_assoc)

lemma sw_rest_save: "sw_rest env (SSaveRegs c pa ta fa af) s =
    kbind (modify_fib af (\<lambda>f. f\<lparr>regs := uregs s (c_pid c)\<rparr>) s) (sw_rest env (SSaveFx c pa ta fa af))"
  by (subst sw_rest.simps) (simp add: kbind_assoc)

lemma sw_rest_context: "sw_rest env (SActive c pa ta fa) s =
    kbind (switch_context env c ta fa s) (sw_rest env (SUnlock c pa 0))"
  by (subst sw_rest.simps)
    (simp add: kbind_assoc switch_context_def Let_def sw_rest_save sw_rest_save_fx sw_rest_load sw_rest_clear
      sw_rest_charge sw_rest_adopt sw_rest_run cong: kbind_cong)

lemma sw_rest_thread: "sw_rest env (SThread c pa fa) s =
    kbind (search_thread env (c_pid c) pa s) (\<lambda>(tr, s).
      case tr of None \<Rightarrow> sw_rest env (SUnlock c pa (- 1)) s | Some ta \<Rightarrow> sw_rest env (SActive c pa ta fa) s)"
  by (subst sw_rest.simps) (auto simp: kbind_assoc intro!: kbind_cong split: option.split)

lemma sw_rest_fail: "sw_rest env (SFail c pa fa) s =
    kbind (modify_fib fa (\<lambda>f. f\<lparr>failed_activations := failed_activations f + 1\<rparr>) s)
      (sw_rest env (SUnlock c pa (- 1)))"
  by (subst sw_rest.simps) (simp add: kbind_assoc)

lemma sw_rest_running: "sw_rest env (SRunning c pa fa) s = kbind (deref (fibs s) fa) (\<lambda>f.
    if running f then sw_rest env (SFail c pa fa) s else sw_rest env (SThread c pa fa) s)"
  by (subst sw_rest.simps) (auto simp: kbind_assoc intro!: kbind_cong)

lemma sw_rest_find: "sw_rest env (SFind c pa) s = kbind (search_fiber env (ucast (c_arg c)) pa s) (\<lambda>fr.
    case fr of None \<Rightarrow> sw_rest env (SUnlock c pa (- 1)) s | Some fa \<Rightarrow> sw_rest env (SRunning c pa fa) s)"
  by (subst sw_rest.simps) (auto simp: kbind_assoc intro!: kbind_cong split: option.split)

lemma sw_rest_lock: "sw_rest env (SLock c pa) s = kbind (spin_lock_fiber pa s) (sw_rest env (SFind c pa))"
proof (cases "procs s pa")
  case (Some p)
  then show ?thesis by (subst sw_rest.simps) (simp add: spin_lock_fiber_def)
qed (simp add: sw_rest.simps [of env _ s] spin_lock_fiber_def)

lemma sw_rest_search: "sw_rest env (SSearch c) s = ioctl_switch env c s"
  by (subst sw_rest.simps)
    (auto simp: kbind_assoc ioctl_switch_def sw_rest_lock sw_rest_find sw_rest_running sw_rest_thread
      sw_rest_fail sw_rest_context sw_rest_unlock intro!: kbind_cong split: option.split)

section \<open>Registers of other tasks\<close>

text \<open>A task that enters the kernel brings its registers; a switch of another task does not touch
  them.\<close>

definition set_user :: "pid_t \<Rightarrow> pt_regs \<Rightarrow> fx \<Rightarrow> kstate \<Rightarrow> kstate" where
  "set_user t rs x s = s\<lparr>uregs := (uregs s)(t := rs), ufx := (ufx s)(t := x)\<rparr>"

definition on_state :: "(kstate \<Rightarrow> kstate) \<Rightarrow> fault + 'r \<times> kstate \<Rightarrow> fault + 'r \<times> kstate" where
  "on_state g m = kbind m (\<lambda>(r, s). Inr (r, g s))"

lemma on_state_simps [simp]: "on_state g (Inr (r, s)) = Inr (r, g s)" "on_state g (Inl e) = Inl e"
  by (simp_all add: on_state_def)

lemma set_user_fields [simp]:
  "procs (set_user t rs x s) = procs s" "thrs (set_user t rs x s) = thrs s" "fibs (set_user t rs x s) = fibs s"
  "list_process (set_user t rs x s) = list_process s" "pkey (set_user t rs x s) = pkey s"
  "tkey (set_user t rs x s) = tkey s" "fkey (set_user t rs x s) = fkey s"
  "u \<noteq> t \<Longrightarrow> uregs (set_user t rs x s) u = uregs s u" "u \<noteq> t \<Longrightarrow> ufx (set_user t rs x s) u = ufx s u"
  by (simp_all add: set_user_def)

lemma set_user_updates:
  "(set_user t rs x s)\<lparr>procs := P\<rparr> = set_user t rs x (s\<lparr>procs := P\<rparr>)"
  "(set_user t rs x s)\<lparr>thrs := T\<rparr> = set_user t rs x (s\<lparr>thrs := T\<rparr>)"
  "(set_user t rs x s)\<lparr>fibs := F\<rparr> = set_user t rs x (s\<lparr>fibs := F\<rparr>)"
  "u \<noteq> t \<Longrightarrow> (set_user t rs x s)\<lparr>uregs := (uregs (set_user t rs x s))(u := rs')\<rparr> =
     set_user t rs x (s\<lparr>uregs := (uregs s)(u := rs')\<rparr>)"
  "u \<noteq> t \<Longrightarrow> (set_user t rs x s)\<lparr>ufx := (ufx (set_user t rs x s))(u := x')\<rparr> =
     set_user t rs x (s\<lparr>ufx := (ufx s)(u := x')\<rparr>)"
  by (simp_all add: set_user_def fun_upd_twist)

lemma set_user_modify:
  "modify_proc a g (set_user t rs x s) = kbind (modify_proc a g s) (\<lambda>s. Inr (set_user t rs x s))"
  "modify_thr a h (set_user t rs x s) = kbind (modify_thr a h s) (\<lambda>s. Inr (set_user t rs x s))"
  "modify_fib a k (set_user t rs x s) = kbind (modify_fib a k s) (\<lambda>s. Inr (set_user t rs x s))"
  by (simp_all add: modify_proc_def modify_thr_def modify_fib_def kbind_assoc set_user_updates)

lemma set_user_locks:
  "spin_lock_fiber a (set_user t rs x s) = kbind (spin_lock_fiber a s) (\<lambda>s. Inr (set_user t rs x s))"
  "spin_unlock_fiber a (set_user t rs x s) = kbind (spin_unlock_fiber a s) (\<lambda>s. Inr (set_user t rs x s))"
  "spin_lock_hash a (set_user t rs x s) = kbind (spin_lock_hash a s) (\<lambda>s. Inr (set_user t rs x s))"
  "spin_unlock_hash a (set_user t rs x s) = kbind (spin_unlock_hash a s) (\<lambda>s. Inr (set_user t rs x s))"
  by (auto simp: spin_lock_fiber_def spin_unlock_fiber_def spin_lock_hash_def spin_unlock_hash_def
      kbind_assoc set_user_modify intro!: kbind_cong)

lemma set_user_searches:
  "search_process env k (set_user t rs x s) = search_process env k s"
  "search_fiber env i a (set_user t rs x s) = search_fiber env i a s"
  "search_thread env k a (set_user t rs x s) = on_state (set_user t rs x) (search_thread env k a s)"
  by (auto simp: search_process_def search_fiber_def search_thread_def on_state_def kbind_assoc set_user_locks
      intro!: kbind_cong)

lemma sw_step_user:
  assumes "sw_call pc = Some c" "c_pid c \<noteq> t"
  shows "sw_step env pc (set_user t rs x s) = on_state (set_user t rs x) (sw_step env pc s)"
  using assms
  by (cases pc)
    (auto simp: on_state_def kbind_assoc set_user_locks set_user_modify set_user_searches set_user_updates
      intro!: kbind_cong split: option.split)

lemma sw_step_call: "sw_step env pc s = Inr (pc', s') \<Longrightarrow> sw_call pc' = sw_call pc"
  by (cases pc) (auto simp: kbind_Inr_iff split: option.splits if_splits)

lemma sw_rest_unfold: "\<forall>c r. pc \<noteq> SDone c r \<Longrightarrow>
    sw_rest env pc s = kbind (sw_step env pc s) (\<lambda>(pc', s').
      if sw_rank pc' < sw_rank pc then sw_rest env pc' s' else Inl Deadlock)"
  by (cases pc) (simp_all add: sw_rest.simps [of env _ s])

lemma sw_rest_user:
  assumes "sw_call pc = Some c" "c_pid c \<noteq> t"
  shows "sw_rest env pc (set_user t rs x s) = on_state (set_user t rs x) (sw_rest env pc s)"
  using assms
proof (induction "sw_rank pc" arbitrary: pc s rule: less_induct)
  case less
  note u = sw_step_user [OF less.prems, of env rs x]
  show ?case
  proof (cases "\<forall>c r. pc \<noteq> SDone c r")
    case True
    note e = sw_rest_unfold [OF True, of env]
    show ?thesis
    proof (cases "sw_step env pc s")
      case (Inr q)
      obtain pc' s' where q: "q = (pc', s')" by (cases q)
      show ?thesis
        using less.hyps [of pc' s'] sw_step_call [OF Inr [unfolded q]] less.prems Inr q by (simp add: e u)
    qed (simp add: e u)
  qed auto
qed

lemma ioctl_switch_user: "c_pid c \<noteq> t \<Longrightarrow>
    ioctl_switch env c (set_user t rs x s) = on_state (set_user t rs x) (ioctl_switch env c s)"
  unfolding sw_rest_search [symmetric] by (rule sw_rest_user) simp_all

end
