(* ===== verification/Switch_Atomic.thy ===== *)
theory Switch_Atomic
  imports Switch_Steps
begin

text \<open>
  The threads of one process in SWITCHTOFIBER at the same time. A schedule \<open>sw_run\<close> lets them
  enter the kernel, with any registers, and advance one access at a time, in any order. Whenever no
  thread holds the lock, the shared memory is what the completed commands give one after the other,
  in the order in which they released it, with the results the threads received.
\<close>

section \<open>The threads of a process\<close>

text \<open>A log records, for each command and each entry into the kernel, what took effect when.\<close>

datatype sw_entry = Entered pid_t pt_regs fx | Ran call u64

datatype sw_event =
    Enter call pt_regs fx   \<comment> \<open>the task traps into the command with these registers\<close>
  | Step pid_t              \<comment> \<open>the task makes its next access, or returns to user space\<close>

type_synonym swconf = "kstate \<times> (pid_t \<Rightarrow> swpc) \<times> sw_entry list"

fun sw_exec :: "kenv \<Rightarrow> sw_event \<Rightarrow> swconf \<Rightarrow> fault + swconf" where
  "sw_exec env (Enter c rs x) (s, pcs, lg) =
     Inr (if pcs (c_pid c) = SReady
       then (set_user (c_pid c) rs x s, pcs(c_pid c := SSearch c), lg @ [Entered (c_pid c) rs x])
       else (s, pcs, lg))"
| "sw_exec env (Step t) (s, pcs, lg) = (case pcs t of
     SDone c r \<Rightarrow> Inr (s, pcs(t := SReady), lg)
   | pc \<Rightarrow> kbind (sw_step env pc s) (\<lambda>(pc', s').
       Inr (s', pcs(t := pc'), lg @ (case pc' of SDone c r \<Rightarrow> [Ran c r] | _ \<Rightarrow> []))))"

fun sw_run :: "kenv \<Rightarrow> sw_event list \<Rightarrow> swconf \<Rightarrow> fault + swconf" where
  "sw_run env [] z = Inr z"
| "sw_run env (e # es) z = kbind (sw_exec env e z) (sw_run env es)"

text \<open>The commands of a log one after the other, each without interruption.\<close>

fun sw_serial :: "kenv \<Rightarrow> sw_entry list \<Rightarrow> kstate \<Rightarrow> kstate option" where
  "sw_serial env [] s = Some s"
| "sw_serial env (Entered t rs x # lg) s = sw_serial env lg (set_user t rs x s)"
| "sw_serial env (Ran c r # lg) s = (case ioctl_switch env c s of
     Inl _ \<Rightarrow> None
   | Inr (r', s') \<Rightarrow> if r' = r then sw_serial env lg s' else None)"

definition sw_event_ok :: "kenv \<Rightarrow> pid_t \<Rightarrow> sw_event \<Rightarrow> bool" where
  "sw_event_ok env tg e \<longleftrightarrow> (case e of Enter c rs x \<Rightarrow> c_tgid c = tg \<and> length rs = nregs env | Step t \<Rightarrow> True)"

definition sw_start :: "kstate \<Rightarrow> swconf" where
  "sw_start s = (s, \<lambda>_. SReady, [])"

lemma sw_serial_append:
  "sw_serial env (lg @ lg') s = Option.bind (sw_serial env lg s) (sw_serial env lg')"
  by (induction env lg s rule: sw_serial.induct) (auto split: sum.split)

lemma set_user_kinv: "kinv env s \<Longrightarrow> length rs = nregs env \<Longrightarrow> kinv env (set_user t rs x s)"
  unfolding set_user_def by (rule user_runs_kinv)

section \<open>The invariant of the interleavings\<close>

text \<open>\<open>sw_holds\<close>: the thread holds the lock, and what it has left to do gives what the command
  gives in \<open>\<sigma>\<close>, the state when it took the lock.\<close>

definition sw_holds :: "kenv \<Rightarrow> kstate \<Rightarrow> kstate \<Rightarrow> swpc \<Rightarrow> bool" where
  "sw_holds env \<sigma> s pc \<longleftrightarrow> (\<exists>c pa p. in_section pc \<and> sw_call pc = Some c \<and> sw_process pc = Some pa \<and>
     procs s pa = Some p \<and> lock_fiber p \<and> list_process s = list_process \<sigma> \<and> pkey s = pkey \<sigma> \<and>
     sw_rest env pc s = ioctl_switch env c \<sigma>)"

definition sw_pc_ok :: "kenv \<Rightarrow> pid_t \<Rightarrow> kstate \<Rightarrow> pid_t \<Rightarrow> swpc \<Rightarrow> bool" where
  "sw_pc_ok env tg \<sigma> t pc \<longleftrightarrow> (\<forall>c. sw_call pc = Some c \<longrightarrow> c_pid c = t \<and> c_tgid c = tg) \<and>
     (\<forall>pa. sw_process pc = Some pa \<longrightarrow> search_process env tg \<sigma> = Inr (Some pa))"

definition sw_at :: "kenv \<Rightarrow> pid_t \<Rightarrow> kstate \<Rightarrow> kstate \<Rightarrow> swconf \<Rightarrow> bool" where
  "sw_at env tg s0 \<sigma> z \<longleftrightarrow> (case z of (s, pcs, lg) \<Rightarrow> sw_serial env lg s0 = Some \<sigma> \<and> kinv env \<sigma> \<and>
     (\<forall>t. sw_pc_ok env tg \<sigma> t (pcs t)) \<and>
     ((\<forall>t. \<not> in_section (pcs t)) \<and> s = \<sigma> \<or>
      (\<exists>t. sw_holds env \<sigma> s (pcs t) \<and> (\<forall>u. u \<noteq> t \<longrightarrow> \<not> in_section (pcs u)))))"

definition sw_inv :: "kenv \<Rightarrow> pid_t \<Rightarrow> kstate \<Rightarrow> swconf \<Rightarrow> bool" where
  "sw_inv env tg s0 z \<longleftrightarrow> (\<exists>\<sigma>. sw_at env tg s0 \<sigma> z)"

text \<open>The two kinds of states.\<close>

lemma sw_at_cases:
  assumes "sw_at env tg s0 \<sigma> (s, pcs, lg)"
  obtains (free) "\<And>t. \<not> in_section (pcs t)" "s = \<sigma>"
  | (held) t c pa p where "\<And>u. u \<noteq> t \<Longrightarrow> \<not> in_section (pcs u)" "sw_holds env \<sigma> s (pcs t)"
      "in_section (pcs t)" "sw_call (pcs t) = Some c" "sw_process (pcs t) = Some pa"
      "procs s pa = Some p" "lock_fiber p" "sw_rest env (pcs t) s = ioctl_switch env c \<sigma>"
  using assms unfolding sw_at_def sw_holds_def by auto

lemma sw_at_view:
  assumes "sw_at env tg s0 \<sigma> (s, pcs, lg)"
  shows "list_process s = list_process \<sigma> \<and> pkey s = pkey \<sigma>"
  using assms unfolding sw_at_def sw_holds_def by auto

lemma sw_atD:
  assumes "sw_at env tg s0 \<sigma> (s, pcs, lg)"
  shows "sw_serial env lg s0 = Some \<sigma>" "kinv env \<sigma>" "sw_pc_ok env tg \<sigma> t (pcs t)"
  using assms by (auto simp: sw_at_def)

lemma sw_at_free:
  "sw_serial env lg s0 = Some s \<Longrightarrow> kinv env s \<Longrightarrow> (\<And>t. sw_pc_ok env tg s t (pcs t)) \<Longrightarrow>
   (\<And>t. \<not> in_section (pcs t)) \<Longrightarrow> sw_at env tg s0 s (s, pcs, lg)"
  by (auto simp: sw_at_def)

lemma sw_at_held:
  "sw_serial env lg s0 = Some \<sigma> \<Longrightarrow> kinv env \<sigma> \<Longrightarrow> (\<And>t. sw_pc_ok env tg \<sigma> t (pcs t)) \<Longrightarrow>
   sw_holds env \<sigma> s (pcs t) \<Longrightarrow> (\<And>u. u \<noteq> t \<Longrightarrow> \<not> in_section (pcs u)) \<Longrightarrow> sw_at env tg s0 \<sigma> (s, pcs, lg)"
  by (auto simp: sw_at_def)

text \<open>A thread outside the section may move to another place outside it.\<close>

lemma sw_at_move:
  assumes at: "sw_at env tg s0 \<sigma> (s, pcs, lg)" and o: "\<not> in_section (pcs t)" "\<not> in_section pc"
    and ok: "sw_pc_ok env tg \<sigma> t pc" and lg': "sw_serial env lg' s0 = Some \<sigma>"
  shows "sw_at env tg s0 \<sigma> (s, pcs(t := pc), lg')"
  using at
proof (cases rule: sw_at_cases)
  case free
  then show ?thesis using sw_atD [OF at] ok o lg' by (auto simp: sw_at_def)
next
  case (held u c pa p)
  then have "u \<noteq> t" using o by auto
  then show ?thesis
    by (intro sw_at_held [where t = u]) (use held sw_atD [OF at] ok o lg' in auto)
qed

lemma search_process_cong:
  "list_process s = list_process s' \<Longrightarrow> pkey s = pkey s' \<Longrightarrow> search_process env k s = search_process env k s'"
  by (simp add: search_process_def)

text \<open>A step with the lock held keeps it and the way to the process, until the last one.\<close>

lemma search_thread_Inr:
  assumes "search_thread env k pa s = Inr (r, s')"
  shows "list_process s' = list_process s \<and> pkey s' = pkey s \<and>
    map_option lock_fiber (procs s' pa) = map_option lock_fiber (procs s pa)"
proof -
  obtain p where "procs s pa = Some p"
    using assms by (cases "procs s pa") (simp_all add: search_thread_def spin_lock_hash_def)
  then show ?thesis
    using assms
    by (auto simp: search_thread_def spin_lock_hash_def spin_unlock_hash_def kbind_Inr_iff pkey_def
        split: if_splits)
qed

lemma sw_step_section:
  assumes st: "sw_step env pc s = Inr (pc', s')" and pc: "in_section pc" "sw_process pc = Some pa"
    and lk: "procs s pa = Some p" "lock_fiber p"
  shows "list_process s' = list_process s \<and> pkey s' = pkey s \<and>
    ((\<exists>c r. pc' = SDone c r) \<or>
     in_section pc' \<and> sw_process pc' = Some pa \<and> (\<exists>p'. procs s' pa = Some p' \<and> lock_fiber p'))"
proof (cases pc)
  case (SThread c pa' fa)
  then obtain r where r: "search_thread env (c_pid c) pa s = Inr (r, s')"
    and pc': "pc' = SUnlock c pa (- 1) \<or> (\<exists>ta. pc' = SActive c pa ta fa)"
    using st pc by (auto simp: kbind_Inr_iff split: option.splits)
  then show ?thesis using search_thread_Inr [OF r] lk by (auto simp: map_option_case split: option.splits)
qed (use assms in \<open>auto simp: kbind_Inr_iff pkey_def modify_fib_def modify_thr_def spin_unlock_fiber_def
      split: option.splits if_splits\<close>)

lemma sw_pc_ok_cong:
  "list_process \<sigma>' = list_process \<sigma> \<Longrightarrow> pkey \<sigma>' = pkey \<sigma> \<Longrightarrow> sw_pc_ok env tg \<sigma> t pc \<Longrightarrow> sw_pc_ok env tg \<sigma>' t pc"
  using search_process_cong [of \<sigma> \<sigma>'] by (simp add: sw_pc_ok_def)


section \<open>Every event keeps it\<close>

lemma sw_enter_inv:
  assumes at: "sw_at env tg s0 \<sigma> (s, pcs, lg)" and e: "sw_event_ok env tg (Enter c rs x)"
    and r: "pcs (c_pid c) = SReady"
  shows "sw_at env tg s0 (set_user (c_pid c) rs x \<sigma>)
    (set_user (c_pid c) rs x s, pcs(c_pid c := SSearch c), lg @ [Entered (c_pid c) rs x])"
    (is "sw_at env tg s0 ?\<sigma> (?s, ?pcs, ?lg)")
proof -
  note D = sw_atD [OF at]
  have ser: "sw_serial env ?lg s0 = Some ?\<sigma>" by (simp add: sw_serial_append D(1))
  have k: "kinv env ?\<sigma>" using set_user_kinv [OF D(2)] e by (simp add: sw_event_ok_def)
  have ok: "sw_pc_ok env tg ?\<sigma> t (?pcs t)" for t
    using D(3) [of t] e by (auto simp: sw_pc_ok_def set_user_searches sw_event_ok_def)
  show ?thesis
    using at
  proof (cases rule: sw_at_cases)
    case free
    then have "\<not> in_section (?pcs t)" for t by simp
    then show ?thesis using sw_at_free [OF ser k ok] free(2) by blast
  next
    case (held t c' pa p)
    have t: "t \<noteq> c_pid c" using held(3) r by auto
    have c': "c_pid c' \<noteq> c_pid c" using D(3) [of t] held(4) t by (auto simp: sw_pc_ok_def)
    have "sw_holds env ?\<sigma> ?s (?pcs t)"
      using held sw_at_view [OF at] t c' by (auto simp: sw_holds_def sw_rest_user ioctl_switch_user)
    then show ?thesis by (rule sw_at_held [OF ser k ok]) (use held(1) in auto)
  qed
qed

lemma sw_search_inv:
  assumes at: "sw_at env tg s0 \<sigma> (s, pcs, lg)" and t: "pcs t = SSearch c"
  shows "\<exists>z'. sw_exec env (Step t) (s, pcs, lg) = Inr z' \<and> sw_at env tg s0 \<sigma> z'"
proof -
  note D = sw_atD [OF at]
  have c: "c_pid c = t" "c_tgid c = tg" using D(3) [of t] t by (auto simp: sw_pc_ok_def)
  have sp: "search_process env tg s = search_process env tg \<sigma>"
    using sw_at_view [OF at] by (intro search_process_cong) simp_all
  show ?thesis
  proof (rule search_process_cases [OF D(2), of tg])
    assume n: "search_process env tg \<sigma> = Inr None"
    then have "ioctl_switch env c \<sigma> = Inr (- 1, \<sigma>)" using c by (simp add: ioctl_switch_def)
    then have "sw_serial env (lg @ [Ran c (- 1)]) s0 = Some \<sigma>" by (simp add: sw_serial_append D(1))
    then have "sw_at env tg s0 \<sigma> (s, pcs(t := SDone c (- 1)), lg @ [Ran c (- 1)])"
      by (intro sw_at_move [OF at]) (use t c in \<open>auto simp: sw_pc_ok_def\<close>)
    moreover have "sw_exec env (Step t) (s, pcs, lg) = Inr (s, pcs(t := SDone c (- 1)), lg @ [Ran c (- 1)])"
      using t n c sp by simp
    ultimately show ?thesis by blast
  next
    fix pa p assume pa: "search_process env tg \<sigma> = Inr (Some pa)"
    have "sw_at env tg s0 \<sigma> (s, pcs(t := SLock c pa), lg)"
      by (rule sw_at_move [OF at]) (use t c pa D(1) in \<open>auto simp: sw_pc_ok_def\<close>)
    moreover have "sw_exec env (Step t) (s, pcs, lg) = Inr (s, pcs(t := SLock c pa), lg)"
      using t pa c sp by simp
    ultimately show ?thesis by blast
  qed
qed

lemma sw_lock_inv:
  assumes at: "sw_at env tg s0 \<sigma> (s, pcs, lg)" and t: "pcs t = SLock c pa"
  shows "\<exists>z'. sw_exec env (Step t) (s, pcs, lg) = Inr z' \<and> sw_at env tg s0 \<sigma> z'"
  using at
proof (cases rule: sw_at_cases)
  case free
  note D = sw_atD [OF at]
  have c: "c_pid c = t" "c_tgid c = tg" and sp: "search_process env tg \<sigma> = Inr (Some pa)"
    using D(3) [of t] t by (auto simp: sw_pc_ok_def)
  obtain p where pa: "procs \<sigma> pa = Some p" "proc_inv env \<sigma> p"
    using sp by (rule_tac search_process_cases [OF D(2), of tg]) (auto intro: kinv_proc [OF D(2)])
  let ?s = "\<sigma>\<lparr>procs := (procs \<sigma>)(pa \<mapsto> p\<lparr>lock_fiber := True\<rparr>)\<rparr>"
  have lk: "spin_lock_fiber pa \<sigma> = Inr ?s" using pa proc_locks [OF pa(2)] by (simp add: spin_lock_fiber_def)
  have ex: "sw_exec env (Step t) (s, pcs, lg) = Inr (?s, pcs(t := SFind c pa), lg)"
    using t free(2) pa proc_locks [OF pa(2)] lk by simp
  have "sw_rest env (SFind c pa) ?s = sw_rest env (SSearch c) \<sigma>"
    using sw_rest_step [of env "SSearch c" \<sigma> "SLock c pa" \<sigma>] sp c by (simp add: sw_rest_lock lk)
  then have "sw_holds env \<sigma> ?s (SFind c pa)"
    using pa by (auto simp: sw_holds_def sw_rest_search pkey_def fun_eq_iff)
  then have "sw_at env tg s0 \<sigma> (?s, pcs(t := SFind c pa), lg)"
    by (intro sw_at_held [where t = t] D) (use free(1) D(3) c sp in \<open>auto simp: sw_pc_ok_def\<close>)
  then show ?thesis using ex by blast
next
  case (held u c' pa' p)
  have "pa' = pa" using sw_atD(3) [OF at, of u] sw_atD(3) [OF at, of t] held(5) t by (simp add: sw_pc_ok_def)
  then have "sw_exec env (Step t) (s, pcs, lg) = Inr (s, pcs(t := SLock c pa), lg)"
    using t held by simp
  moreover have "pcs(t := SLock c pa) = pcs" using t by auto
  ultimately show ?thesis using at by simp
qed

lemma sw_section_inv:
  assumes at: "sw_at env tg s0 \<sigma> (s, pcs, lg)" and t: "in_section (pcs t)"
  shows "\<exists>s' pc' lg' \<sigma>'. sw_exec env (Step t) (s, pcs, lg) = Inr (s', pcs(t := pc'), lg') \<and>
    sw_at env tg s0 \<sigma>' (s', pcs(t := pc'), lg') \<and> sw_rank pc' < sw_rank (pcs t) \<and>
    (in_section pc' \<or> (\<exists>c r. pc' = SDone c r)) \<and> list_process s' = list_process s \<and> pkey s' = pkey s"
  using at
proof (cases rule: sw_at_cases)
  case free
  then show ?thesis using t by blast
next
  case (held u c pa p)
  note D = sw_atD [OF at] and V = sw_at_view [OF at]
  have u: "u = t" using held(1) [of t] t by blast
  have c: "c_pid c = t" "c_tgid c = tg" and sp: "search_process env tg \<sigma> = Inr (Some pa)"
    using D(3) [of t] held(4,5) u by (auto simp: sw_pc_ok_def)
  obtain r \<sigma>' where sw: "ioctl_switch env c \<sigma> = Inr (r, \<sigma>')" using switch_total [OF D(2)] by blast
  obtain pc' s' where st: "sw_step env (pcs t) s = Inr (pc', s')"
    using held(8) sw u by (cases "sw_step env (pcs t) s") (auto dest: sw_rest_fault)
  have ne: "pc' \<noteq> pcs t"
  proof
    assume "pc' = pcs t"
    then have "sw_rest env (pcs t) s = Inl Deadlock"
      using st t by (subst sw_rest_unfold) auto
    then show False using held(8) sw u by simp
  qed
  have rank: "sw_rank pc' < sw_rank (pcs t)" using sw_step_rank [OF st] ne by blast
  have rest: "sw_rest env pc' s' = Inr (r, \<sigma>')" using sw_rest_step [OF st ne] held(8) sw u by simp
  have call: "sw_call pc' = Some c" using sw_step_call [OF st] held(4) u by simp
  note S = sw_step_section [OF st t held(5) [unfolded u] held(6,7)]
  have ex: "sw_exec env (Step t) (s, pcs, lg) =
      Inr (s', pcs(t := pc'), lg @ (case pc' of SDone c r \<Rightarrow> [Ran c r] | _ \<Rightarrow> []))"
    using t st by (cases "pcs t") simp_all
  show ?thesis
  proof (cases "in_section pc'")
    case True
    then have "sw_holds env \<sigma> s' pc'" using S V call rest sw by (auto simp: sw_holds_def)
    then have "sw_at env tg s0 \<sigma> (s', pcs(t := pc'), lg)"
      by (intro sw_at_held [where t = t] D)
        (use held(1) u S sp call c D(3) True in \<open>auto simp: sw_pc_ok_def\<close>)
    moreover have "(case pc' of SDone c r \<Rightarrow> [Ran c r] | _ \<Rightarrow> []) = []" using True by (cases pc') auto
    ultimately show ?thesis using ex rank True S by auto
  next
    case False
    then obtain r' where pc': "pc' = SDone c r'" using S call by auto
    then have r': "r' = r" "s' = \<sigma>'" using rest by simp_all
    have ser: "sw_serial env (lg @ [Ran c r]) s0 = Some \<sigma>'" by (simp add: sw_serial_append D(1) sw)
    have "sw_at env tg s0 \<sigma>' (\<sigma>', pcs(t := pc'), lg @ [Ran c r])"
    proof (rule sw_at_free [OF ser ioctl_switch_kinv [OF D(2) sw]])
      fix v show "sw_pc_ok env tg \<sigma>' v ((pcs(t := pc')) v)"
        using sw_pc_ok_cong [of \<sigma>' \<sigma> env tg v, OF _ _ D(3)] S V r'(2) c pc' by (auto simp: sw_pc_ok_def)
    qed (use held(1) u pc' in auto)
    then show ?thesis using ex pc' r' rank S by auto
  qed
qed

lemma sw_exec_inv:
  assumes "sw_inv env tg s0 z" "sw_event_ok env tg e"
  shows "\<exists>z'. sw_exec env e z = Inr z' \<and> sw_inv env tg s0 z'"
proof -
  obtain s pcs lg where z: "z = (s, pcs, lg)" by (cases z) auto
  obtain \<sigma> where at: "sw_at env tg s0 \<sigma> (s, pcs, lg)" using assms(1) z by (auto simp: sw_inv_def)
  show ?thesis
  proof (cases e)
    case (Enter c rs x)
    then show ?thesis
      using sw_enter_inv [OF at assms(2) [unfolded Enter]] at by (auto simp: z sw_inv_def)
  next
    case (Step t)
    show ?thesis
    proof (cases "in_section (pcs t)")
      case True
      then show ?thesis using sw_section_inv [OF at True] Step z unfolding sw_inv_def by blast
    next
      case False
      note m = sw_at_move [OF at False _ _ sw_atD(1) [OF at], of SReady]
      have "pcs t = SReady \<or> (\<exists>c. pcs t = SSearch c) \<or> (\<exists>c pa. pcs t = SLock c pa) \<or> (\<exists>c r. pcs t = SDone c r)"
        using False by (cases "pcs t") simp_all
      then consider (out) "pcs t = SReady \<or> (\<exists>c r. pcs t = SDone c r)" | (search) c where "pcs t = SSearch c"
        | (lock) c pa where "pcs t = SLock c pa" by blast
      then show ?thesis
      proof cases
        case out
        then have ex: "sw_exec env (Step t) (s, pcs, lg) = Inr (s, pcs(t := SReady), lg)" by auto
        then show ?thesis using m ex Step z unfolding sw_inv_def by (auto simp: sw_pc_ok_def)
      next
        case search
        then show ?thesis using sw_search_inv [OF at search] Step z unfolding sw_inv_def by blast
      next
        case lock
        then show ?thesis using sw_lock_inv [OF at lock] Step z unfolding sw_inv_def by blast
      qed
    qed
  qed
qed

lemma sw_run_inv:
  "sw_inv env tg s0 z \<Longrightarrow> \<forall>e\<in>set es. sw_event_ok env tg e \<Longrightarrow>
   \<exists>z'. sw_run env es z = Inr z' \<and> sw_inv env tg s0 z'"
proof (induction es arbitrary: z)
  case (Cons e es)
  then show ?case using sw_exec_inv [OF Cons.prems(1), of e] by fastforce
qed simp

lemma sw_inv_start: "kinv env s \<Longrightarrow> sw_inv env tg s (sw_start s)"
  unfolding sw_inv_def sw_start_def by (rule exI, rule sw_at_free) (simp_all add: sw_pc_ok_def)


text \<open>A thread that has the lock gives it back after at most 15 of its own steps.\<close>

lemma sw_section_leaves:
  "sw_inv env tg s0 (s, pcs, lg) \<Longrightarrow>
   in_section (pcs t) \<and> sw_rank (pcs t) \<le> n \<or> pcs t = SReady \<or> (\<exists>c r. pcs t = SDone c r) \<Longrightarrow>
   \<exists>s' pc lg'. sw_run env (replicate n (Step t)) (s, pcs, lg) = Inr (s', pcs(t := pc), lg') \<and> \<not> in_section pc \<and>
     list_process s' = list_process s \<and> pkey s' = pkey s"
proof (induction n arbitrary: s pcs lg)
  case 0
  then have "\<not> in_section (pcs t)" by (cases "pcs t") auto
  then show ?case by (intro exI [of _ s] exI [of _ "pcs t"] exI [of _ lg]) simp
next
  case (Suc n)
  show ?case
  proof (cases "in_section (pcs t)")
    case True
    obtain \<sigma> where at: "sw_at env tg s0 \<sigma> (s, pcs, lg)" using Suc.prems(1) by (auto simp: sw_inv_def)
    obtain s' pc' lg' \<sigma>' where ex: "sw_exec env (Step t) (s, pcs, lg) = Inr (s', pcs(t := pc'), lg')"
      and at': "sw_at env tg s0 \<sigma>' (s', pcs(t := pc'), lg')" and rk: "sw_rank pc' < sw_rank (pcs t)"
      and pc': "in_section pc' \<or> (\<exists>c r. pc' = SDone c r)" and vw: "list_process s' = list_process s" "pkey s' = pkey s"
      using sw_section_inv [OF at True] by blast
    have inv': "sw_inv env tg s0 (s', pcs(t := pc'), lg')" using at' unfolding sw_inv_def by blast
    have "sw_rank pc' \<le> n" using rk Suc.prems(2) True by auto
    then have "\<exists>s'' pc lg''. sw_run env (replicate n (Step t)) (s', pcs(t := pc'), lg') =
        Inr (s'', (pcs(t := pc'))(t := pc), lg'') \<and> \<not> in_section pc \<and> list_process s'' = list_process s' \<and> pkey s'' = pkey s'"
      using pc' by (intro Suc.IH inv') auto
    then show ?thesis using ex vw by (simp del: sw_exec.simps fun_upd_apply)
  next
    case False
    then have out: "pcs t = SReady \<or> (\<exists>c r. pcs t = SDone c r)" using Suc.prems(2) by blast
    then have ex: "sw_exec env (Step t) (s, pcs, lg) = Inr (s, pcs(t := SReady), lg)" by auto
    have "sw_inv env tg s0 (s, pcs(t := SReady), lg)"
      using sw_exec_inv [OF Suc.prems(1), of "Step t"] ex by (auto simp: sw_event_ok_def simp del: fun_upd_apply)
    then have "\<exists>s'' pc lg''. sw_run env (replicate n (Step t)) (s, pcs(t := SReady), lg) =
        Inr (s'', (pcs(t := SReady))(t := pc), lg'') \<and> \<not> in_section pc \<and> list_process s'' = list_process s \<and> pkey s'' = pkey s"
      by (intro Suc.IH) (assumption, simp)
    then show ?thesis using ex by (simp del: sw_exec.simps fun_upd_apply)
  qed
qed

lemma in_section_rank: "in_section pc \<Longrightarrow> sw_rank pc \<le> 15"
  by (cases pc) simp_all

section \<open>Serializability\<close>

text \<open>C7. SWITCHTOFIBER is atomic: whatever the order in which the threads of a process enter the
  command and make its memory accesses, no thread faults, at most one is between lock and unlock, and
  whenever none is, the kernel state is what the completed commands give one after the other in the
  order of the log, each with the result its thread received, and satisfies the invariant.\<close>

theorem switch_serializable:
  assumes "kinv env s" "\<forall>e\<in>set es. sw_event_ok env tg e"
  shows "\<exists>s' pcs lg. sw_run env es (sw_start s) = Inr (s', pcs, lg) \<and>
    (\<forall>t u. in_section (pcs t) \<longrightarrow> in_section (pcs u) \<longrightarrow> t = u) \<and>
    ((\<forall>t. \<not> in_section (pcs t)) \<longrightarrow> sw_serial env lg s = Some s' \<and> kinv env s')"
proof -
  obtain s' pcs lg \<sigma> where z: "sw_run env es (sw_start s) = Inr (s', pcs, lg)"
    and at: "sw_at env tg s \<sigma> (s', pcs, lg)"
    using sw_run_inv [OF sw_inv_start [OF assms(1)] assms(2)] unfolding sw_inv_def by auto
  have "(\<forall>t u. in_section (pcs t) \<longrightarrow> in_section (pcs u) \<longrightarrow> t = u) \<and>
      ((\<forall>t. \<not> in_section (pcs t)) \<longrightarrow> sw_serial env lg s = Some s' \<and> kinv env s')"
    using at
  proof (cases rule: sw_at_cases)
    case free
    then show ?thesis using sw_atD(1,2) [OF at] by blast
  next
    case (held v c pa p)
    have "x = v" if "in_section (pcs x)" for x using held(1) that by blast
    then show ?thesis using held(3) by blast
  qed
  then show ?thesis using z by blast
qed

text \<open>Two threads of process 7, each a fiber of its own, and both ask for fiber 1.\<close>

definition two_tasks :: kstate where
  "two_tasks = then_state demo2 (ioctl_convert demo_env (demo_call 7 8 0) demo2)"

lemma two_tasks: "ioctl_convert demo_env (demo_call 7 8 0) demo2 = Inr (2, two_tasks) \<and> kinv demo_env two_tasks \<and>
    kabs demo_env two_tasks = [7 \<mapsto> \<lparr>next_index = 3, live = {0, 1, 2}, cur = [7 \<mapsto> 0, 8 \<mapsto> 2]\<rparr>]"
  by (rule convert_step) (use demo2 in \<open>auto simp: two_tasks_def spec_convert_def spec_register_def\<close>)

definition demo_schedule :: "sw_event list" where
  "demo_schedule = [Enter (demo_call 7 7 1) (replicate 21 70) [1], Enter (demo_call 7 8 1) (replicate 21 80) [2],
     Step 7, Step 8, Step 7, Step 8]"

theorem switch_serializable_witness:
  "\<exists>s' pcs lg. sw_run demo_env demo_schedule (sw_start two_tasks) = Inr (s', pcs, lg) \<and>
    (\<forall>t u. in_section (pcs t) \<longrightarrow> in_section (pcs u) \<longrightarrow> t = u) \<and>
    ((\<forall>t. \<not> in_section (pcs t)) \<longrightarrow> sw_serial demo_env lg two_tasks = Some s' \<and> kinv demo_env s')"
  by (rule switch_serializable [where tg = 7])
    (use two_tasks in \<open>auto simp: demo_schedule_def sw_event_ok_def demo_env_def\<close>)

text \<open>The lock of the process is held exactly while a thread is in the section.\<close>

lemma sw_lock_held:
  assumes at: "sw_at env tg s0 \<sigma> (s, pcs, lg)" and sp: "search_process env tg \<sigma> = Inr (Some pa)"
  shows "\<exists>p. procs s pa = Some p \<and> (lock_fiber p \<longleftrightarrow> (\<exists>u. in_section (pcs u)))"
  using at
proof (cases rule: sw_at_cases)
  case free
  note k = sw_atD(2) [OF at]
  obtain p where "procs \<sigma> pa = Some p" "proc_inv env \<sigma> p"
    using sp by (rule_tac search_process_cases [OF k, of tg]) (auto intro: kinv_proc [OF k])
  then show ?thesis using free proc_locks by blast
next
  case (held u c pa' p)
  have "pa' = pa" using sw_atD(3) [OF at, of u] held(5) sp by (simp add: sw_pc_ok_def)
  then show ?thesis using held(3,6,7) by blast
qed

text \<open>C8. The lock of a process is given back: from every state that an interleaving of its threads in
  SWITCHTOFIBER reaches, \<open>lock_fiber\<close> of the process a thread works on is held exactly while some thread
  is between lock and unlock; 15 steps of that thread release it, on every path of the command, and
  whichever thread waits for it has it with its next step.\<close>

theorem switch_lock_released:
  assumes "kinv env s" "\<forall>e\<in>set es. sw_event_ok env tg e"
    and "sw_run env es (sw_start s) = Inr (s1, pcs, lg)" "sw_process (pcs t) = Some pa"
  shows "\<exists>p. procs s1 pa = Some p \<and> (lock_fiber p \<longleftrightarrow> (\<exists>u. in_section (pcs u))) \<and>
    (in_section (pcs t) \<longrightarrow> (\<exists>s2 pcs2 lg2 p2. sw_run env (replicate 15 (Step t)) (s1, pcs, lg) = Inr (s2, pcs2, lg2) \<and>
      procs s2 pa = Some p2 \<and> \<not> lock_fiber p2 \<and> (\<forall>u. \<not> in_section (pcs2 u)) \<and>
      (\<forall>u c. pcs u = SLock c pa \<longrightarrow> (\<exists>s3 pcs3 lg3. sw_exec env (Step u) (s2, pcs2, lg2) = Inr (s3, pcs3, lg3) \<and>
        in_section (pcs3 u)))))"
proof -
  have inv: "sw_inv env tg s (s1, pcs, lg)"
    using sw_run_inv [OF sw_inv_start [OF assms(1)] assms(2)] assms(3) by auto
  then obtain \<sigma> where at: "sw_at env tg s \<sigma> (s1, pcs, lg)" by (auto simp: sw_inv_def)
  have sp: "search_process env tg \<sigma> = Inr (Some pa)" using sw_atD(3) [OF at, of t] assms(4) by (simp add: sw_pc_ok_def)
  obtain p where p: "procs s1 pa = Some p" "lock_fiber p \<longleftrightarrow> (\<exists>u. in_section (pcs u))"
    using sw_lock_held [OF at sp] by blast
  have "\<exists>s2 pcs2 lg2 p2. sw_run env (replicate 15 (Step t)) (s1, pcs, lg) = Inr (s2, pcs2, lg2) \<and>
      procs s2 pa = Some p2 \<and> \<not> lock_fiber p2 \<and> (\<forall>u. \<not> in_section (pcs2 u)) \<and>
      (\<forall>u c. pcs u = SLock c pa \<longrightarrow> (\<exists>s3 pcs3 lg3. sw_exec env (Step u) (s2, pcs2, lg2) = Inr (s3, pcs3, lg3) \<and>
        in_section (pcs3 u)))" if sec: "in_section (pcs t)"
  proof -
    have others: "\<not> in_section (pcs u)" if "u \<noteq> t" for u
      using at by (cases rule: sw_at_cases) (use that sec in \<open>metis+\<close>)
    obtain s2 pc lg2 where run: "sw_run env (replicate 15 (Step t)) (s1, pcs, lg) = Inr (s2, pcs(t := pc), lg2)"
      and pc: "\<not> in_section pc" and vw: "list_process s2 = list_process s1" "pkey s2 = pkey s1"
      using sw_section_leaves [OF inv, of t 15] in_section_rank sec by blast
    have out: "\<not> in_section ((pcs(t := pc)) u)" for u using others [of u] pc by simp
    have "\<forall>e\<in>set (replicate 15 (Step t)). sw_event_ok env tg e" by (simp add: sw_event_ok_def)
    then obtain \<sigma>2 where at2: "sw_at env tg s \<sigma>2 (s2, pcs(t := pc), lg2)"
      using sw_run_inv [OF inv, of "replicate 15 (Step t)"] run unfolding sw_inv_def by auto
    have "search_process env tg \<sigma>2 = Inr (Some pa)"
      using search_process_cong [of \<sigma>2 \<sigma> env tg] sw_at_view [OF at] sw_at_view [OF at2] vw sp by simp
    from sw_lock_held [OF at2 this] out obtain p2 where p2: "procs s2 pa = Some p2" "\<not> lock_fiber p2" by blast
    have "\<exists>s3 pcs3 lg3. sw_exec env (Step u) (s2, pcs(t := pc), lg2) = Inr (s3, pcs3, lg3) \<and> in_section (pcs3 u)"
      if w: "pcs u = SLock c pa" for u c
    proof -
      have "u \<noteq> t" using w sec by auto
      then show ?thesis using w p2 by (simp add: spin_lock_fiber_def)
    qed
    then show ?thesis using run p2 out by blast
  qed
  then show ?thesis using p by blast
qed

text \<open>After \<open>demo_schedule\<close> thread 7 has the lock of process 7 and thread 8 waits for it.\<close>

lemma demo_schedule_run:
  obtains s pcs lg pa where "sw_run demo_env demo_schedule (sw_start two_tasks) = Inr (s, pcs, lg)"
    "sw_process (pcs 7) = Some pa" "in_section (pcs 7)" "pcs 8 = SLock (demo_call 7 8 1) pa"
proof (rule search_process_cases [of demo_env two_tasks 7])
  fix pa p assume pa: "search_process demo_env 7 two_tasks = Inr (Some pa)" "procs two_tasks pa = Some p"
    and p: "proc_inv demo_env two_tasks p"
  show thesis
    by (rule that [where pcs = "(\<lambda>_. SReady)(7 := SFind (demo_call 7 7 1) pa, 8 := SLock (demo_call 7 8 1) pa)"])
      (use pa proc_locks [OF p] in
      \<open>simp_all add: demo_schedule_def sw_start_def set_user_searches spin_lock_fiber_def\<close>)
next
  assume "search_process demo_env 7 two_tasks = Inr None"
  then have "kabs demo_env two_tasks 7 = None" by (simp add: kabs_def)
  then show thesis using two_tasks by simp
qed (use two_tasks in simp)

theorem switch_lock_released_witness:
  "\<exists>s pcs lg pa p s2 pcs2 lg2 p2 s3 pcs3 lg3. sw_run demo_env demo_schedule (sw_start two_tasks) = Inr (s, pcs, lg) \<and>
    procs s pa = Some p \<and> lock_fiber p \<and>
    sw_run demo_env (replicate 15 (Step 7)) (s, pcs, lg) = Inr (s2, pcs2, lg2) \<and> procs s2 pa = Some p2 \<and> \<not> lock_fiber p2 \<and>
    sw_exec demo_env (Step 8) (s2, pcs2, lg2) = Inr (s3, pcs3, lg3) \<and> in_section (pcs3 8)"
proof -
  obtain s pcs lg pa where run: "sw_run demo_env demo_schedule (sw_start two_tasks) = Inr (s, pcs, lg)"
    and sec: "sw_process (pcs 7) = Some pa" "in_section (pcs 7)" "pcs 8 = SLock (demo_call 7 8 1) pa"
    by (rule demo_schedule_run)
  have "\<forall>e\<in>set demo_schedule. sw_event_ok demo_env 7 e"
    by (simp add: demo_schedule_def sw_event_ok_def demo_env_def)
  from switch_lock_released [OF conjunct1 [OF conjunct2 [OF two_tasks]] this run sec(1)] sec(2)
  obtain p s2 pcs2 lg2 p2 where r: "procs s pa = Some p" "lock_fiber p"
    "sw_run demo_env (replicate 15 (Step 7)) (s, pcs, lg) = Inr (s2, pcs2, lg2)" "procs s2 pa = Some p2" "\<not> lock_fiber p2"
    and next_one: "\<forall>u c. pcs u = SLock c pa \<longrightarrow> (\<exists>s3 pcs3 lg3. sw_exec demo_env (Step u) (s2, pcs2, lg2) = Inr (s3, pcs3, lg3) \<and>
      in_section (pcs3 u))" by blast
  from next_one sec(3) obtain s3 pcs3 lg3 where "sw_exec demo_env (Step 8) (s2, pcs2, lg2) = Inr (s3, pcs3, lg3)"
    "in_section (pcs3 8)" by blast
  with run r show ?thesis by blast
qed

end
