(* ===== verification/Convert_Race.thy ===== *)
theory Convert_Race
  imports Demo
begin

text \<open>
  CONVERTTOFIBER looks for its process and enters it into the list without a lock around the two
  (\<^verbatim>\<open>multi_thread/Module/fiber_ioctl.c\<close>). The command is cut between them
  (\<open>convert_split\<close>), and two threads of a process the module does not know are followed through
  the schedule in which both have searched before either enters anything. This is the situation of
  \<^verbatim>\<open>multi_thread/src/main.c\<close>, whose threads all call \<^verbatim>\<open>ConvertThreadToFiber\<close>
  at the same time.
\<close>

section \<open>The two halves of the command\<close>

definition convert_find :: "kenv \<Rightarrow> call \<Rightarrow> kstate \<Rightarrow> fault + (addr option \<times> addr option) \<times> kstate" where
  "convert_find env c s =
     (case kzalloc_fiber env (ok_fiber c) s of (fiber, s) \<Rightarrow>
      kbind (search_process env (c_tgid c) s) (\<lambda>pr. Inr ((fiber, pr), s)))"

definition convert_enter :: "kenv \<Rightarrow> call \<Rightarrow> addr option \<times> addr option \<Rightarrow> kstate \<Rightarrow> fault + u64 \<times> kstate" where
  "convert_enter env c found s = (case found of
      (fiber, Some pa) \<Rightarrow> convert_thread env c fiber pa s
    | (fiber, None) \<Rightarrow>
       (case kzalloc_process (ok_process c) s of
          (None, s) \<Rightarrow> Inr (- ENOMEM, s)
        | (Some pa, s) \<Rightarrow>
           kbind (modify_proc pa (\<lambda>p. p\<lparr>fiber_id := 0, p_pid := c_tgid c\<rparr>) s) (\<lambda>s.
           let s = s\<lparr>list_process := hash_add (hash_32 env (c_tgid c)) pa (list_process s)\<rparr> in
           kbind (modify_proc pa (\<lambda>p. p\<lparr>threads := hash_init, fibers := hash_init\<rparr>) s)
             (convert_thread env c fiber pa))))"

lemma convert_split: "ioctl_convert env c s = kbind (convert_find env c s) (\<lambda>(found, s). convert_enter env c found s)"
  by (cases "search_process env (c_tgid c) (snd (kzalloc_fiber env (ok_fiber c) s))")
    (auto simp: ioctl_convert_def convert_find_def convert_enter_def case_prod_beta split: option.split)

section \<open>Both search first\<close>

lemma convert_find_none:
  assumes "ok_fiber c" "search_process env (c_tgid c) s = Inr None"
  shows "convert_find env c s = Inr ((Some (brk s), None), convert_entry env c s)"
  unfolding convert_find_def convert_entry_pair using assms by simp

text \<open>What entering the process and the thread leaves, in any state.\<close>

definition entered :: "kenv \<Rightarrow> call \<Rightarrow> addr \<Rightarrow> fiber_arg \<Rightarrow> kstate \<Rightarrow> kstate" where
  "entered env c fa f0 s = link_thread env (c_pid c) (brk s) fa
     (init_converted env c (link_process env (c_tgid c) s) 0 f0) (fresh_process (c_tgid c))
     (link_process env (c_tgid c) s)"

lemma convert_enter_none:
  assumes "ok_process c" "ok_thread c" "fibs s fa = Some f0"
  shows "convert_enter env c (Some fa, None) s = Inr (0, entered env c fa f0 s)"
proof -
  let ?l = "link_process env (c_tgid c) s"
  have "convert_enter env c (Some fa, None) s = convert_thread env c (Some fa) (brk s) ?l"
    using assms(1) by (simp add: convert_enter_def kzalloc_process_def link_process_def zero_process_def
        fresh_process_def)
  also have "\<dots> = Inr (fiber_id (fresh_process (c_tgid c)), link_thread env (c_pid c) (brk s) fa
      (init_converted env c ?l (fiber_id (fresh_process (c_tgid c))) f0) (fresh_process (c_tgid c)) ?l)"
    by (rule convert_thread_success)
      (use assms in \<open>simp_all add: link_process_def fresh_process_def pid_find_def hash_init_def\<close>)
  finally show ?thesis by (simp add: entered_def fresh_process_def)
qed

lemma entered_simps:
  "list_process (entered env c fa f0 s) = hash_add (hash_32 env (c_tgid c)) (brk s) (list_process s)"
  "procs (entered env c fa f0 s) = (procs s)(brk s \<mapsto> (fresh_process (c_tgid c))\<lparr>fiber_id := 1,
     threads := hash_add (hash_32 env (c_pid c)) (Suc (brk s)) hash_init,
     fibers := hash_add (hash_long env 0) fa hash_init\<rparr>)"
  "thrs (entered env c fa f0 s) = (thrs s)(Suc (brk s) \<mapsto> \<lparr>t_pid = c_pid c, active_fiber = Some fa\<rparr>)"
  "fibs (entered env c fa f0 s) = (fibs s)(fa \<mapsto> init_converted env c (link_process env (c_tgid c) s) 0 f0)"
  by (simp_all add: entered_def link_thread_def link_process_def fresh_process_def)

text \<open>In that state the process found is the one entered last, and only its thread is known there.\<close>

lemma entered_lookup:
  assumes tg: "c_tgid c' = c_tgid c" and pid: "c_pid c' \<noteq> c_pid c" and s': "s' = entered env c fa f0 s"
  obtains p f where "search_process env (c_tgid c') s' = Inr (Some (brk s))" "procs s' (brk s) = Some p"
    "\<not> lock_fiber p" "\<not> lock_hash p" "pid_find env (tkey s') (c_pid c') (threads p) = Inr None"
    "search_fiber env i (brk s) s' = Inr None \<or> search_fiber env i (brk s) s' = Inr (Some fa)"
    "fibs s' fa = Some f" "running f"
proof -
  let ?p = "(fresh_process (c_tgid c))\<lparr>fiber_id := 1, threads := hash_add (hash_32 env (c_pid c)) (Suc (brk s)) hash_init,
     fibers := hash_add (hash_long env 0) fa hash_init\<rparr>"
  show thesis
  proof (rule that [where p = ?p and f = "init_converted env c (link_process env (c_tgid c) s) 0 f0"])
    show "search_process env (c_tgid c') s' = Inr (Some (brk s))"
      by (simp add: s' search_process_def entered_simps hash_add_def pkey_def fresh_process_def tg)
    show "pid_find env (tkey s') (c_pid c') (threads ?p) = Inr None"
      using pid by (simp add: s' entered_simps pid_find_def hash_add_def hash_init_def tkey_def)
    show "search_fiber env i (brk s) s' = Inr None \<or> search_fiber env i (brk s) s' = Inr (Some fa)"
      by (auto simp: s' search_fiber_def entered_simps hash_add_def hash_init_def fkey_def)
  qed (simp_all add: s' entered_simps fresh_process_def)
qed

lemma entered_refuses:
  assumes "c_tgid c' = c_tgid c" "c_pid c' \<noteq> c_pid c" "s' = entered env c fa f0 s"
  shows "\<exists>s''. ioctl_switch env c' s' = Inr (- 1, s'')"
    and "ok_args c' \<Longrightarrow> \<exists>s''. ioctl_create env c' s' = Inr (- 1, s'')"
proof -
  obtain p f where L: "search_process env (c_tgid c') s' = Inr (Some (brk s))" "procs s' (brk s) = Some p"
    "\<not> lock_fiber p" "\<not> lock_hash p" "pid_find env (tkey s') (c_pid c') (threads p) = Inr None"
    "search_fiber env (ucast (c_arg c')) (brk s) s' = Inr None \<or>
     search_fiber env (ucast (c_arg c')) (brk s) s' = Inr (Some fa)"
    "fibs s' fa = Some f" "running f"
    by (rule entered_lookup [OF assms])
  then show "\<exists>s''. ioctl_switch env c' s' = Inr (- 1, s'')"
    using ioctl_switch_refused(1,2) [OF L(1-4)] by blast
  have "search_process env (c_tgid c') (create_entry env c' s') = Inr (Some (brk s))"
    using L(1) by (simp add: search_process_def)
  then show "\<exists>s''. ioctl_create env c' s' = Inr (- 1, s'')" if "ok_args c'"
    using ioctl_create_refused(1,3) [OF that] L(2,4,5) by (cases "user_create c'") blast+
qed

section \<open>The race\<close>

text \<open>C35. Two threads of a process the module does not know convert themselves and both search
  before either enters the process: both get fiber 0, the list ends up with two entries for the
  process, and the one found from then on does not know the first thread, so that its CREATEFIBER
  and SWITCHTOFIBER are refused although its conversion succeeded.\<close>

theorem convert_race:
  assumes "search_process env tg s = Inr None" "c_tgid c1 = tg" "c_tgid c2 = tg" "c_pid c1 \<noteq> c_pid c2"
    and "ok_fiber c1" "ok_process c1" "ok_thread c1" "ok_fiber c2" "ok_process c2" "ok_thread c2"
  shows "\<exists>f1 s1 f2 s2 s3 s4 pa pb. convert_find env c1 s = Inr (f1, s1) \<and> convert_find env c2 s1 = Inr (f2, s2) \<and>
    convert_enter env c1 f1 s2 = Inr (0, s3) \<and> convert_enter env c2 f2 s3 = Inr (0, s4) \<and>
    pa \<noteq> pb \<and> pa \<in> mem (list_process s4) \<and> pb \<in> mem (list_process s4) \<and>
    pkey s4 pa = Some tg \<and> pkey s4 pb = Some tg \<and>
    (\<forall>c. c_tgid c = tg \<longrightarrow> c_pid c = c_pid c1 \<longrightarrow>
      (\<exists>s5. ioctl_switch env c s4 = Inr (- 1, s5)) \<and>
      (ok_args c \<longrightarrow> (\<exists>s5. ioctl_create env c s4 = Inr (- 1, s5))))"
proof -
  let ?s1 = "convert_entry env c1 s"
  let ?s2 = "convert_entry env c2 ?s1"
  let ?s3 = "entered env c1 (brk s) (zero_fiber env) ?s2"
  let ?s4 = "entered env c2 (brk ?s1) (zero_fiber env) ?s3"
  have f1: "convert_find env c1 s = Inr ((Some (brk s), None), ?s1)"
    using assms by (simp add: convert_find_none)
  have f2: "convert_find env c2 ?s1 = Inr ((Some (brk ?s1), None), ?s2)"
    using assms by (simp add: convert_find_none)
  have e1: "convert_enter env c1 (Some (brk s), None) ?s2 = Inr (0, ?s3)"
    using assms by (intro convert_enter_none) (simp_all add: convert_entry_fiber)
  have e2: "convert_enter env c2 (Some (brk ?s1), None) ?s3 = Inr (0, ?s4)"
    using assms by (intro convert_enter_none) (simp_all add: entered_simps convert_entry_fiber)
  have brk3: "brk ?s3 = Suc (Suc (brk ?s2))" by (simp add: entered_def link_thread_def link_process_def)
  have "pkey ?s4 (brk ?s2) = Some tg" "pkey ?s4 (brk ?s3) = Some tg"
    using assms(2,3) by (simp_all add: pkey_def entered_simps brk3 fresh_process_def)
  moreover have "brk ?s2 \<in> mem (list_process ?s4)" "brk ?s3 \<in> mem (list_process ?s4)" "brk ?s2 \<noteq> brk ?s3"
    by (simp_all add: entered_simps brk3)
  moreover have "(\<exists>s5. ioctl_switch env c ?s4 = Inr (- 1, s5)) \<and>
      (ok_args c \<longrightarrow> (\<exists>s5. ioctl_create env c ?s4 = Inr (- 1, s5)))"
    if "c_tgid c = tg" "c_pid c = c_pid c1" for c
    using entered_refuses [of c c2 ?s4, OF _ _ refl] that assms(3,4) by simp
  ultimately show ?thesis using f1 f2 e1 e2 by blast
qed

theorem convert_race_witness:
  "\<exists>f1 s1 f2 s2 s3 s4 pa pb. convert_find demo_env (demo_call 7 7 0) demo0 = Inr (f1, s1) \<and>
    convert_find demo_env (demo_call 7 8 0) s1 = Inr (f2, s2) \<and>
    convert_enter demo_env (demo_call 7 7 0) f1 s2 = Inr (0, s3) \<and>
    convert_enter demo_env (demo_call 7 8 0) f2 s3 = Inr (0, s4) \<and>
    pa \<noteq> pb \<and> pa \<in> mem (list_process s4) \<and> pb \<in> mem (list_process s4) \<and>
    pkey s4 pa = Some 7 \<and> pkey s4 pb = Some 7 \<and>
    (\<forall>c. c_tgid c = 7 \<longrightarrow> c_pid c = c_pid (demo_call 7 7 0) \<longrightarrow>
      (\<exists>s5. ioctl_switch demo_env c s4 = Inr (- 1, s5)) \<and>
      (ok_args c \<longrightarrow> (\<exists>s5. ioctl_create demo_env c s4 = Inr (- 1, s5))))"
  by (rule convert_race) (simp_all add: demo0_def init_state_def search_process_def hash_init_def)

end
