(* ===== verification/Single_Races.thy ===== *)
theory Single_Races
  imports Single_Props
begin

text \<open>
  SWITCHTOFIBER of the earlier version (\<^verbatim>\<open>single_thread/Module/fiber_ioctl.c\<close>) takes no lock.
  The command is cut between its searches and the switch itself (\<open>st_switch_split\<close>), and two threads
  are followed that ask for the same idle fiber and have both searched before either switches. The
  later version excludes this (\<open>Switch_Atomic\<close>).
\<close>

section \<open>The two halves of the command\<close>

definition st_switch_find :: "st_env \<Rightarrow> st_call \<Rightarrow> st_state \<Rightarrow> fault + (addr \<times> addr) option" where
  "st_switch_find env c s =
     kbind (st_search_process env (sc_tgid c) s) (\<lambda>pr.
       case pr of
         None \<Rightarrow> Inr None
       | Some pa \<Rightarrow> kbind (st_search_fiber env (ucast (sc_arg c)) pa s) (\<lambda>fr.
           case fr of
             None \<Rightarrow> Inr None
           | Some fa \<Rightarrow> kbind (st_search_thread env (sc_pid c) pa s) (\<lambda>tr.
               case tr of
                 None \<Rightarrow> Inr None
               | Some ta \<Rightarrow> Inr (Some (ta, fa)))))"

definition st_switch_do :: "st_env \<Rightarrow> st_call \<Rightarrow> (addr \<times> addr) option \<Rightarrow> st_state \<Rightarrow> fault + u64 \<times> st_state" where
  "st_switch_do env c found s = (case found of
      None \<Rightarrow> Inr (- 1, s)
    | Some (ta, fa) \<Rightarrow> kbind (st_switch_context env c ta fa s) (\<lambda>s. Inr (0, s)))"

lemma st_switch_split:
  "st_switch env c s = kbind (st_switch_find env c s) (\<lambda>found. st_switch_do env c found s)"
proof (cases "st_search_process env (sc_tgid c) s")
  case (Inr pr)
  show ?thesis
  proof (cases pr)
    case (Some pa)
    then show ?thesis
      using Inr by (cases "st_search_fiber env (ucast (sc_arg c)) pa s"; cases "st_search_thread env (sc_pid c) pa s")
        (auto simp: st_switch_def st_switch_find_def st_switch_do_def split: option.split)
  qed (use Inr in \<open>simp add: st_switch_def st_switch_find_def st_switch_do_def\<close>)
qed (simp add: st_switch_def st_switch_find_def st_switch_do_def)

section \<open>A registered thread and an idle fiber\<close>

text \<open>What the searches find, and everything the switch will touch.\<close>

definition can_switch :: "st_state \<Rightarrow> pid_t \<Rightarrow> addr \<Rightarrow> addr \<Rightarrow> addr \<Rightarrow> pt_regs \<Rightarrow> bool" where
  "can_switch s k ta fa rn img \<longleftrightarrow> (\<exists>t af fo ro io xo mo fn. st_thrs s ta = Some t \<and> st_tpid t = k \<and>
     st_active t = Some af \<and> st_fibs s af = Some fo \<and> st_regs fo = Some ro \<and> st_pregs s ro = Some io \<and>
     st_fpu fo = Some xo \<and> st_fpus s xo = Some mo \<and> st_fibs s fa = Some fn \<and> st_regs fn = Some rn \<and>
     st_pregs s rn = Some img \<and> af \<noteq> fa \<and> ro \<noteq> rn \<and> xo < st_brk s)"

lemma can_switchI:
  assumes i: "st_inv env s" and q: "st_abs env s (sc_tgid c) = Some q"
    and reg: "cur q (sc_pid c) \<noteq> None" and idle: "int_cut (sc_arg c) \<in> live q" "int_cut (sc_arg c) \<notin> ran (cur q)"
  obtains ta fa rn img pa where "st_switch_find env c s = Inr (Some (ta, fa))" "can_switch s (sc_pid c) ta fa rn img"
    "st_search_process env (sc_tgid c) s = Inr (Some pa)" "st_search_fiber env (ucast (sc_arg c)) pa s = Inr (Some fa)"
    "regs_of s fa = Some rn"
  using i
proof (cases rule: st_process_cases [where k = "sc_tgid c"])
  case None
  then show thesis using q by simp
next
  case (Some pa p)
  note pa = this
  have qp: "q = st_aproc env s p" using pa(5) q by simp
  obtain n where n: "proc_inv (kern env) (embed (kern env) n s) (embed_process p)" by (rule st_proc_inv [OF i pa(2,3)])
  show thesis
    using n pa(3)
  proof (cases rule: st_search_fiber_cases [where k = "sc_arg c"])
    case None
    then show thesis using idle st_running_iff [OF i pa(2,3)] unfolding qp by (metis st_live_iff)
  next
    case (Some fa fn)
    note fa = this
    show thesis
      using i pa(2,3)
    proof (cases rule: st_thread_cases [where k = "sc_pid c"])
      case None
      then show thesis using reg qp by simp
    next
      case (Some ta t af fo)
      have o: "objects_ok env s" using i by (simp add: st_inv_def)
      have L: "af \<in> linked s" "fa \<in> linked s" and ne: "af \<noteq> fa" using pa Some fa by (auto simp: linked_def)
      obtain ro xo where ro: "regs_of s af = Some ro" "fpu_of s af = Some xo" "xo < st_brk s" by (rule owns_old [OF o L(1)])
      obtain rn where rn: "regs_of s fa = Some rn" by (rule owns_old [OF o L(2)])
      have "ro \<noteq> rn" using o L ne ro(1) rn by (auto simp: objects_ok_def inj_on_def)
      moreover obtain io mo where "st_pregs s ro = Some io" "st_fpus s xo = Some mo"
        using objects_owns [OF o L(1)] ro by (auto simp: owns_def regs_of_def fpu_of_def)
      moreover obtain img where img: "st_pregs s rn = Some img"
        using objects_owns [OF o L(2)] rn by (auto simp: owns_def regs_of_def)
      ultimately have "can_switch s (sc_pid c) ta fa rn img"
        using ro rn Some fa(3) ne by (auto simp: can_switch_def regs_of_def fpu_of_def)
      moreover have "st_switch_find env c s = Inr (Some (ta, fa))"
        using pa(1) fa(1) Some(1) by (simp add: st_switch_find_def)
      ultimately show thesis using that rn pa(1) fa(1) by blast
    qed
  qed
qed

text \<open>The switch of one thread leaves another one able to switch to the very same fiber.\<close>

lemma can_switch_do:
  assumes c: "can_switch s (sc_pid c) ta fa rn img" and m: "kmalloc_ok env (st_brk s)"
    and u: "st_env_ok env" "length (st_uregs s (sc_pid c)) = nregs (kern env)"
  obtains s' t' where "st_switch_do env c (Some (ta, fa)) s = Inr (0, s')"
    "st_thrs s' = (st_thrs s)(ta \<mapsto> t')" "st_active t' = Some fa"
    "\<And>j. st_uregs s' (sc_pid c) ! slot_of env j = img ! slot_of env j"
    "\<And>k. k \<noteq> sc_pid c \<Longrightarrow> st_uregs s' k = st_uregs s k"
    "st_brk s' = st_brk s + 1"
    "\<And>k tb. can_switch s k tb fa rn img \<Longrightarrow> k \<noteq> sc_pid c \<Longrightarrow> can_switch s' k tb fa rn img \<and> tb \<noteq> ta"
proof -
  obtain t af fo ro io xo mo fn where C: "st_thrs s ta = Some t" "st_tpid t = sc_pid c"
     "st_active t = Some af" "st_fibs s af = Some fo" "st_regs fo = Some ro" "st_pregs s ro = Some io"
     "st_fpu fo = Some xo" "st_fpus s xo = Some mo" "st_fibs s fa = Some fn" "st_regs fn = Some rn"
     "st_pregs s rn = Some img" "af \<noteq> fa" "ro \<noteq> rn" "xo < st_brk s"
    using c by (auto simp: can_switch_def)
  let ?s = "st_switched env c ta af fa s"
  have "st_switch_do env c (Some (ta, fa)) s = Inr (0, ?s)"
    using st_switch_context_eq [OF C(1,3-14)] m by (simp add: st_switch_do_def)
  moreover have "can_switch ?s k tb fa rn img \<and> tb \<noteq> ta" if k: "can_switch s k tb fa rn img" "k \<noteq> sc_pid c" for k tb
  proof -
    have "tb \<noteq> ta" using k C(1,2) by (auto simp: can_switch_def)
    then show ?thesis using k C unfolding can_switch_def st_switched_def Let_def by fastforce
  qed
  ultimately show thesis
    using that [of ?s "t\<lparr>st_active := Some fa\<rparr>"] C copy_regs_slot [OF u]
    by (simp add: st_switched_def Let_def)
qed

section \<open>The race\<close>

text \<open>C20. In the earlier version two registered threads that ask for the same idle fiber and have both
  searched before either switches are both told that they succeeded: both have that fiber as their
  active one, and both continue with its instruction pointer and on its stack.\<close>

theorem st_switch_race:
  assumes "st_env_ok env" "st_inv env s" "memory_ok env" "st_abs env s (sc_tgid c1) = Some q"
    and "sc_tgid c2 = sc_tgid c1" "sc_pid c1 \<noteq> sc_pid c2" "sc_arg c2 = sc_arg c1"
    and "cur q (sc_pid c1) \<noteq> None" "cur q (sc_pid c2) \<noteq> None"
    and "int_cut (sc_arg c1) \<in> live q" "int_cut (sc_arg c1) \<notin> ran (cur q)"
  shows "\<exists>t1 t2 fa s1 s2 u1 u2. st_switch_find env c1 s = Inr (Some (t1, fa)) \<and> st_switch_find env c2 s = Inr (Some (t2, fa)) \<and>
    st_switch_do env c1 (Some (t1, fa)) s = Inr (0, s1) \<and> st_switch_do env c2 (Some (t2, fa)) s1 = Inr (0, s2) \<and>
    st_thrs s2 t1 = Some u1 \<and> st_thrs s2 t2 = Some u2 \<and> t1 \<noteq> t2 \<and> st_active u1 = Some fa \<and> st_active u2 = Some fa \<and>
    (\<forall>r. st_uregs s2 (sc_pid c1) ! slot_of env r = st_uregs s2 (sc_pid c2) ! slot_of env r)"
proof -
  note i = assms(2)
  have m: "kmalloc_ok env a" for a using assms(3) by (simp add: memory_ok_def)
  obtain t1 fa rn img pa where f1: "st_switch_find env c1 s = Inr (Some (t1, fa))" and w1: "can_switch s (sc_pid c1) t1 fa rn img"
    and pa: "st_search_process env (sc_tgid c1) s = Inr (Some pa)" "st_search_fiber env (ucast (sc_arg c1)) pa s = Inr (Some fa)"
    and rn: "regs_of s fa = Some rn"
    by (rule can_switchI [OF i assms(4,8,10,11)])
  have q2: "st_abs env s (sc_tgid c2) = Some q" "int_cut (sc_arg c2) \<in> live q" "int_cut (sc_arg c2) \<notin> ran (cur q)"
    using assms(4,5,7,10,11) by simp_all
  obtain t2 fb rn' img' pb where f2: "st_switch_find env c2 s = Inr (Some (t2, fb))" and w2: "can_switch s (sc_pid c2) t2 fb rn' img'"
    and pb: "st_search_process env (sc_tgid c2) s = Inr (Some pb)" "st_search_fiber env (ucast (sc_arg c2)) pb s = Inr (Some fb)"
    and rn': "regs_of s fb = Some rn'"
    by (rule can_switchI [OF i q2(1) assms(9) q2(2,3)])
  have fb: "fb = fa" using pa pb assms(5,7) by simp
  have "rn' = rn" using rn rn' fb by simp
  moreover have "img' = img" using w1 w2 fb calculation by (auto simp: can_switch_def)
  ultimately have w2: "can_switch s (sc_pid c2) t2 fa rn img" using w2 fb by simp
  have ne: "sc_pid c2 \<noteq> sc_pid c1" using assms(6) by simp
  obtain s1 u1 where d1: "st_switch_do env c1 (Some (t1, fa)) s = Inr (0, s1)" "st_thrs s1 = (st_thrs s)(t1 \<mapsto> u1)"
      "st_active u1 = Some fa" "\<And>j. st_uregs s1 (sc_pid c1) ! slot_of env j = img ! slot_of env j"
      "\<And>k. k \<noteq> sc_pid c1 \<Longrightarrow> st_uregs s1 k = st_uregs s k"
    and w2': "can_switch s1 (sc_pid c2) t2 fa rn img" "t2 \<noteq> t1"
    using can_switch_do [OF w1 m assms(1) st_uregs_length [OF i]] w2 ne by metis
  have len: "length (st_uregs s1 (sc_pid c2)) = nregs (kern env)" using d1(5) [OF ne] st_uregs_length [OF i] by simp
  obtain s2 u2 where d2: "st_switch_do env c2 (Some (t2, fa)) s1 = Inr (0, s2)" "st_thrs s2 = (st_thrs s1)(t2 \<mapsto> u2)"
      "st_active u2 = Some fa" "\<And>j. st_uregs s2 (sc_pid c2) ! slot_of env j = img ! slot_of env j"
      "\<And>k. k \<noteq> sc_pid c2 \<Longrightarrow> st_uregs s2 k = st_uregs s1 k"
    using can_switch_do [OF w2'(1) m assms(1) len] by metis
  have "st_thrs s2 t1 = Some u1" "st_thrs s2 t2 = Some u2" using d1(2) d2(2) w2'(2) by simp_all
  moreover have "\<forall>r. st_uregs s2 (sc_pid c1) ! slot_of env r = st_uregs s2 (sc_pid c2) ! slot_of env r"
    using d1(4) d2(4) d2(5) [OF assms(6)] by simp
  ultimately show ?thesis using f1 f2 fb d1(1,3) d2(1,3) w2'(2) by metis
qed

text \<open>Task 8 of process 7 has become fiber 2; it and task 7 ask for fiber 1.\<close>

definition st_two :: st_state where
  "st_two = then_state st2 (st_convert st_demo_env (st_demo_call 7 8 0) st2)"

lemma st_two: "st_inv st_demo_env st_two \<and>
  st_abs st_demo_env st_two = [7 \<mapsto> \<lparr>next_index = 3, live = {0, 1, 2}, cur = [7 \<mapsto> 0, 8 \<mapsto> 2]\<rparr>]"
proof -
  have i: "st_inv st_demo_env st2" using st2 by simp
  obtain r s where r: "st_convert st_demo_env (st_demo_call 7 8 0) st2 = Inr (r, s)"
    using st_convert_total [OF i st_demo_env_ok(2)] by force
  have n: "st_next_ok st_demo_env (st_demo_call 7 8 0) st2" using st2 by (simp add: st_next_ok_def st_demo_env_ok)
  show ?thesis
    using st_convert_ok [OF st_demo_env_ok(1) i n r] r st2
    by (auto simp: st_two_def spec_convert_def spec_register_def)
qed

theorem st_switch_race_witness:
  "\<exists>t1 t2 fa s1 s2 u1 u2. st_switch_find st_demo_env (st_demo_call 7 7 1) st_two = Inr (Some (t1, fa)) \<and>
    st_switch_find st_demo_env (st_demo_call 7 8 1) st_two = Inr (Some (t2, fa)) \<and>
    st_switch_do st_demo_env (st_demo_call 7 7 1) (Some (t1, fa)) st_two = Inr (0, s1) \<and>
    st_switch_do st_demo_env (st_demo_call 7 8 1) (Some (t2, fa)) s1 = Inr (0, s2) \<and>
    st_thrs s2 t1 = Some u1 \<and> st_thrs s2 t2 = Some u2 \<and> t1 \<noteq> t2 \<and> st_active u1 = Some fa \<and> st_active u2 = Some fa \<and>
    (\<forall>r. st_uregs s2 (sc_pid (st_demo_call 7 7 1)) ! slot_of st_demo_env r =
      st_uregs s2 (sc_pid (st_demo_call 7 8 1)) ! slot_of st_demo_env r)"
  by (rule st_switch_race [where q = "\<lparr>next_index = 3, live = {0, 1, 2}, cur = [7 \<mapsto> 0, 8 \<mapsto> 2]\<rparr>"])
    (use st_two st_demo_env_ok in \<open>auto simp: int_cut_def\<close>)

end
