(* ===== verification/Demo_App.thy ===== *)
theory Demo_App
  imports Single_Library
begin

text \<open>
  \<^verbatim>\<open>single_thread/Library/fiber_app.c\<close>: the demonstration program of the earlier version, run on
  the model of its library and module. The program text is a list of places, each a call of the
  library together with the \<^verbatim>\<open>printf\<close> in front of it; the linker puts them at distinct
  addresses. Before a call the instruction pointer of the task is the place the call returns to, and
  the program goes on wherever the instruction pointer is when the call comes back: that is how
  \<^verbatim>\<open>SwitchToFiber\<close> leaves \<^verbatim>\<open>main\<close> for \<^verbatim>\<open>hello\<close> and comes back to it.
\<close>

section \<open>The program\<close>

datatype app_pc =
    Main_Start | Main_Converted | Main_Created | Main_Created2 | Main_Switched | Main_Alloced | Main_Freed
  | Main_Alloced2 | Main_Set | Main_Got | Hello_Start | Hello_Switched | Hello1_Start

definition app_pcs :: "app_pc list" where
  "app_pcs = [Main_Start, Main_Converted, Main_Created, Main_Created2, Main_Switched, Main_Alloced, Main_Freed,
     Main_Alloced2, Main_Set, Main_Got, Hello_Start, Hello_Switched, Hello1_Start]"

text \<open>The kernel state, the library's variables, what was printed (format without the newline at its end, and arguments) and the
  variables of \<^verbatim>\<open>main\<close>, whose frame stays where it is while \<^verbatim>\<open>hello\<close> runs on its own
  stack.\<close>

record app =
  app_st :: st_state
  app_lib :: lib
  app_out :: "(string \<times> u64 list) list"
  v_fiber :: u64
  v_fibers :: u64
  v_fibers2 :: u64
  v_fibers1 :: u64
  v_ret :: bool
  v_fibers3 :: u64
  v_result :: u64

text \<open>\<open>app_places\<close>: the addresses of the places; \<open>app_calls\<close>: what the machine and the user supply for the
  call made there; \<open>app_task\<close>: the task that runs the program.\<close>

record app_env =
  app_kernel :: st_env
  app_places :: "app_pc \<Rightarrow> u64"
  app_calls :: "app_pc \<Rightarrow> st_ucall"
  app_task :: pid_t

definition print :: "string \<Rightarrow> u64 list \<Rightarrow> app \<Rightarrow> app" where
  "print fmt args a = a\<lparr>app_out := app_out a @ [(fmt, args)]\<rparr>"

text \<open>The state in which a call is made that returns to \<open>q\<close>.\<close>

definition returns_to :: "app_env \<Rightarrow> app_pc \<Rightarrow> app \<Rightarrow> st_state" where
  "returns_to e q a = (app_st a)\<lparr>st_uregs := (st_uregs (app_st a))(app_task e :=
     (st_uregs (app_st a) (app_task e))[slot_of (app_kernel e) P_ip := app_places e q])\<rparr>"

definition num_stack :: u64 where
  "num_stack = 8 * 2048"

text \<open>One place; the result says whether the program has ended.\<close>

fun app_exec :: "app_env \<Rightarrow> app_pc \<Rightarrow> app \<Rightarrow> fault + bool \<times> app" where
  "app_exec e Main_Start a =
     kbind (st_ConvertThreadToFiber (app_kernel e) (app_calls e Main_Start) (app_lib a) (returns_to e Main_Converted a))
       (\<lambda>((r, l), s). Inr (False, a\<lparr>app_st := s, app_lib := l, v_fiber := r\<rparr>))"
| "app_exec e Main_Converted a =
     (let a = print ''%ld'' [v_fiber a] a in
      kbind (st_CreateFiber (app_kernel e) (app_calls e Main_Converted) num_stack (app_places e Hello1_Start) 0
          (app_lib a) (returns_to e Main_Created a))
       (\<lambda>((r, l), s). Inr (False, a\<lparr>app_st := s, app_lib := l, v_fibers := r\<rparr>)))"
| "app_exec e Main_Created a =
     (let a = print ''%ld'' [v_fibers a] a in
      kbind (st_CreateFiber (app_kernel e) (app_calls e Main_Created) num_stack (app_places e Hello_Start) 0
          (app_lib a) (returns_to e Main_Created2 a))
       (\<lambda>((r, l), s). Inr (False, a\<lparr>app_st := s, app_lib := l, v_fibers2 := r\<rparr>)))"
| "app_exec e Main_Created2 a =
     (let a = print ''%ld'' [v_fibers2 a] a in
      kbind (st_SwitchToFiber (app_kernel e) (app_calls e Main_Created2) (v_fibers2 a) (app_lib a) (returns_to e Main_Switched a))
       (\<lambda>(l, s). Inr (False, a\<lparr>app_st := s, app_lib := l\<rparr>)))"
| "app_exec e Main_Switched a =
     kbind (st_FlsAlloc (app_kernel e) (app_calls e Main_Switched) (app_lib a) (returns_to e Main_Alloced a))
       (\<lambda>((r, l), s). Inr (False, a\<lparr>app_st := s, app_lib := l, v_fibers1 := r\<rparr>))"
| "app_exec e Main_Alloced a =
     (let a = print ''First alloc: %ld'' [v_fibers1 a] a in
      kbind (st_FlsFree (app_kernel e) (app_calls e Main_Alloced) (v_fibers1 a) (app_lib a) (returns_to e Main_Freed a))
       (\<lambda>((r, l), s). Inr (False, a\<lparr>app_st := s, app_lib := l, v_ret := r\<rparr>)))"
| "app_exec e Main_Freed a =
     (let a = print ''Free : %d'' [of_bool (v_ret a)] a in
      kbind (st_FlsAlloc (app_kernel e) (app_calls e Main_Freed) (app_lib a) (returns_to e Main_Alloced2 a))
       (\<lambda>((r, l), s). Inr (False, a\<lparr>app_st := s, app_lib := l, v_fibers3 := r\<rparr>)))"
| "app_exec e Main_Alloced2 a =
     (let a = print ''Second alloc: %ld'' [v_fibers3 a] a in
      kbind (st_FlsSetValue (app_kernel e) (app_calls e Main_Alloced2) (v_fibers1 a) 3 (app_lib a) (returns_to e Main_Set a))
       (\<lambda>(l, s). Inr (False, a\<lparr>app_st := s, app_lib := l\<rparr>)))"
| "app_exec e Main_Set a =
     kbind (st_FlsGetValue (app_kernel e) (app_calls e Main_Set) (v_fibers1 a) (app_lib a) (returns_to e Main_Got a))
       (\<lambda>((r, l), s). Inr (False, a\<lparr>app_st := s, app_lib := l, v_result := r\<rparr>))"
| "app_exec e Main_Got a =
     Inr (True, if v_result a = - 1 then print ''Error'' [] a else print ''Return get value: %ld'' [v_result a] a)"
| "app_exec e Hello_Start a =
     (let a = print ''Hello call'' [] a in
      kbind (st_SwitchToFiber (app_kernel e) (app_calls e Hello_Start) 0 (app_lib a) (returns_to e Hello_Switched a))
       (\<lambda>(l, s). Inr (False, a\<lparr>app_st := s, app_lib := l\<rparr>)))"
| "app_exec e Hello_Switched a = Inr (True, a)"
| "app_exec e Hello1_Start a = Inr (True, print ''Hello call2'' [] a)"

text \<open>The processor goes on at the instruction pointer of the task; outside the program there is
  nothing to follow.\<close>

definition app_fetch :: "app_env \<Rightarrow> app \<Rightarrow> app_pc option" where
  "app_fetch e a = find (\<lambda>p. app_places e p = st_uregs (app_st a) (app_task e) ! slot_of (app_kernel e) P_ip) app_pcs"

definition app_step :: "app_env \<Rightarrow> app \<Rightarrow> fault + bool \<times> app" where
  "app_step e a = (case app_fetch e a of None \<Rightarrow> Inl NoReturn | Some p \<Rightarrow> app_exec e p a)"

fun app_run :: "app_env \<Rightarrow> nat \<Rightarrow> app \<Rightarrow> fault + bool \<times> app" where
  "app_run e 0 a = Inr (False, a)"
| "app_run e (Suc n) a = kbind (app_step e a) (\<lambda>(done, a). if done then Inr (True, a) else app_run e n a)"

section \<open>Fibers of a process by index\<close>

definition fiber_at :: "st_env \<Rightarrow> pid_t \<Rightarrow> st_state \<Rightarrow> u64 \<Rightarrow> addr \<Rightarrow> st_fiber \<Rightarrow> bool" where
  "fiber_at env tg s i fa f \<longleftrightarrow> (\<exists>pa p. st_search_process env tg s = Inr (Some pa) \<and> pa \<in> mem (st_list s) \<and>
     st_procs s pa = Some p \<and> fa \<in> mem (st_fibers p) \<and> st_fibs s fa = Some f \<and> st_index f = i)"

lemma fiber_at_inj:
  assumes "st_inv env s" "fiber_at env tg s i fa f" "fiber_at env tg s i fb g"
  shows "fa = fb" "f = g"
proof -
  obtain pa p where p: "st_search_process env tg s = Inr (Some pa)" "pa \<in> mem (st_list s)" "st_procs s pa = Some p"
    "fa \<in> mem (st_fibers p)" "st_fibs s fa = Some f" "st_index f = i"
    using assms(2) by (auto simp: fiber_at_def)
  moreover have "fb \<in> mem (st_fibers p)" "st_fibs s fb = Some g" "st_index g = i"
    using assms(3) p(1,3) by (auto simp: fiber_at_def)
  ultimately show "fa = fb" using st_index_inj [OF assms(1) p(2,3)] by simp
  then show "f = g" using p(5) assms(3) by (auto simp: fiber_at_def)
qed

lemma fiber_at_linked: "fiber_at env tg s i fa f \<Longrightarrow> fa \<in> linked s"
  by (auto simp: fiber_at_def linked_def)

lemma current_at:
  assumes i: "st_inv env s" and q: "st_abs env s (sc_tgid c) = Some q" "cur q (sc_pid c) = Some n"
  shows "\<exists>fa f. st_current env c s = Some fa \<and> fiber_at env (sc_tgid c) s n fa f"
  using i
proof (cases rule: st_process_cases [where k = "sc_tgid c"])
  case (Some pa p)
  note pa = this
  show ?thesis
    using i pa(2,3)
  proof (cases rule: st_thread_cases [where k = "sc_pid c"])
    case None
    then show ?thesis using q pa(5) by simp
  next
    case (Some ta t fa f)
    then have "st_current env c s = Some fa" using pa by (simp add: st_current_def)
    moreover have "fiber_at env (sc_tgid c) s n fa f" using Some pa q by (auto simp: fiber_at_def)
    ultimately show ?thesis by blast
  qed
qed (use q in simp)

section \<open>Registers that a command leaves alone\<close>

lemma upd_uregs:
  "upd_fiber a gf s = Inr s' \<Longrightarrow> st_uregs s' = st_uregs s"
  "upd_thread a gt s = Inr s' \<Longrightarrow> st_uregs s' = st_uregs s"
  "upd_process a gp s = Inr s' \<Longrightarrow> st_uregs s' = st_uregs s"
  "upd_regs a gr s = Inr s' \<Longrightarrow> st_uregs s' = st_uregs s"
  "upd_fpu a gx s = Inr s' \<Longrightarrow> st_uregs s' = st_uregs s"
  by (auto simp: upd_fiber_def upd_thread_def upd_process_def upd_regs_def upd_fpu_def kbind_Inr_iff)

lemma kmalloc_uregs [simp]:
  "st_uregs (snd (kmalloc_fiber env s)) = st_uregs s" "st_uregs (snd (kmalloc_thread env s)) = st_uregs s"
  "st_uregs (snd (kmalloc_process env s)) = st_uregs s" "st_uregs (snd (kmalloc_regs env s)) = st_uregs s"
  "st_uregs (snd (kmalloc_fpu env s)) = st_uregs s" "st_uregs (snd (st_kmalloc_args env s)) = st_uregs s"
  by (simp_all add: kmalloc_fiber_def kmalloc_thread_def kmalloc_process_def kmalloc_regs_def kmalloc_fpu_def
      st_kmalloc_args_def Let_def)

lemma convert_uregs: "st_convert env c s = Inr (r, s') \<Longrightarrow> st_uregs s' = st_uregs s"
proof -
  have t: "st_convert_thread env c fiber pa u = Inr (r, s') \<Longrightarrow> st_uregs s' = st_uregs u" for fiber pa u
    by (auto simp: st_convert_thread_def kbind_Inr_iff case_prod_beta split: option.splits dest!: upd_uregs)
  assume "st_convert env c s = Inr (r, s')"
  then show ?thesis
    by (auto simp: st_convert_def kbind_Inr_iff case_prod_beta Let_def split: option.splits dest!: t upd_uregs)
qed

section \<open>The commands as the program uses them\<close>

lemma app_convert:
  assumes ok: "st_env_ok env" "memory_ok env" "index_ok (kern env) 0" and i: "st_inv env s"
    and n: "st_abs env s (sc_tgid c) = None"
  obtains s' f where "st_convert env c s = Inr (0, s')" "st_inv env s'"
    "st_abs env s' (sc_tgid c) = Some \<lparr>next_index = 1, live = {0}, cur = [sc_pid c \<mapsto> 0]\<rparr>" "st_uregs s' = st_uregs s"
    "fiber_at env (sc_tgid c) s' 0 (st_brk s) f" "st_fls_bitmap f = st_fls_bitmap (junk_fiber env (st_brk s))"
proof -
  obtain r s' where r: "st_convert env c s = Inr (r, s')" using st_convert_total [OF i ok(2)] by force
  have nx: "st_next_ok env c s" using ok(3) n by (simp add: st_next_ok_def)
  have S: "st_inv env s'" "(r, st_abs env s') = spec_convert (call_of c) (st_abs env s)"
    using st_convert_ok [OF ok(1) i nx r] by auto
  then have r0: "r = 0" and ab: "st_abs env s' (sc_tgid c) = Some \<lparr>next_index = 1, live = {0}, cur = [sc_pid c \<mapsto> 0]\<rparr>"
    using n by (simp_all add: spec_convert_def spec_register_def no_fibers_def)
  note cc = convert_current [OF i r]
  obtain fa f where f: "st_current env c s' = Some fa" "fiber_at env (sc_tgid c) s' 0 fa f"
    using current_at [OF S(1) ab, of 0] by auto
  have "fa = st_brk s" using f(1) cc(1) r0 by simp
  moreover from this have "st_fls_bitmap f = st_fls_bitmap (junk_fiber env (st_brk s))"
    using f(2) cc(2) r0 by (auto simp: fiber_at_def)
  ultimately show thesis using that r r0 S(1) ab convert_uregs [OF r] f(2) by simp
qed

lemma created_regs_ip:
  assumes "st_env_ok env" "length img = nregs (kern env)"
  shows "created_regs env u src img ! slot_of env P_ip = lpStartAddress u"
proof -
  have "slot_of env a = slot_of env b \<longleftrightarrow> a = b" for a b using assms(1) by (simp add: st_env_ok_def inj_eq)
  moreover have "slot_of env P_ip < length img" using assms by (simp add: st_env_ok_def)
  ultimately show ?thesis using length_copy_regs by (simp add: created_regs_def copy_reg_def Let_def)
qed

lemma app_create:
  assumes ok: "st_env_ok env" "memory_ok env" "index_ok (kern env) 0" "index_ok (kern env) (next_index q)"
    and i: "st_inv env s" and q: "st_abs env s (sc_tgid c) = Some q" "cur q (sc_pid c) \<noteq> None"
  obtains s' fa f img where "st_create env c s = Inr (next_index q, s')" "st_inv env s'"
    "st_abs env s' (sc_tgid c) = Some (q\<lparr>next_index := next_index q + 1, live := insert (next_index q) (live q)\<rparr>)"
    "st_uregs s' = st_uregs s" "fiber_at env (sc_tgid c) s' (next_index q) fa f"
    "regs_img s' fa = Some img" "img ! slot_of env P_ip = lpStartAddress (create_buf c)"
    "\<And>j a g. fiber_at env (sc_tgid c) s j a g \<Longrightarrow> fiber_at env (sc_tgid c) s' j a g \<and> regs_img s' a = regs_img s a"
proof -
  have k: "kmalloc_ok env a" for a using ok(2) by (simp add: memory_ok_def)
  obtain r s' where r: "st_create env c s = Inr (r, s')" using st_create_total [OF i ok(2)] by force
  have nx: "st_next_ok env c s" using ok(3,4) q by (simp add: st_next_ok_def)
  have S: "st_inv env s'" "(r, st_abs env s') = spec_create (call_of c) (st_abs env s)"
    using st_create_ok [OF ok(1) i nx r] by auto
  obtain s1 where s1: "st_kmalloc_args env s = (True, s1)" by (simp add: st_kmalloc_args_def k Let_def)
  have i1: "st_inv env s1" using st_kmalloc_args_ok(1) [OF i] s1 by simp
  obtain t where t: "kmalloc_fiber env s1 = (Some (st_brk s1), t)" by (simp add: kmalloc_fiber_def k Let_def)
  let ?fa = "st_brk s1"
  note f = kmalloc_fiber_ok [OF i1 t]
  have ab: "st_abs env t = st_abs env s" using f(2) st_kmalloc_args_ok(2) [OF i] s1 by simp
  have same: "st_list t = st_list s" "st_procs t = st_procs s" "st_pregs t = st_pregs s" "st_uregs t = st_uregs s"
    "\<And>a. a \<noteq> ?fa \<Longrightarrow> st_fibs t a = st_fibs s a"
    using s1 t by (auto simp: st_kmalloc_args_def kmalloc_fiber_def Let_def k)
  show thesis
    using f(1)
  proof (cases rule: st_process_cases [where k = "sc_tgid c"])
    case None
    then show thesis using q ab by simp
  next
    case (Some pa p)
    note pa = this
    have qp: "q = st_aproc env t p" using pa(5) q(1) ab by simp
    show thesis
      using f(1) pa(2,3)
    proof (cases rule: st_thread_cases [where k = "sc_pid c"])
      case None
      then show thesis using q(2) qp by simp
    next
      case (Some ta u af fo)
      have o: "objects_ok env t" using f(1) by (simp add: st_inv_def)
      have l: "af \<in> linked t" using pa Some by (auto simp: linked_def)
      obtain xo where "fpu_of t af = Some xo" and x3: "xo < st_brk t" by (rule owns_old [OF o l])
      then have x1: "st_fpu fo = Some xo" using Some(7) by (simp add: fpu_of_def)
      obtain mo where x2: "st_fpus t xo = Some mo" using objects_owns [OF o l] Some(7) x1 by (auto simp: owns_def)
      have new: "?fa \<notin> linked t" "st_fibs t ?fa = Some (junk_fiber env ?fa)" using f(4) by auto
      have "st_create env c s = st_create_fiber env c (Some ?fa) pa ta t"
        using s1 t pa(1) Some(1) by (simp add: st_create_def)
      also have "\<dots> = Inr (st_fiber_id p, st_created env c ?fa pa xo (junk_fiber env ?fa) p t)"
        using st_create_fiber_eq [OF pa(3) Some(3,5,7) x1 x2 x3, of "Some ?fa" "junk_fiber env" env c] new l k by auto
      finally have s': "r = st_fiber_id p" "s' = st_created env c ?fa pa xo (junk_fiber env ?fa) p t" using r by simp_all
      have rq: "r = next_index q" using s'(1) qp by simp
      have pk: "st_pkey s' = st_pkey t" using pa(3) by (auto simp: s'(2) st_created_def Let_def st_pkey_def fun_eq_iff)
      have sp: "st_search_process env (sc_tgid c) s' = Inr (Some pa)"
        using pa(1) pk by (simp add: st_search_process_def) (simp add: s'(2) st_created_def Let_def)
      let ?g = "(junk_fiber env ?fa)\<lparr>st_running := False, st_index := st_fiber_id p, st_regs := Some (st_brk t), st_fpu := Some (st_brk t + 2)\<rparr>"
      have new': "fiber_at env (sc_tgid c) s' (next_index q) ?fa ?g"
        using sp pa(2) qp by (auto simp: fiber_at_def s'(2) st_created_def Let_def)
      have img: "regs_img s' ?fa = Some (created_regs env (create_buf c) (st_uregs s (sc_pid c)) (st_uregs s (sc_pid c)))"
        by (simp add: regs_img_def regs_of_def s'(2) st_created_def Let_def same)
      have old: "fiber_at env (sc_tgid c) s' j a g \<and> regs_img s' a = regs_img s a" if a: "fiber_at env (sc_tgid c) s j a g" for j a g
      proof -
        have spt: "st_search_process env (sc_tgid c) s = Inr (Some pa)"
          using pa(1) same(1,2) by (simp add: st_search_process_def st_pkey_def [abs_def])
        then have m: "a \<in> mem (st_fibers p)" "st_fibs s a = Some g" "st_index g = j"
          using a pa(3) same(2) by (auto simp: fiber_at_def)
        have al: "a \<in> linked t" using m(1) pa by (auto simp: linked_def)
        then have ne: "a \<noteq> ?fa" using new(1) by auto
        obtain ro where ro: "regs_of t a = Some ro" by (rule owns_old [OF o al])
        have "ro < st_brk t" using regs_below [OF f(1) al ro] .
        then have "regs_img s' a = regs_img t a"
          using ne ro by (simp add: regs_img_def regs_of_def s'(2) st_created_def Let_def)
        also have "\<dots> = regs_img s a" using same(3) same(5) [OF ne] by (simp add: regs_img_def regs_of_def split: option.split)
        finally have "regs_img s' a = regs_img s a" .
        moreover have "fiber_at env (sc_tgid c) s' j a g"
          using sp pa(2) m ne same(5) [OF ne] by (auto simp: fiber_at_def s'(2) st_created_def Let_def)
        ultimately show ?thesis by blast
      qed
      show thesis
        by (rule that [OF _ S(1) _ _ new' img created_regs_ip [OF ok(1) st_uregs_length [OF i]] old])
          (use r rq S(2) q in \<open>auto simp: spec_create_def same s'(2) st_created_def Let_def\<close>)
    qed
  qed
qed

text \<open>A switch to the idle fiber with index \<open>j\<close>. Storage of every fiber stays, the fiber left keeps
  the registers.\<close>

definition same_storage :: "st_fiber \<Rightarrow> st_fiber \<Rightarrow> bool" where
  "same_storage f g \<longleftrightarrow> st_fls_bitmap g = st_fls_bitmap f \<and> st_fls_array g = st_fls_array f"

lemma app_switch:
  assumes ok: "st_env_ok env" "memory_ok env" and i: "st_inv env s"
    and q: "st_abs env s (sc_tgid c) = Some q" "cur q (sc_pid c) = Some n"
    and j: "int_cut (sc_arg c) = j" "j \<in> live q" "j \<notin> ran (cur q)"
    and fa: "fiber_at env (sc_tgid c) s j fa f" "regs_img s fa = Some img" and af: "fiber_at env (sc_tgid c) s n af fo"
  obtains s' img' where "st_switch env c s = Inr (0, s')" "st_inv env s'"
    "st_abs env s' (sc_tgid c) = Some (q\<lparr>cur := (cur q)(sc_pid c \<mapsto> j)\<rparr>)"
    "st_uregs s' (sc_pid c) ! slot_of env P_ip = img ! slot_of env P_ip"
    "regs_img s' af = Some img'" "img' ! slot_of env P_ip = st_uregs s (sc_pid c) ! slot_of env P_ip"
    "\<And>i' a g. fiber_at env (sc_tgid c) s i' a g \<Longrightarrow> \<exists>g'. fiber_at env (sc_tgid c) s' i' a g' \<and> same_storage g g'"
proof -
  obtain r s' where r: "st_switch env c s = Inr (r, s')" using st_switch_total [OF i ok(2)] by force
  have S: "st_inv env s'" "(r, st_abs env s') = spec_switch (call_of c) (st_abs env s)" using st_switch_ok [OF i r] by auto
  then have r0: "r = 0" and ab: "st_abs env s' (sc_tgid c) = Some (q\<lparr>cur := (cur q)(sc_pid c \<mapsto> j)\<rparr>)"
    using q j by (simp_all add: spec_switch_def Let_def)
  have sw: "st_switch env c s = Inr (0, s')" using r r0 by simp
  obtain ac fc where ac: "st_current env c s = Some ac" "fiber_at env (sc_tgid c) s n ac fc" using current_at [OF i q] by blast
  then have ca: "st_current env c s = Some af" using fiber_at_inj(1) [OF i af] by blast
  have both: "st_current env c s' = Some fa \<and>
      (\<forall>i' a g. fiber_at env (sc_tgid c) s i' a g \<longrightarrow> (\<exists>g'. fiber_at env (sc_tgid c) s' i' a g' \<and> same_storage g g'))"
    using i sw
  proof (rule switch_success)
    fix pa p ta t ao fo' fb fn
    assume s': "s' = st_switched env c ta ao fb s" and cur: "st_current env c s' = Some fb"
      and pa: "st_search_process env (sc_tgid c) s = Inr (Some pa)" "st_search_process env (sc_tgid c) s' = Inr (Some pa)"
        "pa \<in> mem (st_list s)" "st_procs s pa = Some p"
      and ao: "st_fibs s ao = Some fo'" and fb: "fb \<in> mem (st_fibers p)" "st_fibs s fb = Some fn" "st_index fn = int_cut (sc_arg c)"
    have "fiber_at env (sc_tgid c) s j fb fn" using pa fb j(1) by (auto simp: fiber_at_def)
    then have "fb = fa" using fiber_at_inj(1) [OF i _ fa(1)] by blast
    moreover have "\<exists>g'. fiber_at env (sc_tgid c) s' i' a g' \<and> same_storage g g'" if a: "fiber_at env (sc_tgid c) s i' a g" for i' a g
    proof -
      have m: "a \<in> mem (st_fibers p)" "st_fibs s a = Some g" "st_index g = i'" using a pa(1,4) by (auto simp: fiber_at_def)
      then obtain g' where "st_fibs s' a = Some g'" "st_index g' = i'" "same_storage g g'"
        using ao fb(2) by (cases "a = fb"; cases "a = ao") (auto simp: s' st_switched_def Let_def same_storage_def)
      moreover have "st_procs s' = st_procs s" "st_list s' = st_list s" by (simp_all add: s' st_switched_def Let_def)
      ultimately show ?thesis using pa m(1) by (auto simp: fiber_at_def)
    qed
    ultimately show ?thesis using cur by simp
  qed
  obtain img' where "regs_img s' af = Some img'" "img' ! slot_of env P_ip = st_uregs s (sc_pid c) ! slot_of env P_ip"
    using left_idle(3) [OF i ok(1) sw ca] by blast
  then show thesis
    using that [OF sw S(1) ab resumed [OF i ok(1) sw _ fa(2)]] both by blast
qed

section \<open>Local storage of the running fiber\<close>

definition with_fls :: "addr \<Rightarrow> (st_fiber \<Rightarrow> st_fiber) \<Rightarrow> st_state \<Rightarrow> st_state" where
  "with_fls fa g s = s\<lparr>st_fibs := (st_fibs s)(fa \<mapsto> g (the (st_fibs s fa)))\<rparr>"

lemma with_fls_current [simp]: "st_current env c (with_fls fa g s) = st_current env c s"
  by (simp add: with_fls_def st_current_def st_search_process_def st_search_thread_def st_pkey_def [abs_def]
      st_tkey_def [abs_def] split: sum.split option.split)

lemma with_fls_fields [simp]:
  "st_fibs s fa = Some f \<Longrightarrow> st_fibs (with_fls fa g s) fa = Some (g f)" "st_uregs (with_fls fa g s) = st_uregs s"
  by (simp_all add: with_fls_def)

lemma app_fls_alloc:
  assumes i: "st_inv env s" and f: "st_current env c s = Some fa" "st_fibs s fa = Some f" and n: "ffz (st_fls_bitmap f) = Some k"
  shows "st_fls_alloc env c s = Inr (of_nat k, with_fls fa (\<lambda>f. f\<lparr>st_fls_bitmap := flip_bit k (st_fls_bitmap f),
      st_fls_array := (st_fls_array f)[k := 0]\<rparr>) s)"
proof -
  have k: "k < 64" "k < MAX_FLS" using n by (simp_all add: ffz_Some_iff MAX_FLS_def)
  have "st_find_first_zero f = k" using n k(2) by (simp add: st_find_first_zero_def)
  moreover have "slot_inside (of_nat k)" "unat (of_nat k :: u64) = k" using slot_inside_nat [of k] k by simp_all
  ultimately show ?thesis
    using with_current [OF i f] f(2) k
    by (simp add: st_fls_alloc_def st_change_bit_def st_bit_word_def st_get_word_def st_put_word_def st_fls_store_def
        slot_inside_def BITS_PER_LONG_def with_fls_def)
qed

lemma app_fls_free:
  assumes i: "st_inv env s" and f: "st_current env c s = Some fa" "st_fibs s fa = Some f" and k: "sc_arg c = of_nat k" "k < 64"
  shows "st_fls_free env c s = Inr (1, with_fls fa (\<lambda>f. f\<lparr>st_fls_bitmap := unset_bit k (st_fls_bitmap f)\<rparr>) s)"
proof -
  have "slot_inside (of_nat k)" "unat (of_nat k :: u64) = k" using slot_inside_nat [of k] k by (simp_all add: MAX_FLS_def)
  then show ?thesis
    using with_current [OF i f] f(2) k
    by (simp add: st_fls_free_def st_clear_bit_def st_bit_word_def st_get_word_def st_put_word_def
        slot_inside_def BITS_PER_LONG_def with_fls_def)
qed

section \<open>One place after another\<close>

text \<open>What the program relies on: its own calls come from one task of one process, the device opens and
  memory lasts, the places have different addresses.\<close>

definition app_env_ok :: "app_env \<Rightarrow> pid_t \<Rightarrow> bool" where
  "app_env_ok e tg \<longleftrightarrow> st_env_ok (app_kernel e) \<and> memory_ok (app_kernel e) \<and> inj (app_places e) \<and>
     (\<forall>i\<in>{0, 1, 2}. index_ok (kern (app_kernel e)) i) \<and>
     (\<forall>p. sc_tgid (su_call (app_calls e p)) = tg \<and> sc_pid (su_call (app_calls e p)) = app_task e \<and>
       su_open (app_calls e p) \<noteq> - 1 \<and> su_malloc (app_calls e p))"

lemma app_env_okD:
  assumes "app_env_ok e tg"
  shows "st_env_ok (app_kernel e)" "memory_ok (app_kernel e)" "inj (app_places e)"
    "index_ok (kern (app_kernel e)) 0" "index_ok (kern (app_kernel e)) 1" "index_ok (kern (app_kernel e)) 2"
    "sc_tgid (su_call (app_calls e p)) = tg" "sc_pid (su_call (app_calls e p)) = app_task e"
    "su_open (app_calls e p) \<noteq> - 1" "su_malloc (app_calls e p)"
  using assms by (simp_all add: app_env_ok_def)

definition lib_ok :: "lib \<Rightarrow> bool" where
  "lib_ok l \<longleftrightarrow> (opened l \<longrightarrow> fd l \<noteq> - 1)"

lemma lib_ok_open:
  assumes "lib_ok l" "su_open uc \<noteq> - 1"
  shows "fd (st_ensure_open uc l) \<noteq> - 1" "lib_ok (st_ensure_open uc l)"
  using assms by (simp_all add: lib_ok_def st_ensure_open_def st_init_file_def Let_def)

lemma lib_ok_args [simp]: "lib_ok (l\<lparr>args_live := n\<rparr>) = lib_ok l"
  by (simp add: lib_ok_def)

text \<open>The task is at place \<open>p\<close>, its process has the fibers \<open>q\<close> describes.\<close>

definition app_at :: "app_env \<Rightarrow> pid_t \<Rightarrow> app_pc \<Rightarrow> fproc option \<Rightarrow> app \<Rightarrow> bool" where
  "app_at e tg p q a \<longleftrightarrow> st_inv (app_kernel e) (app_st a) \<and> st_abs (app_kernel e) (app_st a) tg = q \<and> lib_ok (app_lib a) \<and>
     st_uregs (app_st a) (app_task e) ! slot_of (app_kernel e) P_ip = app_places e p"

lemma app_step_at:
  assumes "app_env_ok e tg" "app_at e tg p q a"
  shows "app_step e a = app_exec e p a"
proof -
  have "app_places e x = app_places e p \<longleftrightarrow> x = p" for x using app_env_okD(3) [OF assms(1)] by (simp add: inj_eq)
  then have "app_fetch e a = Some p" using assms(2) by (cases p) (simp_all add: app_fetch_def app_at_def app_pcs_def)
  then show ?thesis by (simp add: app_step_def)
qed

text \<open>The state in which the call is made.\<close>

lemma returns_to_same [simp]:
  "st_fibs (returns_to e p a) = st_fibs (app_st a)" "st_brk (returns_to e p a) = st_brk (app_st a)"
  "fiber_at env tg (returns_to e p a) i fa f = fiber_at env tg (app_st a) i fa f"
  "regs_img (returns_to e p a) fa = regs_img (app_st a) fa"
  "st_current env c (returns_to e p a) = st_current env c (app_st a)"
  by (simp_all add: returns_to_def fiber_at_def regs_img_def regs_of_def st_current_def st_search_process_def
      st_search_thread_def st_pkey_def [abs_def] st_tkey_def [abs_def] split: option.split sum.split)

lemma returns_to_at:
  assumes "app_env_ok e tg" "app_at e tg p q a"
  shows "st_inv (app_kernel e) (returns_to e p' a)" "st_abs (app_kernel e) (returns_to e p' a) = st_abs (app_kernel e) (app_st a)"
    "st_abs (app_kernel e) (returns_to e p' a) tg = q"
    "st_uregs (returns_to e p' a) (app_task e) ! slot_of (app_kernel e) P_ip = app_places e p'"
proof -
  let ?img = "(st_uregs (app_st a) (app_task e))[slot_of (app_kernel e) P_ip := app_places e p']"
  have i: "st_inv (app_kernel e) (app_st a)" and q: "st_abs (app_kernel e) (app_st a) tg = q" using assms(2) by (simp_all add: app_at_def)
  have l: "length (st_uregs (app_st a) (app_task e)) = nregs (kern (app_kernel e))" by (rule st_uregs_length [OF i])
  have "returns_to e p' a = (app_st a)\<lparr>st_uregs := (st_uregs (app_st a))(app_task e := ?img),
      st_ufx := (st_ufx (app_st a))(app_task e := st_ufx (app_st a) (app_task e))\<rparr>"
    by (simp add: returns_to_def)
  then have u: "st_inv (app_kernel e) (returns_to e p' a) \<and> st_abs (app_kernel e) (returns_to e p' a) = st_abs (app_kernel e) (app_st a)"
    using st_user_ok [OF i, of ?img "app_task e" "st_ufx (app_st a) (app_task e)"] l by simp
  then show "st_inv (app_kernel e) (returns_to e p' a)" "st_abs (app_kernel e) (returns_to e p' a) = st_abs (app_kernel e) (app_st a)"
    "st_abs (app_kernel e) (returns_to e p' a) tg = q"
    using q by simp_all
  have "slot_of (app_kernel e) P_ip < nregs (kern (app_kernel e))" using app_env_okD(1) [OF assms(1)] by (simp add: st_env_ok_def)
  then show "st_uregs (returns_to e p' a) (app_task e) ! slot_of (app_kernel e) P_ip = app_places e p'"
    using l by (simp add: returns_to_def)
qed

lemma app_start:
  assumes e: "app_env_ok e tg" and at: "app_at e tg Main_Start None a"
  obtains a' f where "app_step e a = Inr (False, a')" "app_at e tg Main_Converted (Some \<lparr>next_index = 1, live = {0}, cur = [app_task e \<mapsto> 0]\<rparr>) a'"
    "app_out a' = app_out a" "v_fiber a' = 0"
    "fiber_at (app_kernel e) tg (app_st a') 0 (st_brk (app_st a)) f"
    "st_fls_bitmap f = st_fls_bitmap (junk_fiber (app_kernel e) (st_brk (app_st a)))"
proof -
  note E = app_env_okD [OF e] and R = returns_to_at [OF e at, of Main_Converted]
  let ?c = "su_call (app_calls e Main_Start)" let ?l = "st_ensure_open (app_calls e Main_Start) (app_lib a)"
  have n: "st_abs (app_kernel e) (returns_to e Main_Converted a) (sc_tgid ?c) = None" using R(3) E(7) by simp
  obtain s' f where s': "st_convert (app_kernel e) ?c (returns_to e Main_Converted a) = Inr (0, s')" "st_inv (app_kernel e) s'"
    "st_abs (app_kernel e) s' (sc_tgid ?c) = Some \<lparr>next_index = 1, live = {0}, cur = [sc_pid ?c \<mapsto> 0]\<rparr>"
    "st_uregs s' = st_uregs (returns_to e Main_Converted a)"
    "fiber_at (app_kernel e) (sc_tgid ?c) s' 0 (st_brk (returns_to e Main_Converted a)) f"
    "st_fls_bitmap f = st_fls_bitmap (junk_fiber (app_kernel e) (st_brk (returns_to e Main_Converted a)))"
    by (rule app_convert [OF E(1,2,4) R(1) n])
  have l: "fd ?l \<noteq> - 1" "lib_ok ?l" using lib_ok_open at E(9) by (auto simp: app_at_def)
  let ?a = "a\<lparr>app_st := s', app_lib := ?l, v_fiber := 0\<rparr>"
  have "app_step e a = Inr (False, ?a)"
    using s'(1) l(1) by (simp add: app_step_at [OF e at] st_ConvertThreadToFiber_def st_sys_ioctl_def libc_result_def Let_def)
  then show thesis
    by (rule that [where f = f]) (use s' l E(7,8) R(4) in \<open>simp_all add: app_at_def\<close>)
qed

text \<open>Creating and switching through the library.\<close>

lemma lib_create:
  assumes e: "app_env_ok e tg" and at: "app_at e tg p (Some q) a"
    and q: "cur q (app_task e) \<noteq> None" "index_ok (kern (app_kernel e)) (next_index q)" "unat (next_index q) < 2 ^ 31"
  obtains s' l' fa f img where
    "st_CreateFiber (app_kernel e) (app_calls e p) len start 0 (app_lib a) (returns_to e p' a) = Inr ((next_index q, l'), s')"
    "app_at e tg p' (Some (q\<lparr>next_index := next_index q + 1, live := insert (next_index q) (live q)\<rparr>)) (a\<lparr>app_st := s', app_lib := l'\<rparr>)"
    "fiber_at (app_kernel e) tg s' (next_index q) fa f" "regs_img s' fa = Some img"
    "img ! slot_of (app_kernel e) P_ip = start"
    "\<And>j b g. fiber_at (app_kernel e) tg (app_st a) j b g \<Longrightarrow>
      fiber_at (app_kernel e) tg s' j b g \<and> regs_img s' b = regs_img (app_st a) b"
proof -
  note E = app_env_okD [OF e] and R = returns_to_at [OF e at, of p']
  let ?env = "app_kernel e" let ?uc = "app_calls e p"
  let ?l = "st_ensure_open ?uc ((app_lib a)\<lparr>args_live := Suc (args_live (app_lib a))\<rparr>)"
  let ?c = "(su_call ?uc)\<lparr>create_buf := \<lparr>dwStackPointer = su_stack ?uc + len - 8, lpStartAddress = start, lpParameter = 0\<rparr>\<rparr>"
  have C: "sc_tgid ?c = tg" "sc_pid ?c = app_task e" using E(7,8) by simp_all
  obtain s' fa f img where s': "st_create ?env ?c (returns_to e p' a) = Inr (next_index q, s')" "st_inv ?env s'"
    "st_abs ?env s' (sc_tgid ?c) = Some (q\<lparr>next_index := next_index q + 1, live := insert (next_index q) (live q)\<rparr>)"
    "st_uregs s' = st_uregs (returns_to e p' a)" "fiber_at ?env (sc_tgid ?c) s' (next_index q) fa f"
    "regs_img s' fa = Some img" "img ! slot_of ?env P_ip = lpStartAddress (create_buf ?c)"
    "\<And>j b g. fiber_at ?env (sc_tgid ?c) (returns_to e p' a) j b g \<Longrightarrow>
      fiber_at ?env (sc_tgid ?c) s' j b g \<and> regs_img s' b = regs_img (returns_to e p' a) b"
    using app_create [OF E(1,2,4) q(2) R(1), of ?c] R(3) q(1) C by metis
  have l: "fd ?l \<noteq> - 1" "lib_ok ?l" using lib_ok_open E(9) at by (auto simp: app_at_def)
  have "st_CreateFiber ?env ?uc len start 0 (app_lib a) (returns_to e p' a) =
      Inr ((next_index q, ?l\<lparr>args_live := args_live ?l - 1\<rparr>), s')"
    using s'(1) l(1) E(10) libc_result_small(2) [OF q(3)] by (simp add: st_CreateFiber_def st_sys_ioctl_def Let_def)
  moreover have "app_at e tg p' (Some (q\<lparr>next_index := next_index q + 1, live := insert (next_index q) (live q)\<rparr>))
      (a\<lparr>app_st := s', app_lib := ?l\<lparr>args_live := args_live ?l - 1\<rparr>\<rparr>)"
    using s'(2-4) l(2) R(4) C by (simp add: app_at_def)
  ultimately show thesis by (rule that) (use s'(5-8) C in simp_all)
qed

lemma lib_switch:
  assumes e: "app_env_ok e tg" and at: "app_at e tg p (Some q) a" and q: "cur q (app_task e) = Some n"
    and j: "int_cut j = j" "j \<in> live q" "j \<notin> ran (cur q)"
    and fa: "fiber_at (app_kernel e) tg (app_st a) j fa f" "regs_img (app_st a) fa = Some img"
      "img ! slot_of (app_kernel e) P_ip = app_places e pj"
    and af: "fiber_at (app_kernel e) tg (app_st a) n af fo"
  obtains s' l' img' where
    "st_SwitchToFiber (app_kernel e) (app_calls e p) j (app_lib a) (returns_to e p' a) = Inr (l', s')"
    "app_at e tg pj (Some (q\<lparr>cur := (cur q)(app_task e \<mapsto> j)\<rparr>)) (a\<lparr>app_st := s', app_lib := l'\<rparr>)"
    "regs_img s' af = Some img'" "img' ! slot_of (app_kernel e) P_ip = app_places e p'"
    "\<And>i' b g. fiber_at (app_kernel e) tg (app_st a) i' b g \<Longrightarrow>
      \<exists>g'. fiber_at (app_kernel e) tg s' i' b g' \<and> same_storage g g'"
proof -
  note E = app_env_okD [OF e] and R = returns_to_at [OF e at, of p']
  let ?env = "app_kernel e" let ?uc = "app_calls e p" let ?l = "st_ensure_open ?uc (app_lib a)"
  let ?c = "(su_call ?uc)\<lparr>sc_arg := j\<rparr>"
  have C: "sc_tgid ?c = tg" "sc_pid ?c = app_task e" using E(7,8) by simp_all
  obtain s' img' where s': "st_switch ?env ?c (returns_to e p' a) = Inr (0, s')" "st_inv ?env s'"
    "st_abs ?env s' (sc_tgid ?c) = Some (q\<lparr>cur := (cur q)(sc_pid ?c \<mapsto> j)\<rparr>)"
    "st_uregs s' (sc_pid ?c) ! slot_of ?env P_ip = img ! slot_of ?env P_ip"
    "regs_img s' af = Some img'" "img' ! slot_of ?env P_ip = st_uregs (returns_to e p' a) (sc_pid ?c) ! slot_of ?env P_ip"
    "\<And>i' b g. fiber_at ?env (sc_tgid ?c) (returns_to e p' a) i' b g \<Longrightarrow>
      \<exists>g'. fiber_at ?env (sc_tgid ?c) s' i' b g' \<and> same_storage g g'"
    by (rule app_switch [OF E(1,2) R(1), of ?c q n j fa f img af fo]) (use R(3) q j fa af C in simp_all)
  have l: "fd ?l \<noteq> - 1" "lib_ok ?l" using lib_ok_open E(9) at by (auto simp: app_at_def)
  have "st_SwitchToFiber ?env ?uc j (app_lib a) (returns_to e p' a) = Inr (?l, s')"
    using s'(1) l(1) by (simp add: st_SwitchToFiber_def st_sys_ioctl_def Let_def)
  moreover have "app_at e tg pj (Some (q\<lparr>cur := (cur q)(app_task e \<mapsto> j)\<rparr>)) (a\<lparr>app_st := s', app_lib := ?l\<rparr>)"
    using s'(2-4) fa(3) l(2) C by (simp add: app_at_def)
  ultimately show thesis by (rule that) (use s'(5-7) R(4) C in simp_all)
qed

text \<open>Local storage through the library; \<open>runs\<close>: the task is at the place and runs fiber \<open>fa\<close>.\<close>

definition runs_at :: "app_env \<Rightarrow> pid_t \<Rightarrow> app_pc \<Rightarrow> fproc option \<Rightarrow> addr \<Rightarrow> st_fiber \<Rightarrow> app \<Rightarrow> bool" where
  "runs_at e tg p q fa f a \<longleftrightarrow> app_at e tg p q a \<and> st_fibs (app_st a) fa = Some f \<and>
     (\<forall>c. sc_tgid c = tg \<longrightarrow> sc_pid c = app_task e \<longrightarrow> st_current (app_kernel e) c (app_st a) = Some fa)"

lemma runs_current:
  assumes e: "app_env_ok e tg" and r: "runs_at e tg p q fa f a" and c: "sc_tgid c = tg" "sc_pid c = app_task e"
  shows "st_inv (app_kernel e) (returns_to e p' a)" "st_current (app_kernel e) c (returns_to e p' a) = Some fa"
    "st_fibs (returns_to e p' a) fa = Some f"
  using returns_to_at(1) [OF e, of p q a p'] r c by (simp_all add: runs_at_def)

lemma runs_with_fls:
  assumes e: "app_env_ok e tg" and r: "runs_at e tg p q fa f a" and l: "lib_ok l"
    and i: "st_inv (app_kernel e) s \<and> st_abs (app_kernel e) s = st_abs (app_kernel e) (returns_to e p' a)"
    and s: "s = with_fls fa g (returns_to e p' a)"
  shows "runs_at e tg p' q fa (g f) (a\<lparr>app_st := s, app_lib := l\<rparr>)"
  using returns_to_at [OF e, of p q a p'] r l i unfolding s by (simp add: runs_at_def app_at_def)

lemma runs_lib: "runs_at e tg p q fa f a \<Longrightarrow> lib_ok (app_lib a)"
  by (simp add: runs_at_def app_at_def)

lemma lib_fls_alloc:
  assumes e: "app_env_ok e tg" and r: "runs_at e tg p q fa f a" and k: "ffz (st_fls_bitmap f) = Some k"
  obtains l' s' where "st_FlsAlloc (app_kernel e) (app_calls e p) (app_lib a) (returns_to e p' a) = Inr ((of_nat k, l'), s')"
    "runs_at e tg p' q fa (f\<lparr>st_fls_bitmap := flip_bit k (st_fls_bitmap f), st_fls_array := (st_fls_array f)[k := 0]\<rparr>)
      (a\<lparr>app_st := s', app_lib := l'\<rparr>)"
proof -
  note E = app_env_okD [OF e]
  let ?uc = "app_calls e p" let ?l = "st_ensure_open ?uc (app_lib a)"
  have C: "sc_tgid (su_call ?uc) = tg" "sc_pid (su_call ?uc) = app_task e" using E(7,8) by simp_all
  note R = runs_current [OF e r C, of p']
  have l: "fd ?l \<noteq> - 1" "lib_ok ?l" using lib_ok_open E(9) runs_lib [OF r] by auto
  have k64: "unat (of_nat k :: u64) < 2 ^ 31" using k slot_inside_nat [of k] by (simp add: ffz_Some_iff MAX_FLS_def)
  note al = app_fls_alloc [OF R k]
  show thesis
    by (rule that [OF _ runs_with_fls [OF e r l(2) st_fls_alloc_ok [OF R(1) al] refl]])
      (use al l(1) libc_result_small(2) [OF k64] in \<open>simp add: st_FlsAlloc_def st_sys_ioctl_def Let_def\<close>)
qed

lemma lib_fls_free:
  assumes e: "app_env_ok e tg" and r: "runs_at e tg p q fa f a" and k: "k < 64"
  obtains l' s' where "st_FlsFree (app_kernel e) (app_calls e p) (of_nat k) (app_lib a) (returns_to e p' a) = Inr ((True, l'), s')"
    "runs_at e tg p' q fa (f\<lparr>st_fls_bitmap := unset_bit k (st_fls_bitmap f)\<rparr>) (a\<lparr>app_st := s', app_lib := l'\<rparr>)"
proof -
  note E = app_env_okD [OF e]
  let ?uc = "app_calls e p" let ?l = "st_ensure_open ?uc (app_lib a)" let ?c = "(su_call ?uc)\<lparr>sc_arg := of_nat k\<rparr>"
  have C: "sc_tgid ?c = tg" "sc_pid ?c = app_task e" using E(7,8) by simp_all
  note R = runs_current [OF e r C, of p']
  have l: "fd ?l \<noteq> - 1" "lib_ok ?l" using lib_ok_open E(9) runs_lib [OF r] by auto
  have fr: "st_fls_free (app_kernel e) ?c (returns_to e p' a) =
      Inr (1, with_fls fa (\<lambda>f. f\<lparr>st_fls_bitmap := unset_bit k (st_fls_bitmap f)\<rparr>) (returns_to e p' a))"
    by (rule app_fls_free [OF R _ k]) simp
  show thesis
    by (rule that [OF _ runs_with_fls [OF e r l(2) st_fls_free_ok [OF R(1) fr] refl]])
      (use fr l(1) in \<open>simp add: st_FlsFree_def st_sys_ioctl_def libc_result_def Let_def\<close>)
qed

lemma fls_set_uregs: "st_fls_set env c s = Inr (r, s') \<Longrightarrow> st_uregs s' = st_uregs s"
  by (auto simp: st_fls_set_def st_with_active_def st_kfree_args_def kbind_Inr_iff case_prod_beta Let_def
      split: option.splits if_splits dest!: upd_uregs)

lemma lib_fls_set:
  assumes e: "app_env_ok e tg" and r: "runs_at e tg p q fa f a" and k: "k < 64" "bit (st_fls_bitmap f) k"
  obtains l' s' where "st_FlsSetValue (app_kernel e) (app_calls e p) (of_nat k) v (app_lib a) (returns_to e p' a) = Inr (l', s')"
    "runs_at e tg p' q fa (f\<lparr>st_fls_array := (st_fls_array f)[k := v]\<rparr>) (a\<lparr>app_st := s', app_lib := l'\<rparr>)"
proof -
  note E = app_env_okD [OF e] and env = app_env_okD(2) [OF e]
  let ?uc = "app_calls e p" let ?l = "st_ensure_open ?uc ((app_lib a)\<lparr>args_live := Suc (args_live (app_lib a))\<rparr>)"
  let ?c = "(su_call ?uc)\<lparr>set_buf := \<lparr>dwFlsIndex = of_nat k, lpFlsData = v\<rparr>\<rparr>"
  have C: "sc_tgid ?c = tg" "sc_pid ?c = app_task e" using E(7,8) by simp_all
  note R = runs_current [OF e r C, of p']
  have l: "fd ?l \<noteq> - 1" "lib_ok ?l" using lib_ok_open E(9) runs_lib [OF r] by auto
  obtain s' where s': "st_fls_set (app_kernel e) ?c (returns_to e p' a) = Inr (0, s')"
    "st_current (app_kernel e) ?c s' = Some fa" "st_fibs s' fa = Some (f\<lparr>st_fls_array := (st_fls_array f)[k := v]\<rparr>)"
    using st_fls_set_allocated [OF R(1) E(2) R(2,3) k] by auto
  have "st_uregs s' = st_uregs (returns_to e p' a)" by (rule fls_set_uregs [OF s'(1)])
  moreover have "st_current (app_kernel e) d s' = Some fa" if "sc_tgid d = tg" "sc_pid d = app_task e" for d
    using s'(2) st_current_same [of d ?c] that C by simp
  ultimately have "runs_at e tg p' q fa (f\<lparr>st_fls_array := (st_fls_array f)[k := v]\<rparr>) (a\<lparr>app_st := s', app_lib := ?l\<lparr>args_live := args_live ?l - 1\<rparr>\<rparr>)"
    using returns_to_at [OF e, of p q a p'] st_fls_set_ok [OF R(1) s'(1)] s'(3) r l(2) by (simp add: runs_at_def app_at_def)
  then show thesis
    by (rule that [rotated]) (use s'(1) l(1) E(10) in \<open>simp add: st_FlsSetValue_def st_sys_ioctl_def Let_def\<close>)
qed

lemma lib_fls_get:
  assumes e: "app_env_ok e tg" and r: "runs_at e tg p q fa f a" and k: "k < 64" "bit (st_fls_bitmap f) k"
    and v: "st_fls_array f ! k = v" "unat v < 2 ^ 31"
  obtains l' where "st_FlsGetValue (app_kernel e) (app_calls e p) (of_nat k) (app_lib a) (returns_to e p' a) = Inr ((v, l'), returns_to e p' a)"
    "runs_at e tg p' q fa f (a\<lparr>app_st := returns_to e p' a, app_lib := l'\<rparr>)"
proof -
  note E = app_env_okD [OF e]
  let ?uc = "app_calls e p" let ?l = "st_ensure_open ?uc (app_lib a)" let ?c = "(su_call ?uc)\<lparr>sc_arg := of_nat k\<rparr>"
  have C: "sc_tgid ?c = tg" "sc_pid ?c = app_task e" using E(7,8) by simp_all
  note R = runs_current [OF e r C, of p']
  have l: "fd ?l \<noteq> - 1" "lib_ok ?l" using lib_ok_open E(9) runs_lib [OF r] by auto
  have n: "slot_inside (of_nat k)" "unat (of_nat k :: u64) = k" "k < MAX_FLS"
    using k(1) slot_inside_nat [of k] by (simp_all add: MAX_FLS_def)
  have "st_fls_get (app_kernel e) ?c (returns_to e p' a) = Inr (v, returns_to e p' a)"
    using with_current [OF R] n k v(1)
    by (simp add: st_fls_get_def st_test_bit_def st_bit_word_def st_get_word_def st_fls_load_def slot_inside_def BITS_PER_LONG_def)
  moreover have "libc_result v \<noteq> - 1"
    using libc_result_small(2) [OF v(2)] v(2) by (auto simp: unsigned_minus_1_eq_mask mask_eq_exp_minus_1)
  ultimately have "st_FlsGetValue (app_kernel e) ?uc (of_nat k) (app_lib a) (returns_to e p' a) = Inr ((v, ?l), returns_to e p' a)"
    using l(1) libc_result_small(2) [OF v(2)] by (simp add: st_FlsGetValue_def st_sys_ioctl_def Let_def)
  then show thesis
    by (rule that) (use returns_to_at [OF e, of p q a p'] r l(2) in \<open>simp add: runs_at_def app_at_def\<close>)
qed

section \<open>The whole program\<close>

lemma app_run_step: "app_step e a = Inr (False, b) \<Longrightarrow> app_run e (Suc n) a = app_run e n b"
  by simp

lemma app_run_end: "app_step e a = Inr (True, b) \<Longrightarrow> app_run e (Suc n) a = Inr (True, b)"
  by simp

lemma runs_print [simp]:
  "app_at e tg p q (print x y a) = app_at e tg p q a" "runs_at e tg p q fa f (print x y a) = runs_at e tg p q fa f a"
  "app_st (print x y a) = app_st a" "app_lib (print x y a) = app_lib a" "returns_to e p (print x y a) = returns_to e p a"
  "app_out (print x y a) = app_out a @ [(x, y)]" "v_fibers1 (print x y a) = v_fibers1 a" "v_fibers2 (print x y a) = v_fibers2 a"
  by (simp_all add: app_at_def runs_at_def print_def returns_to_def)

lemma at_variables [simp]:
  "app_at e tg p q (a\<lparr>v_fibers := x\<rparr>) = app_at e tg p q a" "app_at e tg p q (a\<lparr>v_fibers2 := x\<rparr>) = app_at e tg p q a"
  "runs_at e tg p q fa f (a\<lparr>v_fibers1 := x\<rparr>) = runs_at e tg p q fa f a"
  "runs_at e tg p q fa f (a\<lparr>v_ret := y\<rparr>) = runs_at e tg p q fa f a"
  "runs_at e tg p q fa f (a\<lparr>v_fibers3 := x\<rparr>) = runs_at e tg p q fa f a"
  "runs_at e tg p q fa f (a\<lparr>v_result := x\<rparr>) = runs_at e tg p q fa f a"
  by (simp_all add: app_at_def runs_at_def)

text \<open>From the start to the first switch: three fibers, the third about to start in \<^verbatim>\<open>hello\<close>.\<close>

definition all_fibers_made :: "pid_t \<Rightarrow> u64 \<Rightarrow> fproc" where
  "all_fibers_made task n = \<lparr>next_index = 3, live = {0, 1, 2}, cur = [task \<mapsto> n]\<rparr>"

lemma app_created:
  assumes e: "app_env_ok e tg" and at: "app_at e tg Main_Start None a"
  obtains a' f f2 g2 img where "app_run e (Suc (Suc (Suc n))) a = app_run e n a'"
    "app_at e tg Main_Created2 (Some (all_fibers_made (app_task e) 0)) a'" "v_fibers2 a' = 2"
    "app_out a' = app_out a @ [(''%ld'', [0]), (''%ld'', [1])]"
    "fiber_at (app_kernel e) tg (app_st a') 0 (st_brk (app_st a)) f"
    "st_fls_bitmap f = st_fls_bitmap (junk_fiber (app_kernel e) (st_brk (app_st a)))"
    "fiber_at (app_kernel e) tg (app_st a') 2 f2 g2" "regs_img (app_st a') f2 = Some img"
    "img ! slot_of (app_kernel e) P_ip = app_places e Hello_Start"
proof -
  note E = app_env_okD [OF e]
  let ?f0 = "st_brk (app_st a)" let ?env = "app_kernel e"
  obtain a1 f where 1: "app_step e a = Inr (False, a1)"
    "app_at e tg Main_Converted (Some \<lparr>next_index = 1, live = {0}, cur = [app_task e \<mapsto> 0]\<rparr>) a1"
    "app_out a1 = app_out a" "v_fiber a1 = 0" "fiber_at ?env tg (app_st a1) 0 ?f0 f"
    "st_fls_bitmap f = st_fls_bitmap (junk_fiber ?env ?f0)"
    by (rule app_start [OF e at])
  let ?p1 = "print ''%ld'' [v_fiber a1] a1"
  obtain s2 l2 where 2: "st_CreateFiber ?env (app_calls e Main_Converted) num_stack (app_places e Hello1_Start) 0 (app_lib ?p1)
      (returns_to e Main_Created ?p1) = Inr ((1, l2), s2)"
    "app_at e tg Main_Created (Some \<lparr>next_index = 2, live = {1, 0}, cur = [app_task e \<mapsto> 0]\<rparr>) (?p1\<lparr>app_st := s2, app_lib := l2\<rparr>)"
    "\<And>j b g. fiber_at ?env tg (app_st ?p1) j b g \<Longrightarrow> fiber_at ?env tg s2 j b g \<and> regs_img s2 b = regs_img (app_st ?p1) b"
    by (rule lib_create [OF e, of Main_Converted "\<lparr>next_index = 1, live = {0}, cur = [app_task e \<mapsto> 0]\<rparr>" ?p1 num_stack "app_places e Hello1_Start" Main_Created])
      (use 1 E in simp_all)
  let ?a2 = "?p1\<lparr>app_st := s2, app_lib := l2, v_fibers := 1\<rparr>"
  have s2: "app_step e a1 = Inr (False, ?a2)" using 2(1) by (simp add: app_step_at [OF e 1(2)] Let_def)
  have at2: "app_at e tg Main_Created (Some \<lparr>next_index = 2, live = {1, 0}, cur = [app_task e \<mapsto> 0]\<rparr>) ?a2"
    using 2(2) by (simp add: app_at_def)
  let ?p2 = "print ''%ld'' [1] ?a2"
  obtain s3 l3 f2 g2 img2 where 3: "st_CreateFiber ?env (app_calls e Main_Created) num_stack (app_places e Hello_Start) 0 (app_lib ?p2)
      (returns_to e Main_Created2 ?p2) = Inr ((2, l3), s3)"
    "app_at e tg Main_Created2 (Some \<lparr>next_index = 3, live = {2, 1, 0}, cur = [app_task e \<mapsto> 0]\<rparr>) (?p2\<lparr>app_st := s3, app_lib := l3\<rparr>)"
    "fiber_at ?env tg s3 2 f2 g2" "regs_img s3 f2 = Some img2" "img2 ! slot_of ?env P_ip = app_places e Hello_Start"
    "\<And>j b g. fiber_at ?env tg (app_st ?p2) j b g \<Longrightarrow> fiber_at ?env tg s3 j b g \<and> regs_img s3 b = regs_img (app_st ?p2) b"
    by (rule lib_create [OF e, of Main_Created "\<lparr>next_index = 2, live = {1, 0}, cur = [app_task e \<mapsto> 0]\<rparr>" ?p2 num_stack "app_places e Hello_Start" Main_Created2])
      (use at2 E in simp_all)
  let ?a3 = "?p2\<lparr>app_st := s3, app_lib := l3, v_fibers2 := 2\<rparr>"
  have s3: "app_step e ?a2 = Inr (False, ?a3)" using 3(1) by (simp add: app_step_at [OF e at2] Let_def)
  have "{2, 1, 0} = {0, 1, 2 :: u64}" by auto
  then have "app_at e tg Main_Created2 (Some (all_fibers_made (app_task e) 0)) ?a3"
    using 3(2) by (simp add: app_at_def all_fibers_made_def)
  moreover have "app_run e (Suc (Suc (Suc n))) a = app_run e n ?a3"
    by (simp only: app_run_step [OF 1(1)] app_run_step [OF s2] app_run_step [OF s3])
  ultimately show thesis
    by (intro that [of ?a3 f f2 g2 img2]) (use 1(3-6) 2(3) 3(3-6) in simp_all)
qed

text \<open>To \<^verbatim>\<open>hello\<close> and back.\<close>

lemma app_round:
  assumes e: "app_env_ok e tg" and at: "app_at e tg Main_Created2 (Some (all_fibers_made (app_task e) 0)) a" and v: "v_fibers2 a = 2"
    and f0: "fiber_at (app_kernel e) tg (app_st a) 0 f0 f" and f2: "fiber_at (app_kernel e) tg (app_st a) 2 f2 g2"
    and img: "regs_img (app_st a) f2 = Some img" "img ! slot_of (app_kernel e) P_ip = app_places e Hello_Start"
  obtains a' g where "app_run e (Suc (Suc n)) a = app_run e n a'"
    "runs_at e tg Main_Switched (Some (all_fibers_made (app_task e) 0)) f0 g a'" "st_fls_bitmap g = st_fls_bitmap f"
    "app_out a' = app_out a @ [(''%ld'', [2]), (''Hello call'', [])]"
proof -
  let ?env = "app_kernel e" let ?p3 = "print ''%ld'' [2] a" let ?q = "all_fibers_made (app_task e)"
  have Q: "(?q m)\<lparr>cur := (cur (?q m))(app_task e \<mapsto> n)\<rparr> = ?q n" for m n by (simp add: all_fibers_made_def)
  obtain s4 l4 img4 where 4: "st_SwitchToFiber ?env (app_calls e Main_Created2) 2 (app_lib ?p3) (returns_to e Main_Switched ?p3) = Inr (l4, s4)"
    "app_at e tg Hello_Start (Some (?q 2)) (?p3\<lparr>app_st := s4, app_lib := l4\<rparr>)"
    "regs_img s4 f0 = Some img4" "img4 ! slot_of ?env P_ip = app_places e Main_Switched"
    "\<And>i' b g. fiber_at ?env tg (app_st ?p3) i' b g \<Longrightarrow> \<exists>g'. fiber_at ?env tg s4 i' b g' \<and> same_storage g g'"
    by (rule lib_switch [OF e, of Main_Created2 "?q 0" ?p3 0 2 f2 g2 img Hello_Start f0 f Main_Switched, unfolded Q])
      (use at f0 f2 img in \<open>simp_all add: int_cut_def all_fibers_made_def\<close>)
  let ?a4 = "?p3\<lparr>app_st := s4, app_lib := l4\<rparr>"
  have s4: "app_step e a = Inr (False, ?a4)" using 4(1) v by (simp add: app_step_at [OF e at] Let_def)
  obtain g0 where g0: "fiber_at ?env tg s4 0 f0 g0" "same_storage f g0" using 4(5) [of 0 f0 f] f0 by auto
  obtain h2 where h2: "fiber_at ?env tg s4 2 f2 h2" using 4(5) [of 2 f2 g2] f2 by auto
  let ?p4 = "print ''Hello call'' [] ?a4"
  obtain s5 l5 where 5: "st_SwitchToFiber ?env (app_calls e Hello_Start) 0 (app_lib ?p4) (returns_to e Hello_Switched ?p4) = Inr (l5, s5)"
    "app_at e tg Main_Switched (Some (?q 0)) (?p4\<lparr>app_st := s5, app_lib := l5\<rparr>)"
    "\<And>i' b g. fiber_at ?env tg (app_st ?p4) i' b g \<Longrightarrow> \<exists>g'. fiber_at ?env tg s5 i' b g' \<and> same_storage g g'"
    by (rule lib_switch [OF e, of Hello_Start "?q 2" ?p4 2 0 f0 g0 img4 Main_Switched f2 h2 Hello_Switched, unfolded Q])
      (use 4 g0 h2 in \<open>simp_all add: int_cut_def all_fibers_made_def\<close>)
  let ?a5 = "?p4\<lparr>app_st := s5, app_lib := l5\<rparr>"
  have s5: "app_step e ?a4 = Inr (False, ?a5)" using 5(1) by (simp add: app_step_at [OF e 4(2)] Let_def)
  obtain h0 where h0: "fiber_at ?env tg s5 0 f0 h0" "same_storage g0 h0" using 5(3) [of 0 f0 g0] g0(1) by auto
  have cur: "st_current ?env c s5 = Some f0" if c: "sc_tgid c = tg" "sc_pid c = app_task e" for c
  proof -
    have i5: "st_inv ?env s5" "st_abs ?env s5 (sc_tgid c) = Some (?q 0)" using 5(2) c by (simp_all add: app_at_def)
    from current_at [OF this, of 0] obtain fa g where "st_current ?env c s5 = Some fa" "fiber_at ?env tg s5 0 fa g"
      using c by (auto simp: all_fibers_made_def)
    then show ?thesis using fiber_at_inj(1) [OF i5(1) _ h0(1)] by blast
  qed
  have "runs_at e tg Main_Switched (Some (?q 0)) f0 h0 ?a5"
    using 5(2) h0(1) cur by (auto simp: runs_at_def fiber_at_def)
  moreover have "app_run e (Suc (Suc n)) a = app_run e n ?a5"
    by (simp only: app_run_step [OF s4] app_run_step [OF s5])
  moreover have "st_fls_bitmap h0 = st_fls_bitmap f" using g0(2) h0(2) by (simp add: same_storage_def)
  ultimately show thesis by (intro that [of ?a5 h0]) (assumption | simp)+
qed

text \<open>The use of local storage, to the end of the program.\<close>

lemma app_slot:
  assumes e: "app_env_ok e tg" and r: "runs_at e tg Main_Switched q fa f a" and k: "ffz (st_fls_bitmap f) = Some k"
  obtains a' f' where "app_run e (Suc (Suc (Suc n))) a = app_run e n a'" "runs_at e tg Main_Alloced2 q fa f' a'"
    "ffz (st_fls_bitmap f) = Some k \<and> bit (st_fls_bitmap f') k \<and> length (st_fls_array f') = length (st_fls_array f)"
    "v_fibers1 a' = of_nat k" "v_fibers3 a' = of_nat k"
    "app_out a' = app_out a @ [(''First alloc: %ld'', [of_nat k]), (''Free : %d'', [1])]"
proof -
  let ?env = "app_kernel e"
  have k': "k < 64" "\<not> bit (st_fls_bitmap f) k" using k by (simp_all add: ffz_Some_iff)
  have step: "runs_at e tg p q fa g b \<Longrightarrow> app_step e b = app_exec e p b" for p g b
    by (rule app_step_at [OF e, where q = q]) (simp add: runs_at_def)
  let ?f1 = "f\<lparr>st_fls_bitmap := flip_bit k (st_fls_bitmap f), st_fls_array := (st_fls_array f)[k := 0]\<rparr>"
  obtain l1 s1 where 1: "st_FlsAlloc ?env (app_calls e Main_Switched) (app_lib a) (returns_to e Main_Alloced a) = Inr ((of_nat k, l1), s1)"
    "runs_at e tg Main_Alloced q fa ?f1 (a\<lparr>app_st := s1, app_lib := l1\<rparr>)" by (rule lib_fls_alloc [OF e r k])
  let ?a1 = "a\<lparr>app_st := s1, app_lib := l1, v_fibers1 := of_nat k\<rparr>"
  have r1: "runs_at e tg Main_Alloced q fa ?f1 ?a1" using 1(2) by (simp add: runs_at_def app_at_def)
  have s1: "app_step e a = Inr (False, ?a1)" using 1(1) step [OF r] by simp
  let ?p1 = "print ''First alloc: %ld'' [of_nat k] ?a1"
  let ?f2 = "?f1\<lparr>st_fls_bitmap := unset_bit k (st_fls_bitmap ?f1)\<rparr>"
  obtain l2 s2 where 2: "st_FlsFree ?env (app_calls e Main_Alloced) (of_nat k) (app_lib ?p1) (returns_to e Main_Freed ?p1) = Inr ((True, l2), s2)"
    "runs_at e tg Main_Freed q fa ?f2 (?p1\<lparr>app_st := s2, app_lib := l2\<rparr>)"
    by (rule lib_fls_free [OF e _ k'(1), of Main_Alloced q fa ?f1 ?p1]) (use r1 in simp_all)
  let ?a2 = "?p1\<lparr>app_st := s2, app_lib := l2, v_ret := True\<rparr>"
  have r2: "runs_at e tg Main_Freed q fa ?f2 ?a2" using 2(2) by (simp add: runs_at_def app_at_def)
  have s2: "app_step e ?a1 = Inr (False, ?a2)" using 2(1) step [OF r1] by (simp add: Let_def)
  have bm: "st_fls_bitmap ?f2 = st_fls_bitmap f" using k' by (intro bit_eqI) (auto simp: bit_simps)
  let ?p2 = "print ''Free : %d'' [1] ?a2"
  let ?f3 = "?f2\<lparr>st_fls_bitmap := flip_bit k (st_fls_bitmap ?f2), st_fls_array := (st_fls_array ?f2)[k := 0]\<rparr>"
  obtain l3 s3 where 3: "st_FlsAlloc ?env (app_calls e Main_Freed) (app_lib ?p2) (returns_to e Main_Alloced2 ?p2) = Inr ((of_nat k, l3), s3)"
    "runs_at e tg Main_Alloced2 q fa ?f3 (?p2\<lparr>app_st := s3, app_lib := l3\<rparr>)"
    by (rule lib_fls_alloc [OF e, of Main_Freed q fa ?f2 ?p2 k]) (use r2 k bm in simp_all)
  let ?a3 = "?p2\<lparr>app_st := s3, app_lib := l3, v_fibers3 := of_nat k\<rparr>"
  have r3: "runs_at e tg Main_Alloced2 q fa ?f3 ?a3" using 3(2) by (simp add: runs_at_def app_at_def)
  have s3: "app_step e ?a2 = Inr (False, ?a3)" using 3(1) step [OF r2] by (simp add: Let_def)
  have "app_run e (Suc (Suc (Suc n))) a = app_run e n ?a3"
    by (simp only: app_run_step [OF s1] app_run_step [OF s2] app_run_step [OF s3])
  moreover have "bit (st_fls_bitmap ?f3) k" using bm k' by (simp add: bit_simps)
  ultimately show thesis by (intro that [OF _ r3]) (use k in simp_all)
qed

lemma app_storage:
  assumes e: "app_env_ok e tg" and r: "runs_at e tg Main_Alloced2 q fa f a" and v: "v_fibers1 a = of_nat k"
    and k: "k < 64" "bit (st_fls_bitmap f) k" "length (st_fls_array f) = MAX_FLS"
  shows "\<exists>a'. app_run e 3 a = Inr (True, a') \<and>
    app_out a' = app_out a @ [(''Second alloc: %ld'', [v_fibers3 a]), (''Return get value: %ld'', [3])]"
proof -
  let ?env = "app_kernel e"
  have step: "runs_at e tg p q fa g b \<Longrightarrow> app_step e b = app_exec e p b" for p g b
    by (rule app_step_at [OF e, where q = q]) (simp add: runs_at_def)
  let ?p1 = "print ''Second alloc: %ld'' [v_fibers3 a] a" let ?f1 = "f\<lparr>st_fls_array := (st_fls_array f)[k := 3]\<rparr>"
  obtain l1 s1 where 1: "st_FlsSetValue ?env (app_calls e Main_Alloced2) (of_nat k) 3 (app_lib ?p1) (returns_to e Main_Set ?p1) = Inr (l1, s1)"
    "runs_at e tg Main_Set q fa ?f1 (?p1\<lparr>app_st := s1, app_lib := l1\<rparr>)"
    by (rule lib_fls_set [OF e _ k(1), of Main_Alloced2 q fa f ?p1]) (use r k in simp_all)
  let ?a1 = "?p1\<lparr>app_st := s1, app_lib := l1\<rparr>"
  have s1: "app_step e a = Inr (False, ?a1)" using 1(1) step [OF r] v by (simp add: Let_def)
  obtain l2 where 2: "st_FlsGetValue ?env (app_calls e Main_Set) (of_nat k) (app_lib ?a1) (returns_to e Main_Got ?a1) =
      Inr ((3, l2), returns_to e Main_Got ?a1)"
    "runs_at e tg Main_Got q fa ?f1 (?a1\<lparr>app_st := returns_to e Main_Got ?a1, app_lib := l2\<rparr>)"
    by (rule lib_fls_get [OF e 1(2) k(1), of 3 Main_Got]) (use k in \<open>simp_all add: MAX_FLS_def\<close>)
  let ?a2 = "?a1\<lparr>app_st := returns_to e Main_Got ?a1, app_lib := l2, v_result := 3\<rparr>"
  have r2: "runs_at e tg Main_Got q fa ?f1 ?a2" using 2(2) by (simp add: runs_at_def app_at_def)
  have s2: "app_step e ?a1 = Inr (False, ?a2)" using 2(1) step [OF 1(2)] v by simp
  have s3: "app_step e ?a2 = Inr (True, print ''Return get value: %ld'' [3] ?a2)" using step [OF r2] by simp
  have "app_run e 3 a = Inr (True, print ''Return get value: %ld'' [3] ?a2)"
    by (simp only: numeral_3_eq_3 app_run_step [OF s1] app_run_step [OF s2] app_run_end [OF s3])
  then show ?thesis by simp
qed

text \<open>C18. On a machine where the device opens and memory lasts the demonstration program of the earlier
  version ends, after eleven calls, with the output its author meant: the handles 0, 1 and 2, the line of
  \<^verbatim>\<open>hello\<close>, which runs between the two switches, then the slot that is allocated, freed and
  allocated again, and the value 3 read back from it. \<^verbatim>\<open>hello1\<close> never runs. The slot is the first
  one free in the bitmap the allocator's memory held.\<close>

theorem demo_program_output:
  assumes "app_env_ok e tg" "app_at e tg Main_Start None a"
    and "ffz (st_fls_bitmap (junk_fiber (app_kernel e) (st_brk (app_st a)))) = Some k"
  shows "\<exists>a'. app_run e 11 a = Inr (True, a') \<and> app_out a' = app_out a @
    [(''%ld'', [0]), (''%ld'', [1]), (''%ld'', [2]), (''Hello call'', []), (''First alloc: %ld'', [of_nat k]),
     (''Free : %d'', [1]), (''Second alloc: %ld'', [of_nat k]), (''Return get value: %ld'', [3])]"
proof -
  let ?f0 = "st_brk (app_st a)" let ?q = "all_fibers_made (app_task e) 0"
  obtain a1 f f2 g2 img where 1: "app_run e (Suc (Suc (Suc 8))) a = app_run e 8 a1"
    "app_at e tg Main_Created2 (Some ?q) a1" "v_fibers2 a1 = 2" "app_out a1 = app_out a @ [(''%ld'', [0]), (''%ld'', [1])]"
    "fiber_at (app_kernel e) tg (app_st a1) 0 ?f0 f" "st_fls_bitmap f = st_fls_bitmap (junk_fiber (app_kernel e) ?f0)"
    "fiber_at (app_kernel e) tg (app_st a1) 2 f2 g2" "regs_img (app_st a1) f2 = Some img"
    "img ! slot_of (app_kernel e) P_ip = app_places e Hello_Start"
    by (rule app_created [OF assms(1,2)])
  obtain a2 g where 2: "app_run e (Suc (Suc 6)) a1 = app_run e 6 a2" "runs_at e tg Main_Switched (Some ?q) ?f0 g a2"
    "st_fls_bitmap g = st_fls_bitmap f" "app_out a2 = app_out a1 @ [(''%ld'', [2]), (''Hello call'', [])]"
    by (rule app_round [OF assms(1) 1(2,3,5,7,8,9)])
  have k: "ffz (st_fls_bitmap g) = Some k" using assms(3) 1(6) 2(3) by simp
  have "st_inv (app_kernel e) (app_st a2)" "st_fibs (app_st a2) ?f0 = Some g" "st_current (app_kernel e) (su_call (app_calls e Main_Start)) (app_st a2) = Some ?f0"
    using 2(2) app_env_okD(7,8) [OF assms(1)] by (simp_all add: runs_at_def app_at_def)
  then have l: "length (st_fls_array g) = MAX_FLS" using with_current(2) by blast
  obtain a3 h where 3: "app_run e (Suc (Suc (Suc 3))) a2 = app_run e 3 a3" "runs_at e tg Main_Alloced2 (Some ?q) ?f0 h a3"
    "ffz (st_fls_bitmap g) = Some k \<and> bit (st_fls_bitmap h) k \<and> length (st_fls_array h) = length (st_fls_array g)"
    "v_fibers1 a3 = of_nat k" "v_fibers3 a3 = of_nat k"
    "app_out a3 = app_out a2 @ [(''First alloc: %ld'', [of_nat k]), (''Free : %d'', [1])]"
    by (rule app_slot [OF assms(1) 2(2) k])
  have "k < 64" using k by (simp add: ffz_Some_iff)
  then obtain a4 where 4: "app_run e 3 a3 = Inr (True, a4)"
    "app_out a4 = app_out a3 @ [(''Second alloc: %ld'', [v_fibers3 a3]), (''Return get value: %ld'', [3])]"
    using app_storage [OF assms(1) 3(2,4)] 3(3) l by auto
  have "(11::nat) = Suc (Suc (Suc 8))" "(8::nat) = Suc (Suc 6)" "(6::nat) = Suc (Suc (Suc 3))" by simp_all
  then have "app_run e 11 a = Inr (True, a4)" using 1(1) 2(1) 3(1) 4(1) by metis
  then show ?thesis using 1(4) 2(4) 3(5,6) 4(2) by simp
qed

text \<open>The program of task 7 in the environment of the other examples, with an allocator whose memory is
  zero.\<close>

definition demo_kernel :: st_env where
  "demo_kernel = st_demo_env\<lparr>junk_fiber := \<lambda>a. (junk_fiber st_demo_env a)\<lparr>st_fls_bitmap := 0\<rparr>\<rparr>"

definition demo_place :: "app_pc \<Rightarrow> u64" where
  "demo_place p = (case p of Main_Start \<Rightarrow> 0x401000 | Main_Converted \<Rightarrow> 0x401010 | Main_Created \<Rightarrow> 0x401020
     | Main_Created2 \<Rightarrow> 0x401030 | Main_Switched \<Rightarrow> 0x401040 | Main_Alloced \<Rightarrow> 0x401050 | Main_Freed \<Rightarrow> 0x401060
     | Main_Alloced2 \<Rightarrow> 0x401070 | Main_Set \<Rightarrow> 0x401080 | Main_Got \<Rightarrow> 0x401090 | Hello_Start \<Rightarrow> 0x402000
     | Hello_Switched \<Rightarrow> 0x402010 | Hello1_Start \<Rightarrow> 0x403000)"

definition demo_app_env :: app_env where
  "demo_app_env = \<lparr>app_kernel = demo_kernel, app_places = demo_place, app_calls = (\<lambda>_. st_demo_ucall), app_task = 7\<rparr>"

definition demo_app_start :: app where
  "demo_app_start = \<lparr>app_st = st_init_state (\<lambda>t. (replicate 21 0)[16 := 0x401000]) (\<lambda>_. [1, 2]),
     app_lib = \<lparr>fd = 0, opened = False, args_live = 0\<rparr>, app_out = [], v_fiber = 0, v_fibers = 0, v_fibers2 = 0,
     v_fibers1 = 0, v_ret = False, v_fibers3 = 0, v_result = 0\<rparr>"

lemma demo_app_env_ok: "app_env_ok demo_app_env 7"
  unfolding app_env_ok_def
proof (intro conjI)
  show "st_env_ok (app_kernel demo_app_env)" "memory_ok (app_kernel demo_app_env)"
    using st_demo_env_ok by (simp_all add: demo_app_env_def demo_kernel_def st_env_ok_def memory_ok_def)
  show "inj (app_places demo_app_env)"
    by (rule injI) (auto simp: demo_app_env_def demo_place_def split: app_pc.splits)
  show "\<forall>i\<in>{0, 1, 2}. index_ok (kern (app_kernel demo_app_env)) i"
    using demo_index_ok st_demo_env_ok(3) by (simp add: demo_app_env_def demo_kernel_def)
qed (simp add: demo_app_env_def st_demo_ucall_def)

lemma demo_app_at: "app_at demo_app_env 7 Main_Start None demo_app_start"
proof -
  have "st_inv (app_kernel demo_app_env) (app_st demo_app_start)"
    unfolding demo_app_start_def app.simps by (rule st_inv_init) (simp add: demo_app_env_def demo_kernel_def st_demo_env_def demo_env_def)
  moreover have "st_abs (app_kernel demo_app_env) (app_st demo_app_start) = Map.empty"
    unfolding demo_app_start_def app.simps by (rule st_abs_init)
  ultimately show ?thesis
    by (simp add: app_at_def) (simp add: demo_app_start_def demo_app_env_def demo_kernel_def st_demo_env_def st_init_state_def
        demo_place_def lib_ok_def)
qed

theorem demo_program_output_witness:
  "\<exists>a'. app_run demo_app_env 11 demo_app_start = Inr (True, a') \<and> app_out a' = app_out demo_app_start @
    [(''%ld'', [0]), (''%ld'', [1]), (''%ld'', [2]), (''Hello call'', []), (''First alloc: %ld'', [of_nat 0]),
     (''Free : %d'', [1]), (''Second alloc: %ld'', [of_nat 0]), (''Return get value: %ld'', [3])]"
  by (rule demo_program_output [OF demo_app_env_ok demo_app_at])
    (simp add: demo_app_env_def demo_kernel_def ffz_Some_iff)

end
