(* ===== verification/Single_Types.thy ===== *)
theory Single_Types
  imports Single_Props
begin

text \<open>
  The types of the earlier version's memory. In the C sources a structure holds bare addresses of others
  (\<^verbatim>\<open>active_fiber\<close>, \<^verbatim>\<open>regs\<close>, \<^verbatim>\<open>fpu_reg\<close>, the links of the tables), with nothing that ties an
  address to the kind or the size of what lies there. Here every address that can be reached from
  \<^verbatim>\<open>list_process\<close> is given the type the commands use it at.
\<close>

section \<open>Typing\<close>

definition thread_typed :: "st_state \<Rightarrow> st_process \<Rightarrow> addr \<Rightarrow> bool" where
  "thread_typed s p ta \<longleftrightarrow> (\<exists>t fa. st_thrs s ta = Some t \<and> st_active t = Some fa \<and> fa \<in> mem (st_fibers p))"

definition fiber_typed :: "st_env \<Rightarrow> st_state \<Rightarrow> st_process \<Rightarrow> addr \<Rightarrow> bool" where
  "fiber_typed env s p fa \<longleftrightarrow> (\<exists>f r x img m. st_fibs s fa = Some f \<and> st_index f < st_fiber_id p \<and>
     st_regs f = Some r \<and> st_pregs s r = Some img \<and> length img = nregs (kern env) \<and>
     st_fpu f = Some x \<and> st_fpus s x = Some m \<and> length (st_fls_array f) = MAX_FLS)"

definition process_typed :: "st_env \<Rightarrow> st_state \<Rightarrow> addr \<Rightarrow> bool" where
  "process_typed env s pa \<longleftrightarrow> (\<exists>p. st_procs s pa = Some p \<and>
     (\<forall>ta\<in>mem (st_threads p). thread_typed s p ta) \<and> (\<forall>fa\<in>mem (st_fibers p). fiber_typed env s p fa))"

lemma process_typedI:
  assumes i: "st_inv env s" and p: "pa \<in> mem (st_list s)"
  shows "process_typed env s pa"
proof -
  let ?e = "kern env"
  obtain n where n: "kinv ?e (embed ?e n s)" and o: "objects_ok env s" by (rule st_invD [OF i]) blast
  have "pkey (embed ?e n s) pa \<noteq> None" using table_ok_live [OF kinv_list [OF n, unfolded pid_tab_def], of pa] p by auto
  then obtain q where q: "st_procs s pa = Some q" by (auto simp: pkey_def split: option.splits)
  have inv: "proc_inv ?e (embed ?e n s) (embed_process q)" using kinv_proc [OF n, of pa] p q by simp
  have "thread_typed s q ta" if ta: "ta \<in> mem (st_threads q)" for ta
  proof -
    obtain fa where "fa \<in> mem (st_fibers q)" "act (embed ?e n s) ta = Some fa" using inv ta by (auto simp: proc_inv_def)
    then show ?thesis by (auto simp: thread_typed_def act_def embed_thread_def split: option.splits)
  qed
  moreover have "fiber_typed env s q fa" if fa: "fa \<in> mem (st_fibers q)" for fa
  proof -
    have "fa \<in> linked s" using fa p q by (auto simp: linked_def)
    then have "owns env s fa" using o by (simp add: objects_ok_def)
    moreover have "fiber_inv ?e (embed ?e n s) (embed_process q) fa" using inv fa by (simp add: proc_inv_def)
    ultimately show ?thesis by (auto simp: owns_def fiber_inv_def fiber_typed_def embed_fiber_def)
  qed
  ultimately show ?thesis using q by (auto simp: process_typed_def)
qed

text \<open>C17. The memory of the earlier version is typed in every reachable state: every entry of
  \<^verbatim>\<open>list_process\<close> is a live process; every thread in its table is a live thread whose
  \<^verbatim>\<open>active_fiber\<close> is a fiber of the same process; every fiber in its table is a live fiber with an index
  below the counter, an array of \<^verbatim>\<open>MAX_FLS\<close> slots, a live register image of full size and a live FX
  image; and no two fibers share an image.\<close>

theorem st_heap_typed:
  assumes "st_env_ok env" "st_reachable env s"
  shows "(\<forall>pa\<in>mem (st_list s). process_typed env s pa) \<and> inj_on (regs_of s) (linked s) \<and> inj_on (fpu_of s) (linked s)"
  using st_reachable_inv [OF assms(2,1)] process_typedI by (auto simp: st_inv_def objects_ok_def)

theorem st_heap_typed_witness:
  "\<exists>pa p fa f r. pa \<in> mem (st_list st3) \<and> st_procs st3 pa = Some p \<and> fa \<in> mem (st_fibers p) \<and> st_fibs st3 fa = Some f \<and>
     st_index f = 1 \<and> st_regs f = Some r \<and> map_option length (st_pregs st3 r) = Some 21"
proof -
  have i: "st_inv st_demo_env st3" using st3 by blast
  show ?thesis
    using i
  proof (cases rule: st_process_cases [where k = 7])
    case None
    then show ?thesis using st3 by simp
  next
    case (Some pa p)
    have t: "process_typed st_demo_env st3 pa" using st_heap_typed [OF st_demo_env_ok(1) st_demo_reachable(2)] Some(2) by blast
    have "st_aproc st_demo_env st3 p = \<lparr>next_index = 2, live = {0, 1}, cur = [7 \<mapsto> 1]\<rparr>" using Some(5) st3 by simp
    then have "1 \<in> live (st_aproc st_demo_env st3 p)" by simp
    then obtain fa f where f: "fa \<in> mem (st_fibers p)" "st_fibs st3 fa = Some f" "st_index f = 1"
      using st_live_iff [of 1 st_demo_env st3 p] by blast
    from t f Some(3) obtain r img where "st_regs f = Some r" "st_pregs st3 r = Some img" "length img = nregs (kern st_demo_env)"
      by (auto simp: process_typed_def fiber_typed_def)
    moreover have "nregs (kern st_demo_env) = 21" by (simp add: st_demo_env_ok demo_env_def)
    ultimately show ?thesis using Some(2,3) f by (intro exI [of _ pa] exI [of _ p] exI [of _ fa] exI [of _ f] exI [of _ r]) simp
  qed
qed

end
