(* ===== verification/Convert_Steps.thy ===== *)
theory Convert_Steps
  imports Convert_Race Fiber_Library
begin

text \<open>
  \<^verbatim>\<open>ConvertThreadToFiber\<close> in two steps, cut where CONVERTTOFIBER is cut in \<open>Convert_Race\<close>:
  what a thread holds between the search for its process and the entry into it
  (\<open>convert_begin\<close>, \<open>convert_end\<close>), and what the steps of the other threads leave of it. A
  thread that found no process must still find none when it goes on; that is the condition under which
  the two steps are the conversion of the specification.
\<close>

section \<open>The library function in two steps\<close>

text \<open>The fiber allocated and the process found; \<open>None\<close> when the device could not be opened and the
  call does not reach the module.\<close>

type_synonym found = "(addr option \<times> addr option) option"

definition convert_begin :: "kenv \<Rightarrow> ucall \<Rightarrow> lib \<Rightarrow> kstate \<Rightarrow> fault + (found \<times> lib) \<times> kstate" where
  "convert_begin env uc l s =
     (let l = ensure_open uc l in
      if fd l = - 1 then Inr ((None, l), s)
      else kbind (convert_find env (kcall uc) s) (\<lambda>(fp, s). Inr ((Some fp, l), s)))"

definition convert_end :: "kenv \<Rightarrow> ucall \<Rightarrow> found \<Rightarrow> kstate \<Rightarrow> fault + u64 \<times> kstate" where
  "convert_end env uc found s = (case found of
      None \<Rightarrow> Inr (scast (- 1 :: u32), s)
    | Some fp \<Rightarrow> kbind (convert_enter env (kcall uc) fp s) (\<lambda>(r, s). Inr (scast (libc_result r), s)))"

lemma ConvertThreadToFiber_split:
  "ConvertThreadToFiber env uc l s =
     kbind (convert_begin env uc l s) (\<lambda>((found, l), s). kbind (convert_end env uc found s) (\<lambda>(h, s). Inr ((h, l), s)))"
proof (cases "convert_find env (kcall uc) s")
  case (Inr fs)
  then show ?thesis
    by (cases "convert_enter env (kcall uc) (fst fs) (snd fs)")
      (auto simp: ConvertThreadToFiber_def convert_begin_def convert_end_def sys_ioctl_def no_out_def Let_def
        convert_split case_prod_beta)
qed (simp add: ConvertThreadToFiber_def convert_begin_def convert_end_def sys_ioctl_def no_out_def Let_def convert_split)

section \<open>Fibers allocated and not yet linked\<close>

definition loose :: "kstate \<Rightarrow> addr \<Rightarrow> bool" where
  "loose s fa \<longleftrightarrow> fibs s fa \<noteq> None \<and> fa \<notin> all_fibers s"

text \<open>A step keeps the loose fibers, those of \<open>X\<close> apart, and the processes that are found.\<close>

definition keeps :: "kenv \<Rightarrow> addr set \<Rightarrow> kstate \<Rightarrow> kstate \<Rightarrow> bool" where
  "keeps env X s s' \<longleftrightarrow> (\<forall>fa. loose s fa \<longrightarrow> fa \<notin> X \<longrightarrow> loose s' fa) \<and>
     (\<forall>tg pa. search_process env tg s = Inr (Some pa) \<longrightarrow> search_process env tg s' = Inr (Some pa))"

lemma keeps_refl [simp]: "keeps env X s s"
  by (simp add: keeps_def)

lemma keeps_trans: "keeps env X s s' \<Longrightarrow> keeps env X s' s'' \<Longrightarrow> keeps env X s s''"
  by (simp add: keeps_def)

lemma keeps_empty: "keeps env {} s s' \<Longrightarrow> keeps env X s s'"
  by (simp add: keeps_def)

lemma loose_below: "kinv env s \<Longrightarrow> loose s fa \<Longrightarrow> fa < brk s"
  by (rule ccontr) (auto simp: loose_def kinv_def fresh_beyond_def)

lemma search_process_same:
  "list_process s' = list_process s \<Longrightarrow> pkey s' = pkey s \<Longrightarrow> search_process env k s' = search_process env k s"
  by (simp add: search_process_def)

lemma keepsI:
  assumes "\<And>fa. fa \<notin> X \<Longrightarrow> fibs s fa \<noteq> None \<Longrightarrow> fa \<notin> all_fibers s \<Longrightarrow> fibs s' fa \<noteq> None \<and> fa \<notin> all_fibers s'"
    and "list_process s' = list_process s" "pkey s' = pkey s"
  shows "keeps env X s s'"
  using assms search_process_same [of s' s] by (simp add: keeps_def loose_def)

section \<open>The steps of the others\<close>

lemma all_fibers_same:
  "list_process s' = list_process s \<Longrightarrow> procs s' = procs s \<Longrightarrow> all_fibers s' = all_fibers s"
  by (simp add: all_fibers_def)

lemma switch_keeps:
  assumes k: "kinv env s" and r: "ioctl_switch env c s = Inr (r, s')"
  shows "keeps env X s s'"
  using k
proof (cases rule: ioctl_switch_cases [where c = c])
  case refused
  then show ?thesis using r by simp
next
  case (busy pa p fa f)
  then have s': "s' = s\<lparr>fibs := (fibs s)(fa \<mapsto> f\<lparr>failed_activations := failed_activations f + 1\<rparr>)\<rparr>" using r by simp
  have "list_process s' = list_process s" "procs s' = procs s" "pkey s' = pkey s" unfolding s' by simp_all
  moreover from this(1,2) have "all_fibers s' = all_fibers s" by (rule all_fibers_same)
  moreover have "fibs s' fb \<noteq> None" if "fibs s fb \<noteq> None" for fb using that unfolding s' by simp
  ultimately show ?thesis by (intro keepsI) simp_all
next
  case (success pa p ta t af fo fa f)
  then have s': "s' = switched env c ta af fa s" using r by simp
  have "list_process s' = list_process s" "procs s' = procs s" by (simp_all add: s')
  moreover from this(1,2) have "all_fibers s' = all_fibers s" by (rule all_fibers_same)
  moreover have "pkey s' = pkey s" unfolding s' by (rule ext) (simp add: pkey_def)
  moreover have "fibs s' fb \<noteq> None" if "fibs s fb \<noteq> None" for fb using that by (simp add: s' switched_def Let_def)
  ultimately show ?thesis by (intro keepsI) simp_all
qed

lemma convert_entry_keeps:
  assumes "kinv env s" "ok_fiber c"
  shows "keeps env X s (convert_entry env c s)" "loose (convert_entry env c s) (brk s)" "\<not> loose s (brk s)"
proof -
  have "brk s \<notin> all_fibers s" using linked_below(3) [OF assms(1), of "brk s"] by auto
  then show "loose (convert_entry env c s) (brk s)" by (simp add: loose_def convert_entry_fiber [OF assms(2)])
  show "keeps env X s (convert_entry env c s)" by (rule keepsI) (simp_all add: convert_entry_fiber [OF assms(2)])
  show "\<not> loose s (brk s)" using loose_below [OF assms(1), of "brk s"] by blast
qed

lemma create_keeps:
  assumes k: "kinv env s" and r: "ioctl_create env c s = Inr (r, s')"
  shows "keeps env X s s'"
proof -
  have args: "ok_args c" using r by (cases "ok_args c") (auto simp: ioctl_create_def case_prod_beta)
  have e: "keeps env X s (create_entry env c s)"
    by (rule keepsI) (simp_all add: create_entry_def kzalloc_fiber_def all_fibers_def pkey_def [abs_def])
  have f: "keeps env X s (kfree_args b u) = keeps env X s u" for b u
    by (simp add: keeps_def loose_def kfree_args_def all_fibers_def search_process_def pkey_def [abs_def])
  show ?thesis
    using k args
  proof (cases rule: ioctl_create_cases)
    case (success u pa p ta)
    let ?s = "link_fiber env pa (brk s) (init_created env c s u (fiber_id p) (zero_fiber env)) p (create_entry env c s)"
    have "keeps env X s ?s"
    proof (rule keepsI)
      show "list_process ?s = list_process s" by (simp add: link_fiber_def)
      show "pkey ?s = pkey s" using success(6) by (auto simp: link_fiber_def pkey_def)
      fix fa assume fa: "fibs s fa \<noteq> None" "fa \<notin> all_fibers s"
      then have "fa \<noteq> brk s" using k by (auto simp: kinv_def fresh_beyond_def)
      moreover have "all_fibers ?s \<subseteq> insert (brk s) (all_fibers s)"
        using success(5,6) by (auto simp: link_fiber_def all_fibers_def split: if_splits)
      ultimately show "fibs ?s fa \<noteq> None \<and> fa \<notin> all_fibers ?s"
        using fa create_entry_fiber [of c env s] success(2) by (auto simp: link_fiber_def)
    qed
    then show ?thesis using success(1) r by (auto simp: f)
  qed (use r e f in auto)
qed

section \<open>The two steps of a conversion\<close>

lemma find_ok:
  assumes k: "kinv env s" and ok: "ok_fiber c"
  shows "\<exists>pr. convert_find env c s = Inr ((Some (brk s), pr), convert_entry env c s) \<and> search_process env (c_tgid c) s = Inr pr"
  using k
proof (cases rule: search_process_cases [where k = "c_tgid c"])
  case None
  then show ?thesis using convert_find_none [OF ok] by blast
next
  case (Some pa p)
  then show ?thesis unfolding convert_find_def convert_entry_pair using ok by simp
qed

lemma enter_thread:
  assumes k: "kinv env s" and pa: "search_process env (c_tgid c) s = Inr (Some pa)" "procs s pa = Some p"
    and fa: "loose s fa" and ix: "index_ok env (fiber_id p)" and ok: "ok_thread c"
    and new: "cur (abs_proc env s p) (c_pid c) = None"
  shows "\<exists>s'. convert_thread env c (Some fa) pa s = Inr (fiber_id p, s') \<and> kinv env s' \<and> keeps env {fa} s s' \<and>
    (fiber_id p, kabs env s') = spec_register c (abs_proc env s p) (kabs env s)"
proof -
  have m: "pa \<in> mem (list_process s)"
    using search_process_cases [OF k, of "c_tgid c"] pa(1) by (metis Inr_inject option.distinct(1) option.inject)
  note pid = member_pid [OF k pa]
  obtain f0 where f0: "fibs s fa = Some f0" "fa \<notin> all_fibers s" using fa by (auto simp: loose_def)
  have f: "Some fa = (if True then Some fa else None)" "fibs s fa = Some f0 \<or> \<not> True" using f0 by simp_all
  have below: "fa < brk s \<or> \<not> True" using loose_below [OF k fa] by simp
  show ?thesis
    using k m pa(2) f
  proof (cases rule: convert_thread_cases [where c = c])
    case (present ta)
    then show ?thesis
      by (rule_tac thread_find_cases [OF kinv_proc [OF k m pa(2)], of "c_pid c"])
        (use present new in \<open>auto simp: abs_proc_def fkey_def\<close>)
  next
    case success
    let ?s = "link_thread env (c_pid c) pa fa (init_converted env c s (fiber_id p) f0) p s"
    have "keeps env {fa} s ?s"
    proof (rule keepsI)
      show "pkey ?s = pkey s" using pa(2) by (auto simp: link_thread_def pkey_def)
      have "all_fibers ?s \<subseteq> insert fa (all_fibers s)"
        using m pa(2) by (auto simp: link_thread_def all_fibers_def split: if_splits)
      then show "fibs ?s fb \<noteq> None \<and> fb \<notin> all_fibers ?s" if "fb \<notin> {fa}" "fibs s fb \<noteq> None" "fb \<notin> all_fibers s" for fb
        using that by (auto simp: link_thread_def)
    qed (simp add: link_thread_def)
    then show ?thesis
      using success(1) convert_thread_kinv [OF k m pa(2) f f0(2) below ix success(1)]
        convert_thread_refines [OF k m pa(2) pid f f0(2) below ix success(1)] by blast
  qed (use ok in simp_all)
qed

lemma link_process_keeps:
  assumes k: "kinv env s" and n: "search_process env tg s = Inr None" "\<And>a. a \<in> mem (list_process s) \<Longrightarrow> pkey s a \<noteq> Some tg"
  shows "keeps env X s (link_process env tg s)" "search_process env tg (link_process env tg s) = Inr (Some (brk s))"
proof -
  let ?s = "link_process env tg s"
  note l = link_process_kinv [OF k n(2)]
  have b: "brk s \<notin> mem (list_process s)" using linked_below(1) [OF k, of "brk s"] by auto
  have p: "procs ?s (brk s) = Some (fresh_process tg)" "brk s \<in> mem (list_process ?s)" by (simp_all add: link_process_def)
  show "search_process env tg ?s = Inr (Some (brk s))"
    using search_process_member [OF l p(2,1)] by (simp add: fresh_process_def)
  have "search_process env k' ?s = Inr (Some pa)" if "search_process env k' s = Inr (Some pa)" for k' pa
    using k
  proof (cases rule: search_process_cases [where k = k'])
    case (Some pb q)
    then have "pb = pa" "pb \<noteq> brk s" using that b by auto
    then have "pa \<in> mem (list_process ?s)" "procs ?s pa = Some q" using Some by (simp_all add: link_process_def)
    then show ?thesis using search_process_member [OF l, of pa q] Some(4) by simp
  qed (use that in simp)
  then show "keeps env X s ?s"
    using all_fibers_link_process [OF b] by (simp add: keeps_def loose_def) (simp add: link_process_def)
qed

text \<open>A thread that still finds what it found registers, under the next index of its process.\<close>

lemma enter_ok:
  assumes k: "kinv env s" and pr: "search_process env (c_tgid c) s = Inr pr" and fa: "loose s fa"
    and ok: "ok_process c" "ok_thread c"
    and q: "kabs env s (c_tgid c) = None \<and> q = no_fibers \<or> kabs env s (c_tgid c) = Some q \<and> cur q (c_pid c) = None"
    and ix: "index_ok env (next_index q)"
  shows "\<exists>s'. convert_enter env c (Some fa, pr) s = Inr (next_index q, s') \<and> kinv env s' \<and> keeps env {fa} s s' \<and>
    kabs env s' = (kabs env s)(c_tgid c \<mapsto> q\<lparr>next_index := next_index q + 1, live := insert (next_index q) (live q),
      cur := (cur q)(c_pid c \<mapsto> next_index q)\<rparr>)"
  using k
proof (cases rule: search_process_cases [where k = "c_tgid c"])
  case (Some pa p)
  have a: "q = abs_proc env s p" "cur q (c_pid c) = None" using q abs_found [OF Some(1,3)] by auto
  then have i: "next_index q = fiber_id p" by (simp add: abs_proc_def)
  show ?thesis
    using enter_thread [OF k Some(1,3) fa _ ok(2)] a i ix Some(1) pr ok(2)
    by (auto simp: convert_enter_def spec_register_def)
next
  case None
  let ?l = "link_process env (c_tgid c) s"
  have a: "kabs env s (c_tgid c) = None" "q = no_fibers" using q abs_absent [OF None(1)] by auto
  note l = link_process_kinv [OF k None(2)] link_process_keeps [OF k None] link_process_abs [OF k None(2)]
  have p: "procs ?l (brk s) = Some (fresh_process (c_tgid c))" by (simp add: link_process_def)
  have la: "abs_proc env ?l (fresh_process (c_tgid c)) = no_fibers"
    using abs_found [OF l(3) p] l(4) by simp
  have fl: "loose ?l fa" using l(2) [of "{}"] fa by (simp add: keeps_def)
  obtain s' where s': "convert_thread env c (Some fa) (brk s) ?l = Inr (0, s')" "kinv env s'" "keeps env {fa} ?l s'"
    "(0, kabs env s') = spec_register c no_fibers (kabs env ?l)"
    using enter_thread [OF l(1,3) p fl _ ok(2)] ix a la by (auto simp: fresh_process_def no_fibers_def)
  have "convert_enter env c (Some fa, pr) s = convert_thread env c (Some fa) (brk s) ?l"
    using ok(1) pr None(1)
    by (simp add: convert_enter_def kzalloc_process_def link_process_def zero_process_def fresh_process_def)
  moreover have "keeps env {fa} s s'" using keeps_trans [OF l(2) s'(3)] .
  ultimately show ?thesis using s' l(4) a ok(2) by (simp add: spec_register_def no_fibers_def)
qed

end
