(* ===== verification/Main_Run.thy ===== *)
theory Main_Run
  imports Main_Setup Convert_Steps
begin

text \<open>
  \<^verbatim>\<open>main\<close> and the helper threads of \<^verbatim>\<open>multi_thread/src/main.c\<close> side by side, on one kernel state,
  one library state and the variables they share: \<^verbatim>\<open>num_fibers\<close>, the array \<^verbatim>\<open>fibers\<close>,
  \<^verbatim>\<open>init_complete\<close> and the handler of \<^verbatim>\<open>SIGALRM\<close>. A step is one statement with at most one
  library call. \<^verbatim>\<open>ConvertThreadToFiber\<close> is two steps, the search for the process and the rest, so that
  any steps of the others fall between (\<open>Convert_Steps\<close>); the other calls are taken whole, and
  \<^verbatim>\<open>create_threads\<close> is one step (its own are in \<open>Thread\<close>). Steps of \<^verbatim>\<open>main\<close>, of any helper and of the alarm
  come in any order. What
  the fibers compute once \<^verbatim>\<open>main_loop\<close> is entered is in \<open>Model\<close>.
\<close>

section \<open>The program\<close>

datatype main_pc =
    MCheck              \<comment> \<open>the checks of the arguments\<close>
  | MThreads u32        \<comment> \<open>\<^verbatim>\<open>create_threads\<close>\<close>
  | MMalloc
  | MConvert            \<comment> \<open>\<^verbatim>\<open>fibers[0] = ConvertThreadToFiber()\<close>\<close>
  | MEnter found        \<comment> \<open>in the call, the process searched\<close>
  | MCreate nat         \<comment> \<open>the loop over \<open>i\<close>\<close>
  | MSignal
  | MComplete           \<comment> \<open>\<^verbatim>\<open>init_complete = true\<close>\<close>
  | MLoop               \<comment> \<open>in \<^verbatim>\<open>main_loop\<close>\<close>
  | MStopped            \<comment> \<open>\<^verbatim>\<open>exit(EXIT_FAILURE)\<close>\<close>

text \<open>A helper that is converted carries the index of the fiber it became, which the code drops.\<close>

datatype helper_pc =
    HNone               \<comment> \<open>not created\<close>
  | HConvert
  | HEnter found
  | HSpin u64           \<comment> \<open>\<^verbatim>\<open>while(!init_complete)\<close>\<close>
  | HLoop u64
  | HGone u64           \<comment> \<open>runs another fiber\<close>

record boot_env =
  be_env :: kenv
  be_tg :: pid_t                             \<comment> \<open>the process, and its main thread\<close>
  be_onln :: int
  be_strtoll :: "string \<Rightarrow> int \<times> int"
  be_argv :: "string list"
  be_entry :: u64                            \<comment> \<open>address of \<^verbatim>\<open>main_loop\<close>\<close>
  be_malloc :: bool
  be_tids :: "nat \<Rightarrow> pid_t"                  \<comment> \<open>the threads that get created\<close>

record boot =
  bt_state :: kstate
  bt_lib :: lib
  bt_main :: main_pc
  bt_helper :: "pid_t \<Rightarrow> helper_pc"
  bt_num :: u32
  bt_fibers :: "u64 option list option"      \<comment> \<open>\<open>None\<close>: NULL, or an entry not written\<close>
  bt_complete :: bool
  bt_handler :: bool

definition boot_start :: "kstate \<Rightarrow> lib \<Rightarrow> boot" where
  "boot_start s l = \<lparr>bt_state = s, bt_lib = l, bt_main = MCheck, bt_helper = (\<lambda>_. HNone), bt_num = 0, bt_fibers = None,
     bt_complete = False, bt_handler = False\<rparr>"

definition store_fiber :: "nat \<Rightarrow> u64 \<Rightarrow> boot \<Rightarrow> fault + boot" where
  "store_fiber i h b = (case bt_fibers b of
      None \<Rightarrow> Inl NullDeref
    | Some xs \<Rightarrow> if i < length xs then Inr (b\<lparr>bt_fibers := Some (xs[i := Some h])\<rparr>) else Inl OutOfBounds)"

definition load_fiber :: "nat \<Rightarrow> boot \<Rightarrow> fault + u64" where
  "load_fiber i b = (case bt_fibers b of
      None \<Rightarrow> Inl NullDeref
    | Some xs \<Rightarrow> if i < length xs then (case xs ! i of None \<Rightarrow> Inl Uninit | Some h \<Rightarrow> Inr h) else Inl OutOfBounds)"

text \<open>The threads \<^verbatim>\<open>create_threads\<close> starts.\<close>

definition helpers_of :: "boot_env \<Rightarrow> u32 \<Rightarrow> pid_t set" where
  "helpers_of e cpus = set (map (be_tids e) [0..<unat (helper_threads cpus)])"

definition main_step :: "boot_env \<Rightarrow> ucall \<Rightarrow> boot \<Rightarrow> fault + boot" where
  "main_step e uc b = (case bt_main b of
     MCheck \<Rightarrow> Inr (case check_arguments (be_onln e) (be_strtoll e) (be_argv e) of
         Checked cpus n \<Rightarrow> b\<lparr>bt_num := n, bt_main := MThreads cpus\<rparr>
       | _ \<Rightarrow> b\<lparr>bt_main := MStopped\<rparr>)
   | MThreads cpus \<Rightarrow> Inr (b\<lparr>bt_helper := (\<lambda>t. if t \<in> helpers_of e cpus then HConvert else bt_helper b t), bt_main := MMalloc\<rparr>)
   | MMalloc \<Rightarrow> Inr (b\<lparr>bt_fibers := (if be_malloc e then Some (replicate (unat (bt_num b)) None) else None), bt_main := MConvert\<rparr>)
   | MConvert \<Rightarrow> kbind (convert_begin (be_env e) uc (bt_lib b) (bt_state b)) (\<lambda>((p, l), s).
       Inr (b\<lparr>bt_state := s, bt_lib := l, bt_main := MEnter p\<rparr>))
   | MEnter p \<Rightarrow> kbind (convert_end (be_env e) uc p (bt_state b)) (\<lambda>(h, s).
       store_fiber 0 h (b\<lparr>bt_state := s, bt_main := MCreate 1\<rparr>))
   | MCreate i \<Rightarrow> if i < unat (bt_num b)
       then kbind (CreateFiber (be_env e) uc FC_STACK_SIZE (be_entry e) (of_nat (i + 1)) (bt_lib b) (bt_state b)) (\<lambda>((h, l), s).
         store_fiber i h (b\<lparr>bt_state := s, bt_lib := l, bt_main := MCreate (i + 1)\<rparr>))
       else Inr (b\<lparr>bt_main := MSignal\<rparr>)
   | MSignal \<Rightarrow> Inr (b\<lparr>bt_handler := True, bt_main := MComplete\<rparr>)
   | MComplete \<Rightarrow> Inr (b\<lparr>bt_complete := True, bt_main := MLoop\<rparr>)
   | MLoop \<Rightarrow> Inr b
   | MStopped \<Rightarrow> Inr b)"

text \<open>\<^verbatim>\<open>SwitchToFiber(fibers[get_random_fiber()])\<close> on thread \<open>t\<close>. A helper whose fiber changes is gone from
  \<^verbatim>\<open>thread_initialization\<close>.\<close>

definition leaves :: "helper_pc \<Rightarrow> helper_pc" where
  "leaves h = (case h of HSpin i \<Rightarrow> HGone i | HLoop i \<Rightarrow> HGone i | _ \<Rightarrow> h)"

definition random_switch :: "boot_env \<Rightarrow> pid_t \<Rightarrow> ucall \<Rightarrow> nat \<Rightarrow> boot \<Rightarrow> fault + boot" where
  "random_switch e t uc r b =
     kbind (get_random_fiber r (bt_num b)) (\<lambda>f.
     kbind (load_fiber (unat f) b) (\<lambda>h.
     kbind (SwitchToFiber (be_env e) uc h (bt_lib b) (bt_state b)) (\<lambda>(l, s).
       Inr (b\<lparr>bt_state := s, bt_lib := l, bt_helper :=
         (if caller_fiber (be_env e) (kcall uc) s \<noteq> caller_fiber (be_env e) (kcall uc) (bt_state b)
          then (bt_helper b)(t := leaves (bt_helper b t)) else bt_helper b)\<rparr>))))"

definition boot_helper :: "boot_env \<Rightarrow> pid_t \<Rightarrow> ucall \<Rightarrow> nat \<Rightarrow> boot \<Rightarrow> fault + boot" where
  "boot_helper e t uc r b = (case bt_helper b t of
     HNone \<Rightarrow> Inr b
   | HConvert \<Rightarrow> kbind (convert_begin (be_env e) uc (bt_lib b) (bt_state b)) (\<lambda>((p, l), s).
       Inr (b\<lparr>bt_state := s, bt_lib := l, bt_helper := (bt_helper b)(t := HEnter p)\<rparr>))
   | HEnter p \<Rightarrow> kbind (convert_end (be_env e) uc p (bt_state b)) (\<lambda>(h, s).
       Inr (b\<lparr>bt_state := s, bt_helper := (bt_helper b)(t := HSpin h)\<rparr>))
   | HSpin h \<Rightarrow> Inr (if bt_complete b then b\<lparr>bt_helper := (bt_helper b)(t := HLoop h)\<rparr> else b)
   | HLoop h \<Rightarrow> random_switch e t uc r b
   | HGone h \<Rightarrow> Inr b)"

text \<open>\<open>Alarm\<close>: \<^verbatim>\<open>schedule\<close> runs on the thread, as the handler or from the end of
  \<^verbatim>\<open>main_loop\<close>; before the handler is installed nothing calls it.\<close>

datatype boot_event = MainStep ucall | HelperStep pid_t ucall nat | Alarm pid_t ucall nat

fun startup_step :: "boot_env \<Rightarrow> boot_event \<Rightarrow> boot \<Rightarrow> fault + boot" where
  "startup_step e (MainStep uc) b = main_step e uc b"
| "startup_step e (HelperStep t uc r) b = boot_helper e t uc r b"
| "startup_step e (Alarm t uc r) b = (if bt_handler b then random_switch e t uc r b else Inr b)"

fun startup_run :: "boot_env \<Rightarrow> boot_event list \<Rightarrow> boot \<Rightarrow> fault + boot" where
  "startup_run e [] b = Inr b"
| "startup_run e (v # vs) b = kbind (startup_step e v b) (startup_run e vs)"

lemma startup_run_append: "startup_run e (xs @ ys) b = kbind (startup_run e xs b) (startup_run e ys)"
proof (induction xs arbitrary: b)
  case (Cons x xs)
  then show ?case by (cases "startup_step e x b") simp_all
qed simp

section \<open>What holds on the way\<close>

definition initial_fiber :: "helper_pc \<Rightarrow> u64 option" where
  "initial_fiber h = (case h of HSpin i \<Rightarrow> Some i | HLoop i \<Rightarrow> Some i | HGone i \<Rightarrow> Some i | _ \<Rightarrow> None)"

lemma initial_fiber_simps [simp]:
  "initial_fiber HNone = None" "initial_fiber HConvert = None" "initial_fiber (HEnter p) = None" "initial_fiber (HSpin i) = Some i"
  "initial_fiber (HLoop i) = Some i" "initial_fiber (HGone i) = Some i" "initial_fiber (leaves h) = initial_fiber h"
  by (simp_all add: initial_fiber_def leaves_def split: helper_pc.split)

definition converted :: "boot \<Rightarrow> pid_t set" where
  "converted b = {t. initial_fiber (bt_helper b t) \<noteq> None}"

text \<open>How many entries of the array are written.\<close>

definition entries_written :: "boot \<Rightarrow> nat" where
  "entries_written b = (case bt_main b of MCreate i \<Rightarrow> i | MSignal \<Rightarrow> unat (bt_num b) | MComplete \<Rightarrow> unat (bt_num b)
     | MLoop \<Rightarrow> unat (bt_num b) | _ \<Rightarrow> 0)"

text \<open>\<open>q\<close> are the fibers of the process, \<open>n\<close> of them were ever made.\<close>

definition kernel_view :: "boot_env \<Rightarrow> boot \<Rightarrow> fproc \<Rightarrow> nat \<Rightarrow> bool" where
  "kernel_view e b q n \<longleftrightarrow> kinv (be_env e) (bt_state b) \<and>
     (kabs (be_env e) (bt_state b) (be_tg e) = Some q \<or> kabs (be_env e) (bt_state b) (be_tg e) = None \<and> q = no_fibers) \<and>
     next_index q = of_nat n \<and> dom (cur q) = converted b \<union> (if entries_written b = 0 then {} else {be_tg e}) \<and>
     n = card (converted b) + entries_written b \<and> (\<forall>t i. initial_fiber (bt_helper b t) = Some i \<longrightarrow> unat i < n)"

definition entry_ok :: "boot \<Rightarrow> fproc \<Rightarrow> nat \<Rightarrow> nat \<Rightarrow> u64 option \<Rightarrow> bool" where
  "entry_ok b q n i x \<longleftrightarrow> (case x of None \<Rightarrow> entries_written b \<le> i
     | Some h \<Rightarrow> i < entries_written b \<and> unat h < n \<and> h \<in> live q \<and> (\<forall>t. initial_fiber (bt_helper b t) \<noteq> Some h))"

fun early :: "main_pc \<Rightarrow> bool" where
  "early MCheck \<longleftrightarrow> True"
| "early (MThreads _) \<longleftrightarrow> True"
| "early MMalloc \<longleftrightarrow> True"
| "early MStopped \<longleftrightarrow> True"
| "early _ \<longleftrightarrow> False"

definition array_ok :: "boot \<Rightarrow> fproc \<Rightarrow> nat \<Rightarrow> bool" where
  "array_ok b q n \<longleftrightarrow> (case bt_fibers b of
      None \<Rightarrow> early (bt_main b)
    | Some xs \<Rightarrow> \<not> early (bt_main b) \<and> length xs = unat (bt_num b) \<and> entries_written b \<le> length xs \<and> (\<forall>i<length xs. entry_ok b q n i (xs ! i)))"

definition control_ok :: "boot_env \<Rightarrow> boot \<Rightarrow> bool" where
  "control_ok e b \<longleftrightarrow> bt_main b \<noteq> MCreate 0 \<and> (opened (bt_lib b) \<longrightarrow> fd (bt_lib b) \<noteq> - 1) \<and> (entries_written b \<noteq> 0 \<or> (\<exists>p. bt_main b = MEnter p) \<longrightarrow> device_open (bt_lib b)) \<and>
     (if bt_main b = MCheck \<or> bt_main b = MStopped then (\<forall>t. bt_helper b t = HNone)
      else \<exists>cpus. check_arguments (be_onln e) (be_strtoll e) (be_argv e) = Checked cpus (bt_num b) \<and>
        (\<forall>c. bt_main b = MThreads c \<longrightarrow> c = cpus \<and> (\<forall>t. bt_helper b t = HNone)) \<and>
        (\<forall>t. bt_helper b t \<noteq> HNone \<longrightarrow> t \<in> helpers_of e cpus)) \<and>
     (bt_handler b \<longrightarrow> bt_main b \<in> {MComplete, MLoop}) \<and> (bt_complete b \<longrightarrow> bt_main b = MLoop) \<and>
     (\<forall>t i. bt_helper b t = HLoop i \<longrightarrow> bt_complete b)"

definition boot_inv :: "boot_env \<Rightarrow> boot \<Rightarrow> bool" where
  "boot_inv e b \<longleftrightarrow> (\<exists>q n. kernel_view e b q n \<and> array_ok b q n \<and> control_ok e b)"

text \<open>What a thread in the middle of its conversion holds. It is overtaken when it found no process and
  another thread has entered one since.\<close>

definition pending :: "boot_env \<Rightarrow> boot \<Rightarrow> pid_t \<Rightarrow> found option" where
  "pending e b t = (if t = be_tg e then (case bt_main b of MEnter p \<Rightarrow> Some p | _ \<Rightarrow> None)
     else (case bt_helper b t of HEnter p \<Rightarrow> Some p | _ \<Rightarrow> None))"

definition overtaken :: "boot_env \<Rightarrow> boot \<Rightarrow> bool" where
  "overtaken e b \<longleftrightarrow> (\<exists>t fiber. pending e b t = Some (Some (fiber, None)) \<and>
     search_process (be_env e) (be_tg e) (bt_state b) \<noteq> Inr None)"

definition pending_ok :: "boot_env \<Rightarrow> boot \<Rightarrow> bool" where
  "pending_ok e b \<longleftrightarrow> (\<forall>t p. pending e b t = Some p \<longrightarrow> (\<exists>fa pr. p = Some (Some fa, pr) \<and> loose (bt_state b) fa \<and>
       (\<forall>pa. pr = Some pa \<longrightarrow> search_process (be_env e) (be_tg e) (bt_state b) = Inr (Some pa)))) \<and>
     (\<forall>t u fa pr pr'. pending e b t = Some (Some (Some fa, pr)) \<longrightarrow> pending e b u = Some (Some (Some fa, pr')) \<longrightarrow> t = u)"

text \<open>A thread that is not overtaken finds what it found.\<close>

lemma pending_found:
  assumes "pending_ok e b" "\<not> overtaken e b" "pending e b t = Some p"
  obtains fa pr where "p = Some (Some fa, pr)" "loose (bt_state b) fa"
    "search_process (be_env e) (be_tg e) (bt_state b) = Inr pr"
proof -
  obtain fa pr where p: "p = Some (Some fa, pr)" "loose (bt_state b) fa"
    "\<And>pa. pr = Some pa \<Longrightarrow> search_process (be_env e) (be_tg e) (bt_state b) = Inr (Some pa)"
    using assms(1,3) unfolding pending_ok_def by blast
  then have "search_process (be_env e) (be_tg e) (bt_state b) = Inr pr"
    using assms(2,3) by (cases pr) (auto simp: overtaken_def)
  with p show thesis by (rule_tac that)
qed

text \<open>What is asked of the machine: a table of threads apart from the main one, memory for the array, and
  indexes the module can find again for every fiber that will be made.\<close>

definition boot_env_ok :: "boot_env \<Rightarrow> bool" where
  "boot_env_ok e \<longleftrightarrow> be_malloc e \<and> index_ok (be_env e) 0 \<and>
     (\<forall>cpus n. check_arguments (be_onln e) (be_strtoll e) (be_argv e) = Checked cpus n \<longrightarrow> be_tg e \<notin> helpers_of e cpus \<and>
        (\<forall>i < unat (helper_threads cpus) + unat n. index_ok (be_env e) (of_nat i)))"

definition boot_event_ok :: "boot_env \<Rightarrow> boot_event \<Rightarrow> bool" where
  "boot_event_ok e v \<longleftrightarrow> (case v of
      MainStep uc \<Rightarrow> good_call (be_tg e) (be_tg e) uc \<and> open_result uc \<noteq> - 1
    | HelperStep t uc r \<Rightarrow> good_call (be_tg e) t uc \<and> open_result uc \<noteq> - 1
    | Alarm t uc r \<Rightarrow> good_call (be_tg e) t uc \<and> open_result uc \<noteq> - 1)"

lemma control_started:
  assumes "control_ok e b" "bt_main b \<noteq> MCheck" "bt_main b \<noteq> MStopped"
  shows "\<exists>cpus. check_arguments (be_onln e) (be_strtoll e) (be_argv e) = Checked cpus (bt_num b) \<and>
    (\<forall>t. bt_helper b t \<noteq> HNone \<longrightarrow> t \<in> helpers_of e cpus)"
  using assms unfolding control_ok_def by (simp only: if_False simp_thms) blast

lemma control_loop: "control_ok e b \<Longrightarrow> bt_helper b t = HLoop i \<Longrightarrow> bt_complete b"
  unfolding control_ok_def by blast

lemma control_ready: "control_ok e b \<Longrightarrow> bt_handler b \<or> bt_complete b \<Longrightarrow> bt_main b = MComplete \<or> bt_main b = MLoop"
  unfolding control_ok_def by blast

lemma checked_pos: "check_arguments onln strtoll argv = Checked c n \<Longrightarrow> 0 < unat n"
proof -
  assume "check_arguments onln strtoll argv = Checked c n"
  then have "c < n" by (auto simp: check_arguments_def Let_def split: if_splits prod.splits)
  then show ?thesis by (simp add: word_less_nat_alt)
qed

section \<open>Making fibers\<close>

lemma finite_helpers [simp]: "finite (helpers_of e cpus)"
  by (simp add: helpers_of_def)

lemma card_helpers: "card (helpers_of e cpus) \<le> unat (helper_threads cpus)"
  unfolding helpers_of_def using card_length [of "map (be_tids e) [0..<unat (helper_threads cpus)]"] by simp

lemma converted_helpers:
  assumes "\<And>t. bt_helper b t \<noteq> HNone \<Longrightarrow> t \<in> helpers_of e cpus"
  shows "converted b \<subseteq> helpers_of e cpus" "finite (converted b)" "card (converted b) \<le> unat (helper_threads cpus)"
proof -
  show s: "converted b \<subseteq> helpers_of e cpus" using assms by (force simp: converted_def)
  then show "finite (converted b)" by (rule finite_subset) simp
  show "card (converted b) \<le> unat (helper_threads cpus)"
    using card_mono [OF finite_helpers s] card_helpers [of e cpus] by simp
qed

lemma unat_small: "k < unat (helper_threads cpus) + unat (n :: u32) \<Longrightarrow> unat (of_nat k :: u64) = k"
proof -
  have "unat (helper_threads cpus) < 2 ^ 16" "unat n < 2 ^ 32"
    using unsigned_less [of "helper_threads cpus", where 'a = nat] unsigned_less [of n, where 'a = nat] by simp_all
  moreover assume "k < unat (helper_threads cpus) + unat n"
  ultimately have "k < 2 ^ 64" by simp
  then show ?thesis by (simp add: unat_of_nat take_bit_nat_eq_self_iff)
qed

text \<open>A new fiber, taken note of in the array or by a helper.\<close>

lemma new_entry:
  assumes a: "array_ok b q n" and xs: "bt_fibers b = Some xs" and i: "entries_written b = i" "i < length xs"
    and fresh: "unat (of_nat n :: u64) = n" and k: "\<And>t h. initial_fiber (bt_helper b t) = Some h \<Longrightarrow> unat h < n"
    and b': "bt_fibers b' = Some (xs[i := Some (of_nat n)])" "entries_written b' = Suc i" "bt_num b' = bt_num b" "bt_helper b' = bt_helper b"
    and q': "live q' = insert (of_nat n) (live q)"
  shows "array_ok b' q' (Suc n)"
proof -
  have "entry_ok b' q' (Suc n) j (xs[i := Some (of_nat n)] ! j)" if j: "j < length xs" for j
  proof (cases "j = i")
    case True
    have "initial_fiber (bt_helper b t) \<noteq> Some (of_nat n)" for t using k [of t "of_nat n"] fresh by auto
    then show ?thesis using True i b' q' fresh by (simp add: entry_ok_def)
  next
    case False
    have "entry_ok b q n j (xs ! j)" using a j xs by (simp add: array_ok_def)
    then show ?thesis using False i b' q' by (auto simp: entry_ok_def split: option.splits)
  qed
  moreover have "\<not> early (bt_main b')" using b'(2) by (cases "bt_main b'") (simp_all add: entries_written_def)
  ultimately show ?thesis using a b' xs i by (simp add: array_ok_def)
qed

lemma new_helper:
  assumes a: "array_ok b q n" and fresh: "unat (of_nat n :: u64) = n"
    and b': "bt_fibers b' = bt_fibers b" "bt_main b' = bt_main b" "bt_num b' = bt_num b"
      "bt_helper b' = (bt_helper b)(t := HSpin (of_nat n))"
    and q': "live q' = insert (of_nat n) (live q)"
  shows "array_ok b' q' (Suc n)"
proof -
  have w: "entries_written b' = entries_written b" by (simp add: entries_written_def b' split: main_pc.split)
  have "entry_ok b' q' (Suc n) j x" if "entry_ok b q n j x" for j x
    using that fresh by (auto simp: entry_ok_def w b'(4) q' split: option.splits)
  then show ?thesis using a by (auto simp: array_ok_def b' w split: option.splits)
qed

section \<open>The steps of \<^verbatim>\<open>main\<close>\<close>

text \<open>Statements that neither call the library nor change what is written.\<close>

lemma view_cong:
  assumes "bt_state b' = bt_state b" "entries_written b' = entries_written b" "\<And>t. initial_fiber (bt_helper b' t) = initial_fiber (bt_helper b t)"
  shows "kernel_view e b' q n = kernel_view e b q n" "entry_ok b' q n i x = entry_ok b q n i x"
proof -
  have "converted b' = converted b" by (simp add: converted_def assms(3))
  then show "kernel_view e b' q n = kernel_view e b q n" by (simp add: kernel_view_def assms)
  show "entry_ok b' q n i x = entry_ok b q n i x" by (simp add: entry_ok_def assms split: option.split)
qed

lemma boot_invI: "kernel_view e b q n \<Longrightarrow> array_ok b q n \<Longrightarrow> control_ok e b \<Longrightarrow> boot_inv e b"
  by (auto simp: boot_inv_def)

lemma quiet_inv:
  assumes v: "kernel_view e b q n" "array_ok b q n" and c: "control_ok e b'"
    and b': "bt_state b' = bt_state b" "entries_written b' = entries_written b" "\<And>t. initial_fiber (bt_helper b' t) = initial_fiber (bt_helper b t)"
      "bt_fibers b' = bt_fibers b" "early (bt_main b') = early (bt_main b)" "bt_num b' = bt_num b \<or> bt_fibers b = None"
  shows "boot_inv e b'"
proof -
  have "array_ok b' q n"
    using v(2) b' view_cong(2) [OF b'(1-3)] by (auto simp: array_ok_def split: option.splits)
  then show ?thesis using view_cong(1) [OF b'(1-3)] v(1) c by (auto simp: boot_inv_def)
qed

lemma main_quiet:
  assumes v: "kernel_view e b q n" "array_ok b q n" "control_ok e b"
    and m: "bt_main b = MCheck \<or> (\<exists>c. bt_main b = MThreads c) \<or> bt_main b = MSignal \<or> bt_main b = MComplete \<or> bt_main b = MLoop \<or>
      bt_main b = MStopped \<or> (\<exists>i. bt_main b = MCreate i \<and> \<not> i < unat (bt_num b))"
  shows "\<exists>b'. main_step e uc b = Inr b' \<and> boot_inv e b'"
proof -
  have arr: "early (bt_main b) \<Longrightarrow> bt_fibers b = None" using v(2) by (auto simp: array_ok_def split: option.splits)
  from m consider (check) "bt_main b = MCheck" | (threads) c where "bt_main b = MThreads c" | (signal) "bt_main b = MSignal"
    | (complete) "bt_main b = MComplete" | (same) "bt_main b = MLoop \<or> bt_main b = MStopped"
    | (filled) i where "bt_main b = MCreate i" "\<not> i < unat (bt_num b)" by blast
  then show ?thesis
  proof cases
    case check
    show ?thesis
    proof (cases "\<exists>cpus m. check_arguments (be_onln e) (be_strtoll e) (be_argv e) = Checked cpus m")
      case True
      then obtain cpus m where c: "check_arguments (be_onln e) (be_strtoll e) (be_argv e) = Checked cpus m" by blast
      have "boot_inv e (b\<lparr>bt_num := m, bt_main := MThreads cpus\<rparr>)"
        by (rule quiet_inv [OF v(1,2)]) (use v(3) check c arr in \<open>auto simp: control_ok_def entries_written_def\<close>)
      then show ?thesis using check c by (simp add: main_step_def)
    next
      case False
      have "boot_inv e (b\<lparr>bt_main := MStopped\<rparr>)"
        by (rule quiet_inv [OF v(1,2)]) (use v(3) check in \<open>auto simp: control_ok_def entries_written_def\<close>)
      then show ?thesis using check False
        by (cases "check_arguments (be_onln e) (be_strtoll e) (be_argv e)") (simp_all add: main_step_def)
    qed
  next
    case (threads c)
    let ?b = "b\<lparr>bt_helper := (\<lambda>t. if t \<in> helpers_of e c then HConvert else bt_helper b t), bt_main := MMalloc\<rparr>"
    have "boot_inv e ?b"
      by (rule quiet_inv [OF v(1,2)]) (use v(3) threads in \<open>auto simp: control_ok_def entries_written_def\<close>)
    then show ?thesis using threads by (simp add: main_step_def)
  next
    case signal
    have "boot_inv e (b\<lparr>bt_handler := True, bt_main := MComplete\<rparr>)"
      by (rule quiet_inv [OF v(1,2)]) (use v(3) signal in \<open>auto simp: control_ok_def entries_written_def\<close>)
    then show ?thesis using signal by (simp add: main_step_def)
  next
    case complete
    have "boot_inv e (b\<lparr>bt_complete := True, bt_main := MLoop\<rparr>)"
      by (rule quiet_inv [OF v(1,2)]) (use v(3) complete in \<open>auto simp: control_ok_def entries_written_def\<close>)
    then show ?thesis using complete by (simp add: main_step_def)
  next
    case same
    then have "main_step e uc b = Inr b" by (auto simp: main_step_def)
    then show ?thesis using boot_invI [OF v] by blast
  next
    case (filled i)
    have "i = unat (bt_num b)" using filled v(2) by (auto simp: array_ok_def entries_written_def split: option.splits)
    then have "boot_inv e (b\<lparr>bt_main := MSignal\<rparr>)"
      by (intro quiet_inv [OF v(1,2)]) (use v(3) filled in \<open>auto simp: control_ok_def entries_written_def\<close>)
    then show ?thesis using filled by (simp add: main_step_def)
  qed
qed

lemma main_malloc:
  assumes v: "kernel_view e b q n" "array_ok b q n" "control_ok e b" and m: "bt_main b = MMalloc" and e: "boot_env_ok e"
  shows "\<exists>b'. main_step e uc b = Inr b' \<and> boot_inv e b'"
proof -
  let ?b = "b\<lparr>bt_fibers := Some (replicate (unat (bt_num b)) None), bt_main := MConvert\<rparr>"
  have w: "entries_written ?b = entries_written b" "entries_written b = 0" using m by (simp_all add: entries_written_def)
  have "kernel_view e ?b q n" using view_cong(1) [of ?b b] w v(1) by simp
  moreover have "array_ok ?b q n" using w by (simp add: array_ok_def entry_ok_def)
  moreover have "control_ok e ?b" using v(3) m w by (auto simp: control_ok_def)
  ultimately show ?thesis using m e by (auto simp: main_step_def boot_env_ok_def boot_inv_def)
qed

text \<open>The next index is one the module can find again.\<close>

lemma next_ok:
  assumes e: "boot_env_ok e" and v: "kernel_view e b q n" and a: "array_ok b q n" and c: "control_ok e b"
    and m: "bt_main b \<noteq> MCheck" "bt_main b \<noteq> MStopped"
    and room: "entries_written b < unat (bt_num b) \<or> (\<exists>t p. bt_helper b t = HEnter p)"
  shows "unat (of_nat n :: u64) = n" "index_ok (be_env e) (of_nat n)" "be_tg e \<notin> converted b"
    "finite (converted b)"
proof -
  obtain cpus where k: "check_arguments (be_onln e) (be_strtoll e) (be_argv e) = Checked cpus (bt_num b)"
    and h: "\<And>t. bt_helper b t \<noteq> HNone \<Longrightarrow> t \<in> helpers_of e cpus"
    using control_started [OF c m] by blast
  note C = converted_helpers [of b e cpus, OF h]
  have w: "entries_written b \<le> unat (bt_num b)" using a by (auto simp: array_ok_def entries_written_def split: option.splits main_pc.splits)
  have "n < unat (helper_threads cpus) + unat (bt_num b)"
  proof (cases "entries_written b < unat (bt_num b)")
    case True
    then show ?thesis using v C(3) by (simp add: kernel_view_def)
  next
    case False
    then obtain u p where u: "bt_helper b u = HEnter p" using room by blast
    have "u \<in> helpers_of e cpus" using h [of u] u by simp
    moreover have "u \<notin> converted b" using u by (simp add: converted_def)
    ultimately have "converted b \<subset> helpers_of e cpus" using C(1) by blast
    from psubset_card_mono [OF finite_helpers this] card_helpers [of e cpus]
    have "card (converted b) < unat (helper_threads cpus)" by simp
    then show ?thesis using v w by (simp add: kernel_view_def)
  qed
  then show "unat (of_nat n :: u64) = n" "index_ok (be_env e) (of_nat n)"
    using unat_small e k by (auto simp: boot_env_ok_def)
  have "be_tg e \<notin> helpers_of e cpus" using e k by (simp add: boot_env_ok_def)
  then show "be_tg e \<notin> converted b" using C(1) by auto
  show "finite (converted b)" by (rule C(2))
qed

lemma usable_call: "control_ok e b \<Longrightarrow> open_result uc \<noteq> - 1 \<Longrightarrow> usable uc (bt_lib b)"
  by (simp add: control_ok_def usable_def)

lemma view_absent: "kernel_view e b q n \<Longrightarrow> t \<notin> converted b \<Longrightarrow> entries_written b = 0 \<or> t \<noteq> be_tg e \<Longrightarrow>
   kabs (be_env e) (bt_state b) (be_tg e) = None \<and> q = no_fibers \<or>
   kabs (be_env e) (bt_state b) (be_tg e) = Some q \<and> cur q t = None"
  by (auto simp: kernel_view_def dom_def set_eq_iff split: if_splits)

lemma begin_ok:
  assumes k: "kinv env s" and g: "good_call tg pid uc" and l: "usable uc l"
  shows "\<exists>pr. convert_begin env uc l s = Inr ((Some (Some (brk s), pr), ensure_open uc l), convert_entry env (kcall uc) s) \<and>
    search_process env tg s = Inr pr" "device_open (ensure_open uc l)" "kinv env (convert_entry env (kcall uc) s)"
    "kabs env (convert_entry env (kcall uc) s) = kabs env s"
  using find_ok [OF k, of "kcall uc"] g l convert_entry_kinv [OF k] abs_convert_entry [OF k]
  by (auto simp: convert_begin_def good_call_def Let_def)

lemma end_ok:
  assumes k: "kinv env s" and g: "good_call tg pid uc" and pr: "search_process env tg s = Inr pr" and fa: "loose s fa"
    and q: "kabs env s tg = None \<and> q = no_fibers \<or> kabs env s tg = Some q \<and> cur q pid = None"
    and ix: "index_ok env (next_index q)"
  shows "\<exists>s'. convert_end env uc (Some (Some fa, pr)) s = Inr (next_index q, s') \<and> kinv env s' \<and> keeps env {fa} s s' \<and>
    kabs env s' = (kabs env s)(tg \<mapsto> q\<lparr>next_index := next_index q + 1, live := insert (next_index q) (live q),
      cur := (cur q)(pid \<mapsto> next_index q)\<rparr>)"
proof -
  have "scast (libc_result (next_index q)) = next_index q" using ix by (simp add: libc_result_small(2) index_ok_def)
  then show ?thesis
    using enter_ok [OF k, of "kcall uc" pr fa q] g pr fa q ix by (auto simp: convert_end_def good_call_def)
qed

text \<open>The first half of a conversion changes nothing that is looked at.\<close>

lemma begin_inv:
  assumes v: "kernel_view e b q n" "array_ok b q n" and c: "control_ok e b'"
    and s: "kinv (be_env e) (bt_state b')" "kabs (be_env e) (bt_state b') = kabs (be_env e) (bt_state b)"
    and b': "entries_written b' = entries_written b" "\<And>t. initial_fiber (bt_helper b' t) = initial_fiber (bt_helper b t)"
      "bt_fibers b' = bt_fibers b" "early (bt_main b') = early (bt_main b)" "bt_num b' = bt_num b"
  shows "boot_inv e b'"
proof -
  have "converted b' = converted b" by (simp add: converted_def b')
  then have "kernel_view e b' q n" using v(1) s by (auto simp: kernel_view_def b')
  moreover have "entry_ok b' q n i x = entry_ok b q n i x" for i x by (simp add: entry_ok_def b' split: option.split)
  then have "array_ok b' q n" using v(2) by (simp add: array_ok_def b' split: option.splits)
  ultimately show ?thesis using c by (rule boot_invI)
qed

lemma main_begin:
  assumes v: "kernel_view e b q n" "array_ok b q n" "control_ok e b" and m: "bt_main b = MConvert"
    and g: "good_call (be_tg e) (be_tg e) uc" "open_result uc \<noteq> - 1"
  shows "\<exists>b'. main_step e uc b = Inr b' \<and> boot_inv e b'"
proof -
  have k: "kinv (be_env e) (bt_state b)" using v(1) by (simp add: kernel_view_def)
  note B = begin_ok [OF k g(1) usable_call [OF v(3) g(2)]]
  obtain pr where pr: "convert_begin (be_env e) uc (bt_lib b) (bt_state b) =
    Inr ((Some (Some (brk (bt_state b)), pr), ensure_open uc (bt_lib b)), convert_entry (be_env e) (kcall uc) (bt_state b))"
    using B(1) by blast
  let ?b = "b\<lparr>bt_state := convert_entry (be_env e) (kcall uc) (bt_state b), bt_lib := ensure_open uc (bt_lib b),
    bt_main := MEnter (Some (Some (brk (bt_state b)), pr))\<rparr>"
  have "boot_inv e ?b"
    by (rule begin_inv [OF v(1,2)]) (use m B(2-4) v(3) in \<open>auto simp: entries_written_def control_ok_def device_open_def\<close>)
  then show ?thesis using pr m by (simp add: main_step_def)
qed

lemma main_enter:
  assumes e: "boot_env_ok e" and v: "kernel_view e b q n" "array_ok b q n" "control_ok e b" and m: "bt_main b = MEnter p"
    and w: "pending_ok e b" "\<not> overtaken e b" and g: "good_call (be_tg e) (be_tg e) uc"
  shows "\<exists>b'. main_step e uc b = Inr b' \<and> boot_inv e b'"
proof -
  have w0: "entries_written b = 0" using m by (simp add: entries_written_def)
  obtain xs where xs: "bt_fibers b = Some xs" "length xs = unat (bt_num b)" using v(2) m by (auto simp: array_ok_def split: option.splits)
  have pos: "0 < length xs" using v(3) m xs(2) checked_pos by (auto simp: control_ok_def)
  have n: "unat (of_nat n :: u64) = n" "index_ok (be_env e) (of_nat n)" "be_tg e \<notin> converted b" "finite (converted b)"
    using next_ok [OF e v] m w0 pos xs(2) by auto
  have k: "kinv (be_env e) (bt_state b)" and nx: "next_index q = of_nat n" using v(1) by (simp_all add: kernel_view_def)
  have "pending e b (be_tg e) = Some p" using m by (simp add: pending_def)
  then obtain fa pr where p: "p = Some (Some fa, pr)" "loose (bt_state b) fa"
    "search_process (be_env e) (be_tg e) (bt_state b) = Inr pr"
    by (rule pending_found [OF w])
  obtain s where s: "convert_end (be_env e) uc p (bt_state b) = Inr (of_nat n, s)" "kinv (be_env e) s"
    "kabs (be_env e) s = (kabs (be_env e) (bt_state b))(be_tg e \<mapsto> q\<lparr>next_index := of_nat n + 1, live := insert (of_nat n) (live q),
      cur := (cur q)(be_tg e \<mapsto> of_nat n)\<rparr>)"
    using end_ok [OF k g p(3,2) view_absent [OF v(1) n(3)]] w0 n(2) nx p(1) by auto
  let ?b = "b\<lparr>bt_state := s, bt_main := MCreate 1, bt_fibers := Some (xs[0 := Some (of_nat n)])\<rparr>"
  let ?q = "q\<lparr>next_index := of_nat n + 1, live := insert (of_nat n) (live q), cur := (cur q)(be_tg e \<mapsto> of_nat n)\<rparr>"
  have w': "entries_written ?b = Suc 0" and cv: "converted ?b = converted b" by (simp_all add: entries_written_def converted_def)
  have "kernel_view e ?b ?q (Suc n)"
    using v(1) s(2,3) w0 w' cv by (auto simp: kernel_view_def less_SucI)
  moreover have "array_ok ?b ?q (Suc n)"
    by (rule new_entry [OF v(2) xs(1) w0 pos n(1)]) (use v(1) w' in \<open>auto simp: kernel_view_def\<close>)
  moreover have "control_ok e ?b" using v(3) m by (auto simp: control_ok_def device_open_def entries_written_def)
  moreover have "main_step e uc b = Inr ?b"
    using s(1) m xs(1) pos by (simp add: main_step_def store_fiber_def)
  ultimately show ?thesis using boot_invI by blast
qed

lemma main_create:
  assumes e: "boot_env_ok e" and v: "kernel_view e b q n" "array_ok b q n" "control_ok e b"
    and m: "bt_main b = MCreate i" "i < unat (bt_num b)"
    and g: "good_call (be_tg e) (be_tg e) uc" "open_result uc \<noteq> - 1"
  shows "\<exists>b'. main_step e uc b = Inr b' \<and> boot_inv e b'"
proof -
  have w: "entries_written b = i" and i: "i \<noteq> 0" using m v(3) by (auto simp: entries_written_def control_ok_def)
  obtain xs where xs: "bt_fibers b = Some xs" "length xs = unat (bt_num b)" using v(2) m by (auto simp: array_ok_def split: option.splits)
  have n: "unat (of_nat n :: u64) = n" "index_ok (be_env e) (of_nat n)" "finite (converted b)"
    using next_ok [OF e v] m w by auto
  have k: "kinv (be_env e) (bt_state b)" and nx: "next_index q = of_nat n" using v(1) by (simp_all add: kernel_view_def)
  have q: "kabs (be_env e) (bt_state b) (be_tg e) = Some q" "cur q (be_tg e) \<noteq> None"
    using v(1) w i by (auto simp: kernel_view_def no_fibers_def)
  have d: "device_open (bt_lib b)" using v(3) w i by (simp add: control_ok_def)
  obtain l s where s: "CreateFiber (be_env e) uc FC_STACK_SIZE (be_entry e) (of_nat (i + 1)) (bt_lib b) (bt_state b) = Inr ((of_nat n, l), s)"
    "device_open l" "kinv (be_env e) s"
    "kabs (be_env e) s = (kabs (be_env e) (bt_state b))(be_tg e \<mapsto> q\<lparr>next_index := of_nat n + 1, live := insert (of_nat n) (live q)\<rparr>)"
    using CreateFiber_ok [OF k g(1) d q] n(2) e nx by (fastforce simp: boot_env_ok_def)
  let ?b = "b\<lparr>bt_state := s, bt_lib := l, bt_main := MCreate (i + 1), bt_fibers := Some (xs[i := Some (of_nat n)])\<rparr>"
  let ?q = "q\<lparr>next_index := of_nat n + 1, live := insert (of_nat n) (live q)\<rparr>"
  have w': "entries_written ?b = Suc i" and cv: "converted ?b = converted b" by (simp_all add: entries_written_def converted_def)
  have "kernel_view e ?b ?q (Suc n)"
    using v(1) s(3,4) w w' cv i by (auto simp: kernel_view_def less_SucI)
  moreover have "array_ok ?b ?q (Suc n)"
    by (rule new_entry [OF v(2) xs(1) w _ n(1)]) (use v(1) w' m xs in \<open>auto simp: kernel_view_def\<close>)
  moreover have "control_ok e ?b" using v(3) m s(2) by (auto simp: control_ok_def device_open_def)
  moreover have "main_step e uc b = Inr ?b"
    using s(1) m xs by (simp add: main_step_def store_fiber_def)
  ultimately show ?thesis using boot_invI by blast
qed

section \<open>The steps of the helpers\<close>

lemma helper_started: "control_ok e b \<Longrightarrow> bt_helper b t \<noteq> HNone \<Longrightarrow> bt_main b \<noteq> MCheck \<and> bt_main b \<noteq> MStopped \<and> (\<forall>c. bt_main b \<noteq> MThreads c)"
  unfolding control_ok_def by (cases "bt_main b") auto

lemma helper_not_main:
  assumes e: "boot_env_ok e" and c: "control_ok e b" and t: "bt_helper b t \<noteq> HNone"
  shows "t \<noteq> be_tg e"
proof -
  have "bt_main b \<noteq> MCheck" "bt_main b \<noteq> MStopped" using helper_started [OF c t] by simp_all
  then obtain cpus where "check_arguments (be_onln e) (be_strtoll e) (be_argv e) = Checked cpus (bt_num b)"
    "t \<in> helpers_of e cpus" using control_started [OF c] t by blast
  then show ?thesis using e unfolding boot_env_ok_def by blast
qed

lemma control_helpers:
  assumes c: "control_ok e b" and m: "bt_main b \<noteq> MCheck" "bt_main b \<noteq> MStopped" "\<forall>c. bt_main b \<noteq> MThreads c"
    and b': "bt_main b' = bt_main b" "bt_num b' = bt_num b" "bt_handler b' = bt_handler b" "bt_complete b' = bt_complete b"
    and l: "bt_lib b' = bt_lib b \<or> device_open (bt_lib b')"
    and h: "\<And>t. bt_helper b' t \<noteq> HNone \<Longrightarrow> bt_helper b t \<noteq> HNone" "\<And>t i. bt_helper b' t = HLoop i \<Longrightarrow> bt_complete b"
  shows "control_ok e b'"
proof -
  have w: "entries_written b' = entries_written b" by (simp add: entries_written_def b' split: main_pc.split)
  have "\<exists>cpus. check_arguments (be_onln e) (be_strtoll e) (be_argv e) = Checked cpus (bt_num b) \<and>
      (\<forall>t. bt_helper b' t \<noteq> HNone \<longrightarrow> t \<in> helpers_of e cpus)"
    using control_started [OF c m(1,2)] h(1) by blast
  moreover have "\<forall>t i. bt_helper b' t = HLoop i \<longrightarrow> bt_complete b" using h(2) by blast
  moreover have "(opened (bt_lib b') \<longrightarrow> fd (bt_lib b') \<noteq> - 1) \<and> (entries_written b \<noteq> 0 \<or> (\<exists>p. bt_main b = MEnter p) \<longrightarrow> device_open (bt_lib b'))"
    using l c unfolding control_ok_def device_open_def by metis
  moreover have "bt_main b \<noteq> MCreate 0 \<and> (bt_handler b \<longrightarrow> bt_main b \<in> {MComplete, MLoop}) \<and> (bt_complete b \<longrightarrow> bt_main b = MLoop)"
    using c unfolding control_ok_def by (elim conjE) (intro conjI, assumption+)
  ultimately show ?thesis unfolding control_ok_def b' w using m by (simp only: if_False simp_thms) blast
qed

lemma helper_begin:
  assumes v: "kernel_view e b q n" "array_ok b q n" "control_ok e b" and h: "bt_helper b t = HConvert"
    and g: "good_call (be_tg e) t uc" "open_result uc \<noteq> - 1"
  shows "\<exists>b'. boot_helper e t uc r b = Inr b' \<and> boot_inv e b'"
proof -
  have m: "bt_main b \<noteq> MCheck \<and> bt_main b \<noteq> MStopped \<and> (\<forall>c. bt_main b \<noteq> MThreads c)"
    using helper_started [OF v(3), of t] h by simp
  have k: "kinv (be_env e) (bt_state b)" using v(1) by (simp add: kernel_view_def)
  note B = begin_ok [OF k g(1) usable_call [OF v(3) g(2)]]
  obtain pr where pr: "convert_begin (be_env e) uc (bt_lib b) (bt_state b) =
    Inr ((Some (Some (brk (bt_state b)), pr), ensure_open uc (bt_lib b)), convert_entry (be_env e) (kcall uc) (bt_state b))"
    using B(1) by blast
  let ?b = "b\<lparr>bt_state := convert_entry (be_env e) (kcall uc) (bt_state b), bt_lib := ensure_open uc (bt_lib b),
    bt_helper := (bt_helper b)(t := HEnter (Some (Some (brk (bt_state b)), pr)))\<rparr>"
  have "control_ok e ?b"
    by (rule control_helpers [OF v(3)]) (use m B(2) h control_loop [OF v(3)] in \<open>auto split: if_splits\<close>)
  then have "boot_inv e ?b"
    by (rule begin_inv [OF v(1,2)]) (use h B in \<open>simp_all add: entries_written_def cong: main_pc.case_cong\<close>)
  then show ?thesis using pr h by (simp add: boot_helper_def)
qed

lemma helper_enter:
  assumes e: "boot_env_ok e" and v: "kernel_view e b q n" "array_ok b q n" "control_ok e b" and h: "bt_helper b t = HEnter p"
    and w: "pending_ok e b" "\<not> overtaken e b" and g: "good_call (be_tg e) t uc"
  shows "\<exists>b'. boot_helper e t uc r b = Inr b' \<and> boot_inv e b'"
proof -
  have m: "bt_main b \<noteq> MCheck" "bt_main b \<noteq> MStopped" "\<forall>c. bt_main b \<noteq> MThreads c"
    using helper_started [OF v(3), of t] h by simp_all
  have n: "unat (of_nat n :: u64) = n" "index_ok (be_env e) (of_nat n)" "finite (converted b)"
    using next_ok [OF e v m(1,2)] h by blast+
  have tm: "t \<noteq> be_tg e" by (rule helper_not_main [OF e v(3)]) (simp add: h)
  have k: "kinv (be_env e) (bt_state b)" and nx: "next_index q = of_nat n" using v(1) by (simp_all add: kernel_view_def)
  have t: "t \<notin> converted b" using h by (simp add: converted_def)
  have "pending e b t = Some p" using h tm by (simp add: pending_def)
  then obtain fa pr where p: "p = Some (Some fa, pr)" "loose (bt_state b) fa"
    "search_process (be_env e) (be_tg e) (bt_state b) = Inr pr"
    by (rule pending_found [OF w])
  obtain s where s: "convert_end (be_env e) uc p (bt_state b) = Inr (of_nat n, s)" "kinv (be_env e) s"
    "kabs (be_env e) s = (kabs (be_env e) (bt_state b))(be_tg e \<mapsto> q\<lparr>next_index := of_nat n + 1, live := insert (of_nat n) (live q),
      cur := (cur q)(t \<mapsto> of_nat n)\<rparr>)"
    using end_ok [OF k g p(3,2) view_absent [OF v(1) t]] tm n(2) nx p(1) by auto
  let ?b = "b\<lparr>bt_state := s, bt_helper := (bt_helper b)(t := HSpin (of_nat n))\<rparr>"
  let ?q = "q\<lparr>next_index := of_nat n + 1, live := insert (of_nat n) (live q), cur := (cur q)(t \<mapsto> of_nat n)\<rparr>"
  have w: "entries_written ?b = entries_written b" by (simp add: entries_written_def split: main_pc.split)
  have cv: "converted ?b = insert t (converted b)" by (auto simp: converted_def)
  have "kernel_view e ?b ?q (Suc n)"
    unfolding kernel_view_def w cv
    using v(1) s(2,3) t n(1,3) by (auto simp: kernel_view_def less_SucI)
  moreover have "array_ok ?b ?q (Suc n)"
    by (rule new_helper [OF v(2) n(1)]) simp_all
  moreover have "control_ok e ?b"
    by (rule control_helpers [OF v(3) m]) (use h helper_started [OF v(3), of t] control_loop [OF v(3)] in \<open>auto split: if_splits\<close>)
  moreover have "boot_helper e t uc r b = Inr ?b" using s(1) h by (simp add: boot_helper_def)
  ultimately show ?thesis using boot_invI by blast
qed

text \<open>A switch changes neither which fibers there are nor which threads have one.\<close>

lemma switch_view:
  assumes k: "kinv env s" and l: "device_open l"
  shows "\<exists>s'. SwitchToFiber env uc h l s = Inr (l, s') \<and> kinv env s' \<and>
    (\<forall>tg q. kabs env s tg = Some q \<longrightarrow> (\<exists>C. kabs env s' tg = Some (q\<lparr>cur := C\<rparr>) \<and> dom C = dom (cur q)))"
proof -
  let ?c = "(kcall uc)\<lparr>c_arg := h\<rparr>"
  obtain x s' where x: "ioctl_switch env ?c s = Inr (x, s')" using switch_total [OF k] by blast
  have sp: "(x, kabs env s') = spec_switch ?c (kabs env s)" by (rule switch_refines [OF k x])
  have "\<exists>C. kabs env s' tg = Some (q\<lparr>cur := C\<rparr>) \<and> dom C = dom (cur q)" if "kabs env s tg = Some q" for tg q
  proof (cases "kabs env s' = kabs env s")
    case True
    then show ?thesis using that by (intro exI [of _ "cur q"]) simp
  next
    case False
    then obtain p where p: "kabs env s (c_tgid ?c) = Some p" "cur p (c_pid ?c) \<noteq> None"
      "kabs env s' = (kabs env s)(c_tgid ?c \<mapsto> p\<lparr>cur := (cur p)(c_pid ?c \<mapsto> int_cut h)\<rparr>)"
      using sp by (auto simp: spec_switch_def Let_def split: option.splits if_splits)
    show ?thesis
    proof (cases "tg = c_tgid ?c")
      case True
      then show ?thesis using p that by (intro exI [of _ "(cur p)(c_pid ?c \<mapsto> int_cut h)"]) auto
    next
      case False
      then show ?thesis using p that by (intro exI [of _ "cur q"]) simp
    qed
  qed
  moreover have "SwitchToFiber env uc h l s = Inr (l, s')"
    using x l by (simp add: SwitchToFiber_def sys_ioctl_def no_out_def Let_def)
  ultimately show ?thesis using switch_taken(2) [OF k x] by blast
qed

lemma random_switch_inv:
  assumes v: "kernel_view e b q n" "array_ok b q n" "control_ok e b" and ready: "bt_handler b \<or> bt_complete b"
    and e: "boot_env_ok e"
  shows "\<exists>b'. random_switch e t uc r b = Inr b' \<and> boot_inv e b'"
proof -
  have m: "bt_main b = MComplete \<or> bt_main b = MLoop" by (rule control_ready [OF v(3) ready])
  then have w: "entries_written b = unat (bt_num b)" by (auto simp: entries_written_def)
  obtain xs where xs: "bt_fibers b = Some xs" "length xs = unat (bt_num b)" "\<And>i. i < length xs \<Longrightarrow> entry_ok b q n i (xs ! i)"
    using v(2) m by (auto simp: array_ok_def split: option.splits)
  have pos: "0 < unat (bt_num b)" using control_started [OF v(3)] m checked_pos by fastforce
  let ?f = "of_nat (r mod unat (bt_num b)) :: u32"
  have lt: "r mod unat (bt_num b) < unat (bt_num b)" using pos by simp
  then have f: "unat ?f = r mod unat (bt_num b)"
    using unsigned_less [of "bt_num b", where 'a = nat] by (simp add: unat_of_nat take_bit_nat_eq_self_iff)
  have "bt_num b \<noteq> 0" using pos by auto
  then have g: "get_random_fiber r (bt_num b) = Inr ?f" by (simp add: get_random_fiber_def)
  obtain h where h: "load_fiber (unat ?f) b = Inr h"
    using xs(1,2) xs(3) [of "unat ?f"] w lt f by (auto simp: load_fiber_def entry_ok_def split: option.splits)
  have k: "kinv (be_env e) (bt_state b)" using v(1) by (simp add: kernel_view_def)
  have l: "device_open (bt_lib b)" using v(3) w pos by (simp add: control_ok_def)
  have q: "kabs (be_env e) (bt_state b) (be_tg e) = Some q" using v(1) w pos by (auto simp: kernel_view_def no_fibers_def)
  obtain s' C where s': "SwitchToFiber (be_env e) uc h (bt_lib b) (bt_state b) = Inr (bt_lib b, s')" "kinv (be_env e) s'"
    "kabs (be_env e) s' (be_tg e) = Some (q\<lparr>cur := C\<rparr>)" "dom C = dom (cur q)"
    using switch_view [OF k l] q by metis
  obtain H where H: "random_switch e t uc r b = Inr (b\<lparr>bt_state := s', bt_helper := H\<rparr>)" "H = bt_helper b \<or> H = (bt_helper b)(t := leaves (bt_helper b t))"
    using g h s'(1) by (auto simp: random_switch_def)
  let ?b = "b\<lparr>bt_state := s', bt_helper := H\<rparr>"
  have i: "initial_fiber (H u) = initial_fiber (bt_helper b u)" for u using H(2) by auto
  have w': "entries_written ?b = entries_written b" and cv: "converted ?b = converted b"
    by (simp_all add: entries_written_def converted_def i cong: main_pc.case_cong)
  have "kernel_view e ?b (q\<lparr>cur := C\<rparr>) n"
    unfolding kernel_view_def w' cv using v(1) s' by (auto simp: kernel_view_def i)
  moreover have "array_ok ?b (q\<lparr>cur := C\<rparr>) n"
  proof -
    have "entry_ok ?b (q\<lparr>cur := C\<rparr>) n j x = entry_ok b q n j x" for j x
      unfolding entry_ok_def w' by (simp add: i split: option.split)
    then show ?thesis using v(2) by (auto simp: array_ok_def w' split: option.splits)
  qed
  moreover have "control_ok e ?b"
    by (rule control_helpers [OF v(3)]) (use m H(2) control_loop [OF v(3)] in \<open>auto simp: leaves_def split: helper_pc.splits if_splits\<close>)
  ultimately show ?thesis using H(1) boot_invI by blast
qed

lemma helper_step_inv:
  assumes e: "boot_env_ok e" and v: "kernel_view e b q n" "array_ok b q n" "control_ok e b"
    and w: "pending_ok e b" "\<not> overtaken e b" and g: "good_call (be_tg e) t uc" "open_result uc \<noteq> - 1"
  shows "\<exists>b'. boot_helper e t uc r b = Inr b' \<and> boot_inv e b'"
proof (cases "bt_helper b t")
  case HConvert
  then show ?thesis by (rule helper_begin [OF v _ g])
next
  case (HEnter p)
  then show ?thesis by (rule helper_enter [OF e v _ w g(1)])
next
  case (HSpin h)
  let ?b = "b\<lparr>bt_helper := (bt_helper b)(t := HLoop h)\<rparr>"
  have "boot_inv e ?b" if "bt_complete b"
  proof (rule quiet_inv [OF v(1,2)])
    show "control_ok e ?b"
      by (rule control_helpers [OF v(3)]) (use HSpin that helper_started [OF v(3), of t] in \<open>auto split: if_splits\<close>)
  qed (use HSpin in \<open>simp_all add: entries_written_def cong: main_pc.case_cong\<close>)
  then show ?thesis using HSpin boot_invI [OF v] by (simp add: boot_helper_def)
next
  case (HLoop h)
  then have "bt_complete b" by (rule control_loop [OF v(3)])
  then show ?thesis using random_switch_inv [OF v _ e] HLoop by (simp add: boot_helper_def)
qed (use boot_invI [OF v] in \<open>simp_all add: boot_helper_def\<close>)

lemma main_step_inv:
  assumes e: "boot_env_ok e" and v: "kernel_view e b q n" "array_ok b q n" "control_ok e b"
    and w: "pending_ok e b" "\<not> overtaken e b" and g: "good_call (be_tg e) (be_tg e) uc" "open_result uc \<noteq> - 1"
  shows "\<exists>b'. main_step e uc b = Inr b' \<and> boot_inv e b'"
proof (cases "bt_main b")
  case MMalloc
  then show ?thesis by (rule main_malloc [OF v _ e])
next
  case MConvert
  then show ?thesis by (rule main_begin [OF v _ g])
next
  case (MEnter p)
  then show ?thesis by (rule main_enter [OF e v _ w g(1)])
next
  case (MCreate j)
  then show ?thesis using main_create [OF e v MCreate _ g] main_quiet [OF v] by (cases "j < unat (bt_num b)") auto
qed (use main_quiet [OF v] in auto)

section \<open>Between the halves of a conversion\<close>

text \<open>What one step does to the threads in the middle of theirs: the fibers of \<open>X\<close> become linked, and only
  thread \<open>a\<close> can have started, with the process that is in the list.\<close>

definition moves :: "boot_env \<Rightarrow> boot \<Rightarrow> boot \<Rightarrow> bool" where
  "moves e b b' \<longleftrightarrow> (\<exists>X a. keeps (be_env e) X (bt_state b) (bt_state b') \<and> (\<forall>t p. pending e b' t = Some p \<longrightarrow>
     pending e b t = Some p \<and> (\<forall>fa pr. p = Some (Some fa, pr) \<longrightarrow> fa \<notin> X) \<or>
     t = a \<and> (\<exists>pr. p = Some (Some (brk (bt_state b)), pr) \<and> loose (bt_state b') (brk (bt_state b)) \<and>
       search_process (be_env e) (be_tg e) (bt_state b') = Inr pr)))"

lemma moves_old:
  assumes "keeps (be_env e) {} (bt_state b) (bt_state b')" "\<And>t p. pending e b' t = Some p \<Longrightarrow> pending e b t = Some p"
  shows "moves e b b'"
  using assms unfolding moves_def by blast

lemma pending_main: "bt_main b' = bt_main b \<Longrightarrow> bt_helper b' = bt_helper b \<Longrightarrow> pending e b' t = pending e b t"
  by (simp add: pending_def)

lemma moves_pending:
  assumes m: "moves e b b'" and k: "kinv (be_env e) (bt_state b)" and p: "pending_ok e b"
  shows "pending_ok e b'"
proof -
  obtain X a where X: "keeps (be_env e) X (bt_state b) (bt_state b')"
    and new: "\<And>t p. pending e b' t = Some p \<Longrightarrow> pending e b t = Some p \<and> (\<forall>fa pr. p = Some (Some fa, pr) \<longrightarrow> fa \<notin> X) \<or>
     t = a \<and> (\<exists>pr. p = Some (Some (brk (bt_state b)), pr) \<and> loose (bt_state b') (brk (bt_state b)) \<and>
       search_process (be_env e) (be_tg e) (bt_state b') = Inr pr)"
    using m unfolding moves_def by blast
  have old: "\<exists>fa pr. q = Some (Some fa, pr) \<and> loose (bt_state b) fa \<and> fa \<noteq> brk (bt_state b) \<and>
      (\<forall>pa. pr = Some pa \<longrightarrow> search_process (be_env e) (be_tg e) (bt_state b) = Inr (Some pa))" if "pending e b t = Some q" for t q
    using p that loose_below [OF k] unfolding pending_ok_def by fast
  have "\<exists>fa pr. q = Some (Some fa, pr) \<and> loose (bt_state b') fa \<and>
      (\<forall>pa. pr = Some pa \<longrightarrow> search_process (be_env e) (be_tg e) (bt_state b') = Inr (Some pa))" if q: "pending e b' t = Some q" for t q
    using new [OF q]
  proof
    assume o: "pending e b t = Some q \<and> (\<forall>fa pr. q = Some (Some fa, pr) \<longrightarrow> fa \<notin> X)"
    then show ?thesis using old [of t q] X unfolding keeps_def by blast
  qed auto
  moreover have "t = u" if q: "pending e b' t = Some (Some (Some fa, pr))" "pending e b' u = Some (Some (Some fa, pr'))" for t u fa pr pr'
    using new [OF q(1)] new [OF q(2)] old [of t] old [of u] p unfolding pending_ok_def by blast
  ultimately show ?thesis unfolding pending_ok_def by blast
qed

lemma CreateFiber_keeps:
  assumes "kinv env s" "CreateFiber env uc n start param l s = Inr (x, s')"
  shows "keeps env X s s'"
proof (cases "s' = s")
  case False
  obtain stk u where "ioctl_create env ((kcall uc)\<lparr>user_create := Some u\<rparr>) s = Inr (stk, s')"
    using assms(2) False
    by (auto simp: CreateFiber_def sys_ioctl_def no_out_def Let_def kbind_Inr_iff split: option.splits if_splits)
  then show ?thesis by (rule create_keeps [OF assms(1)])
qed simp

lemma SwitchToFiber_keeps:
  assumes "kinv env s" "SwitchToFiber env uc h l s = Inr (x, s')"
  shows "keeps env X s s'"
proof (cases "s' = s")
  case False
  obtain r where "ioctl_switch env ((kcall uc)\<lparr>c_arg := h\<rparr>) s = Inr (r, s')"
    using assms(2) False
    by (auto simp: SwitchToFiber_def sys_ioctl_def no_out_def Let_def kbind_Inr_iff split: if_splits)
  then show ?thesis by (rule switch_keeps [OF assms(1)])
qed simp

lemma begin_moves:
  assumes k: "kinv (be_env e) (bt_state b)" and g: "good_call (be_tg e) t uc"
    and B: "convert_begin (be_env e) uc l (bt_state b) = Inr ((p, l'), s)" and l: "usable uc l"
    and s: "bt_state b' = s" and q: "\<And>u q. pending e b' u = Some q \<Longrightarrow> pending e b u = Some q \<or> u = t \<and> q = p"
  shows "moves e b b'"
proof -
  obtain pr where pr: "p = Some (Some (brk (bt_state b)), pr)" "s = convert_entry (be_env e) (kcall uc) (bt_state b)"
    "search_process (be_env e) (be_tg e) (bt_state b) = Inr pr"
    using begin_ok(1) [OF k g l] B by auto
  have f: "ok_fiber (kcall uc)" using g by (simp add: good_call_def)
  note K = convert_entry_keeps [OF k f]
  show ?thesis
    unfolding moves_def
    by (rule exI [of _ "{}"], rule exI [of _ t]) (use pr s q K in auto)
qed

lemma end_moves:
  assumes e: "boot_env_ok e" and v: "kernel_view e b q n" "pending_ok e b" "\<not> overtaken e b" and p: "pending e b t = Some p"
    and g: "good_call (be_tg e) t uc" and new: "t \<notin> converted b" "entries_written b = 0 \<or> t \<noteq> be_tg e" and ix: "index_ok (be_env e) (of_nat n)"
    and E: "convert_end (be_env e) uc p (bt_state b) = Inr (h, s)"
    and s: "bt_state b' = s" and q: "\<And>u q. pending e b' u = Some q \<Longrightarrow> u \<noteq> t \<and> pending e b u = Some q"
  shows "moves e b b'"
proof -
  obtain fa pr where f: "p = Some (Some fa, pr)" "loose (bt_state b) fa"
    "search_process (be_env e) (be_tg e) (bt_state b) = Inr pr"
    by (rule pending_found [OF v(2,3) p])
  have k: "kinv (be_env e) (bt_state b)" and nx: "next_index q = of_nat n" using v(1) by (simp_all add: kernel_view_def)
  have K: "keeps (be_env e) {fa} (bt_state b) s"
    using end_ok [OF k g f(3,2) view_absent [OF v(1) new]] ix nx f(1) E by auto
  have "fb \<notin> {fa}" if "pending e b' u = Some (Some (Some fb, pr'))" for u fb pr'
    using q [OF that] p f(1) v(2) unfolding pending_ok_def by blast
  then show ?thesis
    unfolding moves_def by (intro exI [of _ "{fa}"] exI [of _ t]) (use s K q in blast)
qed

lemma store_fiber_same:
  "store_fiber i h b = Inr b' \<Longrightarrow> bt_state b' = bt_state b \<and> bt_main b' = bt_main b \<and> bt_helper b' = bt_helper b"
  by (auto simp: store_fiber_def split: option.splits if_splits)

lemma main_moves:
  assumes e: "boot_env_ok e" and v: "kernel_view e b q n" "array_ok b q n" "control_ok e b"
    and w: "pending_ok e b" "\<not> overtaken e b" and g: "good_call (be_tg e) (be_tg e) uc" "open_result uc \<noteq> - 1"
    and r: "main_step e uc b = Inr b'"
  shows "moves e b b'"
proof -
  have k: "kinv (be_env e) (bt_state b)" using v(1) by (simp add: kernel_view_def)
  show ?thesis
  proof (cases "bt_main b")
    case MConvert
    then obtain p l s where B: "convert_begin (be_env e) uc (bt_lib b) (bt_state b) = Inr ((p, l), s)"
      "b' = b\<lparr>bt_state := s, bt_lib := l, bt_main := MEnter p\<rparr>"
      using r by (auto simp: main_step_def kbind_Inr_iff)
    show ?thesis
      by (rule begin_moves [OF k g(1) B(1) usable_call [OF v(3) g(2)]]) (use B(2) MConvert in \<open>auto simp: pending_def split: if_splits\<close>)
  next
    case (MEnter p)
    obtain h s b1 where E: "convert_end (be_env e) uc p (bt_state b) = Inr (h, s)"
      "store_fiber 0 h (b\<lparr>bt_state := s, bt_main := MCreate 1\<rparr>) = Inr b'"
      using r MEnter by (auto simp: main_step_def kbind_Inr_iff)
    note b' = store_fiber_same [OF E(2)]
    have w0: "entries_written b = 0" using MEnter by (simp add: entries_written_def)
    obtain xs where xs: "bt_fibers b = Some xs" "length xs = unat (bt_num b)" using v(2) MEnter by (auto simp: array_ok_def split: option.splits)
    have pos: "0 < unat (bt_num b)" using v(3) MEnter checked_pos by (auto simp: control_ok_def)
    have n: "index_ok (be_env e) (of_nat n)" "be_tg e \<notin> converted b" using next_ok [OF e v] MEnter w0 pos by auto
    have p: "pending e b (be_tg e) = Some p" using MEnter by (simp add: pending_def)
    show ?thesis
      by (rule end_moves [OF e v(1) w p g(1) n(2) _ n(1) E(1)]) (use w0 b' in \<open>auto simp: pending_def split: if_splits\<close>)
  next
    case (MCreate i)
    show ?thesis
    proof (cases "i < unat (bt_num b)")
      case True
      then obtain h l s where C: "CreateFiber (be_env e) uc FC_STACK_SIZE (be_entry e) (of_nat (i + 1)) (bt_lib b) (bt_state b) = Inr ((h, l), s)"
        "store_fiber i h (b\<lparr>bt_state := s, bt_lib := l, bt_main := MCreate (i + 1)\<rparr>) = Inr b'"
        using r MCreate by (auto simp: main_step_def kbind_Inr_iff)
      show ?thesis
        by (rule moves_old) (use store_fiber_same [OF C(2)] CreateFiber_keeps [OF k C(1)] MCreate in \<open>auto simp: pending_def split: if_splits\<close>)
    next
      case False
      then show ?thesis using r MCreate by (intro moves_old) (auto simp: main_step_def pending_def split: if_splits)
    qed
  qed (use r in \<open>auto intro!: moves_old simp: main_step_def pending_def split: if_splits setup_check.splits\<close>)
qed

lemma switch_moves:
  assumes k: "kinv (be_env e) (bt_state b)" and r: "random_switch e t uc r' b = Inr b'"
  shows "moves e b b'"
proof -
  obtain f h l s where S: "SwitchToFiber (be_env e) uc h (bt_lib b) (bt_state b) = Inr (l, s)" "bt_state b' = s" "bt_main b' = bt_main b"
    "bt_helper b' = bt_helper b \<or> bt_helper b' = (bt_helper b)(t := leaves (bt_helper b t))"
    using r by (auto simp: random_switch_def kbind_Inr_iff split: if_splits)
  show ?thesis
  proof (rule moves_old)
    show "keeps (be_env e) {} (bt_state b) (bt_state b')" using SwitchToFiber_keeps [OF k S(1)] S(2) by simp
    show "pending e b u = Some p" if "pending e b' u = Some p" for u p
      using that S(3,4) by (auto simp: pending_def leaves_def split: if_splits helper_pc.splits)
  qed
qed

lemma helper_moves:
  assumes e: "boot_env_ok e" and v: "kernel_view e b q n" "array_ok b q n" "control_ok e b"
    and w: "pending_ok e b" "\<not> overtaken e b" and g: "good_call (be_tg e) t uc" "open_result uc \<noteq> - 1"
    and r: "boot_helper e t uc r' b = Inr b'"
  shows "moves e b b'"
proof -
  have k: "kinv (be_env e) (bt_state b)" using v(1) by (simp add: kernel_view_def)
  note tm = helper_not_main [OF e v(3), of t]
  show ?thesis
  proof (cases "bt_helper b t")
    case HConvert
    then obtain p l s where B: "convert_begin (be_env e) uc (bt_lib b) (bt_state b) = Inr ((p, l), s)"
      "b' = b\<lparr>bt_state := s, bt_lib := l, bt_helper := (bt_helper b)(t := HEnter p)\<rparr>"
      using r by (auto simp: boot_helper_def kbind_Inr_iff)
    show ?thesis
      by (rule begin_moves [OF k g(1) B(1) usable_call [OF v(3) g(2)]]) (use B(2) in \<open>auto simp: pending_def split: if_splits\<close>)
  next
    case (HEnter p)
    obtain h s where E: "convert_end (be_env e) uc p (bt_state b) = Inr (h, s)"
      "b' = b\<lparr>bt_state := s, bt_helper := (bt_helper b)(t := HSpin h)\<rparr>"
      using r HEnter by (auto simp: boot_helper_def kbind_Inr_iff)
    have m: "bt_main b \<noteq> MCheck" "bt_main b \<noteq> MStopped" using helper_started [OF v(3), of t] HEnter by simp_all
    have n: "index_ok (be_env e) (of_nat n)" using next_ok [OF e v m] HEnter by blast
    have p: "pending e b t = Some p" "t \<noteq> be_tg e" using HEnter tm by (simp_all add: pending_def)
    show ?thesis
      by (rule end_moves [OF e v(1) w p(1) g(1) _ _ n E(1)])
        (use p E(2) HEnter in \<open>auto simp: pending_def converted_def split: if_splits\<close>)
  next
    case (HLoop h)
    then show ?thesis using switch_moves [OF k] r by (simp add: boot_helper_def)
  qed (use r in \<open>auto intro!: moves_old simp: boot_helper_def pending_def split: if_splits\<close>)
qed

section \<open>Every schedule\<close>

lemma startup_step_inv:
  assumes "boot_env_ok e" "boot_inv e b" "boot_event_ok e v" "pending_ok e b" "\<not> overtaken e b"
  shows "\<exists>b'. startup_step e v b = Inr b' \<and> boot_inv e b'"
proof -
  obtain q n where v: "kernel_view e b q n" "array_ok b q n" "control_ok e b" using assms(2) by (auto simp: boot_inv_def)
  show ?thesis
  proof (cases v)
    case (MainStep uc)
    then show ?thesis using main_step_inv [OF assms(1) v assms(4,5)] assms(3) by (simp add: boot_event_ok_def)
  next
    case (HelperStep t uc r)
    then show ?thesis using helper_step_inv [OF assms(1) v assms(4,5)] assms(3) by (simp add: boot_event_ok_def)
  next
    case (Alarm t uc r)
    then show ?thesis using random_switch_inv [OF v _ assms(1)] assms(2) by simp
  qed
qed

lemma startup_step_moves:
  assumes "boot_env_ok e" "boot_inv e b" "boot_event_ok e v" "pending_ok e b" "\<not> overtaken e b" "startup_step e v b = Inr b'"
  shows "moves e b b'"
proof -
  obtain q n where v: "kernel_view e b q n" "array_ok b q n" "control_ok e b" using assms(2) by (auto simp: boot_inv_def)
  then have k: "kinv (be_env e) (bt_state b)" by (simp add: kernel_view_def)
  show ?thesis
  proof (cases v)
    case (MainStep uc)
    then have "good_call (be_tg e) (be_tg e) uc" "open_result uc \<noteq> - 1" "main_step e uc b = Inr b'"
      using assms(3,6) by (simp_all add: boot_event_ok_def)
    then show ?thesis by (rule main_moves [OF assms(1) v assms(4,5)])
  next
    case (HelperStep t uc r)
    then have "good_call (be_tg e) t uc" "open_result uc \<noteq> - 1" "boot_helper e t uc r b = Inr b'"
      using assms(3,6) by (simp_all add: boot_event_ok_def)
    then show ?thesis by (rule helper_moves [OF assms(1) v assms(4,5)])
  next
    case (Alarm t uc r)
    then show ?thesis using switch_moves [OF k] assms(6) by (auto intro!: moves_old split: if_splits)
  qed
qed

lemma startup_step_ok:
  assumes "boot_env_ok e" "boot_inv e b" "boot_event_ok e v" "pending_ok e b" "\<not> overtaken e b"
  shows "\<exists>b'. startup_step e v b = Inr b' \<and> boot_inv e b' \<and> pending_ok e b' \<and> moves e b b'"
proof -
  obtain b' where b': "startup_step e v b = Inr b'" "boot_inv e b'" using startup_step_inv [OF assms] by blast
  moreover note m = startup_step_moves [OF assms b'(1)]
  moreover have "kinv (be_env e) (bt_state b)" using assms(2) by (auto simp: boot_inv_def kernel_view_def)
  ultimately show ?thesis using moves_pending [OF m _ assms(4)] by blast
qed

lemma startup_run_inv:
  "boot_env_ok e \<Longrightarrow> boot_inv e b \<Longrightarrow> pending_ok e b \<Longrightarrow> \<forall>v \<in> set evs. boot_event_ok e v \<Longrightarrow>
   \<forall>k<length evs. \<forall>b1. startup_run e (take k evs) b = Inr b1 \<longrightarrow> \<not> overtaken e b1 \<Longrightarrow>
   \<exists>b'. startup_run e evs b = Inr b' \<and> boot_inv e b' \<and> pending_ok e b'"
proof (induction evs arbitrary: b)
  case (Cons v evs)
  have "\<not> overtaken e b" using Cons.prems(5) [rule_format, of 0 b] by simp
  then obtain b1 where b1: "startup_step e v b = Inr b1" "boot_inv e b1" "pending_ok e b1"
    using startup_step_ok [of e b v] Cons.prems(1-4) by auto
  have "\<not> overtaken e b2" if "k < length evs" "startup_run e (take k evs) b1 = Inr b2" for k b2
    using Cons.prems(5) [rule_format, of "Suc k" b2] that b1(1) by simp
  then show ?case using Cons.IH [OF Cons.prems(1) b1(2,3)] Cons.prems(4) b1(1) by simp
qed simp

text \<open>Once the process is in the list and nobody holds an older search, no thread is overtaken any more.\<close>

definition settled :: "boot_env \<Rightarrow> boot \<Rightarrow> bool" where
  "settled e b \<longleftrightarrow> (\<exists>pa. search_process (be_env e) (be_tg e) (bt_state b) = Inr (Some pa)) \<and>
     (\<forall>t fiber. pending e b t \<noteq> Some (Some (fiber, None)))"

lemma settled_moves:
  assumes "moves e b b'" "settled e b"
  shows "settled e b'"
proof -
  obtain pa where pa: "search_process (be_env e) (be_tg e) (bt_state b') = Inr (Some pa)"
    using assms unfolding moves_def keeps_def settled_def by blast
  have "pending e b' t \<noteq> Some (Some (fiber, None))" for t fiber
    using assms pa unfolding moves_def settled_def by fastforce
  then show ?thesis using pa by (simp add: settled_def)
qed

lemma settled_run:
  "boot_env_ok e \<Longrightarrow> boot_inv e b \<Longrightarrow> pending_ok e b \<Longrightarrow> \<forall>v \<in> set evs. boot_event_ok e v \<Longrightarrow> settled e b \<Longrightarrow>
   startup_run e (take k evs) b = Inr b1 \<Longrightarrow> \<not> overtaken e b1"
proof (induction evs arbitrary: b k)
  case (Cons v evs)
  have o: "\<not> overtaken e b" using Cons.prems(5) by (auto simp: settled_def overtaken_def)
  obtain b2 where b2: "startup_step e v b = Inr b2" "boot_inv e b2" "pending_ok e b2" "moves e b b2"
    using startup_step_ok [of e b v] Cons.prems(1-4) o by auto
  have "settled e b2" by (rule settled_moves [OF b2(4) Cons.prems(5)])
  then show ?case
    using Cons.IH [OF Cons.prems(1) b2(2,3), of "k - 1"] Cons.prems(4,6) b2(1) o by (cases k) auto
qed (auto simp: settled_def overtaken_def)

lemma boot_start_inv:
  assumes "kinv (be_env e) s" "kabs (be_env e) s (be_tg e) = None" "opened l \<Longrightarrow> fd l \<noteq> - 1"
  shows "boot_inv e (boot_start s l)"
proof (rule boot_invI)
  show "kernel_view e (boot_start s l) no_fibers 0"
    using assms by (simp add: kernel_view_def boot_start_def converted_def entries_written_def no_fibers_def)
qed (use assms in \<open>simp_all add: array_ok_def boot_start_def control_ok_def entries_written_def\<close>)

lemma boot_start_pending: "pending_ok e (boot_start s l)"
  by (simp add: pending_ok_def pending_def boot_start_def)

text \<open>C12. The start-up is safe in every order its threads run in, as long as no conversion is overtaken:
  the machine has memory for every call and for the array and opens the device, the helpers are other
  threads than the main one, the module can find the indexes of all the fibers again, and no thread
  that found no process for its conversion goes on after another thread has entered one (what happens then
  is \<open>convert_race\<close>). Then, whatever the interleaving of the steps of \<^verbatim>\<open>main\<close>, of the helper threads
  it starts and of the alarms, conversions cut after their search and the other calls taken whole, no step faults
  (no use of \<^verbatim>\<open>fibers\<close> before it is filled, no access outside it), every handle stored in the array is a live
  fiber of the process and never the fiber a helper was converted to, so the abandoned fiber of
  \<^verbatim>\<open>thread_initialization\<close> is not entered again, and the array is full as soon as the handler of
  \<^verbatim>\<open>SIGALRM\<close> is installed or \<^verbatim>\<open>init_complete\<close> is set.\<close>

theorem startup_safe:
  assumes "boot_env_ok e" "kinv (be_env e) s" "kabs (be_env e) s (be_tg e) = None" "opened l \<Longrightarrow> fd l \<noteq> - 1"
    and "\<forall>v \<in> set evs. boot_event_ok e v"
    and "\<forall>k<length evs. \<forall>b. startup_run e (take k evs) (boot_start s l) = Inr b \<longrightarrow> \<not> overtaken e b"
  shows "\<exists>b. startup_run e evs (boot_start s l) = Inr b \<and> kinv (be_env e) (bt_state b) \<and>
    (\<forall>xs h. bt_fibers b = Some xs \<longrightarrow> Some h \<in> set xs \<longrightarrow>
       (\<exists>q. kabs (be_env e) (bt_state b) (be_tg e) = Some q \<and> h \<in> live q) \<and> (\<forall>t. initial_fiber (bt_helper b t) \<noteq> Some h)) \<and>
    (bt_handler b \<or> bt_complete b \<longrightarrow> (\<exists>xs. bt_fibers b = Some xs \<and> length xs = unat (bt_num b) \<and> None \<notin> set xs))"
proof -
  obtain b where b: "startup_run e evs (boot_start s l) = Inr b" "boot_inv e b"
    using startup_run_inv [OF assms(1) boot_start_inv [OF assms(2-4)] boot_start_pending assms(5,6)] by blast
  then obtain q n where v: "kernel_view e b q n" "array_ok b q n" "control_ok e b" by (auto simp: boot_inv_def)
  have entry: "(\<exists>q. kabs (be_env e) (bt_state b) (be_tg e) = Some q \<and> h \<in> live q) \<and> (\<forall>t. initial_fiber (bt_helper b t) \<noteq> Some h)"
    if xs: "bt_fibers b = Some xs" "Some h \<in> set xs" for xs h
  proof -
    obtain i where "i < length xs" "xs ! i = Some h" using xs(2) by (auto simp: in_set_conv_nth)
    then have "entry_ok b q n i (Some h)" using v(2) xs(1) by (fastforce simp: array_ok_def)
    then show ?thesis using v(1) by (auto simp: entry_ok_def kernel_view_def no_fibers_def)
  qed
  have full: "\<exists>xs. bt_fibers b = Some xs \<and> length xs = unat (bt_num b) \<and> None \<notin> set xs" if ready: "bt_handler b \<or> bt_complete b"
  proof -
    have m: "bt_main b = MComplete \<or> bt_main b = MLoop" by (rule control_ready [OF v(3) ready])
    then obtain xs where xs: "bt_fibers b = Some xs" "length xs = unat (bt_num b)" "\<And>i. i < length xs \<Longrightarrow> entry_ok b q n i (xs ! i)"
      using v(2) by (auto simp: array_ok_def split: option.splits)
    have "entries_written b = unat (bt_num b)" using m by (auto simp: entries_written_def)
    then have "xs ! i \<noteq> None" if "i < length xs" for i
      using xs(2) xs(3) [OF that] that by (auto simp: entry_ok_def split: option.splits)
    then show ?thesis using xs(1,2) by (metis in_set_conv_nth)
  qed
  show ?thesis using b(1) v(1) entry full by (auto simp: kernel_view_def)
qed

text \<open>Three processors and four fibers: \<^verbatim>\<open>main\<close> is converted first, then the helper threads 8 and 9 search
  and enter in turns with its loop, and alarms come on three threads.\<close>

definition demo_boot :: boot_env where
  "demo_boot = \<lparr>be_env = demo_env, be_tg = 7, be_onln = 3, be_strtoll = (\<lambda>_. (4, 0)), be_argv = [''fibers'', ''4''],
     be_entry = 0x401000, be_malloc = True, be_tids = (\<lambda>i. 8 + of_nat i)\<rparr>"

definition demo_boot_call :: "pid_t \<Rightarrow> ucall" where
  "demo_boot_call t = demo_ucall\<lparr>kcall := (kcall demo_ucall)\<lparr>c_pid := t\<rparr>\<rparr>"

definition demo_main :: boot_event where
  "demo_main = MainStep (demo_boot_call 7)"

definition demo_helper :: "pid_t \<Rightarrow> boot_event" where
  "demo_helper t = HelperStep t (demo_boot_call t) 5"

definition demo_boot_events :: "boot_event list" where
  "demo_boot_events = replicate 5 demo_main @
     [demo_helper 8, demo_main, demo_helper 9, demo_helper 9, demo_main, demo_helper 8, demo_main, demo_main, demo_helper 8,
      demo_main, Alarm 8 (demo_boot_call 8) 1, demo_main, demo_helper 9, Alarm 7 (demo_boot_call 7) 2, demo_helper 9]"

lemma demo_boot_ok: "boot_env_ok demo_boot"
proof -
  have "check_arguments (be_onln demo_boot) (be_strtoll demo_boot) (be_argv demo_boot) = Checked 3 4"
    by (simp add: check_arguments_def demo_boot_def)
  moreover have "index_ok demo_env (of_nat i)" if "i < 6" for i
  proof -
    have "i = 0 \<or> i = 1 \<or> i = 2 \<or> i = 3 \<or> i = 4 \<or> i = 5" using that by auto
    then show ?thesis by (auto simp: index_ok_def demo_env_def)
  qed
  ultimately show ?thesis
    by (auto simp: boot_env_ok_def helpers_of_def helper_threads_def demo_boot_def less_2_cases_iff)
qed

lemma demo_boot_events_ok: "\<forall>v \<in> set demo_boot_events. boot_event_ok demo_boot v"
  by (auto simp: demo_boot_events_def demo_main_def demo_helper_def boot_event_ok_def good_call_def demo_boot_call_def
      demo_ucall_def demo_boot_def)

lemma demo_boot_start: "boot_inv demo_boot (boot_start demo0 demo_lib)"
  by (rule boot_start_inv) (use demo0 in \<open>simp_all add: demo_boot_def demo_lib_def\<close>)

text \<open>Its first five steps, and the state after them.\<close>

lemma demo_boot_begin:
  "\<exists>b. startup_run demo_boot (replicate 4 demo_main) (boot_start demo0 demo_lib) = Inr b \<and> \<not> overtaken demo_boot b \<and>
    (\<forall>t. t \<noteq> 7 \<longrightarrow> pending demo_boot b t = None) \<and> (\<exists>p. bt_main b = MEnter p)"
proof -
  have c: "check_arguments 3 (\<lambda>_. (4, 0)) [''fibers'', ''4''] = Checked 3 4" by (simp add: check_arguments_def)
  have g: "good_call 7 7 (demo_boot_call 7)" by (simp add: good_call_def demo_boot_call_def demo_ucall_def)
  have u: "usable (demo_boot_call 7) demo_lib" by (simp add: usable_def demo_lib_def demo_boot_call_def demo_ucall_def)
  have s: "search_process demo_env 7 demo0 = Inr None" by (simp add: demo0_def init_state_def search_process_def hash_init_def)
  then obtain l where "convert_begin demo_env (demo_boot_call 7) demo_lib demo0 =
      Inr ((Some (Some (brk demo0), None), l), convert_entry demo_env (kcall (demo_boot_call 7)) demo0)"
    using begin_ok(1) [OF demo0(1) g u] by auto
  then show ?thesis
    using s by (simp add: eval_nat_numeral demo_main_def main_step_def boot_start_def demo_boot_def c overtaken_def pending_def)
qed

lemma demo_boot_quiet:
  assumes "k \<le> 4" "startup_run demo_boot (replicate k demo_main) (boot_start demo0 demo_lib) = Inr b"
  shows "\<not> overtaken demo_boot b"
proof (cases "k = 4")
  case True
  then show ?thesis using demo_boot_begin assms(2) by auto
next
  case False
  have c: "check_arguments 3 (\<lambda>_. (4, 0)) [''fibers'', ''4''] = Checked 3 4" by (simp add: check_arguments_def)
  have "k = 0 \<or> k = 1 \<or> k = 2 \<or> k = 3" using False assms(1) by auto
  then show ?thesis
    using assms(2) by (auto simp: eval_nat_numeral demo_main_def main_step_def boot_start_def demo_boot_def c overtaken_def
        pending_def split: if_splits)
qed

lemma inv_known:
  assumes "boot_inv e b" "entries_written b \<noteq> 0"
  shows "\<exists>pa. search_process (be_env e) (be_tg e) (bt_state b) = Inr (Some pa)"
proof -
  obtain q n where v: "kernel_view e b q n" using assms(1) by (auto simp: boot_inv_def)
  then have "kinv (be_env e) (bt_state b)" "kabs (be_env e) (bt_state b) (be_tg e) \<noteq> None"
    using assms(2) by (auto simp: kernel_view_def no_fibers_def)
  then show ?thesis by (metis search_process_cases abs_absent)
qed

lemma demo_boot_settled:
  "\<exists>b. startup_run demo_boot (replicate 5 demo_main) (boot_start demo0 demo_lib) = Inr b \<and> boot_inv demo_boot b \<and>
    pending_ok demo_boot b \<and> settled demo_boot b"
proof -
  obtain b p where b: "startup_run demo_boot (replicate 4 demo_main) (boot_start demo0 demo_lib) = Inr b" "\<not> overtaken demo_boot b"
    "\<And>t. t \<noteq> 7 \<Longrightarrow> pending demo_boot b t = None" "bt_main b = MEnter p"
    using demo_boot_begin by blast
  have ok: "\<forall>v \<in> set (replicate 4 demo_main). boot_event_ok demo_boot v" "boot_event_ok demo_boot demo_main"
    using demo_boot_events_ok by (auto simp: demo_boot_events_def)
  have "\<not> overtaken demo_boot b1"
    if "k < length (replicate 4 demo_main)" "startup_run demo_boot (take k (replicate 4 demo_main)) (boot_start demo0 demo_lib) = Inr b1" for k b1
    using demo_boot_quiet [of k b1] that by simp
  then have i: "boot_inv demo_boot b \<and> pending_ok demo_boot b"
    using startup_run_inv [OF demo_boot_ok demo_boot_start boot_start_pending ok(1)] b(1) by auto
  obtain b' where b': "startup_step demo_boot demo_main b = Inr b'" "boot_inv demo_boot b'" "pending_ok demo_boot b'"
    using startup_step_ok [OF demo_boot_ok _ ok(2)] i b(2) by blast
  obtain h s where "store_fiber 0 h (b\<lparr>bt_state := s, bt_main := MCreate 1\<rparr>) = Inr b'"
    using b'(1) b(4) by (auto simp: demo_main_def main_step_def kbind_Inr_iff)
  note s = store_fiber_same [OF this]
  have "pending demo_boot b' t = None" for t
    using s b(3) [of t] by (simp add: pending_def demo_boot_def)
  moreover have "\<exists>pa. search_process (be_env demo_boot) (be_tg demo_boot) (bt_state b') = Inr (Some pa)"
    by (rule inv_known [OF b'(2)]) (use s in \<open>simp add: entries_written_def\<close>)
  ultimately have "settled demo_boot b'" by (simp add: settled_def)
  moreover have "startup_run demo_boot (replicate 5 demo_main) (boot_start demo0 demo_lib) = Inr b'"
    using startup_run_append [of demo_boot "replicate 4 demo_main" "[demo_main]"] b(1) b'(1)
    by (simp add: replicate_append_same eval_nat_numeral)
  ultimately show ?thesis using b'(2,3) by blast
qed

theorem startup_safe_witness:
  "\<exists>b. startup_run demo_boot demo_boot_events (boot_start demo0 demo_lib) = Inr b \<and> kinv demo_env (bt_state b)"
proof -
  obtain b where b: "startup_run demo_boot (replicate 5 demo_main) (boot_start demo0 demo_lib) = Inr b" "boot_inv demo_boot b"
    "pending_ok demo_boot b" "settled demo_boot b"
    using demo_boot_settled by blast
  have "\<not> overtaken demo_boot b1" if r: "startup_run demo_boot (take k demo_boot_events) (boot_start demo0 demo_lib) = Inr b1" for k b1
  proof (cases "k \<le> 4")
    case True
    then show ?thesis using demo_boot_quiet [OF True, of b1] r by (simp add: demo_boot_events_def)
  next
    case False
    obtain evs where evs: "demo_boot_events = replicate 5 demo_main @ evs" by (simp add: demo_boot_events_def)
    have "length (replicate 5 demo_main) = 5" by (rule length_replicate)
    then have "take k demo_boot_events = replicate 5 demo_main @ take (k - 5) evs"
      using False unfolding evs take_append by (simp only: take_all not_le)
    then have "startup_run demo_boot (take (k - 5) evs) b = Inr b1"
      using r b(1) by (simp only: startup_run_append kbind.simps)
    moreover have "\<forall>v \<in> set evs. boot_event_ok demo_boot v" using demo_boot_events_ok unfolding evs set_append by blast
    ultimately show ?thesis using settled_run [OF demo_boot_ok b(2,3) _ b(4)] by blast
  qed
  moreover have "opened demo_lib \<Longrightarrow> fd demo_lib \<noteq> - 1" by (simp add: demo_lib_def)
  ultimately have "\<exists>b. startup_run demo_boot demo_boot_events (boot_start demo0 demo_lib) = Inr b \<and> kinv (be_env demo_boot) (bt_state b)"
    using startup_safe [OF demo_boot_ok, of demo0 demo_lib demo_boot_events] demo0 demo_boot_events_ok by (fastforce simp: demo_boot_def)
  then show ?thesis by (simp add: demo_boot_def)
qed

end
