(* ===== verification/Spec2Isabelle.thy ===== *)
theory Spec2Isabelle
  imports Model_Spec Thread Completion Calqueue_Runs Jmp_Spec Ult_Round Fiber_Library Proc_Views Module_Init Main_Setup Single_Library Query
    Switch_Atomic Convert_Race Single_Races Demo_App Single_Types Main_Run Kernel_Runs
begin

text \<open>
  LinuxFibers: Windows-style fibers for Linux threads. The repository holds a kernel module that keeps
  the fibers of every process and switches their contexts (\<^verbatim>\<open>multi_thread/Module\<close>), a library that
  wraps its device file (\<^verbatim>\<open>multi_thread/src/function_calls.c\<close>), a user-level implementation of the
  same interface (\<^verbatim>\<open>ult.c\<close>, \<^verbatim>\<open>jmp.S\<close>) and, as the program that runs on either, a
  simulation of GSM cells with one fiber per cell (\<^verbatim>\<open>main.c\<close>, \<^verbatim>\<open>model.c\<close>,
  \<^verbatim>\<open>channel.c\<close>, \<^verbatim>\<open>numerical.c\<close>) over a calendar queue (\<^verbatim>\<open>calqueue.c\<close>).
  This file imports every other theory and holds the properties of the module as a whole.

  \<^bold>\<open>Kernel module.\<close> \<open>Fiber_State\<close> has the structures of \<^verbatim>\<open>fiber_ioctl.h\<close> as records
  (\<open>fiber_arg\<close>, \<open>thread_arg\<close>, \<open>process_arg\<close>) in an explicit heap \<open>kstate\<close>, and
  \<^verbatim>\<open>search_process\<close>, \<^verbatim>\<open>search_thread\<close>, \<^verbatim>\<open>search_fiber\<close> over the intrusive hash tables of
  \<open>Hashtable\<close>. \<open>Fiber_Ioctl\<close> has \<^verbatim>\<open>my_ioctl\<close> with one definition per command and
  \<^verbatim>\<open>Pre_Handler\<close>; \<open>Proc_Fs\<close> the directory and the probe of \<^verbatim>\<open>proc.c\<close>; \<open>Module_Init\<close> the
  hooks, loading and unloading. A handler returns a fault (a dereference of NULL or of freed memory, an
  access outside an object, a lock taken twice) or its result and the next state; leaks are counted in
  the state. \<open>Fiber_Module\<close> composes the entry points to the relation \<open>reachable\<close>.
  \<open>Fiber_Invariant\<close>, \<open>Fiber_Steps\<close>, \<open>Fiber_Create\<close>, \<open>Fiber_Exit\<close>: the
  invariant \<open>kinv\<close>, what every branch of every command computes under it, and that it is kept; hence
  \<open>commands_return\<close>. \<open>Fiber_Abstraction\<close>, \<open>Fiber_Spec\<close>, \<open>Fiber_Runs\<close>: the
  state a client can know of, the specification of the commands on it and the refinement, for single
  commands and runs. \<open>Fiber_Context\<close>, \<open>Fiber_Birth\<close>: register contexts from creation and
  through switches. \<open>Fls\<close>, \<open>Fls_Commands\<close>: local storage, as the locale \<open>slot_store\<close>
  interpreted on the bitmap operations. \<open>Proc_Views\<close>: what the directory shows and what the
  scheduler probe charges. \<open>Demo\<close> holds the states witnesses use, \<open>Fiber_Library\<close> the library.
  \<open>Switch_Steps\<close> cuts \<^verbatim>\<open>SWITCHTOFIBER\<close> at its accesses to shared memory and \<open>Switch_Atomic\<close>
  runs the steps of many threads in any order: the lock makes the command atomic, so the transition of
  \<open>Fiber_Ioctl\<close> is a faithful view of it, and it is always released. \<open>Convert_Race\<close> cuts
  \<^verbatim>\<open>CONVERTTOFIBER\<close> after its search of the process, which no lock protects, and \<open>Convert_Steps\<close> says
  what the two halves do among steps of others. \<open>Kernel_Runs\<close> has the runs from loading in terms of
  the commands alone (\<open>kexec\<close>), with what they ask of the hash functions counted.

  \<^bold>\<open>User-level threads.\<close> \<open>Jmp\<close> is the assembly as programs of a small x86-64 machine;
  \<open>Jmp_Spec\<close> shows that a jump restores what was saved. \<open>Ult\<close> cuts \<^verbatim>\<open>ult.c\<close> into the
  steps other threads can observe, with both returns of \<^verbatim>\<open>set_jmp\<close>: a resumed thread reads RAX
  from the context, and the frame of the macro that saved it says where it goes on. \<open>Ult_Inv\<close> and
  \<open>Ult_Resume\<close> prove the invariants of all interleavings,
  \<open>Ult_Spec\<close> the guarantees for locks, stacks, switches and creation, the interleaving in
  which two threads share a stack and what a context with RAX zero leads to, and \<open>Ult_Round\<close> the
  round trip of a fiber.

  \<^bold>\<open>Calendar queue.\<close> \<open>Double\<close> is IEEE binary64 (values as rationals, signed zeros, infinities,
  NaN, rounding to nearest even, the x86 conversion to int that gives -2147483648 out of range).
  \<open>Calqueue\<close> follows \<^verbatim>\<open>calqueue.c\<close>; the nodes are the chains of live nodes.
  \<open>Calqueue_Inv\<close>, \<open>Calqueue_Resize\<close> (the locale \<open>resize_call\<close> for the calls a resize
  makes to the queue it rebuilds), \<open>Calqueue_Ops\<close> and \<open>Calqueue_Spec\<close>: no event is lost or
  invented by any call as long as no resize computes a negative width, and when an event is overtaken;
  \<open>Calqueue_Runs\<close>: the runs in which events come out of order, in which a queue resizes, and in which
  the queue leaves its array.

  \<^bold>\<open>Simulation.\<close> \<open>Rounding\<close> bounds rounded results. \<open>Numerical\<close> is the random numbers,
  \<open>Channel\<close> the channels of a cell as a bitmap and a doubly linked list in a heap, \<open>Model\<close>
  the event handler and the loop of a fiber. \<open>Channel_Inv\<close>, \<open>Channel_Ops\<close>: the list, the bitmap
  and the powers agree (\<open>cell_inv\<close>), and what \<open>allocation\<close> and \<open>deallocation\<close> do to them.
  \<open>Model_Inv\<close> proves the invariant of the loop over any \<open>event_queue\<close> (a locale);
  \<open>Model_Spec\<close> interprets it on the calendar queue, whose checked operations stop where a resize
  would compute a negative width. \<open>Thread\<close> is the creation of threads under all interleavings: ids
  are unique and every thread gets one. \<open>Main_Setup\<close> is the start-up of \<^verbatim>\<open>main.c\<close> over the
  library and the module: the checks of the argument, the array of fibers, the choice of a fiber.
  \<open>Main_Run\<close> interleaves \<^verbatim>\<open>main\<close>, statement by statement and with the conversions in two steps,
  with the helper threads and the alarms; its property holds for the schedules in which no conversion
  is overtaken.
  \<open>Completion\<close> is how fibers count themselves out and the program ends, and the timers.

  \<^bold>\<open>Earlier version.\<close> \<^verbatim>\<open>single_thread\<close> holds the module as it was before it got locks, its
  library, and a device with three variables. \<open>Single_State\<close> and \<open>Single_Ioctl\<close> follow its
  \<^verbatim>\<open>fiber_ioctl.h\<close> and \<^verbatim>\<open>fiber_ioctl.c\<close>; registers and FX images are objects of their own.
  \<open>Single_Inv\<close> embeds its states into those of the later version (\<open>embed\<close>), so that the
  invariant and the abstract state are the later version's, with ownership of the images added
  (\<open>st_inv\<close>, \<open>st_abs\<close>). \<open>Single_Steps\<close>, \<open>Single_Switch\<close>, \<open>Single_Spec\<close>: every
  command and the probe keep the invariant, do what the specification says, and return.
  \<open>Single_Runs\<close>: idle fibers keep their registers. \<open>Single_Props\<close>: the properties, among them
  that both versions answer a list of commands alike, and the defects. \<open>Single_Types\<close> gives every
  address its type, \<open>Single_Races\<close> is what the missing lock allows. \<open>Single_Library\<close> is the
  library, \<open>Demo_App\<close> the demonstration \<^verbatim>\<open>fiber_app.c\<close> on top of it, \<open>Query\<close> the
  device, its program, and the loading of both modules.

  \<^bold>\<open>Parameters.\<close> The kernel and libc are not part of the repository. What the module asks of them is
  an argument of the definitions: the environment \<open>env\<close> (the two hash functions of
  \<^verbatim>\<open>linux/hash.h\<close>, the FX image a save stores), results of \<^verbatim>\<open>copy_from_user\<close>,
  \<^verbatim>\<open>cdev_add\<close>, \<^verbatim>\<open>register_ftrace_function\<close> and the like. Allocation returns fresh
  addresses from a counter. For the user-level threads the addresses \<^verbatim>\<open>malloc\<close> returns and the
  registers of user code are actions. For the simulation \<open>libs\<close> holds the results of
  \<^verbatim>\<open>random\<close>, \<^verbatim>\<open>log\<close>, \<^verbatim>\<open>pow\<close> and \<^verbatim>\<open>malloc\<close>; \<open>libs_ok\<close> says that
  allocation succeeds and bounds \<^verbatim>\<open>log\<close> and \<^verbatim>\<open>pow\<close> on the arguments the code passes.
  For the earlier version \<open>st_env\<close> adds which allocations succeed and what fresh memory holds
  (\<open>junk_fiber\<close> and the like), and the place of every register in \<^verbatim>\<open>pt_regs\<close>.

  \<^bold>\<open>Bounds.\<close> \<open>index_ok\<close>: an index whose two hash values agree, which a fiber needs to be found;
  \<open>fiber_lost\<close> shows what happens to others. The relations \<open>reachable\<close> and \<open>krun\<close> admit a
  conversion or creation only if the next index is such (\<open>next_index_ok\<close>); \<open>kexec\<close> admits every
  event, and \<open>kexec_krun\<close>, \<open>load_reachable\<close> say which of its runs are runs of the others. A resize calls the queue with resizing disabled, so its
  depth is 1 (\<open>resize_depth\<close>). \<open>scan\<close> takes its fuel from the number of buckets, and
  \<open>walk_ends\<close> shows that this is enough. The walks over the calls of a cell have \<open>walk_fuel\<close> =
  1000 steps, and a cell has at most 1000 calls (\<open>cell_length\<close>). Addresses of the simulation stay
  below \<open>2 ^ 64\<close>, which bounds the number of rounds the theorems speak of.

  \<^bold>\<open>Not modelled.\<close> Interleavings inside the commands other than \<^verbatim>\<open>SWITCHTOFIBER\<close>,
  apart from the cut in \<open>Convert_Race\<close> and \<open>Convert_Steps\<close>: each is one transition, the locks it takes are state. The
  assembly stub behind the hooks and \<^verbatim>\<open>printk\<close>. In the
  user-level threads signal delivery is the stack the trampoline runs on, and the theorems about them
  suppose that no context is saved with the low half of RAX zero (\<open>action_ok\<close>; the steps include that
  case). In the calendar queue the allocation of a node succeeds, and a resize reads a chain of the old
  calendar once. In the simulation \<^verbatim>\<open>srandom\<close>
  and the text that is printed; alarms come between statements, and a library call is not interrupted by
  one.
\<close>

section \<open>Invariant and absence of faults\<close>

text \<open>C2. The invariant of the module's data structures holds after every run from loading, whatever
  commands, exits, reschedulings and user code it consists of, if the two hashes the module computes
  agree on the indexes it can hand out: on the first \<open>n\<close> for a run with \<open>n\<close> conversions and creations.
  Such a run ends in a state of \<open>reachable\<close>.\<close>

theorem reachable_invariant:
  assumes "\<And>t. length (ur t) = nregs env" "kexec env (\<lambda>_. None, init_state ur uf) es z"
    and "\<And>j. j < creations es \<Longrightarrow> index_ok env (of_nat j)"
  shows "kinv env (snd z) \<and> reachable env z"
  using load_reachable [OF assms] reachable_kinv_aux by blast

theorem reachable_invariant_witness: "kinv demo_env demo4 \<and> reachable demo_env (\<lambda>_. None, demo4)"
  using reachable_invariant [OF _ demo_exec [unfolded demo0_def]] demo_creations by (simp add: demo_env_def)

text \<open>C3. A fiber is executed by at most one thread: in a reachable state a fiber is marked running
  exactly when it is the active fiber of a thread of its process, and then of only one.\<close>

theorem fibers_exclusive:
  assumes "reachable env z" and "pa \<in> mem (list_process (snd z))" "procs (snd z) pa = Some p"
    and "fa \<in> mem (fibers p)" "fibs (snd z) fa = Some f"
  shows "if running f then \<exists>!ta. ta \<in> mem (threads p) \<and> act (snd z) ta = Some fa
    else \<not> (\<exists>ta\<in>mem (threads p). act (snd z) ta = Some fa)"
proof -
  have p: "proc_inv env (snd z) p" by (rule kinv_proc [OF reachable_kinv_aux [OF assms(1)] assms(2,3)])
  have "ta = tb" if "ta \<in> mem (threads p)" "tb \<in> mem (threads p)" "act (snd z) ta = Some fa" "act (snd z) tb = Some fa"
    for ta tb using inj_onD [OF proc_inj [OF p], of ta tb] that by simp
  then show ?thesis using fiber_invD [OF proc_fiber [OF p assms(4)] assms(5)] by auto
qed

theorem fibers_exclusive_witness:
  "\<exists>pa p fa f. pa \<in> mem (list_process demo3) \<and> procs demo3 pa = Some p \<and> fa \<in> mem (fibers p) \<and>
     fibs demo3 fa = Some f \<and> index f = 1 \<and> (\<exists>!ta. ta \<in> mem (threads p) \<and> act demo3 ta = Some fa)"
proof (rule search_process_cases [of demo_env demo3 7])
  show k: "kinv demo_env demo3" using demo3 by simp
  fix pa p assume pa: "search_process demo_env 7 demo3 = Inr (Some pa)" "pa \<in> mem (list_process demo3)"
    "procs demo3 pa = Some p" "proc_inv demo_env demo3 p"
  have a: "abs_proc demo_env demo3 p = \<lparr>next_index = 2, live = {0, 1}, cur = [7 \<mapsto> 1]\<rparr>"
    using abs_found [OF pa(1,3)] demo3 by simp
  then obtain fa f where f: "fa \<in> mem (fibers p)" "fibs demo3 fa = Some f" "index f = 1"
    using live_iff [of 1 demo_env demo3 p] by auto
  have "running f" using running_iff_cur [OF pa(4) f(1,2)] f(3) by (simp add: a)
  then have "\<exists>!ta. ta \<in> mem (threads p) \<and> act demo3 ta = Some fa"
    using fibers_exclusive [OF demo_reachable, unfolded snd_conv, OF pa(2,3) f(1,2)] by simp
  with pa(2,3) f show ?thesis by blast
next
  assume "search_process demo_env 7 demo3 = Inr None"
  from abs_absent [OF this] show ?thesis using demo3 by simp
qed

text \<open>C1. No command faults or blocks: in a reachable state every command of a caller that keeps to
  \<open>call_safe\<close> returns (no NULL or dangling pointer, no access outside an object, no lock taken
  twice).\<close>

theorem commands_return:
  assumes "reachable env z" "call_safe env cmd c (snd z)"
  shows "\<exists>r s'. my_ioctl env cmd c (snd z) = Inr (r, s')"
  by (rule my_ioctl_total [OF reachable_kinv_aux [OF assms(1)] assms(2)])

theorem commands_return_witness:
  "\<exists>r s'. my_ioctl demo_env CREATEFIBER (demo_call 7 7 0) demo3 = Inr (r, s')"
  using commands_return [OF demo_reachable, of CREATEFIBER "demo_call 7 7 0"] by simp

text \<open>The probes on \<^verbatim>\<open>do_exit\<close> and \<^verbatim>\<open>finish_task_switch\<close> return in every reachable state,
  for whatever task they are called.\<close>

theorem probes_return:
  assumes "reachable env z"
  shows "(\<exists>r s'. Pre_Handler env c (snd z) = Inr (r, s')) \<and>
    (\<exists>sc s'. switch_handler env cpu task t1 t2 scheduled (snd z) = Inr (sc, s'))"
  using Pre_Handler_total [OF reachable_kinv_aux [OF assms]] switch_handler_total [OF reachable_kinv_aux [OF assms]]
  by blast

theorem probes_return_witness: "\<exists>r s'. Pre_Handler demo_env (demo_call 7 7 0) demo3 = Inr (r, s')"
  using probes_return [OF demo_reachable, of "demo_call 7 7 0"] by simp

section \<open>Refinement\<close>

text \<open>C6. \<^verbatim>\<open>SWITCHTOFIBER\<close> does what its specification says, return value included: it succeeds
  exactly when the argument names a live fiber of the process that no thread runs and the caller is
  registered, and then the caller runs that fiber.\<close>

theorem ioctl_switch_refines:
  assumes "kinv env s" "ioctl_switch env c s = Inr (r, s')"
  shows "(r, kabs env s') = spec_switch c (kabs env s)"
  by (rule switch_refines [OF assms])

theorem ioctl_switch_refines_witness:
  "(0, kabs demo_env demo4) = spec_switch (demo_call 7 7 0) (kabs demo_env demo3)"
  using ioctl_switch_refines [of demo_env demo3 "demo_call 7 7 0" 0 demo4] demo3 demo4 by blast

text \<open>\<^verbatim>\<open>CONVERTTOFIBER\<close> does what its specification says: it registers the thread, makes a
  running fiber of it under the next index, and refuses a thread that is already registered.\<close>

theorem ioctl_convert_refines:
  assumes "kinv env s" "next_index_ok env c s" "ioctl_convert env c s = Inr (r, s')"
  shows "(r, kabs env s') = spec_convert c (kabs env s)"
  by (rule convert_refines [OF assms])

theorem ioctl_convert_refines_witness:
  "(0, kabs demo_env demo1) = spec_convert (demo_call 7 7 0) (kabs demo_env demo0)"
proof (rule ioctl_convert_refines [OF demo0(1)])
  show "next_index_ok demo_env (demo_call 7 7 0) demo0" by (rule demo_next)
  show "ioctl_convert demo_env (demo_call 7 7 0) demo0 = Inr (0, demo1)" using demo1 by simp
qed

text \<open>\<^verbatim>\<open>CREATEFIBER\<close> does what its specification says: a registered thread gets the next index,
  which names a fiber nobody runs.\<close>

theorem ioctl_create_refines:
  assumes "kinv env s" "next_index_ok env c s" "ioctl_create env c s = Inr (r, s')"
  shows "(r, kabs env s') = spec_create c (kabs env s)"
  by (rule create_refines [OF assms])

theorem ioctl_create_refines_witness:
  "(1, kabs demo_env demo2) = spec_create (demo_call 7 7 0) (kabs demo_env demo1)"
proof (rule ioctl_create_refines)
  show "kinv demo_env demo1" "ioctl_create demo_env (demo_call 7 7 0) demo1 = Inr (1, demo2)"
    using demo1 demo2 by simp_all
  show "next_index_ok demo_env (demo_call 7 7 0) demo1" by (rule demo_next)
qed

text \<open>The probe on \<^verbatim>\<open>do_exit\<close> does what its specification says: the thread and the fiber it
  runs are gone, and its process leaves with them when no thread of any process is registered any
  more.\<close>

theorem Pre_Handler_refines:
  assumes "kinv env s" "Pre_Handler env c s = Inr (r, s')"
  shows "kabs env s' = spec_exit c (kabs env s)"
  by (rule exit_refines [OF assms])

theorem Pre_Handler_refines_witness:
  "\<exists>r s'. Pre_Handler demo_env (demo_call 7 7 0) demo3 = Inr (r, s') \<and> kabs demo_env s' = Map.empty"
proof -
  have k: "kinv demo_env demo3" using demo3 by simp
  then obtain r s' where r: "Pre_Handler demo_env (demo_call 7 7 0) demo3 = Inr (r, s')"
    using Pre_Handler_total by blast
  have "kabs demo_env s' = Map.empty"
    using Pre_Handler_refines [OF k r] demo3 by (auto simp: spec_exit_def spec_idle_def Let_def fun_eq_iff ran_def)
  with r show ?thesis by blast
qed

text \<open>C9. Whole runs: from a state within the invariant, whatever sequence of commands, exits and
  reschedulings comes, what its clients can observe of the module is what the specification says of the
  same sequence, if the two hashes the module computes agree on the indexes handed out: with \<open>n\<close> of them
  handed out before and \<open>m\<close> conversions and creations in the run, on the first \<open>n + m\<close>.\<close>

theorem run_refines:
  assumes "kexec env z es z'" "kinv env (snd z)" "handed_out n (kabs env (snd z))"
    and "\<And>j. j < n + creations es \<Longrightarrow> index_ok env (of_nat j)"
  shows "kabs env (snd z') = fold spec_event es (kabs env (snd z))"
  by (rule krun_abs [OF kexec_krun [OF assms] assms(2)])

theorem run_refines_witness: "kabs demo_env demo4 = fold spec_event demo_events Map.empty"
proof -
  have "handed_out 0 (kabs demo_env demo0)" by (simp add: demo0 handed_out_def)
  from run_refines [OF demo_exec, of 0] this show ?thesis using demo_creations by (simp add: demo0)
qed

text \<open>A second process registers.\<close>

definition demo6 :: kstate where
  "demo6 = then_state demo2 (ioctl_convert demo_env (demo_call 9 9 0) demo2)"

lemma demo6: "ioctl_convert demo_env (demo_call 9 9 0) demo2 = Inr (0, demo6) \<and> kinv demo_env demo6 \<and>
    kabs demo_env demo6 = [7 \<mapsto> \<lparr>next_index = 2, live = {0, 1}, cur = [7 \<mapsto> 0]\<rparr>,
      9 \<mapsto> \<lparr>next_index = 1, live = {0}, cur = [9 \<mapsto> 0]\<rparr>]"
  using demo2 by (intro convert_step)
    (auto simp: demo6_def spec_convert_def spec_register_def no_fibers_def split: if_splits)

text \<open>C14. Processes are isolated: a run in which no command and no exit of process \<open>tg\<close> occurs leaves
  its fibers, their indexes and who runs them as they are.\<close>

theorem processes_isolated:
  assumes "krun env z es z'" "kinv env (snd z)" "\<And>e. e \<in> set es \<Longrightarrow> event_tgid e \<noteq> Some tg"
  shows "kabs env (snd z') tg = kabs env (snd z) tg"
  unfolding krun_abs [OF assms(1,2)] by (rule fold_spec_event_other) (rule assms(3))

theorem processes_isolated_witness:
  "kabs demo_env demo6 7 = kabs demo_env demo2 7 \<and> kabs demo_env demo2 7 \<noteq> None \<and> kabs demo_env demo6 \<noteq> kabs demo_env demo2"
proof -
  have k: "kinv demo_env demo2" using demo2 by simp
  have "next_index_ok demo_env (demo_call 9 9 0) demo2" by (rule next_index_okI) (use demo2 in auto)
  moreover have "kstep demo_env (\<lambda>_. None, demo2) (Ioctl CONVERTTOFIBER (demo_call 9 9 0)) (\<lambda>_. None, demo6)"
    using demo6 by (auto simp: kstep_ioctl_iff no_out_def)
  ultimately have "krun demo_env (\<lambda>_. None, demo2) [Ioctl CONVERTTOFIBER (demo_call 9 9 0)] (\<lambda>_. None, demo6)"
    by (auto intro!: krun.intros)
  from processes_isolated [OF this, of 7] have "kabs demo_env demo6 7 = kabs demo_env demo2 7" using k by fastforce
  moreover have "kabs demo_env demo6 9 \<noteq> kabs demo_env demo2 9" using demo2 demo6 by simp
  ultimately show ?thesis using demo2 by auto
qed

section \<open>Contexts\<close>

text \<open>C4. A fiber that is left is resumed where it was left: the thread that switches to it next
  finds the general registers and the FX registers it had when it was left, and its local storage is
  untouched, whatever other threads, fibers, exits and reschedulings came in between.\<close>

theorem context_round_trip:
  assumes env: "env_ok env" and k: "kinv env s"
    and away: "ioctl_switch env c s = Inr (0, s1)" "caller_fiber env c s = Some fa" "fibs s fa = Some f"
    and run: "krun env (sc, s1) es (sc', s2)" "\<And>e. e \<in> set es \<Longrightarrow> \<not> asks_for e (c_tgid c) (index f)"
    and same: "search_process env (c_tgid c) s2 = search_process env (c_tgid c) s"
    and again: "ioctl_switch env d s2 = Inr (0, s3)" "c_tgid d = c_tgid c" "int_cut (c_arg d) = index f"
  shows "uregs s3 (c_pid d) = uregs s (c_pid c) \<and> ufx s3 (c_pid d) = ufx s (c_pid c) \<and>
    (\<exists>f3. fibs s3 fa = Some f3 \<and> index f3 = index f \<and> fls_bitmap f3 = fls_bitmap f \<and> fls_array f3 = fls_array f)"
proof (rule switch_success_cases [OF k away(1)])
  fix pa p ta t af fo fb g
  assume s1: "s1 = switched env c ta af fb s" and pa: "search_process env (c_tgid c) s = Inr (Some pa)"
    "pa \<in> mem (list_process s)" "procs s pa = Some p" "p_pid p = c_tgid c"
    and af: "af \<in> mem (fibers p)" "fibs s af = Some fo" "running fo"
    and fb: "fibs s fb = Some g" "\<not> running g" and "caller_fiber env c s = Some af"
  then have [simp]: "af = fa" "fo = f" using away by auto
  have "fa \<noteq> fb" using af fb by auto
  from switched_fibers(1) [OF this away(3) fb(1), of env c ta] obtain f1 where
    f1: "fibs s1 fa = Some f1" "regs f1 = uregs s (c_pid c)" "fpu_reg f1 = fxsave env (ufx s (c_pid c)) (fpu_reg f)"
      "\<not> running f1" "index f1 = index f" "fls_bitmap f1 = fls_bitmap f" "fls_array f1 = fls_array f"
    unfolding s1 by simp blast
  have "parked s1 pa p fa f1" using pa af f1 by (simp add: parked_def s1)
  moreover have "kinv env s1" by (rule ioctl_switch_kinv [OF k away(1)])
  ultimately have "uregs s3 (c_pid d) = regs f1 \<and> ufx s3 (c_pid d) = fxrstor env (fpu_reg f1) \<and>
    fibs s3 fa = Some (f1\<lparr>running := True, activations := activations f1 + 1, starting_time := nanos (ts2 d)\<rparr>)"
    using resume_parked [OF run(1), of pa p fa f1 d s3] run(2) pa same again f1(5) by simp
  then show ?thesis using f1 env by (simp add: env_ok_def)
qed

theorem context_round_trip_witness:
  "uregs demo4 7 = uregs demo2 7 \<and> ufx demo4 7 = ufx demo2 7"
proof -
  have k: "kinv demo_env demo2" and sw: "ioctl_switch demo_env (demo_call 7 7 1) demo2 = Inr (0, demo3)"
    using demo2 demo3 by simp_all
  show ?thesis
  proof (rule switch_success_cases [OF k sw])
    fix pa p ta t af fo fb g
    assume d: "demo3 = switched demo_env (demo_call 7 7 1) ta af fb demo2"
      and pa: "search_process demo_env (c_tgid (demo_call 7 7 1)) demo2 = Inr (Some pa)" "procs demo2 pa = Some p"
      and ta: "pid_find demo_env (tkey demo2) (c_pid (demo_call 7 7 1)) (threads p) = Inr (Some ta)"
        "thrs demo2 ta = Some t" "active_fiber t = Some af"
      and af: "fibs demo2 af = Some fo" and cf: "caller_fiber demo_env (demo_call 7 7 1) demo2 = Some af"
    have "act demo2 ta = Some af" using ta(2,3) by (simp add: act_def)
    then have "cur (abs_proc demo_env demo2 p) 7 = Some (index fo)"
      using cur_abs_proc(2) [OF ta(1) _ af] by simp
    moreover have "abs_proc demo_env demo2 p = \<lparr>next_index = 2, live = {0, 1}, cur = [7 \<mapsto> 0]\<rparr>"
      using abs_found [OF pa] demo2 by simp
    ultimately have i: "index fo = 0" by simp
    have "search_process demo_env 7 demo3 = search_process demo_env 7 demo2"
      by (simp add: d)
    then show ?thesis
      using context_round_trip [OF demo_env_ok k sw cf af krun.nil, where d = "demo_call 7 7 0" and ?s3.0 = demo4] demo4 i
      by (simp add: int_cut_def)
  qed
qed

text \<open>A created fiber starts as it was asked to: whoever first switches to it, at any later time,
  continues with the registers its creator had, except for the instruction pointer, the stack and frame
  pointer and the first argument, which are those passed to \<^verbatim>\<open>CREATEFIBER\<close>; its FX registers are
  the creator's.\<close>

theorem created_fiber_starts:
  assumes env: "env_ok env" and k: "kinv env s" and ix: "next_index_ok env c s"
    and reg: "kabs env s (c_tgid c) = Some q" "cur q (c_pid c) \<noteq> None" and u: "user_create c = Some u"
    and create: "ioctl_create env c s = Inr (i, s1)"
    and run: "krun env (sc, s1) es (sc', s2)" "\<And>e. e \<in> set es \<Longrightarrow> \<not> asks_for e (c_tgid c) i"
    and same: "search_process env (c_tgid c) s2 = search_process env (c_tgid c) s1"
    and first: "ioctl_switch env d s2 = Inr (0, s3)" "c_tgid d = c_tgid c" "int_cut (c_arg d) = i"
  shows "uregs s3 (c_pid d) = (uregs s (c_pid c))[slot_sp env := dwStackPointer u, slot_ip env := lpStartAddress u,
      slot_di env := lpParameter u, slot_bp env := dwStackPointer u] \<and>
    ufx s3 (c_pid d) = ufx s (c_pid c)"
proof -
  obtain pa p where p: "search_process env (c_tgid c) s1 = Inr (Some pa)" "p_pid p = c_tgid c"
    "parked s1 pa p (brk s) (init_created env c s u i (zero_fiber env))"
    using created_fiber_parked [OF k ix reg u create] by blast
  have "uregs s3 (c_pid d) = regs (init_created env c s u i (zero_fiber env)) \<and>
    ufx s3 (c_pid d) = fxrstor env (fpu_reg (init_created env c s u i (zero_fiber env)))"
    using resume_parked [OF run(1), of pa p "brk s" "init_created env c s u i (zero_fiber env)" d s3]
      ioctl_create_kinv [OF k ix create] p run(2) same first by simp
  then show ?thesis using init_created_regs [OF env kinv_uregs [OF k]] by simp
qed

theorem created_fiber_starts_witness:
  "uregs demo3 7 = (uregs demo1 7)[19 := 0x7ff8, 16 := 0x400000, 14 := 42, 4 := 0x7ff8]"
proof -
  have k: "kinv demo_env demo1" and q: "kabs demo_env demo1 7 = Some \<lparr>next_index = 1, live = {0}, cur = [7 \<mapsto> 0]\<rparr>"
    and c: "ioctl_create demo_env (demo_call 7 7 0) demo1 = Inr (1, demo2)"
    and d: "ioctl_switch demo_env (demo_call 7 7 1) demo2 = Inr (0, demo3)"
    using demo1 demo2 demo3 by simp_all
  have u: "user_create (demo_call 7 7 0) = Some \<lparr>dwStackPointer = 0x7ff8, lpStartAddress = 0x400000, lpParameter = 42\<rparr>"
    by (simp add: demo_call_def)
  show ?thesis
    using created_fiber_starts [OF demo_env_ok k demo_next(2) _ _ u c krun.nil _ refl d] q
    by (simp add: int_cut_def) (simp add: demo_env_def)
qed

text \<open>A thread's first fiber: \<^verbatim>\<open>CONVERTTOFIBER\<close> makes the thread run a fiber whose entry point
  is the thread's instruction pointer, marked running, activated once, with empty local storage, its
  clock started. (Its saved registers are zero rather than the thread's: \<^verbatim>\<open>bitmap_zero\<close> runs over
  them after they were copied.)\<close>

theorem converted_fiber:
  assumes "env_ok env" "kinv env s" "next_index_ok env c s" "ok_fiber c" "ok_process c" "ok_thread c"
    and "\<And>q. kabs env s (c_tgid c) = Some q \<Longrightarrow> cur q (c_pid c) = None"
    and "ioctl_convert env c s = Inr (r, s')"
  shows "\<exists>fa f. caller_fiber env c s' = Some fa \<and> fibs s' fa = Some f \<and> index f = r \<and> running f \<and>
    starting_point f = uregs s (c_pid c) ! slot_ip env \<and> activations f = 1 \<and> failed_activations f = 0 \<and>
    fls_bitmap f = 0 \<and> starting_time f = nanos (ts1 c) \<and> total_time f = 0 \<and>
    regs f = replicate (nregs env) 0 \<and> fxrstor env (fpu_reg f) = ufx s (c_pid c)"
proof -
  have l: "length (uregs s (c_pid c)) = nregs env" by (rule kinv_uregs [OF assms(2)])
  have "starting_point (init_converted env c s r (zero_fiber env)) = uregs s (c_pid c) ! slot_ip env"
    by (simp add: init_converted_def bitmap_zero_def Let_def)
  moreover have "regs (init_converted env c s r (zero_fiber env)) = replicate (nregs env) 0"
    "fxrstor env (fpu_reg (init_converted env c s r (zero_fiber env))) = ufx s (c_pid c)"
    using assms(1) l
    by (simp_all add: init_converted_def bitmap_zero_def zero_prefix_def MAX_FLS_def BITS_PER_LONG_def env_ok_def Let_def)
  ultimately show ?thesis using converted_fiber_state [OF assms(2-8)] by fastforce
qed

theorem converted_fiber_witness:
  "\<exists>fa f. caller_fiber demo_env (demo_call 7 7 0) demo1 = Some fa \<and> fibs demo1 fa = Some f \<and>
    starting_point f = 7 \<and> regs f = replicate 21 0 \<and> fxrstor demo_env (fpu_reg f) = [1, 2]"
proof -
  have c: "ioctl_convert demo_env (demo_call 7 7 0) demo0 = Inr (0, demo1)" using demo1 by simp
  have v: "uregs demo0 7 ! slot_ip demo_env = 7" "nregs demo_env = 21" "ufx demo0 7 = [1, 2]"
    by (simp_all add: demo0_def init_state_def demo_env_def)
  show ?thesis
    using converted_fiber [OF demo_env_ok demo0(1) demo_next(1) _ _ _ _ c] v by (fastforce simp: demo0)
qed

section \<open>Life and death of a process\<close>

text \<open>The abstract state is well formed: indexes are handed out in order, every thread runs a live
  fiber of its process, no two threads the same one.\<close>

theorem abstract_state_wf:
  assumes "reachable env z" "kabs env (snd z) tg = Some q"
  shows "(\<forall>i\<in>live q. i < next_index q) \<and> ran (cur q) \<subseteq> live q \<and> inj_on (cur q) (dom (cur q))"
  using kabs_wf [OF reachable_kinv_aux [OF assms(1)] assms(2)] by blast

theorem abstract_state_wf_witness: "ran [7 :: pid_t \<mapsto> 1 :: u64] \<subseteq> {0, 1}"
  using abstract_state_wf [OF demo_reachable, of 7] demo3 by simp

text \<open>A process outlives its threads as long as another process has any: \<^verbatim>\<open>count_threads\<close>
  counts the threads of all processes, so the exit of a process's last thread leaves its entry and its
  idle fibers, and the next process with that id continues its numbering and can switch to them.\<close>

theorem process_inherited:
  assumes k: "kinv env s" and q: "kabs env s (c_tgid c) = Some q" "cur q = [c_pid c \<mapsto> i]"
    and other: "tg \<noteq> c_tgid c" "kabs env s tg = Some q'" "cur q' \<noteq> Map.empty"
    and exit: "Pre_Handler env c s = Inr (r, s1)"
    and convert: "c_tgid d = c_tgid c" "next_index_ok env d s1" "ok_thread d" "ioctl_convert env d s1 = Inr (j, s2)"
  shows "j = next_index q \<and> kabs env s2 (c_tgid c) =
    Some \<lparr>next_index = next_index q + 1, live = insert (next_index q) (live q - {i}), cur = [c_pid d \<mapsto> next_index q]\<rparr>"
proof -
  let ?q = "q\<lparr>live := live q - {i}, cur := (cur q)(c_pid c := None)\<rparr>"
  have "\<not> spec_idle ((kabs env s)(c_tgid c \<mapsto> ?q))"
    using other by (auto simp: spec_idle_def ran_def)
  then have "kabs env s1 = (kabs env s)(c_tgid c \<mapsto> ?q)"
    using exit_refines [OF k exit] q by (simp add: spec_exit_def Let_def)
  moreover have "cur ?q = Map.empty" using q(2) by auto
  ultimately show ?thesis
    using convert_refines [OF Pre_Handler_kinv [OF k exit] convert(2,4)] convert(1,3)
    by (simp add: spec_convert_def spec_register_def)
qed

theorem process_inherited_witness:
  "\<exists>r s1 s2. Pre_Handler demo_env (demo_call 7 7 0) demo6 = Inr (r, s1) \<and>
    ioctl_convert demo_env (demo_call 7 7 0) s1 = Inr (2, s2) \<and>
    kabs demo_env s2 7 = Some \<lparr>next_index = 3, live = {1, 2}, cur = [7 \<mapsto> 2]\<rparr>"
proof -
  let ?c = "demo_call 7 7 0"
  have k: "kinv demo_env demo6" and q: "kabs demo_env demo6 7 = Some \<lparr>next_index = 2, live = {0, 1}, cur = [7 \<mapsto> 0]\<rparr>"
    "kabs demo_env demo6 9 = Some \<lparr>next_index = 1, live = {0}, cur = [9 \<mapsto> 0]\<rparr>"
    using demo6 by simp_all
  obtain r s1 where r: "Pre_Handler demo_env ?c demo6 = Inr (r, s1)" using Pre_Handler_total [OF k] by blast
  have "kabs demo_env s1 7 = Some \<lparr>next_index = 2, live = {1}, cur = Map.empty\<rparr>"
    using exit_refines [OF k r] demo6 by (auto simp: spec_exit_def spec_idle_def ran_def Let_def)
  then have ix: "next_index_ok demo_env ?c s1" by (intro next_index_okI) auto
  have k1: "kinv demo_env s1" by (rule Pre_Handler_kinv [OF k r])
  obtain j s2 where j: "ioctl_convert demo_env ?c s1 = Inr (j, s2)" using convert_total [OF k1, of ?c] by auto
  show ?thesis
    using process_inherited [OF k, of ?c "\<lparr>next_index = 2, live = {0, 1}, cur = [7 \<mapsto> 0]\<rparr>" 0 9
        "\<lparr>next_index = 1, live = {0}, cur = [9 \<mapsto> 0]\<rparr>" r s1 ?c j s2] q r ix j
    by (auto simp: insert_commute)
qed

text \<open>C34. A fiber is lost when the kernel's two hash functions disagree on its index: it is filed under
  the hash of an \<^verbatim>\<open>unsigned long\<close> and searched under that of an \<^verbatim>\<open>int\<close>, so
  \<^verbatim>\<open>CREATEFIBER\<close> hands out an index no switch ever finds.\<close>

theorem fiber_lost:
  assumes k: "kinv env s" and q: "kabs env s (c_tgid c) = Some q"
    and hash: "hash_32 env (ucast (next_index q)) \<noteq> hash_long env (next_index q)" "unat (next_index q) < 2 ^ 31"
    and create: "ioctl_create env c s = Inr (i, s1)" "i \<noteq> - 1"
    and d: "c_tgid d = c_tgid c" "int_cut (c_arg d) = i"
  shows "i = next_index q \<and> ioctl_switch env d s1 = Inr (- 1, s1)"
proof -
  have args: "ok_args c" using create(1) by (cases "ok_args c") (auto simp: ioctl_create_def case_prod_beta)
  show ?thesis
    using k args
  proof (cases rule: ioctl_create_cases)
    case (success u pa p ta)
    let ?f = "init_created env c s u (fiber_id p) (zero_fiber env)"
    let ?p = "p\<lparr>fiber_id := fiber_id p + 1, fibers := hash_add (hash_long env (fiber_id p)) (brk s) (fibers p)\<rparr>"
    note p = kinv_proc [OF k success(5,6)]
    have s1: "s1 = kfree_args True (link_fiber env pa (brk s) ?f p (create_entry env c s))" "i = fiber_id p"
      using success(1) create(1) by simp_all
    have n: "next_index q = fiber_id p" using q abs_found [OF success(4,6)] by (auto simp: abs_proc_def)
    have ps: "procs s1 = (procs s)(pa \<mapsto> ?p)" "list_process s1 = list_process s"
      by (simp_all add: s1 link_fiber_def kfree_args_def)
    have fs: "fibs s1 a = (if a = brk s then Some ?f else fibs s a)" for a
      using create_entry_fiber [OF success(2)] by (simp add: s1 link_fiber_def kfree_args_def)
    have pk: "pkey s1 = pkey s" using success(6) by (auto simp: pkey_def ps)
    then have sp: "search_process env (c_tgid d) s1 = Inr (Some pa)"
      using success(4) d(1) by (simp add: search_process_def ps)
    have arg: "ucast (c_arg d) = (ucast (fiber_id p) :: u32)" "scast (ucast (c_arg d) :: u32) = fiber_id p"
      using ucast_int_cut [of "c_arg d"] d(2) s1(2) by (simp_all add: int_cut_def)
    have "chain_find (fkey s1) (\<lambda>k. k = fiber_id p) (fibers p b) = Inr None" for b
    proof (rule chain_find_None)
      fix a assume "a \<in> set (fibers p b)"
      then have a: "a \<in> mem (fibers p)" by (auto simp: mem_def)
      then have "a \<noteq> brk s" using linked_below(3) [OF k, of a] linked_linked(2) success(5,6) by blast
      moreover obtain f where "fibs s a = Some f" "index f < fiber_id p" using proc_fiber [OF p a] by (auto simp: fiber_inv_def)
      ultimately show "\<exists>k. fkey s1 a = Some k \<and> k \<noteq> fiber_id p" by (auto simp: fkey_def fs)
    qed
    then have "search_fiber env (ucast (c_arg d)) pa s1 = Inr None"
      using hash(1) arg by (simp add: search_fiber_def ps n hash_add_def)
    from ioctl_switch_refused(1) [OF sp _ _ _ this, of ?p] proc_locks [OF p] ps s1(2) n show ?thesis by simp
  qed (use create in auto)
qed

definition split_env :: kenv where
  "split_env = demo_env\<lparr>hash_long := (\<lambda>k. if k = 1 then 5 else unat k mod 1024)\<rparr>"

lemma created_index:
  assumes k: "kinv env s" and q: "kabs env s (c_tgid c) = Some q" "cur q (c_pid c) \<noteq> None" "user_create c \<noteq> None"
    and r: "ioctl_create env c s = Inr (i, s')"
  shows "i = next_index q"
proof -
  have args: "ok_args c" using r by (cases "ok_args c") (auto simp: ioctl_create_def case_prod_beta)
  show ?thesis
    using k args
  proof (cases rule: ioctl_create_cases)
    case refused
    with q show ?thesis by (auto simp: abs_absent)
  next
    case (unknown pa p)
    from q abs_found [OF unknown(2,3)] cur_abs_proc(1) [OF unknown(4)] show ?thesis by auto
  next
    case (success u pa p ta)
    then show ?thesis using r q abs_found [OF success(4,6)] by (auto simp: abs_proc_def)
  qed (use r in simp)
qed

theorem fiber_lost_witness:
  "\<exists>s1 s2. ioctl_convert split_env (demo_call 7 7 0) demo0 = Inr (0, s1) \<and>
    ioctl_create split_env (demo_call 7 7 0) s1 = Inr (1, s2) \<and>
    ioctl_switch split_env (demo_call 7 7 1) s2 = Inr (- 1, s2)"
proof -
  let ?c = "demo_call 7 7 0"
  define s1 where "s1 = then_state demo0 (ioctl_convert split_env ?c demo0)"
  have k0: "kinv split_env demo0" "kabs split_env demo0 = Map.empty"
    by (simp_all add: demo0_def kabs_init) (simp add: kinv_init split_env_def demo_env_def)
  have i0: "index_ok split_env 0" by (simp add: index_ok_def split_env_def demo_env_def)
  have s1: "ioctl_convert split_env ?c demo0 = Inr (0, s1) \<and> kinv split_env s1 \<and>
      kabs split_env s1 = [7 \<mapsto> \<lparr>next_index = 1, live = {0}, cur = [7 \<mapsto> 0]\<rparr>]"
    by (rule convert_step [OF k0(1) _ i0]) (simp_all add: s1_def k0 spec_convert_def spec_register_def no_fibers_def)
  then have k: "kinv split_env s1" and q: "kabs split_env s1 7 = Some \<lparr>next_index = 1, live = {0}, cur = [7 \<mapsto> 0]\<rparr>"
    by simp_all
  obtain i s2 where c: "ioctl_create split_env ?c s1 = Inr (i, s2)" using create_total [OF k, of ?c] by auto
  have i: "i = 1"
    using created_index [OF k, of ?c "\<lparr>next_index = 1, live = {0}, cur = [7 \<mapsto> 0]\<rparr>" i s2] q c by simp
  show ?thesis
    using fiber_lost [OF k, of ?c _ i s2 "demo_call 7 7 1"] q c s1 i
    by (simp add: int_cut_def) (simp add: split_env_def demo_env_def)
qed

section \<open>Error paths\<close>

text \<open>A refused \<^verbatim>\<open>CREATEFIBER\<close> leaks: from a process the module does not know it returns
  \<open>-1\<close> with the argument buffer and a fiber nothing points to still allocated.\<close>

theorem create_refused_leaks:
  assumes "kinv env s" "kabs env s (c_tgid c) = None" "ok_args c" "ok_fiber c"
  shows "\<exists>s'. ioctl_create env c s = Inr (- 1, s') \<and> bufs_live s' = Suc (bufs_live s) \<and>
    fibs s (brk s) = None \<and> fibs s' (brk s) = Some (zero_fiber env) \<and> brk s \<notin> all_fibers s'"
proof -
  have n: "search_process env (c_tgid c) s = Inr None"
    by (rule search_process_cases [OF assms(1), of "c_tgid c"]) (use assms(2) in \<open>auto simp: abs_found\<close>)
  have f: "fibs (create_entry env c s) (brk s) = Some (zero_fiber env)" using create_entry_fiber(1) [OF assms(4)] by simp
  have u: "brk s \<notin> all_fibers (create_entry env c s)"
    using linked_below(3) [OF assms(1), of "brk s"] by (auto simp: all_fibers_def)
  have b: "bufs_live (create_entry env c s) = Suc (bufs_live s)"
    using assms(3,4) by (simp add: create_entry_def kzalloc_fiber_def kzalloc_args_def)
  have "ioctl_create env c s = Inr (- 1, create_entry env c s)"
    using assms(1,3) by (cases rule: ioctl_create_cases) (use n assms(4) in simp_all)
  then show ?thesis using f u b kinv_fresh [OF assms(1), of "brk s"] by blast
qed

theorem create_refused_leaks_witness:
  "\<exists>s'. ioctl_create demo_env (demo_call 7 7 0) demo0 = Inr (- 1, s') \<and> bufs_live s' = 1"
  using create_refused_leaks [OF demo0(1), of "demo_call 7 7 0"] by (simp add: demo0) (auto simp: demo0_def init_state_def)

text \<open>Only the low 32 bits of the argument of \<^verbatim>\<open>SWITCHTOFIBER\<close> count: it passes through the
  \<^verbatim>\<open>int\<close> parameter of \<^verbatim>\<open>search_fiber\<close>, so a number that names no fiber can switch to
  one.\<close>

theorem switch_argument_truncated:
  "ioctl_switch env (c\<lparr>c_arg := c_arg c + 2 ^ 32\<rparr>) s = ioctl_switch env c s"
proof -
  have "uint (ucast (c_arg c + 2 ^ 32) :: u32) = uint (ucast (c_arg c) :: u32)"
    by (simp add: unsigned_ucast_eq uint_word_ariths take_bit_eq_mod mod_mod_cancel)
  then have "ucast (c_arg c + 2 ^ 32) = (ucast (c_arg c) :: u32)" by (simp only: word_uint_eq_iff)
  then show ?thesis
    by (simp add: ioctl_switch_def switch_context_def cong: option.case_cong sum.case_cong prod.case_cong if_cong)
qed

end
